(* ===== verification/Prelude.thy ===== *)
theory Prelude
  imports Main "HOL-Library.Word"
begin

text \<open>
  Shared vocabulary of the development: the machine integer types of the kernel's C code, the
  result type of operations that may panic, the theorem collections the component theories fill,
  and generic lemmas on words, lists and bounded loops that more than one component uses.
\<close>

unbundle bit_operations_syntax

section \<open>Machine integers\<close>

type_synonym u8 = "8 word"
type_synonym u16 = "16 word"
type_synonym u32 = "32 word"
type_synonym u64 = "64 word"

text \<open>The C types \<open>int\<close> and \<open>int32_t\<close>, read through \<^const>\<open>sint\<close>.\<close>

type_synonym i32 = "32 word"

section \<open>Operations that may panic\<close>

text \<open>
  \<open>panic()\<close> never returns: an operation that calls it ends in \<open>Inl\<close> of the message, any other
  path ends in \<open>Inr\<close> of the state it leaves.
\<close>

type_synonym 'a outcome = "string + 'a"

section \<open>Theorem collections\<close>

named_theorems mem_simps \<open>reads over writes of the byte memory\<close>
named_theorems disj_intros \<open>separation of 8-byte cells\<close>
named_theorems bitmap_simps \<open>reads over updates of bitmaps\<close>

section \<open>Words\<close>

lemma unat_u64_bound: "unat (a :: u64) < 2 ^ 64"
proof -
  have "unat a < 2 ^ LENGTH(64)" by (rule unsigned_less)
  then show ?thesis by simp
qed

lemma unat_add_no_wrap:
  fixes a b :: "'a::len word"
  assumes "unat a + unat b < 2 ^ LENGTH('a)"
  shows "unat (a + b) = unat a + unat b"
  using assms by (simp add: unat_word_ariths)

lemma unat_of_nat_small:
  assumes "n < 2 ^ LENGTH('a::len)"
  shows "unat (of_nat n :: 'a word) = n"
  using assms by (simp add: unat_of_nat take_bit_eq_mod)

lemma unat_of_nat_u64: "n \<le> 18446744073709551615 \<Longrightarrow> unat (of_nat n :: u64) = n"
  by (rule unat_of_nat_small) simp

lemma unat_add_of_nat:
  fixes a :: "'a::len word"
  assumes "unat a + n < 2 ^ LENGTH('a)"
  shows "unat (a + of_nat n) = unat a + n"
proof -
  have "n < 2 ^ LENGTH('a)" using assms by simp
  then have "unat (of_nat n :: 'a word) = n" by (rule unat_of_nat_small)
  then show ?thesis using assms by (simp add: unat_add_no_wrap)
qed

lemma unat_diff_le:
  fixes a b :: "'a::len word"
  assumes "a \<le> b"
  shows "unat (b - a) = unat b - unat a"
  using assms by (simp add: unat_sub)

lemma unat_diff_wrap:
  fixes a b :: "'a::len word"
  assumes "b < a"
  shows "unat (b - a) = 2 ^ LENGTH('a) + unat b - unat a"
  using assms by (simp add: unat_sub_if' word_less_nat_alt not_le)

lemma less8_cases:
  assumes "(n::nat) < 8"
  obtains "n = 0" | "n = 1" | "n = 2" | "n = 3" | "n = 4" | "n = 5" | "n = 6" | "n = 7"
  using assms by force

section \<open>Words put together from bytes\<close>

text \<open>The word whose \<open>k\<close> low bytes are those \<open>f\<close> gives from index \<open>j\<close> on, lowest first.\<close>

definition join_bytes :: "(nat \<Rightarrow> u8) \<Rightarrow> nat \<Rightarrow> nat \<Rightarrow> 'a::len word" where
  "join_bytes f j k = foldr (\<lambda>i acc. push_bit 8 acc OR ucast (f i)) [j..<j + k] 0"

lemma bit_u8: "bit (b :: u8) n \<Longrightarrow> n < 8"
  by (drule bit_imp_le_length) simp

lemma join_bytes_Suc:
  "join_bytes f j (Suc k) = push_bit 8 (join_bytes f (Suc j) k) OR (ucast (f j) :: 'a::len word)"
  by (simp add: join_bytes_def upt_conv_Cons del: upt_Suc)

lemma bit_join_bytes:
  "bit (join_bytes f j k :: 'a::len word) n \<longleftrightarrow>
     n < LENGTH('a) \<and> n < 8 * k \<and> bit (f (j + n div 8)) (n mod 8)"
proof (induction k arbitrary: j n)
  case 0
  then show ?case by (simp add: join_bytes_def)
next
  case (Suc k)
  show ?case
  proof (cases "n < 8")
    case True
    then show ?thesis by (auto simp: join_bytes_Suc bit_or_iff bit_push_bit_iff bit_ucast_iff)
  next
    case False
    then obtain l where l: "n = 8 + l" by (metis le_Suc_ex not_less)
    have "\<not> bit (f j) n" using False by (auto dest: bit_u8)
    moreover have "j + (8 + l) div 8 = Suc (j + l div 8)" by simp
    ultimately show ?thesis using False Suc.IH [of "Suc j" l]
      by (auto simp: join_bytes_Suc bit_or_iff bit_push_bit_iff bit_ucast_iff l simp del: div_add_self1)
  qed
qed

text \<open>The low \<open>n\<close> bytes of a word, lowest first.\<close>

definition le_bytes :: "nat \<Rightarrow> 'a::len word \<Rightarrow> u8 list" where
  "le_bytes n v = map (\<lambda>i. ucast (drop_bit (8 * i) v)) [0..<n]"

section \<open>Bounded search\<close>

text \<open>A \<open>for\<close> loop that leaves at the first index satisfying a test.\<close>

fun find_from :: "(nat \<Rightarrow> bool) \<Rightarrow> nat \<Rightarrow> nat \<Rightarrow> nat option" where
  "find_from P i 0 = None"
| "find_from P i (Suc n) = (if P i then Some i else find_from P (Suc i) n)"

lemma find_from_Some:
  "find_from P i n = Some k \<Longrightarrow> i \<le> k \<and> k < i + n \<and> P k \<and> (\<forall>j. i \<le> j \<and> j < k \<longrightarrow> \<not> P j)"
  by (induction P i n rule: find_from.induct) (auto split: if_splits simp: less_Suc_eq_le Suc_le_eq nat_less_le)

lemma find_from_None: "find_from P i n = None \<Longrightarrow> i \<le> j \<Longrightarrow> j < i + n \<Longrightarrow> \<not> P j"
  by (induction P i n rule: find_from.induct) (auto split: if_splits simp: Suc_le_eq nat_less_le)

end
