(* ===== verification/Memory.thy ===== *)
theory Memory
  imports Prelude
begin

text \<open>
  The flat byte memory that Dawn, the interpreter and the translated code share, and the 64-bit
  accesses to it: native little-endian loads and stores, \<open>__builtin_bswap64\<close>, and the big-endian
  accesses \<open>dawn_readram\<close>/\<open>dawn_writeram\<close> of dawn.c, which jit.c has as \<open>rd\<close>/\<open>wr\<close>.
\<close>

type_synonym mem = "u64 \<Rightarrow> u8"

section \<open>Native accesses and byte swapping\<close>

definition load64 :: "mem \<Rightarrow> u64 \<Rightarrow> u64" where
  "load64 m a = join_bytes (\<lambda>i. m (a + of_nat i)) 0 8"

definition store64 :: "mem \<Rightarrow> u64 \<Rightarrow> u64 \<Rightarrow> mem" where
  "store64 m a v = (\<lambda>x. if x - a < 8 then ucast (drop_bit (8 * unat (x - a)) v) else m x)"

definition bswap64 :: "u64 \<Rightarrow> u64" where
  "bswap64 v = join_bytes (\<lambda>i. ucast (drop_bit (8 * (7 - i)) v)) 0 8"

definition dawn_readram :: "mem \<Rightarrow> u64 \<Rightarrow> u64" where
  "dawn_readram m addr = (let val = load64 m addr in bswap64 val)"

definition dawn_writeram :: "mem \<Rightarrow> u64 \<Rightarrow> u64 \<Rightarrow> mem" where
  "dawn_writeram m addr value = store64 m addr (bswap64 value)"

lemma bit_load64:
  "bit (load64 m a) n \<longleftrightarrow> n < 64 \<and> bit (m (a + of_nat (n div 8))) (n mod 8)"
  by (auto simp: load64_def bit_join_bytes)

lemma bit_bswap64:
  "bit (bswap64 v) n \<longleftrightarrow> n < 64 \<and> bit v (8 * (7 - n div 8) + n mod 8)"
  by (auto simp: bswap64_def bit_join_bytes bit_ucast_iff bit_drop_bit_eq)

lemma bswap_index:
  assumes "(n::nat) < 64"
  shows "8 * (7 - n div 8) + n mod 8 < 64"
    and "8 * (7 - (8 * (7 - n div 8) + n mod 8) div 8) + (8 * (7 - n div 8) + n mod 8) mod 8 = n"
proof -
  define q r where "q = n div 8" and "r = n mod 8"
  have q: "q < 8" and r: "r < 8" and n: "n = 8 * q + r"
    using assms by (simp_all add: q_def r_def)
  have d: "(8 * (7 - q) + r) div 8 = 7 - q" and m: "(8 * (7 - q) + r) mod 8 = r"
    using r by simp_all
  show "8 * (7 - n div 8) + n mod 8 < 64"
    using q r by (simp add: q_def [symmetric] r_def [symmetric])
  show "8 * (7 - (8 * (7 - n div 8) + n mod 8) div 8) + (8 * (7 - n div 8) + n mod 8) mod 8 = n"
    using q unfolding q_def [symmetric] r_def [symmetric] d m by (simp add: n)
qed

lemma bswap64_bswap64 [simp]: "bswap64 (bswap64 v) = v"
proof (rule bit_word_eqI)
  fix n assume "n < LENGTH(64)"
  then have n: "n < 64" by simp
  show "bit (bswap64 (bswap64 v)) n = bit v n"
    using n bswap_index(1) [OF n] by (simp only: bit_bswap64 bswap_index(2) [OF n] simp_thms)
qed

lemma bswap64_eq_iff [simp]: "bswap64 v = bswap64 w \<longleftrightarrow> v = w"
  by (metis bswap64_bswap64)

section \<open>Cells\<close>

text \<open>
  Two 8-byte cells are separate when each starts at least 8 bytes after the other, counting up
  from it and wrapping around: then no byte is in both.
\<close>

definition disj8 :: "u64 \<Rightarrow> u64 \<Rightarrow> bool" where
  "disj8 a b \<longleftrightarrow> 8 \<le> b - a \<and> 8 \<le> a - b"

lemma disj8_sym: "disj8 a b \<Longrightarrow> disj8 b a"
  by (simp add: disj8_def)

lemma disj8_commute: "disj8 a b \<longleftrightarrow> disj8 b a"
  by (auto simp: disj8_def)

lemma in_cell_iff: "x - a < (8::u64) \<longleftrightarrow> (\<exists>i<8. x = a + of_nat i)"
proof
  assume "x - a < 8"
  then have "unat (x - a) < 8" by (simp add: word_less_nat_alt)
  moreover have "x = a + of_nat (unat (x - a))" by simp
  ultimately show "\<exists>i<8. x = a + of_nat i" by blast
next
  assume "\<exists>i<8. x = a + of_nat i"
  then obtain i where "i < 8" "x = a + of_nat i" by blast
  then show "x - a < 8" by (simp add: word_less_nat_alt unat_of_nat_small)
qed

lemma cell_byte_less: "i < 8 \<Longrightarrow> (a + of_nat i) - a < (8::u64)"
  using in_cell_iff by blast

lemma disj8_byte:
  assumes "disj8 a b" "i < 8"
  shows "\<not> (b + of_nat i) - a < (8::u64)"
proof
  assume "(b + of_nat i) - a < 8"
  then obtain j where j: "j < 8" "b + of_nat i = a + of_nat j" using in_cell_iff by blast
  show False
  proof (cases "i \<le> j")
    case True
    then have "b - a = of_nat (j - i)" using j(2) by (simp add: of_nat_diff algebra_simps)
    then show False using assms(1) j(1) by (auto simp: disj8_def word_le_nat_alt unat_of_nat_small)
  next
    case False
    then have "a - b = of_nat (i - j)" using j(2) by (simp add: of_nat_diff algebra_simps)
    then show False using assms by (auto simp: disj8_def word_le_nat_alt unat_of_nat_small)
  qed
qed

lemma load64_store64_same [mem_simps]: "load64 (store64 m a v) a = v"
proof (rule bit_word_eqI)
  fix n assume "n < LENGTH(64)"
  then have n: "n < 64" by simp
  then have "n div 8 < 8" by simp
  then show "bit (load64 (store64 m a v) a) n = bit v n" using n
    by (simp add: bit_load64 store64_def word_less_nat_alt unat_of_nat_small bit_ucast_iff bit_drop_bit_eq)
qed

lemma load64_cong: "(\<And>i. i < 8 \<Longrightarrow> m (a + of_nat i) = m' (a + of_nat i)) \<Longrightarrow> load64 m a = load64 m' a"
  by (rule bit_word_eqI) (simp add: bit_load64)

lemma load64_zero: "(\<And>i. i < 8 \<Longrightarrow> m (a + of_nat i) = 0) \<Longrightarrow> load64 m a = 0"
  by (rule bit_word_eqI) (simp add: bit_load64)

lemma load64_store64_disj [mem_simps]: "disj8 a b \<Longrightarrow> load64 (store64 m a v) b = load64 m b"
  by (rule load64_cong) (simp add: store64_def disj8_byte)

lemma store64_outside: "\<not> x - a < 8 \<Longrightarrow> store64 m a v x = m x"
  by (simp add: store64_def)

lemma load64_eq_imp_byte:
  assumes "load64 m a = load64 m' a" "x - a < 8"
  shows "m x = m' x"
proof (rule bit_word_eqI)
  fix n assume "n < LENGTH(8)"
  then have n: "n < 8" by simp
  obtain i where i: "i < 8" "x = a + of_nat i" using assms(2) in_cell_iff by blast
  have "bit (load64 m a) (8 * i + n) = bit (load64 m' a) (8 * i + n)" using assms(1) by simp
  then show "bit (m x) n = bit (m' x) n" using n i by (simp add: bit_load64)
qed

text \<open>Separation from bounds, from alignment, and between constant offsets of one base.\<close>

lemma disj8I:
  assumes "unat a + 8 \<le> unat b" "unat b + 8 \<le> 2 ^ 64"
  shows "disj8 a b"
proof -
  have "a < b" using assms(1) by (simp add: word_less_nat_alt)
  then have "unat (b - a) = unat b - unat a" "unat (a - b) = 2 ^ 64 + unat a - unat b"
    by (simp_all add: unat_diff_le unat_diff_wrap)
  then show ?thesis using assms unat_u64_bound [of b] by (auto simp: disj8_def word_le_nat_alt)
qed

lemma disj8_or:
  assumes "unat a + 8 \<le> unat b \<or> unat b + 8 \<le> unat a" "unat a + 8 \<le> 2 ^ 64" "unat b + 8 \<le> 2 ^ 64"
  shows "disj8 a b"
  using assms disj8I [of a b] disj8I [of b a] disj8_sym by blast

lemma aligned8_iff: "(a::u64) AND 7 = 0 \<longleftrightarrow> unat a mod 8 = 0"
proof -
  have "a AND 7 = take_bit 3 a"
    by (simp add: take_bit_eq_mask mask_eq_exp_minus_1)
  then have "unat (a AND 7) = unat a mod 8"
    by (simp add: take_bit_eq_mod unat_mod_distrib)
  then show ?thesis by (metis unat_eq_zero)
qed

lemma aligned8_disj:
  assumes "unat a mod 8 = 0" "unat b mod 8 = 0" "a \<noteq> b"
  shows "disj8 a b"
proof -
  obtain i j where i: "unat a = 8 * i" and j: "unat b = 8 * j" using assms by (auto elim!: dvdE)
  have "i \<noteq> j" using i j assms(3) by (metis word_unat_eq_iff)
  moreover have "8 * i < 2 ^ 64" "8 * j < 2 ^ 64"
    using i j unat_u64_bound [of a] unat_u64_bound [of b] by simp_all
  ultimately show ?thesis using i j by (intro disj8_or) auto
qed

lemma disj8_offset: "disj8 (a + b) (a + c) \<longleftrightarrow> disj8 b c"
  by (simp add: disj8_def)

lemma mem_eqI:
  assumes "\<And>a. a \<in> A \<Longrightarrow> load64 m a = load64 m' a"
    and "\<And>x. (\<And>a. a \<in> A \<Longrightarrow> \<not> x - a < 8) \<Longrightarrow> m x = m' x"
  shows "m = m'"
proof
  fix x
  show "m x = m' x"
  proof (cases "\<exists>a\<in>A. x - a < 8")
    case True
    then show ?thesis using assms(1) load64_eq_imp_byte by blast
  next
    case False
    then show ?thesis using assms(2) by blast
  qed
qed

section \<open>The interface of a word store\<close>

text \<open>
  What the clients of 64-bit memory rely on: a cell reads back what was last written to it, and a
  write leaves separate cells alone.
\<close>

locale word_store =
  fixes rd :: "'m \<Rightarrow> u64 \<Rightarrow> u64" and wr :: "'m \<Rightarrow> u64 \<Rightarrow> u64 \<Rightarrow> 'm"
  assumes rd_wr_same: "rd (wr m a v) a = v"
    and rd_wr_disj: "disj8 a b \<Longrightarrow> rd (wr m a v) b = rd m b"
begin

definition writes :: "'m \<Rightarrow> (u64 \<times> u64) list \<Rightarrow> 'm" where
  "writes m ws = fold (\<lambda>(a, v) m. wr m a v) ws m"

lemma writes_simps [simp]: "writes m [] = m" "writes m ((a, v) # ws) = writes (wr m a v) ws"
  by (simp_all add: writes_def)

lemma rd_writes_disj: "(\<And>a v. (a, v) \<in> set ws \<Longrightarrow> disj8 a b) \<Longrightarrow> rd (writes m ws) b = rd m b"
proof (induction ws arbitrary: m)
  case Nil
  then show ?case by simp
next
  case (Cons w ws)
  obtain a v where w: "w = (a, v)" by (cases w)
  have "disj8 a b" using Cons.prems [of a v] by (simp add: w)
  moreover have "rd (writes (wr m a v) ws) b = rd (wr m a v) b"
    using Cons.prems by (intro Cons.IH) auto
  ultimately show ?case by (simp add: w rd_wr_disj)
qed

lemma rd_writes_last:
  assumes "\<And>b w. (b, w) \<in> set ws \<Longrightarrow> disj8 b a"
  shows "rd (writes m ((a, v) # ws)) a = v"
  using assms by (simp add: rd_writes_disj rd_wr_same)

text \<open>A list of writes to separate cells: every cell reads back its value.\<close>

fun apart :: "u64 list \<Rightarrow> bool" where
  "apart [] = True"
| "apart (a # as) = ((\<forall>b \<in> set as. disj8 a b) \<and> apart as)"

lemma rd_writes_apart: "apart (map fst ws) \<Longrightarrow> (a, v) \<in> set ws \<Longrightarrow> rd (writes m ws) a = v"
proof (induction ws arbitrary: m)
  case Nil
  then show ?case by simp
next
  case (Cons w ws)
  obtain b u where w: "w = (b, u)" by (cases w)
  show ?case
  proof (cases "(a, v) \<in> set ws")
    case True
    then show ?thesis using Cons by (simp add: w)
  next
    case False
    then have "a = b" "v = u" using Cons.prems(2) by (auto simp: w)
    moreover have "disj8 c b" if "(c, x) \<in> set ws" for c x
      using Cons.prems(1) that by (force simp: w disj8_commute)
    ultimately show ?thesis using rd_writes_last [of ws b m u] by (simp add: w)
  qed
qed

end

interpretation ne: word_store load64 store64
  by unfold_locales (auto simp: mem_simps)

interpretation be: word_store dawn_readram dawn_writeram
  by unfold_locales (auto simp: dawn_readram_def dawn_writeram_def mem_simps)

lemmas dawn_ram_simps [simp] = be.rd_wr_same be.rd_wr_disj

lemma dawn_readram_cong:
  "(\<And>i. i < 8 \<Longrightarrow> m (a + of_nat i) = m' (a + of_nat i)) \<Longrightarrow> dawn_readram m a = dawn_readram m' a"
  by (simp add: dawn_readram_def load64_cong [of m a m'])

lemma dawn_writeram_outside: "\<not> x - a < 8 \<Longrightarrow> dawn_writeram m a v x = m x"
  by (simp add: dawn_writeram_def store64_outside)

lemma dawn_mem_eqI:
  assumes "\<And>a. a \<in> A \<Longrightarrow> dawn_readram m a = dawn_readram m' a"
    and "\<And>x. (\<And>a. a \<in> A \<Longrightarrow> \<not> x - a < 8) \<Longrightarrow> m x = m' x"
  shows "m = m'"
  using assms by (intro mem_eqI [of A]) (auto simp: dawn_readram_def)

lemma dawn_write_read_same: "dawn_writeram m a (dawn_readram m a) = m"
  by (rule dawn_mem_eqI [of "{a}"]) (auto simp: dawn_writeram_outside)

end
