(* ===== verification/Subleq.thy ===== *)
theory Subleq
  imports Memory
begin

text \<open>
  The SUBLEQ machine. \<open>subleq_step\<close> is the instruction as jit.c states it ("branches are taken when
  B <= A as signed numbers"); \<open>interp_cycle\<close> is the macro of subleq.asm with the flags its \<open>sub\<close>
  sets and the \<open>jg\<close> that reads them, and \<open>subleq_interp\<close> the loop over four of them;
  \<open>hardware_step\<close> is the pseudocode of hardware.txt, which differs where the subtraction overflows.
\<close>

section \<open>One instruction\<close>

definition subleq_step :: "mem \<times> u64 \<Rightarrow> mem \<times> u64" where
  "subleq_step = (\<lambda>(m, eip).
     let a = dawn_readram m eip; b = dawn_readram m (eip + 8); c = dawn_readram m (eip + 16);
         va = dawn_readram m a; vb = dawn_readram m b
     in (dawn_writeram m b (vb - va), if vb \<le>s va then c else eip + 24))"

text \<open>hardware.txt branches on the sign of the stored difference.\<close>

definition hardware_step :: "mem \<times> u64 \<Rightarrow> mem \<times> u64" where
  "hardware_step = (\<lambda>(m, eip).
     let A = dawn_readram m eip; B = dawn_readram m (eip + 8); C = dawn_readram m (eip + 16);
         value_of_b = dawn_readram m B - dawn_readram m A
     in (dawn_writeram m B value_of_b, if value_of_b \<le>s 0 then C else eip + 24))"

section \<open>The assembly interpreter\<close>

text \<open>The flags \<open>sub dst, src\<close> leaves, and the condition of \<open>jg\<close>.\<close>

record flags =
  zf :: bool
  sf :: bool
  off :: bool

definition sub_flags :: "u64 \<Rightarrow> u64 \<Rightarrow> flags" where
  "sub_flags dst src =
     \<lparr>zf = (dst - src = 0), sf = bit (dst - src) 63, off = (sint dst - sint src \<noteq> sint (dst - src))\<rparr>"

definition jg :: "flags \<Rightarrow> bool" where
  "jg f \<longleftrightarrow> \<not> zf f \<and> sf f = off f"

definition interp_cycle :: "mem \<times> u64 \<Rightarrow> mem \<times> u64" where
  "interp_cycle = (\<lambda>(m, r12).
     let rsi = load64 m r12;
         rbx = load64 m (r12 + 8);
         rdi = load64 m (r12 + 16);
         r12 = r12 + 24;
         rsi = bswap64 rsi;
         rbx = bswap64 rbx;
         rax = load64 m rsi;
         rdx = load64 m rbx;
         rax = bswap64 rax;
         rdx = bswap64 rdx;
         fl = sub_flags rdx rax;
         rdx = rdx - rax;
         rdx = bswap64 rdx;
         m = store64 m rbx rdx
     in (m, if jg fl then r12 else bswap64 rdi))"

text \<open>
  \<open>.loop\<close> runs four cycles, takes 4 from \<open>rcx\<close> and goes round unless that left 0; \<open>None\<close> is a loop
  still running when the fuel is out.
\<close>

fun interp_loop :: "nat \<Rightarrow> u64 \<Rightarrow> mem \<times> u64 \<Rightarrow> (mem \<times> u64) option" where
  "interp_loop 0 rcx st = None"
| "interp_loop (Suc fuel) rcx st =
     (let st = interp_cycle (interp_cycle (interp_cycle (interp_cycle st)));
          rcx = rcx - 4
      in if rcx = 0 then Some st else interp_loop fuel rcx st)"

definition subleq_interp :: "nat \<Rightarrow> mem \<Rightarrow> u64 \<Rightarrow> u64 \<Rightarrow> (mem \<times> u64) option" where
  "subleq_interp fuel m eip count = interp_loop fuel count (m, eip)"

section \<open>Signed comparison and the flags\<close>

lemma sint_u64_bounds: "- (2 ^ 63) \<le> sint (x::u64)" "sint (x::u64) < 2 ^ 63"
  using sint_greater_eq [of x] sint_less [of x] by simp_all

lemma mod_2_64_cases:
  fixes d :: int
  assumes "- (2 ^ 64) < d" "d < 2 ^ 64"
  shows "(d + 2 ^ 63) mod 2 ^ 64 - 2 ^ 63 =
     (if d < - (2 ^ 63) then d + 2 ^ 64 else if 2 ^ 63 \<le> d then d - 2 ^ 64 else d)"
proof -
  consider "d < - (2 ^ 63)" | "- (2 ^ 63) \<le> d" "d < 2 ^ 63" | "2 ^ 63 \<le> d" by linarith
  then show ?thesis
  proof cases
    case 1
    then have "(d + 2 ^ 63 + 2 ^ 64) mod 2 ^ 64 = d + 2 ^ 63 + 2 ^ 64"
      using assms by (intro mod_pos_pos_trivial) simp_all
    then show ?thesis using 1 by (simp only: mod_add_self2) simp
  next
    case 2
    then show ?thesis by (simp add: mod_pos_pos_trivial)
  next
    case 3
    then have "(d + 2 ^ 63 - 2 ^ 64) mod 2 ^ 64 = d + 2 ^ 63 - 2 ^ 64"
      using assms by (intro mod_pos_pos_trivial) simp_all
    then show ?thesis using 3 by (simp only: minus_mod_self2) simp
  qed
qed

lemma sint_diff_u64:
  fixes x y :: u64
  shows "sint (x - y) =
     (if sint x - sint y < - (2 ^ 63) then sint x - sint y + 2 ^ 64
      else if 2 ^ 63 \<le> sint x - sint y then sint x - sint y - 2 ^ 64 else sint x - sint y)"
proof -
  have "x - y = (of_int (sint x - sint y) :: u64)" by simp
  then have "sint (x - y) = (sint x - sint y + 2 ^ 63) mod 2 ^ 64 - 2 ^ 63"
    using int_word_sint [of "sint x - sint y", where 'a = 64] by simp
  then show ?thesis
    using mod_2_64_cases [of "sint x - sint y"] sint_u64_bounds [of x] sint_u64_bounds [of y] by simp
qed

lemma sf_sint: "bit (x::u64) 63 \<longleftrightarrow> sint x < 0"
  by (simp add: bit_last_iff [of x, symmetric, simplified])

lemma sint_eq_iff: "sint (x::u64) = sint y \<longleftrightarrow> x = y"
  by (auto intro: signed_word_eqI)

lemma jg_iff: "jg (sub_flags dst src) \<longleftrightarrow> src <s dst"
  using sint_diff_u64 [of dst src] sint_u64_bounds [of dst] sint_u64_bounds [of src] sint_eq_iff [of dst src]
  by (auto simp: jg_def sub_flags_def sf_sint word_sless_alt split: if_splits)

section \<open>The assembly interpreter is the instruction\<close>

lemma interp_cycle_eq: "interp_cycle = subleq_step"
proof
  fix st :: "mem \<times> u64"
  obtain m eip where st: "st = (m, eip)" by (cases st)
  have "vb \<le>s va \<longleftrightarrow> \<not> va <s vb" for va vb :: u64
    by (auto simp: word_sle_eq word_sless_alt)
  then show "interp_cycle st = subleq_step st"
    by (simp add: st interp_cycle_def subleq_step_def dawn_readram_def dawn_writeram_def Let_def jg_iff)
qed

text \<open>Enough fuel, and a count that is a positive multiple of 4, run exactly \<open>count\<close> instructions.\<close>

lemma funpow_4: "(f ^^ 4) x = f (f (f (f x)))"
  by (simp add: numeral_eq_Suc)

lemma interp_loop_Suc:
  "interp_loop (Suc fuel) rcx st =
     (if rcx = 4 then Some ((subleq_step ^^ 4) st) else interp_loop fuel (rcx - 4) ((subleq_step ^^ 4) st))"
  by (simp add: interp_cycle_eq funpow_4 Let_def)

lemma interp_loop_run:
  assumes "unat rcx = 4 * Suc k" "Suc k \<le> fuel"
  shows "interp_loop fuel rcx st = Some ((subleq_step ^^ (4 * Suc k)) st)"
  using assms
proof (induction k arbitrary: fuel rcx st)
  case 0
  have "rcx = of_nat (unat rcx)" by simp
  then have "rcx = 4" using 0 by simp
  with 0 show ?case by (cases fuel) (simp_all add: interp_loop_Suc del: interp_loop.simps(2))
next
  case (Suc k)
  obtain f where f: "fuel = Suc f" using Suc.prems(2) by (cases fuel) auto
  have le: "4 \<le> rcx" using Suc.prems(1) by (simp add: word_le_nat_alt)
  then have u: "unat (rcx - 4) = 4 * Suc k" using Suc.prems(1) by (simp add: unat_diff_le)
  then have "rcx \<noteq> 4" by auto
  then have "interp_loop fuel rcx st = interp_loop f (rcx - 4) ((subleq_step ^^ 4) st)"
    unfolding f interp_loop_Suc by simp
  also have "\<dots> = Some ((subleq_step ^^ (4 * Suc k)) ((subleq_step ^^ 4) st))"
    using Suc.prems(2) u by (intro Suc.IH) (simp_all add: f)
  also have "(subleq_step ^^ (4 * Suc k)) ((subleq_step ^^ 4) st) = (subleq_step ^^ (4 * Suc k + 4)) st"
    by (simp only: funpow_add o_apply)
  also have "4 * Suc k + 4 = 4 * Suc (Suc k)" by simp
  finally show ?case .
qed

section \<open>hardware.txt\<close>

text \<open>The subtraction overflows when the exact difference is no 64-bit signed number.\<close>

definition sub_overflows :: "mem \<times> u64 \<Rightarrow> bool" where
  "sub_overflows = (\<lambda>(m, eip).
     let d = sint (dawn_readram m (dawn_readram m (eip + 8))) - sint (dawn_readram m (dawn_readram m eip))
     in d < - (2 ^ 63) \<or> 2 ^ 63 \<le> d)"

lemma hardware_branch:
  fixes va vb :: u64
  shows "((vb - va) \<le>s 0) = (vb \<le>s va) \<longleftrightarrow>
     \<not> (sint vb - sint va < - (2 ^ 63) \<or> 2 ^ 63 \<le> sint vb - sint va)"
  using sint_diff_u64 [of vb va] sint_u64_bounds [of vb] sint_u64_bounds [of va]
  by (auto simp: word_sle_eq split: if_splits)

text \<open>
  C1: Running subleq.asm's interpreter loop for a count that is a positive multiple of 4, as
  subleq.c does, ends, and leaves memory and eip as that many SUBLEQ instructions would: the
  branch \<open>jg\<close> takes from the flags is the signed comparison of the two operands.
\<close>

theorem subleq_interp_correct:
  assumes "count \<noteq> 0" and "unat count mod 4 = 0" and "unat count div 4 \<le> fuel"
  shows "subleq_interp fuel m eip count = Some ((subleq_step ^^ unat count) (m, eip))"
proof -
  have "unat count \<noteq> 0" using assms(1) by (simp add: unat_eq_zero)
  then obtain k where k: "unat count = 4 * Suc k"
    using assms(2) by (metis mod_0_imp_dvd dvdE mult_eq_0_iff not0_implies_Suc)
  then show ?thesis using assms(3) unfolding subleq_interp_def
    by (subst interp_loop_run [OF k]) simp_all
qed

text \<open>
  The emulated instruction and the pseudocode of hardware.txt store the same difference; they
  go to different addresses exactly when the exact signed difference does not fit 64 bits and the
  branch target is not the next instruction anyway.
\<close>

lemma hardware_step_differs_iff:
  "hardware_step (m, eip) \<noteq> subleq_step (m, eip) \<longleftrightarrow>
     sub_overflows (m, eip) \<and> dawn_readram m (eip + 16) \<noteq> eip + 24"
  using hardware_branch [of "dawn_readram m (dawn_readram m (eip + 8))" "dawn_readram m (dawn_readram m eip)"]
  by (auto simp: hardware_step_def subleq_step_def sub_overflows_def Let_def)

theorem subleq_interp_correct_witness:
  "subleq_interp 1024 (\<lambda>_. 0) 0x40 4096 = Some ((subleq_step ^^ 4096) (\<lambda>_. 0, 0x40))"
  using subleq_interp_correct [of 4096 1024 "\<lambda>_. 0" "0x40"] by simp

end
