(* ===== verification/Bitmap.thy ===== *)
theory Bitmap
  imports Memory
begin

text \<open>
  The shared maps of jit.c: one bit per 8-byte word of Dawn's memory in \<open>static_map\<close> and \<open>dyn_map\<close>
  (byte arrays, read and updated atomically), and one byte per page in \<open>page_map\<close>. \<open>word_set\<close> is
  the interface the rest of the translator uses them through: a set of words.
\<close>

type_synonym bytes = "u64 \<Rightarrow> u8"

section \<open>Bits\<close>

definition bit_get :: "bytes \<Rightarrow> u64 \<Rightarrow> bool" where
  "bit_get m w \<longleftrightarrow> drop_bit (unat (w AND 7)) (m (drop_bit 3 w)) AND 1 \<noteq> 0"

definition bit_set :: "bytes \<Rightarrow> u64 \<Rightarrow> bytes" where
  "bit_set m w = (let i = drop_bit 3 w in m(i := m i OR push_bit (unat (w AND 7)) 1))"

definition bit_clr :: "bytes \<Rightarrow> u64 \<Rightarrow> bytes" where
  "bit_clr m w = (let i = drop_bit 3 w in m(i := m i AND NOT (push_bit (unat (w AND 7)) 1)))"

lemma unat_and_7: "unat (w AND 7 :: u64) = unat w mod 8"
proof -
  have "w AND 7 = take_bit 3 w"
    by (simp add: take_bit_eq_mask mask_eq_exp_minus_1)
  then show ?thesis by (simp add: take_bit_eq_mod unat_mod_distrib)
qed

lemma unat_shr_3: "unat (drop_bit 3 w :: u64) = unat w div 8"
  by (simp add: drop_bit_eq_div unat_div_distrib)

lemma bit_get_iff: "bit_get m w \<longleftrightarrow> bit (m (drop_bit 3 w)) (unat w mod 8)"
proof -
  have "drop_bit n x AND 1 \<noteq> 0 \<longleftrightarrow> bit x n" for x :: u8 and n
    by (simp add: and_one_eq bit_iff_odd_drop_bit odd_iff_mod_2_eq_one)
  then show ?thesis by (simp add: bit_get_def unat_and_7)
qed

lemma word_split_eq: "drop_bit 3 v = drop_bit 3 w \<Longrightarrow> unat v mod 8 = unat w mod 8 \<Longrightarrow> v = (w :: u64)"
  by (metis unat_shr_3 div_mult_mod_eq word_unat_eq_iff)

lemma bit_u8_exp: "bit ((2::u8) ^ n) k \<longleftrightarrow> k = n \<and> k < 8"
  by (auto simp: bit_exp_iff possible_bit_def)

lemma bit_get_set: "bit_get (bit_set m w) v \<longleftrightarrow> v = w \<or> bit_get m v"
proof (cases "drop_bit 3 v = drop_bit 3 w")
  case True
  then show ?thesis using word_split_eq [of v w]
    by (auto simp: bit_get_iff bit_set_def bit_or_iff bit_u8_exp Let_def unat_and_7)
next
  case False
  then show ?thesis by (auto simp: bit_get_iff bit_set_def Let_def)
qed

lemma bit_get_clr: "bit_get (bit_clr m w) v \<longleftrightarrow> v \<noteq> w \<and> bit_get m v"
proof (cases "drop_bit 3 v = drop_bit 3 w")
  case True
  then show ?thesis using word_split_eq [of v w]
    by (auto simp: bit_get_iff bit_clr_def bit_and_iff bit_not_iff bit_u8_exp Let_def unat_and_7)
next
  case False
  then show ?thesis by (auto simp: bit_get_iff bit_clr_def Let_def)
qed

section \<open>The interface: a set of words\<close>

locale word_set =
  fixes get :: "'s \<Rightarrow> u64 \<Rightarrow> bool" and set_in :: "'s \<Rightarrow> u64 \<Rightarrow> 's" and clr :: "'s \<Rightarrow> u64 \<Rightarrow> 's"
  assumes get_set: "get (set_in m w) v \<longleftrightarrow> v = w \<or> get m v"
    and get_clr: "get (clr m w) v \<longleftrightarrow> v \<noteq> w \<and> get m v"
begin

definition members :: "'s \<Rightarrow> u64 set" where
  "members m = {w. get m w}"

lemma members_set: "members (set_in m w) = insert w (members m)"
  by (auto simp: members_def get_set)

lemma members_clr: "members (clr m w) = members m - {w}"
  by (auto simp: members_def get_clr)

lemma members_fold_set: "members (fold (\<lambda>w m. set_in m w) ws m) = set ws \<union> members m"
  by (induction ws arbitrary: m) (auto simp: members_set)

end

interpretation words: word_set bit_get bit_set bit_clr
  by unfold_locales (rule bit_get_set bit_get_clr)+

lemmas bit_get_simps [simp] = bit_get_set bit_get_clr

section \<open>Marking a static field\<close>

text \<open>
  The two maps a store is checked against. \<open>page_map\<close> has a byte per page, set when the page, or
  the start of the next one, holds a static field, so that the first byte of a store tells.
\<close>

record maps =
  static_map :: bytes
  page_map :: bytes

definition mark_static :: "maps \<Rightarrow> u64 \<Rightarrow> maps" where
  "mark_static M w =
     (let pg = drop_bit 12 (push_bit 3 w); p = (page_map M)(pg := 1)
      in M\<lparr>static_map := bit_set (static_map M) w,
           page_map := if pg \<noteq> 0 then p(pg - 1 := 1) else p\<rparr>)"

text \<open>
  What the page map promises: a store at \<open>b\<close> that reaches a marked word finds its page's byte set.
  The words are those of addresses, below \<open>2 ^ 61\<close>.
\<close>

definition page_cover :: "maps \<Rightarrow> bool" where
  "page_cover M \<longleftrightarrow>
     (\<forall>w. bit_get (static_map M) w \<longrightarrow>
        page_map M (drop_bit 12 (push_bit 3 w)) \<noteq> 0 \<and>
        (drop_bit 12 (push_bit 3 w) \<noteq> 0 \<longrightarrow> page_map M (drop_bit 12 (push_bit 3 w) - 1) \<noteq> 0))"

lemma page_cover_mark: "page_cover M \<Longrightarrow> page_cover (mark_static M w)"
  by (auto simp: page_cover_def mark_static_def Let_def)

lemma page_cover_clr: "page_cover M \<Longrightarrow> page_cover (M\<lparr>static_map := bit_clr (static_map M) w\<rparr>)"
  by (auto simp: page_cover_def)

lemma page_of_word: "drop_bit 12 (push_bit 3 (drop_bit 3 (b :: u64))) = drop_bit 12 b"
  by (rule bit_word_eqI) (auto simp: bit_drop_bit_eq bit_push_bit_iff dest: bit_imp_le_length)

lemma unat_shr_12: "unat (drop_bit 12 w :: u64) = unat w div 4096"
  by (simp add: drop_bit_eq_div unat_div_distrib)

lemma page_of_last_byte:
  fixes b :: u64
  assumes "unat b + 7 < 2 ^ 64"
  shows "drop_bit 12 (b + 7) = drop_bit 12 b \<or>
     drop_bit 12 (b + 7) \<noteq> 0 \<and> drop_bit 12 (b + 7) - 1 = drop_bit 12 b"
proof -
  have u: "unat (b + 7) = unat b + 7" using unat_add_no_wrap [of b 7] assms by simp
  have "(unat b + 7) div 4096 = unat b div 4096 \<or> (unat b + 7) div 4096 = Suc (unat b div 4096)"
    by linarith
  then show ?thesis
  proof
    assume "(unat b + 7) div 4096 = unat b div 4096"
    then have "drop_bit 12 (b + 7) = drop_bit 12 b"
      by (simp add: word_unat_eq_iff unat_shr_12 u)
    then show ?thesis ..
  next
    assume s: "(unat b + 7) div 4096 = Suc (unat b div 4096)"
    then have n: "unat (drop_bit 12 (b + 7)) = Suc (unat (drop_bit 12 b))" by (simp add: unat_shr_12 u)
    then have z: "drop_bit 12 (b + 7) \<noteq> 0" by (metis nat.distinct(1) unsigned_0)
    then have "unat (drop_bit 12 (b + 7) - 1) = unat (drop_bit 12 b)"
      using n by (simp add: unat_minus_one)
    then show ?thesis using z by (simp add: word_unat_eq_iff)
  qed
qed

lemma page_filter:
  assumes "page_cover M" and "unat b + 7 < 2 ^ 64" and "page_map M (drop_bit 12 b) = 0"
  shows "\<not> bit_get (static_map M) (drop_bit 3 b) \<and> \<not> bit_get (static_map M) (drop_bit 3 (b + 7))"
  using assms page_of_last_byte [OF assms(2)] page_of_word [of b] page_of_word [of "b + 7"]
  by (metis page_cover_def)

text \<open>The maps as the translator makes them: empty, then words marked and bits cleared in any order.\<close>

inductive maps_reach :: "maps \<Rightarrow> bool" where
  maps_empty: "maps_reach \<lparr>static_map = (\<lambda>_. 0), page_map = (\<lambda>_. 0)\<rparr>"
| maps_mark: "maps_reach M \<Longrightarrow> maps_reach (mark_static M w)"
| maps_clear: "maps_reach M \<Longrightarrow> maps_reach (M\<lparr>static_map := bit_clr (static_map M) w\<rparr>)"

lemma maps_reach_cover: "maps_reach M \<Longrightarrow> page_cover M"
proof (induction rule: maps_reach.induct)
  case maps_empty
  then show ?case by (simp add: page_cover_def bit_get_iff)
qed (simp_all add: page_cover_mark page_cover_clr)

text \<open>
  C28: What translated code relies on when it tests one byte of the page map for a store to a
  computed address: however the maps came about, if that byte is clear, neither of the words the
  eight bytes reach is marked static, also when the store runs into the next page.
\<close>

theorem page_filter_sound:
  assumes "maps_reach M" and "unat b + 7 < 2 ^ 64" and "page_map M (drop_bit 12 b) = 0"
  shows "\<not> bit_get (static_map M) (drop_bit 3 b) \<and> \<not> bit_get (static_map M) (drop_bit 3 (b + 7))"
  by (rule page_filter [OF maps_reach_cover [OF assms(1)] assms(2,3)])

text \<open>The word at 0x3000 is marked: stores on page 1 pass the filter, those on pages 2 and 3 do not.\<close>

theorem page_filter_sound_witness:
  "let M = mark_static \<lparr>static_map = (\<lambda>_. 0), page_map = (\<lambda>_. 0)\<rparr> 0x600
   in page_map M (drop_bit 12 0x2FFC) = 1 \<and> page_map M (drop_bit 12 0x3004) = 1 \<and>
      page_map M (drop_bit 12 0x1FFC) = 0 \<and> \<not> bit_get (static_map M) (drop_bit 3 (0x1FFC + 7))"
proof -
  let ?M = "mark_static \<lparr>static_map = (\<lambda>_. 0), page_map = (\<lambda>_. 0)\<rparr> 0x600"
  have r: "maps_reach ?M" by (intro maps_mark maps_empty)
  have p: "page_map ?M (drop_bit 12 0x2FFC) = 1 \<and> page_map ?M (drop_bit 12 0x3004) = 1 \<and>
      page_map ?M (drop_bit 12 0x1FFC) = 0" by code_simp
  have "\<not> bit_get (static_map ?M) (drop_bit 3 (0x1FFC + 7))"
    using page_filter_sound [OF r, of "0x1FFC"] p by simp
  then show ?thesis using p by (simp only: Let_def simp_thms)
qed

end
