(* ===== verification/Mem_Funcs.thy ===== *)
theory Mem_Funcs
  imports Memory
begin

text \<open>
  The byte copies: memory.c's \<open>memcpy\<close>, \<open>memset\<close>, \<open>memmove\<close> and \<open>memcmp\<close>, and the forward block
  copies of copy.asm that the translator's word copy loop may be given instead (\<open>copy_sse2\<close>,
  \<open>copy_avx\<close>, \<open>copy_avx512\<close>, which differ in the bytes they load before they store). The interface
  \<open>forward_copy\<close> is what the word copy loop asks of a copy: to be a simultaneous block copy
  whenever the destination does not start inside the source.
\<close>

section \<open>memory.c\<close>

definition copy_byte :: "u64 \<Rightarrow> u64 \<Rightarrow> nat \<Rightarrow> mem \<Rightarrow> mem" where
  "copy_byte d s i m = m(d + of_nat i := m (s + of_nat i))"

definition memcpy :: "mem \<Rightarrow> u64 \<Rightarrow> u64 \<Rightarrow> u64 \<Rightarrow> mem" where
  "memcpy m dest src n = fold (copy_byte dest src) [0..<unat n] m"

definition memset :: "mem \<Rightarrow> u64 \<Rightarrow> u32 \<Rightarrow> u64 \<Rightarrow> mem" where
  "memset m s c n = fold (\<lambda>i m. m(s + of_nat i := ucast c)) [0..<unat n] m"

definition memmove :: "mem \<Rightarrow> u64 \<Rightarrow> u64 \<Rightarrow> u64 \<Rightarrow> mem" where
  "memmove m dest src n =
     (if src > dest then fold (copy_byte dest src) [0..<unat n] m
      else if src < dest then fold (copy_byte dest src) (rev [0..<unat n]) m
      else m)"

definition memcmp :: "mem \<Rightarrow> u64 \<Rightarrow> u64 \<Rightarrow> u64 \<Rightarrow> int" where
  "memcmp m s1 s2 n =
     (case find_from (\<lambda>i. m (s1 + of_nat i) \<noteq> m (s2 + of_nat i)) 0 (unat n) of
        Some i \<Rightarrow> if m (s1 + of_nat i) < m (s2 + of_nat i) then -1 else 1
      | None \<Rightarrow> 0)"

section \<open>copy.asm\<close>

text \<open>
  One block: \<open>c\<close> bytes at \<open>rsi\<close> loaded whole, then stored at \<open>rdi\<close>. The state of the copy loops is
  \<open>rdi\<close>, \<open>rsi\<close>, \<open>rdx\<close> and memory; \<open>copy_blocks c\<close> is the loop over blocks of \<open>c\<close> bytes, \<open>copy_tail\<close>
  the macro for what is left, in words and then bytes.
\<close>

definition block_copy :: "mem \<Rightarrow> u64 \<Rightarrow> u64 \<Rightarrow> nat \<Rightarrow> mem" where
  "block_copy m d s n = (\<lambda>x. if unat (x - d) < n then m (s + (x - d)) else m x)"

fun copy_blocks :: "nat \<Rightarrow> nat \<Rightarrow> mem \<times> u64 \<times> u64 \<times> nat \<Rightarrow> mem \<times> u64 \<times> u64 \<times> nat" where
  "copy_blocks 0 c st = st"
| "copy_blocks (Suc fuel) c (m, rdi, rsi, rdx) =
     (if rdx < c then (m, rdi, rsi, rdx)
      else copy_blocks fuel c
             (block_copy m rdi rsi c, rdi + of_nat c, rsi + of_nat c, rdx - c))"

definition copy_tail :: "mem \<times> u64 \<times> u64 \<times> nat \<Rightarrow> mem \<times> u64 \<times> u64 \<times> nat" where
  "copy_tail st =
     (let (m, rdi, rsi, rdx) = st; w = copy_blocks rdx 8 (m, rdi, rsi, rdx)
      in copy_blocks rdx 1 w)"

definition copy_sse2 :: "mem \<Rightarrow> u64 \<Rightarrow> u64 \<Rightarrow> u64 \<Rightarrow> mem" where
  "copy_sse2 m d s n = fst (copy_tail (copy_blocks (unat n) 64 (m, d, s, unat n)))"

definition copy_avx :: "mem \<Rightarrow> u64 \<Rightarrow> u64 \<Rightarrow> u64 \<Rightarrow> mem" where
  "copy_avx m d s n = fst (copy_tail (copy_blocks (unat n) 128 (m, d, s, unat n)))"

definition copy_avx512 :: "mem \<Rightarrow> u64 \<Rightarrow> u64 \<Rightarrow> u64 \<Rightarrow> mem" where
  "copy_avx512 m d s n = fst (copy_tail (copy_blocks (unat n) 256 (m, d, s, unat n)))"

section \<open>Forward copies\<close>

text \<open>
  A forward copy of \<open>n\<close> bytes reads no byte it has written when the destination does not start
  inside the source (past its first byte).
\<close>

definition fwd_ok :: "u64 \<Rightarrow> u64 \<Rightarrow> nat \<Rightarrow> bool" where
  "fwd_ok d s n \<longleftrightarrow> d = s \<or> n \<le> unat (d - s)"

lemma block_copy_0 [simp]: "block_copy m d s 0 = m"
  by (simp add: block_copy_def)

lemma block_copy_outside: "n \<le> unat (x - d) \<Longrightarrow> block_copy m d s n x = m x"
  by (simp add: block_copy_def)

lemma block_copy_inside: "unat (x - d) < n \<Longrightarrow> block_copy m d s n x = m (s + (x - d))"
  by (simp add: block_copy_def)

lemma block_copy_self [simp]: "block_copy m d d n = m"
  by (rule ext) (simp add: block_copy_def)

lemma fwd_ok_mono: "fwd_ok d s n \<Longrightarrow> k \<le> n \<Longrightarrow> fwd_ok d s k"
  by (auto simp: fwd_ok_def)

lemma fwd_ok_shift: "fwd_ok (d + a) (s + a) n = fwd_ok d s n"
  by (auto simp: fwd_ok_def)

lemma unat_sub_k:
  assumes "k + l \<le> 2 ^ 64"
  shows "unat ((x::u64) - (d + of_nat k)) < l \<longleftrightarrow> l \<noteq> 0 \<and> k \<le> unat (x - d) \<and> unat (x - d) < k + l"
proof (cases "l = 0")
  case True
  then show ?thesis by simp
next
  case False
  then have k: "k < 2 ^ LENGTH(64)" using assms by simp
  define y where "y = x - d"
  have e: "x - (d + of_nat k) = y - of_nat k" by (simp add: y_def algebra_simps)
  show ?thesis
  proof (cases "k \<le> unat y")
    case True
    then have "(of_nat k :: u64) \<le> y" using k by (simp add: word_le_nat_alt unat_of_nat_small)
    then have "unat (y - of_nat k) = unat y - k" using k by (simp add: unat_diff_le unat_of_nat_small)
    then show ?thesis using True False by (auto simp: e y_def [symmetric])
  next
    case f: False
    then have "y < (of_nat k :: u64)" using k by (simp add: word_less_nat_alt unat_of_nat_small)
    then have "unat (y - of_nat k) = 2 ^ 64 + unat y - k"
      using k by (simp add: unat_diff_wrap unat_of_nat_small)
    then show ?thesis using f assms by (auto simp: e y_def [symmetric])
  qed
qed

text \<open>Two adjacent block copies are one, when the second reads nothing the first wrote.\<close>

lemma block_copy_append:
  assumes ok: "fwd_ok d s (k + l)" and b: "k + l \<le> 2 ^ 64"
  shows "block_copy (block_copy m d s k) (d + of_nat k) (s + of_nat k) l = block_copy m d s (k + l)"
proof (cases "d = s")
  case True
  then show ?thesis by simp
next
  case False
  then have ge: "k + l \<le> unat (d - s)" using ok by (simp add: fwd_ok_def)
  show ?thesis
  proof
    fix x
    define y where "y = x - d"
    have src: "s + of_nat k + (x - (d + of_nat k)) = s + y" by (simp add: y_def algebra_simps)
    consider "unat y < k" | "k \<le> unat y" "unat y < k + l" | "k + l \<le> unat y" by linarith
    then show "block_copy (block_copy m d s k) (d + of_nat k) (s + of_nat k) l x = block_copy m d s (k + l) x"
    proof cases
      case 1
      then show ?thesis
        using unat_sub_k [OF b, of x d] by (auto simp: block_copy_def y_def [symmetric])
    next
      case 2
      have "k \<le> unat (s + y - d)"
      proof -
        have le: "y \<le> d - s" using 2(2) ge by (simp add: word_le_nat_alt)
        have e: "s + y - d = y - (d - s)" by (simp add: algebra_simps)
        show ?thesis
        proof (cases "y = d - s")
          case True
          then show ?thesis using 2(2) ge by simp
        next
          case f: False
          then have "y < d - s" using le by simp
          then have "unat (s + y - d) = 2 ^ 64 + unat y - unat (d - s)"
            by (simp add: e unat_diff_wrap)
          then show ?thesis using 2(1) unat_u64_bound [of "d - s"] by linarith
        qed
      qed
      then show ?thesis
        using 2 unat_sub_k [OF b, of x d] by (auto simp: block_copy_def y_def [symmetric] src)
    next
      case 3
      then show ?thesis
        using unat_sub_k [OF b, of x d] by (auto simp: block_copy_def y_def [symmetric])
    qed
  qed
qed

lemma copy_byte_block: "copy_byte d s i m = block_copy m (d + of_nat i) (s + of_nat i) 1"
proof
  fix x
  have "unat (x - (d + of_nat i)) < 1 \<longleftrightarrow> x = d + of_nat i"
    by (auto simp: unat_eq_zero)
  then show "copy_byte d s i m x = block_copy m (d + of_nat i) (s + of_nat i) 1 x"
    by (auto simp: copy_byte_def block_copy_def)
qed

lemma copy_up_block:
  assumes "fwd_ok d s n" "n \<le> 2 ^ 64"
  shows "fold (copy_byte d s) [0..<n] m = block_copy m d s n"
  using assms
proof (induction n)
  case 0
  then show ?case by simp
next
  case (Suc n)
  have "fwd_ok d s n" using Suc.prems(1) by (rule fwd_ok_mono) simp
  then have "fold (copy_byte d s) [0..<n] m = block_copy m d s n" using Suc by simp
  then show ?case using block_copy_append [of d s n 1 m] Suc.prems
    by (simp add: copy_byte_block [of d s n])
qed

lemma copy_blocks_block:
  assumes "fwd_ok d s n" "n \<le> 2 ^ 64" "n \<le> fuel" "0 < c"
  shows "copy_blocks fuel c (m, d, s, n) =
     (block_copy m d s (n - n mod c), d + of_nat (n - n mod c), s + of_nat (n - n mod c), n mod c)"
  using assms
proof (induction fuel arbitrary: m d s n)
  case 0
  then show ?case by simp
next
  case (Suc fuel)
  show ?case
  proof (cases "n < c")
    case True
    then show ?thesis by simp
  next
    case False
    define r where "r = (n - c) - (n - c) mod c"
    have mod: "(n - c) mod c = n mod c" using False by (simp add: le_mod_geq)
    have le: "n mod c \<le> n - c" unfolding mod [symmetric] by simp
    have r: "n - n mod c = c + r" using False le by (simp add: r_def mod)
    have crn: "c + r \<le> n" unfolding r [symmetric] by simp
    have ok: "fwd_ok (d + of_nat c) (s + of_nat c) (n - c)"
      using Suc.prems(1) by (auto simp: fwd_ok_shift intro: fwd_ok_mono)
    have step: "block_copy (block_copy m d s c) (d + of_nat c) (s + of_nat c) r = block_copy m d s (c + r)"
      using Suc.prems crn by (intro block_copy_append) (auto intro: fwd_ok_mono)
    have "copy_blocks fuel c (block_copy m d s c, d + of_nat c, s + of_nat c, n - c) =
        (block_copy (block_copy m d s c) (d + of_nat c) (s + of_nat c) r,
         d + of_nat c + of_nat r, s + of_nat c + of_nat r, n mod c)"
      using Suc.IH [OF ok, of "block_copy m d s c"] False Suc.prems by (simp add: mod r_def)
    then show ?thesis unfolding r using False by (simp add: step add.assoc)
  qed
qed

lemma copy_tail_block:
  assumes "fwd_ok d s n" "n \<le> 2 ^ 64"
  shows "fst (copy_tail (m, d, s, n)) = block_copy m d s n"
proof -
  define k where "k = n - n mod 8"
  have n: "k + n mod 8 = n" by (simp add: k_def)
  have w: "copy_blocks n 8 (m, d, s, n) = (block_copy m d s k, d + of_nat k, s + of_nat k, n mod 8)"
    using copy_blocks_block [OF assms, of n 8 m] by (simp add: k_def)
  have ok: "fwd_ok (d + of_nat k) (s + of_nat k) (n mod 8)"
    using assms(1) by (auto simp: fwd_ok_shift intro: fwd_ok_mono)
  have "fst (copy_blocks n 1 (block_copy m d s k, d + of_nat k, s + of_nat k, n mod 8)) =
      block_copy (block_copy m d s k) (d + of_nat k) (s + of_nat k) (n mod 8)"
    using copy_blocks_block [OF ok, of n 1 "block_copy m d s k"] assms(2) by simp
  also have "\<dots> = block_copy m d s n"
    using block_copy_append [of d s k "n mod 8" m] assms by (simp add: n)
  finally show ?thesis by (simp add: copy_tail_def w)
qed

lemma block_loop_block:
  assumes "fwd_ok d s n" "n \<le> 2 ^ 64" "0 < c"
  shows "fst (copy_tail (copy_blocks n c (m, d, s, n))) = block_copy m d s n"
proof -
  define k where "k = n - n mod c"
  have n: "k + n mod c = n" by (simp add: k_def)
  have w: "copy_blocks n c (m, d, s, n) = (block_copy m d s k, d + of_nat k, s + of_nat k, n mod c)"
    using copy_blocks_block [OF assms(1,2), of n c m] assms(3) by (simp add: k_def)
  have ok: "fwd_ok (d + of_nat k) (s + of_nat k) (n mod c)"
    using assms(1) by (auto simp: fwd_ok_shift intro: fwd_ok_mono)
  have "n mod c \<le> 2 ^ 64" using assms(2) mod_less_eq_dividend [of n c] by linarith
  then show ?thesis
    using copy_tail_block [OF ok, of "block_copy m d s k"] block_copy_append [of d s k "n mod c" m] assms
    by (simp add: w n)
qed

text \<open>The backward copy \<open>memmove\<close> makes when the destination is above the source.\<close>

lemma block_copy_last:
  assumes ge: "Suc n \<le> unat (s - d)" and b: "Suc n \<le> 2 ^ 64"
  shows "block_copy (block_copy m (d + of_nat n) (s + of_nat n) 1) d s n = block_copy m d s (Suc n)"
proof
  fix x
  define y where "y = x - d"
  have last: "unat (z - (d + of_nat n)) < 1 \<longleftrightarrow> unat (z - d) = n" for z
    using unat_sub_k [of n 1 z d] b by auto
  have src: "s + of_nat n + (x - (d + of_nat n)) = s + y" by (simp add: y_def algebra_simps)
  have read: "unat (s + y - d) \<noteq> n" if "unat y < n"
  proof
    assume e: "unat (s + y - d) = n"
    have "s + y - d = (s - d) + y" by simp
    then have "n = unat ((s - d) + y)" using e by (simp only:)
    then have "n = (unat (s - d) + unat y) mod 2 ^ 64" by (simp add: unat_word_ariths)
    moreover have "unat (s - d) + unat y < 2 ^ 64 + n" using that unat_u64_bound [of "s - d"] by linarith
    ultimately show False using ge b
      by (cases "unat (s - d) + unat y < 2 ^ 64") (auto simp: le_mod_geq not_less)
  qed
  consider "unat y < n" | "unat y = n" | "n < unat y" by linarith
  then show "block_copy (block_copy m (d + of_nat n) (s + of_nat n) 1) d s n x = block_copy m d s (Suc n) x"
    using read last [of x] last [of "s + y"]
    by cases (auto simp: block_copy_def y_def [symmetric] src)
qed

lemma copy_down_block:
  assumes "n \<le> unat (s - d)" "n \<le> 2 ^ 64"
  shows "fold (copy_byte d s) (rev [0..<n]) m = block_copy m d s n"
  using assms
proof (induction n arbitrary: m)
  case 0
  then show ?case by simp
next
  case (Suc n)
  then show ?case using block_copy_last [of n s d m] by (simp add: copy_byte_block)
qed

lemma fwd_ok_below:
  assumes "d \<le> s" "unat s + n \<le> 2 ^ 64"
  shows "fwd_ok d s n"
proof (cases "d = s")
  case False
  then have "d < s" using assms(1) by simp
  then have "unat (d - s) = 2 ^ 64 + unat d - unat s" by (simp add: unat_diff_wrap)
  then show ?thesis using assms(2) unfolding fwd_ok_def by linarith
qed (simp add: fwd_ok_def)

lemma memcpy_block:
  "fwd_ok dest src (unat n) \<Longrightarrow> memcpy m dest src n = block_copy m dest src (unat n)"
  using unat_u64_bound [of n] by (simp add: memcpy_def copy_up_block)

lemma memmove_block:
  assumes "unat src + unat n \<le> 2 ^ 64" "unat dest + unat n \<le> 2 ^ 64"
  shows "memmove m dest src n = block_copy m dest src (unat n)"
proof -
  consider "dest < src" | "src < dest" | "src = dest" by force
  then show ?thesis
  proof cases
    case 1
    then show ?thesis using assms(1) unat_u64_bound [of n]
      by (simp add: memmove_def copy_up_block fwd_ok_below)
  next
    case 2
    then have "unat (src - dest) = 2 ^ 64 + unat src - unat dest" by (simp add: unat_diff_wrap)
    then have "unat n \<le> unat (src - dest)" using assms(2) by simp
    moreover have "\<not> dest < src" using 2 by auto
    ultimately show ?thesis using 2 unat_u64_bound [of n]
      by (simp add: memmove_def copy_down_block)
  next
    case 3
    then show ?thesis by (simp add: memmove_def)
  qed
qed

section \<open>The interface of a forward copy\<close>

locale forward_copy =
  fixes copy :: "mem \<Rightarrow> u64 \<Rightarrow> u64 \<Rightarrow> u64 \<Rightarrow> mem"
  assumes copy_block:
    "fwd_ok d s (unat n) \<Longrightarrow> unat s + unat n \<le> 2 ^ 64 \<Longrightarrow> unat d + unat n \<le> 2 ^ 64 \<Longrightarrow>
       copy m d s n = block_copy m d s (unat n)"

interpretation move_copy: forward_copy memmove
  by unfold_locales (rule memmove_block)

interpretation sse2: forward_copy copy_sse2
  using unat_u64_bound by unfold_locales (simp add: copy_sse2_def block_loop_block less_imp_le)

interpretation avx: forward_copy copy_avx
  using unat_u64_bound by unfold_locales (simp add: copy_avx_def block_loop_block less_imp_le)

interpretation avx512: forward_copy copy_avx512
  using unat_u64_bound by unfold_locales (simp add: copy_avx512_def block_loop_block less_imp_le)

text \<open>
  C37: \<open>memmove\<close> moves \<open>n\<close> bytes however source and destination overlap, each byte read as it was
  before the call, and touches no other byte; where no byte is written before it is read,
  \<open>memcpy\<close> and the vector copies of copy.asm, with their blocks and tails, do exactly the same.
\<close>

theorem copies_agree:
  assumes "unat src + unat n \<le> 2 ^ 64" "unat dest + unat n \<le> 2 ^ 64"
  shows "(\<forall>x. memmove m dest src n x = (if unat (x - dest) < unat n then m (src + (x - dest)) else m x)) \<and>
    (fwd_ok dest src (unat n) \<longrightarrow>
       memcpy m dest src n = memmove m dest src n \<and> copy_sse2 m dest src n = memmove m dest src n \<and>
       copy_avx m dest src n = memmove m dest src n \<and> copy_avx512 m dest src n = memmove m dest src n)"
proof -
  have "fwd_ok dest src (unat n) \<longrightarrow> copy_sse2 m dest src n = block_copy m dest src (unat n) \<and>
      copy_avx m dest src n = block_copy m dest src (unat n) \<and>
      copy_avx512 m dest src n = block_copy m dest src (unat n)"
    using assms by (simp add: sse2.copy_block avx.copy_block avx512.copy_block)
  then show ?thesis
    by (auto simp: memmove_block [OF assms] memcpy_block block_copy_def)
qed

theorem copies_agree_witness:
  "memmove (\<lambda>a. ucast a) 5 2 300 7 = 4 \<and> memmove (\<lambda>a. ucast a) 5 2 300 305 = 49 \<and>
   copy_avx512 (\<lambda>a. ucast a) 0x100 0x200 300 = memmove (\<lambda>a. ucast a) 0x100 0x200 300"
proof -
  have f: "fwd_ok 0x100 0x200 300" by (simp add: fwd_ok_def)
  show ?thesis
    using copies_agree [of 2 300 5 "\<lambda>a. ucast a"] copies_agree [of "0x200" 300 "0x100" "\<lambda>a. ucast a"] f by simp
qed

section \<open>Setting and comparing\<close>

lemma memset_fold:
  "k \<le> 2 ^ 64 \<Longrightarrow> fold (\<lambda>i (m::mem). m(s + of_nat i := b)) [0..<k] m = (\<lambda>x. if unat (x - s) < k then b else m x)"
proof (induction k)
  case 0
  then show ?case by simp
next
  case (Suc k)
  have "unat (x - s) = k \<longleftrightarrow> x = s + of_nat k" for x
  proof
    assume "unat (x - s) = k"
    then have "of_nat k = x - s" by auto
    then show "x = s + of_nat k" by simp
  next
    assume "x = s + of_nat k"
    then show "unat (x - s) = k" using Suc.prems by (simp add: unat_of_nat_u64)
  qed
  then show ?case using Suc by (auto simp: fun_eq_iff less_Suc_eq)
qed

lemma memset_bytes:
  "memset m s c n = (\<lambda>x. if unat (x - s) < unat n then ucast c else m x)"
  using unat_u64_bound [of n] by (simp add: memset_def memset_fold)

lemma memcmp_zero: "memcmp m s1 s2 n = 0 \<longleftrightarrow> (\<forall>i<unat n. m (s1 + of_nat i) = m (s2 + of_nat i))"
proof (cases "find_from (\<lambda>i. m (s1 + of_nat i) \<noteq> m (s2 + of_nat i)) 0 (unat n)")
  case None
  then show ?thesis using find_from_None [OF None] by (auto simp: memcmp_def)
next
  case (Some i)
  then show ?thesis using find_from_Some [OF Some] by (auto simp: memcmp_def)
qed

end
