(* ===== verification/Copy_Iter.thy ===== *)
theory Copy_Iter
  imports Copy_Loop
begin

text \<open>
  One iteration of the word copy loop, run instruction by instruction: 19 steps of the machine from
  the loop's start, with its code in memory and its variables apart from it, from each other and
  from the word copied.
\<close>

section \<open>The loop in memory\<close>

definition cd_sym :: "copy_desc \<Rightarrow> csym \<Rightarrow> u64" where
  "cd_sym ds x = (case x of
     X_T1 \<Rightarrow> cd_t1 ds | X_T2 \<Rightarrow> cd_t2 ds | X_S \<Rightarrow> cd_s ds | X_D \<Rightarrow> cd_d ds | X_C \<Rightarrow> cd_c ds | X_M \<Rightarrow> cd_m ds
   | X_F1 \<Rightarrow> cd_start ds + 5 * 24 | X_F2 \<Rightarrow> cd_start ds + 15 * 24 + 8
   | X_F3 \<Rightarrow> cd_start ds + 14 * 24 | X_F4 \<Rightarrow> cd_start ds + 14 * 24 + 8 | _ \<Rightarrow> 0)"

definition field_holds :: "mem \<Rightarrow> copy_desc \<Rightarrow> u64 \<Rightarrow> u64 \<Rightarrow> nat \<Rightarrow> csym \<Rightarrow> u64 \<Rightarrow> bool" where
  "field_holds m ds sd1 sd2 k x a \<longleftrightarrow>
     (if x = X_ANY then True
      else if x = X_SD then rd m a = (if k = 16 then sd1 else sd2)
      else rd m a = cd_sym ds x)"

definition copy_code :: "mem \<Rightarrow> copy_desc \<Rightarrow> bool" where
  "copy_code m ds \<longleftrightarrow>
     (\<exists>(sd1, sd2) \<in> {(cd_s ds, cd_d ds), (cd_d ds, cd_s ds)}. \<forall>k\<in>set [0..<19].
        let p = cd_start ds + 24 * of_nat k
        in rd m (p + 16) = (if k = 18 then cd_start ds else p + 24) \<and>
           field_holds m ds sd1 sd2 k (fst (copy_tmpl ! k)) p \<and>
           field_holds m ds sd1 sd2 k (snd (copy_tmpl ! k)) (p + 8))"

text \<open>A cell apart from every word of the loop.\<close>

definition loop_apart :: "u64 \<Rightarrow> u64 \<Rightarrow> bool" where
  "loop_apart start a \<longleftrightarrow> (\<forall>i<57. disj8 a (start + 8 * of_nat i))"

lemma loop_apart_disj:
  "loop_apart start a \<Longrightarrow> unat n mod 8 = 0 \<Longrightarrow> unat n < 456 \<Longrightarrow> disj8 a (start + n)"
  "loop_apart start a \<Longrightarrow> unat n mod 8 = 0 \<Longrightarrow> unat n < 456 \<Longrightarrow> disj8 (start + n) a"
  "loop_apart start a \<Longrightarrow> disj8 a start" 
  "loop_apart start a \<Longrightarrow> disj8 start a"
proof -
  assume a: "loop_apart start a"
  have *: "disj8 a (start + n)" if n: "unat n mod 8 = 0" "unat n < 456" for n
  proof -
    obtain i where i: "unat n = 8 * i" using n by (auto elim!: dvdE)
    have "n = of_nat (unat n)" by simp
    then have "n = 8 * of_nat i" unfolding i by simp
    moreover have "i < 57" using i n by simp
    ultimately show ?thesis using a by (auto simp: loop_apart_def)
  qed
  show "unat n mod 8 = 0 \<Longrightarrow> unat n < 456 \<Longrightarrow> disj8 a (start + n)" by (rule *)
  show "unat n mod 8 = 0 \<Longrightarrow> unat n < 456 \<Longrightarrow> disj8 (start + n) a" 
    by (rule disj8_sym) (rule *)
  show "disj8 a start" using * [of 0] by simp
  then show "disj8 start a" by (rule disj8_sym)
qed

section \<open>Stepping through the loop\<close>

lemma step_off:
  assumes "rd m (start + n) = a" "rd m (start + (n + 8)) = b" "rd m (start + (n + 16)) = start + q" "q = n + 24"
  shows "subleq_step (m, start + n) = (wr m b (rd m b - rd m a), start + q)"
  using assms by (simp add: subleq_step_def Let_def algebra_simps)

lemma step_off0:
  assumes "rd m start = a" "rd m (start + 8) = b" "rd m (start + 16) = start + 24"
  shows "subleq_step (m, start) = (wr m b (rd m b - rd m a), start + 24)"
  using assms by (simp add: subleq_step_def Let_def algebra_simps)


lemma funpow_19: "(f ^^ 19) x = f (f (f (f (f (f (f (f (f (f (f (f (f (f (f (f (f (f (f x))))))))))))))))))"
  by (simp add: numeral_eq_Suc)

lemma step_last:
  assumes "rd m (start + 432) = a" "rd m (start + 440) = b" "rd m (start + 448) = start"
  shows "subleq_step (m, start + 432) = (wr m b (rd m b - rd m a), if rd m b \<le>s rd m a then start else start + 456)"
  using assms by (simp add: subleq_step_def Let_def algebra_simps)

text \<open>The offsets of the loop's words: the four patched fields, and the others.\<close>

definition static_off :: "u64 \<Rightarrow> bool" where
  "static_off n \<longleftrightarrow> unat n mod 8 = 0 \<and> unat n < 456 \<and> n \<notin> {120, 336, 344, 368}"

lemma static_offs:
  "static_off 0" "static_off 8" "static_off 16" "static_off 24" "static_off 32" "static_off 40" "static_off 48" "static_off 56"
  "static_off 64" "static_off 72" "static_off 80" "static_off 88" "static_off 96" "static_off 104" "static_off 112" "static_off 128"
  "static_off 136" "static_off 144" "static_off 152" "static_off 160" "static_off 168" "static_off 176" "static_off 184" "static_off 192"
  "static_off 200" "static_off 208" "static_off 216" "static_off 224" "static_off 232" "static_off 240" "static_off 248" "static_off 256"
  "static_off 264" "static_off 272" "static_off 280" "static_off 288" "static_off 296" "static_off 304" "static_off 312" "static_off 320"
  "static_off 328" "static_off 352" "static_off 360" "static_off 376" "static_off 384" "static_off 392" "static_off 400" "static_off 408"
  "static_off 416" "static_off 424" "static_off 432" "static_off 440" "static_off 448"
  by (simp_all add: static_off_def)

definition dyn_off :: "u64 \<Rightarrow> bool" where
  "dyn_off n \<longleftrightarrow> n \<in> {120, 336, 344, 368}"

lemma dyn_offs: "dyn_off 120" "dyn_off 336" "dyn_off 344" "dyn_off 368"
  by (simp_all add: dyn_off_def)

lemma dyn_static_disj:
  assumes "dyn_off a" "static_off n"
  shows "disj8 (start + a) (start + n)"
proof -
  have "unat a mod 8 = 0" using assms(1) by (auto simp: dyn_off_def)
  moreover have "a \<noteq> n" using assms by (auto simp: dyn_off_def static_off_def)
  ultimately show ?thesis using assms(2) by (simp add: disj8_offset aligned8_disj static_off_def)
qed

lemma dyn_dyn_disj:
  "disj8 (start + 120) (start + 336)" "disj8 (start + 120) (start + 344)" "disj8 (start + 120) (start + 368)"
  "disj8 (start + 336) (start + 120)" "disj8 (start + 336) (start + 344)" "disj8 (start + 336) (start + 368)"
  "disj8 (start + 344) (start + 120)" "disj8 (start + 344) (start + 336)" "disj8 (start + 344) (start + 368)"
  "disj8 (start + 368) (start + 120)" "disj8 (start + 368) (start + 336)" "disj8 (start + 368) (start + 344)"
  by (simp_all add: disj8_offset disj8_def)

lemma apart_static: "loop_apart start a \<Longrightarrow> static_off n \<Longrightarrow> disj8 a (start + n)"
  by (rule loop_apart_disj) (auto simp: static_off_def)

lemma apart_dyn:
  "loop_apart start a \<Longrightarrow> dyn_off n \<Longrightarrow> disj8 a (start + n)"
  "loop_apart start a \<Longrightarrow> dyn_off n \<Longrightarrow> disj8 (start + n) a"
  using loop_apart_disj(1,2) [of start a n] by (auto simp: dyn_off_def)

section \<open>The nineteen instructions\<close>

lemma copy_iter19:
  fixes start t1 t2 sv dv cv mv s d c :: u64
  assumes f:
    "rd m start = t1" "rd m (start + 8) = t1" "rd m (start + 16) = start + 24"
    "rd m (start + 24) = t2" "rd m (start + 32) = t2" "rd m (start + 40) = start + 48"
    "rd m (start + 48) = start + 120" "rd m (start + 56) = start + 120" "rd m (start + 64) = start + 72"
    "rd m (start + 72) = sv" "rd m (start + 80) = t1" "rd m (start + 88) = start + 96"
    "rd m (start + 96) = t1" "rd m (start + 104) = start + 120" "rd m (start + 112) = start + 120"
    "rd m (start + 128) = t2" "rd m (start + 136) = start + 144"
    "rd m (start + 144) = t1" "rd m (start + 152) = t1" "rd m (start + 160) = start + 168"
    "rd m (start + 168) = start + 368" "rd m (start + 176) = start + 368" "rd m (start + 184) = start + 192"
    "rd m (start + 192) = start + 336" "rd m (start + 200) = start + 336" "rd m (start + 208) = start + 216"
    "rd m (start + 216) = start + 344" "rd m (start + 224) = start + 344" "rd m (start + 232) = start + 240"
    "rd m (start + 240) = dv" "rd m (start + 248) = t1" "rd m (start + 256) = start + 264"
    "rd m (start + 264) = t1" "rd m (start + 272) = start + 368" "rd m (start + 280) = start + 288"
    "rd m (start + 288) = t1" "rd m (start + 296) = start + 336" "rd m (start + 304) = start + 312"
    "rd m (start + 312) = t1" "rd m (start + 320) = start + 344" "rd m (start + 328) = start + 336"
    "rd m (start + 352) = start + 360"
    "rd m (start + 360) = t2" "rd m (start + 376) = start + 384"
    "rd m (start + 384) = mv" "rd m (start + 392) = x1" "rd m (start + 400) = start + 408"
    "rd m (start + 408) = mv" "rd m (start + 416) = x2" "rd m (start + 424) = start + 432"
    "rd m (start + 432) = mv" "rd m (start + 440) = cv" "rd m (start + 448) = start"
  and v: "rd m mv = -8" "rd m sv = s" "rd m dv = d"
  and x: "x1 = sv \<and> x2 = dv \<or> x1 = dv \<and> x2 = sv"
  and ap: "loop_apart start t1" "loop_apart start t2" "loop_apart start sv" "loop_apart start dv"
    "loop_apart start cv" "loop_apart start mv" "loop_apart start s" "loop_apart start d"
  and va: "be.apart [t1, t2, sv, dv, cv, mv]"
  and sa: "\<forall>v\<in>set [t1, t2, sv, dv, cv]. disj8 s v"
  and da: "\<forall>v\<in>set [t1, t2, sv, dv, cv, mv]. disj8 d v"
  shows "(subleq_step ^^ 19) (m, start) =
     (be.writes (wr m d (rd m s))
        [(sv, s + 8), (dv, d + 8), (cv, rd m cv + 8), (t1, - d), (t2, - rd m s),
         (start + 120, s), (start + 336, d), (start + 344, d), (start + 368, d)],
      if rd m cv \<le>s -8 then start else start + 456)"
proof -
  have v2: "disj8 t1 t2" "disj8 t1 sv" "disj8 t1 dv" "disj8 t1 cv" "disj8 t1 mv"
     "disj8 t2 sv" "disj8 t2 dv" "disj8 t2 cv" "disj8 t2 mv" "disj8 sv dv" "disj8 sv cv" "disj8 sv mv"
     "disj8 dv cv" "disj8 dv mv" "disj8 cv mv"  using va by simp_all
  note v3 = v2 [THEN disj8_sym]
  have s2: "disj8 s t1" "disj8 s t2" "disj8 s sv" "disj8 s dv" "disj8 s cv" using sa by simp_all
  note s3 = s2 [THEN disj8_sym]
  have d2: "disj8 d t1" "disj8 d t2" "disj8 d sv" "disj8 d dv" "disj8 d cv" "disj8 d mv" using da by simp_all
  note d3 = d2 [THEN disj8_sym]
  note seps = v2 v3 s2 s3 d2 d3
  define M where "M = (\<lambda>y1 w1 y2 w2. be.writes m
     [(t1, 0), (t2, 0), (start + 120, 0), (t1, - s), (start + 120, s), (t2, - rd m s), (t1, 0),
      (start + 368, 0), (start + 336, 0), (start + 344, 0), (t1, - d), (start + 368, d), (start + 336, d),
      (start + 344, d), (d, 0), (d, rd m s), (y1, w1), (y2, w2), (cv, rd m cv + 8)])"
  have M: "(subleq_step ^^ 19) (m, start) =
      (if x1 = sv then M sv (s + 8) dv (d + 8) else M dv (d + 8) sv (s + 8),
       if rd m cv \<le>s -8 then start else start + 456)"
  proof (cases "x1 = sv")
    case True
    then have "x2 = dv" using x by auto
    with True show ?thesis
      by (subst funpow_19) (simp add: M_def step_off0 step_off step_last f v ap static_offs dyn_offs dyn_static_disj dyn_dyn_disj apart_static apart_dyn loop_apart_disj(3) seps)
  next
    case False
    then have "x1 = dv" "x2 = sv" using x by auto
    with False show ?thesis
      by (subst funpow_19) (simp add: M_def step_off0 step_off step_last f v ap static_offs dyn_offs dyn_static_disj dyn_dyn_disj apart_static apart_dyn loop_apart_disj(3) seps)
  qed
  let ?A = "{d, sv, dv, cv, t1, t2, start + 120, start + 336, start + 344, start + 368}"
  let ?R = "be.writes (wr m d (rd m s))
        [(sv, s + 8), (dv, d + 8), (cv, rd m cv + 8), (t1, - d), (t2, - rd m s),
         (start + 120, s), (start + 336, d), (start + 344, d), (start + 368, d)]"
  have 1: "M sv (s + 8) dv (d + 8) = ?R"
  proof (rule dawn_mem_eqI [of ?A])
    fix a assume "a \<in> ?A"
    then show "rd (M sv (s + 8) dv (d + 8)) a = rd ?R a"
      by (auto simp: M_def ap dyn_offs dyn_dyn_disj apart_dyn seps)
  next
    fix x assume "\<And>a. a \<in> ?A \<Longrightarrow> \<not> x - a < 8"
    then show "M sv (s + 8) dv (d + 8) x = ?R x"
      by (simp add: M_def dawn_writeram_outside)
  qed
  have 2: "M dv (d + 8) sv (s + 8) = M sv (s + 8) dv (d + 8)"
  proof (rule dawn_mem_eqI [of ?A])
    fix a assume "a \<in> ?A"
    then show "rd (M dv (d + 8) sv (s + 8)) a = rd (M sv (s + 8) dv (d + 8)) a"
      by (auto simp: M_def ap dyn_offs dyn_dyn_disj apart_dyn seps)
  next
    fix x assume "\<And>a. a \<in> ?A \<Longrightarrow> \<not> x - a < 8"
    then show "M dv (d + 8) sv (s + 8) x = M sv (s + 8) dv (d + 8) x"
      by (simp add: M_def dawn_writeram_outside)
  qed
  show ?thesis unfolding M 2 1 by simp
qed

end
