(* ===== verification/Copy_Match.thy ===== *)
theory Copy_Match
  imports Copy_Iter
begin

text \<open>
  What recognising the word copy loop establishes: when \<open>match_copy\<close> accepts, the 19 instructions
  in memory are the loop's (\<open>copy_code\<close>) for the addresses it returns, and those are distinct
  aligned words outside the loop.
\<close>

section \<open>The fields, one by one\<close>

lemma match_field_mono:
  assumes "match_field k x v dyn st = Some st'"
  shows "(\<forall>y. bound st y \<longrightarrow> bound st' y \<and> sym st' y = sym st y) \<and>
     (x \<noteq> X_ANY \<and> x \<noteq> X_SD \<longrightarrow> bound st' x \<and> sym st' x = v \<and> \<not> dyn \<and> sd st' = sd st) \<and>
     (x = X_ANY \<longrightarrow> st' = st) \<and>
     (x = X_SD \<longrightarrow> sym st' = sym st \<and> bound st' = bound st \<and> v \<in> {sym st X_S, sym st X_D} \<and>
        (k = 16 \<longrightarrow> sd st' = v) \<and> (k \<noteq> 16 \<longrightarrow> sd st' = sd st \<and> v \<noteq> sd st))"
  using assms by (auto simp: match_field_def split: if_splits)

lemma match_insnD:
  assumes "match_insn m dyn start k st = Some st'"
  obtains st1 where
    "rd m (start + 24 * of_nat k + 16) = (if k = 18 then start else start + 24 * of_nat k + 24)"
    "match_field k (fst (copy_tmpl ! k)) (rd m (start + 24 * of_nat k))
       (bit_get dyn (drop_bit 3 (start + 24 * of_nat k))) st = Some st1"
    "match_field k (snd (copy_tmpl ! k)) (rd m (start + 24 * of_nat k + 8))
       (bit_get dyn (drop_bit 3 (start + 24 * of_nat k + 8))) st1 = Some st'"
  using assms by (auto simp: match_insn_def Let_def split: if_splits option.splits)

text \<open>The symbols bound in one state of the matching keep their values in a later one.\<close>

definition later :: "match \<Rightarrow> match \<Rightarrow> bool" where
  "later st st' \<longleftrightarrow> (\<forall>y. bound st y \<longrightarrow> bound st' y \<and> sym st' y = sym st y)"

lemma later_refl [simp]: "later st st"
  by (simp add: later_def)

lemma later_trans: "later st st1 \<Longrightarrow> later st1 st' \<Longrightarrow> later st st'"
  by (simp add: later_def)

lemma match_field_later: "match_field k x v dyn st = Some st' \<Longrightarrow> later st st'"
  by (auto simp: match_field_def later_def split: if_splits)

lemma match_insn_later: "match_insn m dyn start k st = Some st' \<Longrightarrow> later st st'"
  by (erule match_insnD) (blast intro: later_trans match_field_later)

lemma match_insns_later: "match_insns m dyn start ks st = Some st' \<Longrightarrow> later st st'"
  by (induction ks arbitrary: st) (auto split: option.splits intro: later_trans match_insn_later)

lemma match_insns_append:
  "match_insns m dyn start (ks @ ls) st =
     (case match_insns m dyn start ks st of None \<Rightarrow> None | Some st \<Rightarrow> match_insns m dyn start ls st)"
  by (induction ks arbitrary: st) (auto split: option.splits)

text \<open>A field that holds its symbol's value, in a state of the matching.\<close>

definition field_is :: "mem \<Rightarrow> match \<Rightarrow> csym \<Rightarrow> u64 \<Rightarrow> bool" where
  "field_is m st x a \<longleftrightarrow> x = X_ANY \<or> bound st x \<and> rd m a = sym st x"

lemma field_is_later: "field_is m st x a \<Longrightarrow> later st st' \<Longrightarrow> field_is m st' x a"
  by (auto simp: field_is_def later_def)

lemma match_field_is:
  "match_field k x (rd m a) dyn st = Some st' \<Longrightarrow> x \<noteq> X_SD \<Longrightarrow> field_is m st' x a"
  by (auto simp: match_field_def field_is_def split: if_splits)

definition insn_is :: "mem \<Rightarrow> match \<Rightarrow> u64 \<Rightarrow> nat \<Rightarrow> bool" where
  "insn_is m st start k \<longleftrightarrow>
     (fst (copy_tmpl ! k) \<noteq> X_SD \<longrightarrow> field_is m st (fst (copy_tmpl ! k)) (start + 24 * of_nat k)) \<and>
     (snd (copy_tmpl ! k) \<noteq> X_SD \<longrightarrow> field_is m st (snd (copy_tmpl ! k)) (start + 24 * of_nat k + 8)) \<and>
     rd m (start + 24 * of_nat k + 16) = (if k = 18 then start else start + 24 * of_nat k + 24)"

lemma match_insn_is:
  assumes "match_insn m dyn start k st = Some st'"
  shows "insn_is m st' start k"
  using assms
proof (rule match_insnD)
  fix st1
  assume c: "rd m (start + 24 * of_nat k + 16) = (if k = 18 then start else start + 24 * of_nat k + 24)"
    and 1: "match_field k (fst (copy_tmpl ! k)) (rd m (start + 24 * of_nat k))
       (bit_get dyn (drop_bit 3 (start + 24 * of_nat k))) st = Some st1"
    and 2: "match_field k (snd (copy_tmpl ! k)) (rd m (start + 24 * of_nat k + 8))
       (bit_get dyn (drop_bit 3 (start + 24 * of_nat k + 8))) st1 = Some st'"
  show ?thesis
    using c match_field_is [OF 1] match_field_is [OF 2] match_field_later [OF 2]
    by (auto simp: insn_is_def intro: field_is_later)
qed

lemma insn_is_later: "insn_is m st start k \<Longrightarrow> later st st' \<Longrightarrow> insn_is m st' start k"
  by (auto simp: insn_is_def intro: field_is_later)

lemma match_insns_are:
  "match_insns m dyn start ks st = Some st' \<Longrightarrow> k \<in> set ks \<Longrightarrow> insn_is m st' start k"
proof (induction ks arbitrary: st)
  case Nil
  then show ?case by simp
next
  case (Cons l ks)
  from Cons.prems obtain st1 where 1: "match_insn m dyn start l st = Some st1"
    and 2: "match_insns m dyn start ks st1 = Some st'" by (auto split: option.splits)
  show ?case
  proof (cases "k \<in> set ks")
    case True
    then show ?thesis using Cons.IH [OF 2] by simp
  next
    case False
    then have "k = l" using Cons.prems(2) by simp
    then show ?thesis using insn_is_later [OF match_insn_is [OF 1] match_insns_later [OF 2]] by simp
  qed
qed

lemma match_sd_fields:
  assumes all: "match_insns m dyn start [0..<19] (match_init start) = Some st'"
  shows "(rd m (start + 392), rd m (start + 416)) \<in> {(sym st' X_S, sym st' X_D), (sym st' X_D, sym st' X_S)}"
proof -
  have split: "[0..<19] = [0..<16] @ [16, 17, 18::nat]" by (simp add: upt_rec)
  obtain st0 st1 st2 where
    0: "match_insns m dyn start [0..<16] (match_init start) = Some st0"
    and 1: "match_insn m dyn start 16 st0 = Some st1"
    and 2: "match_insn m dyn start 17 st1 = Some st2"
    and 3: "match_insn m dyn start 18 st2 = Some st'"
    using all unfolding split match_insns_append by (auto split: option.splits)
  have b: "bound st0 X_S" "bound st0 X_D"
    using match_insns_are [OF 0, of 3] match_insns_are [OF 0, of 10]
    by (auto simp: insn_is_def field_is_def copy_tmpl_def numeral_eq_Suc)
  have k16: "rd m (start + 392) \<in> {sym st0 X_S, sym st0 X_D} \<and> sd st1 = rd m (start + 392)"
    using 1 b by (elim match_insnD)
      (auto simp: match_field_def copy_tmpl_def algebra_simps numeral_eq_Suc split: if_splits)
  have b1: "bound st1 X_S" "bound st1 X_D" "sym st1 X_S = sym st0 X_S" "sym st1 X_D = sym st0 X_D"
    using match_insn_later [OF 1] b by (simp_all add: later_def)
  have k17: "rd m (start + 416) \<in> {sym st1 X_S, sym st1 X_D} \<and> rd m (start + 416) \<noteq> sd st1"
    using 2 b1(1,2) by (elim match_insnD)
      (auto simp: match_field_def copy_tmpl_def algebra_simps numeral_eq_Suc split: if_splits)
  have "later st1 st'" using match_insn_later [OF 2] match_insn_later [OF 3] by (rule later_trans)
  then have "sym st' X_S = sym st1 X_S" "sym st' X_D = sym st1 X_D" using b1(1,2) by (simp_all add: later_def)
  with b1(3,4) k16 k17 show ?thesis by auto
qed

section \<open>The whole loop\<close>

lemma match_copy_code:
  assumes all: "match_insns m dyn start [0..<19] (match_init start) = Some st"
  shows "copy_code m \<lparr>cd_start = start, cd_t1 = sym st X_T1, cd_t2 = sym st X_T2, cd_s = sym st X_S,
           cd_d = sym st X_D, cd_c = sym st X_C, cd_m = sym st X_M\<rparr>"
    (is "copy_code m ?ds")
proof -
  have "later (match_init start) st" by (rule match_insns_later [OF all])
  then have F: "sym st X_F1 = start + 120" "sym st X_F2 = start + 368"
      "sym st X_F3 = start + 336" "sym st X_F4 = start + 344"
    by (simp_all add: later_def match_init_def)
  have sym: "cd_sym ?ds x = sym st x" if "x \<noteq> X_ANY" "x \<noteq> X_SD" for x
    using that F by (cases x) (simp_all add: cd_sym_def)
  define sd1 sd2 where "sd1 = rd m (start + 392)" and "sd2 = rd m (start + 416)"
  have sds: "(sd1, sd2) \<in> {(cd_s ?ds, cd_d ?ds), (cd_d ?ds, cd_s ?ds)}"
    using match_sd_fields [OF all] by (simp add: sd1_def sd2_def)
  have sdk: "\<forall>k\<in>set [0..<19]. k \<in> {16, 17} \<and> snd (copy_tmpl ! k) = X_SD \<and> fst (copy_tmpl ! k) = X_M \<or>
      k \<notin> {16, 17} \<and> fst (copy_tmpl ! k) \<noteq> X_SD \<and> snd (copy_tmpl ! k) \<noteq> X_SD"
    by code_simp
  have fld: "field_holds m ?ds sd1 sd2 k x a"
    if "field_is m st x a" "x \<noteq> X_SD" for k x a
    using that by (auto simp: field_holds_def field_is_def sym)
  have "let p = cd_start ?ds + 24 * of_nat k
      in rd m (p + 16) = (if k = 18 then cd_start ?ds else p + 24) \<and>
         field_holds m ?ds sd1 sd2 k (fst (copy_tmpl ! k)) p \<and>
         field_holds m ?ds sd1 sd2 k (snd (copy_tmpl ! k)) (p + 8)" if k: "k \<in> set [0..<19]" for k
  proof -
    have i: "insn_is m st start k" by (rule match_insns_are [OF all k])
    from bspec [OF sdk k] consider "k = 16" "snd (copy_tmpl ! k) = X_SD" "fst (copy_tmpl ! k) = X_M"
      | "k = 17" "snd (copy_tmpl ! k) = X_SD" "fst (copy_tmpl ! k) = X_M"
      | "fst (copy_tmpl ! k) \<noteq> X_SD" "snd (copy_tmpl ! k) \<noteq> X_SD" by auto
    then show ?thesis
    proof cases
      case 1
      then show ?thesis using i by (simp add: insn_is_def Let_def fld field_holds_def sd1_def) (simp add: field_is_def sym add.commute)
    next
      case 2
      then show ?thesis using i by (simp add: insn_is_def Let_def fld field_holds_def sd2_def) (simp add: field_is_def sym add.commute)
    next
      case 3
      then show ?thesis using i by (simp add: insn_is_def Let_def fld)
    qed
  qed
  then show ?thesis unfolding copy_code_def using sds by (intro bexI [of _ "(sd1, sd2)"]) simp_all
qed

text \<open>The variables are apart from the loop and from each other.\<close>

definition copy_apart :: "copy_desc \<Rightarrow> bool" where
  "copy_apart ds \<longleftrightarrow>
     be.apart [cd_t1 ds, cd_t2 ds, cd_s ds, cd_d ds, cd_c ds, cd_m ds] \<and>
     (\<forall>v\<in>set [cd_t1 ds, cd_t2 ds, cd_s ds, cd_d ds, cd_c ds, cd_m ds]. unat v mod 8 = 0 \<and> loop_apart (cd_start ds) v)"

lemma unat_aligned_room: "unat (v::u64) mod 8 = 0 \<Longrightarrow> unat v + 8 \<le> 2 ^ 64"
  using unat_u64_bound [of v] by (auto elim!: dvdE)

lemma loop_word_unat:
  assumes "unat start + 456 \<le> (2::nat) ^ 63" "i < 57"
  shows "unat (start + 8 * of_nat i :: u64) = unat start + 8 * i"
proof -
  have "unat (start + of_nat (8 * i)) = unat start + 8 * i"
    using assms by (intro unat_add_of_nat) simp
  then show ?thesis by simp
qed

lemma loop_apartI:
  assumes "unat v + 8 \<le> unat start \<or> unat start + 456 \<le> unat v" "unat start + 456 \<le> 2 ^ 63" "unat v + 8 \<le> 2 ^ 64"
  shows "loop_apart start v"
  unfolding loop_apart_def
proof (intro allI impI)
  fix i :: nat assume i: "i < 57"
  show "disj8 v (start + 8 * of_nat i)"
    using assms i by (intro disj8_or) (auto simp: loop_word_unat)
qed

lemma var_apart:
  assumes ok: "\<not> var_bad msize start vs k" and "unat start + 456 \<le> 2 ^ 63"
  shows "unat (vs ! k) mod 8 = 0 \<and> loop_apart start (vs ! k)"
proof -
  define v where "v = vs ! k"
  have al: "unat v mod 8 = 0" using ok by (simp add: var_bad_def Let_def v_def aligned8_iff [symmetric])
  have out: "v + 8 \<le> start \<or> start + 456 \<le> v"
    using ok by (auto simp: var_bad_def Let_def v_def [symmetric])
  have s456: "unat (start + 456) = unat start + 456"
    using assms(2) by (subst unat_add_no_wrap) simp_all
  have "unat v + 8 \<le> unat start \<or> unat start + 456 \<le> unat v"
  proof (cases "unat v + 8 < 2 ^ 64")
    case True
    then have "unat (v + 8) = unat v + 8" by (subst unat_add_no_wrap) simp_all
    then show ?thesis using out s456 by (auto simp: word_le_nat_alt)
  next
    case False
    then have "18446744073709551616 \<le> unat v + 8" by simp
    moreover have "unat start + 456 \<le> 9223372036854775808" using assms(2) by simp
    ultimately show ?thesis by linarith
  qed
  then show ?thesis using al assms(2) unat_aligned_room [OF al]
    by (auto simp: v_def [symmetric] intro: loop_apartI)
qed

lemma match_copyD:
  assumes "match_copy m dyn msize start = Some ds" "unat start + 456 \<le> 2 ^ 63"
  shows "cd_start ds = start \<and> copy_code m ds \<and> copy_apart ds"
proof -
  obtain st where all: "match_insns m dyn start [0..<19] (match_init start) = Some st"
    and ok: "\<forall>k\<in>set [0..<6]. \<not> var_bad msize start (map (sym st) copy_vars) k"
    and ds: "ds = \<lparr>cd_start = start, cd_t1 = sym st X_T1, cd_t2 = sym st X_T2, cd_s = sym st X_S,
           cd_d = sym st X_D, cd_c = sym st X_C, cd_m = sym st X_M\<rparr>"
    using assms(1)
    by (auto simp: match_copy_def copy_vars_def Let_def nth_Cons' split: if_splits option.splits)
  let ?vs = "map (sym st) copy_vars"
  have al: "unat (?vs ! k) mod 8 = 0 \<and> loop_apart start (?vs ! k)" if "k < 6" for k
    using ok that assms(2) by (intro var_apart [of msize]) simp_all
  have ne: "?vs ! j \<noteq> ?vs ! k" if "j < k" "k < 6" for j k
  proof -
    have "\<not> var_bad msize start ?vs k" using ok that by simp
    then have "\<forall>i\<in>set [0..<k]. ?vs ! i \<noteq> ?vs ! k" unfolding var_bad_def Let_def by blast
    then show ?thesis using that by simp
  qed
  have d: "disj8 (?vs ! j) (?vs ! k)" if "j < k" "k < 6" for j k
    using al [of j] al [of k] ne [OF that] that by (intro aligned8_disj) simp_all
  have "copy_apart ds"
    using al [of 0] al [of 1] al [of 2] al [of 3] al [of 4] al [of 5]
      d [of 0 1] d [of 0 2] d [of 0 3] d [of 0 4] d [of 0 5] d [of 1 2] d [of 1 3] d [of 1 4] d [of 1 5]
      d [of 2 3] d [of 2 4] d [of 2 5] d [of 3 4] d [of 3 5] d [of 4 5]
    by (simp add: copy_apart_def ds copy_vars_def)
  then show ?thesis using match_copy_code [OF all] by (simp add: ds)
qed

end
