(* ===== verification/Copy_Run.thy ===== *)
theory Copy_Run
  imports Copy_Match
begin

text \<open>
  Many iterations of the word copy loop: \<open>k\<close> of them copy \<open>8 * k\<close> bytes as a block and leave the
  variables and patched fields of the last one.
\<close>

section \<open>Iterating\<close>

lemma wr_cell: "x - a < 8 \<Longrightarrow> wr m a v x = wr m' a v x"
  by (simp add: dawn_writeram_def store64_def)

lemma writes_agree:
  assumes "\<And>x. (\<And>a v. (a, v) \<in> set ws \<Longrightarrow> \<not> x - a < 8) \<Longrightarrow> m x = m' x"
  shows "be.writes m ws = be.writes m' ws"
  using assms
proof (induction ws arbitrary: m m')
  case Nil
  then show ?case by auto
next
  case (Cons w ws)
  obtain a v where w: "w = (a, v)" by (cases w)
  have "be.writes (wr m a v) ws = be.writes (wr m' a v) ws"
  proof (rule Cons.IH)
    fix x assume out: "\<And>b u. (b, u) \<in> set ws \<Longrightarrow> \<not> x - b < 8"
    show "wr m a v x = wr m' a v x"
    proof (cases "x - a < 8")
      case True
      then show ?thesis by (rule wr_cell)
    next
      case False
      then show ?thesis using Cons.prems [of x] out by (auto simp: w dawn_writeram_outside)
    qed
  qed
  then show ?case by (simp add: w)
qed

lemma wr_rd_block: "wr m d (rd m s) = block_copy m d s 8"
proof (rule dawn_mem_eqI [of "{d}"])
  fix a assume "a \<in> {d}"
  then have a: "a = d" by simp
  have "load64 (block_copy m d s 8) d = load64 m s"
    by (auto simp: load64_def block_copy_def join_bytes_def unat_of_nat_small intro!: foldr_cong)
  then show "rd (wr m d (rd m s)) a = rd (block_copy m d s 8) a"
    by (simp add: a dawn_readram_def dawn_writeram_def mem_simps)
next
  fix x assume "\<And>a. a \<in> {d} \<Longrightarrow> \<not> x - a < 8"
  then have "\<not> x - d < 8" by simp
  then show "wr m d (rd m s) x = block_copy m d s 8 x"
    by (simp add: dawn_writeram_outside block_copy_def word_less_nat_alt)
qed

lemma rd_block_copy_disj:
  assumes "\<And>i. i < 8 \<Longrightarrow> n \<le> unat (a + of_nat i - d)"
  shows "rd (block_copy m d s n) a = rd m a"
  using assms by (intro dawn_readram_cong) (simp add: block_copy_outside)

text \<open>The loop with its variables at given values, and those after an iteration.\<close>

definition copy_ready :: "mem \<Rightarrow> copy_desc \<Rightarrow> u64 \<Rightarrow> u64 \<Rightarrow> u64 \<Rightarrow> bool" where
  "copy_ready m ds s d c \<longleftrightarrow>
     copy_code m ds \<and> rd m (cd_m ds) = -8 \<and> rd m (cd_s ds) = s \<and> rd m (cd_d ds) = d \<and> rd m (cd_c ds) = c"

definition copy_vals :: "copy_desc \<Rightarrow> u64 \<Rightarrow> u64 \<Rightarrow> u64 \<Rightarrow> u64 \<Rightarrow> (u64 \<times> u64) list" where
  "copy_vals ds s d c w =
     [(cd_s ds, s + 8), (cd_d ds, d + 8), (cd_c ds, c + 8), (cd_t1 ds, - d), (cd_t2 ds, - w),
      (cd_start ds + 120, s), (cd_start ds + 336, d), (cd_start ds + 344, d), (cd_start ds + 368, d)]"

definition word_apart :: "copy_desc \<Rightarrow> u64 \<Rightarrow> u64 \<Rightarrow> bool" where
  "word_apart ds s d \<longleftrightarrow>
     loop_apart (cd_start ds) s \<and> loop_apart (cd_start ds) d \<and>
     (\<forall>v\<in>set [cd_t1 ds, cd_t2 ds, cd_s ds, cd_d ds, cd_c ds]. disj8 s v) \<and>
     (\<forall>v\<in>set [cd_t1 ds, cd_t2 ds, cd_s ds, cd_d ds, cd_c ds, cd_m ds]. disj8 d v)"

lemma copy_iter:
  assumes "copy_ready m ds s d c" "copy_apart ds" "word_apart ds s d"
  shows "(subleq_step ^^ 19) (m, cd_start ds) =
     (be.writes (wr m d (rd m s)) (copy_vals ds s d c (rd m s)),
      if c \<le>s -8 then cd_start ds else cd_start ds + 456)"
proof -
  obtain sd1 sd2 where sd: "(sd1, sd2) \<in> {(cd_s ds, cd_d ds), (cd_d ds, cd_s ds)}"
    and f: "\<forall>k\<in>set [0..<19].
        let p = cd_start ds + 24 * of_nat k
        in rd m (p + 16) = (if k = 18 then cd_start ds else p + 24) \<and>
           field_holds m ds sd1 sd2 k (fst (copy_tmpl ! k)) p \<and>
           field_holds m ds sd1 sd2 k (snd (copy_tmpl ! k)) (p + 8)"
    using assms(1) unfolding copy_ready_def copy_code_def by blast
  note i = bspec [OF f, of 0] bspec [OF f, of 1] bspec [OF f, of 2] bspec [OF f, of 3] bspec [OF f, of 4]
    bspec [OF f, of 5] bspec [OF f, of 6] bspec [OF f, of 7] bspec [OF f, of 8] bspec [OF f, of 9]
    bspec [OF f, of 10] bspec [OF f, of 11] bspec [OF f, of 12] bspec [OF f, of 13] bspec [OF f, of 14]
    bspec [OF f, of 15] bspec [OF f, of 16] bspec [OF f, of 17] bspec [OF f, of 18]
  note 0 = i [unfolded copy_tmpl_def Let_def field_holds_def cd_sym_def add.assoc, simplified]
  have c: "c = rd m (cd_c ds)" using assms(1) by (simp add: copy_ready_def)
  show ?thesis
    unfolding copy_vals_def c
  proof (rule copy_iter19 [where ?t1.0 = "cd_t1 ds" and ?t2.0 = "cd_t2 ds" and sv = "cd_s ds" and dv = "cd_d ds"
       and cv = "cd_c ds" and mv = "cd_m ds" and s = s and d = d and ?x1.0 = sd1 and ?x2.0 = sd2])
      qed (simp_all only: 0 simp_thms, insert assms sd, auto simp: copy_ready_def copy_apart_def word_apart_def)
qed

text \<open>The loop's own words, apart from the four it patches, make its code.\<close>

definition same_code :: "u64 \<Rightarrow> mem \<Rightarrow> mem \<Rightarrow> bool" where
  "same_code start m m' \<longleftrightarrow> (\<forall>n. static_off n \<longrightarrow> rd m' (start + n) = rd m (start + n))"

lemma same_codeD: "same_code start m m' \<Longrightarrow> static_off n \<Longrightarrow> rd m' (start + n) = rd m (start + n)"
  by (simp add: same_code_def)

lemma same_code_trans: "same_code start m m1 \<Longrightarrow> same_code start m1 m' \<Longrightarrow> same_code start m m'"
  by (simp add: same_code_def)

lemma tmpl_offs:
  assumes "k < 19"
  shows "static_off (24 * of_nat k + 16)"
    "fst (copy_tmpl ! k) \<noteq> X_ANY \<Longrightarrow> static_off (24 * of_nat k)"
    "snd (copy_tmpl ! k) \<noteq> X_ANY \<Longrightarrow> static_off (24 * of_nat k + 8)"
proof -
  have "k \<in> set [0..<19]" using assms by simp
  moreover have "\<forall>k\<in>set [0..<19]. static_off (24 * of_nat k + 16) \<and>
      (fst (copy_tmpl ! k) \<noteq> X_ANY \<longrightarrow> static_off (24 * of_nat k)) \<and>
      (snd (copy_tmpl ! k) \<noteq> X_ANY \<longrightarrow> static_off (24 * of_nat k + 8))"
    by code_simp
  ultimately show "static_off (24 * of_nat k + 16)"
    "fst (copy_tmpl ! k) \<noteq> X_ANY \<Longrightarrow> static_off (24 * of_nat k)"
    "snd (copy_tmpl ! k) \<noteq> X_ANY \<Longrightarrow> static_off (24 * of_nat k + 8)"
    by blast+
qed

lemma copy_code_cong:
  assumes "copy_code m ds" "same_code (cd_start ds) m m'"
  shows "copy_code m' ds"
proof -
  note same = same_codeD [OF assms(2)]
  have fld: "field_holds m' ds sd1 sd2 k x (cd_start ds + n)"
    if "field_holds m ds sd1 sd2 k x (cd_start ds + n)" "x \<noteq> X_ANY \<Longrightarrow> static_off n" for sd1 sd2 k x n
    using that same [of n] by (auto simp: field_holds_def)
  show ?thesis
    using assms(1) unfolding copy_code_def Let_def
    by (elim bexE case_prodE, intro bexI) (auto simp: add.assoc same tmpl_offs fld)
qed


lemma static_not_dyn: "static_off n \<Longrightarrow> dyn_off a \<Longrightarrow> disj8 (cd_start ds + a) (cd_start ds + n)"
  by (rule dyn_static_disj)

lemma copy_iter_code:
  assumes "copy_apart ds" "word_apart ds s d"
  shows "same_code (cd_start ds) m (be.writes (wr m d w) (copy_vals ds s d c w))"
  unfolding same_code_def
proof (intro allI impI)
  fix n assume n: "static_off n"
  show "rd (be.writes (wr m d w) (copy_vals ds s d c w)) (cd_start ds + n) = rd m (cd_start ds + n)"
    using assms n
    by (subst be.rd_writes_disj)
      (auto simp: copy_vals_def copy_apart_def word_apart_def apart_static dyn_static_disj dyn_offs)
qed

lemma copy_iter_ready:
  assumes "copy_ready m ds s d c" "copy_apart ds" "word_apart ds s d"
  shows "copy_ready (be.writes (wr m d w) (copy_vals ds s d c w)) ds (s + 8) (d + 8) (c + 8)"
proof -
  have code: "copy_code (be.writes (wr m d w) (copy_vals ds s d c w)) ds"
    using assms(1) copy_iter_code [OF assms(2,3)] copy_code_cong unfolding copy_ready_def by blast
  have va: "be.apart (map fst (copy_vals ds s d c w))"
    using assms(2)
    by (auto simp: copy_apart_def copy_vals_def apart_dyn dyn_offs dyn_dyn_disj disj8_commute)
  have "rd (be.writes (wr m d w) (copy_vals ds s d c w)) (cd_m ds) = rd m (cd_m ds)"
    using assms(2,3)
    by (subst be.rd_writes_disj)
      (auto simp: copy_vals_def copy_apart_def word_apart_def apart_dyn dyn_offs disj8_commute)
  moreover have "rd (be.writes (wr m d w) (copy_vals ds s d c w)) (cd_s ds) = s + 8"
    "rd (be.writes (wr m d w) (copy_vals ds s d c w)) (cd_d ds) = d + 8"
    "rd (be.writes (wr m d w) (copy_vals ds s d c w)) (cd_c ds) = c + 8"
    by (rule be.rd_writes_apart [OF va], simp add: copy_vals_def)+
  ultimately show ?thesis using code assms(1) by (simp add: copy_ready_def)
qed

lemma writes_outside: "(\<And>a v. (a, v) \<in> set ws \<Longrightarrow> \<not> x - a < 8) \<Longrightarrow> be.writes m ws x = m x"
proof (induction ws arbitrary: m)
  case Nil
  then show ?case by simp
next
  case (Cons p ws)
  obtain a v where p: "p = (a, v)" by (cases p)
  have "be.writes (wr m a v) ws x = wr m a v x" using Cons.prems by (intro Cons.IH) auto
  then show ?case using Cons.prems [of a v] by (simp add: p dawn_writeram_outside)
qed

text \<open>The last iteration's writes hide what earlier ones left in the same cells.\<close>

lemma copy_vals_cells: "set (map fst (copy_vals ds s d c w)) = set (map fst (copy_vals ds s' d' c' w'))"
  by (simp add: copy_vals_def)

lemma writes_hide:
  assumes "set (map fst ws) \<subseteq> set (map fst ws')"
  shows "be.writes (wr (be.writes m ws) a v) ws' = be.writes (wr m a v) ws'"
proof (rule writes_agree)
  fix x assume out: "\<And>b u. (b, u) \<in> set ws' \<Longrightarrow> \<not> x - b < 8"
  have o: "\<not> x - b < 8" if bu: "(b, u) \<in> set ws" for b u
  proof -
    have "b \<in> set (map fst ws')" using assms bu by force
    then show ?thesis using out by auto
  qed
  then have "be.writes m ws x = m x" by (rule writes_outside)
  then show "wr (be.writes m ws) a v x = wr m a v x"
    by (cases "x - a < 8") (auto simp: dawn_writeram_outside intro: wr_cell)
qed

lemma block_copy_word:
  assumes "fwd_ok d s (n + 8)" "n + 8 \<le> 2 ^ 64"
  shows "wr (block_copy m d s n) (d + of_nat n) (rd (block_copy m d s n) (s + of_nat n)) = block_copy m d s (n + 8)"
  using block_copy_append [OF assms] by (simp add: wr_rd_block)

lemma copy_block_src:
  assumes ok: "fwd_ok d s (n + 8)" and b: "n + 8 \<le> 2 ^ 64"
  shows "rd (block_copy m d s n) (s + of_nat n) = rd m (s + of_nat n)"
proof (cases "d = s")
  case False
  then have ge: "n + 8 \<le> unat (d - s)" using ok by (simp add: fwd_ok_def)
  show ?thesis
  proof (rule rd_block_copy_disj)
    fix i :: nat assume i: "i < 8"
    define y where "y = (of_nat (n + i) :: u64)"
    have y: "unat y = n + i" unfolding y_def by (rule unat_of_nat_u64) (use i b in simp)
    have lt: "y < d - s" using y i ge by (simp add: word_less_nat_alt)
    have e: "s + of_nat n + of_nat i - d = y - (d - s)" by (simp add: y_def algebra_simps)
    have "unat (y - (d - s)) = 2 ^ 64 + unat y - unat (d - s)" using unat_diff_wrap [OF lt] by simp
    then show "n \<le> unat (s + of_nat n + of_nat i - d)"
      using y unat_u64_bound [of "d - s"] unfolding e by linarith
  qed
qed simp


section \<open>Running the loop\<close>

lemma copy_run:
  assumes ready: "copy_ready m ds s d c" and ap: "copy_apart ds"
    and wa: "\<And>i. i \<le> k \<Longrightarrow> word_apart ds (s + of_nat (8 * i)) (d + of_nat (8 * i))"
    and fwd: "fwd_ok d s (8 * k + 8)" and b: "8 * k + 8 \<le> 2 ^ 64"
    and br: "\<And>i. i < k \<Longrightarrow> c + of_nat (8 * i) \<le>s -8"
  shows "(subleq_step ^^ (19 * Suc k)) (m, cd_start ds) =
      (be.writes (block_copy m d s (8 * k + 8))
         (copy_vals ds (s + of_nat (8 * k)) (d + of_nat (8 * k)) (c + of_nat (8 * k)) (rd m (s + of_nat (8 * k)))),
       if c + of_nat (8 * k) \<le>s -8 then cd_start ds else cd_start ds + 456) \<and>
    copy_ready (be.writes (block_copy m d s (8 * k + 8))
         (copy_vals ds (s + of_nat (8 * k)) (d + of_nat (8 * k)) (c + of_nat (8 * k)) (rd m (s + of_nat (8 * k)))))
      ds (s + of_nat (8 * k + 8)) (d + of_nat (8 * k + 8)) (c + of_nat (8 * k + 8))"
  using wa fwd b br
proof (induction k)
  case 0
  have w: "word_apart ds s d" using "0.prems"(1) [of 0] by simp
  show ?case
    using copy_iter [OF ready ap w] copy_iter_ready [OF ready ap w, of "rd m s"] by (simp add: wr_rd_block)
next
  case (Suc k)
  define M where "M = be.writes (block_copy m d s (8 * k + 8))
         (copy_vals ds (s + of_nat (8 * k)) (d + of_nat (8 * k)) (c + of_nat (8 * k)) (rd m (s + of_nat (8 * k))))"
  define s1 d1 c1 where "s1 = s + of_nat (8 * k + 8)" and "d1 = d + of_nat (8 * k + 8)"
    and "c1 = c + of_nat (8 * k + 8)"
  define w where "w = rd m s1"
  have fwd1: "fwd_ok d s (8 * k + 8)" using Suc.prems(2) by (rule fwd_ok_mono) simp
  have IH: "(subleq_step ^^ (19 * Suc k)) (m, cd_start ds) =
       (M, if c + of_nat (8 * k) \<le>s -8 then cd_start ds else cd_start ds + 456)"
    "copy_ready M ds s1 d1 c1"
    using Suc.IH Suc.prems fwd1 by (simp_all add: M_def s1_def d1_def c1_def)
  have w1: "word_apart ds s1 d1" using Suc.prems(1) [of "Suc k"] by (simp add: s1_def d1_def add.commute)
  have dis: "\<forall>a v. (a, v) \<in> set (copy_vals ds (s + of_nat (8 * k)) (d + of_nat (8 * k)) (c + of_nat (8 * k)) (rd m (s + of_nat (8 * k)))) \<longrightarrow> disj8 a s1"
    using ap w1 by (auto simp: copy_vals_def copy_apart_def word_apart_def apart_dyn dyn_offs disj8_commute)
  have rdM: "rd M s1 = w"
  proof -
    have "rd M s1 = rd (block_copy m d s (8 * k + 8)) s1"
      unfolding M_def using dis by (intro be.rd_writes_disj) blast
    also have "\<dots> = w" unfolding w_def s1_def using Suc.prems by (intro copy_block_src) simp_all
    finally show ?thesis .
  qed
  have blk: "wr (block_copy m d s (8 * k + 8)) d1 w = block_copy m d s (8 * Suc k + 8)"
    using block_copy_word [of d s "8 * k + 8" m] copy_block_src [of d s "8 * k + 8" m] Suc.prems
    by (simp add: d1_def s1_def w_def add.commute)
  have wM: "be.writes (wr M d1 w) (copy_vals ds s1 d1 c1 w) =
      be.writes (block_copy m d s (8 * Suc k + 8)) (copy_vals ds s1 d1 c1 w)"
    unfolding M_def by (subst writes_hide) (simp_all add: blk copy_vals_def)
  have e: "19 * Suc (Suc k) = 19 + 19 * Suc k" by simp
  have "c + of_nat (8 * k) \<le>s -8" using Suc.prems(4) [of k] by simp
  then have "(subleq_step ^^ (19 * Suc (Suc k))) (m, cd_start ds) = (subleq_step ^^ 19) (M, cd_start ds)"
    unfolding e funpow_add o_apply IH(1) by simp
  also have "\<dots> = (be.writes (block_copy m d s (8 * Suc k + 8)) (copy_vals ds s1 d1 c1 w),
      if c1 \<le>s -8 then cd_start ds else cd_start ds + 456)"
    using copy_iter [OF IH(2) ap w1] by (simp add: rdM wM)
  finally have run: "(subleq_step ^^ (19 * Suc (Suc k))) (m, cd_start ds) =
      (be.writes (block_copy m d s (8 * Suc k + 8)) (copy_vals ds s1 d1 c1 w),
       if c1 \<le>s -8 then cd_start ds else cd_start ds + 456)" .
  have rdy: "copy_ready (be.writes (block_copy m d s (8 * Suc k + 8)) (copy_vals ds s1 d1 c1 w)) ds (s1 + 8) (d1 + 8) (c1 + 8)"
    using copy_iter_ready [OF IH(2) ap w1, of w] by (simp add: wM)
  have eq: "s + of_nat (8 * Suc k) = s1" "d + of_nat (8 * Suc k) = d1" "c + of_nat (8 * Suc k) = c1"
     "s + of_nat (8 * Suc k + 8) = s1 + 8" "d + of_nat (8 * Suc k + 8) = d1 + 8" "c + of_nat (8 * Suc k + 8) = c1 + 8"
    by (simp_all add: s1_def d1_def c1_def algebra_simps)
  show ?case using run rdy unfolding eq w_def by blast
qed

end
