(* ===== verification/Copy_Correct.thy ===== *)
theory Copy_Correct
  imports Copy_Run
begin

text \<open>
  \<open>jit_copy\<close> against the interpreter: the iterations it runs leave memory and eip as their
  instructions would, take no more of the budget than is left, and write no word any translated
  code relies on.
\<close>

section \<open>How many iterations\<close>

lemma sint_minus8: "sint (-8::u64) = -8"
  by simp

lemma sint_small_add:
  assumes "sint c \<le> 0" "sint c + int n < 2 ^ 63"
  shows "sint (c + of_nat n :: u64) = sint c + int n"
proof -
  have "c + of_nat n = (of_int (sint c + int n) :: u64)" by simp
  moreover have "sint (of_int (sint c + int n) :: u64) = sint c + int n"
    using assms sint_u64_bounds [of c] int_word_sint [of "sint c + int n", where 'a = 64]
    by (simp add: mod_pos_pos_trivial)
  ultimately show ?thesis by (simp only:)
qed

lemma copy_total_unat:
  assumes "c \<le>s -8"
  shows "unat (copy_total c) = nat ((- 8 - sint c) div 8) + 2"
proof -
  have le: "sint c \<le> -8" using assms by (simp add: word_sle_eq)
  have ge: "- (2 ^ 63) \<le> sint c" by (rule sint_u64_bounds)
  have "-8 - c = (of_int (- 8 - sint c) :: u64)" by simp
  then have "uint (-8 - c) = (- 8 - sint c) mod 2 ^ 64" by (simp only: uint_word_of_int) simp
  also have "\<dots> = - 8 - sint c" using le ge by (intro mod_pos_pos_trivial) simp_all
  finally have u: "uint (-8 - c) = - 8 - sint c" .
  have "uint ((-8 - c) div 8) = (- 8 - sint c) div 8" by (simp add: uint_div_distrib u)
  then have n: "unat ((-8 - c) div 8) = nat ((- 8 - sint c) div 8)" by (simp only: unat_eq_nat_uint)
  have "(- 8 - sint c) div 8 < 2 ^ 62" using ge by (simp add: div_less_iff_less_mult)
  then have "unat ((-8 - c) div 8) < 2 ^ 62" unfolding n by simp
  then have "unat ((-8 - c) div 8 + 2) = unat ((-8 - c) div 8) + 2" by (subst unat_add_no_wrap) simp_all
  then show ?thesis using assms by (simp add: copy_total_def n)
qed

text \<open>Iterations before the last branch back; the last leaves the loop.\<close>

lemma copy_total_branch:
  assumes "Suc i \<le> unat (copy_total c)"
  shows "c + of_nat (8 * i) \<le>s -8 \<longleftrightarrow> Suc i \<noteq> unat (copy_total c)"
proof (cases "c \<le>s -8")
  case False
  then have "unat (copy_total c) = 1" by (simp add: copy_total_def)
  then show ?thesis using False assms by simp
next
  case True
  have le: "sint c \<le> -8" using True by (simp add: word_sle_eq)
  define q where "q = nat ((- 8 - sint c) div 8)"
  have q: "int q = (- 8 - sint c) div 8" using le by (simp add: q_def)
  have t: "unat (copy_total c) = q + 2" using copy_total_unat [OF True] by (simp add: q_def)
  have i: "i \<le> q + 1" using assms t by simp
  have q8: "8 * int q \<le> - 8 - sint c" "- 8 - sint c < 8 * int q + 8" using q by linarith+
  have s: "sint (c + of_nat (8 * i)) = sint c + int (8 * i)"
    using i q8 le by (intro sint_small_add) auto
  have "c + of_nat (8 * i) \<le>s -8 \<longleftrightarrow> sint c + int (8 * i) \<le> -8"
    by (simp only: word_sle_eq s sint_minus8)
  also have "\<dots> \<longleftrightarrow> i \<le> q" using q8 by auto
  also have "\<dots> \<longleftrightarrow> Suc i \<noteq> unat (copy_total c)" using i t by auto
  finally show ?thesis .
qed

lemma copy_count_le: "copy_count c budget \<le> copy_total c"
  by (auto simp: copy_count_def Let_def)

lemma copy_count_budget:
  assumes "copy_count c budget \<noteq> 0"
  shows "19 * (unat (copy_count c budget) - 1) \<le> unat budget"
proof -
  have d: "unat (budget div 19) = unat budget div 19" by (simp add: unat_div)
  have "unat budget div 19 < 2 ^ 60" using unat_u64_bound [of budget] by auto
  then have n: "unat (budget div 19 + 1) = unat budget div 19 + 1"
    unfolding d [symmetric] by (subst unat_add_no_wrap) simp_all
  have "copy_count c budget \<le> budget div 19 + 1" by (auto simp: copy_count_def Let_def)
  then have "unat (copy_count c budget) - 1 \<le> unat budget div 19"
    by (simp add: word_le_nat_alt n)
  then show ?thesis by linarith
qed

lemma copy_total_bound: "unat (copy_total c) \<le> 2 ^ 60 + 2"
proof (cases "c \<le>s -8")
  case True
  have "- (2 ^ 63) \<le> sint c" by (rule sint_u64_bounds)
  then have "nat ((- 8 - sint c) div 8) \<le> 2 ^ 60" by auto
  then show ?thesis using copy_total_unat [OF True] by simp
qed (simp add: copy_total_def)


section \<open>What the checks give\<close>

lemma no_overlap:
  assumes o: "\<not> overlaps a n v k" and a: "unat a + unat n \<le> 2 ^ 63"
    and v: "unat v + unat k \<le> 2 ^ 64" and k: "unat k \<le> 2 ^ 32"
  shows "unat v + unat k \<le> unat a \<or> unat a + unat n \<le> unat v"
proof (cases "unat v + unat k < 2 ^ 64")
  case True
  then have vk: "unat (v + k) = unat v + unat k" by (subst unat_add_no_wrap) simp_all
  have an: "unat (a + n) = unat a + unat n" using a by (subst unat_add_no_wrap) simp_all
  have "\<not> (unat a < unat v + unat k \<and> unat v < unat a + unat n)"
    using o unfolding overlaps_def word_less_nat_alt vk an .
  then show ?thesis by linarith
next
  case False
  then have "unat a + unat n \<le> 9223372036854775808" "18446744073709551616 \<le> unat v + unat k"
    "unat k \<le> 4294967296" using a k by simp_all
  then show ?thesis by linarith
qed

lemma no_overlap_word:
  assumes "\<not> overlaps a n v 8" "unat a + unat n \<le> 2 ^ 63" "unat v mod 8 = 0" "i + 8 \<le> unat n"
  shows "disj8 (a + of_nat i) v"
proof -
  have v: "unat v + 8 \<le> 2 ^ 64" using assms(3) by (rule unat_aligned_room)
  have u: "unat (a + of_nat i) = unat a + i" using assms by (intro unat_add_of_nat) simp
  have "unat v + 8 \<le> unat a \<or> unat a + unat n \<le> unat v"
    using no_overlap [OF assms(1,2)] v by simp
  then show ?thesis using v assms(2,4) by (intro disj8_or) (auto simp: u)
qed

lemma no_overlap_loop:
  assumes "\<not> overlaps a n start 456" "unat a + unat n \<le> 2 ^ 63" "unat start + 456 \<le> 2 ^ 63" "i + 8 \<le> unat n"
  shows "loop_apart start (a + of_nat i)"
proof -
  have u: "unat (a + of_nat i) = unat a + i" using assms by (intro unat_add_of_nat) simp
  have "unat start + 456 \<le> unat a \<or> unat a + unat n \<le> unat start"
    using no_overlap [OF assms(1,2)] assms(3) by simp
  then show ?thesis using assms(2,3,4) by (intro loop_apartI) (auto simp: u)
qed

lemma copy_in_mem:
  assumes "\<not> copy_blocked m pmap msize ds s d bytes"
  shows "unat s + unat bytes \<le> unat msize" "unat d + unat bytes \<le> unat msize"
  using assms by (auto simp: copy_blocked_def not_less word_le_nat_alt unat_diff_le)

lemma copy_fwd_ok:
  assumes "\<not> copy_blocked m pmap msize ds s d bytes" "unat msize \<le> 2 ^ 63"
  shows "fwd_ok d s (unat bytes)"
proof (cases "d \<le> s")
  case True
  then show ?thesis using copy_in_mem [OF assms(1)] assms(2) by (intro fwd_ok_below) simp_all
next
  case False
  then have "s + bytes \<le> d" using assms(1) by (auto simp: copy_blocked_def)
  moreover have "unat (s + bytes) = unat s + unat bytes"
    using copy_in_mem [OF assms(1)] assms(2) by (subst unat_add_no_wrap) simp_all
  ultimately have "unat bytes \<le> unat (d - s)"
    using False by (simp add: word_le_nat_alt unat_diff_le)
  then show ?thesis by (simp add: fwd_ok_def)
qed

lemma copy_word_apart:
  assumes nb: "\<not> copy_blocked m pmap msize ds s d bytes" and sz: "unat msize \<le> 2 ^ 63"
    and st: "unat (cd_start ds) + 456 \<le> 2 ^ 63" and ap: "copy_apart ds" and i: "i + 8 \<le> unat bytes"
  shows "word_apart ds (s + of_nat i) (d + of_nat i)"
proof -
  have r: "unat s + unat bytes \<le> 2 ^ 63" "unat d + unat bytes \<le> 2 ^ 63"
    using copy_in_mem [OF nb] sz by simp_all
  have al: "unat v mod 8 = 0" if "v \<in> set [cd_t1 ds, cd_t2 ds, cd_s ds, cd_d ds, cd_c ds, cd_m ds]" for v
    using ap that by (auto simp: copy_apart_def)
  have s: "disj8 (s + of_nat i) v" if "v \<in> set [cd_t1 ds, cd_t2 ds, cd_s ds, cd_d ds, cd_c ds]" for v
  proof (rule no_overlap_word [OF _ r(1) _ i])
    show "\<not> overlaps s bytes v 8" using nb that unfolding copy_blocked_def by blast
    show "unat v mod 8 = 0" using al that by auto
  qed
  have d: "disj8 (d + of_nat i) v"
    if "v \<in> set [cd_t1 ds, cd_t2 ds, cd_s ds, cd_d ds, cd_c ds, cd_m ds]" for v
  proof (rule no_overlap_word [OF _ r(2) _ i])
    show "\<not> overlaps d bytes v 8" using nb that unfolding copy_blocked_def by auto
    show "unat v mod 8 = 0" using al that by auto
  qed
  have "loop_apart (cd_start ds) (s + of_nat i)" "loop_apart (cd_start ds) (d + of_nat i)"
    using nb by (auto simp: copy_blocked_def intro!: no_overlap_loop [OF _ r(1) st i] no_overlap_loop [OF _ r(2) st i])
  then show ?thesis using s d unfolding word_apart_def by blast
qed

section \<open>Running the loop at once\<close>

text \<open>What \<open>jit_copy\<close> did when it ran iterations.\<close>

lemma jit_copyD:
  assumes "jit_copy copy_fn pmap msize m ds budget = (r, m')" "cr_n r \<noteq> 0"
  obtains s d c n where "s = rd m (cd_s ds)" "d = rd m (cd_d ds)" "c = rd m (cd_c ds)"
    "n = copy_count c budget" "rd m (cd_m ds) = -8" "COPY_MIN \<le> n"
    "\<not> copy_blocked m pmap msize ds s d (8 * n)"
    "r = \<lparr>cr_n = n, cr_done = (n = copy_total c)\<rparr>"
    "m' = copy_finish (copy_fn m d s (8 * n)) ds s d c (8 * n) (rd m (s + 8 * n - 8))"
proof -
  have "\<exists>s d c n. s = rd m (cd_s ds) \<and> d = rd m (cd_d ds) \<and> c = rd m (cd_c ds) \<and>
    n = copy_count c budget \<and> rd m (cd_m ds) = -8 \<and> COPY_MIN \<le> n \<and>
    \<not> copy_blocked m pmap msize ds s d (8 * n) \<and>
    r = \<lparr>cr_n = n, cr_done = (n = copy_total c)\<rparr> \<and>
    m' = copy_finish (copy_fn m d s (8 * n)) ds s d c (8 * n) (rd m (s + 8 * n - 8))"
    using assms unfolding jit_copy_def Let_def
    by (auto split: if_splits simp: not_less)
  then show ?thesis using that by blast
qed

lemma copy_finish_writes:
  "copy_finish m ds s d c (b + 8) w = be.writes m (copy_vals ds (s + b) (d + b) (c + b) w)"
  by (simp add: copy_finish_def copy_vals_def Let_def add.assoc)


lemma copy_le_4: "COPY_MIN \<le> n \<Longrightarrow> 4 \<le> unat n"
  by (simp add: COPY_MIN_def word_le_nat_alt)

lemma copy_bytes_unat:
  assumes "n \<le> copy_total c"
  shows "unat (8 * n) = 8 * unat n"
proof -
  have "unat n \<le> 2 ^ 60 + 2" using assms copy_total_bound [of c] by (simp add: word_le_nat_alt)
  then show ?thesis by (simp add: unat_word_ariths)
qed

text \<open>
  C7: Whenever \<open>jit_copy\<close> says it ran \<open>n\<close> iterations of a loop \<open>match_copy\<close> recognised, and whose
  static fields have not changed since, memory is what \<open>19 * n\<close> instructions from the loop's start
  leave, and execution goes on where they end: after the loop when \<open>done\<close>, else at its start. This
  holds for every copy that copies forward blocks, so for \<open>memmove\<close> and all of copy.asm.
\<close>

theorem jit_copy_correct:
  assumes cp: "forward_copy copy_fn"
    and mc: "match_copy m0 dyn_map mem_size start = Some ds"
    and same: "same_code start m0 m"
    and sz: "unat start + 456 \<le> 2 ^ 63" "unat mem_size \<le> 2 ^ 63"
    and run: "jit_copy copy_fn pmap mem_size m ds budget = (r, m')" "cr_n r \<noteq> 0"
  shows "(subleq_step ^^ (19 * unat (cr_n r))) (m, start) = (m', if cr_done r then start + 456 else start)"
proof -
  have start: "cd_start ds = start" and ap: "copy_apart ds" and code: "copy_code m ds"
    using match_copyD [OF mc sz(1)] same copy_code_cong by blast+
  obtain s d c n where v: "s = rd m (cd_s ds)" "d = rd m (cd_d ds)" "c = rd m (cd_c ds)" "rd m (cd_m ds) = -8"
    and n: "n = copy_count c budget" "COPY_MIN \<le> n" and nb: "\<not> copy_blocked m pmap mem_size ds s d (8 * n)"
    and r: "r = \<lparr>cr_n = n, cr_done = (n = copy_total c)\<rparr>"
    and m': "m' = copy_finish (copy_fn m d s (8 * n)) ds s d c (8 * n) (rd m (s + 8 * n - 8))"
    using jit_copyD [OF run] by metis
  have nt: "n \<le> copy_total c" by (simp add: n(1) copy_count_le)
  obtain k where k: "unat n = Suc k" using copy_le_4 [OF n(2)] by (cases "unat n") auto
  have b: "unat (8 * n) = 8 * k + 8" using copy_bytes_unat [OF nt] k by simp
  have bb: "8 * n = of_nat (8 * k) + 8"
  proof -
    have "8 * n = of_nat (unat (8 * n))" by simp
    then show ?thesis by (simp only: b of_nat_add of_nat_numeral)
  qed
  have ready: "copy_ready m ds s d c" using code v by (simp add: copy_ready_def)
  have wa: "word_apart ds (s + of_nat (8 * i)) (d + of_nat (8 * i))" if "i \<le> k" for i
    using that sz(1) b by (intro copy_word_apart [OF nb sz(2) _ ap]) (simp_all add: start)
  have fwd: "fwd_ok d s (8 * k + 8)" using copy_fwd_ok [OF nb sz(2)] by (simp only: b)
  have lim: "8 * k + 8 \<le> 2 ^ 64" using unat_u64_bound [of "8 * n"] b by simp
  have tot: "Suc k \<le> unat (copy_total c)" using nt k by (simp add: word_le_nat_alt)
  have br: "c + of_nat (8 * i) \<le>s -8" if "i < k" for i
    using copy_total_branch [of i c] tot that by simp
  have last: "c + of_nat (8 * k) \<le>s -8 \<longleftrightarrow> n \<noteq> copy_total c"
    using copy_total_branch [OF tot] k by (metis word_unat_eq_iff)
  have fn: "copy_fn m d s (8 * n) = block_copy m d s (8 * k + 8)"
    using forward_copy.copy_block [OF cp, of d s "8 * n" m] fwd copy_in_mem [OF nb] sz(2) by (simp add: b)
  have w: "rd m (s + 8 * n - 8) = rd m (s + of_nat (8 * k))" by (simp add: bb)
  have "m' = be.writes (block_copy m d s (8 * k + 8))
         (copy_vals ds (s + of_nat (8 * k)) (d + of_nat (8 * k)) (c + of_nat (8 * k)) (rd m (s + of_nat (8 * k))))"
    unfolding m' fn w unfolding bb by (rule copy_finish_writes)
  then show ?thesis
    using copy_run [OF ready ap wa fwd lim br] last by (auto simp: r k start)
qed

text \<open>
  A run of \<open>n\<close> iterations is at least \<open>COPY_MIN\<close>, and the budget left after the first (which the
  block's entry took) covers the instructions of the others.
\<close>

lemma jit_copy_budget:
  assumes "jit_copy copy_fn pmap mem_size m ds budget = (r, m')" "cr_n r \<noteq> 0"
  shows "4 \<le> unat (cr_n r) \<and> 19 * (unat (cr_n r) - 1) \<le> unat budget"
proof -
  obtain c n where n: "n = copy_count c budget" "COPY_MIN \<le> n" and r: "cr_n r = n"
    using jit_copyD [OF assms] by (metis copy_result.select_convs(1))
  then show ?thesis using copy_le_4 [OF n(2)] copy_count_budget [of c budget] assms(2) by simp
qed

text \<open>
  The words \<open>jit_copy\<close> copies over are static fields of no translated code, when the page map
  covers the static map: the loop over the destination's pages is a complete check.
\<close>

lemma jit_copy_keeps_static:
  assumes "page_cover M" "unat mem_size \<le> 2 ^ 63"
    and "jit_copy copy_fn (page_map M) mem_size m ds budget = (r, m')" "cr_n r \<noteq> 0"
    and "i < 8 * unat (cr_n r)"
  shows "\<not> bit_get (static_map M) (drop_bit 3 (rd m (cd_d ds) + of_nat i))"
proof -
  obtain s d c n where d: "d = rd m (cd_d ds)" and n: "n = copy_count c budget" "COPY_MIN \<le> n" and r: "cr_n r = n"
    and nb: "\<not> copy_blocked m (page_map M) mem_size ds s d (8 * n)"
    using jit_copyD [OF assms(3,4)] by (metis copy_result.select_convs(1))
  have b: "unat (8 * n) = 8 * unat n" using copy_count_le n(1) by (intro copy_bytes_unat) simp
  have lim: "unat d + 8 * unat n \<le> 2 ^ 63" using copy_in_mem(2) [OF nb] assms(2) b by simp
  have a: "unat (d + of_nat i) = unat d + i" using lim assms(5) by (intro unat_add_of_nat) (simp add: r)
  have "unat (d + 8 * n) = unat d + 8 * unat n"
    using lim by (subst unat_add_no_wrap) (simp_all add: b)
  moreover have "d + 8 * n \<noteq> 0" using calculation copy_le_4 [OF n(2)] by (auto simp: unat_eq_zero [symmetric])
  ultimately have e: "unat (d + 8 * n - 1) = unat d + 8 * unat n - 1" by (simp add: unat_minus_one)
  have "unat (drop_bit 12 (d + of_nat i)) \<in> set [unat (drop_bit 12 d)..<Suc (unat (drop_bit 12 (d + 8 * n - 1)))]"
    using assms(5) by (auto simp: unat_shr_12 a e r less_Suc_eq_le intro!: div_le_mono)
  then have "page_map M (of_nat (unat (drop_bit 12 (d + of_nat i)))) = 0"
    using nb unfolding copy_blocked_def by blast
  then have "page_map M (drop_bit 12 (d + of_nat i)) = 0" by simp
  then show ?thesis using assms(1) by (auto simp: page_cover_def page_of_word d [symmetric])
qed

section \<open>A loop\<close>

text \<open>Memory given by its first words, big-endian.\<close>

definition words_mem :: "u64 list \<Rightarrow> mem" where
  "words_mem ws x = (if unat x div 8 < length ws
     then ucast (drop_bit (8 * (7 - unat x mod 8)) (ws ! (unat x div 8))) else 0)"

lemma rd_words_mem:
  assumes "unat a mod 8 = 0" "unat a div 8 < length ws"
  shows "rd (words_mem ws) a = ws ! (unat a div 8)"
proof -
  have lt: "unat a + 8 \<le> 2 ^ 64" using assms(1) by (rule unat_aligned_room)
  have b: "words_mem ws (a + of_nat i) = ucast (drop_bit (8 * (7 - i)) (ws ! (unat a div 8)))" if "i < 8" for i
  proof -
    have "unat (a + of_nat i) = unat a + i" using that lt by (intro unat_add_of_nat) simp
    moreover have "(unat a + i) div 8 = unat a div 8" "(unat a + i) mod 8 = i"
      using assms(1) that by (auto elim!: dvdE)
    ultimately show ?thesis using assms(2) by (simp add: words_mem_def)
  qed
  have "load64 (words_mem ws) a = bswap64 (ws ! (unat a div 8))"
    unfolding load64_def bswap64_def join_bytes_def by (rule foldr_cong) (auto simp: b)
  then show ?thesis by (simp add: dawn_readram_def)
qed

text \<open>
  The loop at 0, its variables after it (T1, T2, S, D, C, M at 456 ... 496), four words to copy from
  4096 to 8192.
\<close>

definition loop_words :: "u64 list" where
  "loop_words =
     [456, 456, 24,   464, 464, 48,   120, 120, 72,   472, 456, 96,   456, 120, 120,
      0, 464, 144,    456, 456, 168,  368, 368, 192,  336, 336, 216,  344, 344, 240,
      480, 456, 264,  456, 368, 288,  456, 336, 312,  456, 344, 336,  0, 0, 360,
      464, 0, 384,    496, 472, 408,  496, 480, 432,  496, 488, 0,
      0, 0, 4096, 8192, -24, -8]"

definition loop_desc :: copy_desc where
  "loop_desc = \<lparr>cd_start = 0, cd_t1 = 456, cd_t2 = 464, cd_s = 472, cd_d = 480, cd_c = 488, cd_m = 496\<rparr>"

definition loop_mem :: mem where
  "loop_mem = words_mem loop_words"

lemma loop_addrs:
  "map (\<lambda>i. 8 * of_nat i) [0..<63] =
    ([0, 8, 16, 24, 32, 40, 48, 56, 64, 72, 80, 88, 96, 104, 112, 120, 128, 136, 144, 152, 160,
     168, 176, 184, 192, 200, 208, 216, 224, 232, 240, 248, 256, 264, 272, 280, 288, 296, 304,
     312, 320, 328, 336, 344, 352, 360, 368, 376, 384, 392, 400, 408, 416, 424, 432, 440, 448,
     456, 464, 472, 480, 488, 496] :: u64 list)"
  by code_simp

lemma loop_words_list: "map (rd loop_mem) (map (\<lambda>i. 8 * of_nat i) [0..<63]) = loop_words"
proof (rule nth_equalityI)
  have len: "length loop_words = 63" by (simp add: loop_words_def)
  then show "length (map (rd loop_mem) (map (\<lambda>i. 8 * of_nat i) [0..<63])) = length loop_words" by simp
  fix i assume "i < length (map (rd loop_mem) (map (\<lambda>i. 8 * of_nat i) [0..<63]))"
  then have i: "i < 63" by simp
  have "unat (8 * of_nat i :: u64) = 8 * i"
    using i unat_of_nat_u64 [of "8 * i"] by simp
  then show "map (rd loop_mem) (map (\<lambda>i. 8 * of_nat i) [0..<63]) ! i = loop_words ! i"
    using i len by (simp add: loop_mem_def rd_words_mem)
qed

lemmas loop_rd = loop_words_list [unfolded loop_addrs loop_words_def list.map list.inject]

lemma upt_19: "[0..<19] = [0, 1, 2, 3, 4, 5, 6, 7, 8, 9, 10, 11, 12, 13, 14, 15, 16, 17, 18::nat]"
  by code_simp

lemma match_loop: "match_copy loop_mem (\<lambda>_. 0) 65536 0 = Some loop_desc"
proof -
  have g: "\<not> bit_get (\<lambda>_. 0) w" for w by (simp add: bit_get_def)
  have st: "match_insns loop_mem (\<lambda>_. 0) 0 [0..<19] (match_init 0) =
     Some \<lparr>sym = (\<lambda>_. 0)(X_F1 := 120, X_F2 := 368, X_F3 := 336, X_F4 := 344, X_T1 := 456, X_T2 := 464,
                            X_S := 472, X_D := 480, X_M := 496, X_C := 488),
           bound = (\<lambda>x. x = X_F1 \<or> x = X_F2 \<or> x = X_F3 \<or> x = X_F4)
                     (X_T1 := True, X_T2 := True, X_S := True, X_D := True, X_M := True, X_C := True),
           sd = 472\<rparr>"
    unfolding upt_19 by (simp add: match_insn_def match_field_def match_init_def copy_tmpl_def g Let_def loop_rd)
  have vs: "map ((\<lambda>_. 0)(X_F1 := 120, X_F2 := 368, X_F3 := 336, X_F4 := 344, X_T1 := 456, X_T2 := 464,
     X_S := 472, X_D := 480, X_M := 496, X_C := 488)) copy_vars = [456, 464, 472, 480, 488, 496 :: u64]"
    by (simp add: copy_vars_def)
  have ok: "\<not> (\<exists>k\<in>set [0..<6]. var_bad 65536 0 [456, 464, 472, 480, 488, 496] k)"
    by code_simp
  have sz: "\<not> (65536 :: u64) < 0 + 19 * 24" by simp
  show ?thesis
    unfolding match_copy_def st option.case Let_def match.select_convs vs if_not_P [OF ok] if_not_P [OF sz]
    by (simp add: loop_desc_def)
qed

lemma run_loop:
  assumes p: "pmap 2 = 0"
  shows "jit_copy copy_fn pmap 65536 loop_mem loop_desc 100 =
     (\<lparr>cr_n = 4, cr_done = True\<rparr>, snd (jit_copy copy_fn pmap 65536 loop_mem loop_desc 100))"
proof -
  have n: "copy_total (-24) = 4" "copy_count (-24) 100 = 4" by code_simp+
  have b: "\<not> copy_blocked loop_mem pmap 65536 loop_desc 4096 8192 32"
    using p by (simp add: copy_blocked_def overlaps_def loop_desc_def HW_LO_def HW_HI_def)
  have v: "rd loop_mem (cd_m loop_desc) = -8" "rd loop_mem (cd_s loop_desc) = 4096"
    "rd loop_mem (cd_d loop_desc) = 8192" "rd loop_mem (cd_c loop_desc) = -24"
    by (simp_all add: loop_desc_def loop_rd)
  show ?thesis by (simp add: jit_copy_def Let_def v n b COPY_MIN_def)
qed

theorem jit_copy_correct_witness:
  "jit_copy memmove (\<lambda>_. 0) 65536 loop_mem loop_desc 100 =
     (\<lparr>cr_n = 4, cr_done = True\<rparr>, snd (jit_copy memmove (\<lambda>_. 0) 65536 loop_mem loop_desc 100)) \<and>
   (subleq_step ^^ 76) (loop_mem, 0) = (snd (jit_copy memmove (\<lambda>_. 0) 65536 loop_mem loop_desc 100), 456)"
  using jit_copy_correct [OF move_copy.forward_copy_axioms match_loop _ _ _ run_loop] run_loop
  by (simp add: same_code_def)

theorem jit_copy_budget_witness: "4 \<le> unat (4::u64) \<and> 19 * (unat (4::u64) - 1) \<le> unat (100::u64)"
  using jit_copy_budget [OF run_loop [of "\<lambda>_. 0"]] by simp

text \<open>The page of a static word, at 0x5000, is not the destination's.\<close>

theorem jit_copy_keeps_static_witness:
  "\<not> bit_get (static_map (mark_static \<lparr>static_map = (\<lambda>_. 0), page_map = (\<lambda>_. 0)\<rparr> 2560))
       (drop_bit 3 (rd loop_mem (cd_d loop_desc) + of_nat 31))"
proof (rule jit_copy_keeps_static)
  show "page_cover (mark_static \<lparr>static_map = (\<lambda>_. 0), page_map = (\<lambda>_. 0)\<rparr> 2560)"
    by (rule page_cover_mark) (simp add: page_cover_def bit_get_def)
  show "jit_copy memmove (page_map (mark_static \<lparr>static_map = (\<lambda>_. 0), page_map = (\<lambda>_. 0)\<rparr> 2560))
      65536 loop_mem loop_desc 100 = (\<lparr>cr_n = 4, cr_done = True\<rparr>,
      snd (jit_copy memmove (page_map (mark_static \<lparr>static_map = (\<lambda>_. 0), page_map = (\<lambda>_. 0)\<rparr> 2560))
      65536 loop_mem loop_desc 100))"
    by (rule run_loop) (simp add: mark_static_def)
qed simp_all

end
