(* ===== verification/Ring.thy ===== *)
theory Ring
  imports Prelude
begin

text \<open>
  Bounded queues. The kernel keeps several as arrays with a head and a tail that wrap around
  (\<open>io_stack\<close> in dawn.c, \<open>queue\<close> and \<open>pending\<close> in jit.c), and one as an array that is shifted
  (\<open>packets\<close> in mouse.c). \<open>ring_list\<close> is what such a ring holds, in order; the locale
  \<open>bounded_fifo\<close> is the contract all of them keep.
\<close>

section \<open>Rings\<close>

definition ring_next :: "nat \<Rightarrow> nat \<Rightarrow> nat" where
  "ring_next N i = (i + 1) mod N"

definition ring_len :: "nat \<Rightarrow> nat \<Rightarrow> nat \<Rightarrow> nat" where
  "ring_len N h t = (t + N - h) mod N"

definition ring_list :: "nat \<Rightarrow> nat \<Rightarrow> nat \<Rightarrow> (nat \<Rightarrow> 'a) \<Rightarrow> 'a list" where
  "ring_list N h t slots = map (\<lambda>k. slots ((h + k) mod N)) [0..<ring_len N h t]"

lemma ring_next_less [simp]: "0 < N \<Longrightarrow> ring_next N i < N"
  by (simp add: ring_next_def)

lemma ring_len_cases:
  assumes "h < N" "t < N"
  shows "ring_len N h t = (if h \<le> t then t - h else t + N - h)"
proof (cases "h \<le> t")
  case True
  then have "t + N - h = (t - h) + N" by simp
  moreover have "(t - h) mod N = t - h" using assms by simp
  ultimately show ?thesis using True unfolding ring_len_def by (simp only: mod_add_self2 if_True)
next
  case False
  then show ?thesis using assms by (simp add: ring_len_def)
qed

lemma ring_next_cases: "i < N \<Longrightarrow> ring_next N i = (if Suc i = N then 0 else Suc i)"
  by (auto simp: ring_next_def)

lemma ring_len_less: "h < N \<Longrightarrow> t < N \<Longrightarrow> ring_len N h t < N"
  by (auto simp: ring_len_cases)

lemma ring_len_0: "h < N \<Longrightarrow> t < N \<Longrightarrow> ring_len N h t = 0 \<longleftrightarrow> h = t"
  by (auto simp: ring_len_cases)

lemma ring_len_full: "h < N \<Longrightarrow> t < N \<Longrightarrow> ring_next N t = h \<longleftrightarrow> ring_len N h t = N - 1"
  by (auto simp: ring_len_cases ring_next_cases)

lemma ring_len_push:
  "h < N \<Longrightarrow> t < N \<Longrightarrow> ring_next N t \<noteq> h \<Longrightarrow> ring_len N h (ring_next N t) = Suc (ring_len N h t)"
  by (auto simp: ring_len_cases ring_next_cases)

lemma ring_len_pop:
  "h < N \<Longrightarrow> t < N \<Longrightarrow> h \<noteq> t \<Longrightarrow> ring_len N h t = Suc (ring_len N (ring_next N h) t)"
  by (auto simp: ring_len_cases ring_next_cases)

lemma length_ring_list [simp]: "length (ring_list N h t slots) = ring_len N h t"
  by (simp add: ring_list_def)

lemma ring_list_empty [simp]: "h < N \<Longrightarrow> ring_list N h h slots = []"
  by (simp add: ring_list_def ring_len_0)

lemma ring_list_Nil: "h < N \<Longrightarrow> t < N \<Longrightarrow> ring_list N h t slots = [] \<longleftrightarrow> h = t"
  by (simp add: ring_list_def ring_len_0)

text \<open>The slot at the tail is not one in use.\<close>

lemma ring_slot_neq:
  assumes "h < N" "t < N" "k < ring_len N h t"
  shows "(h + k) mod N \<noteq> t"
proof (cases "h + k < N")
  case True
  then show ?thesis using assms by (auto simp: ring_len_cases split: if_splits)
next
  case False
  moreover have "h + k < N + N" using assms ring_len_less [of h N t] by simp
  ultimately have "(h + k) mod N = h + k - N" by (simp add: le_mod_geq)
  then show ?thesis using False assms by (auto simp: ring_len_cases split: if_splits)
qed

lemma ring_list_push:
  assumes "h < N" "t < N" "ring_next N t \<noteq> h"
  shows "ring_list N h (ring_next N t) (slots(t := x)) = ring_list N h t slots @ [x]"
proof -
  have last: "(h + ring_len N h t) mod N = t"
  proof (cases "h \<le> t")
    case False
    then have "h + (t + N - h) = t + N" using assms by simp
    then show ?thesis using False assms by (simp add: ring_len_cases)
  qed (use assms in \<open>simp add: ring_len_cases\<close>)
  have "map (\<lambda>k. (slots(t := x)) ((h + k) mod N)) [0..<ring_len N h t] = ring_list N h t slots"
    unfolding ring_list_def using ring_slot_neq [OF assms(1,2)] by (intro map_cong) auto
  then show ?thesis by (simp add: ring_list_def [of N h "ring_next N t"] ring_len_push [OF assms] last)
qed

lemma ring_list_pop:
  assumes "h < N" "t < N" "h \<noteq> t"
  shows "ring_list N h t slots = slots h # ring_list N (ring_next N h) t slots"
proof -
  have e: "Suc (h + k) mod N = (ring_next N h + k) mod N" for k
    by (simp add: ring_next_def mod_simps)
  have "[0..<Suc n] = 0 # map Suc [0..<n]" for n
    by (simp add: map_Suc_upt upt_conv_Cons del: upt_Suc)
  then show ?thesis using assms(1)
    by (simp add: ring_list_def [of N h] ring_len_pop [OF assms] ring_list_def [of N "ring_next N h"] e comp_def)
qed

section \<open>The interface of a bounded queue\<close>

locale bounded_fifo =
  fixes inv :: "'s \<Rightarrow> bool" and contents :: "'s \<Rightarrow> 'a list"
    and push :: "'a \<Rightarrow> 's \<Rightarrow> 's option" and pop :: "'s \<Rightarrow> ('a \<times> 's) option" and cap :: nat
  assumes push_room: "inv s \<Longrightarrow> length (contents s) < cap \<Longrightarrow>
      \<exists>s'. push x s = Some s' \<and> inv s' \<and> contents s' = contents s @ [x]"
    and push_full: "inv s \<Longrightarrow> cap \<le> length (contents s) \<Longrightarrow> push x s = None"
    and pop_first: "inv s \<Longrightarrow> contents s = x # xs \<Longrightarrow>
      \<exists>s'. pop s = Some (x, s') \<and> inv s' \<and> contents s' = xs"
    and pop_empty: "inv s \<Longrightarrow> contents s = [] \<Longrightarrow> pop s = None"
begin

lemma push_SomeD:
  assumes "inv s" "push x s = Some s'"
  shows "inv s' \<and> contents s' = contents s @ [x] \<and> length (contents s) < cap"
proof -
  have "length (contents s) < cap" using push_full [of s x] assms by (cases "length (contents s) < cap") auto
  then show ?thesis using push_room [OF assms(1), of x] assms(2) by auto
qed

lemma push_None_iff: "inv s \<Longrightarrow> push x s = None \<longleftrightarrow> cap \<le> length (contents s)"
  using push_room [of s x] push_full [of s x] by (cases "length (contents s) < cap") auto

lemma pop_SomeD:
  assumes "inv s" "pop s = Some (x, s')"
  shows "inv s' \<and> contents s = x # contents s'"
  using assms pop_empty [of s] pop_first [of s] by (cases "contents s") auto

fun push_all :: "'a list \<Rightarrow> 's \<Rightarrow> 's option" where
  "push_all [] s = Some s"
| "push_all (x # xs) s = (case push x s of None \<Rightarrow> None | Some s \<Rightarrow> push_all xs s)"

fun pop_all :: "nat \<Rightarrow> 's \<Rightarrow> 'a list" where
  "pop_all 0 s = []"
| "pop_all (Suc n) s = (case pop s of None \<Rightarrow> [] | Some (x, s) \<Rightarrow> x # pop_all n s)"

lemma push_all_contents:
  "inv s \<Longrightarrow> length (contents s) + length xs \<le> cap \<Longrightarrow>
     \<exists>s'. push_all xs s = Some s' \<and> inv s' \<and> contents s' = contents s @ xs"
proof (induction xs arbitrary: s)
  case Nil
  then show ?case by simp
next
  case (Cons x xs)
  then obtain s1 where "push x s = Some s1" "inv s1" "contents s1 = contents s @ [x]"
    using push_room [of s x] by auto
  then show ?case using Cons.IH [of s1] Cons.prems(2) by simp
qed

lemma pop_all_contents: "inv s \<Longrightarrow> length (contents s) \<le> n \<Longrightarrow> pop_all n s = contents s"
proof (induction n arbitrary: s)
  case 0
  then show ?case by simp
next
  case (Suc n)
  show ?case
  proof (cases "contents s")
    case Nil
    then show ?thesis using pop_empty Suc.prems by simp
  next
    case (Cons x xs)
    then show ?thesis using pop_first [OF Suc.prems(1) Cons] Suc.IH Suc.prems(2) by auto
  qed
qed

text \<open>First in, first out: what was put into an empty queue comes out in the same order.\<close>

lemma fifo:
  assumes "inv s" "contents s = []" "length xs \<le> cap"
  shows "\<exists>s'. push_all xs s = Some s' \<and> pop_all (length xs) s' = xs"
  using push_all_contents [of s xs] pop_all_contents [of _ "length xs"] assms by fastforce

end

end
