(* ===== verification/Jit_Blocks.thy ===== *)
theory Jit_Blocks
  imports Subleq Bitmap Ring
begin

text \<open>
  The translator's block tables and the handling of self-modifying code (jit.c): per CPU a hash
  table of translated blocks, the jumps linked to them, and a queue of words other CPUs dropped code
  for; shared, the maps of static and dynamic words. Pointers into the \<open>blocks\<close> and \<open>links\<close> arrays are
  indices, the intrusive lists (\<open>hnext\<close>, \<open>incoming\<close>, \<open>free_links\<close>) are lists of those, in list order.
  The code cache is a byte memory of its own. What translated code does when it runs is not part of
  this theory; that blocks found by \<open>lookup\<close> still match memory is.
\<close>

section \<open>State\<close>

definition JIT_MAX_BLOCK :: nat where "JIT_MAX_BLOCK = 64"
definition QUEUE_LEN :: nat where "QUEUE_LEN = 1024"
definition PENDING_LEN :: nat where "PENDING_LEN = 4096"

record jit_block =
  jb_start :: u64
  jb_n :: nat
  jb_entry :: u64
  jb_inv_stub :: u64
  jb_incoming :: "nat list"
  jb_hoist :: "u64 list"
  jb_smask :: "nat \<Rightarrow> u64"
  jb_shash :: u64
  jb_valid :: bool

record jit_stats =
  js_links :: u64
  js_smc_words :: u64
  js_invalidations :: u64
  js_revalidations :: u64
  js_interp_steps :: u64
  js_flushes :: u64

record jit_cpu =
  jc_code :: mem
  jc_code_base :: u64
  jc_code_ptr :: u64
  jc_blocks :: "nat \<Rightarrow> jit_block"
  jc_nblocks :: nat
  jc_links :: "nat \<Rightarrow> u64"
  jc_free_links :: "nat list"
  jc_nlinks :: nat
  jc_max_links :: nat
  jc_nmeta :: nat
  jc_max_meta :: nat
  jc_htab :: "u64 \<Rightarrow> nat list"
  jc_queue :: "nat \<Rightarrow> u64"
  jc_qhead :: nat
  jc_qtail :: nat
  jc_qoverflow :: bool
  jc_pending :: "nat \<Rightarrow> nat \<times> u64"
  jc_phead :: nat
  jc_ptail :: nat
  jc_stats :: jit_stats

record jit =
  j_mem :: mem
  j_mem_size :: u64
  j_maps :: maps
  j_dyn_map :: bytes
  j_ncpus :: nat
  j_cpus :: "nat \<Rightarrow> jit_cpu"
  j_quiet :: "nat \<Rightarrow> u64"

section \<open>Blocks\<close>

definition hash :: "u64 \<Rightarrow> u64" where
  "hash a = drop_bit (64 - 16) (drop_bit 3 a * 0x9e3779b97f4a7c15)"

definition lookup :: "jit_cpu \<Rightarrow> u64 \<Rightarrow> nat option" where
  "lookup J a = find (\<lambda>b. jb_start (jc_blocks J b) = a) (jc_htab J (hash a))"

definition patch_rel32 :: "u64 \<Rightarrow> u64 \<Rightarrow> mem \<Rightarrow> mem" where
  "patch_rel32 site target code =
     (let rel = ucast (target - (site + 4)) :: i32
      in (\<lambda>x. if x - site < 4 then ucast (drop_bit (8 * unat (x - site)) rel) else code x))"

text \<open>Sending one linked jump back to its slow path.\<close>

definition unlink :: "nat \<Rightarrow> jit_cpu \<Rightarrow> jit_cpu" where
  "unlink l J =
     J\<lparr>jc_code := patch_rel32 (jc_links J l) (jc_links J l + 4) (jc_code J),
       jc_free_links := l # jc_free_links J\<rparr>"

definition invalidate :: "nat \<Rightarrow> jit_cpu \<Rightarrow> jit_cpu" where
  "invalidate b J =
     (let B = jc_blocks J b in
      if \<not> jb_valid B then J
      else
        let h = hash (jb_start B);
            J = J\<lparr>jc_blocks := (jc_blocks J)(b := B\<lparr>jb_valid := False\<rparr>),
                  jc_htab := (jc_htab J)(h := remove1 b (jc_htab J h))\<rparr>;
            J = fold unlink (jb_incoming B) J;
            J = J\<lparr>jc_blocks := (jc_blocks J)(b := jc_blocks J b\<lparr>jb_incoming := []\<rparr>),
                  jc_code := (jc_code J)(jb_entry B := 0xe9)\<rparr>;
            J = J\<lparr>jc_code := patch_rel32 (jb_entry B + 1) (jb_inv_stub B) (jc_code J)\<rparr>
        in J\<lparr>jc_stats := jc_stats J\<lparr>js_invalidations := js_invalidations (jc_stats J) + 1\<rparr>\<rparr>)"

text \<open>
  The addresses a block with an instruction over word \<open>w\<close> can start at, in the loop's order. The
  loop ends because no such \<open>a\<close> is the last word of the address space.
\<close>

definition word_starts :: "u64 \<Rightarrow> u64 list" where
  "word_starts w =
     (let a = push_bit 3 w;
          lo = if 24 * of_nat JIT_MAX_BLOCK \<le> a then a - 24 * of_nat JIT_MAX_BLOCK + 8 else 0
      in map (\<lambda>i. lo + 8 * of_nat i) [0..<Suc ((unat a - unat lo) div 8)])"

definition invalidate_word :: "u64 \<Rightarrow> jit_cpu \<Rightarrow> jit_cpu" where
  "invalidate_word w J =
     (let a = push_bit 3 w
      in fold (\<lambda>s J. case lookup J s of
                 None \<Rightarrow> J
               | Some b \<Rightarrow> if a < s + 24 * of_nat (jb_n (jc_blocks J b)) then invalidate b J else J)
           (word_starts w) J)"

definition flush :: "jit_cpu \<Rightarrow> jit_cpu" where
  "flush J =
     J\<lparr>jc_htab := (\<lambda>_. []), jc_code_ptr := jc_code_base J, jc_nblocks := 0, jc_nlinks := 0,
       jc_free_links := [], jc_nmeta := 0, jc_phead := 0, jc_ptail := 0,
       jc_stats := jc_stats J\<lparr>js_flushes := js_flushes (jc_stats J) + 1\<rparr>\<rparr>"

section \<open>Stores to translated code\<close>

text \<open>Telling another CPU to drop its code for word \<open>w\<close>, under its \<open>qlock\<close>.\<close>

definition enqueue :: "u64 \<Rightarrow> jit_cpu \<Rightarrow> jit_cpu" where
  "enqueue w J =
     (let nxt = ring_next QUEUE_LEN (jc_qtail J)
      in if nxt = jc_qhead J then J\<lparr>jc_qoverflow := True\<rparr>
         else J\<lparr>jc_queue := (jc_queue J)(jc_qtail J := w), jc_qtail := nxt\<rparr>)"

definition on_cpu :: "nat \<Rightarrow> (jit_cpu \<Rightarrow> jit_cpu) \<Rightarrow> jit \<Rightarrow> jit" where
  "on_cpu c f W = W\<lparr>j_cpus := (j_cpus W)(c := f (j_cpus W c))\<rparr>"

definition smc_hit :: "nat \<Rightarrow> u64 \<Rightarrow> jit \<Rightarrow> jit" where
  "smc_hit c w W =
     (let W = on_cpu c (\<lambda>J. J\<lparr>jc_stats := jc_stats J\<lparr>js_smc_words := js_smc_words (jc_stats J) + 1\<rparr>\<rparr>) W;
          W = W\<lparr>j_dyn_map := bit_set (j_dyn_map W) w\<rparr>;
          W = W\<lparr>j_maps := j_maps W\<lparr>static_map := bit_clr (static_map (j_maps W)) w\<rparr>\<rparr>;
          W = on_cpu c (invalidate_word w) W
      in fold (\<lambda>k W. if k = c then W else on_cpu k (enqueue w) W) [0..<j_ncpus W] W)"

text \<open>\<open>None\<close>: words still queued when the fuel is out.\<close>

fun drain_words :: "nat \<Rightarrow> jit_cpu \<Rightarrow> jit_cpu option" where
  "drain_words 0 J = None"
| "drain_words (Suc fuel) J =
     (if jc_qhead J = jc_qtail J then Some J
      else let J = invalidate_word (jc_queue J (jc_qhead J)) J
           in drain_words fuel (J\<lparr>jc_qhead := ring_next QUEUE_LEN (jc_qhead J)\<rparr>))"

definition drain_queue :: "nat \<Rightarrow> jit_cpu \<Rightarrow> jit_cpu option" where
  "drain_queue fuel J =
     (if jc_qoverflow J then Some (flush (J\<lparr>jc_qoverflow := False, jc_qhead := jc_qtail J\<rparr>))
      else drain_words fuel J)"

definition store_check :: "nat \<Rightarrow> u64 \<Rightarrow> jit \<Rightarrow> jit" where
  "store_check c b W =
     (let w0 = drop_bit 3 b; w1 = drop_bit 3 (b + 7);
          W = (if w0 < drop_bit 3 (j_mem_size W) \<and> bit_get (static_map (j_maps W)) w0 then smc_hit c w0 W else W)
      in if w1 \<noteq> w0 \<and> w1 < drop_bit 3 (j_mem_size W) \<and> bit_get (static_map (j_maps W)) w1
         then smc_hit c w1 W else W)"

definition interp_step :: "nat \<Rightarrow> u64 \<Rightarrow> jit \<Rightarrow> jit \<times> u64" where
  "interp_step c eip W =
     (let a = dawn_readram (j_mem W) eip; b = dawn_readram (j_mem W) (eip + 8);
          t = dawn_readram (j_mem W) (eip + 16);
          va = dawn_readram (j_mem W) a; vb = dawn_readram (j_mem W) b;
          W = store_check c b W;
          W = W\<lparr>j_mem := dawn_writeram (j_mem W) b (vb - va)\<rparr>;
          W = on_cpu c (\<lambda>J. J\<lparr>jc_stats := jc_stats J\<lparr>js_interp_steps := js_interp_steps (jc_stats J) + 1\<rparr>\<rparr>) W
      in (W, if vb \<le>s va then t else eip + 24))"

section \<open>New blocks against memory\<close>

definition smask_get :: "jit_block \<Rightarrow> nat \<Rightarrow> bool" where
  "smask_get B f \<longleftrightarrow> drop_bit (f mod 64) (jb_smask B (f div 64)) AND 1 \<noteq> 0"

definition static_hash :: "mem \<Rightarrow> jit_block \<Rightarrow> u64" where
  "static_hash m B =
     fold (\<lambda>f h. if smask_get B f then (h XOR load64 m (jb_start B + 8 * of_nat f)) * 0x100000001b3 else h)
       [0..<jb_n B * 3] 0x9e3779b97f4a7c15"

definition min_quiet :: "jit \<Rightarrow> u64" where
  "min_quiet W = fold (\<lambda>c m. if j_quiet W c < m then j_quiet W c else m) [0..<j_ncpus W] (-1)"

definition drop_block_fields :: "nat \<Rightarrow> jit_block \<Rightarrow> jit \<Rightarrow> jit" where
  "drop_block_fields c B W =
     fold (\<lambda>f W. if smask_get B f then smc_hit c (drop_bit 3 (jb_start B) + of_nat f) W else W) [0..<jb_n B * 3] W"

fun revalidate_loop :: "nat \<Rightarrow> nat \<Rightarrow> u64 \<Rightarrow> jit \<Rightarrow> jit option" where
  "revalidate_loop 0 c mn W = None"
| "revalidate_loop (Suc fuel) c mn W =
     (let J = j_cpus W c in
      if \<not> (jc_phead J \<noteq> jc_ptail J \<and> snd (jc_pending J (jc_phead J)) \<le> mn) then Some W
      else
        let b = fst (jc_pending J (jc_phead J));
            W = on_cpu c (\<lambda>J. J\<lparr>jc_phead := ring_next PENDING_LEN (jc_phead J)\<rparr>) W;
            B = jc_blocks J b
        in if \<not> jb_valid B \<or> static_hash (j_mem W) B = jb_shash B then revalidate_loop fuel c mn W
           else
             let W = on_cpu c (\<lambda>J. J\<lparr>jc_stats := jc_stats J\<lparr>js_revalidations := js_revalidations (jc_stats J) + 1\<rparr>\<rparr>) W
             in revalidate_loop fuel c mn (drop_block_fields c B W))"

definition revalidate :: "nat \<Rightarrow> nat \<Rightarrow> jit \<Rightarrow> jit option" where
  "revalidate fuel c W =
     (if jc_phead (j_cpus W c) = jc_ptail (j_cpus W c) then Some W
      else revalidate_loop fuel c (min_quiet W) W)"

section \<open>Links and metadata\<close>

definition link_to :: "u64 \<Rightarrow> nat \<Rightarrow> jit_cpu \<Rightarrow> jit_cpu" where
  "link_to site t J =
     (let link = (\<lambda>l J.
        J\<lparr>jc_links := (jc_links J)(l := site),
          jc_blocks := (jc_blocks J)(t := jc_blocks J t\<lparr>jb_incoming := l # jb_incoming (jc_blocks J t)\<rparr>),
          jc_code := patch_rel32 site (jb_entry (jc_blocks J t)) (jc_code J),
          jc_stats := jc_stats J\<lparr>js_links := js_links (jc_stats J) + 1\<rparr>\<rparr>)
      in case jc_free_links J of
           l # ls \<Rightarrow> link l (J\<lparr>jc_free_links := ls\<rparr>)
         | [] \<Rightarrow> if jc_nlinks J < jc_max_links J
                then link (jc_nlinks J) (J\<lparr>jc_nlinks := jc_nlinks J + 1\<rparr>)
                else J)"

text \<open>The index in \<open>meta\<close> of the words taken.\<close>

definition meta_alloc :: "nat \<Rightarrow> jit_cpu \<Rightarrow> nat option \<times> jit_cpu" where
  "meta_alloc words J =
     (if jc_max_meta J < jc_nmeta J + words then (None, J)
      else (Some (jc_nmeta J), J\<lparr>jc_nmeta := jc_nmeta J + words\<rparr>))"

definition hoisted :: "jit_block \<Rightarrow> u64 \<Rightarrow> bool" where
  "hoisted B w \<longleftrightarrow> (\<exists>x\<in>set (jb_hoist B). x = w)"

end
