(* ===== verification/Jit_Tables.thy ===== *)
theory Jit_Tables
  imports Jit_Blocks
begin

text \<open>
  The block tables of one CPU: \<open>tables_ok\<close>, kept by everything that drops blocks; that
  \<open>invalidate_word\<close> drops every block over a word; and the queue of dropped words as a bounded
  queue.
\<close>

section \<open>Well-formed tables\<close>

definition block_ok :: "jit_block \<Rightarrow> bool" where
  "block_ok B \<longleftrightarrow>
     jb_valid B \<and> unat (jb_start B) mod 8 = 0 \<and> jb_n B \<le> JIT_MAX_BLOCK \<and>
     unat (jb_start B) + 24 * jb_n B \<le> 2 ^ 63"

definition tables_ok :: "jit_cpu \<Rightarrow> bool" where
  "tables_ok J \<longleftrightarrow>
     (\<forall>h. \<forall>b\<in>set (jc_htab J h). block_ok (jc_blocks J b) \<and> hash (jb_start (jc_blocks J b)) = h) \<and>
     (\<forall>h. distinct (map (\<lambda>b. jb_start (jc_blocks J b)) (jc_htab J h))) \<and>
     jc_qhead J < QUEUE_LEN \<and> jc_qtail J < QUEUE_LEN"

text \<open>The blocks \<open>lookup\<close> can return.\<close>

definition live :: "jit_cpu \<Rightarrow> nat set" where
  "live J = {b. b \<in> set (jc_htab J (hash (jb_start (jc_blocks J b))))}"

text \<open>What dropping blocks leaves alone.\<close>

definition fixed_parts :: "jit_block \<Rightarrow> u64 \<times> nat \<times> u64 \<times> u64 list \<times> (nat \<Rightarrow> u64) \<times> u64" where
  "fixed_parts B = (jb_start B, jb_n B, jb_entry B, jb_hoist B, jb_smask B, jb_shash B)"

definition words_queued :: "jit_cpu \<Rightarrow> u64 list" where
  "words_queued J = ring_list QUEUE_LEN (jc_qhead J) (jc_qtail J) (jc_queue J)"

definition drops :: "jit_cpu \<Rightarrow> jit_cpu \<Rightarrow> bool" where
  "drops J J' \<longleftrightarrow>
     (\<forall>b. fixed_parts (jc_blocks J' b) = fixed_parts (jc_blocks J b)) \<and>
     jc_queue J' = jc_queue J \<and> jc_qhead J' = jc_qhead J \<and> jc_qtail J' = jc_qtail J \<and>
     jc_qoverflow J' = jc_qoverflow J \<and> jc_nblocks J' = jc_nblocks J \<and>
     jc_phead J' = jc_phead J \<and> jc_ptail J' = jc_ptail J \<and> jc_pending J' = jc_pending J \<and>
     (tables_ok J \<longrightarrow> tables_ok J' \<and> live J' \<subseteq> live J)"

lemma drops_refl [simp]: "drops J J"
  by (simp add: drops_def)

lemma drops_trans: "drops J J1 \<Longrightarrow> drops J1 J2 \<Longrightarrow> drops J J2"
  by (auto simp: drops_def)

lemma drops_start: "drops J J' \<Longrightarrow> jb_start (jc_blocks J' b) = jb_start (jc_blocks J b)"
  and drops_n: "drops J J' \<Longrightarrow> jb_n (jc_blocks J' b) = jb_n (jc_blocks J b)"
  by (auto simp: drops_def fixed_parts_def)

section \<open>Dropping a block\<close>

lemma fold_unlink:
  "jc_htab (fold unlink ls J) = jc_htab J" "jc_blocks (fold unlink ls J) = jc_blocks J"
  "jc_queue (fold unlink ls J) = jc_queue J" "jc_qhead (fold unlink ls J) = jc_qhead J"
  "jc_qtail (fold unlink ls J) = jc_qtail J" "jc_qoverflow (fold unlink ls J) = jc_qoverflow J"
  "jc_phead (fold unlink ls J) = jc_phead J" "jc_ptail (fold unlink ls J) = jc_ptail J"
  "jc_pending (fold unlink ls J) = jc_pending J" "jc_nblocks (fold unlink ls J) = jc_nblocks J"
  by (induction ls arbitrary: J) (simp_all add: unlink_def)

lemma invalidate_htab:
  "jc_htab (invalidate b J) =
     (if jb_valid (jc_blocks J b)
      then (jc_htab J)(hash (jb_start (jc_blocks J b)) := remove1 b (jc_htab J (hash (jb_start (jc_blocks J b)))))
      else jc_htab J)"
  by (simp add: invalidate_def Let_def fold_unlink)

lemma invalidate_blocks:
  "jc_blocks (invalidate b J) =
     (if jb_valid (jc_blocks J b)
      then (jc_blocks J)(b := jc_blocks J b\<lparr>jb_valid := False, jb_incoming := []\<rparr>)
      else jc_blocks J)"
  by (simp add: invalidate_def Let_def fold_unlink)

lemma tables_distinct: "tables_ok J \<Longrightarrow> distinct (jc_htab J h)"
  by (simp add: tables_ok_def distinct_map)

lemma liveD: "b \<in> set (jc_htab J h) \<Longrightarrow> tables_ok J \<Longrightarrow> b \<in> live J"
  by (auto simp: live_def tables_ok_def)

lemma invalidate_set:
  assumes "tables_ok J" "jb_valid (jc_blocks J b)"
  shows "set (jc_htab (invalidate b J) h) = set (jc_htab J h) - {b}"
proof (cases "h = hash (jb_start (jc_blocks J b))")
  case True
  then show ?thesis using assms by (simp add: invalidate_htab tables_distinct)
next
  case False
  then have "b \<notin> set (jc_htab J h)" using assms(1) by (auto simp: tables_ok_def)
  then show ?thesis using False assms(2) by (simp add: invalidate_htab)
qed

lemma invalidate_tables:
  assumes ok: "tables_ok J"
  shows "tables_ok (invalidate b J)"
proof (cases "jb_valid (jc_blocks J b)")
  case False
  then show ?thesis using ok by (simp add: invalidate_def Let_def)
next
  case v: True
  have q: "jc_qhead (invalidate b J) = jc_qhead J" "jc_qtail (invalidate b J) = jc_qtail J"
    by (simp_all add: invalidate_def Let_def fold_unlink)
  have blk: "jc_blocks (invalidate b J) b' = jc_blocks J b'" if "b' \<noteq> b" for b'
    using that v by (simp add: invalidate_blocks)
  have "block_ok (jc_blocks (invalidate b J) b') \<and> hash (jb_start (jc_blocks (invalidate b J) b')) = h"
    if "b' \<in> set (jc_htab (invalidate b J) h)" for h b'
    using that ok by (auto simp: invalidate_set [OF ok v] blk tables_ok_def)
  moreover have "distinct (map (\<lambda>b'. jb_start (jc_blocks (invalidate b J) b')) (jc_htab (invalidate b J) h))" for h
  proof -
    have "distinct (map (\<lambda>b'. jb_start (jc_blocks J b')) (jc_htab J h))" using ok by (simp add: tables_ok_def)
    then have "distinct (map (\<lambda>b'. jb_start (jc_blocks J b')) (jc_htab (invalidate b J) h))"
      using set_remove1_subset by (fastforce simp: invalidate_htab v distinct_map inj_on_def)
    moreover have "map (\<lambda>b'. jb_start (jc_blocks (invalidate b J) b')) (jc_htab (invalidate b J) h) =
        map (\<lambda>b'. jb_start (jc_blocks J b')) (jc_htab (invalidate b J) h)"
      by (simp add: invalidate_blocks)
    ultimately show ?thesis by (simp only:)
  qed
  ultimately show ?thesis using ok by (simp add: tables_ok_def q)
qed

lemma invalidate_live:
  assumes "tables_ok J" "jb_valid (jc_blocks J b)"
  shows "live (invalidate b J) = live J - {b}"
  using assms by (auto simp: live_def invalidate_set invalidate_blocks)

lemma invalidate_drops: "drops J (invalidate b J)"
proof -
  have "live (invalidate b J) \<subseteq> live J" if "tables_ok J"
    using invalidate_live [OF that, of b] by (cases "jb_valid (jc_blocks J b)") (auto simp: invalidate_def Let_def)
  then show ?thesis
    using invalidate_tables
    by (simp add: drops_def invalidate_blocks fixed_parts_def)
      (simp add: invalidate_def Let_def fold_unlink)
qed

section \<open>Looking up\<close>

lemma lookup_SomeD:
  assumes "lookup J a = Some b"
  shows "b \<in> set (jc_htab J (hash a)) \<and> jb_start (jc_blocks J b) = a"
  using assms by (auto simp: lookup_def find_Some_iff)

lemma lookup_live: "lookup J a = Some b \<Longrightarrow> b \<in> live J"
  by (auto simp: live_def dest: lookup_SomeD)

lemma live_lookup:
  assumes ok: "tables_ok J" and b: "b \<in> live J"
  shows "lookup J (jb_start (jc_blocks J b)) = Some b"
proof -
  let ?a = "jb_start (jc_blocks J b)"
  have in_b: "b \<in> set (jc_htab J (hash ?a))" using b by (simp add: live_def)
  then obtain c where c: "lookup J ?a = Some c"
    unfolding lookup_def by (cases "find (\<lambda>b'. jb_start (jc_blocks J b') = ?a) (jc_htab J (hash ?a))")
      (auto simp: find_None_iff)
  have "inj_on (\<lambda>b'. jb_start (jc_blocks J b')) (set (jc_htab J (hash ?a)))"
    using ok by (auto simp: tables_ok_def distinct_map)
  then have "c = b" using in_b lookup_SomeD [OF c] by (auto dest: inj_onD)
  then show ?thesis using c by simp
qed


section \<open>Dropping the blocks over a word\<close>

definition covers :: "jit_block \<Rightarrow> u64 \<Rightarrow> bool" where
  "covers B w \<longleftrightarrow>
     unat (jb_start B) \<le> 8 * unat w \<and> 8 * unat w < unat (jb_start B) + 24 * jb_n B"

lemma unat_word_addr: "unat w < 2 ^ 61 \<Longrightarrow> unat (push_bit 3 w :: u64) = 8 * unat w"
  by (simp add: push_bit_eq_mult unat_word_ariths)

lemma block_end:
  assumes "block_ok B"
  shows "unat (jb_start B + 24 * of_nat (jb_n B)) = unat (jb_start B) + 24 * jb_n B"
proof -
  have "unat (jb_start B + of_nat (24 * jb_n B)) = unat (jb_start B) + 24 * jb_n B"
    using assms by (intro unat_add_of_nat) (simp add: block_ok_def)
  then show ?thesis by simp
qed

lemma covers_start:
  assumes ok: "block_ok B" and w: "unat w < 2 ^ 60" and c: "covers B w"
  shows "jb_start B \<in> set (word_starts w) \<and> push_bit 3 w < jb_start B + 24 * of_nat (jb_n B)"
proof -
  define a lo where "a = push_bit 3 w"
    and "lo = (if 24 * of_nat JIT_MAX_BLOCK \<le> a then a - 24 * of_nat JIT_MAX_BLOCK + 8 else 0)"
  have a: "unat a = 8 * unat w" using w by (simp add: a_def unat_word_addr)
  have lo: "unat lo = (if 1536 \<le> unat a then unat a - 1528 else 0)"
    using a w by (simp add: lo_def JIT_MAX_BLOCK_def word_le_nat_alt unat_diff_le unat_word_ariths)
  define i where "i = (unat (jb_start B) - unat lo) div 8"
  have n: "jb_n B \<le> 64" and al: "unat (jb_start B) mod 8 = 0"
    using ok by (simp_all add: block_ok_def JIT_MAX_BLOCK_def)
  have le: "unat lo \<le> unat (jb_start B)"
  proof (cases "1536 \<le> unat a")
    case True
    then have "8 * (unat w - 191) = unat lo" using lo a by simp
    moreover have "8 * unat w < unat (jb_start B) + 1536" using c n by (auto simp: covers_def)
    moreover obtain q where q: "unat (jb_start B) = 8 * q" using al by (auto elim!: dvdE)
    ultimately have "unat w - 191 \<le> q" by linarith
    then show ?thesis using \<open>8 * (unat w - 191) = unat lo\<close> q by linarith
  qed (simp add: lo)
  have "8 dvd unat lo" using lo a by auto
  then have "8 dvd unat (jb_start B) - unat lo" using al by (simp add: dvd_diff_nat mod_eq_0_iff_dvd)
  then have i: "8 * i = unat (jb_start B) - unat lo" by (simp add: i_def)
  have "jb_start B = lo + 8 * of_nat i"
  proof -
    have "jb_start B = of_nat (unat lo + 8 * i)" using i le by simp
    then show ?thesis by simp
  qed
  moreover have "i < Suc ((unat a - unat lo) div 8)"
    unfolding i_def using c a by (auto simp: covers_def less_Suc_eq_le intro!: div_le_mono)
  ultimately have "jb_start B \<in> set (map (\<lambda>i. lo + 8 * of_nat i) [0..<Suc ((unat a - unat lo) div 8)])"
    by (simp del: upt_Suc)
  then have "jb_start B \<in> set (word_starts w)"
    unfolding word_starts_def Let_def a_def [symmetric] lo_def [symmetric] .
  moreover have "a < jb_start B + 24 * of_nat (jb_n B)"
    unfolding word_less_nat_alt block_end [OF ok] using c a by (simp add: covers_def)
  ultimately show ?thesis by (simp add: a_def)
qed

definition drop_at :: "u64 \<Rightarrow> u64 \<Rightarrow> jit_cpu \<Rightarrow> jit_cpu" where
  "drop_at a s J = (case lookup J s of
                 None \<Rightarrow> J
               | Some b \<Rightarrow> if a < s + 24 * of_nat (jb_n (jc_blocks J b)) then invalidate b J else J)"

lemma invalidate_word_fold: "invalidate_word w J = fold (drop_at (push_bit 3 w)) (word_starts w) J"
  by (simp add: invalidate_word_def drop_at_def [abs_def] Let_def)

lemma drop_at_drops: "drops J (drop_at a s J)"
  by (simp add: drop_at_def invalidate_drops split: option.split)

lemma drop_at_live:
  assumes "tables_ok J" "b \<in> live (drop_at a s J)" "jb_start (jc_blocks J b) = s"
  shows "\<not> a < s + 24 * of_nat (jb_n (jc_blocks J b))"
proof
  assume lt: "a < s + 24 * of_nat (jb_n (jc_blocks J b))"
  have b: "b \<in> live J" using assms(1,2) drop_at_drops [of J a s] by (auto simp: drops_def)
  have l: "lookup J s = Some b" using live_lookup [OF assms(1) b] by (simp add: assms(3))
  have v: "jb_valid (jc_blocks J b)"
    using b assms(1) by (auto simp: live_def tables_ok_def block_ok_def)
  show False using assms(2) invalidate_live [OF assms(1) v] by (simp add: drop_at_def l lt)
qed

lemma fold_drop_drops: "drops J (fold (drop_at a) ss J)"
  by (induction ss arbitrary: J) (auto intro: drops_trans drop_at_drops)

lemma fold_drop_live:
  "tables_ok J \<Longrightarrow> b \<in> live (fold (drop_at a) ss J) \<Longrightarrow> jb_start (jc_blocks J b) \<in> set ss \<Longrightarrow>
     \<not> a < jb_start (jc_blocks J b) + 24 * of_nat (jb_n (jc_blocks J b))"
proof (induction ss arbitrary: J)
  case Nil
  then show ?case by simp
next
  case (Cons s ss)
  let ?J = "drop_at a s J"
  have d: "drops J ?J" by (rule drop_at_drops)
  then have ok: "tables_ok ?J" using Cons.prems(1) by (simp add: drops_def)
  show ?case
  proof (cases "jb_start (jc_blocks J b) \<in> set ss")
    case True
    then show ?thesis using Cons.IH [OF ok] Cons.prems(2) by (simp add: drops_start [OF d] drops_n [OF d])
  next
    case False
    then have s: "jb_start (jc_blocks J b) = s" using Cons.prems(3) by simp
    have "b \<in> live ?J" using Cons.prems(2) fold_drop_drops [of ?J a ss] ok by (auto simp: drops_def)
    then show ?thesis using drop_at_live [OF Cons.prems(1) _ s] s by simp
  qed
qed

lemma invalidate_word_drops: "drops J (invalidate_word w J)"
  unfolding invalidate_word_fold by (rule fold_drop_drops)

lemma invalidate_word_live:
  assumes "tables_ok J" "unat w < 2 ^ 60" "b \<in> live (invalidate_word w J)"
  shows "b \<in> live J \<and> \<not> covers (jc_blocks J b) w"
proof -
  have b: "b \<in> live J" using assms invalidate_word_drops [of J w] by (auto simp: drops_def)
  then have "block_ok (jc_blocks J b)" using assms(1) by (auto simp: live_def tables_ok_def)
  then show ?thesis
    using covers_start [OF _ assms(2)] fold_drop_live [OF assms(1) assms(3) [unfolded invalidate_word_fold]] b by blast
qed


section \<open>The queues as bounded queues\<close>

definition jq_ok :: "jit_cpu \<Rightarrow> bool" where
  "jq_ok J \<longleftrightarrow> jc_qhead J < QUEUE_LEN \<and> jc_qtail J < QUEUE_LEN \<and> \<not> jc_qoverflow J"

definition jq_push :: "u64 \<Rightarrow> jit_cpu \<Rightarrow> jit_cpu option" where
  "jq_push w J = (let J = enqueue w J in if jc_qoverflow J then None else Some J)"

definition jq_pop :: "jit_cpu \<Rightarrow> (u64 \<times> jit_cpu) option" where
  "jq_pop J =
     (if jc_qhead J = jc_qtail J then None
      else Some (jc_queue J (jc_qhead J), J\<lparr>jc_qhead := ring_next QUEUE_LEN (jc_qhead J)\<rparr>))"

interpretation jq: bounded_fifo jq_ok words_queued jq_push jq_pop "QUEUE_LEN - 1"
proof unfold_locales
  fix J :: jit_cpu and x xs
  assume ok: "jq_ok J"
  then have b: "jc_qhead J < QUEUE_LEN" "jc_qtail J < QUEUE_LEN" "\<not> jc_qoverflow J" by (simp_all add: jq_ok_def)
  have pos: "0 < QUEUE_LEN" by (simp add: QUEUE_LEN_def)
  {
    assume "length (words_queued J) < QUEUE_LEN - 1"
    then have n: "ring_next QUEUE_LEN (jc_qtail J) \<noteq> jc_qhead J"
      using ring_len_full [OF b(1,2)] by (simp add: words_queued_def)
    then show "\<exists>J'. jq_push x J = Some J' \<and> jq_ok J' \<and> words_queued J' = words_queued J @ [x]"
      using b pos by (auto simp: jq_push_def enqueue_def jq_ok_def words_queued_def ring_list_push)
  next
    assume "QUEUE_LEN - 1 \<le> length (words_queued J)"
    then have "ring_next QUEUE_LEN (jc_qtail J) = jc_qhead J"
      using ring_len_full [OF b(1,2)] ring_len_less [OF b(1,2)] by (simp add: words_queued_def)
    then show "jq_push x J = None" by (simp add: jq_push_def enqueue_def)
  next
    assume c: "words_queued J = x # xs"
    then have "jc_qhead J \<noteq> jc_qtail J" using b by (auto simp: words_queued_def)
    then show "\<exists>J'. jq_pop J = Some (x, J') \<and> jq_ok J' \<and> words_queued J' = xs"
      using b pos c by (auto simp: jq_pop_def jq_ok_def words_queued_def ring_list_pop)
  next
    assume "words_queued J = []"
    then show "jq_pop J = None" using b by (simp add: jq_pop_def words_queued_def ring_list_Nil)
  }
qed

end
