(* ===== verification/Jit_Coherence.thy ===== *)
theory Jit_Coherence
  imports Jit_Tables
begin

text \<open>
  Self-modifying code. \<open>coherent\<close> says that every block any CPU could enter still matches the
  memory it was translated from, or that the CPU has been told of the change. The interpreter's
  stores, the queues between CPUs and the second look at new blocks keep it, and after a CPU has
  drained its queue the blocks it finds are the code in memory.
\<close>

section \<open>Code that matches memory\<close>

text \<open>
  \<open>snap c b f\<close> is the value (as loaded) field \<open>f\<close> of block \<open>b\<close> of CPU \<open>c\<close> had when it was translated.
  A static field of a live block holds it still and is marked, or its word is on its way in the
  CPU's queue, or that queue overflowed and the CPU is to drop all its code.
\<close>

type_synonym snapshot = "nat \<Rightarrow> nat \<Rightarrow> nat \<Rightarrow> u64"

definition field_word :: "jit_block \<Rightarrow> nat \<Rightarrow> u64" where
  "field_word B f = drop_bit 3 (jb_start B) + of_nat f"

definition in_memory :: "u64 \<Rightarrow> jit_block \<Rightarrow> bool" where
  "in_memory mem_size B \<longleftrightarrow> unat (jb_start B) + 24 * jb_n B \<le> unat mem_size \<and> unat (jb_start B) mod 8 = 0"

definition field_matches :: "(nat \<Rightarrow> nat \<Rightarrow> u64) \<Rightarrow> jit \<Rightarrow> nat \<Rightarrow> jit_block \<Rightarrow> nat \<Rightarrow> bool" where
  "field_matches sn W b B f \<longleftrightarrow>
     bit_get (static_map (j_maps W)) (field_word B f) \<and> load64 (j_mem W) (jb_start B + 8 * of_nat f) = sn b f"

definition cpu_coherent :: "(nat \<Rightarrow> nat \<Rightarrow> u64) \<Rightarrow> jit \<Rightarrow> jit_cpu \<Rightarrow> bool" where
  "cpu_coherent sn W J \<longleftrightarrow>
     tables_ok J \<and> (\<forall>w\<in>set (words_queued J). unat w < 2 ^ 60) \<and>
     (\<forall>b\<in>live J. in_memory (j_mem_size W) (jc_blocks J b)) \<and>
     (jc_qoverflow J \<or>
      (\<forall>b\<in>live J. \<forall>f<3 * jb_n (jc_blocks J b). smask_get (jc_blocks J b) f \<longrightarrow>
         field_word (jc_blocks J b) f \<in> set (words_queued J) \<or> field_matches sn W b (jc_blocks J b) f))"

definition coherent :: "snapshot \<Rightarrow> jit \<Rightarrow> bool" where
  "coherent sn W \<longleftrightarrow> unat (j_mem_size W) \<le> 2 ^ 63 \<and> (\<forall>c<j_ncpus W. cpu_coherent (sn c) W (j_cpus W c))"

lemma field_word_unat:
  assumes "in_memory msize B" "unat msize \<le> 2 ^ 63" "f < 3 * jb_n B"
  shows "8 * unat (field_word B f) = unat (jb_start B) + 8 * f"
    and "field_word B f < drop_bit 3 msize"
    and "jb_start B + 8 * of_nat f = push_bit 3 (field_word B f)"
proof -
  obtain q where q: "unat (jb_start B) = 8 * q" using assms(1) by (auto simp: in_memory_def elim!: dvdE)
  have lim: "8 * q + 8 * f + 8 \<le> unat msize" using assms q by (simp add: in_memory_def)
  have "unat (drop_bit 3 (jb_start B) + of_nat f) = q + f"
    using lim assms(2) q by (subst unat_add_of_nat) (simp_all add: unat_shr_3)
  then have u: "unat (field_word B f) = q + f" by (simp add: field_word_def)
  then show 1: "8 * unat (field_word B f) = unat (jb_start B) + 8 * f" by (simp add: q)
  have "q + f < unat msize div 8" using lim by linarith
  then show "field_word B f < drop_bit 3 msize" by (simp add: word_less_nat_alt unat_shr_3 u)
  have "unat (push_bit 3 (field_word B f)) = 8 * unat (field_word B f)"
    using lim assms(2) by (simp add: push_bit_eq_mult unat_word_ariths u)
  moreover have "unat (jb_start B + of_nat (8 * f)) = unat (jb_start B) + 8 * f"
    using lim assms(2) q by (intro unat_add_of_nat) simp
  ultimately show "jb_start B + 8 * of_nat f = push_bit 3 (field_word B f)"
    using 1 by (simp add: word_unat_eq_iff)
qed

lemma field_covers:
  assumes "in_memory msize B" "unat msize \<le> 2 ^ 63" "f < 3 * jb_n B"
  shows "covers B (field_word B f)"
  using field_word_unat(1) [OF assms] assms(3) by (simp add: covers_def)

text \<open>A store changes only the words its first and last byte are in.\<close>

lemma store_words:
  assumes w: "unat w < 2 ^ 61" and "w \<noteq> drop_bit 3 b" "w \<noteq> drop_bit 3 (b + 7)"
  shows "disj8 b (push_bit 3 w)"
proof -
  have word: "drop_bit 3 (push_bit 3 w + of_nat i) = w" if "i < 8" for i
  proof -
    have "unat (push_bit 3 w + of_nat i) = 8 * unat w + i"
      using that w by (subst unat_add_of_nat) (simp_all add: unat_word_addr)
    then show ?thesis using that by (simp add: word_unat_eq_iff unat_shr_3)
  qed
  have "8 \<le> push_bit 3 w - b"
  proof (rule ccontr)
    assume "\<not> 8 \<le> push_bit 3 w - b"
    then have lt: "unat (push_bit 3 w - b) < 8" by (simp add: word_le_nat_alt)
    define i where "i = unat (push_bit 3 w - b)"
    have "b + 7 = push_bit 3 w + of_nat (7 - i)"
    proof -
      have "of_nat i = push_bit 3 w - b" by (simp add: i_def)
      then have e: "push_bit 3 w = b + of_nat i" by simp
      have "i < 8" using lt by (simp only: i_def)
      then have "of_nat (7 - i) = (7 - of_nat i :: u64)" by (simp add: of_nat_diff)
      then show ?thesis unfolding e by simp
    qed
    then show False using word [of "7 - i"] assms(3) by auto
  qed
  moreover have "8 \<le> b - push_bit 3 w"
  proof (rule ccontr)
    assume "\<not> 8 \<le> b - push_bit 3 w"
    then have lt: "unat (b - push_bit 3 w) < 8" by (simp add: word_le_nat_alt)
    have "b = push_bit 3 w + of_nat (unat (b - push_bit 3 w))" by simp
    then show False using word [OF lt] assms(2) by simp
  qed
  ultimately show ?thesis by (simp add: disj8_def)
qed

section \<open>A store to a static word\<close>

lemma on_cpu_simps [simp]:
  "j_mem (on_cpu c f W) = j_mem W" "j_mem_size (on_cpu c f W) = j_mem_size W"
  "j_maps (on_cpu c f W) = j_maps W" "j_dyn_map (on_cpu c f W) = j_dyn_map W"
  "j_ncpus (on_cpu c f W) = j_ncpus W" "j_quiet (on_cpu c f W) = j_quiet W"
  "j_cpus (on_cpu c f W) k = (if k = c then f (j_cpus W c) else j_cpus W k)"
  by (simp_all add: on_cpu_def)

lemma fold_enqueue:
  assumes "distinct ks"
  shows "let W' = fold (\<lambda>k W. if k = c then W else on_cpu k (enqueue w) W) ks W in
    j_mem W' = j_mem W \<and> j_mem_size W' = j_mem_size W \<and> j_maps W' = j_maps W \<and> j_dyn_map W' = j_dyn_map W \<and>
    j_ncpus W' = j_ncpus W \<and> j_quiet W' = j_quiet W \<and>
    (\<forall>k. j_cpus W' k = (if k \<in> set ks \<and> k \<noteq> c then enqueue w (j_cpus W k) else j_cpus W k))"
  using assms by (induction ks arbitrary: W) (auto simp: Let_def)

lemma smc_hit_simps [simp]:
  "j_mem (smc_hit c w W) = j_mem W" "j_mem_size (smc_hit c w W) = j_mem_size W"
  "static_map (j_maps (smc_hit c w W)) = bit_clr (static_map (j_maps W)) w"
  "page_map (j_maps (smc_hit c w W)) = page_map (j_maps W)"
  "j_dyn_map (smc_hit c w W) = bit_set (j_dyn_map W) w"
  "j_ncpus (smc_hit c w W) = j_ncpus W" "j_quiet (smc_hit c w W) = j_quiet W"
  using fold_enqueue [of "[0..<j_ncpus W]" c w] by (simp_all add: smc_hit_def Let_def)

lemma smc_hit_cpus:
  "j_cpus (smc_hit c w W) k =
     (if k = c then invalidate_word w ((j_cpus W c)\<lparr>jc_stats := (jc_stats (j_cpus W c))
          \<lparr>js_smc_words := js_smc_words (jc_stats (j_cpus W c)) + 1\<rparr>\<rparr>)
      else if k < j_ncpus W then enqueue w (j_cpus W k) else j_cpus W k)"
  using fold_enqueue [of "[0..<j_ncpus W]" c w] by (simp add: smc_hit_def Let_def)

lemma drops_stats: "drops J (J\<lparr>jc_stats := st\<rparr>)"
  by (simp add: drops_def tables_ok_def live_def)

lemma cpu_coherent_stats: "cpu_coherent sn W (J\<lparr>jc_stats := st\<rparr>) = cpu_coherent sn W J"
  by (simp add: cpu_coherent_def tables_ok_def live_def words_queued_def)

text \<open>Blocks dropped: what is left matches as it did.\<close>

lemma drops_blk:
  assumes "drops J J'"
  shows "jb_start (jc_blocks J' b) = jb_start (jc_blocks J b)" "jb_n (jc_blocks J' b) = jb_n (jc_blocks J b)"
    "smask_get (jc_blocks J' b) = smask_get (jc_blocks J b)" "field_word (jc_blocks J' b) = field_word (jc_blocks J b)"
    "in_memory m (jc_blocks J' b) = in_memory m (jc_blocks J b)" "covers (jc_blocks J' b) = covers (jc_blocks J b)"
    "field_matches sn W b' (jc_blocks J' b) = field_matches sn W b' (jc_blocks J b)"
    "static_hash m' (jc_blocks J' b) = static_hash m' (jc_blocks J b)" "jb_shash (jc_blocks J' b) = jb_shash (jc_blocks J b)"
proof -
  have f: "fixed_parts (jc_blocks J' b) = fixed_parts (jc_blocks J b)" using assms by (simp add: drops_def)
  then show 1: "jb_start (jc_blocks J' b) = jb_start (jc_blocks J b)" "jb_n (jc_blocks J' b) = jb_n (jc_blocks J b)"
    "jb_shash (jc_blocks J' b) = jb_shash (jc_blocks J b)" by (simp_all add: fixed_parts_def)
  show 2: "smask_get (jc_blocks J' b) = smask_get (jc_blocks J b)" using f by (simp add: fixed_parts_def smask_get_def fun_eq_iff)
  show 3: "field_word (jc_blocks J' b) = field_word (jc_blocks J b)"
    "in_memory m (jc_blocks J' b) = in_memory m (jc_blocks J b)" "covers (jc_blocks J' b) = covers (jc_blocks J b)"
    by (simp_all add: fun_eq_iff 1 field_word_def in_memory_def covers_def)
  show "field_matches sn W b' (jc_blocks J' b) = field_matches sn W b' (jc_blocks J b)"
    by (simp add: fun_eq_iff field_matches_def 1 3)
  show "static_hash m' (jc_blocks J' b) = static_hash m' (jc_blocks J b)"
    unfolding static_hash_def 1(1,2) 2 ..
qed


lemma cpu_coherent_cong:
  assumes "j_mem W' = j_mem W" "static_map (j_maps W') = static_map (j_maps W)" "j_mem_size W' = j_mem_size W"
  shows "cpu_coherent sn W' J = cpu_coherent sn W J"
  using assms by (simp add: cpu_coherent_def field_matches_def)

text \<open>The CPU that hit the word drops its own blocks over it.\<close>

lemma cpu_coherent_own:
  assumes co: "cpu_coherent sn W J" and sz: "unat (j_mem_size W) \<le> 2 ^ 63" and w: "unat w < 2 ^ 60"
    and W': "j_mem W' = j_mem W" "static_map (j_maps W') = bit_clr (static_map (j_maps W)) w"
      "j_mem_size W' = j_mem_size W"
  shows "cpu_coherent sn W' (invalidate_word w J)"
proof -
  let ?J = "invalidate_word w J"
  have d: "drops J ?J" by (rule invalidate_word_drops)
  have ok: "tables_ok J" using co by (simp add: cpu_coherent_def)
  have ok': "tables_ok ?J" and sub: "live ?J \<subseteq> live J" using d ok by (simp_all add: drops_def)
  have q: "words_queued ?J = words_queued J" "jc_qoverflow ?J = jc_qoverflow J"
    using d by (simp_all add: drops_def words_queued_def)
  have "field_word (jc_blocks ?J b) f \<in> set (words_queued ?J) \<or> field_matches sn W' b (jc_blocks ?J b) f"
    if no: "\<not> jc_qoverflow J" and b: "b \<in> live ?J" and f: "f < 3 * jb_n (jc_blocks ?J b)" "smask_get (jc_blocks ?J b) f" for b f
  proof -
    have f': "f < 3 * jb_n (jc_blocks J b)" "smask_get (jc_blocks J b) f" using f by (simp_all add: drops_blk [OF d])
    have b': "b \<in> live J" "\<not> covers (jc_blocks J b) w" using invalidate_word_live [OF ok w b] by simp_all
    have im: "in_memory (j_mem_size W) (jc_blocks J b)" using co b' by (simp add: cpu_coherent_def)
    have ne: "field_word (jc_blocks J b) f \<noteq> w" using field_covers [OF im sz f'(1)] b'(2) by auto
    have "field_word (jc_blocks J b) f \<in> set (words_queued J) \<or> field_matches sn W b (jc_blocks J b) f"
      using co b'(1) f' no by (auto simp: cpu_coherent_def)
    then show ?thesis using ne by (auto simp: drops_blk [OF d] q field_matches_def W')
  qed
  moreover have "in_memory (j_mem_size W') (jc_blocks ?J b)" if "b \<in> live ?J" for b
    using co that sub by (auto simp: cpu_coherent_def drops_blk [OF d] W')
  ultimately show ?thesis using co ok' by (auto simp: cpu_coherent_def q)
qed

text \<open>Another CPU finds the word in its queue, or its queue overflowed.\<close>

lemma cpu_coherent_other:
  assumes co: "cpu_coherent sn W J" and w: "unat w < 2 ^ 60"
    and W': "j_mem W' = j_mem W" "static_map (j_maps W') = bit_clr (static_map (j_maps W)) w"
      "j_mem_size W' = j_mem_size W"
  shows "cpu_coherent sn W' (enqueue w J)"
proof (cases "ring_next QUEUE_LEN (jc_qtail J) = jc_qhead J")
  case True
  then have e: "enqueue w J = J\<lparr>jc_qoverflow := True\<rparr>" by (simp add: enqueue_def)
  have s: "tables_ok (enqueue w J) = tables_ok J" "live (enqueue w J) = live J"
      "words_queued (enqueue w J) = words_queued J" "jc_blocks (enqueue w J) = jc_blocks J" "jc_qoverflow (enqueue w J)"
    by (simp_all add: e tables_ok_def live_def words_queued_def)
  show ?thesis using co unfolding cpu_coherent_def s(1-4) W'(3) by (simp add: s(5))
next
  case False
  have t: "jc_qhead J < QUEUE_LEN" "jc_qtail J < QUEUE_LEN" using co by (simp_all add: cpu_coherent_def tables_ok_def)
  let ?J = "enqueue w J"
  have e: "?J = J\<lparr>jc_queue := (jc_queue J)(jc_qtail J := w), jc_qtail := ring_next QUEUE_LEN (jc_qtail J)\<rparr>"
    using False by (simp add: enqueue_def Let_def)
  have q: "words_queued ?J = words_queued J @ [w]"
    using ring_list_push [OF t False] by (simp add: words_queued_def e)
  have s: "jc_blocks ?J = jc_blocks J" "live ?J = live J" "jc_qoverflow ?J = jc_qoverflow J"
    by (simp_all add: e live_def)
  have h: "jc_htab ?J = jc_htab J" "jc_qhead ?J = jc_qhead J" "jc_qtail ?J = ring_next QUEUE_LEN (jc_qtail J)"
    by (simp_all add: e)
  have "tables_ok J" using co by (simp add: cpu_coherent_def)
  then have ok: "tables_ok ?J" unfolding tables_ok_def s h by (simp add: QUEUE_LEN_def)
  have fm: "field_matches sn W' b B f" if "field_matches sn W b B f" "field_word B f \<noteq> w" for b B f
    using that by (simp add: field_matches_def W')
  have fields: "field_word (jc_blocks J b) f \<in> set (words_queued J @ [w]) \<or> field_matches sn W' b (jc_blocks J b) f"
    if "\<not> jc_qoverflow J" "b \<in> live J" "f < 3 * jb_n (jc_blocks J b)" "smask_get (jc_blocks J b) f" for b f
  proof -
    have "field_word (jc_blocks J b) f \<in> set (words_queued J) \<or> field_matches sn W b (jc_blocks J b) f"
      using co that by (simp add: cpu_coherent_def)
    then show ?thesis
    proof
      assume "field_word (jc_blocks J b) f \<in> set (words_queued J)"
      then show ?thesis by simp
    next
      assume m: "field_matches sn W b (jc_blocks J b) f"
      show ?thesis
      proof (cases "field_word (jc_blocks J b) f = w")
        case False
        then show ?thesis using fm [OF m] by blast
      qed simp
    qed
  qed
  show ?thesis unfolding cpu_coherent_def q s W'(3)
  proof (intro conjI)
    show "tables_ok ?J" by (rule ok)
    show "\<forall>v\<in>set (words_queued J @ [w]). unat v < 2 ^ 60" using co w by (simp add: cpu_coherent_def)
    show "\<forall>b\<in>live J. in_memory (j_mem_size W) (jc_blocks J b)" using co by (simp add: cpu_coherent_def)
    show "jc_qoverflow J \<or>
      (\<forall>b\<in>live J. \<forall>f<3 * jb_n (jc_blocks J b). smask_get (jc_blocks J b) f \<longrightarrow>
         field_word (jc_blocks J b) f \<in> set (words_queued J @ [w]) \<or> field_matches sn W' b (jc_blocks J b) f)"
    proof (cases "jc_qoverflow J")
      case False
      then show ?thesis by - (rule disjI2, intro ballI allI impI, rule fields)
    qed simp
  qed
qed

lemma coherent_smc_hit:
  assumes co: "coherent sn W" and w: "unat w < 2 ^ 60"
  shows "coherent sn (smc_hit c w W)"
proof -
  have "cpu_coherent (sn k) (smc_hit c w W) (j_cpus (smc_hit c w W) k)" if k: "k < j_ncpus W" for k
  proof (cases "k = c")
    case True
    then show ?thesis using co k
      by (simp add: smc_hit_cpus coherent_def) (rule cpu_coherent_own [OF _ _ w], simp_all add: cpu_coherent_stats)
  next
    case False
    then show ?thesis using co k
      by (simp add: smc_hit_cpus coherent_def) (rule cpu_coherent_other [OF _ w], simp_all)
  qed
  then show ?thesis using co by (simp add: coherent_def)
qed

lemma word_small:
  assumes "w < drop_bit 3 msize" "unat (msize :: u64) \<le> 2 ^ 63"
  shows "unat w < 2 ^ 60"
proof -
  have "unat w < unat msize div 8" using assms(1) by (simp add: word_less_nat_alt unat_shr_3)
  also have "unat msize div 8 \<le> 2 ^ 63 div 8" using assms(2) by (rule div_le_mono)
  finally show ?thesis by simp
qed

lemma store_check_mem [simp]:
  "j_mem (store_check c b W) = j_mem W" "j_mem_size (store_check c b W) = j_mem_size W"
  "j_ncpus (store_check c b W) = j_ncpus W"
  by (simp_all add: store_check_def Let_def)

lemma coherent_store_check:
  assumes "coherent sn W"
  shows "coherent sn (store_check c b W)"
  using assms coherent_smc_hit word_small by (auto simp: store_check_def Let_def coherent_def)

lemma store_check_clears:
  assumes "w = drop_bit 3 b \<or> w = drop_bit 3 (b + 7)" "w < drop_bit 3 (j_mem_size W)"
  shows "\<not> bit_get (static_map (j_maps (store_check c b W))) w"
  using assms by (auto simp: store_check_def Let_def)

section \<open>An instruction\<close>

lemma cpu_coherent_write:
  assumes co: "cpu_coherent sn W J" and sz: "unat (j_mem_size W) \<le> 2 ^ 63"
    and clear: "\<And>w. w = drop_bit 3 b \<or> w = drop_bit 3 (b + 7) \<Longrightarrow> w < drop_bit 3 (j_mem_size W) \<Longrightarrow>
        \<not> bit_get (static_map (j_maps W)) w"
  shows "cpu_coherent sn (W\<lparr>j_mem := dawn_writeram (j_mem W) b v\<rparr>) J"
proof -
  let ?W = "W\<lparr>j_mem := dawn_writeram (j_mem W) b v\<rparr>"
  have "field_matches sn ?W k (jc_blocks J k) f"
    if m: "field_matches sn W k (jc_blocks J k) f" and k: "k \<in> live J" and f: "f < 3 * jb_n (jc_blocks J k)" for k f
  proof -
    have im: "in_memory (j_mem_size W) (jc_blocks J k)" using co k by (simp add: cpu_coherent_def)
    note fw = field_word_unat [OF im sz f]
    have "unat (field_word (jc_blocks J k) f) < 2 ^ 61" using word_small [OF fw(2) sz] by simp
    then have "disj8 b (push_bit 3 (field_word (jc_blocks J k) f))"
      using clear fw(2) m by (intro store_words) (auto simp: field_matches_def)
    then show ?thesis using m unfolding field_matches_def fw(3)
      by (simp add: dawn_writeram_def mem_simps)
  qed
  then show ?thesis using co unfolding cpu_coherent_def by simp blast
qed

lemma coherent_on_cpu_stats:
  "coherent sn (on_cpu c (\<lambda>J. J\<lparr>jc_stats := f J\<rparr>) W) = coherent sn W"
proof -
  have "cpu_coherent s (on_cpu c (\<lambda>J. J\<lparr>jc_stats := f J\<rparr>) W) J = cpu_coherent s W J" for s J
    by (rule cpu_coherent_cong) simp_all
  then show ?thesis by (auto simp: coherent_def cpu_coherent_stats)
qed

lemma coherent_interp_step:
  assumes "coherent sn W"
  shows "coherent sn (fst (interp_step c eip W))"
proof -
  define b v where "b = dawn_readram (j_mem W) (eip + 8)"
    and "v = dawn_readram (j_mem W) b - dawn_readram (j_mem W) (dawn_readram (j_mem W) eip)"
  let ?W = "store_check c b W"
  have co: "coherent sn ?W" using assms by (rule coherent_store_check)
  have "coherent sn (?W\<lparr>j_mem := dawn_writeram (j_mem ?W) b v\<rparr>)"
    using co cpu_coherent_write [of _ ?W _ b v] store_check_clears [of _ b W c] unfolding coherent_def by simp
  then show ?thesis
    unfolding interp_step_def Let_def b_def [symmetric] v_def [symmetric]
    by (simp add: coherent_on_cpu_stats)
qed

section \<open>Draining the queue\<close>

lemma drain_words_coherent:
  assumes "cpu_coherent sn W J" "\<not> jc_qoverflow J" "unat (j_mem_size W) \<le> 2 ^ 63" "length (words_queued J) < fuel"
  shows "\<exists>J'. drain_words fuel J = Some J' \<and> cpu_coherent sn W J' \<and> \<not> jc_qoverflow J' \<and> words_queued J' = []"
  using assms
proof (induction fuel arbitrary: J)
  case 0
  then show ?case by simp
next
  case (Suc fuel)
  have ok: "tables_ok J" using Suc.prems(1) by (simp add: cpu_coherent_def)
  then have t: "jc_qhead J < QUEUE_LEN" "jc_qtail J < QUEUE_LEN" by (simp_all add: tables_ok_def)
  show ?case
  proof (cases "jc_qhead J = jc_qtail J")
    case True
    then have "words_queued J = []" using t by (simp add: words_queued_def)
    then show ?thesis using True Suc.prems by auto
  next
    case False
    define w J1 where "w = jc_queue J (jc_qhead J)" and "J1 = invalidate_word w J"
    define J2 where "J2 = J1\<lparr>jc_qhead := ring_next QUEUE_LEN (jc_qhead J1)\<rparr>"
    have d: "drops J J1" unfolding J1_def by (rule invalidate_word_drops)
    have ok1: "tables_ok J1" and sub: "live J1 \<subseteq> live J" using d ok by (simp_all add: drops_def)
    have q1: "jc_qhead J1 = jc_qhead J" "jc_qtail J1 = jc_qtail J" "jc_queue J1 = jc_queue J" "jc_qoverflow J1 = jc_qoverflow J"
      using d by (simp_all add: drops_def)
    have q: "words_queued J = w # words_queued J2"
      using ring_list_pop [OF t False] by (simp add: words_queued_def J2_def q1 w_def)
    have w: "unat w < 2 ^ 60" using Suc.prems(1) by (simp add: cpu_coherent_def q)
    have s2: "jc_blocks J2 = jc_blocks J1" "live J2 = live J1" "jc_qoverflow J2 = jc_qoverflow J"
      by (simp_all add: J2_def live_def q1)
    have h2: "jc_htab J2 = jc_htab J1" "jc_qtail J2 = jc_qtail J1" "jc_qhead J2 = ring_next QUEUE_LEN (jc_qhead J1)"
      by (simp_all add: J2_def)
    have ok2: "tables_ok J2" using ok1 unfolding tables_ok_def s2 h2 by (simp add: QUEUE_LEN_def)
    have fields: "field_word (jc_blocks J1 b) f \<in> set (words_queued J2) \<or> field_matches sn W b (jc_blocks J1 b) f"
      if b: "b \<in> live J1" and f: "f < 3 * jb_n (jc_blocks J1 b)" "smask_get (jc_blocks J1 b) f" for b f
    proof -
      have f': "f < 3 * jb_n (jc_blocks J b)" "smask_get (jc_blocks J b) f" using f by (simp_all add: drops_blk [OF d])
      have b': "b \<in> live J" "\<not> covers (jc_blocks J b) w"
        using invalidate_word_live [OF ok w] b by (simp_all add: J1_def)
      have "in_memory (j_mem_size W) (jc_blocks J b)" using Suc.prems(1) b'(1) by (simp add: cpu_coherent_def)
      then have ne: "field_word (jc_blocks J b) f \<noteq> w" using field_covers [OF _ Suc.prems(3) f'(1)] b'(2) by auto
      have "field_word (jc_blocks J b) f \<in> set (words_queued J) \<or> field_matches sn W b (jc_blocks J b) f"
        using Suc.prems(1,2) b'(1) f' by (simp add: cpu_coherent_def)
      then show ?thesis using ne by (auto simp: q drops_blk [OF d])
    qed
    have "cpu_coherent sn W J2" unfolding cpu_coherent_def s2
    proof (intro conjI)
      show "tables_ok J2" by (rule ok2)
      show "\<forall>w\<in>set (words_queued J2). unat w < 2 ^ 60" using Suc.prems(1) by (simp add: cpu_coherent_def q)
      show "\<forall>b\<in>live J1. in_memory (j_mem_size W) (jc_blocks J1 b)"
        using Suc.prems(1) sub by (auto simp: cpu_coherent_def drops_blk [OF d])
      show "jc_qoverflow J \<or> (\<forall>b\<in>live J1. \<forall>f<3 * jb_n (jc_blocks J1 b). smask_get (jc_blocks J1 b) f \<longrightarrow>
          field_word (jc_blocks J1 b) f \<in> set (words_queued J2) \<or> field_matches sn W b (jc_blocks J1 b) f)"
        by - (rule disjI2, intro ballI allI impI, rule fields)
    qed
    then show ?thesis using Suc.IH [of J2] Suc.prems False
      by (simp add: q s2 J1_def [symmetric] w_def [symmetric] J2_def [symmetric])
  qed
qed

lemma flush_coherent:
  assumes "cpu_coherent sn W J"
  shows "cpu_coherent sn W (flush (J\<lparr>jc_qoverflow := False, jc_qhead := jc_qtail J\<rparr>))"
  using assms by (auto simp: cpu_coherent_def tables_ok_def flush_def live_def words_queued_def)

lemma drain_queue_coherent:
  assumes "cpu_coherent sn W J" "unat (j_mem_size W) \<le> 2 ^ 63" "QUEUE_LEN \<le> fuel"
  shows "\<exists>J'. drain_queue fuel J = Some J' \<and> cpu_coherent sn W J' \<and> \<not> jc_qoverflow J' \<and> words_queued J' = []"
proof (cases "jc_qoverflow J")
  case True
  then show ?thesis using flush_coherent [OF assms(1)] assms(1)
    by (simp add: drain_queue_def) (simp add: flush_def words_queued_def cpu_coherent_def tables_ok_def)
next
  case False
  have "length (words_queued J) < fuel"
    using assms(1,3) ring_len_less [of "jc_qhead J" QUEUE_LEN "jc_qtail J"]
    by (simp add: words_queued_def cpu_coherent_def tables_ok_def)
  then show ?thesis using drain_words_coherent [OF assms(1) False assms(2)] False by (simp add: drain_queue_def)
qed

text \<open>
  C6: Every instruction the interpreter runs on a CPU, whatever it stores to and however its address
  is aligned, keeps the translated code of all CPUs coherent with memory: blocks over a static word it
  changes are dropped on its own CPU and announced to the others.
\<close>

theorem interp_step_keeps_coherent:
  assumes "coherent sn W"
  shows "coherent sn (fst (interp_step c eip W)) \<and>
    (j_mem (fst (interp_step c eip W)), snd (interp_step c eip W)) = subleq_step (j_mem W, eip)"
  using coherent_interp_step [OF assms, of c eip]
  by (simp add: interp_step_def subleq_step_def Let_def)

text \<open>
  C8: Draining a CPU's queue ends, and afterwards every block it can find by address is current: each
  static field of the block still has in memory the value it was translated from, and is marked, so
  that a store to it will be noticed.
\<close>

theorem drain_queue_no_stale_code:
  assumes "coherent sn W" and "c < j_ncpus W" and "QUEUE_LEN \<le> fuel"
  shows "\<exists>J. drain_queue fuel (j_cpus W c) = Some J \<and> coherent sn (on_cpu c (\<lambda>_. J) W) \<and>
    (\<forall>a b f. lookup J a = Some b \<longrightarrow> f < 3 * jb_n (jc_blocks J b) \<longrightarrow> smask_get (jc_blocks J b) f \<longrightarrow>
       load64 (j_mem W) (a + 8 * of_nat f) = sn c b f \<and>
       bit_get (static_map (j_maps W)) (drop_bit 3 a + of_nat f))"
proof -
  have sz: "unat (j_mem_size W) \<le> 2 ^ 63" and co: "cpu_coherent (sn c) W (j_cpus W c)"
    using assms(1,2) by (simp_all add: coherent_def)
  obtain J where J: "drain_queue fuel (j_cpus W c) = Some J" "cpu_coherent (sn c) W J"
    "\<not> jc_qoverflow J" "words_queued J = []"
    using drain_queue_coherent [OF co sz assms(3)] by blast
  have "cpu_coherent s (on_cpu c (\<lambda>_. J) W) K = cpu_coherent s W K" for s K
    by (rule cpu_coherent_cong) simp_all
  then have "coherent sn (on_cpu c (\<lambda>_. J) W)" using assms(1) J(2) by (auto simp: coherent_def)
  moreover have "field_matches (sn c) W b (jc_blocks J b) f"
    if "lookup J a = Some b" "f < 3 * jb_n (jc_blocks J b)" "smask_get (jc_blocks J b) f" for a b f
    using J(2-4) that lookup_live [OF that(1)] by (auto simp: cpu_coherent_def)
  ultimately show ?thesis using J(1) lookup_SomeD
    by (intro exI [of _ J]) (fastforce simp: field_matches_def field_word_def)
qed


section \<open>New blocks, checked again\<close>

definition pending_list :: "jit_cpu \<Rightarrow> (nat \<times> u64) list" where
  "pending_list J = ring_list PENDING_LEN (jc_phead J) (jc_ptail J) (jc_pending J)"

definition pending_ok :: "u64 \<Rightarrow> jit_cpu \<Rightarrow> bool" where
  "pending_ok msize J \<longleftrightarrow>
     jc_phead J < PENDING_LEN \<and> jc_ptail J < PENDING_LEN \<and>
     (\<forall>(b, _)\<in>set (pending_list J). in_memory msize (jc_blocks J b))"

lemma smc_hit_own: "drops (j_cpus W c) (j_cpus (smc_hit c w W) c)"
  by (simp add: smc_hit_cpus) (blast intro: drops_trans [OF drops_stats invalidate_word_drops])

lemma smc_hit_own_live:
  assumes ok: "tables_ok (j_cpus W c)" and w: "unat w < 2 ^ 60" and b: "b \<in> live (j_cpus (smc_hit c w W) c)"
  shows "\<not> covers (jc_blocks (j_cpus W c) b) w"
proof -
  define J where "J = (j_cpus W c)\<lparr>jc_stats := (jc_stats (j_cpus W c))\<lparr>js_smc_words := js_smc_words (jc_stats (j_cpus W c)) + 1\<rparr>\<rparr>"
  have "tables_ok J" using ok drops_stats [of "j_cpus W c"] by (simp add: J_def drops_def)
  moreover have "b \<in> live (invalidate_word w J)" using b by (simp add: smc_hit_cpus J_def)
  ultimately show ?thesis using invalidate_word_live [of J w b] w by (simp add: J_def)
qed

text \<open>The state of the fields loop, over the fields still to go.\<close>

lemma drop_fields_fold:
  assumes "coherent sn W" "c < j_ncpus W" "in_memory (j_mem_size W) B" "\<forall>f\<in>set fs. f < 3 * jb_n B"
  shows "let W' = fold (\<lambda>f W. if smask_get B f then smc_hit c (drop_bit 3 (jb_start B) + of_nat f) W else W) fs W in
    coherent sn W' \<and> j_mem W' = j_mem W \<and> j_mem_size W' = j_mem_size W \<and> j_ncpus W' = j_ncpus W \<and> j_quiet W' = j_quiet W \<and>
    drops (j_cpus W c) (j_cpus W' c) \<and>
    (\<forall>b\<in>live (j_cpus W' c). \<forall>f\<in>set fs. smask_get B f \<longrightarrow> \<not> covers (jc_blocks (j_cpus W c) b) (field_word B f))"
  using assms
proof (induction fs arbitrary: W)
  case Nil
  then show ?case by (simp add: Let_def)
next
  case (Cons f fs)
  have sz: "unat (j_mem_size W) \<le> 2 ^ 63" and ok: "tables_ok (j_cpus W c)"
    using Cons.prems(1,2) by (auto simp: coherent_def cpu_coherent_def)
  show ?case
  proof (cases "smask_get B f")
    case False
    then show ?thesis using Cons.IH [OF Cons.prems(1-3)] Cons.prems(4) by (simp add: Let_def)
  next
    case True
    define w W1 where "w = field_word B f" and "W1 = smc_hit c w W"
    have w: "unat w < 2 ^ 60"
      unfolding w_def using Cons.prems(3,4) sz by (intro word_small [OF _ sz] field_word_unat(2)) simp_all
    have co: "coherent sn W1" unfolding W1_def by (rule coherent_smc_hit [OF Cons.prems(1) w])
    have d: "drops (j_cpus W c) (j_cpus W1 c)" unfolding W1_def by (rule smc_hit_own)
    have s: "j_mem W1 = j_mem W" "j_mem_size W1 = j_mem_size W" "j_ncpus W1 = j_ncpus W" "j_quiet W1 = j_quiet W"
      by (simp_all add: W1_def)
    define W2 where "W2 = fold (\<lambda>f W. if smask_get B f then smc_hit c (drop_bit 3 (jb_start B) + of_nat f) W else W) fs W1"
    have IH: "coherent sn W2" "j_mem W2 = j_mem W1" "j_mem_size W2 = j_mem_size W1" "j_ncpus W2 = j_ncpus W1"
      "j_quiet W2 = j_quiet W1" "drops (j_cpus W1 c) (j_cpus W2 c)"
      "\<forall>b\<in>live (j_cpus W2 c). \<forall>f\<in>set fs. smask_get B f \<longrightarrow> \<not> covers (jc_blocks (j_cpus W1 c) b) (field_word B f)"
      using Cons.IH [of W1] Cons.prems(2-4) co s by (simp_all add: Let_def W2_def)
    have "\<not> covers (jc_blocks (j_cpus W c) b) w" if "b \<in> live (j_cpus W2 c)" for b
    proof -
      have "tables_ok (j_cpus W1 c)" using d ok by (simp add: drops_def)
      then have "b \<in> live (j_cpus W1 c)" using that IH(6) by (auto simp: drops_def)
      then show ?thesis using smc_hit_own_live [OF ok w] by (simp add: W1_def)
    qed
    moreover have "fold (\<lambda>f W. if smask_get B f then smc_hit c (drop_bit 3 (jb_start B) + of_nat f) W else W) (f # fs) W = W2"
      using True by (simp add: W2_def W1_def w_def field_word_def)
    ultimately show ?thesis
      using IH drops_trans [OF d IH(6)] by (auto simp: Let_def s drops_blk [OF d] w_def)
  qed
qed

lemma drop_block_fields_props:
  assumes "coherent sn W" "c < j_ncpus W" "in_memory (j_mem_size W) B"
  shows "coherent sn (drop_block_fields c B W)" "j_mem (drop_block_fields c B W) = j_mem W"
    "j_mem_size (drop_block_fields c B W) = j_mem_size W" "j_ncpus (drop_block_fields c B W) = j_ncpus W"
    "drops (j_cpus W c) (j_cpus (drop_block_fields c B W) c)"
    "b \<in> live (j_cpus (drop_block_fields c B W) c) \<Longrightarrow> f < 3 * jb_n B \<Longrightarrow> smask_get B f \<Longrightarrow>
       \<not> covers (jc_blocks (j_cpus W c) b) (field_word B f)"
  using drop_fields_fold [OF assms, of "[0..<jb_n B * 3]"] by (auto simp: drop_block_fields_def Let_def)

lemma coherent_on_phead:
  "coherent sn (on_cpu c (\<lambda>J. J\<lparr>jc_phead := f J\<rparr>) W) = coherent sn W"
proof -
  have "cpu_coherent s (on_cpu c (\<lambda>J. J\<lparr>jc_phead := f J\<rparr>) W) K = cpu_coherent s W K" for s K
    by (rule cpu_coherent_cong) simp_all
  moreover have "cpu_coherent s W (K\<lparr>jc_phead := n\<rparr>) = cpu_coherent s W K" for s K n
    by (simp add: cpu_coherent_def tables_ok_def live_def words_queued_def)
  ultimately show ?thesis by (auto simp: coherent_def)
qed


text \<open>What a second look at the blocks waiting does to the CPU's tables.\<close>

definition shrinks :: "jit_cpu \<Rightarrow> jit_cpu \<Rightarrow> bool" where
  "shrinks J J' \<longleftrightarrow>
     (\<forall>b. fixed_parts (jc_blocks J' b) = fixed_parts (jc_blocks J b)) \<and> live J' \<subseteq> live J \<and>
     words_queued J' = words_queued J \<and> jc_qoverflow J' = jc_qoverflow J \<and> jc_nblocks J' = jc_nblocks J"

lemma drops_shrinks: "drops J J' \<Longrightarrow> tables_ok J \<Longrightarrow> shrinks J J'"
  by (simp add: drops_def shrinks_def words_queued_def)

lemma shrinks_refl [simp]: "shrinks J J"
  by (simp add: shrinks_def)

lemma shrinks_trans: "shrinks J J1 \<Longrightarrow> shrinks J1 J2 \<Longrightarrow> shrinks J J2"
  by (auto simp: shrinks_def)

lemma shrinks_phead: "shrinks J (J\<lparr>jc_phead := n\<rparr>)"
  by (simp add: shrinks_def live_def words_queued_def)

lemma fixed_parts_eq:
  assumes "fixed_parts B' = fixed_parts B"
  shows "jb_start B' = jb_start B" "jb_n B' = jb_n B" "smask_get B' f = smask_get B f" "static_hash m B' = static_hash m B"
    "jb_shash B' = jb_shash B" "in_memory ms B' = in_memory ms B" "covers B' w = covers B w"
proof -
  show 1: "jb_start B' = jb_start B" "jb_n B' = jb_n B" "jb_shash B' = jb_shash B"
    using assms by (simp_all add: fixed_parts_def)
  have 2: "smask_get B' = smask_get B" using assms by (simp add: fixed_parts_def smask_get_def fun_eq_iff)
  then show "smask_get B' f = smask_get B f" by simp
  show "static_hash m B' = static_hash m B" unfolding static_hash_def 1(1,2) 2 ..
  show "in_memory ms B' = in_memory ms B" "covers B' w = covers B w" by (simp_all add: in_memory_def covers_def 1)
qed

text \<open>A block waiting is dropped, or has the fields it was made from.\<close>

definition checked :: "mem \<Rightarrow> jit_cpu \<Rightarrow> nat \<Rightarrow> bool" where
  "checked m J b \<longleftrightarrow>
     b \<notin> live J \<or> static_hash m (jc_blocks J b) = jb_shash (jc_blocks J b) \<or>
     (\<forall>f<3 * jb_n (jc_blocks J b). \<not> smask_get (jc_blocks J b) f)"

lemma checked_shrinks: "checked m J b \<Longrightarrow> shrinks J J' \<Longrightarrow> checked m J' b"
  using fixed_parts_eq [of "jc_blocks J' b" "jc_blocks J b"] by (auto simp: checked_def shrinks_def)

lemma pending_step:
  assumes ok: "pending_ok msize J" and ne: "jc_phead J \<noteq> jc_ptail J"
  shows "pending_list J = jc_pending J (jc_phead J) # pending_list (J\<lparr>jc_phead := ring_next PENDING_LEN (jc_phead J)\<rparr>)"
    "pending_ok msize (J\<lparr>jc_phead := ring_next PENDING_LEN (jc_phead J)\<rparr>)"
    "in_memory msize (jc_blocks J (fst (jc_pending J (jc_phead J))))"
proof -
  let ?J = "J\<lparr>jc_phead := ring_next PENDING_LEN (jc_phead J)\<rparr>"
  have t: "jc_phead J < PENDING_LEN" "jc_ptail J < PENDING_LEN" using ok by (simp_all add: pending_ok_def)
  show l: "pending_list J = jc_pending J (jc_phead J) # pending_list ?J"
    using ring_list_pop [OF t ne] by (simp add: pending_list_def)
  show "pending_ok msize ?J" "in_memory msize (jc_blocks J (fst (jc_pending J (jc_phead J))))"
    using ok l by (auto simp: pending_ok_def PENDING_LEN_def)
qed

lemma drops_pending:
  assumes "drops J J'"
  shows "pending_list J' = pending_list J" "pending_ok msize J' = pending_ok msize J"
proof -
  show 1: "pending_list J' = pending_list J" using assms by (simp add: drops_def pending_list_def)
  then show "pending_ok msize J' = pending_ok msize J"
    using assms by (simp add: pending_ok_def drops_blk [OF assms]) (simp add: drops_def)
qed

lemma drop_block_checked:
  assumes co: "coherent sn W" and c: "c < j_ncpus W" and im: "in_memory (j_mem_size W) (jc_blocks (j_cpus W c) b)"
  shows "checked (j_mem W) (j_cpus (drop_block_fields c (jc_blocks (j_cpus W c) b) W) c) b"
proof -
  let ?B = "jc_blocks (j_cpus W c) b" and ?J = "j_cpus (drop_block_fields c (jc_blocks (j_cpus W c) b) W) c"
  note p = drop_block_fields_props [OF co c im]
  have sz: "unat (j_mem_size W) \<le> 2 ^ 63" using co by (simp add: coherent_def)
  have "\<not> smask_get ?B f" if "b \<in> live ?J" "f < 3 * jb_n ?B" for f
    using p(6) [OF that] field_covers [OF im sz that(2)] by blast
  then show ?thesis by (auto simp: checked_def drops_blk [OF p(5)])
qed

lemma live_valid: "tables_ok J \<Longrightarrow> b \<in> live J \<Longrightarrow> jb_valid (jc_blocks J b)"
  by (auto simp: live_def tables_ok_def block_ok_def)

lemma revalidate_loop_props:
  assumes "coherent sn W" "c < j_ncpus W" "pending_ok (j_mem_size W) (j_cpus W c)"
    "length (pending_list (j_cpus W c)) < fuel"
  shows "\<exists>W'. revalidate_loop fuel c mn W = Some W' \<and> coherent sn W' \<and> j_mem W' = j_mem W \<and>
    shrinks (j_cpus W c) (j_cpus W' c) \<and>
    (\<forall>(b, _)\<in>set (takeWhile (\<lambda>x. snd x \<le> mn) (pending_list (j_cpus W c))). checked (j_mem W) (j_cpus W' c) b)"
  using assms
proof (induction fuel arbitrary: W)
  case 0
  then show ?case by simp
next
  case (Suc fuel)
  define J where "J = j_cpus W c"
  define b where "b = fst (jc_pending J (jc_phead J))"
  have ok: "tables_ok J" using Suc.prems(1,2) by (simp add: coherent_def cpu_coherent_def J_def)
  have pok: "pending_ok (j_mem_size W) J" using Suc.prems(3) by (simp add: J_def)
  then have t: "jc_phead J < PENDING_LEN" "jc_ptail J < PENDING_LEN" by (simp_all add: pending_ok_def)
  show ?case
  proof (cases "jc_phead J \<noteq> jc_ptail J \<and> snd (jc_pending J (jc_phead J)) \<le> mn")
    case False
    then have "takeWhile (\<lambda>x. snd x \<le> mn) (pending_list J) = []"
      using t pending_step(1) [OF pok] by (cases "jc_phead J = jc_ptail J") (simp_all add: pending_list_def)
    then show ?thesis using Suc.prems False by (simp add: J_def)
  next
    case True
    then have ne: "jc_phead J \<noteq> jc_ptail J" and le: "snd (jc_pending J (jc_phead J)) \<le> mn" by simp_all
    note ps = pending_step [OF pok ne]
    define W1 where "W1 = on_cpu c (\<lambda>J. J\<lparr>jc_phead := ring_next PENDING_LEN (jc_phead J)\<rparr>) W"
    have W1: "coherent sn W1" "c < j_ncpus W1" "pending_ok (j_mem_size W1) (j_cpus W1 c)"
      "pending_list J = jc_pending J (jc_phead J) # pending_list (j_cpus W1 c)"
      "j_mem W1 = j_mem W" "j_mem_size W1 = j_mem_size W" "jc_blocks (j_cpus W1 c) = jc_blocks J"
      "shrinks J (j_cpus W1 c)" "live (j_cpus W1 c) = live J"
      using Suc.prems(1,2) ps by (simp_all add: W1_def coherent_on_phead J_def shrinks_phead live_def)
    have tw: "takeWhile (\<lambda>x. snd x \<le> mn) (pending_list J) =
        jc_pending J (jc_phead J) # takeWhile (\<lambda>x. snd x \<le> mn) (pending_list (j_cpus W1 c))"
      by (simp add: W1(4) le)
    show ?thesis
    proof (cases "\<not> jb_valid (jc_blocks J b) \<or> static_hash (j_mem W) (jc_blocks J b) = jb_shash (jc_blocks J b)")
      case ok_b: True
      then have ch: "checked (j_mem W) (j_cpus W1 c) b"
        using live_valid [OF ok] by (auto simp: checked_def W1(7,9))
      obtain W' where W': "revalidate_loop fuel c mn W1 = Some W'" "coherent sn W'" "j_mem W' = j_mem W1"
        "shrinks (j_cpus W1 c) (j_cpus W' c)"
        "\<forall>(b, _)\<in>set (takeWhile (\<lambda>x. snd x \<le> mn) (pending_list (j_cpus W1 c))). checked (j_mem W1) (j_cpus W' c) b"
        using Suc.IH [OF W1(1-3)] Suc.prems(4) W1(4) by (auto simp: J_def)
      have "revalidate_loop (Suc fuel) c mn W = Some W'"
        using True ok_b W'(1) by (auto simp: Let_def J_def [symmetric] b_def [symmetric] W1_def [symmetric] W1(5))
      moreover have "checked (j_mem W) (j_cpus W' c) b" by (rule checked_shrinks [OF ch W'(4)])
      ultimately show ?thesis
        using W' shrinks_trans [OF W1(8) W'(4)] unfolding J_def [symmetric] tw
        by (auto simp: W1(5) b_def case_prod_beta)
    next
      case bad: False
      define W2 where "W2 = on_cpu c (\<lambda>J. J\<lparr>jc_stats := jc_stats J\<lparr>js_revalidations := js_revalidations (jc_stats J) + 1\<rparr>\<rparr>) W1"
      define W3 where "W3 = drop_block_fields c (jc_blocks J b) W2"
      have W2: "coherent sn W2" "c < j_ncpus W2" "j_mem W2 = j_mem W" "j_mem_size W2 = j_mem_size W"
        "jc_blocks (j_cpus W2 c) = jc_blocks J" "drops (j_cpus W1 c) (j_cpus W2 c)"
        using W1 by (simp_all add: W2_def coherent_on_cpu_stats drops_stats)
      have im: "in_memory (j_mem_size W2) (jc_blocks (j_cpus W2 c) b)" using ps(3) by (simp add: W2 b_def)
      note p = drop_block_fields_props [OF W2(1,2) im, unfolded W2(5), folded W3_def]
      have d: "drops (j_cpus W1 c) (j_cpus W3 c)" by (rule drops_trans [OF W2(6) p(5)])
      have ok1: "tables_ok (j_cpus W1 c)" using W1(1,2) by (simp add: coherent_def cpu_coherent_def)
      have W3: "c < j_ncpus W3" "pending_ok (j_mem_size W3) (j_cpus W3 c)" "pending_list (j_cpus W3 c) = pending_list (j_cpus W1 c)"
        using W1(3) W2 p d by (simp_all add: drops_pending [OF d] W1(6))
      have ch: "checked (j_mem W) (j_cpus W3 c) b"
        using drop_block_checked [OF W2(1,2) im] by (simp add: W3_def W2)
      obtain W' where W': "revalidate_loop fuel c mn W3 = Some W'" "coherent sn W'" "j_mem W' = j_mem W3"
        "shrinks (j_cpus W3 c) (j_cpus W' c)"
        "\<forall>(b, _)\<in>set (takeWhile (\<lambda>x. snd x \<le> mn) (pending_list (j_cpus W3 c))). checked (j_mem W3) (j_cpus W' c) b"
        using Suc.IH [OF p(1) W3(1,2)] Suc.prems(4) W1(4) by (auto simp: J_def W3(3))
      have "revalidate_loop (Suc fuel) c mn W = Some W'"
        using True bad W'(1)
        by (simp add: Let_def J_def [symmetric] b_def [symmetric] W1_def [symmetric] W1(5) W1(7)
            W2_def [symmetric] W3_def [symmetric])
      moreover have "checked (j_mem W) (j_cpus W' c) b" by (rule checked_shrinks [OF ch W'(4)])
      moreover have "shrinks J (j_cpus W' c)"
        by (rule shrinks_trans [OF W1(8) shrinks_trans [OF drops_shrinks [OF d ok1] W'(4)]])
      moreover have "j_mem W3 = j_mem W" using p(2) W2(3) by simp
      ultimately show ?thesis
        using W' unfolding J_def [symmetric] tw W3(3) by (auto simp: b_def case_prod_beta)
    qed
  qed
qed


text \<open>
  C27: Looking again at the blocks waiting for every CPU to have passed its dispatcher ends, keeps all
  translated code coherent, and leaves none of those whose turn has come findable unless its static
  fields hash as when it was made.
\<close>

theorem revalidate_checks_pending:
  assumes "coherent sn W" "c < j_ncpus W" "pending_ok (j_mem_size W) (j_cpus W c)" "PENDING_LEN \<le> fuel"
  shows "\<exists>W'. revalidate fuel c W = Some W' \<and> coherent sn W' \<and> j_mem W' = j_mem W \<and>
    shrinks (j_cpus W c) (j_cpus W' c) \<and>
    (\<forall>(b, _)\<in>set (takeWhile (\<lambda>x. snd x \<le> min_quiet W) (pending_list (j_cpus W c))). checked (j_mem W) (j_cpus W' c) b)"
proof (cases "jc_phead (j_cpus W c) = jc_ptail (j_cpus W c)")
  case True
  then have "pending_list (j_cpus W c) = []" using assms(3) by (simp add: pending_list_def pending_ok_def)
  then show ?thesis using assms(1) True by (simp add: revalidate_def)
next
  case False
  have "length (pending_list (j_cpus W c)) < fuel"
    using assms(3,4) ring_len_less [of "jc_phead (j_cpus W c)" PENDING_LEN "jc_ptail (j_cpus W c)"]
    by (simp add: pending_ok_def pending_list_def)
  then show ?thesis using revalidate_loop_props [OF assms(1-3)] False by (simp add: revalidate_def)
qed

section \<open>The hash of the static fields\<close>

lemma hash_mul_inj: "x * 0x100000001b3 = y * 0x100000001b3 \<longleftrightarrow> x = (y :: u64)"
proof
  assume "x * 0x100000001b3 = y * 0x100000001b3"
  then have "x * (0x100000001b3 * 0xce965057aff6957b) = y * (0x100000001b3 * 0xce965057aff6957b)"
    by (simp only: mult.assoc [symmetric])
  moreover have "0x100000001b3 * 0xce965057aff6957b = (1 :: u64)" by simp
  ultimately show "x = y" by (simp only: mult_1_right)
qed simp

lemma xor_left_inj: "h XOR v = h XOR v' \<longleftrightarrow> v = (v' :: u64)"
proof
  assume "h XOR v = h XOR v'"
  then have "h XOR (h XOR v) = h XOR (h XOR v')" by simp
  then show "v = v'" by (simp add: xor.assoc [symmetric])
qed simp

lemma xor_right_inj: "h XOR v = h' XOR v \<longleftrightarrow> h = (h' :: u64)"
  using xor_left_inj [of v h h'] by (simp only: xor.commute)

definition hash_field :: "mem \<Rightarrow> jit_block \<Rightarrow> nat \<Rightarrow> u64 \<Rightarrow> u64" where
  "hash_field m B f h =
     (if smask_get B f then (h XOR load64 m (jb_start B + 8 * of_nat f)) * 0x100000001b3 else h)"

lemma static_hash_fold: "static_hash m B = fold (hash_field m B) [0..<jb_n B * 3] 0x9e3779b97f4a7c15"
  by (simp add: static_hash_def hash_field_def [abs_def])

lemma fold_hash_inj: "fold (hash_field m B) fs h = fold (hash_field m B) fs h' \<longleftrightarrow> h = h'"
proof (induction fs arbitrary: h h')
  case Nil
  then show ?case by simp
next
  case (Cons f fs)
  then show ?case by (simp add: hash_field_def hash_mul_inj xor_right_inj)
qed

lemma fold_hash_cong:
  assumes "\<And>f. f \<in> set fs \<Longrightarrow> smask_get B f \<Longrightarrow> load64 m (jb_start B + 8 * of_nat f) = load64 m' (jb_start B + 8 * of_nat f)"
  shows "fold (hash_field m B) fs h = fold (hash_field m' B) fs h"
  using assms by (intro fold_cong) (auto simp: hash_field_def fun_eq_iff)

text \<open>
  The hash a block is checked by tells any change of a single static field: equal fields hash
  equal, and if exactly one differs the hashes differ, whatever the values.
\<close>

theorem static_hash_one_change:
  assumes "g < jb_n B * 3" "smask_get B g"
    and same: "\<And>f. f < jb_n B * 3 \<Longrightarrow> smask_get B f \<Longrightarrow> f \<noteq> g \<Longrightarrow>
        load64 m (jb_start B + 8 * of_nat f) = load64 m' (jb_start B + 8 * of_nat f)"
  shows "static_hash m B = static_hash m' B \<longleftrightarrow>
     load64 m (jb_start B + 8 * of_nat g) = load64 m' (jb_start B + 8 * of_nat g)"
proof -
  have "[0..<jb_n B * 3] = [0..<g] @ [g..<jb_n B * 3]"
    using assms(1) upt_add_eq_append [of 0 g "jb_n B * 3 - g"] by simp
  then have split: "[0..<jb_n B * 3] = [0..<g] @ g # [Suc g..<jb_n B * 3]"
    using assms(1) by (simp add: upt_conv_Cons)
  define h where "h = fold (hash_field m B) [0..<g] 0x9e3779b97f4a7c15"
  have h: "fold (hash_field m' B) [0..<g] 0x9e3779b97f4a7c15 = h"
    unfolding h_def using same assms(1) by (intro fold_hash_cong [symmetric]) auto
  have "fold (hash_field m' B) [Suc g..<jb_n B * 3] x = fold (hash_field m B) [Suc g..<jb_n B * 3] x" for x
    using same by (intro fold_hash_cong [symmetric]) auto
  then show ?thesis
    unfolding static_hash_fold split fold_append o_apply fold_simps h h_def [symmetric]
    by (simp only: fold_hash_inj) (simp add: hash_field_def assms(2) hash_mul_inj xor_left_inj)
qed

end
