(* ===== verification/Jit_Links.thy ===== *)
theory Jit_Links
  imports Jit_Coherence
begin

text \<open>
  The jumps between translated blocks: what \<open>patch_rel32\<close> makes a jump do, and that linking and
  dropping blocks redirect the jumps they mean to.
\<close>

section \<open>Jumps in the code cache\<close>

definition code32 :: "mem \<Rightarrow> u64 \<Rightarrow> i32" where
  "code32 code a = join_bytes (\<lambda>i. code (a + of_nat i)) 0 4"

text \<open>Where the jump whose rel32 field is at \<open>site\<close> goes.\<close>

definition jump_target :: "mem \<Rightarrow> u64 \<Rightarrow> u64" where
  "jump_target code site = site + 4 + scast (code32 code site)"

definition disj4 :: "u64 \<Rightarrow> u64 \<Rightarrow> bool" where
  "disj4 a b \<longleftrightarrow> 4 \<le> b - a \<and> 4 \<le> a - b"

lemma cell4_byte: "i < 4 \<Longrightarrow> (a + of_nat i) - a < (4::u64)"
  by (simp add: word_less_nat_alt unat_of_nat_u64)

lemma disj4_byte:
  assumes "disj4 a b" "i < 4"
  shows "\<not> (b + of_nat i) - a < (4::u64)"
proof
  assume lt: "(b + of_nat i) - a < 4"
  define j where "j = unat (b + of_nat i - a)"
  have j: "j < 4" using lt by (simp add: word_less_nat_alt j_def)
  have e: "b + of_nat i = a + of_nat j" by (simp add: j_def)
  show False
  proof (cases "i \<le> j")
    case True
    then have "b - a = of_nat (j - i)" using e by (simp add: of_nat_diff algebra_simps)
    then show False using assms(1) j by (auto simp: disj4_def word_le_nat_alt unat_of_nat_u64)
  next
    case False
    then have "a - b = of_nat (i - j)" using e by (simp add: of_nat_diff algebra_simps)
    then show False using assms by (auto simp: disj4_def word_le_nat_alt unat_of_nat_u64)
  qed
qed

lemma code32_patch: "code32 (patch_rel32 site target code) site = ucast (target - (site + 4))"
proof (rule bit_word_eqI)
  fix n assume "n < LENGTH(32)"
  then have n: "n < 32" by simp
  then have "n div 8 < 4" by simp
  then show "bit (code32 (patch_rel32 site target code) site) n = bit (ucast (target - (site + 4)) :: i32) n" using n
    by (simp add: code32_def bit_join_bytes patch_rel32_def Let_def cell4_byte word_less_nat_alt unat_of_nat_u64
        bit_ucast_iff bit_drop_bit_eq)
qed

lemma code32_cong: "(\<And>i. i < 4 \<Longrightarrow> m (a + of_nat i) = m' (a + of_nat i)) \<Longrightarrow> code32 m a = code32 m' a"
  by (rule bit_word_eqI) (simp add: code32_def bit_join_bytes)

lemma code32_patch_disj: "disj4 site a \<Longrightarrow> code32 (patch_rel32 site target code) a = code32 code a"
  by (rule code32_cong) (simp add: patch_rel32_def Let_def disj4_byte)

text \<open>A distance a signed 32-bit field can hold.\<close>

definition in_reach :: "u64 \<Rightarrow> u64 \<Rightarrow> bool" where
  "in_reach site target \<longleftrightarrow>
     - (2 ^ 31) \<le> sint (target - (site + 4)) \<and> sint (target - (site + 4)) < 2 ^ 31"

lemma scast_ucast_32:
  fixes r :: u64
  assumes "- (2 ^ 31) \<le> sint r" "sint r < 2 ^ 31"
  shows "scast (ucast r :: i32) = r"
proof (rule bit_word_eqI)
  fix n assume "n < LENGTH(64)"
  then have n: "n < 64" by simp
  have s: "signed_take_bit 31 (sint r) = sint r" using assms by (intro signed_take_bit_int_eq_self) simp_all
  have b: "bit (sint r) k \<longleftrightarrow> bit r k" if "k < 64" for k
    using that by (simp add: bit_sint_iff min_def)
  have "bit r n \<longleftrightarrow> bit (signed_take_bit 31 (sint r)) n" using n by (simp only: s b)
  also have "\<dots> \<longleftrightarrow> bit r (min 31 n)" using b [of "min 31 n"] by (simp add: bit_signed_take_bit_iff)
  finally have e: "bit r (min 31 n) = bit r n" by (rule sym)
  have "bit (scast (ucast r :: i32) :: u64) n = bit r (min 31 n)"
    using n by (simp add: bit_signed_iff bit_ucast_iff min_def)
  then show "bit (scast (ucast r :: i32) :: u64) n = bit r n" by (simp only: e)
qed

lemma jump_patch: "in_reach site target \<Longrightarrow> jump_target (patch_rel32 site target code) site = target"
  by (simp add: jump_target_def code32_patch scast_ucast_32 in_reach_def)

lemma jump_patch_disj: "disj4 site a \<Longrightarrow> jump_target (patch_rel32 site target code) a = jump_target code a"
  by (simp add: jump_target_def code32_patch_disj)


section \<open>Linking and unlinking\<close>

lemma fold_unlink_code:
  "jc_code (fold unlink ls J) = fold (\<lambda>l. patch_rel32 (jc_links J l) (jc_links J l + 4)) ls (jc_code J)"
  "jc_free_links (fold unlink ls J) = rev ls @ jc_free_links J"
  "jc_links (fold unlink ls J) = jc_links J"
  by (induction ls arbitrary: J) (simp_all add: unlink_def)

lemma invalidate_code:
  assumes "jb_valid (jc_blocks J b)"
  shows "jc_code (invalidate b J) =
      patch_rel32 (jb_entry (jc_blocks J b) + 1) (jb_inv_stub (jc_blocks J b))
        ((fold (\<lambda>l. patch_rel32 (jc_links J l) (jc_links J l + 4)) (jb_incoming (jc_blocks J b)) (jc_code J))
          (jb_entry (jc_blocks J b) := 0xe9))"
    "jc_free_links (invalidate b J) = rev (jb_incoming (jc_blocks J b)) @ jc_free_links J"
    "jc_links (invalidate b J) = jc_links J"
  using assms by (simp_all add: invalidate_def Let_def fold_unlink fold_unlink_code)

lemma patches_target:
  assumes "\<And>l l'. l \<in> set ls \<Longrightarrow> l' \<in> set ls \<Longrightarrow> l = l' \<or> disj4 (sites l) (sites l')" "l \<in> set ls"
  shows "jump_target (fold (\<lambda>l. patch_rel32 (sites l) (sites l + 4)) ls code) (sites l) = sites l + 4"
  using assms
proof (induction ls arbitrary: code rule: rev_induct)
  case Nil
  then show ?case by simp
next
  case (snoc k ks)
  show ?case
  proof (cases "l = k")
    case True
    then show ?thesis by (simp add: jump_patch in_reach_def)
  next
    case False
    then have l: "l \<in> set ks" using snoc.prems(2) by simp
    have "l = k \<or> disj4 (sites k) (sites l)" using snoc.prems(1) [of k l] l by auto
    then show ?thesis using False snoc.IH l snoc.prems(1) by (simp add: jump_patch_disj)
  qed
qed

lemma jump_target_byte: "\<not> e - a < 4 \<Longrightarrow> jump_target (code(e := v)) a = jump_target code a"
proof -
  assume e: "\<not> e - a < 4"
  have "code32 (code(e := v)) a = code32 code a"
    using e by (intro code32_cong) (auto simp: cell4_byte [simplified])
  then show ?thesis by (simp add: jump_target_def)
qed

text \<open>
  C29: Dropping a block sends every jump linked to it back to its slow path, the address right after
  the jump, turns the block's entry into a jump to its stub, and gives all its links back; provided
  the jumps do not overlap each other or the entry.
\<close>

theorem invalidate_redirects:
  assumes "jb_valid (jc_blocks J b)"
    and apart: "\<forall>l\<in>set (jb_incoming (jc_blocks J b)). \<forall>l'\<in>set (jb_incoming (jc_blocks J b)).
        l = l' \<or> disj4 (jc_links J l) (jc_links J l')"
    and entry: "\<forall>l\<in>set (jb_incoming (jc_blocks J b)).
        disj4 (jb_entry (jc_blocks J b) + 1) (jc_links J l) \<and> 4 \<le> jb_entry (jc_blocks J b) - jc_links J l"
    and near: "in_reach (jb_entry (jc_blocks J b) + 1) (jb_inv_stub (jc_blocks J b))"
  shows "(\<forall>l\<in>set (jb_incoming (jc_blocks J b)). jump_target (jc_code (invalidate b J)) (jc_links J l) = jc_links J l + 4) \<and>
    jc_code (invalidate b J) (jb_entry (jc_blocks J b)) = 0xe9 \<and>
    jump_target (jc_code (invalidate b J)) (jb_entry (jc_blocks J b) + 1) = jb_inv_stub (jc_blocks J b) \<and>
    jc_free_links (invalidate b J) = rev (jb_incoming (jc_blocks J b)) @ jc_free_links J \<and>
    jb_incoming (jc_blocks (invalidate b J) b) = []"
proof -
  let ?B = "jc_blocks J b"
  have "jump_target (jc_code (invalidate b J)) (jc_links J l) = jc_links J l + 4" if "l \<in> set (jb_incoming ?B)" for l
  proof -
    have "\<not> jb_entry ?B - jc_links J l < 4" using entry that by (simp add: not_less)
    then show ?thesis
      using entry that patches_target [of "jb_incoming ?B" "jc_links J" l] apart
      unfolding invalidate_code [OF assms(1)] by (simp add: jump_patch_disj jump_target_byte)
  qed
  moreover have "jc_code (invalidate b J) (jb_entry ?B) = 0xe9"
    unfolding invalidate_code [OF assms(1)] by (simp add: patch_rel32_def Let_def)
  ultimately show ?thesis
    using near by (simp add: invalidate_code(2,3) [OF assms(1)] invalidate_code(1) [OF assms(1)] jump_patch invalidate_blocks assms(1))
qed

text \<open>
  Linking a jump makes it go to the block's entry, when it is near enough, and records it with the
  block, as the link dropping the block will undo; with no link left to record it, the jump stays as
  it was.
\<close>

lemma link_to_links:
  assumes "in_reach site (jb_entry (jc_blocks J t))"
  shows "if jc_free_links J = [] \<and> jc_max_links J \<le> jc_nlinks J then link_to site t J = J
    else jump_target (jc_code (link_to site t J)) site = jb_entry (jc_blocks J t) \<and>
      (\<exists>l. jb_incoming (jc_blocks (link_to site t J) t) = l # jb_incoming (jc_blocks J t) \<and>
         jc_links (link_to site t J) l = site \<and>
         (jc_free_links J = l # jc_free_links (link_to site t J) \<or>
          jc_free_links J = [] \<and> l = jc_nlinks J \<and> jc_nlinks (link_to site t J) = jc_nlinks J + 1))"
  using assms by (auto simp: link_to_def Let_def jump_patch split: list.split)

end
