(* ===== verification/Jit_Example.thy ===== *)
theory Jit_Example
  imports Jit_Links
begin

text \<open>
  The theorems on the translator's tables at a concrete state: two CPUs, one translated block, and an
  instruction that stores to it.
\<close>

section \<open>Two CPUs and a block\<close>

text \<open>
  A block of one instruction at 4096, all fields static, on CPU 0; the instruction at 8192 stores to
  its B field; CPU 1 has no blocks.
\<close>

definition one_block :: jit_block where
  "one_block = \<lparr>jb_start = 4096, jb_n = 1, jb_entry = 1000, jb_inv_stub = 2000, jb_incoming = [0], jb_hoist = [],
     jb_smask = (\<lambda>_. 7), jb_shash = 0, jb_valid = True\<rparr>"

definition no_stats :: jit_stats where
  "no_stats = \<lparr>js_links = 0, js_smc_words = 0, js_invalidations = 0, js_revalidations = 0, js_interp_steps = 0, js_flushes = 0\<rparr>"

definition cpu_with :: "(u64 \<Rightarrow> nat list) \<Rightarrow> jit_cpu" where
  "cpu_with tab = \<lparr>jc_code = (\<lambda>_. 0), jc_code_base = 0, jc_code_ptr = 0, jc_blocks = (\<lambda>_. one_block), jc_nblocks = 1,
     jc_links = (\<lambda>_. 500), jc_free_links = [], jc_nlinks = 1, jc_max_links = 2, jc_nmeta = 0, jc_max_meta = 0,
     jc_htab = tab, jc_queue = (\<lambda>_. 0), jc_qhead = 0, jc_qtail = 0, jc_qoverflow = False,
     jc_pending = (\<lambda>_. (0, 5)), jc_phead = 0, jc_ptail = 1, jc_stats = no_stats\<rparr>"

definition two_cpus :: jit where
  "two_cpus = \<lparr>j_mem = dawn_writeram (\<lambda>_. 0) 8200 4104, j_mem_size = 65536,
     j_maps = \<lparr>static_map = bit_set (bit_set (bit_set (\<lambda>_. 0) 512) 513) 514, page_map = (\<lambda>_. 1)\<rparr>, j_dyn_map = (\<lambda>_. 0),
     j_ncpus = 2, j_cpus = (\<lambda>c. cpu_with (if c = 0 then (\<lambda>_. [])(hash 4096 := [0]) else (\<lambda>_. []))),
     j_quiet = (\<lambda>_. 9)\<rparr>"

lemma load64_two_cpus: "disj8 8200 a \<Longrightarrow> load64 (j_mem two_cpus) a = 0"
  by (simp add: two_cpus_def dawn_writeram_def mem_simps load64_zero)

lemma cpu_with_live: "live (cpu_with ((\<lambda>_. [])(hash 4096 := [0]))) = {0}" "live (cpu_with (\<lambda>_. [])) = {}"
  by (auto simp: live_def cpu_with_def one_block_def)

lemma cpu_with_queue: "words_queued (cpu_with tab) = []" "\<not> jc_qoverflow (cpu_with tab)"
  by (simp_all add: words_queued_def cpu_with_def QUEUE_LEN_def)

lemma cpu_with_tables:
  "tables_ok (cpu_with ((\<lambda>_. [])(hash 4096 := [0])))" "tables_ok (cpu_with (\<lambda>_. []))"
  by (simp_all add: tables_ok_def cpu_with_def block_ok_def one_block_def QUEUE_LEN_def JIT_MAX_BLOCK_def)

lemma one_block_matches: "f < 3 \<Longrightarrow> field_matches (\<lambda>_ _. 0) two_cpus b one_block f"
proof -
  assume "f < 3"
  then consider "f = 0" | "f = 1" | "f = 2" by linarith
  then show ?thesis
    by cases (auto simp: field_matches_def field_word_def one_block_def load64_two_cpus disj8_def, simp_all add: two_cpus_def)
qed

lemma two_cpus_coherent: "coherent (\<lambda>_ _ _. 0) two_cpus"
proof -
  have sz: "j_mem_size two_cpus = 65536" by (simp add: two_cpus_def)
  have b: "jc_blocks (cpu_with tab) b = one_block" for tab b by (simp add: cpu_with_def)
  have im: "in_memory 65536 one_block" by (simp add: in_memory_def one_block_def)
  have n: "jb_n one_block = 1" by (simp add: one_block_def)
  have "cpu_coherent (\<lambda>_ _. 0) two_cpus (cpu_with ((\<lambda>_. [])(hash 4096 := [0])))"
    unfolding cpu_coherent_def sz cpu_with_live b cpu_with_queue n
    using cpu_with_tables(1) im one_block_matches by simp
  moreover have "cpu_coherent (\<lambda>_ _. 0) two_cpus (cpu_with (\<lambda>_. []))"
    unfolding cpu_coherent_def cpu_with_live cpu_with_queue using cpu_with_tables(2) by simp
  moreover have "j_cpus two_cpus c = cpu_with (if c = 0 then (\<lambda>_. [])(hash 4096 := [0]) else (\<lambda>_. []))" for c
    by (simp add: two_cpus_def)
  ultimately show ?thesis by (simp add: coherent_def sz)
qed

lemma two_cpus_lookup: "lookup (j_cpus two_cpus 0) 4096 = Some 0"
  by (simp add: lookup_def two_cpus_def cpu_with_def one_block_def)

theorem interp_step_keeps_coherent_witness:
  "coherent (\<lambda>_ _ _. 0) (fst (interp_step 1 8192 two_cpus)) \<and>
   (j_mem (fst (interp_step 1 8192 two_cpus)), snd (interp_step 1 8192 two_cpus)) = subleq_step (j_mem two_cpus, 8192)"
  by (rule interp_step_keeps_coherent [OF two_cpus_coherent])

theorem drain_queue_no_stale_code_witness:
  "\<exists>J. drain_queue 1024 (j_cpus two_cpus 0) = Some J \<and>
    (\<forall>b f. lookup J 4096 = Some b \<longrightarrow> f < 3 * jb_n (jc_blocks J b) \<longrightarrow> smask_get (jc_blocks J b) f \<longrightarrow>
       load64 (j_mem two_cpus) (4096 + 8 * of_nat f) = 0)"
  using drain_queue_no_stale_code [OF two_cpus_coherent, of 0 1024]
  by (simp add: QUEUE_LEN_def) (fastforce simp: two_cpus_def)

theorem revalidate_checks_pending_witness:
  "\<exists>W'. revalidate 4096 0 two_cpus = Some W' \<and> checked (j_mem two_cpus) (j_cpus W' 0) 0"
proof -
  have c: "j_cpus two_cpus 0 = cpu_with ((\<lambda>_. [])(hash 4096 := [0]))" by (simp add: two_cpus_def)
  have p: "pending_list (cpu_with ((\<lambda>_. [])(hash 4096 := [0]))) = [(0, 5)]"
    by (simp add: pending_list_def cpu_with_def ring_list_def ring_len_def PENDING_LEN_def)
  have q: "min_quiet two_cpus = 9" by (simp add: min_quiet_def two_cpus_def upt_rec)
  have ok: "pending_ok (j_mem_size two_cpus) (j_cpus two_cpus 0)"
    unfolding pending_ok_def c p by (simp add: two_cpus_def cpu_with_def one_block_def in_memory_def PENDING_LEN_def)
  show ?thesis
    using revalidate_checks_pending [OF two_cpus_coherent _ ok, of 4096]
    unfolding c p q by (auto simp: PENDING_LEN_def two_cpus_def)
qed

theorem static_hash_one_change_witness:
  "static_hash (\<lambda>_. 0) one_block \<noteq> static_hash ((\<lambda>_. 0)(4104 := 1)) one_block"
proof -
  have g: "smask_get one_block 1" by (simp add: smask_get_def one_block_def)
  have "load64 (\<lambda>_. 0) (jb_start one_block + 8 * of_nat f) = load64 ((\<lambda>_. 0)(4104 := 1)) (jb_start one_block + 8 * of_nat f)"
    if "f < jb_n one_block * 3" "f \<noteq> 1" for f
  proof -
    have "f = 0 \<or> f = 2" using that by (auto simp: one_block_def)
    then show ?thesis by (auto simp: one_block_def load64_def join_bytes_def upt_rec)
  qed
  then have "static_hash (\<lambda>_. 0) one_block = static_hash ((\<lambda>_. 0)(4104 := 1)) one_block \<longleftrightarrow>
      load64 (\<lambda>_. 0) (jb_start one_block + 8 * of_nat 1) = load64 ((\<lambda>_. 0)(4104 := 1)) (jb_start one_block + 8 * of_nat 1)"
    by (intro static_hash_one_change [OF _ g]) (auto simp: one_block_def)
  then show ?thesis by (simp add: one_block_def load64_def join_bytes_def upt_rec)
qed

theorem invalidate_redirects_witness:
  "jump_target (jc_code (invalidate 0 (cpu_with (\<lambda>_. [])))) 500 = 504 \<and>
   jump_target (jc_code (invalidate 0 (cpu_with (\<lambda>_. [])))) 1001 = 2000"
  using invalidate_redirects [of "cpu_with (\<lambda>_. [])" 0]
  by (simp add: cpu_with_def one_block_def disj4_def in_reach_def)

theorem link_to_links_witness:
  "jump_target (jc_code (link_to 700 0 (cpu_with (\<lambda>_. [])))) 700 = 1000"
  using link_to_links [of 700 "cpu_with (\<lambda>_. [])" 0]
  by (simp add: cpu_with_def one_block_def in_reach_def)

end
