(* ===== verification/Cpu_Loop.thy ===== *)
theory Cpu_Loop
  imports Subleq
begin

text \<open>
  The CPU loops of subleq.c. CPU 0 looks at its bank for a power request and runs a slice; every
  other CPU (an AP) follows the status CPU 0 writes to its bank. Each access an AP makes to the
  shared bank is a step of its own, so that what CPU 0 writes between them is part of the model.
  How a slice runs (\<open>run\<close>: the translator or the interpreter) is an argument here.
\<close>

definition DAWN_CPU_BANK_BASE :: u64 where "DAWN_CPU_BANK_BASE = 334364672"

definition cpu_bank :: "nat \<Rightarrow> u64" where
  "cpu_bank cpu = DAWN_CPU_BANK_BASE + 16 * of_nat cpu"

type_synonym slice = "nat \<Rightarrow> mem \<times> u64 \<Rightarrow> mem \<times> u64"

text \<open>Status stopped, eip 0.\<close>

definition cpu_start :: "u64 \<Rightarrow> mem \<Rightarrow> mem" where
  "cpu_start bank m = dawn_writeram (dawn_writeram m bank 4) (bank + 8) 0"

section \<open>CPU 0\<close>

datatype power = Shutdown | Reboot | Sleep

text \<open>
  One turn of CPU 0's loop: the power request it serves, if any, and the slice it then runs.
  \<open>shutdown\<close> returns when it fails and \<open>pm_sleep\<close> always does; \<open>reboot\<close> never returns, so that a
  reboot ends the loop (\<open>None\<close>).
\<close>

definition power_request :: "u64 \<Rightarrow> power option" where
  "power_request status =
     (if status = 8 then Some Shutdown else if status = 16 then Some Reboot
      else if status = 32 then Some Sleep else None)"

definition cpu0_turn :: "slice \<Rightarrow> u64 \<Rightarrow> mem \<times> u64 \<Rightarrow> power option \<times> (mem \<times> u64) option" where
  "cpu0_turn run bank st =
     (let req = power_request (dawn_readram (fst st) bank)
      in (req, if req = Some Reboot then None else Some (run 0 st)))"

section \<open>The other CPUs\<close>

text \<open>
  Where an AP is in its loop: at the \<open>switch\<close>, in \<open>case 1\<close> before it reads the eip of the bank, runs
  the slice or saves the eip, in \<open>case 2\<close> before it acknowledges the stop, and in \<open>wait_stopped\<close>.
\<close>

datatype ap_pc = At_switch | At_start | At_run | At_save | At_ack | At_wait

record ap =
  ap_pc :: ap_pc
  ap_eip :: u64
  ap_halted :: bool

definition ap_init :: ap where
  "ap_init = \<lparr>ap_pc = At_switch, ap_eip = 0, ap_halted = True\<rparr>"

definition ap_switch :: "u64 \<Rightarrow> mem \<Rightarrow> ap \<Rightarrow> ap" where
  "ap_switch bank m s =
     (let status = dawn_readram m bank
      in if status = 1 then s\<lparr>ap_pc := if ap_halted s then At_start else At_run\<rparr>
         else if status = 2 then s\<lparr>ap_pc := At_ack\<rparr>
         else if status = 4 then s\<lparr>ap_halted := True, ap_pc := At_wait\<rparr>
         else s)"

definition ap_step :: "slice \<Rightarrow> nat \<Rightarrow> mem \<times> ap \<Rightarrow> mem \<times> ap" where
  "ap_step run cpu = (\<lambda>(m, s).
     let bank = cpu_bank cpu in
     case ap_pc s of
       At_switch \<Rightarrow> (m, ap_switch bank m s)
     | At_start \<Rightarrow> (m, s\<lparr>ap_halted := False, ap_eip := dawn_readram m (bank + 8), ap_pc := At_run\<rparr>)
     | At_run \<Rightarrow> (let (m', e) = run cpu (m, ap_eip s) in (m', s\<lparr>ap_eip := e, ap_pc := At_save\<rparr>))
     | At_save \<Rightarrow> (dawn_writeram m (bank + 8) (ap_eip s), s\<lparr>ap_pc := At_switch\<rparr>)
     | At_ack \<Rightarrow> (dawn_writeram m bank 4, s\<lparr>ap_halted := True, ap_pc := At_wait\<rparr>)
     | At_wait \<Rightarrow> (m, if dawn_readram m bank = 4 then s else s\<lparr>ap_pc := At_switch\<rparr>))"

text \<open>
  An execution interleaves the AP's steps with what the rest of the machine does to memory,
  \<open>env\<close>, which may depend on the AP's state.
\<close>

inductive ap_reach :: "slice \<Rightarrow> nat \<Rightarrow> (ap \<Rightarrow> mem \<Rightarrow> mem \<Rightarrow> bool) \<Rightarrow> mem \<Rightarrow> mem \<times> ap \<Rightarrow> bool"
  for run :: slice and cpu :: nat and env :: "ap \<Rightarrow> mem \<Rightarrow> mem \<Rightarrow> bool" and m0 :: mem
where
  ap_boot: "ap_reach run cpu env m0 (cpu_start (cpu_bank cpu) m0, ap_init)"
| ap_own: "ap_reach run cpu env m0 st \<Longrightarrow> ap_reach run cpu env m0 (ap_step run cpu st)"
| ap_env: "ap_reach run cpu env m0 (m, s) \<Longrightarrow> env s m m' \<Longrightarrow> ap_reach run cpu env m0 (m', s)"

text \<open>
  Dawn writes the eip of a bank only while its CPU is stopped ("the kernel from the CPU0" does,
  hardware.txt): the environment keeps the bank's eip word while the CPU is not halted.
\<close>

definition kernel_env :: "nat \<Rightarrow> ap \<Rightarrow> mem \<Rightarrow> mem \<Rightarrow> bool" where
  "kernel_env cpu s m m' \<longleftrightarrow>
     (ap_halted s \<or> dawn_readram m' (cpu_bank cpu + 8) = dawn_readram m (cpu_bank cpu + 8))"

section \<open>What holds in every reachable state\<close>

lemma bank_disj: "disj8 (cpu_bank c) (cpu_bank c + 8)" "disj8 (cpu_bank c + 8) (cpu_bank c)"
  by (simp_all add: disj8_def)

definition ap_inv :: "nat \<Rightarrow> mem \<times> ap \<Rightarrow> bool" where
  "ap_inv cpu = (\<lambda>(m, s).
     (ap_pc s \<in> {At_run, At_save} \<longrightarrow> \<not> ap_halted s) \<and>
     (ap_pc s \<in> {At_start, At_wait} \<longrightarrow> ap_halted s) \<and>
     (\<not> ap_halted s \<and> ap_pc s \<noteq> At_save \<longrightarrow> dawn_readram m (cpu_bank cpu + 8) = ap_eip s))"

lemma ap_inv_step: "ap_inv cpu st \<Longrightarrow> ap_inv cpu (ap_step run cpu st)"
  by (cases st; cases "ap_pc (snd st)")
    (auto simp: ap_inv_def ap_step_def ap_switch_def Let_def bank_disj split: prod.splits)

lemma ap_inv_reach: "ap_reach run cpu (kernel_env cpu) m0 st \<Longrightarrow> ap_inv cpu st"
proof (induction rule: ap_reach.induct)
  case ap_boot
  show ?case by (simp add: ap_inv_def ap_init_def)
next
  case (ap_own st)
  then show ?case by (simp add: ap_inv_step)
next
  case (ap_env m s m')
  then show ?case by (auto simp: ap_inv_def kernel_env_def)
qed



end
