(* ===== verification/Pmm.thy ===== *)
theory Pmm
  imports Memory Bitmap
begin

text \<open>
  The physical page allocator (pmm.c): a bitmap of 32-bit entries with a bit per page from 16 MiB up,
  set when the page is in use; \<open>kmalloc\<close> and \<open>kmfree\<close>; and \<open>pmm_init\<close>, which places the bitmap in
  the first usable region that holds it and frees what is usable. Page numbers are \<open>size_t\<close>, loops
  over them run over their index. The pages are zeroed through the direct map, at \<open>hhdm_offset\<close>.
\<close>

section \<open>State\<close>

definition PAGE_SIZE :: u64 where "PAGE_SIZE = 0x1000"
definition MEMORY_BASE :: u64 where "MEMORY_BASE = 0x1000000"
definition BITMAP_BASE :: u64 where "BITMAP_BASE = MEMORY_BASE div PAGE_SIZE"

type_synonym bitmap = "u64 \<Rightarrow> u32"

record pmm =
  mem_bitmap :: bitmap
  bitmap_pages :: u64
  max_page :: u64
  last_alloc_page :: u64
  hhdm_offset :: u64
  kernel_phys_base :: u64
  kernel_virt_base :: u64
  phys_mem :: mem

definition rd_bitmap :: "bitmap \<Rightarrow> u64 \<Rightarrow> bool" where
  "rd_bitmap bm i =
     (let i = i - BITMAP_BASE; entry = i div 32; offset = i mod 32
      in drop_bit (unat offset) (bm entry) AND 1 \<noteq> 0)"

definition wr_bitmap :: "bitmap \<Rightarrow> u64 \<Rightarrow> bool \<Rightarrow> bitmap" where
  "wr_bitmap bm i val =
     (let i = i - BITMAP_BASE; entry = i div 32; offset = i mod 32
      in if val then bm(entry := bm entry OR push_bit (unat offset) 1)
         else bm(entry := bm entry AND NOT (push_bit (unat offset) 1)))"

section \<open>Allocation\<close>

text \<open>One of \<open>kmalloc\<close>'s two passes: \<open>n\<close> pages to look at from \<open>i\<close>, \<open>pg_counter\<close> free ones seen.\<close>

fun scan_pages :: "(u64 \<Rightarrow> bool) \<Rightarrow> u64 \<Rightarrow> nat \<Rightarrow> u64 \<Rightarrow> u64 \<Rightarrow> u64 option" where
  "scan_pages used pages 0 i pg_counter = None"
| "scan_pages used pages (Suc n) i pg_counter =
     (let pg_counter = (if \<not> used i then pg_counter + 1 else 0)
      in if pg_counter = pages then Some i else scan_pages used pages n (i + 1) pg_counter)"

definition kmalloc_take :: "u64 \<Rightarrow> u64 \<Rightarrow> pmm \<Rightarrow> u64 \<times> pmm" where
  "kmalloc_take pages i st =
     (let strt_page = i - (pages - 1);
          st = st\<lparr>last_alloc_page := i + 1\<rparr>;
          st = st\<lparr>mem_bitmap := fold (\<lambda>k bm. wr_bitmap bm (strt_page + of_nat k) True) [0..<unat pages] (mem_bitmap st)\<rparr>;
          phys_pages = strt_page * PAGE_SIZE + hhdm_offset st;
          st = st\<lparr>phys_mem := fold (\<lambda>j m. store64 m (phys_pages + 8 * of_nat j) 0)
                                [0..<unat ((pages * PAGE_SIZE) div 8)] (phys_mem st)\<rparr>
      in (strt_page * PAGE_SIZE, st))"

definition kmalloc :: "u64 \<Rightarrow> pmm \<Rightarrow> u64 \<times> pmm" where
  "kmalloc pages st =
     (let start = last_alloc_page st; used = rd_bitmap (mem_bitmap st)
      in case scan_pages used pages (unat (max_page st) - unat start) start 0 of
           Some i \<Rightarrow> kmalloc_take pages i st
         | None \<Rightarrow>
             (case scan_pages used pages (unat start - unat BITMAP_BASE) BITMAP_BASE 0 of
                Some i \<Rightarrow> kmalloc_take pages i st
              | None \<Rightarrow> (0, st)))"

definition pmm_free_pages :: "pmm \<Rightarrow> nat" where
  "pmm_free_pages st =
     fold (\<lambda>k n. if \<not> rd_bitmap (mem_bitmap st) (BITMAP_BASE + of_nat k) then n + 1 else n)
       [0..<unat (max_page st) - unat BITMAP_BASE] 0"

definition kmfree :: "u64 \<Rightarrow> u64 \<Rightarrow> pmm \<Rightarrow> pmm" where
  "kmfree ptr pages st =
     (let strt_page = ptr div PAGE_SIZE
      in st\<lparr>mem_bitmap := fold (\<lambda>k bm. wr_bitmap bm (strt_page + of_nat k) False) [0..<unat pages] (mem_bitmap st)\<rparr>)"

section \<open>The bitmap is a set of pages\<close>

lemma bit_u32_exp: "bit ((2::u32) ^ n) k \<longleftrightarrow> k = n \<and> k < 32"
  by (auto simp: bit_exp_iff possible_bit_def)

lemma rd_bitmap_iff:
  "rd_bitmap bm i \<longleftrightarrow> bit (bm ((i - BITMAP_BASE) div 32)) (unat (i - BITMAP_BASE) mod 32)"
proof -
  have "drop_bit n x AND 1 \<noteq> 0 \<longleftrightarrow> bit x n" for x :: u32 and n
    by (simp add: and_one_eq bit_iff_odd_drop_bit odd_iff_mod_2_eq_one)
  then show ?thesis by (simp add: rd_bitmap_def Let_def unat_mod)
qed

lemma page_split_eq:
  fixes i j :: u64
  assumes "i div 32 = j div 32" "unat i mod 32 = unat j mod 32"
  shows "i = j"
proof -
  have "unat (i div 32) = unat i div 32" "unat (j div 32) = unat j div 32" by (simp_all add: unat_div)
  then have "unat i div 32 = unat j div 32" using assms(1) by metis
  then show ?thesis using assms(2) by (metis div_mult_mod_eq word_unat_eq_iff)
qed

lemma rd_wr_bitmap [simp]:
  "rd_bitmap (wr_bitmap bm i True) j \<longleftrightarrow> j = i \<or> rd_bitmap bm j"
  "rd_bitmap (wr_bitmap bm i False) j \<longleftrightarrow> j \<noteq> i \<and> rd_bitmap bm j"
proof -
  define a b where "a = i - BITMAP_BASE" and "b = j - BITMAP_BASE"
  have ab: "j = i \<longleftrightarrow> b = a" by (simp add: a_def b_def)
  have "(rd_bitmap (wr_bitmap bm i True) j \<longleftrightarrow> j = i \<or> rd_bitmap bm j) \<and>
    (rd_bitmap (wr_bitmap bm i False) j \<longleftrightarrow> j \<noteq> i \<and> rd_bitmap bm j)"
  proof (cases "b div 32 = a div 32")
    case True
    then have "b = a \<longleftrightarrow> unat b mod 32 = unat a mod 32" using page_split_eq by blast
    then show ?thesis using True
      unfolding rd_bitmap_iff ab a_def [symmetric] b_def [symmetric]
      by (auto simp: wr_bitmap_def Let_def a_def [symmetric] bit_or_iff bit_and_iff bit_not_iff
          bit_u32_exp unat_mod)
  next
    case False
    then show ?thesis
      unfolding rd_bitmap_iff ab a_def [symmetric] b_def [symmetric]
      by (auto simp: wr_bitmap_def Let_def a_def [symmetric])
  qed
  then show "rd_bitmap (wr_bitmap bm i True) j \<longleftrightarrow> j = i \<or> rd_bitmap bm j"
    "rd_bitmap (wr_bitmap bm i False) j \<longleftrightarrow> j \<noteq> i \<and> rd_bitmap bm j" by blast+
qed

interpretation pages: word_set rd_bitmap "\<lambda>bm i. wr_bitmap bm i True" "\<lambda>bm i. wr_bitmap bm i False"
  by unfold_locales simp_all

lemma rd_fold_wr:
  "rd_bitmap (fold (\<lambda>k bm. wr_bitmap bm (p + of_nat k) True) ks bm) j \<longleftrightarrow> (\<exists>k\<in>set ks. j = p + of_nat k) \<or> rd_bitmap bm j"
  "rd_bitmap (fold (\<lambda>k bm. wr_bitmap bm (p + of_nat k) False) ks bm) j \<longleftrightarrow> (\<forall>k\<in>set ks. j \<noteq> p + of_nat k) \<and> rd_bitmap bm j"
  by (induction ks arbitrary: bm) auto

section \<open>Scanning\<close>

text \<open>A run of \<open>pages\<close> free pages from \<open>p\<close>.\<close>

definition free_run :: "(u64 \<Rightarrow> bool) \<Rightarrow> nat \<Rightarrow> nat \<Rightarrow> bool" where
  "free_run used p n \<longleftrightarrow> (\<forall>k<n. \<not> used (of_nat (p + k)))"

lemma scan_pages_run:
  assumes "unat pages = P" "0 < P" "c < P" "c \<le> i" "free_run used (i - c) c"
    and "lo + c \<le> i" "i + n < 2 ^ 64"
  shows "case scan_pages used pages n (of_nat i) (of_nat c) of
      Some j \<Rightarrow> lo + P \<le> unat j + 1 \<and> unat j < i + n \<and> free_run used (unat j + 1 - P) P
    | None \<Rightarrow> \<forall>p. i - c \<le> p \<longrightarrow> p + P \<le> i + n \<longrightarrow> \<not> free_run used p P"
  using assms
proof (induction n arbitrary: i c)
  case 0
  show ?case
  proof (simp, intro allI impI)
    fix p assume "i - c \<le> p" "p + P \<le> i"
    then show "\<not> free_run used p P" using 0 by linarith
  qed
next
  case (Suc n)
  have i64: "unat (of_nat i :: u64) = i" "unat (of_nat c :: u64) = c"
    using Suc.prems by (simp_all add: unat_of_nat_u64)
  have c1: "(of_nat c + 1 :: u64) = of_nat (Suc c)" and i1: "(of_nat i + 1 :: u64) = of_nat (Suc i)" by simp_all
  show ?case
  proof (cases "used (of_nat i)")
    case True
    have ne: "(0 :: u64) \<noteq> pages" using Suc.prems(1,2) by auto
    have IH: "case scan_pages used pages n (of_nat (Suc i)) (of_nat 0) of
      Some j \<Rightarrow> lo + P \<le> unat j + 1 \<and> unat j < Suc i + n \<and> free_run used (unat j + 1 - P) P
    | None \<Rightarrow> \<forall>p. Suc i - 0 \<le> p \<longrightarrow> p + P \<le> Suc i + n \<longrightarrow> \<not> free_run used p P"
      using Suc.prems True by (intro Suc.IH) (auto simp: free_run_def)
    have over: "\<not> free_run used p P" if "p \<le> i" "i < p + P" for p
    proof
      assume "free_run used p P"
      moreover have "i - p < P" using that by linarith
      ultimately have "\<not> used (of_nat (p + (i - p)))" unfolding free_run_def by blast
      moreover have "p + (i - p) = i" using that by simp
      ultimately show False using True by simp
    qed
    have e: "scan_pages used pages (Suc n) (of_nat i) (of_nat c) = scan_pages used pages n (of_nat (Suc i)) (of_nat 0)"
      using ne True by (simp add: Let_def i1 del: of_nat_Suc)
    show ?thesis
    proof (cases "scan_pages used pages n (of_nat (Suc i)) (of_nat 0)")
      case None
      have "\<not> free_run used p P" if "i - c \<le> p" "p + P \<le> i + Suc n" for p
      proof (cases "p \<le> i")
        case True
        have "i < p + P" using that(1) Suc.prems(3) by linarith
        then show ?thesis by (rule over [OF True])
      next
        case False
        then show ?thesis using IH None that(2) by simp
      qed
      then show ?thesis unfolding e None by simp
    next
      case (Some j)
      then show ?thesis using IH unfolding e by simp
    qed
  next
    case False
    have run: "free_run used (i - c) (Suc c)"
      using Suc.prems(4,5) False by (auto simp: free_run_def less_Suc_eq)
    show ?thesis
    proof (cases "Suc c = P")
      case True
      then have "of_nat (Suc c) = pages" using Suc.prems(1) by (metis of_nat_unat ucast_id)
      moreover have "Suc i - P = i - c" using True Suc.prems(4) by linarith
      ultimately show ?thesis using True False run Suc.prems i64 by (simp add: Let_def c1 flip: of_nat_Suc)
    next
      case lt: False
      have "unat (of_nat (Suc c) :: u64) = Suc c"
        using Suc.prems(3,6,7) by (intro unat_of_nat_u64) simp
      then have "of_nat (Suc c) \<noteq> pages" using lt Suc.prems(1) by auto
      moreover have "case scan_pages used pages n (of_nat (Suc i)) (of_nat (Suc c)) of
      Some j \<Rightarrow> lo + P \<le> unat j + 1 \<and> unat j < Suc i + n \<and> free_run used (unat j + 1 - P) P
    | None \<Rightarrow> \<forall>p. Suc i - Suc c \<le> p \<longrightarrow> p + P \<le> Suc i + n \<longrightarrow> \<not> free_run used p P"
        using Suc.prems lt run by (intro Suc.IH) auto
      ultimately show ?thesis using False by (simp add: Let_def c1 i1 del: of_nat_Suc split: option.splits)
    qed
  qed
qed


section \<open>Allocating and freeing\<close>

text \<open>The hint and the number of pages tracked; a page is allocated, or not known free, when its bit is set.\<close>

definition pmm_ok :: "pmm \<Rightarrow> bool" where
  "pmm_ok st \<longleftrightarrow>
     unat BITMAP_BASE \<le> unat (last_alloc_page st) \<and> unat (last_alloc_page st) \<le> unat (max_page st) \<and>
     unat (max_page st) \<le> 2 ^ 40"

text \<open>The direct map of the memory tracked ends inside the address space.\<close>

definition hhdm_ok :: "pmm \<Rightarrow> bool" where
  "hhdm_ok st \<longleftrightarrow> unat (hhdm_offset st) + 4096 * unat (max_page st) < 2 ^ 64"

abbreviation page_used :: "pmm \<Rightarrow> u64 \<Rightarrow> bool" where
  "page_used st \<equiv> rd_bitmap (mem_bitmap st)"

lemma base_unat: "unat BITMAP_BASE = 4096" "BITMAP_BASE = 4096"
  by (simp_all add: BITMAP_BASE_def MEMORY_BASE_def PAGE_SIZE_def)

lemma zero_words:
  "unat a + 8 * n \<le> 2 ^ 64 \<Longrightarrow>
     fold (\<lambda>j m. store64 m (a + 8 * of_nat j) 0) [0..<n] m x = (if unat (x - a) < 8 * n then 0 else m x)"
proof (induction n)
  case 0
  then show ?case by simp
next
  case (Suc n)
  have "x - (a + 8 * of_nat n) < 8 \<longleftrightarrow> 8 * n \<le> unat (x - a) \<and> unat (x - a) < 8 * n + 8"
  proof -
    define y where "y = x - a"
    have e: "x - (a + 8 * of_nat n) = y - of_nat (8 * n)" by (simp add: y_def)
    have u: "unat (of_nat (8 * n) :: u64) = 8 * n" using Suc.prems by (intro unat_of_nat_u64) simp
    show ?thesis
    proof (cases "8 * n \<le> unat y")
      case True
      then have "(of_nat (8 * n) :: u64) \<le> y" by (simp only: word_le_nat_alt u)
      then have "unat (y - of_nat (8 * n)) = unat y - 8 * n" by (simp only: unat_diff_le u)
      then show ?thesis unfolding e using True by (auto simp: word_less_nat_alt y_def [symmetric])
    next
      case False
      then have "y < (of_nat (8 * n) :: u64)" by (simp only: word_less_nat_alt u)
      then have "unat (y - of_nat (8 * n)) = 2 ^ 64 + unat y - 8 * n" using unat_diff_wrap [of y "of_nat (8 * n)"] by (simp only: u) simp
      then show ?thesis unfolding e using False Suc.prems by (auto simp: word_less_nat_alt y_def [symmetric])
    qed
  qed
  then show ?case using Suc by (auto simp: store64_def)
qed

lemma kmalloc_take_props:
  assumes P: "unat pages = P" "0 < P" and ok: "pmm_ok st"
    and i: "4096 + P \<le> unat i + 1" "unat i < unat (max_page st)"
  defines "s \<equiv> unat i + 1 - P"
  shows "unat (fst (kmalloc_take pages i st)) = 4096 * s"
    "page_used (snd (kmalloc_take pages i st)) j \<longleftrightarrow> s \<le> unat j \<and> unat j < s + P \<or> page_used st j"
    "pmm_ok (snd (kmalloc_take pages i st))"
    "max_page (snd (kmalloc_take pages i st)) = max_page st"
    "hhdm_offset (snd (kmalloc_take pages i st)) = hhdm_offset st"
    "hhdm_ok st \<Longrightarrow>
       phys_mem (snd (kmalloc_take pages i st)) x =
         (if unat (x - (hhdm_offset st + fst (kmalloc_take pages i st))) < 4096 * P then 0 else phys_mem st x)"
proof -
  have mx: "unat (max_page st) \<le> 2 ^ 40" using ok by (simp add: pmm_ok_def)
  define p where "p = i - (pages - 1)"
  have p1: "unat (pages - 1) = P - 1" using P by (simp add: unat_minus_one unat_eq_zero [symmetric])
  have "pages - 1 \<le> i" using i P by (simp add: word_le_nat_alt p1)
  then have p: "unat p = s" using i P by (simp add: p_def unat_diff_le p1 s_def)
  have s: "s \<le> 2 ^ 40" "P \<le> 2 ^ 40" "s + P \<le> 2 ^ 40" "4096 \<le> s" using i mx by (simp_all add: s_def)
  have ret: "fst (kmalloc_take pages i st) = p * PAGE_SIZE" by (simp add: kmalloc_take_def Let_def p_def)
  have pu: "unat (p * PAGE_SIZE) = 4096 * s"
    using s by (simp add: PAGE_SIZE_def unat_word_ariths p)
  then show "unat (fst (kmalloc_take pages i st)) = 4096 * s" by (simp only: ret)
  have "(\<exists>k\<in>set [0..<P]. j = p + of_nat k) \<longleftrightarrow> s \<le> unat j \<and> unat j < s + P"
  proof
    assume "\<exists>k\<in>set [0..<P]. j = p + of_nat k"
    then obtain k where k: "k < P" "j = p + of_nat k" by auto
    then have "unat j = s + k" using s by (simp add: unat_add_of_nat p)
    then show "s \<le> unat j \<and> unat j < s + P" using k by simp
  next
    assume j: "s \<le> unat j \<and> unat j < s + P"
    have "j = p + of_nat (unat j - s)" using j p by (simp add: of_nat_diff) (metis p of_nat_unat ucast_id add_diff_cancel_left' diff_add_cancel)
    then show "\<exists>k\<in>set [0..<P]. j = p + of_nat k" using j by (intro bexI [of _ "unat j - s"]) auto
  qed
  then show "page_used (snd (kmalloc_take pages i st)) j \<longleftrightarrow> s \<le> unat j \<and> unat j < s + P \<or> page_used st j"
    by (simp add: kmalloc_take_def Let_def p_def [symmetric] rd_fold_wr P(1) del: set_upt)
  have "unat (i + 1) = unat i + 1" using i mx by (subst unat_add_no_wrap) simp_all
  then show "pmm_ok (snd (kmalloc_take pages i st))"
    using i mx ok by (simp add: kmalloc_take_def Let_def pmm_ok_def base_unat)
  show "max_page (snd (kmalloc_take pages i st)) = max_page st"
    "hhdm_offset (snd (kmalloc_take pages i st)) = hhdm_offset st"
    by (simp_all add: kmalloc_take_def Let_def)
  assume "hhdm_ok st"
  then have hh: "unat (hhdm_offset st) + 4096 * (s + P) \<le> 2 ^ 64"
    using i unfolding hhdm_ok_def s_def by simp
  have "unat (pages * PAGE_SIZE) = 4096 * P" using s by (simp add: PAGE_SIZE_def unat_word_ariths P(1))
  then have n: "unat ((pages * PAGE_SIZE) div 8) = 512 * P" by (simp add: unat_div)
  have a: "unat (p * PAGE_SIZE + hhdm_offset st) = 4096 * s + unat (hhdm_offset st)"
    using hh P(2) pu by (subst unat_add_no_wrap) simp_all
  have "unat (p * PAGE_SIZE + hhdm_offset st) + 8 * (512 * P) \<le> 2 ^ 64" unfolding a using hh s by simp
  then show "phys_mem (snd (kmalloc_take pages i st)) x =
         (if unat (x - (hhdm_offset st + fst (kmalloc_take pages i st))) < 4096 * P then 0 else phys_mem st x)"
    unfolding ret using zero_words [of "p * PAGE_SIZE + hhdm_offset st" "512 * P"]
    by (simp add: kmalloc_take_def Let_def p_def [symmetric] n add.commute)
qed

lemma kmalloc_cases:
  assumes ok: "pmm_ok st" and P: "unat pages = P" "0 < P"
  obtains (none) "kmalloc pages st = (0, st)"
      "\<forall>p. unat (last_alloc_page st) \<le> p \<longrightarrow> p + P \<le> unat (max_page st) \<longrightarrow> \<not> free_run (page_used st) p P"
      "\<forall>p. 4096 \<le> p \<longrightarrow> p + P \<le> unat (last_alloc_page st) \<longrightarrow> \<not> free_run (page_used st) p P"
  | (found) i where "kmalloc pages st = kmalloc_take pages i st"
      "4096 + P \<le> unat i + 1" "unat i < unat (max_page st)" "free_run (page_used st) (unat i + 1 - P) P"
proof -
  define start where "start = unat (last_alloc_page st)"
  define mx where "mx = unat (max_page st)"
  have b: "4096 \<le> start" "start \<le> mx" "mx \<le> 2 ^ 40"
    using ok by (simp_all add: pmm_ok_def base_unat start_def mx_def)
  have 1: "case scan_pages (page_used st) pages (mx - start) (of_nat start) (of_nat 0) of
      Some j \<Rightarrow> 4096 + P \<le> unat j + 1 \<and> unat j < start + (mx - start) \<and> free_run (page_used st) (unat j + 1 - P) P
    | None \<Rightarrow> \<forall>p. start - 0 \<le> p \<longrightarrow> p + P \<le> start + (mx - start) \<longrightarrow> \<not> free_run (page_used st) p P"
    using b P by (intro scan_pages_run) (auto simp: free_run_def)
  have 2: "case scan_pages (page_used st) pages (start - 4096) (of_nat 4096) (of_nat 0) of
      Some j \<Rightarrow> 4096 + P \<le> unat j + 1 \<and> unat j < 4096 + (start - 4096) \<and> free_run (page_used st) (unat j + 1 - P) P
    | None \<Rightarrow> \<forall>p. 4096 - 0 \<le> p \<longrightarrow> p + P \<le> 4096 + (start - 4096) \<longrightarrow> \<not> free_run (page_used st) p P"
    using b P by (intro scan_pages_run) (auto simp: free_run_def)
  have s: "of_nat start = last_alloc_page st" by (simp add: start_def)
  show thesis
  proof (cases "scan_pages (page_used st) pages (mx - start) (last_alloc_page st) 0")
    case (Some i)
    then show thesis using 1 b by (intro found [of i]) (auto simp: kmalloc_def Let_def s mx_def [symmetric] start_def [symmetric])
  next
    case n1: None
    show thesis
    proof (cases "scan_pages (page_used st) pages (start - 4096) 4096 0")
      case (Some i)
      then show thesis using 2 n1 b
        by (intro found [of i]) (auto simp: kmalloc_def Let_def s mx_def [symmetric] start_def [symmetric] base_unat)
    next
      case None
      then show thesis using 1 2 n1 b
        by (intro none) (auto simp: kmalloc_def Let_def s mx_def [symmetric] start_def [symmetric] base_unat)
    qed
  qed
qed

lemma free_run_unat:
  assumes "free_run used s P" "s \<le> unat j" "unat j < s + P"
  shows "\<not> used j"
proof -
  have "\<not> used (of_nat (s + (unat j - s)))" using assms unfolding free_run_def by (metis add_less_imp_less_left le_add_diff_inverse)
  then show ?thesis using assms(2) by simp
qed

lemma kmalloc_spec:
  assumes "pmm_ok st" and "pages \<noteq> 0" and "hhdm_ok st"
    and "kmalloc pages st = (p, st')"
  shows "if p = 0 then st' = st \<and>
      (\<forall>s. (unat (last_alloc_page st) \<le> s \<and> s + unat pages \<le> unat (max_page st) \<or>
            4096 \<le> s \<and> s + unat pages \<le> unat (last_alloc_page st)) \<longrightarrow> \<not> free_run (page_used st) s (unat pages))
    else pmm_ok st' \<and> (\<exists>s. unat p = 4096 * s \<and> 4096 \<le> s \<and> s + unat pages \<le> unat (max_page st) \<and>
      free_run (page_used st) s (unat pages) \<and>
      (\<forall>j. page_used st' j \<longleftrightarrow> s \<le> unat j \<and> unat j < s + unat pages \<or> page_used st j) \<and>
      (\<forall>x. phys_mem st' x = (if unat (x - (hhdm_offset st + p)) < 4096 * unat pages then 0 else phys_mem st x)))"
proof -
  define P where "P = unat pages"
  have P: "unat pages = P" "0 < P" using assms(2) by (simp_all add: P_def unat_gt_0)
  show ?thesis
  proof (rule kmalloc_cases [OF assms(1) P])
    assume n: "kmalloc pages st = (0, st)"
      "\<forall>p. unat (last_alloc_page st) \<le> p \<longrightarrow> p + P \<le> unat (max_page st) \<longrightarrow> \<not> free_run (page_used st) p P"
      "\<forall>p. 4096 \<le> p \<longrightarrow> p + P \<le> unat (last_alloc_page st) \<longrightarrow> \<not> free_run (page_used st) p P"
    then have "p = 0" "st' = st" using assms(4) by simp_all
    then show ?thesis using n(2,3) by (simp add: P_def)
  next
    fix i assume i: "kmalloc pages st = kmalloc_take pages i st" "4096 + P \<le> unat i + 1" "unat i < unat (max_page st)"
      "free_run (page_used st) (unat i + 1 - P) P"
    have e: "p = fst (kmalloc_take pages i st)" "st' = snd (kmalloc_take pages i st)"
      using i(1) assms(4) by (metis fst_conv, metis snd_conv)
    note props = kmalloc_take_props [OF P assms(1) i(2,3)]
    have p: "unat p = 4096 * (unat i + 1 - P)" unfolding e by (rule props(1))
    then have "p \<noteq> 0" using i(2) by auto
    moreover have "\<exists>s. unat p = 4096 * s \<and> 4096 \<le> s \<and> s + P \<le> unat (max_page st) \<and> free_run (page_used st) s P \<and>
      (\<forall>j. page_used st' j \<longleftrightarrow> s \<le> unat j \<and> unat j < s + P \<or> page_used st j) \<and>
      (\<forall>x. phys_mem st' x = (if unat (x - (hhdm_offset st + p)) < 4096 * P then 0 else phys_mem st x))"
    proof (intro exI conjI allI)
      show "unat p = 4096 * (unat i + 1 - P)" by (rule p)
      show "4096 \<le> unat i + 1 - P" "unat i + 1 - P + P \<le> unat (max_page st)" using i(2,3) by simp_all
      show "free_run (page_used st) (unat i + 1 - P) P" by (rule i(4))
      fix j x
      show "page_used st' j \<longleftrightarrow> unat i + 1 - P \<le> unat j \<and> unat j < unat i + 1 - P + P \<or> page_used st j"
        unfolding e by (rule props(2))
      show "phys_mem st' x = (if unat (x - (hhdm_offset st + p)) < 4096 * P then 0 else phys_mem st x)"
        unfolding e by (rule props(6) [OF assms(3)])
    qed
    ultimately show ?thesis using props(3) by (simp add: P_def e(2))
  qed
qed

text \<open>
  C9: \<open>kmalloc\<close> returns a run of pages that were all free, inside the pages tracked, marks exactly
  those used, and clears exactly their memory; or it returns NULL and changes nothing, and there was
  no such run between its hint and the end, nor between the start and its hint.
\<close>

theorem kmalloc_correct:
  assumes "pmm_ok st" and "pages \<noteq> 0" and "hhdm_ok st"
    and "kmalloc pages st = (p, st')"
  shows "if p = 0 then st' = st \<and>
      (\<forall>s. (unat (last_alloc_page st) \<le> s \<and> s + unat pages \<le> unat (max_page st) \<or>
            4096 \<le> s \<and> s + unat pages \<le> unat (last_alloc_page st)) \<longrightarrow> \<not> free_run (page_used st) s (unat pages))
    else pmm_ok st' \<and> (\<exists>s. unat p = 4096 * s \<and> 4096 \<le> s \<and> s + unat pages \<le> unat (max_page st) \<and>
      free_run (page_used st) s (unat pages) \<and>
      (\<forall>j. page_used st' j \<longleftrightarrow> s \<le> unat j \<and> unat j < s + unat pages \<or> page_used st j) \<and>
      (\<forall>x. phys_mem st' x = (if unat (x - (hhdm_offset st + p)) < 4096 * unat pages then 0 else phys_mem st x)))"
  using assms by (rule kmalloc_spec)

lemma kmalloc_frame:
  "kmalloc n st = (p, st') \<Longrightarrow> hhdm_offset st' = hhdm_offset st \<and> max_page st' = max_page st"
  by (auto simp: kmalloc_def kmalloc_take_def Let_def split: option.splits)

text \<open>A byte of one run of pages, seen from the start of another.\<close>

lemma runs_far:
  fixes A P :: u64
  assumes "unat A = h + 4096 * s" "unat P = h + 4096 * t" "s + n + 1 \<le> mx" "t + k + 1 \<le> mx"
    and "s + n + 1 \<le> t \<or> t + k + 1 \<le> s" "h + 4096 * mx \<le> 2 ^ 64" "i < 4096 * (n + 1)"
  shows "4096 * (k + 1) \<le> unat (A + of_nat i - P)"
proof -
  have "i + 4096 * s < 4096 * mx" using assms(3,7) by simp
  then have a: "unat (A + of_nat i) = h + 4096 * s + i"
    using assms(1,6) by (subst unat_add_of_nat) simp_all
  show ?thesis
  proof (cases "P \<le> A + of_nat i")
    case True
    then have "unat (A + of_nat i - P) = h + 4096 * s + i - (h + 4096 * t)"
      by (simp only: unat_diff_le a assms(2))
    moreover have "t + k + 1 \<le> s" using True assms(2,5,7) a by (simp add: word_le_nat_alt)
    ultimately show ?thesis by simp
  next
    case False
    then have "unat (A + of_nat i - P) = 2 ^ LENGTH(64) + unat (A + of_nat i) - unat P"
      by (intro unat_diff_wrap) simp
    then have "unat (A + of_nat i - P) = 2 ^ 64 + (h + 4096 * s + i) - (h + 4096 * t)"
      by (simp only: a assms(2)) simp
    then show ?thesis using assms(4,6) by simp
  qed
qed

lemma kmfree_used:
  assumes "unat p = 4096 * s" "s + unat n \<le> 2 ^ 60"
  shows "page_used (kmfree p n st) j \<longleftrightarrow> page_used st j \<and> \<not> (s \<le> unat j \<and> unat j < s + unat n)"
proof -
  have q: "unat (p div PAGE_SIZE) = s" using assms(1) by (simp add: unat_div PAGE_SIZE_def)
  have "(\<exists>k\<in>set [0..<unat n]. j = p div PAGE_SIZE + of_nat k) \<longleftrightarrow> s \<le> unat j \<and> unat j < s + unat n"
  proof
    assume "\<exists>k\<in>set [0..<unat n]. j = p div PAGE_SIZE + of_nat k"
    then obtain k where k: "k < unat n" "j = p div PAGE_SIZE + of_nat k" by auto
    then have "unat j = s + k" using assms(2) by (simp add: unat_add_of_nat q)
    then show "s \<le> unat j \<and> unat j < s + unat n" using k by simp
  next
    assume j: "s \<le> unat j \<and> unat j < s + unat n"
    have "unat (p div PAGE_SIZE + of_nat (unat j - s)) = s + (unat j - s)"
      using j assms(2) by (subst unat_add_of_nat) (simp_all add: q)
    then have "j = p div PAGE_SIZE + of_nat (unat j - s)" using j by (simp add: word_unat_eq_iff)
    then show "\<exists>k\<in>set [0..<unat n]. j = p div PAGE_SIZE + of_nat k" using j by (intro bexI [of _ "unat j - s"]) auto
  qed
  then show ?thesis by (auto simp: kmfree_def Let_def rd_fold_wr simp del: set_upt)
qed

lemma kmfree_ok [simp]: "pmm_ok (kmfree p n st) = pmm_ok st" "max_page (kmfree p n st) = max_page st"
  "hhdm_offset (kmfree p n st) = hhdm_offset st"
  by (simp_all add: kmfree_def pmm_ok_def Let_def)


section \<open>Owners\<close>

text \<open>
  Everything that can happen to the allocator: the runs handed out and not yet given back, as first
  page and number of pages.
\<close>

inductive pmm_reach :: "pmm \<Rightarrow> pmm \<Rightarrow> (nat \<times> nat) list \<Rightarrow> bool" for st0 :: pmm where
  pmm_start: "pmm_reach st0 st0 []"
| pmm_alloc: "pmm_reach st0 st os \<Longrightarrow> pages \<noteq> 0 \<Longrightarrow> kmalloc pages st = (p, st') \<Longrightarrow> p \<noteq> 0 \<Longrightarrow>
    pmm_reach st0 st' ((unat p div 4096, unat pages) # os)"
| pmm_fail: "pmm_reach st0 st os \<Longrightarrow> pages \<noteq> 0 \<Longrightarrow> kmalloc pages st = (0, st') \<Longrightarrow> pmm_reach st0 st' os"
| pmm_free: "pmm_reach st0 st os \<Longrightarrow> (s, n) \<in> set os \<Longrightarrow> unat p = 4096 * s \<Longrightarrow> unat pages = n \<Longrightarrow>
    pmm_reach st0 (kmfree p pages st) (remove1 (s, n) os)"

inductive_cases pmm_reach_cases: "pmm_reach st0 st os"

definition owned :: "(nat \<times> nat) list \<Rightarrow> nat list" where
  "owned os = concat (map (\<lambda>(s, n). [s..<s + n]) os)"

lemma owned_Cons [simp]: "owned ((s, n) # os) = [s..<s + n] @ owned os"
  by (simp add: owned_def)

lemma owned_remove:
  "distinct (owned os) \<Longrightarrow> (s, n) \<in> set os \<Longrightarrow>
     distinct (owned (remove1 (s, n) os)) \<and> set (owned (remove1 (s, n) os)) = set (owned os) - {s..<s + n}"
proof (induction os)
  case Nil
  then show ?case by simp
next
  case (Cons o1 os)
  obtain s1 n1 where o1: "o1 = (s1, n1)" by (cases o1)
  show ?case
  proof (cases "o1 = (s, n)")
    case True
    then show ?thesis using Cons.prems by auto
  next
    case False
    then have i: "(s, n) \<in> set os" using Cons.prems(2) by auto
    have "{s..<s + n} \<subseteq> set (owned os)" using i by (force simp: owned_def)
    then show ?thesis using False Cons.IH i Cons.prems(1) by (auto simp: o1)
  qed
qed

definition owners_ok :: "pmm \<Rightarrow> pmm \<Rightarrow> (nat \<times> nat) list \<Rightarrow> bool" where
  "owners_ok st0 st os \<longleftrightarrow>
     pmm_ok st \<and> max_page st = max_page st0 \<and> hhdm_offset st = hhdm_offset st0 \<and> distinct (owned os) \<and>
     (\<forall>k\<in>set (owned os). 4096 \<le> k \<and> k < unat (max_page st0) \<and> \<not> page_used st0 (of_nat k)) \<and>
     (\<forall>j. page_used st j \<longleftrightarrow> page_used st0 j \<or> unat j \<in> set (owned os))"

lemma owners_alloc:
  assumes inv: "owners_ok st0 st os" and m: "pages \<noteq> 0" "kmalloc pages st = (p, st')" "p \<noteq> 0"
  shows "owners_ok st0 st' ((unat p div 4096, unat pages) # os)"
proof -
  define P where "P = unat pages"
  have P: "unat pages = P" "0 < P" using m(1) by (simp_all add: P_def unat_gt_0)
  have ok: "pmm_ok st" using inv by (simp add: owners_ok_def)
  obtain i where i: "kmalloc pages st = kmalloc_take pages i st" "4096 + P \<le> unat i + 1" "unat i < unat (max_page st)"
      "free_run (page_used st) (unat i + 1 - P) P"
    using kmalloc_cases [OF ok P] m(2,3) by (metis prod.inject)
  have e: "p = fst (kmalloc_take pages i st)" "st' = snd (kmalloc_take pages i st)"
    using i(1) m(2) by (metis fst_conv, metis snd_conv)
  define s where "s = unat i + 1 - P"
  note props = kmalloc_take_props [OF P ok i(2,3), folded s_def e]
  have q: "unat p div 4096 = s" using props(1) by simp
  have mx: "unat (max_page st) \<le> 2 ^ 40" using ok by (simp add: pmm_ok_def)
  have sP: "4096 \<le> s" "s + P \<le> unat (max_page st)" using i(2,3) by (simp_all add: s_def)
  have k64: "unat (of_nat k :: u64) = k" if "k < s + P" for k using that sP mx by (intro unat_of_nat_u64) simp
  have free: "\<not> page_used st (of_nat k)" if "s \<le> k" "k < s + P" for k
    using free_run_unat [OF i(4) [folded s_def], of "of_nat k"] that k64 [OF that(2)] by simp
  have "{s..<s + P} \<inter> set (owned os) = {}"
  proof -
    have "k \<notin> set (owned os)" if "s \<le> k" "k < s + P" for k
      using free [OF that] inv k64 [OF that(2)] by (auto simp: owners_ok_def)
    then show ?thesis by auto
  qed
  moreover have "\<not> page_used st0 (of_nat k)" if "s \<le> k" "k < s + P" for k
    using free [OF that] inv by (auto simp: owners_ok_def)
  ultimately show ?thesis
    using inv props(2-5) sP unfolding owners_ok_def q P_def [symmetric] owned_Cons
    by (auto simp: P)
qed

lemma owners_free:
  assumes inv: "owners_ok st0 st os" and f: "(s, n) \<in> set os" "unat p = 4096 * s" "unat pages = n"
  shows "owners_ok st0 (kmfree p pages st) (remove1 (s, n) os)"
proof -
  have d: "distinct (owned os)" using inv by (simp add: owners_ok_def)
  have sub: "{s..<s + n} \<subseteq> set (owned os)" using f(1) by (force simp: owned_def)
  have n50: "s + unat pages \<le> 2 ^ 60"
  proof (cases "n = 0")
    case True
    then show ?thesis using f(2,3) unat_u64_bound [of p] by simp
  next
    case False
    then have "s + n - 1 \<in> set (owned os)" using sub by (auto simp: subset_iff)
    then have "s + n - 1 < unat (max_page st0)" "unat (max_page st0) \<le> 2 ^ 40"
      using inv by (auto simp: owners_ok_def pmm_ok_def)
    then show ?thesis using f(3) by simp
  qed
  have u: "page_used (kmfree p pages st) j \<longleftrightarrow> page_used st j \<and> \<not> (s \<le> unat j \<and> unat j < s + n)" for j
    using kmfree_used [OF f(2) n50] f(3) by simp
  have "page_used st0 j \<Longrightarrow> \<not> (s \<le> unat j \<and> unat j < s + n)" for j
  proof
    assume j: "page_used st0 j" "s \<le> unat j \<and> unat j < s + n"
    then have "unat j \<in> set (owned os)" using sub by auto
    then have "\<not> page_used st0 (of_nat (unat j))" using inv unfolding owners_ok_def by blast
    then show False using j(1) by simp
  qed
  then show ?thesis
    using inv owned_remove [OF d f(1)] unfolding owners_ok_def u kmfree_ok by auto
qed

lemma owners_reach: "pmm_reach st0 st os \<Longrightarrow> pmm_ok st0 \<Longrightarrow> owners_ok st0 st os"
proof (induction rule: pmm_reach.induct)
  case pmm_start
  then show ?case by (simp add: owners_ok_def owned_def)
next
  case (pmm_alloc st os pages p st')
  then show ?case by (simp add: owners_alloc)
next
  case (pmm_fail st os pages st')
  then have inv: "owners_ok st0 st os" by simp
  have P: "unat pages = unat pages" "0 < unat pages" using pmm_fail.hyps(2) by (simp_all add: unat_gt_0)
  have ok: "pmm_ok st" using inv by (simp add: owners_ok_def)
  have "st' = st"
  proof (rule kmalloc_cases [OF ok P])
    assume "kmalloc pages st = (0, st)"
    then show ?thesis using pmm_fail.hyps(3) by simp
  next
    fix i assume i: "kmalloc pages st = kmalloc_take pages i st" "4096 + unat pages \<le> unat i + 1" "unat i < unat (max_page st)"
    have "unat (fst (kmalloc_take pages i st)) = 4096 * (unat i + 1 - unat pages)"
      using kmalloc_take_props(1) [OF P ok i(2,3)] .
    moreover have "fst (kmalloc_take pages i st) = 0" using i(1) pmm_fail.hyps(3) by (metis fst_conv)
    ultimately show ?thesis using i(2) P(2) by simp
  qed
  then show ?case using inv by simp
next
  case (pmm_free st os s n p pages)
  then show ?case by (simp add: owners_free)
qed

text \<open>
  C10: Whatever sequence of \<open>kmalloc\<close> calls, and of \<open>kmfree\<close> calls giving back what they returned: no
  page is ever handed out twice, none that was in use at the start is handed out, and a page is marked
  used exactly when it was at the start or an owner has it; giving everything back frees it again.
\<close>

theorem kmalloc_exclusive:
  assumes "pmm_reach st0 st os" and "pmm_ok st0"
  shows "distinct (owned os) \<and>
    (\<forall>j. page_used st j \<longleftrightarrow> page_used st0 j \<or> unat j \<in> set (owned os)) \<and>
    (\<forall>k\<in>set (owned os). 4096 \<le> k \<and> k < unat (max_page st) \<and> \<not> page_used st0 (of_nat k))"
  using owners_reach [OF assms] by (simp add: owners_ok_def)

end
