(* ===== verification/Pmm_Init.thy ===== *)
theory Pmm_Init
  imports Pmm
begin

text \<open>
  \<open>pmm_init\<close> (pmm.c): the checks of the bootloader's answers, the size and place of the page bitmap, and
  the pass that frees the usable pages of the memory map. The bitmap is a state component of its own;
  that it lies in memory no page of which is free is part of what is proved.
\<close>

section \<open>The bootloader's answers\<close>

datatype memmap_type =
  MEMMAP_USABLE | MEMMAP_BOOTLOADER_RECLAIMABLE | MEMMAP_EXECUTABLE_AND_MODULES | MEMMAP_FRAMEBUFFER
| MEMMAP_ACPI_RECLAIMABLE | MEMMAP_ACPI_NVS | MEMMAP_RESERVED_MAPPED | MEMMAP_OTHER

record memmap_entry =
  me_base :: u64
  me_length :: u64
  me_type :: memmap_type

text \<open>\<open>None\<close> where the response is NULL; \<open>li_file\<close> is whether the executable file is there.\<close>

record limine =
  li_hhdm :: "u64 option"
  li_exec_addr :: "(u64 \<times> u64) option"
  li_file :: "bool option"
  li_memmap :: "memmap_entry list option"

section \<open>pmm_init\<close>

definition highest_usable :: "memmap_entry list \<Rightarrow> u64" where
  "highest_usable es =
     fold (\<lambda>e h. if me_type e = MEMMAP_USABLE \<or> me_type e = MEMMAP_BOOTLOADER_RECLAIMABLE
                 then let end = me_base e + me_length e in if end > h then end else h
                 else h) es 0"

definition bitmap_pages_for :: "u64 \<Rightarrow> u64" where
  "bitmap_pages_for new_max_page =
     (let bitmap_bits = new_max_page - BITMAP_BASE; bitmap_bytes = (bitmap_bits + 7) div 8
      in (bitmap_bytes + PAGE_SIZE - 1) div PAGE_SIZE)"

fun place_bitmap :: "u64 \<Rightarrow> memmap_entry list \<Rightarrow> u64" where
  "place_bitmap pgs [] = 0"
| "place_bitmap pgs (e # es) =
     (if me_type e \<noteq> MEMMAP_USABLE then place_bitmap pgs es
      else
        let base = (me_base e + PAGE_SIZE - 1) AND NOT (PAGE_SIZE - 1);
            end = (me_base e + me_length e) AND NOT (PAGE_SIZE - 1);
            base = (if base < MEMORY_BASE then MEMORY_BASE else base)
        in if end > base \<and> end - base \<ge> pgs * PAGE_SIZE then base else place_bitmap pgs es)"

definition free_page :: "u64 \<Rightarrow> u64 \<Rightarrow> u64 \<Rightarrow> u64 \<Rightarrow> bitmap \<Rightarrow> bitmap" where
  "free_page mx bitmap_phys pgs addr bm =
     (let page = addr div PAGE_SIZE
      in if page < BITMAP_BASE then bm
         else if page \<ge> mx then bm
         else if addr \<ge> bitmap_phys \<and> addr < bitmap_phys + pgs * PAGE_SIZE then bm
         else wr_bitmap bm page False)"

definition free_region :: "u64 \<Rightarrow> u64 \<Rightarrow> u64 \<Rightarrow> memmap_entry \<Rightarrow> bitmap \<Rightarrow> bitmap" where
  "free_region mx bitmap_phys pgs e bm =
     (let aligned_base = (if me_base e mod PAGE_SIZE \<noteq> 0 then me_base e + (PAGE_SIZE - (me_base e mod PAGE_SIZE)) else me_base e);
          aligned_length = (me_length e div PAGE_SIZE) * PAGE_SIZE;
          aligned_length = (if me_base e mod PAGE_SIZE \<noteq> 0 \<and> aligned_length \<noteq> 0 then aligned_length - PAGE_SIZE else aligned_length)
      in if me_type e \<noteq> MEMMAP_USABLE then bm
         else fold (\<lambda>j. free_page mx bitmap_phys pgs (aligned_base + of_nat j * PAGE_SIZE))
              [0..<unat (aligned_length div PAGE_SIZE)] bm)"

definition pmm_init :: "limine \<Rightarrow> pmm \<Rightarrow> pmm outcome" where
  "pmm_init li st =
     (case li_hhdm li of None \<Rightarrow> Inl ''PMM: HHDM not provided by bootloader''
      | Some off \<Rightarrow>
     (case li_exec_addr li of None \<Rightarrow> Inl ''PMM: Executable address not provided by bootloader''
      | Some (phys, virt) \<Rightarrow>
     (if li_file li \<noteq> Some True then Inl ''PMM: Executable file not provided by bootloader''
      else case li_memmap li of None \<Rightarrow> Inl ''PMM: Memory map not provided by bootloader''
      | Some es \<Rightarrow>
          let new_max_page = highest_usable es div PAGE_SIZE;
              pgs = bitmap_pages_for new_max_page;
              bitmap_phys = place_bitmap pgs es
          in if bitmap_phys = 0 then Inl ''PMM: No usable region holds the page bitmap''
             else
               let bm = fold (\<lambda>i bm. bm(of_nat i := 0xffffffff)) [0..<unat ((pgs * PAGE_SIZE) div 4)] (mem_bitmap st);
                   bm = fold (free_region new_max_page bitmap_phys pgs) es bm
               in Inr (st\<lparr>mem_bitmap := bm, bitmap_pages := pgs, max_page := new_max_page, hhdm_offset := off,
                          kernel_phys_base := phys, kernel_virt_base := virt\<rparr>))))"

section \<open>What is free afterwards\<close>

text \<open>The page lies inside a usable region.\<close>

definition in_region :: "memmap_entry \<Rightarrow> nat \<Rightarrow> bool" where
  "in_region e k \<longleftrightarrow>
     me_type e = MEMMAP_USABLE \<and> unat (me_base e) \<le> 4096 * k \<and> 4096 * k + 4096 \<le> unat (me_base e) + unat (me_length e)"

definition region_fits :: "memmap_entry \<Rightarrow> bool" where
  "region_fits e \<longleftrightarrow> unat (me_base e) + unat (me_length e) \<le> 2 ^ 52"

lemma highest_usable_fold:
  assumes "\<forall>e\<in>set es. region_fits e" "unat h \<le> 2 ^ 52"
  shows "let r = fold (\<lambda>e h. if me_type e = MEMMAP_USABLE \<or> me_type e = MEMMAP_BOOTLOADER_RECLAIMABLE
                 then let end = me_base e + me_length e in if end > h then end else h
                 else h) es h
    in unat h \<le> unat r \<and> unat r \<le> 2 ^ 52 \<and>
      (\<forall>e\<in>set es. me_type e = MEMMAP_USABLE \<longrightarrow> unat (me_base e) + unat (me_length e) \<le> unat r)"
  using assms
proof (induction es arbitrary: h)
  case Nil
  then show ?case by simp
next
  case (Cons e es)
  have u: "unat (me_base e + me_length e) = unat (me_base e) + unat (me_length e)"
    using Cons.prems(1) by (subst unat_add_no_wrap) (auto simp: region_fits_def)
  define h1 where "h1 = (if me_type e = MEMMAP_USABLE \<or> me_type e = MEMMAP_BOOTLOADER_RECLAIMABLE
                 then let end = me_base e + me_length e in if end > h then end else h
                 else h)"
  have h1: "unat h \<le> unat h1" "unat h1 \<le> 2 ^ 52" "me_type e = MEMMAP_USABLE \<Longrightarrow> unat (me_base e) + unat (me_length e) \<le> unat h1"
    using Cons.prems u by (auto simp: h1_def Let_def word_less_nat_alt region_fits_def)
  show ?case using Cons.IH [of h1] Cons.prems(1) h1 by (auto simp: Let_def h1_def [symmetric])
qed

lemma highest_usable_bound:
  assumes "\<forall>e\<in>set es. region_fits e"
  shows "unat (highest_usable es) \<le> 2 ^ 52"
    "e \<in> set es \<Longrightarrow> me_type e = MEMMAP_USABLE \<Longrightarrow> unat (me_base e) + unat (me_length e) \<le> unat (highest_usable es)"
  using highest_usable_fold [OF assms, of 0] by (simp_all add: highest_usable_def Let_def)

lemma aligned_region:
  assumes "region_fits e"
  defines "ab \<equiv> (if me_base e mod PAGE_SIZE \<noteq> 0 then me_base e + (PAGE_SIZE - (me_base e mod PAGE_SIZE)) else me_base e)"
    and "al0 \<equiv> (me_length e div PAGE_SIZE) * PAGE_SIZE"
  defines "al \<equiv> (if me_base e mod PAGE_SIZE \<noteq> 0 \<and> al0 \<noteq> 0 then al0 - PAGE_SIZE else al0)"
  shows "\<exists>b n. unat ab = 4096 * b \<and> unat (al div PAGE_SIZE) = n \<and> 4096 * b \<le> 2 ^ 53 \<and> n \<le> 2 ^ 40 \<and>
     (0 < n \<longrightarrow> unat (me_base e) \<le> 4096 * b \<and> 4096 * b + 4096 * n \<le> unat (me_base e) + unat (me_length e)) \<and>
     (unat (me_base e) mod 4096 = 0 \<longrightarrow> 4096 * b = unat (me_base e) \<and> n = unat (me_length e) div 4096)"
proof -
  define B L where "B = unat (me_base e)" and "L = unat (me_length e)"
  have BL: "B + L \<le> 2 ^ 52" using assms(1) by (simp add: region_fits_def B_def L_def)
  have m: "unat (me_base e mod PAGE_SIZE) = B mod 4096" by (simp add: unat_mod PAGE_SIZE_def B_def)
  then have mz: "me_base e mod PAGE_SIZE = 0 \<longleftrightarrow> B mod 4096 = 0" by (simp add: unat_eq_zero [symmetric])
  have "me_base e mod PAGE_SIZE \<le> PAGE_SIZE" by (simp add: word_le_nat_alt m) (simp add: PAGE_SIZE_def)
  then have d: "unat (PAGE_SIZE - (me_base e mod PAGE_SIZE)) = 4096 - B mod 4096"
    by (simp add: unat_diff_le m) (simp add: PAGE_SIZE_def)
  have ab: "unat ab = (if B mod 4096 \<noteq> 0 then B + (4096 - B mod 4096) else B)"
    using BL by (simp add: ab_def mz) (subst unat_add_no_wrap, simp_all add: d B_def)
  have al0: "unat al0 = 4096 * (L div 4096)"
  proof -
    have "unat (me_length e div PAGE_SIZE) = L div 4096" by (simp add: unat_div PAGE_SIZE_def L_def)
    moreover have "4096 * (L div 4096) < 2 ^ 64" using BL by simp
    ultimately show ?thesis by (simp add: al0_def unat_word_ariths PAGE_SIZE_def)
  qed
  have al: "unat al = (if B mod 4096 \<noteq> 0 \<and> L div 4096 \<noteq> 0 then 4096 * (L div 4096 - 1) else 4096 * (L div 4096))"
  proof (cases "B mod 4096 \<noteq> 0 \<and> L div 4096 \<noteq> 0")
    case True
    have "al0 \<noteq> 0" using al0 True by auto
    moreover have "PAGE_SIZE \<le> al0" using al0 True by (simp add: word_le_nat_alt) (simp add: PAGE_SIZE_def)
    ultimately have "unat al = unat al0 - 4096" using True by (simp add: al_def mz unat_diff_le) (simp add: PAGE_SIZE_def)
    then show ?thesis using True al0 by (simp add: diff_mult_distrib2)
  next
    case False
    then have "B mod 4096 = 0 \<or> al0 = 0" using al0 by (auto simp: unat_eq_zero [symmetric])
    then have "al = al0" by (auto simp: al_def mz)
    then show ?thesis using False al0 by auto
  qed
  define qb r q where "qb = B div 4096" and "r = B mod 4096" and "q = L div 4096"
  have Bq: "B = 4096 * qb + r" "r < 4096" and Lq: "4096 * q \<le> L" by (simp_all add: qb_def r_def q_def)
  define b where "b = (if r \<noteq> 0 then Suc qb else qb)"
  define n where "n = (if r \<noteq> 0 \<and> q \<noteq> 0 then q - 1 else q)"
  have b: "unat ab = 4096 * b"
    using ab Bq by (simp add: b_def r_def [symmetric])
  have n: "unat (al div PAGE_SIZE) = n"
    by (simp add: unat_div PAGE_SIZE_def al n_def r_def q_def)
  have "unat ab \<le> B + 4096" unfolding ab by simp
  then have r1: "4096 * b \<le> 2 ^ 53" using b BL by simp
  have "n \<le> L div 4096" by (simp add: n_def q_def)
  moreover have "L div 4096 \<le> 2 ^ 52 div 4096" using BL by (intro div_le_mono) simp
  ultimately have r2: "n \<le> 2 ^ 40" by simp
  have r3: "B \<le> 4096 * b \<and> 4096 * b + 4096 * n \<le> B + L" if pos: "0 < n"
  proof (cases "r = 0")
    case True
    then show ?thesis using Bq Lq by (simp add: b_def n_def)
  next
    case False
    have "q \<noteq> 0" using pos by (cases "q = 0") (simp_all add: n_def)
    then have "n + 1 = q" "b = qb + 1" using False by (simp_all add: n_def b_def)
    then show ?thesis using Bq Lq by linarith
  qed
  have r4: "4096 * b = B \<and> n = L div 4096" if "B mod 4096 = 0"
    using that Bq by (simp add: b_def n_def r_def [symmetric] q_def)
  show ?thesis unfolding B_def [symmetric] L_def [symmetric]
  proof (intro exI conjI)
    show "unat ab = 4096 * b" "unat (al div PAGE_SIZE) = n" by (rule b n)+
    show "4096 * b \<le> 2 ^ 53" "n \<le> 2 ^ 40" by (rule r1 r2)+
    show "0 < n \<longrightarrow> B \<le> 4096 * b \<and> 4096 * b + 4096 * n \<le> B + L" using r3 by (rule impI)
    show "B mod 4096 = 0 \<longrightarrow> 4096 * b = B \<and> n = L div 4096" using r4 by (rule impI)
  qed
qed


text \<open>One region: which pages it frees.\<close>

definition in_bitmap :: "u64 \<Rightarrow> u64 \<Rightarrow> nat \<Rightarrow> bool" where
  "in_bitmap bitmap_phys pgs k \<longleftrightarrow>
     unat bitmap_phys \<le> 4096 * k \<and> 4096 * k < unat (bitmap_phys + pgs * PAGE_SIZE)"

lemma fold_free_pages:
  assumes ab: "unat ab = 4096 * b" and lim: "4096 * b \<le> 2 ^ 53" "n \<le> 2 ^ 40"
  shows "rd_bitmap (fold (\<lambda>j. free_page mx bitmap_phys pgs (ab + of_nat j * PAGE_SIZE)) [0..<n] bm) p \<longleftrightarrow>
     rd_bitmap bm p \<and> \<not> (4096 \<le> unat p \<and> p < mx \<and> b \<le> unat p \<and> unat p < b + n \<and> \<not> in_bitmap bitmap_phys pgs (unat p))"
  using lim(2)
proof (induction n)
  case 0
  then show ?case by simp
next
  case (Suc n)
  define addr page where "addr = ab + of_nat n * PAGE_SIZE" and "page = addr div PAGE_SIZE"
  have n: "unat (of_nat n * PAGE_SIZE) = 4096 * n"
    using Suc.prems by (simp add: PAGE_SIZE_def unat_word_ariths unat_of_nat_u64)
  have a: "unat addr = 4096 * (b + n)"
    unfolding addr_def using Suc.prems lim(1) ab n by (subst unat_add_no_wrap) simp_all
  then have p: "unat page = b + n" by (simp add: page_def unat_div PAGE_SIZE_def)
  have skip: "addr \<ge> bitmap_phys \<and> addr < bitmap_phys + pgs * PAGE_SIZE \<longleftrightarrow> in_bitmap bitmap_phys pgs (b + n)"
    by (simp add: in_bitmap_def word_le_nat_alt word_less_nat_alt a)
  have eq: "p = page \<longleftrightarrow> unat p = b + n" using p by (auto simp: word_unat_eq_iff)
  have lo: "page < BITMAP_BASE \<longleftrightarrow> b + n < 4096" by (simp add: word_less_nat_alt p base_unat)
  have hi: "page \<ge> mx \<longleftrightarrow> \<not> b + n < unat mx" by (simp add: word_le_nat_alt p not_less)
  have mx: "p < mx \<longleftrightarrow> unat p < unat mx" by (simp add: word_less_nat_alt)
  define F where "F = fold (\<lambda>j. free_page mx bitmap_phys pgs (ab + of_nat j * PAGE_SIZE)) [0..<n] bm"
  define C where "C \<longleftrightarrow> 4096 \<le> unat p \<and> unat p < unat mx \<and> \<not> in_bitmap bitmap_phys pgs (unat p)"
  have IH: "rd_bitmap F p \<longleftrightarrow> rd_bitmap bm p \<and> \<not> (C \<and> b \<le> unat p \<and> unat p < b + n)"
    using Suc unfolding F_def C_def mx by force
  have "rd_bitmap (free_page mx bitmap_phys pgs addr F) p \<longleftrightarrow> rd_bitmap F p \<and> \<not> (C \<and> unat p = b + n)"
    unfolding free_page_def Let_def page_def [symmetric] skip lo hi
    by (cases "unat p = b + n") (simp_all add: eq C_def)
  moreover have "b \<le> unat p \<and> unat p < b + Suc n \<longleftrightarrow> b \<le> unat p \<and> unat p < b + n \<or> unat p = b + n" by auto
  ultimately have "rd_bitmap (free_page mx bitmap_phys pgs addr F) p \<longleftrightarrow>
     rd_bitmap bm p \<and> \<not> (C \<and> (b \<le> unat p \<and> unat p < b + Suc n))"
    unfolding IH by blast
  then have g: "rd_bitmap (free_page mx bitmap_phys pgs addr F) p \<longleftrightarrow>
     rd_bitmap bm p \<and> \<not> (4096 \<le> unat p \<and> unat p < unat mx \<and> b \<le> unat p \<and> unat p < b + Suc n \<and> \<not> in_bitmap bitmap_phys pgs (unat p))"
    unfolding C_def by blast
  have f: "fold (\<lambda>j. free_page mx bitmap_phys pgs (ab + of_nat j * PAGE_SIZE)) [0..<Suc n] bm =
      free_page mx bitmap_phys pgs addr F"
    by (simp add: F_def addr_def)
  show ?case unfolding f mx by (rule g)
qed

lemma free_region_rd:
  assumes "region_fits e"
  shows "rd_bitmap (free_region mx bitmap_phys pgs e bm) p \<Longrightarrow> rd_bitmap bm p"
    "rd_bitmap bm p \<Longrightarrow> \<not> rd_bitmap (free_region mx bitmap_phys pgs e bm) p \<Longrightarrow>
       4096 \<le> unat p \<and> p < mx \<and> in_region e (unat p) \<and> \<not> in_bitmap bitmap_phys pgs (unat p)"
    "unat (me_base e) mod 4096 = 0 \<Longrightarrow> 4096 \<le> unat p \<Longrightarrow> p < mx \<Longrightarrow> in_region e (unat p) \<Longrightarrow>
       \<not> in_bitmap bitmap_phys pgs (unat p) \<Longrightarrow> \<not> rd_bitmap (free_region mx bitmap_phys pgs e bm) p"
proof -
  define ab where "ab = (if me_base e mod PAGE_SIZE \<noteq> 0 then me_base e + (PAGE_SIZE - (me_base e mod PAGE_SIZE)) else me_base e)"
  define al0 where "al0 = (me_length e div PAGE_SIZE) * PAGE_SIZE"
  define al where "al = (if me_base e mod PAGE_SIZE \<noteq> 0 \<and> al0 \<noteq> 0 then al0 - PAGE_SIZE else al0)"
  obtain b n where bn: "unat ab = 4096 * b" "unat (al div PAGE_SIZE) = n" "4096 * b \<le> 2 ^ 53" "n \<le> 2 ^ 40"
     "0 < n \<longrightarrow> unat (me_base e) \<le> 4096 * b \<and> 4096 * b + 4096 * n \<le> unat (me_base e) + unat (me_length e)"
     "unat (me_base e) mod 4096 = 0 \<longrightarrow> 4096 * b = unat (me_base e) \<and> n = unat (me_length e) div 4096"
    using aligned_region [OF assms, folded al0_def, folded ab_def al_def] by (elim exE conjE) (rule that, assumption+)
  have rd: "rd_bitmap (free_region mx bitmap_phys pgs e bm) p \<longleftrightarrow> rd_bitmap bm p \<and>
      \<not> (me_type e = MEMMAP_USABLE \<and> 4096 \<le> unat p \<and> p < mx \<and> b \<le> unat p \<and> unat p < b + n \<and> \<not> in_bitmap bitmap_phys pgs (unat p))"
    using fold_free_pages [OF bn(1,3,4)]
    unfolding free_region_def Let_def ab_def [symmetric] al0_def [symmetric] al_def [symmetric] bn(2) by simp
  show "rd_bitmap (free_region mx bitmap_phys pgs e bm) p \<Longrightarrow> rd_bitmap bm p" using rd by blast
  show "4096 \<le> unat p \<and> p < mx \<and> in_region e (unat p) \<and> \<not> in_bitmap bitmap_phys pgs (unat p)"
    if f: "rd_bitmap bm p" "\<not> rd_bitmap (free_region mx bitmap_phys pgs e bm) p"
  proof -
    have c: "me_type e = MEMMAP_USABLE" "4096 \<le> unat p" "p < mx" "b \<le> unat p" "unat p < b + n" "\<not> in_bitmap bitmap_phys pgs (unat p)"
      using f rd by blast+
    then have "unat (me_base e) \<le> 4096 * b" "4096 * b + 4096 * n \<le> unat (me_base e) + unat (me_length e)"
      using bn(5) by simp_all
    then have "in_region e (unat p)" using c(1,4,5) unfolding in_region_def by linarith
    then show ?thesis using c by blast
  qed
  show "\<not> rd_bitmap (free_region mx bitmap_phys pgs e bm) p"
    if f: "unat (me_base e) mod 4096 = 0" "4096 \<le> unat p" "p < mx" "in_region e (unat p)" "\<not> in_bitmap bitmap_phys pgs (unat p)"
  proof -
    have e: "4096 * b = unat (me_base e)" "n = unat (me_length e) div 4096" using bn(6) f(1) by simp_all
    have r: "me_type e = MEMMAP_USABLE" "4096 * b \<le> 4096 * unat p" "4096 * unat p + 4096 \<le> 4096 * b + unat (me_length e)"
      using f(4) unfolding in_region_def e(1) by simp_all
    then have "b \<le> unat p" by simp
    moreover have "unat p + 1 - b \<le> n"
    proof -
      have "(unat p + 1 - b) * 4096 \<le> unat (me_length e)" using r(2,3) by linarith
      then show ?thesis unfolding e(2) by (simp add: less_eq_div_iff_mult_less_eq)
    qed
    ultimately have "b \<le> unat p" "unat p < b + n" by linarith+
    then show ?thesis using f r(1) rd by blast
  qed
qed


lemma free_regions_rd:
  assumes "\<forall>e\<in>set es. region_fits e"
  shows "rd_bitmap bm p \<Longrightarrow> \<not> rd_bitmap (fold (free_region mx bitmap_phys pgs) es bm) p \<Longrightarrow>
       \<exists>e\<in>set es. in_region e (unat p) \<and> \<not> in_bitmap bitmap_phys pgs (unat p)"
    "\<not> rd_bitmap bm p \<Longrightarrow> \<not> rd_bitmap (fold (free_region mx bitmap_phys pgs) es bm) p"
    "e \<in> set es \<Longrightarrow> unat (me_base e) mod 4096 = 0 \<Longrightarrow> 4096 \<le> unat p \<Longrightarrow> p < mx \<Longrightarrow> in_region e (unat p) \<Longrightarrow>
       \<not> in_bitmap bitmap_phys pgs (unat p) \<Longrightarrow> \<not> rd_bitmap (fold (free_region mx bitmap_phys pgs) es bm) p"
  using assms
proof (induction es arbitrary: bm)
  case Nil
  { case 1 then show ?case by simp }
  { case 2 then show ?case by simp }
  { case 3 then show ?case by simp }
next
  case (Cons d es)
  { case 1
    then have d: "region_fits d" by simp
    show ?case
    proof (cases "rd_bitmap (free_region mx bitmap_phys pgs d bm) p")
      case True
      then show ?thesis using Cons.IH(1) 1 by auto
    next
      case False
      then show ?thesis using free_region_rd(2) [OF d 1(1)] by auto
    qed }
  { case 2
    then have "\<not> rd_bitmap (free_region mx bitmap_phys pgs d bm) p" using free_region_rd(1) [of d] by auto
    then show ?case using Cons.IH(2) 2 by auto }
  { case 3
    show ?case
    proof (cases "e = d")
      case True
      then have "\<not> rd_bitmap (free_region mx bitmap_phys pgs d bm) p" using free_region_rd(3) [of d] 3 by auto
      then show ?thesis using Cons.IH(2) 3(7) by auto
    next
      case False
      then show ?thesis using Cons.IH(3) 3 by auto
    qed }
qed

lemma ones_bitmap:
  "n \<le> 2 ^ 63 \<Longrightarrow> fold (\<lambda>i (bm::bitmap). bm(of_nat i := 0xffffffff)) [0..<n] bm i = (if unat i < n then 0xffffffff else bm i)"
proof (induction n)
  case 0
  then show ?case by simp
next
  case (Suc n)
  have "i = of_nat n \<longleftrightarrow> unat i = n" using Suc.prems by (auto simp: unat_of_nat_u64)
  then show ?case using Suc by (auto simp: less_Suc_eq)
qed

lemma bit_ones_u32: "bit (0xffffffff :: u32) k \<longleftrightarrow> k < 32"
proof -
  have m: "(0xffffffff :: u32) = mask 32" by (simp add: mask_eq_exp_minus_1)
  show ?thesis unfolding m bit_mask_iff by (simp add: possible_bit_def)
qed

text \<open>The bitmap has an entry for every page tracked.\<close>

lemma bitmap_room:
  assumes "4096 < unat mx" "unat mx \<le> 2 ^ 40"
  shows "unat mx - 4096 \<le> 32 * (unat (bitmap_pages_for mx) * 1024)" "unat (bitmap_pages_for mx) \<le> 2 ^ 26"
proof -
  define n where "n = unat mx - 4096"
  have 1: "unat (mx - BITMAP_BASE) = n"
    using assms(1) by (simp add: n_def unat_diff_le word_le_nat_alt base_unat)
  have n: "n \<le> 2 ^ 40" using assms(2) by (simp add: n_def)
  have 2: "unat (mx - BITMAP_BASE + 7) = n + 7" using 1 n by (subst unat_add_no_wrap) simp_all
  define b where "b = (n + 7) div 8"
  have 3: "unat ((mx - BITMAP_BASE + 7) div 8) = b" by (simp add: unat_div 2 b_def)
  have b: "b \<le> 2 ^ 38" using n by (simp add: b_def)
  have 4: "unat ((mx - BITMAP_BASE + 7) div 8 + PAGE_SIZE) = b + 4096"
    using b by (subst unat_add_no_wrap) (simp_all add: 3 PAGE_SIZE_def)
  then have "(mx - BITMAP_BASE + 7) div 8 + PAGE_SIZE \<noteq> 0" by auto
  then have 5: "unat ((mx - BITMAP_BASE + 7) div 8 + PAGE_SIZE - 1) = b + 4095" using 4 by (simp add: unat_minus_one)
  have 6: "unat (bitmap_pages_for mx) = (b + 4095) div 4096"
    unfolding bitmap_pages_for_def Let_def by (subst unat_div) (simp only: 5, simp add: PAGE_SIZE_def)
  have "n \<le> 8 * b" by (simp add: b_def)
  moreover have "b \<le> 4096 * ((b + 4095) div 4096)" by simp
  ultimately show "unat mx - 4096 \<le> 32 * (unat (bitmap_pages_for mx) * 1024)" by (simp add: 6 n_def)
  show "unat (bitmap_pages_for mx) \<le> 2 ^ 26" using b by (simp add: 6)
qed

text \<open>
  C35: When \<open>pmm_init\<close> returns, its bitmap has a bit for every page tracked, and the pages it leaves
  free are usable memory: inside a usable region of the memory map and not part of the bitmap. All such
  pages of a page-aligned region are free.
\<close>

theorem pmm_init_free_pages:
  assumes "pmm_init li st0 = Inr st" and "li_memmap li = Some es" and "\<forall>e\<in>set es. region_fits e"
    and "4096 \<le> unat p" "p < max_page st"
  defines "bitmap_phys \<equiv> place_bitmap (bitmap_pages st) es"
  shows "unat (p - BITMAP_BASE) div 32 < 1024 * unat (bitmap_pages st) \<and>
    (\<not> page_used st p \<longrightarrow> (\<exists>e\<in>set es. in_region e (unat p)) \<and> \<not> in_bitmap bitmap_phys (bitmap_pages st) (unat p)) \<and>
    ((\<exists>e\<in>set es. in_region e (unat p) \<and> unat (me_base e) mod 4096 = 0) \<and>
       \<not> in_bitmap bitmap_phys (bitmap_pages st) (unat p) \<longrightarrow> \<not> page_used st p)"
proof -
  define mx pgs where "mx = highest_usable es div PAGE_SIZE" and "pgs = bitmap_pages_for mx"
  define bm where "bm = fold (\<lambda>i bm. bm(of_nat i := 0xffffffff)) [0..<unat ((pgs * PAGE_SIZE) div 4)] (mem_bitmap st0)"
  have st: "max_page st = mx" "bitmap_pages st = pgs"
    "mem_bitmap st = fold (free_region mx (place_bitmap pgs es) pgs) es bm"
    using assms(1,2) by (auto simp: pmm_init_def Let_def mx_def pgs_def bm_def split: option.splits if_splits prod.splits)
  have "unat mx \<le> 2 ^ 52 div 4096"
    unfolding mx_def unat_div using highest_usable_bound(1) [OF assms(3)]
    by (simp add: PAGE_SIZE_def)
  then have mx: "4096 < unat mx" "unat mx \<le> 2 ^ 40"
    using assms(4,5) st(1) by (simp_all add: word_less_nat_alt)
  note room = bitmap_room [OF mx, folded pgs_def]
  have "unat (pgs * PAGE_SIZE) = unat pgs * 4096"
    using room(2) by (simp add: PAGE_SIZE_def unat_word_ariths)
  then have n: "unat ((pgs * PAGE_SIZE) div 4) = 1024 * unat pgs" by (simp add: unat_div)
  have pu: "unat (p - BITMAP_BASE) = unat p - 4096"
    using assms(4) by (simp add: unat_diff_le word_le_nat_alt base_unat)
  have "unat p < unat mx" using assms(5) st(1) by (simp add: word_less_nat_alt)
  then have "unat p - 4096 < 32 * (1024 * unat pgs)" using room(1) assms(4) by linarith
  then have idx: "unat (p - BITMAP_BASE) div 32 < 1024 * unat pgs"
    unfolding pu by (simp add: less_mult_imp_div_less mult.commute)
  have "bm ((p - BITMAP_BASE) div 32) = 0xffffffff"
    unfolding bm_def n using room(2) idx by (subst ones_bitmap) (simp_all add: unat_div)
  then have used: "rd_bitmap bm p" unfolding rd_bitmap_iff by (simp only: bit_ones_u32)
  note fr = free_regions_rd(1) [OF assms(3) used, of mx "place_bitmap pgs es" pgs]
  have fr3: "\<not> rd_bitmap (fold (free_region mx (place_bitmap pgs es) pgs) es bm) p"
    if "e \<in> set es" "in_region e (unat p)" "unat (me_base e) mod 4096 = 0" "\<not> in_bitmap (place_bitmap pgs es) pgs (unat p)" for e
    using free_regions_rd(3) [OF assms(3) that(1,3) assms(4) assms(5) [unfolded st(1)] that(2,4)] .
  show ?thesis
    unfolding st bitmap_phys_def
  proof (intro conjI impI)
    show "unat (p - BITMAP_BASE) div 32 < 1024 * unat pgs" by (rule idx)
  next
    assume "\<not> rd_bitmap (fold (free_region mx (place_bitmap pgs es) pgs) es bm) p"
    then obtain e where e: "e \<in> set es" "in_region e (unat p)" "\<not> in_bitmap (place_bitmap pgs es) pgs (unat p)"
      using fr by auto
    show "\<exists>e\<in>set es. in_region e (unat p)" using e(1,2) by (rule bexI [rotated])
    show "\<not> in_bitmap (place_bitmap pgs es) pgs (unat p)" by (rule e(3))
  next
    assume "(\<exists>e\<in>set es. in_region e (unat p) \<and> unat (me_base e) mod 4096 = 0) \<and> \<not> in_bitmap (place_bitmap pgs es) pgs (unat p)"
    then show "\<not> rd_bitmap (fold (free_region mx (place_bitmap pgs es) pgs) es bm) p"
      using fr3 by (elim conjE bexE) simp
  qed
qed

section \<open>At concrete memory maps\<close>

definition small_pmm :: pmm where
  "small_pmm = \<lparr>mem_bitmap = (\<lambda>_. 0), bitmap_pages = 1, max_page = 4100, last_alloc_page = 4099, hhdm_offset = 0,
     kernel_phys_base = 0, kernel_virt_base = 0, phys_mem = (\<lambda>_. 1)\<rparr>"

lemma small_pmm_ok: "pmm_ok small_pmm"
  by (simp add: pmm_ok_def small_pmm_def base_unat)

lemma kmalloc_small: "kmalloc 2 small_pmm = (0x1000000, snd (kmalloc 2 small_pmm))"
proof -
  have u: "\<not> rd_bitmap (\<lambda>_. 0) i" for i by (simp add: rd_bitmap_iff)
  show ?thesis
    by (simp add: kmalloc_def small_pmm_def base_unat u numeral_eq_Suc [of num.One] numeral_3_eq_3 kmalloc_take_def Let_def PAGE_SIZE_def)
qed

theorem kmalloc_correct_witness:
  "fst (kmalloc 2 small_pmm) = 0x1000000 \<and> pmm_ok (snd (kmalloc 2 small_pmm)) \<and>
   page_used (snd (kmalloc 2 small_pmm)) 4097 \<and> \<not> page_used (snd (kmalloc 2 small_pmm)) 4098"
proof -
  have u: "\<not> page_used small_pmm i" for i by (simp add: rd_bitmap_iff small_pmm_def)
  have "hhdm_ok small_pmm" by (simp add: hhdm_ok_def small_pmm_def)
  from kmalloc_correct [OF small_pmm_ok _ this kmalloc_small]
  have *: "pmm_ok (snd (kmalloc 2 small_pmm))"
    "\<exists>s. 0x1000000 = 4096 * s \<and> (\<forall>j. page_used (snd (kmalloc 2 small_pmm)) j \<longleftrightarrow> s \<le> unat j \<and> unat j < s + 2 \<or> page_used small_pmm j)"
    by auto
  then obtain s where "s = 4096" "\<forall>j. page_used (snd (kmalloc 2 small_pmm)) j \<longleftrightarrow> s \<le> unat j \<and> unat j < s + 2 \<or> page_used small_pmm j"
    by auto
  then show ?thesis using *(1) u kmalloc_small by (simp add: prod_eq_iff)
qed

theorem kmalloc_exclusive_witness:
  "pmm_reach small_pmm (snd (kmalloc 2 small_pmm)) [(4096, 2)] \<and>
   page_used (snd (kmalloc 2 small_pmm)) 4097 \<and> \<not> page_used small_pmm 4097"
proof -
  have r: "pmm_reach small_pmm (snd (kmalloc 2 small_pmm)) [(4096, 2)]"
    using pmm_alloc [OF pmm_start _ kmalloc_small] by simp
  show ?thesis using kmalloc_exclusive [OF r small_pmm_ok] r by (simp add: owned_def upt_rec)
qed

definition small_limine :: limine where
  "small_limine = \<lparr>li_hhdm = Some 0, li_exec_addr = Some (0x100000, 0), li_file = Some True,
     li_memmap = Some [\<lparr>me_base = 0x1000000, me_length = 0x10000, me_type = MEMMAP_USABLE\<rparr>]\<rparr>"

theorem pmm_init_free_pages_witness:
  "\<exists>st. pmm_init small_limine small_pmm = Inr st \<and> \<not> page_used st 4097 \<and> page_used st 4096"
proof -
  have n: "bitmap_pages_for 4112 = 1" by code_simp
  have h: "highest_usable [\<lparr>me_base = 0x1000000, me_length = 0x10000, me_type = MEMMAP_USABLE\<rparr>] div PAGE_SIZE = 4112"
    by (simp add: highest_usable_def PAGE_SIZE_def)
  have b: "place_bitmap 1 [\<lparr>me_base = 0x1000000, me_length = 0x10000, me_type = MEMMAP_USABLE\<rparr>] = 0x1000000"
    by code_simp
  have i: "\<exists>st. pmm_init small_limine small_pmm = Inr st \<and> max_page st = 4112 \<and> bitmap_pages st = 1"
    by (simp add: pmm_init_def small_limine_def Let_def h n b del: place_bitmap.simps)
  then obtain st where st: "pmm_init small_limine small_pmm = Inr st" "max_page st = 4112" "bitmap_pages st = 1" by blast
  have f: "\<forall>e\<in>set [\<lparr>me_base = 0x1000000, me_length = 0x10000, me_type = MEMMAP_USABLE\<rparr>]. region_fits e"
    by (simp add: region_fits_def)
  note th = pmm_init_free_pages [OF st(1) _ f, unfolded st(2,3) b]
  show ?thesis
    using st(1) th [of 4097] th [of 4096]
    by (auto simp: small_limine_def in_region_def in_bitmap_def PAGE_SIZE_def)
qed

end
