(* ===== verification/Dawn_Io.thy ===== *)
theory Dawn_Io
  imports Memory Ring
begin

text \<open>
  Deferred device writes (dawn.c): interrupt handlers queue them in \<open>io_stack\<close> with
  \<open>dawn_io_write\<close>; \<open>dawn_io_flush\<close> delivers them in order, each once Dawn has cleared the word it
  goes to. The abstract description is a list of pending writes (\<open>io_deliver\<close>).
\<close>

section \<open>Addresses of dawn.h\<close>

definition DAWN_IMAGE_BASE :: u64 where "DAWN_IMAGE_BASE = 0"
definition DAWN_IMAGE_SIZE :: u64 where "DAWN_IMAGE_SIZE = 256 * 1024 * 1024"
definition DAWN_DISPLAY_BASE :: u64 where "DAWN_DISPLAY_BASE = 335540096"
definition DAWN_DISPLAY_WIDTH :: u64 where "DAWN_DISPLAY_WIDTH = DAWN_DISPLAY_BASE + 0"
definition DAWN_DISPLAY_HEIGHT :: u64 where "DAWN_DISPLAY_HEIGHT = DAWN_DISPLAY_BASE + 8"
definition DAWN_DISPLAY_BPP :: u64 where "DAWN_DISPLAY_BPP = DAWN_DISPLAY_BASE + 16"
definition DAWN_DISPLAY_FLAGS :: u64 where "DAWN_DISPLAY_FLAGS = DAWN_DISPLAY_BASE + 24"
definition DAWN_FRAME_COUNTER :: u64 where "DAWN_FRAME_COUNTER = DAWN_DISPLAY_BASE + 32"
definition DAWN_MOUSE_BASE :: u64 where "DAWN_MOUSE_BASE = 335542176"
definition DAWN_MOUSE_CLICK_L :: u64 where "DAWN_MOUSE_CLICK_L = DAWN_MOUSE_BASE + 0 * 8"
definition DAWN_MOUSE_CLICK_R :: u64 where "DAWN_MOUSE_CLICK_R = DAWN_MOUSE_BASE + 1 * 8"
definition DAWN_MOUSE_CLICK_M :: u64 where "DAWN_MOUSE_CLICK_M = DAWN_MOUSE_BASE + 2 * 8"
definition DAWN_MOUSE_REL_X :: u64 where "DAWN_MOUSE_REL_X = DAWN_MOUSE_BASE + 3 * 8"
definition DAWN_MOUSE_REL_Y :: u64 where "DAWN_MOUSE_REL_Y = DAWN_MOUSE_BASE + 4 * 8"
definition DAWN_MOUSE_ABS_X :: u64 where "DAWN_MOUSE_ABS_X = DAWN_MOUSE_BASE + 6 * 8"
definition DAWN_MOUSE_ABS_Y :: u64 where "DAWN_MOUSE_ABS_Y = DAWN_MOUSE_BASE + 7 * 8"
definition DAWN_MOUSE_TOUCH :: u64 where "DAWN_MOUSE_TOUCH = DAWN_MOUSE_BASE + 8 * 8"
definition DAWN_MOUSE_SCROLL :: u64 where "DAWN_MOUSE_SCROLL = DAWN_MOUSE_BASE + 9 * 8"
definition DAWN_KEYBOARD_BASE :: u64 where "DAWN_KEYBOARD_BASE = 335542256"
definition DAWN_RTC :: u64 where "DAWN_RTC = 335544304"
definition DAWN_FIXED_ONE :: u64 where "DAWN_FIXED_ONE = 0x100000000"

lemmas dawn_addrs =
  DAWN_DISPLAY_BASE_def DAWN_DISPLAY_WIDTH_def DAWN_DISPLAY_HEIGHT_def DAWN_DISPLAY_BPP_def
  DAWN_DISPLAY_FLAGS_def DAWN_FRAME_COUNTER_def DAWN_MOUSE_BASE_def DAWN_MOUSE_CLICK_L_def
  DAWN_MOUSE_CLICK_R_def DAWN_MOUSE_CLICK_M_def DAWN_MOUSE_REL_X_def DAWN_MOUSE_REL_Y_def
  DAWN_MOUSE_ABS_X_def DAWN_MOUSE_ABS_Y_def DAWN_MOUSE_TOUCH_def DAWN_MOUSE_SCROLL_def
  DAWN_KEYBOARD_BASE_def DAWN_RTC_def

section \<open>The queue\<close>

definition IO_STACK_MAX :: nat where "IO_STACK_MAX = 4096"

record io_entry =
  io_loc :: u64
  io_value :: u64

record io_stack =
  io_slots :: "nat \<Rightarrow> io_entry"
  io_head :: nat
  io_tail :: nat

definition dawn_io_write :: "u64 \<Rightarrow> u64 \<Rightarrow> io_stack \<Rightarrow> io_stack outcome" where
  "dawn_io_write loc value st =
     (let next_tail = ring_next IO_STACK_MAX (io_tail st)
      in if next_tail = io_head st then Inl ''io_stack overflow''
         else Inr (st\<lparr>io_slots := (io_slots st)(io_tail st := \<lparr>io_loc = loc, io_value = value\<rparr>),
                      io_tail := next_tail\<rparr>))"

text \<open>\<open>None\<close>: still delivering when the fuel is out.\<close>

fun dawn_io_flush :: "nat \<Rightarrow> mem \<times> io_stack \<Rightarrow> (mem \<times> io_stack) option" where
  "dawn_io_flush 0 (m, st) = None"
| "dawn_io_flush (Suc fuel) (m, st) =
     (if io_head st = io_tail st then Some (m, st)
      else let e = io_slots st (io_head st)
           in if dawn_readram m (io_loc e) = 0
              then dawn_io_flush fuel
                     (dawn_writeram m (io_loc e) (io_value e), st\<lparr>io_head := ring_next IO_STACK_MAX (io_head st)\<rparr>)
              else Some (m, st))"

definition io_ok :: "io_stack \<Rightarrow> bool" where
  "io_ok st \<longleftrightarrow> io_head st < IO_STACK_MAX \<and> io_tail st < IO_STACK_MAX"

definition io_pending :: "io_stack \<Rightarrow> io_entry list" where
  "io_pending st = ring_list IO_STACK_MAX (io_head st) (io_tail st) (io_slots st)"

definition io_push :: "io_entry \<Rightarrow> io_stack \<Rightarrow> io_stack option" where
  "io_push e st = (case dawn_io_write (io_loc e) (io_value e) st of Inl _ \<Rightarrow> None | Inr st \<Rightarrow> Some st)"

text \<open>What the flush does to the queue once an entry is delivered.\<close>

definition io_pop :: "io_stack \<Rightarrow> (io_entry \<times> io_stack) option" where
  "io_pop st =
     (if io_head st = io_tail st then None
      else Some (io_slots st (io_head st), st\<lparr>io_head := ring_next IO_STACK_MAX (io_head st)\<rparr>))"

interpretation io: bounded_fifo io_ok io_pending io_push io_pop "IO_STACK_MAX - 1"
proof unfold_locales
  fix s :: io_stack and x xs
  assume ok: "io_ok s"
  then have b: "io_head s < IO_STACK_MAX" "io_tail s < IO_STACK_MAX" by (simp_all add: io_ok_def)
  have pos: "0 < IO_STACK_MAX" by (simp add: IO_STACK_MAX_def)
  {
    assume "length (io_pending s) < IO_STACK_MAX - 1"
    then have n: "ring_next IO_STACK_MAX (io_tail s) \<noteq> io_head s"
      using ring_len_full [OF b] by (simp add: io_pending_def)
    then show "\<exists>s'. io_push x s = Some s' \<and> io_ok s' \<and> io_pending s' = io_pending s @ [x]"
      using b pos by (auto simp: io_push_def dawn_io_write_def io_ok_def io_pending_def ring_list_push)
  next
    assume "IO_STACK_MAX - 1 \<le> length (io_pending s)"
    then have "ring_next IO_STACK_MAX (io_tail s) = io_head s"
      using ring_len_full [OF b] ring_len_less [OF b] by (simp add: io_pending_def)
    then show "io_push x s = None" by (simp add: io_push_def dawn_io_write_def)
  next
    assume c: "io_pending s = x # xs"
    then have "io_head s \<noteq> io_tail s" using b by (auto simp: io_pending_def)
    then show "\<exists>s'. io_pop s = Some (x, s') \<and> io_ok s' \<and> io_pending s' = xs"
      using b pos c by (auto simp: io_pop_def io_ok_def io_pending_def ring_list_pop)
  next
    assume "io_pending s = []"
    then show "io_pop s = None" using b by (simp add: io_pop_def io_pending_def ring_list_Nil)
  }
qed

section \<open>The abstract queue of writes\<close>

fun io_deliver :: "mem \<Rightarrow> io_entry list \<Rightarrow> mem \<times> io_entry list" where
  "io_deliver m [] = (m, [])"
| "io_deliver m (e # q) =
     (if dawn_readram m (io_loc e) = 0 then io_deliver (dawn_writeram m (io_loc e) (io_value e)) q
      else (m, e # q))"

lemma io_flush_deliver:
  "io_ok st \<Longrightarrow> length (io_pending st) < fuel \<Longrightarrow>
     \<exists>m' st'. dawn_io_flush fuel (m, st) = Some (m', st') \<and> io_ok st' \<and>
       io_deliver m (io_pending st) = (m', io_pending st')"
proof (induction fuel arbitrary: m st)
  case 0
  then show ?case by simp
next
  case (Suc fuel)
  show ?case
  proof (cases "io_pending st")
    case Nil
    then have "io_head st = io_tail st" using Suc.prems(1) by (simp add: io_pending_def io_ok_def ring_list_Nil)
    then show ?thesis using Nil Suc.prems(1) by simp
  next
    case (Cons e q)
    obtain st1 where p: "io_pop st = Some (e, st1)" and 1: "io_ok st1" "io_pending st1 = q"
      using io.pop_first [OF Suc.prems(1) Cons] by blast
    then have s: "io_head st \<noteq> io_tail st" "io_slots st (io_head st) = e"
      "st\<lparr>io_head := ring_next IO_STACK_MAX (io_head st)\<rparr> = st1"
      by (auto simp: io_pop_def split: if_splits)
    show ?thesis
    proof (cases "dawn_readram m (io_loc e) = 0")
      case True
      then show ?thesis
        using Suc.IH [OF 1(1), of "dawn_writeram m (io_loc e) (io_value e)"] Suc.prems(2) s
        by (simp add: Cons 1)
    next
      case False
      then show ?thesis using Suc.prems(1) s by (simp add: Cons)
    qed
  qed
qed

text \<open>
  C24: Delivering ends within one more turn than entries are pending (4096 turns always do), and does
  what the list of pending writes does: each write, in the order queued, goes out once the word it
  goes to is 0, and the first that finds its word not cleared stops the rest.
\<close>

theorem dawn_io_flush_refines:
  assumes "io_ok st" and "IO_STACK_MAX \<le> fuel"
  shows "\<exists>m' st'. dawn_io_flush fuel (m, st) = Some (m', st') \<and> io_ok st' \<and>
    io_deliver m (io_pending st) = (m', io_pending st') \<and>
    (io_pending st' = [] \<or> dawn_readram m' (io_loc (hd (io_pending st'))) \<noteq> 0)"
proof -
  have "length (io_pending st) < fuel"
    using assms ring_len_less [of "io_head st" IO_STACK_MAX "io_tail st"] by (simp add: io_ok_def io_pending_def)
  then obtain m' st' where *: "dawn_io_flush fuel (m, st) = Some (m', st')" "io_ok st'"
    "io_deliver m (io_pending st) = (m', io_pending st')"
    using io_flush_deliver [OF assms(1)] by blast
  have "io_deliver m q = (m', r) \<Longrightarrow> r = [] \<or> dawn_readram m' (io_loc (hd r)) \<noteq> 0" for q r
    by (induction m q rule: io_deliver.induct) (auto split: if_splits)
  then show ?thesis using * by blast
qed

text \<open>
  Queuing a write adds it behind those pending; it panics exactly when 4095 are.
\<close>

lemma dawn_io_write_queues:
  assumes "io_ok st"
  shows "case dawn_io_write loc value st of
      Inl msg \<Rightarrow> msg = ''io_stack overflow'' \<and> length (io_pending st) = 4095
    | Inr st' \<Rightarrow> length (io_pending st) < 4095 \<and> io_ok st' \<and>
        io_pending st' = io_pending st @ [\<lparr>io_loc = loc, io_value = value\<rparr>]"
proof -
  let ?e = "\<lparr>io_loc = loc, io_value = value\<rparr>"
  have b: "io_head st < IO_STACK_MAX" "io_tail st < IO_STACK_MAX" using assms by (simp_all add: io_ok_def)
  have f: "ring_next IO_STACK_MAX (io_tail st) = io_head st \<longleftrightarrow> length (io_pending st) = IO_STACK_MAX - 1"
    using ring_len_full [OF b] by (simp add: io_pending_def)
  show ?thesis
  proof (cases "length (io_pending st) = IO_STACK_MAX - 1")
    case True
    then show ?thesis using f by (simp add: dawn_io_write_def IO_STACK_MAX_def)
  next
    case False
    then obtain st' where w: "dawn_io_write loc value st = Inr st'" "io_push ?e st = Some st'"
      using f by (simp add: dawn_io_write_def io_push_def Let_def)
    show ?thesis using io.push_SomeD [OF assms w(2)] by (simp add: w(1) IO_STACK_MAX_def)
  qed
qed

text \<open>A stack with two writes pending, the first to a word that is clear, the second not.\<close>

definition io_two :: io_stack where
  "io_two = \<lparr>io_slots = (\<lambda>i. if i = 4095 then \<lparr>io_loc = DAWN_KEYBOARD_BASE, io_value = 97\<rparr>
                               else \<lparr>io_loc = DAWN_KEYBOARD_BASE, io_value = 98\<rparr>),
             io_head = 4095, io_tail = 1\<rparr>"

theorem dawn_io_flush_refines_witness:
  "io_pending io_two = [\<lparr>io_loc = DAWN_KEYBOARD_BASE, io_value = 97\<rparr>, \<lparr>io_loc = DAWN_KEYBOARD_BASE, io_value = 98\<rparr>] \<and>
   (\<exists>m' st'. dawn_io_flush 4096 (\<lambda>_. 0, io_two) = Some (m', st') \<and>
      io_pending st' = [\<lparr>io_loc = DAWN_KEYBOARD_BASE, io_value = 98\<rparr>] \<and> dawn_readram m' DAWN_KEYBOARD_BASE = 97)"
proof -
  have p: "io_pending io_two =
      [\<lparr>io_loc = DAWN_KEYBOARD_BASE, io_value = 97\<rparr>, \<lparr>io_loc = DAWN_KEYBOARD_BASE, io_value = 98\<rparr>]"
    by (simp add: io_pending_def io_two_def ring_list_def ring_len_def IO_STACK_MAX_def upt_rec)
  have z: "dawn_readram (\<lambda>_. 0) a = 0" for a
    by (simp add: dawn_readram_def load64_def bswap64_def join_bytes_def upt_rec)
  have ok: "io_ok io_two" by (simp add: io_ok_def io_two_def IO_STACK_MAX_def)
  show ?thesis
    using dawn_io_flush_refines [OF ok, of 4096 "\<lambda>_. 0"] by (auto simp: p z IO_STACK_MAX_def)
qed

theorem dawn_io_write_queues_witness:
  "case dawn_io_write DAWN_KEYBOARD_BASE 13 io_two of
      Inl msg \<Rightarrow> msg = ''io_stack overflow'' \<and> length (io_pending io_two) = 4095
    | Inr st' \<Rightarrow> length (io_pending io_two) < 4095 \<and> io_ok st' \<and>
        io_pending st' = io_pending io_two @ [\<lparr>io_loc = DAWN_KEYBOARD_BASE, io_value = 13\<rparr>]"
  by (rule dawn_io_write_queues) (simp add: io_ok_def io_two_def IO_STACK_MAX_def)

end
