(* ===== verification/Keyboard.thy ===== *)
theory Keyboard
  imports Dawn_Io
begin

text \<open>
  The PS/2 keyboard handler (keyboard.c): modifiers, the 0xe0 prefix, keypad keys that move Dawn's
  mouse, and the tables from scancodes to characters. A read past the end of a table, which C leaves
  undefined, is an error of its own here.
\<close>

section \<open>Tables\<close>

definition MAX_CODE :: u8 where "MAX_CODE = 0x57"
definition CAPSLOCK :: u8 where "CAPSLOCK = 0x3A"
definition RIGHT_SHIFT :: u8 where "RIGHT_SHIFT = 0x36"
definition LEFT_SHIFT :: u8 where "LEFT_SHIFT = 0x2A"
definition RIGHT_SHIFT_REL :: u8 where "RIGHT_SHIFT_REL = 0xB6"
definition LEFT_SHIFT_REL :: u8 where "LEFT_SHIFT_REL = 0xAA"
definition CTRL :: u8 where "CTRL = 0x1D"
definition CTRL_REL :: u8 where "CTRL_REL = 0x9D"

lemmas kbd_codes = MAX_CODE_def CAPSLOCK_def RIGHT_SHIFT_def LEFT_SHIFT_def RIGHT_SHIFT_REL_def
  LEFT_SHIFT_REL_def CTRL_def CTRL_REL_def

definition ascii_capslock :: "u8 list" where
  "ascii_capslock =
     [0, 27, 49, 50, 51, 52, 53, 54, 55, 56, 57, 48, 45, 61, 8, 9, 81, 87, 69, 82, 84, 89, 85,
      73, 79, 80, 91, 93, 10, 0, 65, 83, 68, 70, 71, 72, 74, 75, 76, 59, 39, 96, 0, 92, 90, 88,
      67, 86, 66, 78, 77, 44, 46, 47, 0, 0, 0, 32]"

definition ascii_shift :: "u8 list" where
  "ascii_shift =
     [0, 27, 33, 64, 35, 36, 37, 94, 38, 42, 40, 41, 95, 43, 8, 9, 81, 87, 69, 82, 84, 89, 85,
      73, 79, 80, 123, 125, 10, 0, 65, 83, 68, 70, 71, 72, 74, 75, 76, 58, 34, 126, 0, 124, 90,
      88, 67, 86, 66, 78, 77, 60, 62, 63, 0, 0, 0, 32]"

definition ascii_shift_capslock :: "u8 list" where
  "ascii_shift_capslock =
     [0, 27, 33, 64, 35, 36, 37, 94, 38, 42, 40, 41, 95, 43, 8, 9, 113, 119, 101, 114, 116, 121,
      117, 105, 111, 112, 123, 125, 10, 0, 97, 115, 100, 102, 103, 104, 106, 107, 108, 58, 34,
      126, 0, 124, 122, 120, 99, 118, 98, 110, 109, 60, 62, 63, 0, 0, 0, 32]"

definition ascii_nomod :: "u8 list" where
  "ascii_nomod =
     [0, 27, 49, 50, 51, 52, 53, 54, 55, 56, 57, 48, 45, 61, 8, 9, 113, 119, 101, 114, 116, 121,
      117, 105, 111, 112, 91, 93, 10, 0, 97, 115, 100, 102, 103, 104, 106, 107, 108, 59, 39, 96,
      0, 92, 122, 120, 99, 118, 98, 110, 109, 44, 46, 47, 0, 0, 0, 32]"

section \<open>The handler\<close>

record kbd =
  capslock_active :: bool
  shift_active :: bool
  ctrl_active :: bool
  extra_scancodes :: bool
  hw_mouse_enabled :: bool
  kb_io :: io_stack
  kb_mem :: mem

definition kb_write :: "u64 \<Rightarrow> u64 \<Rightarrow> kbd \<Rightarrow> kbd outcome" where
  "kb_write loc value st =
     (case dawn_io_write loc value (kb_io st) of Inl msg \<Rightarrow> Inl msg | Inr io \<Rightarrow> Inr (st\<lparr>kb_io := io\<rparr>))"

abbreviation kb_key :: "u64 \<Rightarrow> kbd \<Rightarrow> kbd outcome" where
  "kb_key \<equiv> kb_write DAWN_KEYBOARD_BASE"

definition kb_extra :: "u8 \<Rightarrow> kbd \<Rightarrow> kbd outcome" where
  "kb_extra b st =
     (if b = 0x48 then (if shift_active st then kb_key 18 st else kb_key 14 st)
      else if b = 0x4B then
        (if shift_active st then kb_key 19 st else if ctrl_active st then kb_key 4 st else kb_key 15 st)
      else if b = 0x50 then (if shift_active st then kb_key 20 st else kb_key 16 st)
      else if b = 0x4D then
        (if shift_active st then kb_key 21 st else if ctrl_active st then kb_key 7 st else kb_key 17 st)
      else if b = 0x49 then kb_key 9 st
      else if b = 0x51 then kb_key 10 st
      else if b = 0x53 then kb_key 29 st
      else if b = CTRL then Inr (st\<lparr>ctrl_active := True\<rparr>)
      else if b = CTRL_REL then Inr (st\<lparr>ctrl_active := False\<rparr>)
      else Inr st)"

text \<open>The keypad keys; \<open>None\<close> for any other.\<close>

definition kb_keypad :: "u8 \<Rightarrow> kbd \<Rightarrow> kbd outcome option" where
  "kb_keypad b st =
     (let st = st\<lparr>hw_mouse_enabled := False\<rparr>;
          click = (\<lambda>reg v. Inr (st\<lparr>kb_mem := dawn_writeram (kb_mem st) reg v\<rparr>))
      in if b = 0x4b then Some (kb_write DAWN_MOUSE_REL_X (-0x3000000) st)
         else if b = 0x4d then Some (kb_write DAWN_MOUSE_REL_X 0x3000000 st)
         else if b = 0x48 then Some (kb_write DAWN_MOUSE_REL_Y (-0x3000000) st)
         else if b = 0x50 then Some (kb_write DAWN_MOUSE_REL_Y 0x3000000 st)
         else if b = 0x47 then Some (click DAWN_MOUSE_CLICK_L 0x100000000)
         else if b = 0xc7 then Some (click DAWN_MOUSE_CLICK_L 0)
         else if b = 0x49 then Some (click DAWN_MOUSE_CLICK_R 0x100000000)
         else if b = 0xc9 then Some (click DAWN_MOUSE_CLICK_R 0)
         else if b = 0x4c then Some (click DAWN_MOUSE_CLICK_M 0x100000000)
         else if b = 0xcc then Some (click DAWN_MOUSE_CLICK_M 0)
         else None)"

definition kb_modifier :: "u8 \<Rightarrow> kbd \<Rightarrow> kbd option" where
  "kb_modifier b st =
     (if b = LEFT_SHIFT \<or> b = RIGHT_SHIFT then Some (st\<lparr>shift_active := True\<rparr>)
      else if b = LEFT_SHIFT_REL \<or> b = RIGHT_SHIFT_REL then Some (st\<lparr>shift_active := False\<rparr>)
      else if b = CTRL then Some (st\<lparr>ctrl_active := True\<rparr>)
      else if b = CTRL_REL then Some (st\<lparr>ctrl_active := False\<rparr>)
      else if b = CAPSLOCK then Some (st\<lparr>capslock_active := \<not> capslock_active st\<rparr>)
      else None)"

definition kb_table :: "kbd \<Rightarrow> u8 list" where
  "kb_table st =
     (if \<not> capslock_active st \<and> \<not> shift_active st then ascii_nomod
      else if \<not> capslock_active st \<and> shift_active st then ascii_shift
      else if capslock_active st \<and> shift_active st then ascii_shift_capslock
      else ascii_capslock)"

definition kb_char :: "u8 \<Rightarrow> kbd \<Rightarrow> kbd outcome" where
  "kb_char c st =
     (if (c = 118 \<or> c = 86) \<and> ctrl_active st then kb_key 22 st
      else if (c = 120 \<or> c = 88) \<and> ctrl_active st then kb_key 23 st
      else if (c = 99 \<or> c = 67) \<and> ctrl_active st then kb_key 25 st
      else if c = 10 then kb_key 13 st
      else if c = 27 then kb_key 27 st
      else kb_key (ucast c) st)"

definition keyboard_handler :: "u8 \<Rightarrow> kbd \<Rightarrow> kbd outcome" where
  "keyboard_handler b st =
     (if b = 0xe0 then Inr (st\<lparr>extra_scancodes := True\<rparr>)
      else if extra_scancodes st then kb_extra b (st\<lparr>extra_scancodes := False\<rparr>)
      else case kb_keypad b st of
        Some r \<Rightarrow> r
      | None \<Rightarrow>
          (case kb_modifier b st of
             Some st \<Rightarrow> Inr st
           | None \<Rightarrow>
               if b < MAX_CODE then
                 (if unat b < length (kb_table st) then kb_char (kb_table st ! unat b) st
                  else Inl ''read past the end of the table'')
               else Inr st))"

section \<open>What a scancode queues\<close>

lemma kb_write_push:
  "kb_write loc v st =
     (case io_push \<lparr>io_loc = loc, io_value = v\<rparr> (kb_io st) of
        None \<Rightarrow> Inl ''io_stack overflow'' | Some io \<Rightarrow> Inr (st\<lparr>kb_io := io\<rparr>))"
  by (simp add: kb_write_def io_push_def dawn_io_write_def Let_def)

text \<open>At most one write queued, to one of the given words; overflow only when the queue is full.\<close>

definition queues_one :: "u64 set \<Rightarrow> kbd \<Rightarrow> kbd outcome \<Rightarrow> bool" where
  "queues_one locs st r \<longleftrightarrow>
     (case r of
        Inl msg \<Rightarrow> msg = ''io_stack overflow'' \<and> 4095 \<le> length (io_pending (kb_io st))
      | Inr st' \<Rightarrow> io_ok (kb_io st') \<and> extra_scancodes st' = extra_scancodes st \<and>
          (io_pending (kb_io st') = io_pending (kb_io st) \<or>
           (\<exists>e. io_loc e \<in> locs \<and> io_pending (kb_io st') = io_pending (kb_io st) @ [e])))"

lemma queues_write:
  assumes "io_ok (kb_io st)" "loc \<in> locs"
  shows "queues_one locs st (kb_write loc v st)"
proof (cases "io_push \<lparr>io_loc = loc, io_value = v\<rparr> (kb_io st)")
  case None
  then show ?thesis using io.push_None_iff [OF assms(1)]
    by (simp add: kb_write_push queues_one_def IO_STACK_MAX_def)
next
  case (Some io)
  then show ?thesis using io.push_SomeD [OF assms(1) Some] assms(2)
    by (auto simp: kb_write_push queues_one_def)
qed

lemma queues_none: "io_ok (kb_io st) \<Longrightarrow> kb_io st' = kb_io st \<Longrightarrow> extra_scancodes st' = extra_scancodes st \<Longrightarrow> queues_one locs st (Inr st')"
  by (simp add: queues_one_def)

abbreviation "kb_locs \<equiv> {DAWN_KEYBOARD_BASE, DAWN_MOUSE_REL_X, DAWN_MOUSE_REL_Y}"

lemma queues_extra: "io_ok (kb_io st) \<Longrightarrow> queues_one kb_locs st (kb_extra b st)"
  by (simp add: kb_extra_def queues_write queues_none)

lemma queues_char: "io_ok (kb_io st) \<Longrightarrow> queues_one kb_locs st (kb_char c st)"
  by (simp add: kb_char_def queues_write)

lemma queues_hw: "queues_one locs (st\<lparr>hw_mouse_enabled := v\<rparr>) r = queues_one locs st r"
  by (simp add: queues_one_def cong: sum.case_cong)

lemma queues_keypad:
  assumes "io_ok (kb_io st)" "kb_keypad b st = Some r"
  shows "queues_one kb_locs st r"
proof -
  let ?st = "st\<lparr>hw_mouse_enabled := False\<rparr>"
  have "io_ok (kb_io ?st)" using assms(1) by simp
  note w = queues_write [OF this] queues_none [OF this]
  have "queues_one kb_locs ?st r"
    using assms(2) by (simp add: kb_keypad_def Let_def split: if_splits) (auto intro: w)
  then show ?thesis by (simp add: queues_hw)
qed

lemma queues_modifier: "io_ok (kb_io st) \<Longrightarrow> kb_modifier b st = Some st' \<Longrightarrow> queues_one kb_locs st (Inr st')"
  by (auto simp: kb_modifier_def queues_one_def split: if_splits)

lemma table_length: "length (kb_table st) = 58"
  by (simp add: kb_table_def ascii_nomod_def ascii_shift_def ascii_shift_capslock_def ascii_capslock_def)


text \<open>
  The handler indexes its 58-entry tables with scancodes up to 0x56: every scancode from 0x3B to
  0x56 that is no keypad key reads past their end.
\<close>

lemma keyboard_table_overrun:
  "keyboard_handler b st = Inl ''read past the end of the table'' \<longleftrightarrow>
     \<not> extra_scancodes st \<and> 0x3B \<le> b \<and> b \<le> 0x56 \<and> b \<notin> {0x47, 0x48, 0x49, 0x4b, 0x4c, 0x4d, 0x50}"
proof -
  have w: "kb_write loc v s \<noteq> Inl ''read past the end of the table''" for loc v s
    by (simp add: kb_write_push split: option.splits)
  have c: "kb_char x s \<noteq> Inl ''read past the end of the table''" for x s by (simp add: kb_char_def w)
  have e: "kb_extra x s \<noteq> Inl ''read past the end of the table''" for x s by (simp add: kb_extra_def w)
  have k: "kb_keypad b st = None \<longleftrightarrow> b \<notin> {0x47, 0x48, 0x49, 0x4b, 0x4c, 0x4d, 0x50, 0xc7, 0xc9, 0xcc}"
    by (simp add: kb_keypad_def Let_def)
  have kn: "kb_keypad b st = Some r \<Longrightarrow> r \<noteq> Inl ''read past the end of the table''" for r
    using w by (auto simp: kb_keypad_def Let_def split: if_splits)
  have m: "kb_modifier b st = None \<longleftrightarrow> b \<notin> {0x2A, 0x36, 0xAA, 0xB6, 0x1D, 0x9D, 0x3A}"
    by (auto simp: kb_modifier_def kbd_codes)
  have lt: "unat b < 58 \<longleftrightarrow> b < 58" by (simp add: word_less_nat_alt)
  show ?thesis
  proof (cases "kb_keypad b st")
    case (Some r)
    then have "b \<in> {0x47, 0x48, 0x49, 0x4b, 0x4c, 0x4d, 0x50, 0xc7, 0xc9, 0xcc}" using k by auto
    then show ?thesis using Some kn e by (auto simp: keyboard_handler_def)
  next
    case None
    note kp = None
    have nk: "b \<notin> {0x47, 0x48, 0x49, 0x4b, 0x4c, 0x4d, 0x50}" using None k by auto
    consider "b = 0xe0" | "b \<noteq> 0xe0" "extra_scancodes st" | "b \<noteq> 0xe0" "\<not> extra_scancodes st" by blast
    then show ?thesis
    proof cases
      case 3
      show ?thesis
      proof (cases "kb_modifier b st")
        case None
        then have "b \<noteq> 0x3A" using m by auto
        then have "b < 0x57 \<and> \<not> b < 58 \<longleftrightarrow> 0x3B \<le> b \<and> b \<le> 0x56"
          by (simp add: word_less_nat_alt word_le_nat_alt word_unat_eq_iff) linarith
        moreover have "keyboard_handler b st = Inl ''read past the end of the table'' \<longleftrightarrow> b < 0x57 \<and> \<not> b < 58"
          using 3 None kp c by (simp add: keyboard_handler_def table_length lt MAX_CODE_def)
        ultimately show ?thesis using 3(2) nk by blast
      next
        case (Some st')
        then have "b \<in> {0x2A, 0x36, 0xAA, 0xB6, 0x1D, 0x9D, 0x3A}" using m by auto
        then show ?thesis using 3 Some kp by (auto simp: keyboard_handler_def)
      qed
    qed (auto simp: keyboard_handler_def e)
  qed
qed

text \<open>Case, as ASCII has it.\<close>

definition upcase :: "u8 \<Rightarrow> u8" where
  "upcase c = (if 97 \<le> c \<and> c \<le> 122 then c - 32 else c)"

definition downcase :: "u8 \<Rightarrow> u8" where
  "downcase c = (if 65 \<le> c \<and> c \<le> 90 then c + 32 else c)"

lemma capslock_tables: "ascii_capslock = map upcase ascii_nomod" "ascii_shift_capslock = map downcase ascii_shift"
  by code_simp+

text \<open>
  Caps lock changes the case of letters and no other key: without shift it gives each key's
  character in upper case, with shift in lower case.
\<close>

theorem keyboard_capslock_case:
  assumes "i < 58" "capslock_active st"
  shows "kb_table st ! i =
    (if shift_active st then downcase else upcase) (kb_table (st\<lparr>capslock_active := False\<rparr>) ! i)"
proof -
  have "length ascii_nomod = 58" "length ascii_shift = 58" by (simp_all add: ascii_nomod_def ascii_shift_def)
  then show ?thesis using assms by (simp add: kb_table_def capslock_tables)
qed

definition idle_kbd :: kbd where
  "idle_kbd = \<lparr>capslock_active = True, shift_active = False, ctrl_active = False, extra_scancodes = False,
     hw_mouse_enabled = False, kb_io = io_two, kb_mem = (\<lambda>_. 0)\<rparr>"


theorem keyboard_capslock_case_witness:
  "kb_table idle_kbd ! 30 = 65 \<and> kb_table (idle_kbd\<lparr>capslock_active := False\<rparr>) ! 30 = 97"
  using keyboard_capslock_case [of 30 idle_kbd] by (simp add: idle_kbd_def kb_table_def ascii_nomod_def upcase_def)

end
