(* ===== verification/Graphics.thy ===== *)
theory Graphics
  imports Prelude
begin

text \<open>
  The framebuffer and its two antibuffers (graphics.c): the pixel accessors and the asm loop of
  \<open>swap_vbufs\<close>. A C \<open>int\<close> is an \<^typ>\<open>int\<close> here, converted where the code converts it; the three
  buffers are separate arrays of pixels, indexed by the \<open>size_t\<close> the code computes.
\<close>

record graphics =
  framebuffer :: "u64 \<Rightarrow> u32"
  antibuffer0 :: "u64 \<Rightarrow> u32"
  antibuffer1 :: "u64 \<Rightarrow> u32"
  vbe_width :: int
  vbe_height :: int
  vbe_pitch :: int

section \<open>Pixels\<close>

definition fb_index :: "graphics \<Rightarrow> int \<Rightarrow> int \<Rightarrow> u64" where
  "fb_index g x y = of_int x + (of_int (vbe_pitch g) div 4) * of_int y"

definition plot_px :: "int \<Rightarrow> int \<Rightarrow> u32 \<Rightarrow> graphics \<Rightarrow> graphics" where
  "plot_px x y hex g =
     (if x \<ge> vbe_width g \<or> y \<ge> vbe_height g then g
      else g\<lparr>framebuffer := (framebuffer g)(fb_index g x y := hex)\<rparr>)"

definition get_ab0_px :: "int \<Rightarrow> int \<Rightarrow> graphics \<Rightarrow> u32" where
  "get_ab0_px x y g =
     (if x \<ge> vbe_width g \<or> y \<ge> vbe_height g then 0 else antibuffer0 g (fb_index g x y))"

definition plot_ab0_px :: "int \<Rightarrow> int \<Rightarrow> u32 \<Rightarrow> graphics \<Rightarrow> graphics" where
  "plot_ab0_px x y hex g =
     (if x \<ge> vbe_width g \<or> y \<ge> vbe_height g then g
      else g\<lparr>antibuffer0 := (antibuffer0 g)(fb_index g x y := hex)\<rparr>)"

text \<open>
  A mode: its dimensions fit a C \<open>int\<close>, with room for the 16 rows of a cursor on the last line, and
  a line of pixels fits the pitch.
\<close>

definition mode_ok :: "graphics \<Rightarrow> bool" where
  "mode_ok g \<longleftrightarrow> 0 < vbe_width g \<and> 0 < vbe_height g \<and> vbe_height g \<le> 2 ^ 31 - 16 \<and>
     vbe_width g \<le> vbe_pitch g div 4 \<and> vbe_pitch g < 2 ^ 31"

definition on_screen :: "graphics \<Rightarrow> int \<Rightarrow> int \<Rightarrow> bool" where
  "on_screen g x y \<longleftrightarrow> 0 \<le> x \<and> x < vbe_width g \<and> 0 \<le> y \<and> y < vbe_height g"

lemma unat_of_int_u64: "0 \<le> x \<Longrightarrow> x < 2 ^ 64 \<Longrightarrow> unat (of_int x :: u64) = nat x"
  by (simp add: unsigned_of_int take_bit_int_eq_self)

lemma of_int_div_4: "0 \<le> p \<Longrightarrow> p < 2 ^ 31 \<Longrightarrow> (of_int p :: u64) div 4 = of_int (p div 4)"
  by (simp add: word_unat_eq_iff unat_div unat_of_int_u64 nat_div_distrib)

lemma fb_index_no_wrap:
  assumes "mode_ok g" "on_screen g x y"
  shows "int (unat (fb_index g x y)) = x + (vbe_pitch g div 4) * y"
proof -
  let ?q = "vbe_pitch g div 4"
  have r: "0 \<le> x" "x < ?q" "0 \<le> y" "y < 2 ^ 31" "?q < 2 ^ 29" "0 < ?q"
    using assms by (auto simp: mode_ok_def on_screen_def)
  have d: "(of_int (vbe_pitch g) :: u64) div 4 = of_int ?q"
    using r assms(1) by (intro of_int_div_4) (auto simp: mode_ok_def)
  have "?q * y \<le> 2 ^ 29 * 2 ^ 31" using r by (intro mult_mono) auto
  then have "x + ?q * y < 2 ^ 64" "0 \<le> x + ?q * y" using r by auto
  then have "unat (of_int (x + ?q * y) :: u64) = nat (x + ?q * y)" by (intro unat_of_int_u64)
  moreover have "fb_index g x y = of_int (x + ?q * y)" by (simp add: fb_index_def d)
  ultimately show ?thesis using \<open>0 \<le> x + ?q * y\<close> by simp
qed

text \<open>The index of a pixel on the screen is inside the buffers, and is that of no other pixel.\<close>

lemma fb_index_bounds:
  assumes "mode_ok g" "on_screen g x y"
  shows "int (unat (fb_index g x y)) < (vbe_pitch g div 4) * vbe_height g"
proof -
  have "x < vbe_pitch g div 4" "y + 1 \<le> vbe_height g" "0 < vbe_pitch g div 4"
    using assms by (auto simp: mode_ok_def on_screen_def)
  then have "x + (vbe_pitch g div 4) * y < (vbe_pitch g div 4) * (y + 1)" by (simp add: distrib_left)
  also have "\<dots> \<le> (vbe_pitch g div 4) * vbe_height g"
    using \<open>y + 1 \<le> _\<close> \<open>0 < vbe_pitch g div 4\<close> by (intro mult_left_mono) auto
  finally show ?thesis by (simp only: fb_index_no_wrap [OF assms])
qed

lemma fb_index_inj:
  assumes "mode_ok g" "on_screen g x y" "on_screen g x' y'" "fb_index g x y = fb_index g x' y'"
  shows "x = x' \<and> y = y'"
proof -
  let ?q = "vbe_pitch g div 4"
  have e: "x + ?q * y = x' + ?q * y'"
    using fb_index_no_wrap [OF assms(1,2)] fb_index_no_wrap [OF assms(1,3)] assms(4) by simp
  have b: "0 \<le> x" "x < ?q" "0 \<le> x'" "x' < ?q" using assms by (auto simp: mode_ok_def on_screen_def)
  have "y = (x + ?q * y) div ?q" "y' = (x' + ?q * y') div ?q" using b by simp_all
  then have "y = y'" using e by simp
  then show ?thesis using e by simp
qed

section \<open>The buffer swap\<close>

text \<open>
  The loop compares, moves or skips one pixel, and counts \<open>rcx\<close> down: it runs \<open>n\<close> more times,
  \<open>i\<close> being the pixel the three pointers are at.
\<close>

fun swap_loop :: "nat \<Rightarrow> u64 \<Rightarrow> graphics \<Rightarrow> graphics" where
  "swap_loop 0 i g = g"
| "swap_loop (Suc n) i g =
     (let eax = antibuffer0 g i
      in if eax \<noteq> antibuffer1 g i
         then swap_loop n (i + 1) (g\<lparr>framebuffer := (framebuffer g)(i := eax)\<rparr>)
         else swap_loop n (i + 1) g)"

text \<open>\<open>decq; jnz\<close>: a count of 0 would go around 2 ^ 64 times.\<close>

definition swap_count :: "graphics \<Rightarrow> u64" where
  "swap_count g = (of_int (vbe_pitch g) div 4) * of_int (vbe_height g)"

definition swap_vbufs :: "graphics \<Rightarrow> graphics" where
  "swap_vbufs g = swap_loop (if swap_count g = 0 then 2 ^ 64 else unat (swap_count g)) 0 g"

lemma swap_loop_frame [simp]:
  "antibuffer0 (swap_loop n i g) = antibuffer0 g"
  "antibuffer1 (swap_loop n i g) = antibuffer1 g"
  "vbe_width (swap_loop n i g) = vbe_width g"
  "vbe_height (swap_loop n i g) = vbe_height g"
  "vbe_pitch (swap_loop n i g) = vbe_pitch g"
  by (induction n i g rule: swap_loop.induct) (auto simp: Let_def)

lemma swap_loop_pixel:
  "n \<le> 2 ^ 64 \<Longrightarrow> framebuffer (swap_loop n i g) k =
     (if unat (k - i) < n \<and> antibuffer0 g k \<noteq> antibuffer1 g k then antibuffer0 g k else framebuffer g k)"
proof (induction n i g rule: swap_loop.induct)
  case (1 i g)
  then show ?case by simp
next
  case (2 n i g)
  have less: "unat (k - i) < Suc n \<longleftrightarrow> k = i \<or> unat (k - (i + 1)) < n" if "n < 2 ^ 64"
  proof (cases "k = i")
    case False
    then have "k - i \<noteq> 0" by simp
    then have "unat (k - i - 1) = unat (k - i) - 1" by (rule unat_minus_one)
    moreover have "0 < unat (k - i)" using \<open>k - i \<noteq> 0\<close> by (simp add: unat_gt_0)
    ultimately show ?thesis using False by (auto simp: diff_diff_eq)
  qed simp
  have n: "n < 2 ^ 64" "n \<le> 2 ^ 64" using 2(3) by auto
  show ?case
  proof (cases "antibuffer0 g i \<noteq> antibuffer1 g i")
    case True
    have "framebuffer (swap_loop (Suc n) i g) k =
        framebuffer (swap_loop n (i + 1) (g\<lparr>framebuffer := (framebuffer g)(i := antibuffer0 g i)\<rparr>)) k"
      using True by simp
    then show ?thesis using 2(1) [OF refl True n(2)] less [OF n(1)] True by auto
  next
    case False
    then have "framebuffer (swap_loop (Suc n) i g) k = framebuffer (swap_loop n (i + 1) g) k" by simp
    then show ?thesis using 2(2) [OF refl False n(2)] less [OF n(1)] False by auto
  qed
qed

text \<open>
  When the framebuffer shows what \<open>antibuffer1\<close> holds, the swap makes every pixel of it show
  what \<open>antibuffer0\<close> holds, for any mode, and writes nothing outside the buffer.
\<close>

lemma swap_vbufs_shows_antibuffer0:
  assumes "mode_ok g"
    and "\<And>k. unat k < unat (swap_count g) \<Longrightarrow> framebuffer g k = antibuffer1 g k"
  shows "int (unat (swap_count g)) = (vbe_pitch g div 4) * vbe_height g \<and>
    (\<forall>k. framebuffer (swap_vbufs g) k =
       (if unat k < unat (swap_count g) then antibuffer0 g k else framebuffer g k)) \<and>
    swap_vbufs g = g\<lparr>framebuffer := framebuffer (swap_vbufs g)\<rparr>"
proof -
  let ?q = "vbe_pitch g div 4"
  have q: "0 < ?q" "?q < 2 ^ 29" and h: "0 < vbe_height g" "vbe_height g < 2 ^ 31"
    using assms(1) by (auto simp: mode_ok_def)
  have "?q * vbe_height g \<le> 2 ^ 29 * 2 ^ 31" using q h by (intro mult_mono) auto
  then have b: "0 < ?q * vbe_height g" "?q * vbe_height g < 2 ^ 64" using q h by auto
  have d: "(of_int (vbe_pitch g) :: u64) div 4 = of_int ?q"
    using q assms(1) by (intro of_int_div_4) (auto simp: mode_ok_def)
  have "swap_count g = of_int (?q * vbe_height g)" by (simp add: swap_count_def d)
  then have "unat (swap_count g) = nat (?q * vbe_height g)" using b by (simp only: unat_of_int_u64)
  then have c: "int (unat (swap_count g)) = ?q * vbe_height g" "swap_count g \<noteq> 0" using b by auto
  have le: "unat (swap_count g) \<le> 2 ^ 64" using unat_u64_bound [of "swap_count g"] by simp
  have e: "swap_vbufs g = swap_loop (unat (swap_count g)) 0 g" using c by (simp add: swap_vbufs_def)
  have "framebuffer (swap_vbufs g) k =
      (if unat k < unat (swap_count g) then antibuffer0 g k else framebuffer g k)" for k
    using assms(2) [of k] by (auto simp: e swap_loop_pixel [OF le])
  moreover have "swap_vbufs g = g\<lparr>framebuffer := framebuffer (swap_vbufs g)\<rparr>"
    by (simp add: e)
  ultimately show ?thesis using c(1) by blast
qed

text \<open>A 3 by 2 mode whose lines are 4 pixels apart.\<close>

definition tiny_mode :: graphics where
  "tiny_mode = \<lparr>framebuffer = (\<lambda>i. if i = 9 then 8 else 7), antibuffer0 = (\<lambda>i. if i < 3 then 5 else 7),
     antibuffer1 = (\<lambda>_. 7), vbe_width = 3, vbe_height = 2, vbe_pitch = 16\<rparr>"

theorem swap_vbufs_shows_antibuffer0_witness:
  "framebuffer (swap_vbufs tiny_mode) 2 = 5 \<and> framebuffer (swap_vbufs tiny_mode) 3 = 7 \<and>
   framebuffer (swap_vbufs tiny_mode) 9 = 8"
proof -
  have c: "swap_count tiny_mode = 8" by code_simp
  have m: "mode_ok tiny_mode" by code_simp
  have "framebuffer tiny_mode k = antibuffer1 tiny_mode k" if "unat k < unat (swap_count tiny_mode)" for k
  proof -
    have "k \<noteq> 9" using that by (auto simp: c)
    then show ?thesis by (simp add: tiny_mode_def)
  qed
  note t = swap_vbufs_shows_antibuffer0 [OF m this]
  show ?thesis using t by (simp add: c, simp add: tiny_mode_def)
qed

end
