(* ===== verification/Mouse.thy ===== *)
theory Mouse
  imports Dawn_Io Graphics
begin

text \<open>
  The PS/2 mouse (mouse.c): the three-byte packets of the controller, the position and buttons they
  give, the queue of button changes that Dawn has not seen, the registers Dawn reads, and the
  cursor. Positions are C \<open>int\<close>s, scaled to 32.32 fixed point in \<open>uint64_t\<close> arithmetic.
\<close>

section \<open>State\<close>

record mouse_packet =
  pk_flags :: u8
  pk_x_mov :: u8
  pk_y_mov :: u8

record dmouse_packet =
  dp_mouse_x :: u64
  dp_mouse_y :: u64
  dp_click_l :: u64
  dp_click_r :: u64
  dp_click_m :: u64

text \<open>
  \<open>mouse_enabled\<close> is \<open>hw_mouse_enabled\<close>; \<open>dawn_mouse\<close> holds the five \<open>dawn_mouse_*\<close> variables.
\<close>

record mouse =
  mouse_enabled :: bool
  mouse_x :: int
  mouse_y :: int
  last_plotted_mouse_x :: int
  last_plotted_mouse_y :: int
  dawn_mouse :: dmouse_packet
  packets :: "nat \<Rightarrow> dmouse_packet"
  packet_i :: nat
  handler_cycle :: nat
  current_packet :: mouse_packet
  discard_packet :: bool

definition MAX_PACKETS :: nat where "MAX_PACKETS = 1024"

section \<open>The controller\<close>

text \<open>
  How many times \<open>mouse_wait\<close> reads the status port, \<open>st i\<close> being what the \<open>i\<close>th read gives: it
  gives up after 100000 reads.
\<close>

definition mouse_wait :: "u8 \<Rightarrow> (nat \<Rightarrow> u8) \<Rightarrow> nat" where
  "mouse_wait a_type st =
     (case find_from (\<lambda>i. if a_type = 0 then st i AND 1 = 1 else st i AND 2 = 0) 0 100000 of
        Some i \<Rightarrow> i + 1
      | None \<Rightarrow> 100000)"

text \<open>The port writes of \<open>mouse_write\<close> and \<open>mouse_init\<close>; \<open>status\<close> is the byte the controller answers.\<close>

definition mouse_write :: "u8 \<Rightarrow> (u16 \<times> u8) list" where
  "mouse_write a_write = [(0x64, 0xD4), (0x60, a_write)]"

definition scale_position :: "u64 \<Rightarrow> u64 \<Rightarrow> u64 \<Rightarrow> u64 \<Rightarrow> u64 \<Rightarrow> u64" where
  "scale_position mn mx oldmin oldmax val = (oldmax - oldmin) * (val - mn) div (mx - mn) + oldmin"

definition mouse_init :: "u8 \<Rightarrow> graphics \<Rightarrow> mouse \<Rightarrow> mouse \<times> (u16 \<times> u8) list" where
  "mouse_init status g s =
     (let mx = vbe_width g div 2; my = vbe_height g div 2;
          status' = (status OR 2) AND NOT 0x20
      in (s\<lparr>mouse_x := mx, mouse_y := my,
            dawn_mouse := (dawn_mouse s)
              \<lparr>dp_mouse_x := scale_position 0 (of_int (vbe_width g)) 0 DAWN_FIXED_ONE (of_int mx),
               dp_mouse_y := scale_position 0 (of_int (vbe_height g)) 0 DAWN_FIXED_ONE (of_int my)\<rparr>\<rparr>,
          [(0x64, 0xA8), (0x64, 0x20), (0x64, 0x60), (0x60, status')] @ mouse_write 0xF6 @ mouse_write 0xF4))"

section \<open>The cursor\<close>

definition cursor :: "int list" where
  "cursor = (let X = 0x00ffffff; B = 0x00000000; ot = -1 in
    [X, X, X, X, X, X, X, X, X, X, X, X, ot, ot, ot, ot,
     X, B, B, B, B, B, B, B, B, B, X, ot, ot, ot, ot, ot,
     X, B, B, B, B, B, B, B, B, X, ot, ot, ot, ot, ot, ot,
     X, B, B, B, B, B, B, B, X, ot, ot, ot, ot, ot, ot, ot,
     X, B, B, B, B, B, B, X, ot, ot, ot, ot, ot, ot, ot, ot,
     X, B, B, B, B, B, B, B, X, ot, ot, ot, ot, ot, ot, ot,
     X, B, B, B, B, B, B, B, B, X, ot, ot, ot, ot, ot, ot,
     X, B, B, B, X, B, B, B, B, B, X, ot, ot, ot, ot, ot,
     X, B, B, X, ot, X, B, B, B, B, B, X, ot, ot, ot, ot,
     X, B, X, ot, ot, ot, X, B, B, B, B, B, X, ot, ot, ot,
     X, X, ot, ot, ot, ot, ot, X, B, B, B, B, B, X, ot, ot,
     X, ot, ot, ot, ot, ot, ot, ot, X, B, B, B, B, B, X, ot,
     ot, ot, ot, ot, ot, ot, ot, ot, ot, X, B, B, B, B, B, X,
     ot, ot, ot, ot, ot, ot, ot, ot, ot, ot, X, B, B, B, X, ot,
     ot, ot, ot, ot, ot, ot, ot, ot, ot, ot, ot, X, B, X, ot, ot,
     ot, ot, ot, ot, ot, ot, ot, ot, ot, ot, ot, ot, X, ot, ot, ot])"

text \<open>An \<open>int\<close> plus a \<open>size_t\<close>, passed as an \<open>int\<close>.\<close>

definition px_coord :: "int \<Rightarrow> nat \<Rightarrow> int" where
  "px_coord c k = sint (ucast (of_int c + of_nat k :: u64) :: i32)"

definition cursor_cells :: "(nat \<times> nat) list" where
  "cursor_cells = concat (map (\<lambda>x. map (\<lambda>y. (x, y)) [0..<16]) [0..<16])"

definition erase_px :: "mouse \<Rightarrow> nat \<times> nat \<Rightarrow> graphics \<Rightarrow> graphics" where
  "erase_px s = (\<lambda>(x, y) g.
     let px = px_coord (last_plotted_mouse_x s) x; py = px_coord (last_plotted_mouse_y s) y
     in plot_px px py (get_ab0_px px py g) g)"

definition draw_px :: "mouse \<Rightarrow> nat \<times> nat \<Rightarrow> graphics \<Rightarrow> graphics" where
  "draw_px s = (\<lambda>(x, y) g.
     if cursor ! (x * 16 + y) \<noteq> -1
     then plot_px (px_coord (mouse_x s) x) (px_coord (mouse_y s) y) (of_int (cursor ! (x * 16 + y))) g
     else g)"

definition put_mouse_cursor :: "bool \<Rightarrow> mouse \<times> graphics \<Rightarrow> mouse \<times> graphics" where
  "put_mouse_cursor refresh = (\<lambda>(s, g).
     if \<not> mouse_enabled s then (s, fold (erase_px s) cursor_cells g)
     else let g = (if \<not> refresh then fold (erase_px s) cursor_cells g else g);
              g = fold (draw_px s) cursor_cells g
          in (s\<lparr>last_plotted_mouse_x := mouse_x s, last_plotted_mouse_y := mouse_y s\<rparr>, g))"

section \<open>Packets\<close>

definition click :: "u8 \<Rightarrow> nat \<Rightarrow> u64" where
  "click flags n = (if bit flags n then DAWN_FIXED_ONE else 0)"

text \<open>Movements are 9-bit two's complement, with the sign bits in the flags.\<close>

definition movement :: "u8 \<Rightarrow> bool \<Rightarrow> int" where
  "movement mov sign = (if sign then uint mov - 256 else uint mov)"

definition clamp_position :: "int \<Rightarrow> int \<Rightarrow> int" where
  "clamp_position pos dim = (if pos < 0 then 0 else if pos \<ge> dim then dim - 1 else pos)"

definition process_packet :: "mouse_packet \<Rightarrow> graphics \<Rightarrow> mouse \<Rightarrow> dmouse_packet \<times> mouse" where
  "process_packet p g s =
     (let x_mov = movement (pk_x_mov p) (bit (pk_flags p) 4);
          y_mov = movement (pk_y_mov p) (bit (pk_flags p) 5);
          mx = clamp_position (mouse_x s + x_mov) (vbe_width g);
          my = clamp_position (mouse_y s - y_mov) (vbe_height g)
      in (\<lparr>dp_mouse_x = scale_position 0 (of_int (vbe_width g)) 0 DAWN_FIXED_ONE (of_int mx),
           dp_mouse_y = scale_position 0 (of_int (vbe_height g)) 0 DAWN_FIXED_ONE (of_int my),
           dp_click_l = click (pk_flags p) 0,
           dp_click_r = click (pk_flags p) 1,
           dp_click_m = click (pk_flags p) 2\<rparr>,
          s\<lparr>mouse_x := mx, mouse_y := my\<rparr>))"

text \<open>The packet changes this button, compared with the state \<open>c\<close> it is checked against.\<close>

definition button_differs :: "bool \<Rightarrow> u64 \<Rightarrow> bool" where
  "button_differs pressed c = (if pressed then c = 0 else c \<noteq> 0)"

definition is_location_info :: "mouse_packet \<Rightarrow> mouse \<Rightarrow> bool" where
  "is_location_info p s =
     (let r = (if packet_i s \<noteq> 0 then packets s (packet_i s - 1) else dawn_mouse s)
      in \<not> (button_differs (bit (pk_flags p) 0) (dp_click_l r) \<or>
            button_differs (bit (pk_flags p) 1) (dp_click_r r) \<or>
            button_differs (bit (pk_flags p) 2) (dp_click_m r)))"

definition packet_push :: "dmouse_packet \<Rightarrow> mouse \<Rightarrow> mouse option" where
  "packet_push dp s =
     (if packet_i s = MAX_PACKETS then None
      else Some (s\<lparr>packets := (packets s)(packet_i s := dp), packet_i := packet_i s + 1\<rparr>))"

text \<open>The shift loop of \<open>mouse_update\<close>, \<open>i\<close> from 1 to \<open>packet_i - 1\<close>.\<close>

definition shift_packets :: "mouse \<Rightarrow> mouse" where
  "shift_packets s =
     s\<lparr>packets := fold (\<lambda>i ps. ps(i - 1 := ps i)) [1..<packet_i s] (packets s), packet_i := packet_i s - 1\<rparr>"

definition packet_pop :: "mouse \<Rightarrow> (dmouse_packet \<times> mouse) option" where
  "packet_pop s = (if packet_i s = 0 then None else Some (packets s 0, shift_packets s))"

text \<open>The handler of the mouse interrupt; \<open>b\<close> is the byte \<open>mouse_read\<close> gives.\<close>

definition complete_packet :: "mouse \<times> graphics \<Rightarrow> (mouse \<times> graphics) outcome" where
  "complete_packet = (\<lambda>(s, g).
     let s = s\<lparr>mouse_enabled := True\<rparr>;
         (dp, s) = process_packet (current_packet s) g s;
         (s, g) = put_mouse_cursor False (s, g)
     in if is_location_info (current_packet s) s then Inr (s\<lparr>dawn_mouse := dp\<rparr>, g)
        else case packet_push dp s of
               None \<Rightarrow> Inl ''mouse packets overflow''
             | Some s \<Rightarrow> Inr (s, g))"

definition mouse_handler :: "u8 \<Rightarrow> mouse \<times> graphics \<Rightarrow> (mouse \<times> graphics) outcome" where
  "mouse_handler b = (\<lambda>(s, g).
     if handler_cycle s = 0 then
       let s = s\<lparr>current_packet := (current_packet s)\<lparr>pk_flags := b\<rparr>, handler_cycle := 1\<rparr>;
           s = (if bit b 6 \<or> bit b 7 then s\<lparr>discard_packet := True\<rparr> else s);
           s = (if \<not> bit b 3 then s\<lparr>discard_packet := True\<rparr> else s)
       in Inr (s, g)
     else if handler_cycle s = 1 then
       Inr (s\<lparr>current_packet := (current_packet s)\<lparr>pk_x_mov := b\<rparr>, handler_cycle := 2\<rparr>, g)
     else if handler_cycle s = 2 then
       let s = s\<lparr>current_packet := (current_packet s)\<lparr>pk_y_mov := b\<rparr>, handler_cycle := 0\<rparr>
       in if discard_packet s then Inr (s\<lparr>discard_packet := False\<rparr>, g)
          else complete_packet (s, g)
     else Inr (s, g))"

text \<open>What the timer runs, 60 times a second or so.\<close>

definition mouse_regs_clear :: "mem \<Rightarrow> bool" where
  "mouse_regs_clear m \<longleftrightarrow>
     \<not> (dawn_readram m DAWN_MOUSE_REL_X \<noteq> 0 \<or> dawn_readram m DAWN_MOUSE_REL_Y \<noteq> 0 \<or>
        dawn_readram m DAWN_MOUSE_ABS_X \<noteq> 0 \<or> dawn_readram m DAWN_MOUSE_ABS_Y \<noteq> 0 \<or>
        dawn_readram m DAWN_MOUSE_TOUCH \<noteq> 0 \<or> dawn_readram m DAWN_MOUSE_SCROLL \<noteq> 0)"

definition put_mouse_regs :: "dmouse_packet \<Rightarrow> mem \<Rightarrow> mem" where
  "put_mouse_regs d m =
     (let m = dawn_writeram m DAWN_MOUSE_CLICK_L (dp_click_l d);
          m = dawn_writeram m DAWN_MOUSE_CLICK_R (dp_click_r d);
          m = dawn_writeram m DAWN_MOUSE_CLICK_M (dp_click_m d);
          m = dawn_writeram m DAWN_MOUSE_ABS_X (dp_mouse_x d)
      in dawn_writeram m DAWN_MOUSE_ABS_Y (dp_mouse_y d))"

definition mouse_update :: "mem \<times> mouse \<Rightarrow> mem \<times> mouse" where
  "mouse_update = (\<lambda>(m, s).
     if \<not> mouse_enabled s then (m, s)
     else if \<not> mouse_regs_clear m then (m, s)
     else let s = (case packet_pop s of None \<Rightarrow> s | Some (d, s) \<Rightarrow> s\<lparr>dawn_mouse := d\<rparr>)
          in (put_mouse_regs (dawn_mouse s) m, s))"

section \<open>The packet queue is a bounded queue\<close>

definition packets_ok :: "mouse \<Rightarrow> bool" where
  "packets_ok s \<longleftrightarrow> packet_i s \<le> MAX_PACKETS"

definition queued :: "mouse \<Rightarrow> dmouse_packet list" where
  "queued s = map (packets s) [0..<packet_i s]"

lemma shift_fold:
  "fold (\<lambda>i ps. ps(i - 1 := ps i)) [1..<n] ps j = (if Suc j < n then ps (Suc j) else ps j)"
proof (induction n arbitrary: j)
  case 0
  then show ?case by simp
next
  case (Suc n)
  show ?case
  proof (cases "n = 0")
    case False
    then have "[1..<Suc n] = [1..<n] @ [n]" by simp
    then show ?thesis using Suc.IH [of n] Suc.IH [of j] False by (auto simp: less_Suc_eq)
  qed simp
qed

lemma queued_shift: "queued (shift_packets s) = tl (queued s)"
  by (rule nth_equalityI) (simp_all add: queued_def shift_packets_def shift_fold [unfolded One_nat_def] nth_tl)

lemma shift_frame [simp]:
  "packet_i (shift_packets s) = packet_i s - 1" "dawn_mouse (shift_packets s) = dawn_mouse s"
  "handler_cycle (shift_packets s) = handler_cycle s" "mouse_x (shift_packets s) = mouse_x s"
  "mouse_y (shift_packets s) = mouse_y s" "mouse_enabled (shift_packets s) = mouse_enabled s"
  "discard_packet (shift_packets s) = discard_packet s"
  "current_packet (shift_packets s) = current_packet s"
  "last_plotted_mouse_x (shift_packets s) = last_plotted_mouse_x s"
  "last_plotted_mouse_y (shift_packets s) = last_plotted_mouse_y s"
  by (simp_all add: shift_packets_def)

lemma queued_simps [simp]: "queued (s\<lparr>dawn_mouse := d\<rparr>) = queued s"
  "queued (s\<lparr>mouse_enabled := e\<rparr>) = queued s" "length (queued s) = packet_i s"
  by (simp_all add: queued_def)

interpretation mq: bounded_fifo packets_ok queued packet_push packet_pop MAX_PACKETS
proof unfold_locales
  fix s :: mouse and x xs
  {
    assume "packets_ok s" "length (queued s) < MAX_PACKETS"
    then show "\<exists>s'. packet_push x s = Some s' \<and> packets_ok s' \<and> queued s' = queued s @ [x]"
      by (auto simp: packet_push_def packets_ok_def queued_def)
  next
    assume "packets_ok s" "MAX_PACKETS \<le> length (queued s)"
    then show "packet_push x s = None" by (simp add: packet_push_def packets_ok_def queued_def)
  next
    assume ok: "packets_ok s" and c: "queued s = x # xs"
    have n: "packet_i s \<noteq> 0" using arg_cong [OF c, of length] by simp
    have "packets s 0 = x" using c n by (cases "packet_i s") (auto simp: queued_def upt_rec)
    then show "\<exists>s'. packet_pop s = Some (x, s') \<and> packets_ok s' \<and> queued s' = xs"
      using ok n by (auto simp: packet_pop_def packets_ok_def queued_shift c)
  next
    assume "queued s = []"
    then show "packet_pop s = None" by (auto simp: packet_pop_def queued_def)
  }
qed

section \<open>Position and cursor\<close>

definition mouse_ok :: "graphics \<Rightarrow> mouse \<Rightarrow> bool" where
  "mouse_ok g s \<longleftrightarrow> on_screen g (mouse_x s) (mouse_y s) \<and>
     on_screen g (last_plotted_mouse_x s) (last_plotted_mouse_y s) \<and>
     packets_ok s \<and> handler_cycle s < 3"

lemma clamp_range: "0 < w \<Longrightarrow> 0 \<le> clamp_position pos w \<and> clamp_position pos w < w"
  by (simp add: clamp_position_def)

text \<open>A change of the framebuffer at points of the screen only.\<close>

definition draws_inside :: "graphics \<Rightarrow> graphics \<Rightarrow> bool" where
  "draws_inside g g' \<longleftrightarrow> g' = g\<lparr>framebuffer := framebuffer g'\<rparr> \<and>
     (\<forall>k. framebuffer g' k \<noteq> framebuffer g k \<longrightarrow> (\<exists>x y. on_screen g x y \<and> k = fb_index g x y))"

lemma draws_inside_refl [simp]: "draws_inside g g"
  by (simp add: draws_inside_def)

lemma draws_inside_screen:
  assumes "draws_inside g g'"
  shows "on_screen g' = on_screen g" "fb_index g' = fb_index g" "mode_ok g' = mode_ok g"
    "vbe_width g' = vbe_width g" "vbe_height g' = vbe_height g"
proof -
  have e: "g' = g\<lparr>framebuffer := framebuffer g'\<rparr>" using assms by (simp add: draws_inside_def)
  show "on_screen g' = on_screen g" "fb_index g' = fb_index g" "mode_ok g' = mode_ok g"
    "vbe_width g' = vbe_width g" "vbe_height g' = vbe_height g"
    by (subst e, simp add: on_screen_def fb_index_def mode_ok_def fun_eq_iff)+
qed

lemma draws_inside_trans: "draws_inside g g' \<Longrightarrow> draws_inside g' g'' \<Longrightarrow> draws_inside g g''"
proof -
  assume 1: "draws_inside g g'" and 2: "draws_inside g' g''"
  have "g'' = g'\<lparr>framebuffer := framebuffer g''\<rparr>" "g' = g\<lparr>framebuffer := framebuffer g'\<rparr>"
    using 1 2 by (simp_all add: draws_inside_def)
  then have "g'' = g\<lparr>framebuffer := framebuffer g''\<rparr>" by (metis graphics.update_convs(1) graphics.surjective)
  moreover have "\<exists>x y. on_screen g x y \<and> k = fb_index g x y" if "framebuffer g'' k \<noteq> framebuffer g k" for k
    using 1 2 that unfolding draws_inside_def draws_inside_screen [OF 1] by metis
  ultimately show ?thesis by (simp add: draws_inside_def)
qed

lemma draws_inside_fold:
  assumes "\<And>c g. c \<in> set cs \<Longrightarrow> draws_inside g0 g \<Longrightarrow> draws_inside g (f c g)"
  shows "draws_inside g0 g \<Longrightarrow> draws_inside g0 (fold f cs g)"
  using assms
proof (induction cs arbitrary: g)
  case (Cons c cs)
  have "draws_inside g0 (f c g)" using draws_inside_trans Cons.prems by (meson list.set_intros(1))
  then show ?case using Cons.IH Cons.prems(2) by simp
qed simp

lemma plot_px_inside:
  assumes "0 \<le> x" "0 \<le> y"
  shows "draws_inside g (plot_px x y hex g)"
proof (cases "x \<ge> vbe_width g \<or> y \<ge> vbe_height g")
  case True
  then show ?thesis by (simp add: plot_px_def)
next
  case False
  then have o: "on_screen g x y" using assms by (simp add: on_screen_def)
  have "\<exists>x y. on_screen g x y \<and> k = fb_index g x y"
    if "((framebuffer g)(fb_index g x y := hex)) k \<noteq> framebuffer g k" for k
  proof -
    have "k = fb_index g x y" using that by (rule contrapos_np) simp
    then show ?thesis using o by blast
  qed
  then show ?thesis using False by (simp add: draws_inside_def plot_px_def)
qed

lemma ucast_of_int: "ucast (of_int z :: u64) = (of_int z :: i32)"
    by (rule bit_word_eqI) (simp add: bit_ucast_iff bit_word_of_int_iff)
lemma sint_small: "- (2 ^ 31) \<le> z \<Longrightarrow> z < 2 ^ 31 \<Longrightarrow> sint (of_int z :: i32) = z"
  by (simp add: signed_of_int signed_take_bit_int_eq_self)
lemma px_coord_eq: 
  assumes "0 \<le> c" "c < 2 ^ 31 - 16" "k < 16"
  shows "px_coord c k = c + int k"
proof -
  have b: "- (2 ^ 31) \<le> c + int k" "c + int k < 2 ^ 31" using assms by auto
  have "of_int c + of_nat k = (of_int (c + int k) :: u64)" by simp
  then show ?thesis
    using b by (simp only: px_coord_def ucast_of_int sint_small)
qed

lemma cursor_cells_less: "(x, y) \<in> set cursor_cells \<Longrightarrow> x < 16 \<and> y < 16"
  by (auto simp: cursor_cells_def)

lemma screen_coord:
  assumes "mode_ok g" "on_screen g x y" "(i, j) \<in> set cursor_cells"
  shows "px_coord x i = x + int i" "px_coord y j = y + int j" "0 \<le> px_coord x i" "0 \<le> px_coord y j"
proof -
  have "0 \<le> x" "x < 2 ^ 29" "0 \<le> y" "y < 2 ^ 31 - 16"
    using assms by (auto simp: mode_ok_def on_screen_def)
  then show "px_coord x i = x + int i" "px_coord y j = y + int j"
    using cursor_cells_less [OF assms(3)] by (auto intro!: px_coord_eq)
  then show "0 \<le> px_coord x i" "0 \<le> px_coord y j" using \<open>0 \<le> x\<close> \<open>0 \<le> y\<close> by simp_all
qed

lemma erase_inside:
  assumes "mode_ok g" "on_screen g (last_plotted_mouse_x s) (last_plotted_mouse_y s)"
    and "c \<in> set cursor_cells"
  shows "draws_inside g' (erase_px s c g')"
  using screen_coord [OF assms(1,2)] assms(3)
  by (cases c) (simp add: erase_px_def Let_def plot_px_inside)

lemma draw_inside:
  assumes "mode_ok g" "on_screen g (mouse_x s) (mouse_y s)" and "c \<in> set cursor_cells"
  shows "draws_inside g' (draw_px s c g')"
  using screen_coord [OF assms(1,2)] assms(3)
  by (cases c) (simp add: draw_px_def plot_px_inside)

lemma put_mouse_cursor_inside:
  assumes "mode_ok g" "mouse_ok g s" "put_mouse_cursor r (s, g) = (s', g')"
  shows "draws_inside g g' \<and> mouse_ok g s'"
proof -
  let ?e = "fold (erase_px s) cursor_cells g"
  have o: "on_screen g (last_plotted_mouse_x s) (last_plotted_mouse_y s)"
    "on_screen g (mouse_x s) (mouse_y s)" using assms(2) by (simp_all add: mouse_ok_def)
  have e: "draws_inside g ?e"
    by (rule draws_inside_fold) (auto intro: erase_inside [OF assms(1) o(1)])
  have d: "draws_inside g (fold (draw_px s) cursor_cells h)" if "draws_inside g h" for h
    using that by (rule draws_inside_fold [rotated]) (auto intro: draw_inside [OF assms(1) o(2)])
  show ?thesis
  proof (cases "mouse_enabled s")
    case True
    then have "g' = fold (draw_px s) cursor_cells (if \<not> r then ?e else g)"
      "s' = s\<lparr>last_plotted_mouse_x := mouse_x s, last_plotted_mouse_y := mouse_y s\<rparr>"
      using assms(3) by (auto simp: put_mouse_cursor_def Let_def)
    then show ?thesis using d [of "if \<not> r then ?e else g"] e assms(2)
      by (simp add: mouse_ok_def packets_ok_def)
  next
    case False
    then show ?thesis using e assms(2,3) by (auto simp: put_mouse_cursor_def)
  qed
qed

lemma process_packet_simps:
  assumes "process_packet p g s = (dp, s')"
  shows "s' = s\<lparr>mouse_x := clamp_position (mouse_x s + movement (pk_x_mov p) (bit (pk_flags p) 4)) (vbe_width g),
               mouse_y := clamp_position (mouse_y s - movement (pk_y_mov p) (bit (pk_flags p) 5)) (vbe_height g)\<rparr>"
    and "dp_click_l dp = click (pk_flags p) 0" "dp_click_r dp = click (pk_flags p) 1"
      "dp_click_m dp = click (pk_flags p) 2"
  using assms by (auto simp: process_packet_def Let_def)

lemma packet_push_frame:
  assumes "packet_push dp s = Some s'"
  shows "mouse_x s' = mouse_x s" "mouse_y s' = mouse_y s" "dawn_mouse s' = dawn_mouse s"
    "last_plotted_mouse_x s' = last_plotted_mouse_x s" "last_plotted_mouse_y s' = last_plotted_mouse_y s"
    "handler_cycle s' = handler_cycle s"
  using assms by (auto simp: packet_push_def split: if_splits)

text \<open>The ways a complete packet can end.\<close>

lemma complete_packet_cases:
  assumes "complete_packet (s, g) = r"
  obtains (stages) dp s1 s2 g' where
    "process_packet (current_packet s) g (s\<lparr>mouse_enabled := True\<rparr>) = (dp, s1)"
    "put_mouse_cursor False (s1, g) = (s2, g')"
    "r = (if is_location_info (current_packet s2) s2 then Inr (s2\<lparr>dawn_mouse := dp\<rparr>, g')
          else case packet_push dp s2 of None \<Rightarrow> Inl ''mouse packets overflow'' | Some s \<Rightarrow> Inr (s, g'))"
proof -
  obtain dp s1 where 1: "process_packet (current_packet s) g (s\<lparr>mouse_enabled := True\<rparr>) = (dp, s1)"
    by fastforce
  obtain s2 g2 where 2: "put_mouse_cursor False (s1, g) = (s2, g2)" by fastforce
  show ?thesis by (rule stages [OF 1 2]) (use assms 1 2 in \<open>auto simp: complete_packet_def Let_def\<close>)
qed

lemma complete_packet_ok:
  assumes "mode_ok g" "mouse_ok g s" "complete_packet (s, g) = r"
  shows "case r of Inl msg \<Rightarrow> msg = ''mouse packets overflow'' \<and> packet_i s = MAX_PACKETS
    | Inr (s', g') \<Rightarrow> draws_inside g g' \<and> mouse_ok g s'"
proof (cases rule: complete_packet_cases [OF assms(3)])
  case (1 dp s1 s2 g')
  have "0 < vbe_width g" "0 < vbe_height g" using assms(1) by (simp_all add: mode_ok_def)
  then have s1: "mouse_ok g s1" "packet_i s1 = packet_i s" using assms(2) process_packet_simps(1) [OF 1(1)]
    by (simp_all add: mouse_ok_def on_screen_def clamp_range packets_ok_def)
  have p: "packet_i s2 = packet_i s1" using 1(2) by (auto simp: put_mouse_cursor_def Let_def split: if_splits)
  note s2 = put_mouse_cursor_inside [OF assms(1) s1(1) 1(2)]
  then have ok: "packets_ok s2" by (simp add: mouse_ok_def)
  show ?thesis
  proof (cases "packet_push dp s2")
    case None
    then have "packet_i s2 = MAX_PACKETS" by (simp add: packet_push_def split: if_splits)
    then show ?thesis using s2 p s1(2) None by (simp add: 1(3) mouse_ok_def packets_ok_def)
  next
    case (Some s3)
    then have "mouse_ok g s3" using s2 packet_push_frame [OF Some] mq.push_SomeD [OF ok Some]
      by (simp add: mouse_ok_def)
    then show ?thesis using s2 Some by (simp add: 1(3) mouse_ok_def packets_ok_def)
  qed
qed

text \<open>
  C36: Whatever byte the controller sends, in every mode: the position stays on the screen, the
  handler's state stays one it handles, everything the cursor paints lies inside the visible
  part of the framebuffer, and the only panic is that of a full packet queue.
\<close>

theorem mouse_handler_on_screen:
  assumes "mode_ok g" "mouse_ok g s"
  shows "case mouse_handler b (s, g) of
      Inl msg \<Rightarrow> msg = ''mouse packets overflow'' \<and> packet_i s = MAX_PACKETS
    | Inr (s', g') \<Rightarrow> mouse_ok g s' \<and> g' = g\<lparr>framebuffer := framebuffer g'\<rparr> \<and>
        (\<forall>k. framebuffer g' k \<noteq> framebuffer g k \<longrightarrow> (\<exists>x y. on_screen g x y \<and> k = fb_index g x y))"
proof (cases "handler_cycle s = 2 \<and> \<not> discard_packet s")
  case True
  let ?s = "s\<lparr>current_packet := (current_packet s)\<lparr>pk_y_mov := b\<rparr>, handler_cycle := 0\<rparr>"
  have "mouse_ok g ?s" "packet_i ?s = packet_i s" using assms(2) by (simp_all add: mouse_ok_def packets_ok_def)
  moreover have "mouse_handler b (s, g) = complete_packet (?s, g)" using True by (simp add: mouse_handler_def)
  ultimately show ?thesis using complete_packet_ok [OF assms(1), of ?s "mouse_handler b (s, g)"]
    by (auto simp: draws_inside_def split: sum.splits)
next
  case False
  then show ?thesis using assms(2)
    by (auto simp: mouse_handler_def mouse_ok_def packets_ok_def Let_def)
qed

section \<open>The position Dawn sees\<close>

lemma div_less_scaled:
  fixes x d n :: int
  assumes "0 \<le> x" "x < d" "0 < n"
  shows "n * x div d < n"
proof (rule ccontr)
  assume "\<not> ?thesis"
  then have "n * d \<le> (n * x div d) * d" using assms by (intro mult_right_mono) auto
  moreover have "(n * x div d) * d = n * x - n * x mod d" by (rule minus_mod_eq_div_mult [symmetric])
  moreover have "0 \<le> n * x mod d" using assms by simp
  moreover have "n * x < n * d" using assms by (intro mult_strict_left_mono) auto
  ultimately show False by linarith
qed

lemma scale_position_value:
  assumes "0 \<le> x" "x < w" "w < 2 ^ 31"
  shows "unat (scale_position 0 (of_int w) 0 DAWN_FIXED_ONE (of_int x)) = nat (2 ^ 32 * x div w)"
proof -
  have u: "unat (of_int x :: u64) = nat x" "unat (of_int w :: u64) = nat w"
    using assms by (auto intro: unat_of_int_u64)
  have "nat x < 2 ^ 31" using assms by (simp add: nat_less_iff)
  then have "2 ^ 32 * nat x < 2 ^ 64" by simp
  then have m: "unat ((0x100000000 :: u64) * of_int x) = 2 ^ 32 * nat x"
    by (subst unat_mult_lem [THEN iffD1]) (simp_all add: u)
  have "unat (scale_position 0 (of_int w) 0 DAWN_FIXED_ONE (of_int x)) = 2 ^ 32 * nat x div nat w"
    by (simp add: scale_position_def DAWN_FIXED_ONE_def unat_div m u)
  also have "\<dots> = nat (2 ^ 32 * x div w)" using assms by (simp add: nat_div_distrib nat_mult_distrib)
  finally show ?thesis .
qed

text \<open>
  C38: A packet moves the pointer by its signed 9-bit movement, up being positive, and stops it at the
  edges; what Dawn is given is the position as a 32.32 fixed-point fraction of the screen, rounded
  down and below 1, with no overflow on the way.
\<close>

theorem process_packet_position:
  assumes "mode_ok g" and "process_packet p g s = (dp, s')"
  shows "mouse_x s' = max 0 (min (vbe_width g - 1)
           (mouse_x s + uint (pk_x_mov p) - (if bit (pk_flags p) 4 then 256 else 0))) \<and>
    mouse_y s' = max 0 (min (vbe_height g - 1)
           (mouse_y s - (uint (pk_y_mov p) - (if bit (pk_flags p) 5 then 256 else 0)))) \<and>
    unat (dp_mouse_x dp) = nat (2 ^ 32 * mouse_x s' div vbe_width g) \<and>
    unat (dp_mouse_y dp) = nat (2 ^ 32 * mouse_y s' div vbe_height g) \<and>
    dp_mouse_x dp < DAWN_FIXED_ONE \<and> dp_mouse_y dp < DAWN_FIXED_ONE"
proof -
  have w: "0 < vbe_width g" "vbe_width g < 2 ^ 31" "0 < vbe_height g" "vbe_height g < 2 ^ 31"
    using assms(1) by (auto simp: mode_ok_def)
  have c: "clamp_position pos d = max 0 (min (d - 1) pos)" if "0 < d" for pos d
    using that by (auto simp: clamp_position_def)
  note s' = process_packet_simps(1) [OF assms(2)]
  have dp: "dp_mouse_x dp = scale_position 0 (of_int (vbe_width g)) 0 DAWN_FIXED_ONE (of_int (mouse_x s'))"
    "dp_mouse_y dp = scale_position 0 (of_int (vbe_height g)) 0 DAWN_FIXED_ONE (of_int (mouse_y s'))"
    using assms(2) by (auto simp: process_packet_def Let_def)
  have r: "0 \<le> mouse_x s'" "mouse_x s' < vbe_width g" "0 \<le> mouse_y s'" "mouse_y s' < vbe_height g"
    using w by (simp_all add: s' clamp_range)
  have v: "unat (dp_mouse_x dp) = nat (2 ^ 32 * mouse_x s' div vbe_width g)"
    "unat (dp_mouse_y dp) = nat (2 ^ 32 * mouse_y s' div vbe_height g)"
    using w r by (simp_all only: dp scale_position_value)
  have below: "2 ^ 32 * x div d < 2 ^ 32" if "0 \<le> x" "x < d" for x d :: int
    using that by (intro div_less_scaled) auto
  have "dp_mouse_x dp < DAWN_FIXED_ONE" "dp_mouse_y dp < DAWN_FIXED_ONE"
    using below [OF r(1,2)] below [OF r(3,4)]
    by (simp_all add: word_less_nat_alt v DAWN_FIXED_ONE_def)
  moreover have "mouse_x s' = clamp_position (mouse_x s + movement (pk_x_mov p) (bit (pk_flags p) 4)) (vbe_width g)"
    "mouse_y s' = clamp_position (mouse_y s - movement (pk_y_mov p) (bit (pk_flags p) 5)) (vbe_height g)"
    by (simp_all add: s')
  moreover have "a + movement mov n = a + uint mov - (if n then 256 else 0)"
    "a - movement mov n = a - (uint mov - (if n then 256 else 0))" for a mov n
    by (simp_all add: movement_def)
  ultimately show ?thesis using v by (simp only: c [OF w(1)] c [OF w(3)] simp_thms)
qed

section \<open>What Dawn sees of the buttons\<close>

type_synonym buttons = "bool \<times> bool \<times> bool"

definition buttons_of :: "dmouse_packet \<Rightarrow> buttons" where
  "buttons_of d = (dp_click_l d \<noteq> 0, dp_click_r d \<noteq> 0, dp_click_m d \<noteq> 0)"

definition flag_buttons :: "u8 \<Rightarrow> buttons" where
  "flag_buttons f = (bit f 0, bit f 1, bit f 2)"

definition regs_buttons :: "mem \<Rightarrow> buttons" where
  "regs_buttons m = (dawn_readram m DAWN_MOUSE_CLICK_L \<noteq> 0, dawn_readram m DAWN_MOUSE_CLICK_R \<noteq> 0,
     dawn_readram m DAWN_MOUSE_CLICK_M \<noteq> 0)"

abbreviation no_buttons :: buttons where "no_buttons \<equiv> (False, False, False)"

text \<open>
  A run of the driver: \<open>seen\<close> collects the buttons of each packet it takes, \<open>out\<close> the buttons it puts
  into Dawn's registers. Dawn may do anything to its memory between two updates, and a keypad key
  turns the mouse off.
\<close>

inductive mouse_run :: "mouse \<times> graphics \<Rightarrow> buttons list \<Rightarrow> buttons list \<Rightarrow> bool" where
  run_start: "packet_i s = 0 \<Longrightarrow> buttons_of (dawn_mouse s) = no_buttons \<Longrightarrow> mouse_run (s, g) [] []"
| run_byte: "mouse_run (s, g) seen out \<Longrightarrow> mouse_handler b (s, g) = Inr (s', g') \<Longrightarrow>
    mouse_run (s', g')
      (seen @ (if handler_cycle s = 2 \<and> \<not> discard_packet s then [flag_buttons (pk_flags (current_packet s))] else []))
      out"
| run_update: "mouse_run (s, g) seen out \<Longrightarrow> mouse_update (m, s) = (m', s') \<Longrightarrow>
    mouse_run (s', g) seen (out @ (if mouse_enabled s \<and> mouse_regs_clear m then [regs_buttons m'] else []))"
| run_keypad: "mouse_run (s, g) seen out \<Longrightarrow> mouse_run (s\<lparr>mouse_enabled := False\<rparr>, g) seen out"

lemma remdups_adj_snoc:
  "remdups_adj (xs @ [x]) = (if xs \<noteq> [] \<and> last xs = x then remdups_adj xs else remdups_adj xs @ [x])"
  by (induction xs rule: remdups_adj.induct) auto

lemma remdups_adj_snoc_cong:
  assumes "remdups_adj (x # xs) = remdups_adj (x # ys)"
  shows "remdups_adj (x # xs @ [z]) = remdups_adj (x # ys @ [z])"
proof -
  have "last (x # xs) = last (x # ys)" using assms by (metis last_remdups_adj)
  then show ?thesis using assms remdups_adj_snoc [of "x # xs" z] remdups_adj_snoc [of "x # ys" z] by simp
qed

lemma button_differs_iff: "\<not> button_differs p c \<longleftrightarrow> p = (c \<noteq> 0)"
  by (auto simp: button_differs_def)

lemma is_location_info_iff:
  "is_location_info p s \<longleftrightarrow>
     flag_buttons (pk_flags p) = buttons_of (if queued s = [] then dawn_mouse s else last (queued s))"
proof -
  have "(if packet_i s \<noteq> 0 then packets s (packet_i s - 1) else dawn_mouse s) =
      (if queued s = [] then dawn_mouse s else last (queued s))"
    by (auto simp: queued_def last_map)
  then show ?thesis
    by (simp only: is_location_info_def Let_def de_Morgan_disj button_differs_iff)
      (auto simp: flag_buttons_def buttons_of_def)
qed

lemma click_nonzero: "click f n \<noteq> 0 \<longleftrightarrow> bit f n"
  by (simp add: click_def DAWN_FIXED_ONE_def)

text \<open>What a byte does to the queue, and what an update does.\<close>

lemma handler_queue:
  assumes "mouse_handler b (s, g) = Inr (s', g')"
  shows "(if handler_cycle s = 2 \<and> \<not> discard_packet s
     then (\<exists>dp. buttons_of dp = flag_buttons (pk_flags (current_packet s)) \<and>
        (if flag_buttons (pk_flags (current_packet s)) =
              buttons_of (if queued s = [] then dawn_mouse s else last (queued s))
         then queued s' = queued s \<and> dawn_mouse s' = dp
         else queued s' = queued s @ [dp] \<and> dawn_mouse s' = dawn_mouse s))
     else queued s' = queued s \<and> dawn_mouse s' = dawn_mouse s)"
proof (cases "handler_cycle s = 2 \<and> \<not> discard_packet s")
  case full: True
  let ?s = "s\<lparr>current_packet := (current_packet s)\<lparr>pk_y_mov := b\<rparr>, handler_cycle := 0\<rparr>"
  have h: "complete_packet (?s, g) = Inr (s', g')" using full assms by (simp add: mouse_handler_def)
  from complete_packet_cases [OF h] show ?thesis
  proof cases
    case (1 dp s1 s2 g2)
    have s1: "queued s1 = queued s" "dawn_mouse s1 = dawn_mouse s"
      "pk_flags (current_packet s1) = pk_flags (current_packet s)"
      using process_packet_simps(1) [OF 1(1)] by (simp_all add: queued_def)
    have s2: "queued s2 = queued s" "dawn_mouse s2 = dawn_mouse s"
      "pk_flags (current_packet s2) = pk_flags (current_packet s)"
      using 1(2) s1 by (auto simp: put_mouse_cursor_def Let_def queued_def split: if_splits)
    have dp: "buttons_of dp = flag_buttons (pk_flags (current_packet s))"
      using process_packet_simps(2-4) [OF 1(1)] by (simp add: buttons_of_def flag_buttons_def click_nonzero)
    show ?thesis
    proof (cases "is_location_info (current_packet s2) s2")
      case True
      then show ?thesis using 1(3) dp s2 full by (auto simp: is_location_info_iff)
    next
      case False
      then obtain s3 where p: "packet_push dp s2 = Some s3" "s' = s3"
        using 1(3) by (auto split: option.splits)
      then have "queued s' = queued s @ [dp]" using s2 by (auto simp: packet_push_def queued_def split: if_splits)
      moreover have "dawn_mouse s' = dawn_mouse s" using packet_push_frame [OF p(1)] p(2) s2 by simp
      ultimately show ?thesis using False dp s2 full
        by (auto simp: is_location_info_iff)
    qed
  qed
next
  case False
  then show ?thesis using assms
    by (auto simp: mouse_handler_def Let_def queued_def split: if_splits)
qed

lemma mouse_regs_disj:
  "disj8 DAWN_MOUSE_CLICK_R DAWN_MOUSE_CLICK_L" "disj8 DAWN_MOUSE_CLICK_M DAWN_MOUSE_CLICK_L"
  "disj8 DAWN_MOUSE_ABS_X DAWN_MOUSE_CLICK_L" "disj8 DAWN_MOUSE_ABS_Y DAWN_MOUSE_CLICK_L"
  "disj8 DAWN_MOUSE_CLICK_M DAWN_MOUSE_CLICK_R" "disj8 DAWN_MOUSE_ABS_X DAWN_MOUSE_CLICK_R"
  "disj8 DAWN_MOUSE_ABS_Y DAWN_MOUSE_CLICK_R" "disj8 DAWN_MOUSE_ABS_X DAWN_MOUSE_CLICK_M"
  "disj8 DAWN_MOUSE_ABS_Y DAWN_MOUSE_CLICK_M" "disj8 DAWN_MOUSE_ABS_Y DAWN_MOUSE_ABS_X"
  by (simp_all add: disj8_def dawn_addrs)

lemma put_mouse_regs_read:
  "dawn_readram (put_mouse_regs d m) DAWN_MOUSE_CLICK_L = dp_click_l d"
  "dawn_readram (put_mouse_regs d m) DAWN_MOUSE_CLICK_R = dp_click_r d"
  "dawn_readram (put_mouse_regs d m) DAWN_MOUSE_CLICK_M = dp_click_m d"
  "dawn_readram (put_mouse_regs d m) DAWN_MOUSE_ABS_X = dp_mouse_x d"
  "dawn_readram (put_mouse_regs d m) DAWN_MOUSE_ABS_Y = dp_mouse_y d"
  by (simp_all add: put_mouse_regs_def mouse_regs_disj)

lemma update_queue:
  assumes "mouse_update (m, s) = (m', s')"
  shows "if mouse_enabled s \<and> mouse_regs_clear m
     then regs_buttons m' = buttons_of (dawn_mouse s') \<and> queued s' = tl (queued s) \<and>
          dawn_mouse s' = (if queued s = [] then dawn_mouse s else hd (queued s))
     else m' = m \<and> s' = s"
proof -
  have "packets s 0 = hd (queued s)" if "packet_i s \<noteq> 0"
    using that by (simp add: queued_def hd_map)
  moreover have "queued s = [] \<longleftrightarrow> packet_i s = 0" by (simp add: queued_def)
  ultimately show ?thesis using assms
    by (auto simp: mouse_update_def packet_pop_def Let_def regs_buttons_def buttons_of_def
      put_mouse_regs_read queued_shift split: if_splits)
qed

text \<open>
  The buttons to come after \<open>out\<close>: with the packets queued, what was taken, without repetitions;
  the buttons a packet is checked against are those of the last packet taken.
\<close>

definition run_inv :: "mouse \<Rightarrow> buttons list \<Rightarrow> buttons list \<Rightarrow> bool" where
  "run_inv s seen out \<longleftrightarrow>
     remdups_adj (no_buttons # out @ map buttons_of (queued s)) = remdups_adj (no_buttons # seen) \<and>
     buttons_of (if queued s = [] then dawn_mouse s else last (queued s)) = last (no_buttons # seen)"

lemma run_inv_packet:
  assumes "run_inv s seen out" "c = buttons_of dp"
    and "if c = buttons_of (if queued s = [] then dawn_mouse s else last (queued s))
         then queued s' = queued s \<and> dawn_mouse s' = dp
         else queued s' = queued s @ [dp] \<and> dawn_mouse s' = dawn_mouse s"
  shows "run_inv s' (seen @ [c]) out"
proof (cases "c = last (no_buttons # seen)")
  case True
  have "remdups_adj ((no_buttons # seen) @ [c]) = remdups_adj (no_buttons # seen)"
    by (simp only: remdups_adj_snoc True) simp
  then show ?thesis using assms True by (auto simp: run_inv_def)
next
  case False
  then have "queued s' = queued s @ [dp]" using assms by (auto simp: run_inv_def)
  then show ?thesis
    using assms(1,2) remdups_adj_snoc_cong [of no_buttons "out @ map buttons_of (queued s)" seen c]
    by (simp add: run_inv_def)
qed

lemma run_inv_update:
  assumes "run_inv s seen out" "queued s' = tl (queued s)"
    and "dawn_mouse s' = (if queued s = [] then dawn_mouse s else hd (queued s))"
  shows "run_inv s' seen (out @ [buttons_of (dawn_mouse s')])"
proof (cases "queued s")
  case Nil
  then have "remdups_adj (no_buttons # out) = remdups_adj (no_buttons # seen)"
    "buttons_of (dawn_mouse s') = last (no_buttons # seen)" using assms by (simp_all add: run_inv_def)
  moreover have "last (no_buttons # out) = last (no_buttons # seen)"
    using calculation(1) by (metis last_remdups_adj)
  moreover have "remdups_adj ((no_buttons # out) @ [last (no_buttons # out)]) = remdups_adj (no_buttons # out)"
    by (simp only: remdups_adj_snoc) simp
  ultimately show ?thesis using assms Nil by (simp add: run_inv_def)
next
  case (Cons d ds)
  then show ?thesis using assms by (auto simp: run_inv_def)
qed

lemma run_inv_reach: "mouse_run (s, g) seen out \<Longrightarrow> run_inv s seen out"
proof (induction "(s, g)" seen out arbitrary: s g rule: mouse_run.induct)
  case (run_start s g)
  then show ?case by (simp add: run_inv_def queued_def)
next
  case (run_byte s g seen out b s' g')
  let ?c = "flag_buttons (pk_flags (current_packet s))"
  show ?case
  proof (cases "handler_cycle s = 2 \<and> \<not> discard_packet s")
    case True
    then obtain dp where dp: "buttons_of dp = ?c"
      "if ?c = buttons_of (if queued s = [] then dawn_mouse s else last (queued s))
       then queued s' = queued s \<and> dawn_mouse s' = dp
       else queued s' = queued s @ [dp] \<and> dawn_mouse s' = dawn_mouse s"
      using handler_queue [OF run_byte.hyps(3)] by auto
    show ?thesis using run_inv_packet [OF run_byte.hyps(2) dp(1) [symmetric] dp(2)] True by simp
  next
    case False
    then have "queued s' = queued s" "dawn_mouse s' = dawn_mouse s"
      using handler_queue [OF run_byte.hyps(3)] by auto
    then show ?thesis using run_byte.hyps(2) False by (auto simp: run_inv_def)
  qed
next
  case (run_update s g seen out m m' s')
  show ?case
  proof (cases "mouse_enabled s \<and> mouse_regs_clear m")
    case True
    then show ?thesis using update_queue [OF run_update.hyps(3)] run_inv_update [OF run_update.hyps(2)] by auto
  next
    case False
    then have "s' = s" using update_queue [OF run_update.hyps(3)] by metis
    then show ?thesis using run_update.hyps(2) False by auto
  qed
next
  case (run_keypad s g seen out)
  have "run_inv (s\<lparr>mouse_enabled := False\<rparr>) = run_inv s" by (simp add: run_inv_def fun_eq_iff)
  then show ?case using run_keypad.hyps(2) by simp
qed

text \<open>
  C23: No change of the buttons is lost, repeated or reordered on its way to Dawn: in any
  interleaving of interrupts and updates, what the updates have put into Dawn's registers followed
  by what is queued is, up to repetitions, what the packets said; once the queue is empty Dawn has
  seen every change.
\<close>

theorem mouse_buttons_in_order:
  assumes "mouse_run (s, g) seen out"
  shows "remdups_adj (no_buttons # out @ map buttons_of (queued s)) = remdups_adj (no_buttons # seen) \<and>
    (packet_i s = 0 \<longrightarrow> remdups_adj (no_buttons # out) = remdups_adj (no_buttons # seen))"
  using run_inv_reach [OF assms] by (auto simp: run_inv_def queued_def)

text \<open>
  An update writes Dawn's registers only when the mouse is in use and Dawn has cleared them; it
  then gives the oldest packet queued, or the current state when none is, and touches no byte
  outside the five registers.
\<close>

lemma mouse_update_registers:
  "case mouse_update (m, s) of (m', s') \<Rightarrow>
     (if mouse_enabled s \<and> mouse_regs_clear m
      then (let d = (if queued s = [] then dawn_mouse s else hd (queued s))
            in dawn_readram m' DAWN_MOUSE_CLICK_L = dp_click_l d \<and>
               dawn_readram m' DAWN_MOUSE_CLICK_R = dp_click_r d \<and>
               dawn_readram m' DAWN_MOUSE_CLICK_M = dp_click_m d \<and>
               dawn_readram m' DAWN_MOUSE_ABS_X = dp_mouse_x d \<and>
               dawn_readram m' DAWN_MOUSE_ABS_Y = dp_mouse_y d \<and>
               queued s' = tl (queued s))
      else m' = m \<and> s' = s) \<and>
     (\<forall>x. (\<forall>a \<in> {DAWN_MOUSE_CLICK_L, DAWN_MOUSE_CLICK_R, DAWN_MOUSE_CLICK_M, DAWN_MOUSE_ABS_X,
               DAWN_MOUSE_ABS_Y}. \<not> x - a < 8) \<longrightarrow> m' x = m x)"
proof -
  obtain m' s' where u: "mouse_update (m, s) = (m', s')" by fastforce
  have o: "put_mouse_regs d m x = m x"
    if "\<forall>a \<in> {DAWN_MOUSE_CLICK_L, DAWN_MOUSE_CLICK_R, DAWN_MOUSE_CLICK_M, DAWN_MOUSE_ABS_X,
               DAWN_MOUSE_ABS_Y}. \<not> x - a < 8" for d x
    using that by (simp add: put_mouse_regs_def dawn_writeram_outside)
  show ?thesis
  proof (cases "mouse_enabled s \<and> mouse_regs_clear m")
    case True
    then have "m' = put_mouse_regs (dawn_mouse s') m"
      using u by (auto simp: mouse_update_def Let_def)
    then show ?thesis using update_queue [OF u] u o True by (simp add: put_mouse_regs_read Let_def)
  next
    case False
    then have "m' = m" "s' = s" using update_queue [OF u] by metis+
    then show ?thesis using u False by auto
  qed
qed

section \<open>A mouse in the middle of a small screen\<close>

definition idle_mouse :: mouse where
  "idle_mouse = \<lparr>mouse_enabled = False, mouse_x = 1, mouse_y = 1, last_plotted_mouse_x = 0,
     last_plotted_mouse_y = 0,
     dawn_mouse = \<lparr>dp_mouse_x = 0, dp_mouse_y = 0, dp_click_l = 0, dp_click_r = 0, dp_click_m = 0\<rparr>,
     packets = (\<lambda>_. undefined), packet_i = 0, handler_cycle = 0,
     current_packet = \<lparr>pk_flags = 0, pk_x_mov = 0, pk_y_mov = 0\<rparr>, discard_packet = False\<rparr>"

lemma idle_ok: "mode_ok tiny_mode" "mouse_ok tiny_mode idle_mouse"
  by (simp_all add: mode_ok_def tiny_mode_def mouse_ok_def idle_mouse_def on_screen_def packets_ok_def)

theorem mouse_handler_on_screen_witness:
  "\<exists>s' g'. mouse_handler 0x29 (idle_mouse, tiny_mode) = Inr (s', g') \<and> mouse_ok tiny_mode s' \<and>
     handler_cycle s' = 1"
  using mouse_handler_on_screen [OF idle_ok, of "0x29"]
  by (simp add: mouse_handler_def Let_def idle_mouse_def)

theorem process_packet_position_witness:
  "case process_packet \<lparr>pk_flags = 0x18, pk_x_mov = 0xFE, pk_y_mov = 1\<rparr> tiny_mode idle_mouse of
     (dp, s') \<Rightarrow> mouse_x s' = 0 \<and> mouse_y s' = 0 \<and> dp_mouse_x dp < DAWN_FIXED_ONE"
proof -
  obtain dp s' where p: "process_packet \<lparr>pk_flags = 0x18, pk_x_mov = 0xFE, pk_y_mov = 1\<rparr> tiny_mode idle_mouse = (dp, s')"
    by fastforce
  have "bit (0x18 :: u8) 4" "\<not> bit (0x18 :: u8) 5" by code_simp+
  then show ?thesis using process_packet_position [OF idle_ok(1) p]
    by (simp add: p, simp add: idle_mouse_def tiny_mode_def)
qed

text \<open>The left button is pressed: three bytes, and the packet is queued.\<close>

theorem mouse_buttons_in_order_witness:
  "\<exists>s g. mouse_run (s, g) [(True, False, False)] [] \<and> map buttons_of (queued s) = [(True, False, False)] \<and>
     remdups_adj (no_buttons # map buttons_of (queued s)) = [no_buttons, (True, False, False)]"
proof -
  let ?g = tiny_mode
  define s1 where "s1 = idle_mouse\<lparr>current_packet := \<lparr>pk_flags = 9, pk_x_mov = 0, pk_y_mov = 0\<rparr>, handler_cycle := 1\<rparr>"
  define s2 where "s2 = s1\<lparr>handler_cycle := 2\<rparr>"
  have bits: "\<not> bit (9::u8) 6" "\<not> bit (9::u8) 7" "bit (9::u8) 3" "flag_buttons 9 = (True, False, False)"
    by code_simp+
  have r0: "mouse_run (idle_mouse, ?g) [] []"
    by (rule run_start) (simp_all add: idle_mouse_def buttons_of_def)
  have h1: "mouse_handler 9 (idle_mouse, ?g) = Inr (s1, ?g)"
    using bits by (simp add: mouse_handler_def s1_def idle_mouse_def)
  have r1: "mouse_run (s1, ?g) [] []" using run_byte [OF r0 h1] by (simp add: idle_mouse_def)
  have h2: "mouse_handler 0 (s1, ?g) = Inr (s2, ?g)"
    by (simp add: mouse_handler_def s2_def s1_def idle_mouse_def)
  have r2: "mouse_run (s2, ?g) [] []" using run_byte [OF r1 h2] by (simp add: s1_def)
  have s2: "handler_cycle s2 = 2" "\<not> discard_packet s2" "queued s2 = []" "pk_flags (current_packet s2) = 9"
    "buttons_of (dawn_mouse s2) = no_buttons"
    by (simp_all add: s2_def s1_def idle_mouse_def queued_def buttons_of_def)
  have ok: "mouse_ok ?g (s2\<lparr>current_packet := (current_packet s2)\<lparr>pk_y_mov := 0\<rparr>, handler_cycle := 0\<rparr>)"
    using idle_ok(2) by (simp add: s2_def s1_def mouse_ok_def packets_ok_def)
  obtain s3 g3 where h3: "mouse_handler 0 (s2, ?g) = Inr (s3, g3)"
  proof (cases "mouse_handler 0 (s2, ?g)")
    case (Inl msg)
    then have "packet_i s2 = MAX_PACKETS"
      using complete_packet_ok [OF idle_ok(1) ok refl] s2 by (simp add: mouse_handler_def)
    then show ?thesis by (simp add: s2_def s1_def idle_mouse_def MAX_PACKETS_def)
  qed auto
  have r3: "mouse_run (s3, g3) [(True, False, False)] []" using run_byte [OF r2 h3] s2 bits by simp
  have "map buttons_of (queued s3) = [(True, False, False)]"
    using handler_queue [OF h3] s2 bits by auto
  then show ?thesis using r3 mouse_buttons_in_order [OF r3] by auto
qed

text \<open>Nothing is queued, and Dawn's registers are clear: it gets the current state.\<close>

theorem mouse_update_registers_witness:
  "case mouse_update (\<lambda>_. 0, idle_mouse\<lparr>mouse_enabled := True,
      dawn_mouse := \<lparr>dp_mouse_x = 5, dp_mouse_y = 6, dp_click_l = 7, dp_click_r = 0, dp_click_m = 0\<rparr>\<rparr>) of
     (m', s') \<Rightarrow> dawn_readram m' DAWN_MOUSE_CLICK_L = 7 \<and> dawn_readram m' DAWN_MOUSE_ABS_Y = 6 \<and> m' 0x1000 = 0"
proof -
  let ?s = "idle_mouse\<lparr>mouse_enabled := True,
      dawn_mouse := \<lparr>dp_mouse_x = 5, dp_mouse_y = 6, dp_click_l = 7, dp_click_r = 0, dp_click_m = 0\<rparr>\<rparr>"
  obtain m' s' where u: "mouse_update (\<lambda>_. 0, ?s) = (m', s')" by fastforce
  have z: "dawn_readram (\<lambda>_. 0) a = 0" for a
    by (simp add: dawn_readram_def load64_def bswap64_def join_bytes_def upt_rec)
  have c: "mouse_enabled ?s \<and> mouse_regs_clear (\<lambda>_. 0)" "queued ?s = []"
    "dawn_mouse ?s = \<lparr>dp_mouse_x = 5, dp_mouse_y = 6, dp_click_l = 7, dp_click_r = 0, dp_click_m = 0\<rparr>"
    by (simp_all add: mouse_regs_clear_def z queued_def idle_mouse_def)
  have far: "\<forall>a \<in> {DAWN_MOUSE_CLICK_L, DAWN_MOUSE_CLICK_R, DAWN_MOUSE_CLICK_M, DAWN_MOUSE_ABS_X,
               DAWN_MOUSE_ABS_Y}. \<not> 0x1000 - a < 8" by (simp add: dawn_addrs)
  note r = mouse_update_registers [where m = "\<lambda>_. 0" and s = ?s, unfolded u prod.case]
  have "m' 0x1000 = 0" using r [THEN conjunct2] far by blast
  then show ?thesis using r [THEN conjunct1] c by (simp add: u Let_def)
qed

end
