(* ===== verification/Kstring.thy ===== *)
theory Kstring
  imports Memory "HOL-Library.List_Lexorder"
begin

text \<open>
  The C string functions of klib.c, over the byte memory. Their loops end only when they meet the
  terminating NUL, so that the model is partial: no result is a loop that does not end. \<open>cstr\<close>
  relates a pointer to the list of bytes the string there holds.
\<close>

section \<open>The functions\<close>

partial_function (option) strlen_loop :: "mem \<Rightarrow> u64 \<Rightarrow> u64 \<Rightarrow> u64 option" where
  "strlen_loop m s len = (if m (s + len) \<noteq> 0 then strlen_loop m s (len + 1) else Some len)"

definition strlen :: "mem \<Rightarrow> u64 \<Rightarrow> u64 option" where
  "strlen m s = strlen_loop m s 0"

partial_function (option) strcmp :: "mem \<Rightarrow> u64 \<Rightarrow> u64 \<Rightarrow> int option" where
  "strcmp m s1 s2 =
     (if m s1 \<noteq> 0 \<and> m s1 = m s2 then strcmp m (s1 + 1) (s2 + 1)
      else Some (uint (m s1) - uint (m s2)))"

text \<open>The loop of \<open>strncmp\<close>, with the turns left and the index.\<close>

fun strncmp_loop :: "mem \<Rightarrow> u64 \<Rightarrow> u64 \<Rightarrow> nat \<Rightarrow> u64 \<Rightarrow> int" where
  "strncmp_loop m s1 s2 0 i = 0"
| "strncmp_loop m s1 s2 (Suc n) i =
     (if m (s1 + i) \<noteq> m (s2 + i) then uint (m (s1 + i)) - uint (m (s2 + i))
      else if m (s1 + i) = 0 then 0
      else strncmp_loop m s1 s2 n (i + 1))"

definition strncmp :: "mem \<Rightarrow> u64 \<Rightarrow> u64 \<Rightarrow> u64 \<Rightarrow> int" where
  "strncmp m s1 s2 n = strncmp_loop m s1 s2 (unat n) 0"

partial_function (option) strcpy :: "mem \<Rightarrow> u64 \<Rightarrow> u64 \<Rightarrow> mem option" where
  "strcpy m dest src =
     (let c = m src; m = m(dest := c)
      in if c \<noteq> 0 then strcpy m (dest + 1) (src + 1) else Some m)"

text \<open>What \<open>kputs\<close> and \<open>knputs\<close> write to port 0xe9.\<close>

partial_function (option) kputs_loop :: "mem \<Rightarrow> u64 \<Rightarrow> u64 \<Rightarrow> u8 list \<Rightarrow> u8 list option" where
  "kputs_loop m s i out =
     (if m (s + i) \<noteq> 0 then kputs_loop m s (i + 1) (out @ [m (s + i)]) else Some out)"

definition kputs :: "mem \<Rightarrow> u64 \<Rightarrow> u8 list option" where
  "kputs m s = kputs_loop m s 0 []"

definition knputs :: "mem \<Rightarrow> u64 \<Rightarrow> u64 \<Rightarrow> u8 list" where
  "knputs m s len = map (\<lambda>i. m (s + of_nat i)) [0..<unat len]"

section \<open>C strings\<close>

fun cstr :: "mem \<Rightarrow> u64 \<Rightarrow> u8 list \<Rightarrow> bool" where
  "cstr m s [] \<longleftrightarrow> m s = 0"
| "cstr m s (x # xs) \<longleftrightarrow> m s = x \<and> x \<noteq> 0 \<and> cstr m (s + 1) xs"

lemma cstr_loop: "cstr m (s + i) xs \<Longrightarrow> strlen_loop m s i = Some (i + of_nat (length xs))"
proof (induction xs arbitrary: i)
  case Nil
  then show ?case by (subst strlen_loop.simps) simp
next
  case (Cons x xs)
  then show ?case by (subst strlen_loop.simps) (simp add: add.assoc)
qed

lemma kputs_cstr: "cstr m (s + i) xs \<Longrightarrow> kputs_loop m s i out = Some (out @ xs)"
proof (induction xs arbitrary: i out)
  case Nil
  then show ?case by (subst kputs_loop.simps) simp
next
  case (Cons x xs)
  then show ?case by (subst kputs_loop.simps) (simp add: add.assoc)
qed

lemma cstr_unique: "cstr m s xs \<Longrightarrow> cstr m s ys \<Longrightarrow> xs = ys"
proof (induction xs arbitrary: s ys)
  case Nil
  then show ?case by (cases ys) auto
next
  case (Cons x xs)
  then show ?case by (cases ys) auto
qed

text \<open>
  On a C string \<open>strlen\<close> ends with its length, and \<open>kputs\<close> puts out its bytes, which
  \<open>knputs\<close> with that length does too.
\<close>

lemma strlen_kputs:
  assumes "cstr m s xs" "length xs < 2 ^ 64"
  shows "strlen m s = Some (of_nat (length xs)) \<and> kputs m s = Some xs \<and>
    knputs m s (of_nat (length xs)) = xs"
proof -
  have "cstr m s xs \<Longrightarrow> map (\<lambda>i. m (s + of_nat i)) [0..<length xs] = xs" for m s
  proof (induction xs arbitrary: s)
    case Nil
    then show ?case by simp
  next
    case (Cons x xs)
    have "map (\<lambda>i. m (s + of_nat i)) [0..<length (x # xs)] =
        m s # map (\<lambda>i. m ((s + 1) + of_nat i)) [0..<length xs]"
      by (simp add: upt_conv_Cons map_Suc_upt [symmetric] comp_def add.assoc del: upt_Suc)
    then show ?case using Cons.IH [of "s + 1"] Cons.prems by simp
  qed
  then show ?thesis using assms cstr_loop [of m s 0 xs] kputs_cstr [of m s 0 xs]
    by (simp add: strlen_def kputs_def knputs_def unat_of_nat_u64)
qed

section \<open>Comparing\<close>

fun cmp_bytes :: "u8 list \<Rightarrow> u8 list \<Rightarrow> int" where
  "cmp_bytes [] [] = 0"
| "cmp_bytes [] (y # ys) = - uint y"
| "cmp_bytes (x # xs) [] = uint x"
| "cmp_bytes (x # xs) (y # ys) = (if x = y then cmp_bytes xs ys else uint x - uint y)"

lemma strcmp_bytes: "cstr m s1 xs \<Longrightarrow> cstr m s2 ys \<Longrightarrow> strcmp m s1 s2 = Some (cmp_bytes xs ys)"
proof (induction xs ys arbitrary: s1 s2 rule: cmp_bytes.induct)
  case (4 x xs y ys)
  then show ?case by (subst strcmp.simps) auto
qed (subst strcmp.simps, auto)+

lemma strncmp_bytes:
  "cstr m (s1 + i) xs \<Longrightarrow> cstr m (s2 + i) ys \<Longrightarrow>
     strncmp_loop m s1 s2 n i = cmp_bytes (take n xs) (take n ys)"
proof (induction n arbitrary: i xs ys)
  case (Suc n)
  then show ?case by (cases xs; cases ys) (auto simp: add.assoc)
qed simp

lemma uint_u8_pos: "(x :: u8) \<noteq> 0 \<Longrightarrow> 0 < uint x"
  by (simp add: word_greater_zero_iff uint_0_iff less_le)

lemma cmp_bytes_sign:
  "0 \<notin> set xs \<Longrightarrow> 0 \<notin> set ys \<Longrightarrow> (cmp_bytes xs ys = 0 \<longleftrightarrow> xs = ys) \<and> (cmp_bytes xs ys < 0 \<longleftrightarrow> xs < ys)"
proof (induction xs ys rule: cmp_bytes.induct)
  case (2 y ys)
  then show ?case using uint_u8_pos [of y] by auto
next
  case (3 x xs)
  then show ?case using uint_u8_pos [of x] by auto
next
  case (4 x xs y ys)
  then show ?case by (auto simp: word_less_def word_uint_eq_iff [of x y])
qed simp

lemma cstr_nonzero: "cstr m s xs \<Longrightarrow> 0 \<notin> set xs"
  by (induction xs arbitrary: s) auto

text \<open>
  C34: Comparing C strings ends, with 0 exactly for equal strings and a negative result exactly when
  the first comes before the second, bytes being unsigned; \<open>strncmp\<close> does so for the
  first \<open>n\<close> bytes of each.
\<close>

theorem strcmp_orders:
  assumes "cstr m s1 xs" "cstr m s2 ys"
  shows "(\<exists>r. strcmp m s1 s2 = Some r \<and> (r = 0 \<longleftrightarrow> xs = ys) \<and> (r < 0 \<longleftrightarrow> xs < ys)) \<and>
    (strncmp m s1 s2 n = 0 \<longleftrightarrow> take (unat n) xs = take (unat n) ys) \<and>
    (strncmp m s1 s2 n < 0 \<longleftrightarrow> take (unat n) xs < take (unat n) ys)"
proof -
  have z: "0 \<notin> set xs" "0 \<notin> set ys" using assms cstr_nonzero by blast+
  then have t: "0 \<notin> set (take (unat n) xs)" "0 \<notin> set (take (unat n) ys)"
    by (meson in_set_takeD)+
  have "strncmp m s1 s2 n = cmp_bytes (take (unat n) xs) (take (unat n) ys)"
    using strncmp_bytes [of m s1 0 xs s2 ys] assms by (simp add: strncmp_def)
  then show ?thesis using strcmp_bytes [OF assms] cmp_bytes_sign [OF z] cmp_bytes_sign [OF t] by simp
qed

section \<open>Copying\<close>

definition apart_from :: "u64 \<Rightarrow> nat \<Rightarrow> u64 \<Rightarrow> nat \<Rightarrow> bool" where
  "apart_from d k s n \<longleftrightarrow> (\<forall>i<k. \<forall>j<n. d + of_nat i \<noteq> s + of_nat j)"

lemma cstr_upd: "cstr m s xs \<Longrightarrow> (\<And>j. j \<le> length xs \<Longrightarrow> d \<noteq> s + of_nat j) \<Longrightarrow> cstr (m(d := b)) s xs"
proof (induction xs arbitrary: s)
  case (Cons x xs)
  have "d \<noteq> (s + 1) + of_nat j" if "j \<le> length xs" for j
    using Cons.prems(2) [of "Suc j"] that by (simp add: add.assoc)
  moreover have "cstr m (s + 1) xs" using Cons.prems(1) by simp
  ultimately have "cstr (m(d := b)) (s + 1) xs" by (intro Cons.IH)
  moreover have "(m(d := b)) s = m s" using Cons.prems(2) [of 0] by simp
  ultimately show ?case using Cons.prems(1) by (simp del: fun_upd_apply)
qed (force dest: spec [of _ 0])

lemma strcpy_cstr:
  "cstr m src xs \<Longrightarrow> length xs < 2 ^ 64 \<Longrightarrow> apart_from dest (Suc (length xs)) src (Suc (length xs)) \<Longrightarrow>
     \<exists>m'. strcpy m dest src = Some m' \<and> cstr m' dest xs \<and>
       (\<forall>x. (\<forall>i\<le>length xs. x \<noteq> dest + of_nat i) \<longrightarrow> m' x = m x)"
proof (induction xs arbitrary: m dest src)
  case Nil
  then show ?case by (subst strcpy.simps) (auto simp: Let_def)
next
  case (Cons c xs)
  let ?m = "m(dest := c)"
  have ap: "dest + of_nat i \<noteq> src + of_nat j" if "i \<le> length (c # xs)" "j \<le> length (c # xs)" for i j
    using Cons.prems(3) that unfolding apart_from_def by (metis le_imp_less_Suc)
  have 1: "cstr ?m (src + 1) xs"
  proof (rule cstr_upd)
    show "cstr m (src + 1) xs" using Cons.prems(1) by simp
    show "dest \<noteq> src + 1 + of_nat j" if "j \<le> length xs" for j
      using ap [of 0 "Suc j"] that by (simp add: add.assoc)
  qed
  have 2: "apart_from (dest + 1) (Suc (length xs)) (src + 1) (Suc (length xs))"
    unfolding apart_from_def
  proof (intro allI impI)
    fix i j assume "i < Suc (length xs)" "j < Suc (length xs)"
    then show "dest + 1 + of_nat i \<noteq> src + 1 + of_nat j"
      using ap [of "Suc i" "Suc j"] by (simp add: add.assoc)
  qed
  have "length xs < 2 ^ 64" using Cons.prems(2) by simp
  from Cons.IH [OF 1 this 2] obtain m' where m': "strcpy ?m (dest + 1) (src + 1) = Some m'"
    "cstr m' (dest + 1) xs" "\<forall>x. (\<forall>i\<le>length xs. x \<noteq> dest + 1 + of_nat i) \<longrightarrow> m' x = ?m x" by blast
  have n: "dest \<noteq> dest + 1 + of_nat i" if "i \<le> length xs" for i
  proof
    assume "dest = dest + 1 + of_nat i"
    then have "(of_nat (Suc i) :: u64) = 0" by (simp add: add.assoc)
    moreover have "unat (of_nat (Suc i) :: u64) = Suc i"
      using that Cons.prems(2) by (intro unat_of_nat_u64) simp
    ultimately show False by simp
  qed
  have "m' dest = c" using m'(3) n by auto
  moreover have "m' x = m x" if "\<forall>i\<le>length (c # xs). x \<noteq> dest + of_nat i" for x
  proof -
    have "x \<noteq> dest + 1 + of_nat i" if "i \<le> length xs" for i
      using \<open>\<forall>i\<le>length (c # xs). x \<noteq> dest + of_nat i\<close> [rule_format, of "Suc i"] that by (simp add: add.assoc)
    moreover have "x \<noteq> dest" using that [rule_format, of 0] by simp
    ultimately show ?thesis using m'(3) by simp
  qed
  moreover have "strcpy m dest src = Some m'"
    using Cons.prems(1) m'(1) by (subst strcpy.simps) simp
  ultimately show ?case using m'(2) Cons.prems(1) by auto
qed

text \<open>
  Copying a C string ends, makes the destination hold the same string, and touches only the
  bytes up to its NUL, when source and destination do not overlap.
\<close>

lemma strcpy_copies:
  assumes "cstr m src xs" "length xs < 2 ^ 64"
    and "\<forall>i\<le>length xs. \<forall>j\<le>length xs. dest + of_nat i \<noteq> src + of_nat j"
  shows "\<exists>m'. strcpy m dest src = Some m' \<and> cstr m' dest xs \<and> cstr m' src xs \<and>
    (\<forall>x. (\<forall>i\<le>length xs. x \<noteq> dest + of_nat i) \<longrightarrow> m' x = m x)"
proof -
  have "apart_from dest (Suc (length xs)) src (Suc (length xs))"
    using assms(3) by (simp add: apart_from_def less_Suc_eq_le)
  then obtain m' where m': "strcpy m dest src = Some m'" "cstr m' dest xs"
    "\<forall>x. (\<forall>i\<le>length xs. x \<noteq> dest + of_nat i) \<longrightarrow> m' x = m x"
    using strcpy_cstr [OF assms(1,2)] by blast
  have cong: "cstr m s ys \<Longrightarrow> (\<And>j. j \<le> length ys \<Longrightarrow> m' (s + of_nat j) = m (s + of_nat j)) \<Longrightarrow> cstr m' s ys" for s ys
  proof (induction ys arbitrary: s)
    case Nil
    then show ?case using Nil(2) [of 0] by simp
  next
    case (Cons y ys)
    have "m' (s + 1 + of_nat j) = m (s + 1 + of_nat j)" if "j \<le> length ys" for j
      using Cons.prems(2) [of "Suc j"] that by (simp add: add.assoc)
    then show ?case using Cons.IH [of "s + 1"] Cons.prems(1) Cons.prems(2) [of 0] by simp
  qed
  have "cstr m' src xs" using assms(1,3) m'(3) by (intro cong) (auto, metis)
  then show ?thesis using m' by blast
qed

section \<open>Two strings\<close>

text \<open>\<open>Dawn\<close> at 0x100 and \<open>Day\<close> at 0x200.\<close>

definition two_strings :: mem where
  "two_strings = (\<lambda>_. 0)(0x100 := 0x44, 0x101 := 0x61, 0x102 := 0x77, 0x103 := 0x6e,
     0x200 := 0x44, 0x201 := 0x61, 0x202 := 0x79)"

lemma two_cstr: "cstr two_strings 0x100 [0x44, 0x61, 0x77, 0x6e]" "cstr two_strings 0x200 [0x44, 0x61, 0x79]"
  by (simp_all add: two_strings_def)

theorem strlen_kputs_witness:
  "strlen two_strings 0x100 = Some 4 \<and> kputs two_strings 0x200 = Some [0x44, 0x61, 0x79] \<and>
   knputs two_strings 0x200 3 = [0x44, 0x61, 0x79]"
  using strlen_kputs [OF two_cstr(1)] strlen_kputs [OF two_cstr(2)] by simp

theorem strcmp_orders_witness:
  "(\<exists>r. strcmp two_strings 0x100 0x200 = Some r \<and> r < 0) \<and> strncmp two_strings 0x100 0x200 2 = 0"
  using strcmp_orders [OF two_cstr, of 2] by (auto simp: word_less_def)

theorem strcpy_copies_witness:
  "\<exists>m'. strcpy two_strings 0x300 0x100 = Some m' \<and> cstr m' 0x300 [0x44, 0x61, 0x77, 0x6e] \<and> m' 0x201 = 0x61"
proof -
  have a: "\<forall>i\<le>length [0x44, 0x61, 0x77, 0x6e :: u8]. \<forall>j\<le>length [0x44, 0x61, 0x77, 0x6e :: u8].
      0x300 + of_nat i \<noteq> (0x100 :: u64) + of_nat j"
  proof (intro allI impI)
    fix i j assume "i \<le> length [0x44, 0x61, 0x77, 0x6e :: u8]" "j \<le> length [0x44, 0x61, 0x77, 0x6e :: u8]"
    then have "unat (0x300 + of_nat i :: u64) = 0x300 + i" "unat (0x100 + of_nat j :: u64) = 0x100 + j"
      by (simp_all add: unat_add_of_nat)
    then have "unat (0x300 + of_nat i :: u64) \<noteq> unat (0x100 + of_nat j :: u64)"
      using \<open>j \<le> _\<close> by simp
    then show "0x300 + of_nat i \<noteq> (0x100 :: u64) + of_nat j" by metis
  qed
  have o: "\<forall>i\<le>length [0x44, 0x61, 0x77, 0x6e :: u8]. (0x201 :: u64) \<noteq> 0x300 + of_nat i"
  proof (intro allI impI)
    fix i assume "i \<le> length [0x44, 0x61, 0x77, 0x6e :: u8]"
    then have "unat (0x300 + of_nat i :: u64) = 0x300 + i" by (simp add: unat_add_of_nat)
    then have "unat (0x201 :: u64) \<noteq> unat (0x300 + of_nat i :: u64)" by simp
    then show "(0x201 :: u64) \<noteq> 0x300 + of_nat i" by metis
  qed
  have "two_strings 0x201 = 0x61" by (simp add: two_strings_def)
  moreover obtain m' where "strcpy two_strings 0x300 0x100 = Some m'" "cstr m' 0x300 [0x44, 0x61, 0x77, 0x6e]"
    "m' 0x201 = two_strings 0x201"
    using strcpy_copies [OF two_cstr(1) _ a] o by auto
  ultimately show ?thesis by simp
qed

end
