(* ===== verification/Kprint.thy ===== *)
theory Kprint
  imports Prelude
begin

text \<open>
  Kernel printing (klib.c): numbers, and \<open>kprint\<close>'s formats. What goes out on port 0xe9 is a list
  of characters. A write outside the digit buffer, an argument the format asks for that is missing
  or of another kind, and a read past the end of the format have no result (\<open>None\<close>).
\<close>

section \<open>Numbers\<close>

text \<open>The loop that fills \<open>buf\<close> downwards from \<open>i\<close>; it stops when \<open>x\<close> is 0.\<close>

function num_loop :: "(u64 \<Rightarrow> char) \<Rightarrow> u64 \<Rightarrow> string \<Rightarrow> int \<Rightarrow> u64 \<Rightarrow> (string \<times> int) option" where
  "num_loop dig base buf i x =
     (if x = 0 then Some (buf, i)
      else if i < 0 then None
      else num_loop dig base (buf[nat i := dig (x mod base)]) (i - 1) (x div base))"
  by pat_completeness auto
termination by (relation "measure (\<lambda>(dig, base, buf, i, x). nat (i + 1))") auto

declare num_loop.simps [simp del]

text \<open>\<open>kputs (buf + i)\<close>.\<close>

definition buf_string :: "string \<Rightarrow> int \<Rightarrow> string" where
  "buf_string buf i = takeWhile (\<lambda>c. c \<noteq> CHR 0x00) (drop (nat i) buf)"

definition dec_digit :: "u64 \<Rightarrow> char" where
  "dec_digit d = char_of (unat d + 0x30)"

definition kprn_ui :: "u64 \<Rightarrow> string option" where
  "kprn_ui x =
     (if x = 0 then Some ''0''
      else case num_loop dec_digit 10 (replicate 21 (CHR 0x00)) 19 x of
             None \<Rightarrow> None
           | Some (buf, i) \<Rightarrow> Some (buf_string buf (i + 1)))"

definition hex_to_ascii_tab :: string where
  "hex_to_ascii_tab = ''0123456789abcdef''"

definition hex_digit :: "u64 \<Rightarrow> char" where
  "hex_digit d = hex_to_ascii_tab ! unat d"

definition kprn_x :: "u64 \<Rightarrow> string option" where
  "kprn_x x =
     (if x = 0 then Some ''0x0''
      else case num_loop hex_digit 16 (replicate 17 (CHR 0x00)) 15 x of
             None \<Rightarrow> None
           | Some (buf, i) \<Rightarrow> Some (''0x'' @ buf_string buf (i + 1)))"

section \<open>Formats\<close>

datatype karg = KStr "string option" | KNum u64 | KChr char

text \<open>One directive, \<open>c\<close> being the character after the percent sign.\<close>

definition kdirective :: "char \<Rightarrow> karg list \<Rightarrow> (string \<times> karg list) option" where
  "kdirective c args =
     (if c = CHR ''s'' then
        (case args of
           KStr None # args \<Rightarrow> Some (''(null)'', args)
         | KStr (Some s) # args \<Rightarrow> Some (s, args)
         | _ \<Rightarrow> None)
      else if c = CHR ''k'' then
        (case args of
           KStr (Some s) # KNum len # args \<Rightarrow>
             if unat len \<le> length s then Some (take (unat len) s, args) else None
         | _ \<Rightarrow> None)
      else if c = CHR ''u'' then
        (case args of KNum n # args \<Rightarrow> map_option (\<lambda>s. (s, args)) (kprn_ui (ucast (ucast n :: u32))) | _ \<Rightarrow> None)
      else if c = CHR ''U'' then
        (case args of KNum n # args \<Rightarrow> map_option (\<lambda>s. (s, args)) (kprn_ui n) | _ \<Rightarrow> None)
      else if c = CHR ''x'' then
        (case args of KNum n # args \<Rightarrow> map_option (\<lambda>s. (s, args)) (kprn_x (ucast (ucast n :: u32))) | _ \<Rightarrow> None)
      else if c = CHR ''X'' then
        (case args of KNum n # args \<Rightarrow> map_option (\<lambda>s. (s, args)) (kprn_x n) | _ \<Rightarrow> None)
      else if c = CHR ''c'' then
        (case args of KChr d # args \<Rightarrow> Some ([d], args) | _ \<Rightarrow> None)
      else Some (''?'', args))"

text \<open>The loop over the format: a percent sign at its end makes it read past the NUL.\<close>

fun kprint_loop :: "string \<Rightarrow> karg list \<Rightarrow> string option" where
  "kprint_loop [] args = Some [CHR 0x0A]"
| "kprint_loop (c # fmt) args =
     (if c \<noteq> CHR ''%'' then map_option (\<lambda>out. c # out) (kprint_loop fmt args)
      else case fmt of
             [] \<Rightarrow> None
           | d # fmt \<Rightarrow>
               (case kdirective d args of
                  None \<Rightarrow> None
                | Some (out, args) \<Rightarrow> map_option (\<lambda>out'. out @ out') (kprint_loop fmt args)))"

definition KRNL_PIT_FREQ :: u64 where "KRNL_PIT_FREQ = 1000"

definition KPRN_INFO :: nat where "KPRN_INFO = 0"
definition KPRN_WARN :: nat where "KPRN_WARN = 1"
definition KPRN_ERR :: nat where "KPRN_ERR = 2"
definition KPRN_DBG :: nat where "KPRN_DBG = 3"

text \<open>The time stamp, in seconds and milliseconds of one read of the tick count.\<close>

definition ms_str :: "u64 \<Rightarrow> string" where
  "ms_str ms = [char_of (0x30 + unat (ms div 100)), char_of (0x30 + unat (ms div 10 mod 10)),
     char_of (0x30 + unat (ms mod 10))]"

definition kprint_stamp :: "u64 \<Rightarrow> string option" where
  "kprint_stamp ticks =
     (let ms = ticks mod KRNL_PIT_FREQ * 1000 div KRNL_PIT_FREQ
      in map_option (\<lambda>s. ''['' @ s @ ''.'' @ ms_str ms @ ''] '') (kprn_ui (ticks div KRNL_PIT_FREQ)))"

definition esc :: string where "esc = [CHR 0x1B]"

definition kprint_type :: "nat \<Rightarrow> string option" where
  "kprint_type type =
     (if type = KPRN_INFO then Some (esc @ ''[36minfo'' @ esc @ ''[37m: '')
      else if type = KPRN_WARN then Some (esc @ ''[33mwarning'' @ esc @ ''[37m: '')
      else if type = KPRN_ERR then Some (esc @ ''[31mERROR'' @ esc @ ''[37m: '')
      else if type = KPRN_DBG then Some (esc @ ''[36mDEBUG'' @ esc @ ''[37m: '')
      else None)"

definition kprint :: "u64 \<Rightarrow> nat \<Rightarrow> string \<Rightarrow> karg list \<Rightarrow> string option" where
  "kprint ticks type fmt args =
     (case kprint_stamp ticks of
        None \<Rightarrow> None
      | Some stamp \<Rightarrow>
          (case kprint_type type of
             None \<Rightarrow> Some stamp
           | Some t \<Rightarrow> map_option (\<lambda>out. stamp @ t @ out) (kprint_loop fmt args)))"

section \<open>The digits printed\<close>

function digits :: "nat \<Rightarrow> nat \<Rightarrow> nat list" where
  "digits b n = (if n = 0 \<or> b < 2 then [] else digits b (n div b) @ [n mod b])"
  by pat_completeness auto
termination by (relation "measure snd") auto

declare digits.simps [simp del]

lemma digits_0 [simp]: "digits b 0 = []"
  by (simp add: digits.simps)

lemma digits_less: "d \<in> set (digits b n) \<Longrightarrow> d < b"
proof (induction b n rule: digits.induct)
  case (1 b n)
  then show ?case by (subst (asm) (2) digits.simps) (auto split: if_splits)
qed

lemma length_digits: "2 \<le> b \<Longrightarrow> n < b ^ k \<Longrightarrow> length (digits b n) \<le> k"
proof (induction k arbitrary: n)
  case 0
  then show ?case by simp
next
  case (Suc k)
  then have "n div b < b ^ k" by (simp add: div_less_iff_less_mult mult.commute)
  then have "length (digits b (n div b)) \<le> k" using Suc.IH Suc.prems(1) by simp
  then show ?case by (subst digits.simps) auto
qed

lemma foldl_digits: "2 \<le> b \<Longrightarrow> foldl (\<lambda>acc d. acc * b + d) 0 (digits b n) = n"
proof (induction b n rule: digits.induct)
  case (1 b n)
  show ?case
  proof (cases "n = 0")
    case False
    then have "digits b n = digits b (n div b) @ [n mod b]" using 1(2) by (subst digits.simps) simp
    then show ?thesis using 1 False by simp
  qed simp
qed

lemma digits_hd: "2 \<le> b \<Longrightarrow> n \<noteq> 0 \<Longrightarrow> digits b n \<noteq> [] \<and> hd (digits b n) \<noteq> 0"
proof (induction b n rule: digits.induct)
  case (1 b n)
  show ?case
  proof (cases "n div b = 0")
    case True
    then have "digits b n = [n mod b]" using 1 by (subst digits.simps) simp
    then show ?thesis using True 1 by (auto simp: div_eq_0_iff)
  next
    case False
    then have "digits b (n div b) \<noteq> [] \<and> hd (digits b (n div b)) \<noteq> 0" using 1 by simp
    then show ?thesis using 1 by (subst (1 2) digits.simps) auto
  qed
qed

text \<open>The loop leaves the digits in front of what is at \<open>i + 1\<close>.\<close>

lemma num_loop_digits:
  assumes "2 \<le> unat base"
  shows "int (length (digits (unat base) (unat x))) \<le> i + 1 \<Longrightarrow> i < int (length buf) \<Longrightarrow>
    num_loop dig base buf i x =
      Some (take (nat (i + 1) - length (digits (unat base) (unat x))) buf @
              map (\<lambda>d. dig (of_nat d)) (digits (unat base) (unat x)) @ drop (nat (i + 1)) buf,
            i - int (length (digits (unat base) (unat x))))"
proof (induction "nat (i + 1)" arbitrary: i x buf)
  case 0
  then have "int (length (digits (unat base) (unat x))) \<le> 0" by linarith
  then have "digits (unat base) (unat x) = []" by simp
  then have "unat x = 0" using assms digits_hd [of "unat base" "unat x"] by blast
  then have "x = 0" by (simp add: unat_eq_zero)
  then show ?case using 0 by (subst num_loop.simps) simp
next
  case (Suc k)
  show ?case
  proof (cases "x = 0")
    case True
    then show ?thesis by (subst num_loop.simps) simp
  next
    case False
    then have x: "unat x \<noteq> 0" by (simp add: unat_eq_zero)
    have d: "digits (unat base) (unat x) = digits (unat base) (unat (x div base)) @ [unat (x mod base)]"
      using x assms by (subst digits.simps) (simp add: unat_div unat_mod)
    let ?D = "digits (unat base) (unat (x div base))"
    let ?buf = "buf[nat i := dig (x mod base)]"
    have i: "0 \<le> i" using Suc.hyps(2) by simp
    have "num_loop dig base ?buf (i - 1) (x div base) =
        Some (take (nat i - length ?D) ?buf @ map (\<lambda>d. dig (of_nat d)) ?D @ drop (nat i) ?buf,
              i - 1 - int (length ?D))"
      using Suc.hyps(1) [of "i - 1" "x div base" ?buf] Suc.hyps(2) Suc.prems d i by simp
    moreover have "drop (nat i) ?buf = dig (x mod base) # drop (nat (i + 1)) buf"
      using i Suc.prems(2) by (simp add: nat_add_distrib Cons_nth_drop_Suc [symmetric])
    moreover have "take (nat i - length ?D) ?buf = take (nat i - length ?D) buf" by simp
    moreover have "nat (i + 1) - length (digits (unat base) (unat x)) = nat i - length ?D"
      using i by (simp add: d nat_add_distrib)
    ultimately show ?thesis using False i by (subst num_loop.simps) (simp add: d)
  qed
qed

lemma num_loop_string:
  assumes "2 \<le> unat base" "length (digits (unat base) (unat x)) \<le> k"
    and "\<And>d. d < unat base \<Longrightarrow> dig (of_nat d) \<noteq> CHR 0x00"
  obtains buf i where "num_loop dig base (replicate (Suc k) (CHR 0x00)) (int k - 1) x = Some (buf, i)"
    "buf_string buf (i + 1) = map (\<lambda>d. dig (of_nat d)) (digits (unat base) (unat x))"
proof -
  let ?ds = "map (\<lambda>d. dig (of_nat d)) (digits (unat base) (unat x))"
  let ?l = "length (digits (unat base) (unat x))"
  have t: "take (k - ?l) (replicate (Suc k) (CHR 0x00)) = replicate (k - ?l) (CHR 0x00)"
    by (simp only: take_replicate) (simp add: min_def)
  have d: "drop k (replicate (Suc k) (CHR 0x00)) = [CHR 0x00]"
    by (simp only: drop_replicate) simp
  have 1: "num_loop dig base (replicate (Suc k) (CHR 0x00)) (int k - 1) x =
      Some (replicate (k - ?l) (CHR 0x00) @ ?ds @ [CHR 0x00], int k - 1 - int ?l)"
    using num_loop_digits [OF assms(1), of x "int k - 1" "replicate (Suc k) (CHR 0x00)" dig] assms(2) t d
    by (simp del: replicate_Suc)
  have n: "\<forall>c\<in>set ?ds. c \<noteq> CHR 0x00" using assms(3) digits_less by auto
  have "nat (int k - int ?l) = k - ?l" using assms(2) by simp
  then have "buf_string (replicate (k - ?l) (CHR 0x00) @ ?ds @ [CHR 0x00]) (int k - int ?l) =
      takeWhile (\<lambda>c. c \<noteq> CHR 0x00) (?ds @ [CHR 0x00])"
    by (simp add: buf_string_def)
  also have "\<dots> = ?ds @ takeWhile (\<lambda>c. c \<noteq> CHR 0x00) [CHR 0x00]" using n by (intro takeWhile_append2) blast
  also have "\<dots> = ?ds" by simp
  finally show ?thesis using 1 that by simp
qed

lemma u64_less_power: "unat (x :: u64) < 10 ^ 20" "unat x < 16 ^ 16"
  using unat_u64_bound [of x] by simp_all

lemma dec_digit_of: "d < 10 \<Longrightarrow> dec_digit (of_nat d) = char_of (d + 48)"
  by (simp add: dec_digit_def unat_of_nat_u64)

lemma hex_digit_of: "d < 16 \<Longrightarrow> hex_digit (of_nat d) = ''0123456789abcdef'' ! d"
  by (simp add: hex_digit_def hex_to_ascii_tab_def unat_of_nat_u64)

lemma hex_not_nul: "d < 16 \<Longrightarrow> ''0123456789abcdef'' ! d \<noteq> CHR 0x00"
proof -
  assume "d < 16"
  then have "''0123456789abcdef'' ! d \<in> set ''0123456789abcdef''" by (intro nth_mem) simp
  then show ?thesis by auto
qed

lemma dec_not_nul: "(d :: nat) < 10 \<Longrightarrow> (char_of (d + 48) :: char) \<noteq> CHR 0x00"
proof
  assume "d < 10" "(char_of (d + 48) :: char) = CHR 0x00"
  then have "(of_char (char_of (d + 48) :: char) :: nat) = of_char (CHR 0x00)" by simp
  then show False using \<open>d < 10\<close> by simp
qed

lemma kprn_ui_digits: "x \<noteq> 0 \<Longrightarrow> kprn_ui x = Some (map (\<lambda>d. char_of (d + 48)) (digits 10 (unat x)))"
proof -
  assume x: "x \<noteq> 0"
  have l: "length (digits (unat (10 :: u64)) (unat x)) \<le> 20"
    using length_digits [of 10 "unat x" 20] u64_less_power by simp
  obtain buf i where b: "num_loop dec_digit 10 (replicate (Suc 20) (CHR 0x00)) (int 20 - 1) x = Some (buf, i)"
    "buf_string buf (i + 1) = map (\<lambda>d. dec_digit (of_nat d)) (digits (unat (10 :: u64)) (unat x))"
    by (rule num_loop_string [OF _ l, of dec_digit]) (simp_all add: dec_digit_of dec_not_nul)
  have "map (\<lambda>d. dec_digit (of_nat d)) (digits 10 (unat x)) = map (\<lambda>d. char_of (d + 48)) (digits 10 (unat x))"
    using digits_less [of _ 10 "unat x"] by (intro map_cong refl) (simp add: dec_digit_of)
  moreover have "replicate (Suc 20) (CHR 0x00) = replicate 21 (CHR 0x00)" "int 20 - 1 = 19" by simp_all
  ultimately show ?thesis using b x by (simp only: kprn_ui_def) simp
qed

lemma kprn_x_digits:
  "x \<noteq> 0 \<Longrightarrow> kprn_x x = Some (''0x'' @ map (\<lambda>d. ''0123456789abcdef'' ! d) (digits 16 (unat x)))"
proof -
  assume x: "x \<noteq> 0"
  have l: "length (digits (unat (16 :: u64)) (unat x)) \<le> 16"
    using length_digits [of 16 "unat x" 16] u64_less_power by simp
  obtain buf i where b: "num_loop hex_digit 16 (replicate (Suc 16) (CHR 0x00)) (int 16 - 1) x = Some (buf, i)"
    "buf_string buf (i + 1) = map (\<lambda>d. hex_digit (of_nat d)) (digits (unat (16 :: u64)) (unat x))"
    by (rule num_loop_string [OF _ l, of hex_digit]) (simp_all add: hex_digit_of hex_not_nul del: nth_Cons_numeral)
  have "map (\<lambda>d. hex_digit (of_nat d)) (digits 16 (unat x)) = map (\<lambda>d. ''0123456789abcdef'' ! d) (digits 16 (unat x))"
    using digits_less [of _ 16 "unat x"] by (intro map_cong refl) (simp add: hex_digit_of)
  moreover have "replicate (Suc 16) (CHR 0x00) = replicate 17 (CHR 0x00)" "int 16 - 1 = 15" by simp_all
  ultimately show ?thesis using b x by (simp only: kprn_x_def) simp
qed

text \<open>Reading a numeral back.\<close>

definition read_dec :: "string \<Rightarrow> nat" where
  "read_dec s = foldl (\<lambda>acc c. acc * 10 + (of_char c - 48)) 0 s"

definition hex_value :: "char \<Rightarrow> nat" where
  "hex_value c = (if of_char c < (58 :: nat) then of_char c - 48 else of_char c - 87)"

definition read_hex :: "string \<Rightarrow> nat" where
  "read_hex s = foldl (\<lambda>acc c. acc * 16 + hex_value c) 0 (drop 2 s)"

lemma hex_value_nth: "d < 16 \<Longrightarrow> hex_value (''0123456789abcdef'' ! d) = d"
proof -
  have "\<forall>d\<in>set [0..<16]. hex_value (''0123456789abcdef'' ! d) = d" by code_simp
  then show "d < 16 \<Longrightarrow> ?thesis" by simp
qed

lemma foldl_map_cong:
  assumes "\<And>d. d \<in> set ds \<Longrightarrow> v (f d) = d"
  shows "foldl (\<lambda>acc c. acc * b + v c) a (map f ds) = foldl (\<lambda>acc d. acc * b + d) a (ds :: nat list)"
  using assms by (induction ds arbitrary: a) auto

lemma read_dec_digits: "read_dec (map (\<lambda>d. char_of (d + 48)) (digits 10 n)) = n"
proof -
  have "read_dec (map (\<lambda>d. char_of (d + 48)) (digits 10 n)) = foldl (\<lambda>acc d. acc * 10 + d) 0 (digits 10 n)"
    unfolding read_dec_def using digits_less [of _ 10 n] by (intro foldl_map_cong) force
  then show ?thesis by (simp add: foldl_digits)
qed

lemma kprn_ui_value: "\<exists>s. kprn_ui x = Some s \<and> read_dec s = unat x"
  using kprn_ui_digits [of x] read_dec_digits [of "unat x"]
  by (cases "x = 0") (auto simp: kprn_ui_def read_dec_def)

text \<open>
  C32: Printing a number never leaves its buffer, and what is printed is the number: read back in its
  base it gives every 64-bit value, it has no leading zero, and it is at most 20 digits, or 0x and 16.
\<close>

theorem kprn_round_trip:
  "(\<exists>s. kprn_ui x = Some s \<and> read_dec s = unat x \<and> length s \<le> 20 \<and> (x \<noteq> 0 \<longrightarrow> hd s \<noteq> CHR ''0'')) \<and>
   (\<exists>s. kprn_x x = Some s \<and> read_hex s = unat x \<and> length s \<le> 18 \<and> take 2 s = ''0x'')"
proof (cases "x = 0")
  case True
  then show ?thesis by (simp add: kprn_ui_def kprn_x_def read_dec_def read_hex_def hex_value_def)
next
  case False
  let ?d = "digits 10 (unat x)" and ?h = "digits 16 (unat x)"
  let ?s = "map (\<lambda>d. char_of (d + 48)) ?d" and ?t = "map (\<lambda>d. ''0123456789abcdef'' ! d) ?h"
  have x: "unat x \<noteq> 0" using False by (simp add: unat_eq_zero)
  have 1: "read_dec ?s = unat x" by (rule read_dec_digits)
  have "read_hex (''0x'' @ ?t) = foldl (\<lambda>acc d. acc * 16 + d) 0 ?h"
    unfolding read_hex_def using digits_less [of _ 16 "unat x"]
    by (simp only: append_Cons append_Nil drop_Suc_Cons drop_0 numeral_2_eq_2, intro foldl_map_cong)
      (metis hex_value_nth)
  then have 2: "read_hex (''0x'' @ ?t) = unat x" by (simp add: foldl_digits)
  have l: "length ?d \<le> 20" "length ?h \<le> 16"
    using length_digits [of 10 "unat x" 20] length_digits [of 16 "unat x" 16] u64_less_power by simp_all
  have "hd ?s \<noteq> CHR ''0''"
  proof -
    have n: "?d \<noteq> []" "hd ?d \<noteq> 0" using digits_hd [of 10 "unat x"] x by auto
    then have "hd ?d < 10" using digits_less [of "hd ?d" 10 "unat x"] hd_in_set by blast
    then have "of_char (char_of (hd ?d + 48) :: char) \<noteq> (of_char (CHR ''0'') :: nat)" using n(2) by simp
    then have "(char_of (hd ?d + 48) :: char) \<noteq> CHR ''0''" by metis
    then show ?thesis using n(1) by (simp add: hd_map)
  qed
  then show ?thesis using 1 2 l kprn_ui_digits [OF False] kprn_x_digits [OF False] by auto
qed

theorem kprn_round_trip_witness:
  "\<exists>s t. kprn_ui 18446744073709551615 = Some s \<and> read_dec s = 18446744073709551615 \<and> hd s \<noteq> CHR ''0'' \<and>
     kprn_x 48879 = Some t \<and> read_hex t = 48879"
  using kprn_round_trip [of 18446744073709551615] kprn_round_trip [of 48879] by auto

section \<open>Lines\<close>

lemma read_dec_three:
  assumes "a < 10" "b < 10" "c < 10"
  shows "read_dec [char_of (0x30 + a), char_of (0x30 + b), char_of (0x30 + c)] = 100 * a + 10 * b + c"
  using assms by (simp add: read_dec_def)

lemma kprint_loop_plain: "CHR ''%'' \<notin> set fmt \<Longrightarrow> kprint_loop fmt args = Some (fmt @ [CHR 0x0A])"
  by (induction fmt) auto

text \<open>
  A line of the log starts with the time in brackets: the seconds and, always in three digits,
  the milliseconds of one tick count, for every tick count; then the tag of its type, the text, and a
  newline.
\<close>

lemma kprint_line:
  assumes "CHR ''%'' \<notin> set fmt" "kprint_type type = Some tag"
  shows "\<exists>sec ms. kprint ticks type fmt args = Some (''['' @ sec @ ''.'' @ ms @ ''] '' @ tag @ fmt @ [CHR 0x0A]) \<and>
    read_dec sec = unat ticks div 1000 \<and> read_dec ms = unat ticks mod 1000 \<and> length ms = 3"
proof -
  let ?ms = "ticks mod KRNL_PIT_FREQ * 1000 div KRNL_PIT_FREQ"
  obtain sec where sec: "kprn_ui (ticks div KRNL_PIT_FREQ) = Some sec"
    "read_dec sec = unat (ticks div KRNL_PIT_FREQ)" using kprn_ui_value by blast
  have k: "unat KRNL_PIT_FREQ = 1000" by (simp add: KRNL_PIT_FREQ_def)
  have m: "unat (ticks mod KRNL_PIT_FREQ) = unat ticks mod 1000" by (simp add: unat_mod k)
  have "unat (ticks mod KRNL_PIT_FREQ) * unat (1000 :: u64) < 2 ^ LENGTH(64)" by (simp add: m)
  then have "unat (ticks mod KRNL_PIT_FREQ * 1000) = unat (ticks mod KRNL_PIT_FREQ) * unat (1000 :: u64)"
    by (simp only: unat_mult_lem)
  then have "unat (ticks mod KRNL_PIT_FREQ * 1000) = (unat ticks mod 1000) * 1000" by (simp only: m) simp
  then have n: "unat ?ms = unat ticks mod 1000" by (simp add: unat_div k)
  have d: "unat (y div 100) = unat y div 100" "unat (y div 10) = unat y div 10"
    "unat (y mod 10) = unat y mod 10" for y :: u64
    by (simp_all add: unat_div unat_mod)
  let ?n = "unat ticks mod 1000"
  have "?n < 1000" by simp
  then have "read_dec (ms_str ?ms) = 100 * (?n div 100) + 10 * (?n div 10 mod 10) + ?n mod 10"
    unfolding ms_str_def d n by (intro read_dec_three) (simp_all add: div_less_iff_less_mult)
  also have "\<dots> = ?n"
  proof -
    have "?n = 10 * (?n div 10) + ?n mod 10" "?n div 10 = 10 * (?n div 10 div 10) + ?n div 10 mod 10" by simp_all
    moreover have "?n div 10 div 10 = ?n div 100" by (simp add: div_mult2_eq [symmetric])
    ultimately show ?thesis by linarith
  qed
  finally have "read_dec (ms_str ?ms) = ?n" .
  moreover have "read_dec sec = unat ticks div 1000" by (simp add: sec(2) unat_div k)
  moreover have "length (ms_str ?ms) = 3" by (simp add: ms_str_def)
  moreover have "kprint ticks type fmt args =
      Some (''['' @ sec @ ''.'' @ ms_str ?ms @ ''] '' @ tag @ fmt @ [CHR 0x0A])"
    by (simp add: kprint_def kprint_stamp_def sec(1) Let_def assms kprint_loop_plain)
  ultimately show ?thesis by blast
qed

theorem kprint_line_witness:
  "\<exists>sec ms. kprint 12045 KPRN_WARN ''low memory'' [] =
      Some (''['' @ sec @ ''.'' @ ms @ ''] '' @ esc @ ''[33mwarning'' @ esc @ ''[37m: '' @ ''low memory'' @ [CHR 0x0A]) \<and>
    read_dec sec = 12 \<and> read_dec ms = 45 \<and> length ms = 3"
proof -
  have "kprint_type KPRN_WARN = Some (esc @ ''[33mwarning'' @ esc @ ''[37m: '')"
    by (simp add: kprint_type_def KPRN_INFO_def KPRN_WARN_def)
  from kprint_line [OF _ this, of "''low memory''" 12045 "[]"] show ?thesis by simp
qed

end
