(* ===== verification/Kalloc.thy ===== *)
theory Kalloc
  imports Pmm Mem_Funcs
begin

text \<open>
  \<open>kalloc\<close>, \<open>kfree\<close> and \<open>krealloc\<close> (klib.c) over the page allocator: a block is a run of pages
  with one more in front, which holds \<open>kalloc_metadata_t\<close>: the number of pages and the size.
\<close>

section \<open>The functions\<close>

definition pages_for :: "u64 \<Rightarrow> u64" where
  "pages_for sz = (let pages = sz div PAGE_SIZE in if sz mod PAGE_SIZE \<noteq> 0 then pages + 1 else pages)"

definition kalloc :: "u64 \<Rightarrow> pmm \<Rightarrow> u64 \<times> pmm" where
  "kalloc sz st =
     (let pages = pages_for sz;
          (ptr, st) = kmalloc (pages + 1) st
      in if ptr = 0 then (0, st)
         else let metadata = ptr + hhdm_offset st;
                  ptr = metadata + PAGE_SIZE;
                  st = st\<lparr>phys_mem := store64 (phys_mem st) metadata pages\<rparr>;
                  st = st\<lparr>phys_mem := store64 (phys_mem st) (metadata + 8) sz\<rparr>
              in (ptr, st))"

text \<open>\<open>metadata\<close> points to 16-byte records, so that subtracting \<open>PHYS_MEM_OFFSET\<close> takes 16 times it.\<close>

definition kfree :: "u64 \<Rightarrow> pmm \<Rightarrow> pmm" where
  "kfree addr st =
     (let metadata = addr - PAGE_SIZE
      in kmfree (metadata - 16 * hhdm_offset st) (load64 (phys_mem st) metadata + 1) st)"

definition krealloc :: "u64 \<Rightarrow> u64 \<Rightarrow> pmm \<Rightarrow> u64 \<times> pmm" where
  "krealloc addr new_size st =
     (if addr = 0 then kalloc new_size st
      else if new_size = 0 then (0, kfree addr st)
      else let metadata = addr - PAGE_SIZE;
               (new_ptr, st) = kalloc new_size st
           in if new_ptr = 0 then (0, st)
              else let sz = load64 (phys_mem st) (metadata + 8);
                       n = (if sz > new_size then new_size else sz);
                       st = st\<lparr>phys_mem := memcpy (phys_mem st) new_ptr addr n\<rparr>
                   in (new_ptr, kfree addr st))"

section \<open>Blocks\<close>

text \<open>A block of \<open>sz\<close> bytes at \<open>addr\<close>, whose metadata is on page \<open>s\<close>: its pages are in use.\<close>

definition block_at :: "pmm \<Rightarrow> u64 \<Rightarrow> nat \<Rightarrow> u64 \<Rightarrow> bool" where
  "block_at st addr s sz \<longleftrightarrow>
     addr = hhdm_offset st + of_nat (4096 * s) + 4096 \<and>
     s + unat (pages_for sz) + 1 \<le> unat (max_page st) \<and>
     load64 (phys_mem st) (addr - PAGE_SIZE) = pages_for sz \<and>
     load64 (phys_mem st) (addr - PAGE_SIZE + 8) = sz \<and>
     (\<forall>j. s \<le> unat j \<and> unat j < s + unat (pages_for sz) + 1 \<longrightarrow> page_used st j)"

lemma round_up_pages:
  "(if n mod 4096 \<noteq> 0 then n div 4096 + 1 else n div 4096) = (n + 4095) div (4096 :: nat)"
proof -
  define q r where "q = n div 4096" and "r = n mod 4096"
  have n: "n = r + 4096 * q" "r < 4096" by (simp_all add: q_def r_def)
  have "(n + 4095) div 4096 = q + (r + 4095) div 4096" by (simp add: n)
  moreover have "(r + 4095) div 4096 = (if r = 0 then 0 else 1)" using n(2) by (auto simp: div_nat_eqI)
  ultimately show ?thesis by (simp add: q_def r_def)
qed

lemma round_up_bounds: "n \<le> 4096 * ((n + 4095) div (4096 :: nat))"
  "n < 2 ^ 64 \<Longrightarrow> (n + 4095) div (4096 :: nat) \<le> 2 ^ 52"
proof -
  show "n \<le> 4096 * ((n + 4095) div (4096 :: nat))" by linarith
  show "n < 2 ^ 64 \<Longrightarrow> (n + 4095) div (4096 :: nat) \<le> 2 ^ 52"
    by (rule div_le_mono [of "n + 4095" "2 ^ 64 + 4094" 4096, THEN order_trans]) simp_all
qed

lemma unat_pages_for: "unat (pages_for sz) = (unat sz + 4095) div 4096"
proof -
  have "unat sz div 4096 \<le> 2 ^ 64 div 4096"
    using unat_u64_bound [of sz] by (intro div_le_mono) simp
  then have b: "unat sz div 4096 \<le> 2 ^ 52" by simp
  have q: "unat (sz div PAGE_SIZE) = unat sz div 4096" "unat (sz mod PAGE_SIZE) = unat sz mod 4096"
    by (simp_all add: unat_div unat_mod PAGE_SIZE_def)
  have p: "unat (sz div PAGE_SIZE + 1) = unat sz div 4096 + 1"
    using b q(1) unat_add_of_nat [of "sz div PAGE_SIZE" 1] by simp
  have z: "sz mod PAGE_SIZE = 0 \<longleftrightarrow> unat sz mod 4096 = 0" using q(2) by (metis unat_eq_zero)
  have "unat (pages_for sz) = (if unat sz mod 4096 \<noteq> 0 then unat sz div 4096 + 1 else unat sz div 4096)"
    using q(1) p by (cases "unat sz mod 4096 = 0") (simp_all only: pages_for_def Let_def z if_True if_False simp_thms)
  then show ?thesis by (simp only: round_up_pages)
qed

lemma pages_for_bound: "unat (pages_for sz) \<le> 2 ^ 52" "unat (pages_for sz + 1) = unat (pages_for sz) + 1"
  "pages_for sz + 1 \<noteq> 0" "unat sz \<le> 4096 * unat (pages_for sz)"
proof -
  show b: "unat (pages_for sz) \<le> 2 ^ 52"
    unfolding unat_pages_for by (rule round_up_bounds(2)) (rule unat_u64_bound)
  then have "unat (pages_for sz) + 1 < 2 ^ LENGTH(64)" by simp
  then show 1: "unat (pages_for sz + 1) = unat (pages_for sz) + 1"
    using unat_add_of_nat [of "pages_for sz" 1] by simp
  show "pages_for sz + 1 \<noteq> 0" using 1 by (metis Suc_eq_plus1 nat.distinct(1) unsigned_0)
  show "unat sz \<le> 4096 * unat (pages_for sz)" unfolding unat_pages_for by (rule round_up_bounds)
qed

lemma kalloc_frame: "kalloc sz st = (p, st') \<Longrightarrow> max_page st' = max_page st"
  using kmalloc_frame by (auto simp: kalloc_def Let_def split: prod.splits if_splits)

lemma unat_diff_far:
  fixes a b :: u64
  assumes "b = a + of_nat k" "k < 2 ^ 64"
  shows "unat (b - a) = k"
  using assms by (simp add: unat_of_nat_u64)

text \<open>The two words of metadata, and the bytes they leave alone.\<close>

definition put_meta :: "u64 \<Rightarrow> u64 \<Rightarrow> u64 \<Rightarrow> mem \<Rightarrow> mem" where
  "put_meta a pages sz m = store64 (store64 m a pages) (a + 8) sz"

lemma put_meta_load: "load64 (put_meta a n sz m) a = n" "load64 (put_meta a n sz m) (a + 8) = sz"
proof -
  have "disj8 (a + 8) a" by (simp add: disj8_def)
  then show "load64 (put_meta a n sz m) a = n" "load64 (put_meta a n sz m) (a + 8) = sz"
    by (simp_all add: put_meta_def mem_simps)
qed

lemma put_meta_outside: "16 \<le> unat (x - a) \<Longrightarrow> put_meta a n sz m x = m x"
proof -
  assume x: "16 \<le> unat (x - a)"
  then have "8 \<le> x - a" by (simp add: word_le_nat_alt)
  then have "unat (x - a - 8) = unat (x - a) - 8" by (simp add: unat_diff_le)
  then have "\<not> x - a < 8" "\<not> x - (a + 8) < 8" using x by (simp_all add: word_less_nat_alt diff_diff_eq)
  then show ?thesis by (simp add: put_meta_def store64_outside)
qed

text \<open>What the page allocator gives, from \<open>meta\<close> on.\<close>

lemma kalloc_spec:
  assumes "pmm_ok st" "hhdm_ok st" "kalloc sz st = (p, st')"
  shows "if p = 0 then st' = st
    else pmm_ok st' \<and> hhdm_offset st' = hhdm_offset st \<and> (\<exists>s. block_at st' p s sz \<and>
      (\<forall>j. s \<le> unat j \<and> unat j < s + unat (pages_for sz) + 1 \<longrightarrow> \<not> page_used st j) \<and>
      (\<forall>j. page_used st j \<longrightarrow> page_used st' j) \<and>
      (\<forall>i < 4096 * unat (pages_for sz). phys_mem st' (p + of_nat i) = 0) \<and>
      (\<forall>x. 4096 * (unat (pages_for sz) + 1) \<le> unat (x - (p - PAGE_SIZE)) \<longrightarrow> phys_mem st' x = phys_mem st x))"
proof -
  let ?n = "unat (pages_for sz)"
  obtain p0 st0 where k: "kmalloc (pages_for sz + 1) st = (p0, st0)" by fastforce
  note spec = kmalloc_spec [OF assms(1) pages_for_bound(3) assms(2) k]
  show ?thesis
  proof (cases "p0 = 0")
    case True
    then show ?thesis using spec assms(3) k by (simp add: kalloc_def)
  next
    case False
    then obtain s where s: "pmm_ok st0" "unat p0 = 4096 * s" "4096 \<le> s" "s + (?n + 1) \<le> unat (max_page st)"
      "free_run (page_used st) s (?n + 1)"
      "\<And>j. page_used st0 j \<longleftrightarrow> s \<le> unat j \<and> unat j < s + (?n + 1) \<or> page_used st j"
      "\<And>x. phys_mem st0 x = (if unat (x - (hhdm_offset st + p0)) < 4096 * (?n + 1) then 0 else phys_mem st x)"
      using spec unfolding pages_for_bound(2) by auto
    let ?meta = "p0 + hhdm_offset st"
    have fr: "hhdm_offset st0 = hhdm_offset st" "max_page st0 = max_page st" using kmalloc_frame [OF k] by simp_all
    have e: "p = ?meta + PAGE_SIZE" "st' = st0\<lparr>phys_mem := put_meta ?meta (pages_for sz) sz (phys_mem st0)\<rparr>"
      using assms(3) False by (simp_all add: kalloc_def Let_def k fr put_meta_def)
    have meta: "p - PAGE_SIZE = ?meta" by (simp add: e)
    have mx: "unat (max_page st) \<le> 2 ^ 40" using assms(1) by (simp add: pmm_ok_def)
    have p0: "p0 = of_nat (4096 * s)" by (simp only: s(2) [symmetric]) simp
    have h: "unat (hhdm_offset st) + 4096 * unat (max_page st) < 2 ^ 64" using assms(2) by (simp add: hhdm_ok_def)
    have "unat ?meta = 4096 * s + unat (hhdm_offset st)"
      using h s(2,4) mx by (subst unat_add_no_wrap) auto
    then have "unat p = 4096 * s + unat (hhdm_offset st) + 4096"
      using h s(4) mx unat_add_of_nat [of ?meta 4096] by (simp add: e PAGE_SIZE_def)
    then have p: "p \<noteq> 0" by auto
    have b: "block_at st' p s sz"
      using s(4,6) fr by (simp add: block_at_def meta put_meta_load e(2))
        (simp add: e(1) p0 PAGE_SIZE_def)
    have z: "phys_mem st' (p + of_nat i) = 0" if "i < 4096 * ?n" for i
    proof -
      have "?n \<le> 2 ^ 40" using s(4) mx by simp
      then have i: "4096 + i < 2 ^ 64" using that mult_le_mono2 [of ?n "2 ^ 40" 4096] by simp
      have "p + of_nat i = ?meta + of_nat (4096 + i)" by (simp add: e PAGE_SIZE_def)
      then have u: "unat (p + of_nat i - ?meta) = 4096 + i" using i by (intro unat_diff_far)
      then have "phys_mem st' (p + of_nat i) = phys_mem st0 (p + of_nat i)" by (simp add: e(2) put_meta_outside)
      then show ?thesis using u that by (simp add: s(7) add.commute [of p0])
    qed
    have o: "phys_mem st' x = phys_mem st x" if "4096 * (?n + 1) \<le> unat (x - (p - PAGE_SIZE))" for x
      using that unfolding meta by (simp add: e(2) put_meta_outside s(7) add.commute [of p0])
    have f: "\<not> page_used st j" if "s \<le> unat j" "unat j < s + ?n + 1" for j
      using free_run_unat [OF s(5), of j] that by simp
    have u: "page_used st j \<Longrightarrow> page_used st' j" for j by (simp add: e(2) s(6))
    have k: "pmm_ok st'" using s(1) by (simp add: e(2) pmm_ok_def)
    have hh: "hhdm_offset st' = hhdm_offset st" by (simp add: e(2) fr)
    show ?thesis using p k hh b z o f u by auto
  qed
qed

section \<open>Reallocation\<close>

lemma block_unat:
  assumes "hhdm_ok st" "block_at st a s sz"
  shows "unat (a - PAGE_SIZE) = unat (hhdm_offset st) + 4096 * s" "s + unat (pages_for sz) + 1 \<le> unat (max_page st)"
    "a \<noteq> 0"
proof -
  show s: "s + unat (pages_for sz) + 1 \<le> unat (max_page st)" using assms by (simp add: block_at_def)
  have h: "unat (hhdm_offset st) + 4096 * unat (max_page st) < 2 ^ 64" using assms(1) by (simp add: hhdm_ok_def)
  have a: "a - PAGE_SIZE = hhdm_offset st + of_nat (4096 * s)" "a = hhdm_offset st + of_nat (4096 * s + 4096)"
    using assms(2) unfolding block_at_def by (simp_all add: PAGE_SIZE_def add.assoc)
  show "unat (a - PAGE_SIZE) = unat (hhdm_offset st) + 4096 * s"
    unfolding a(1) using h s by (intro unat_add_of_nat) simp
  have "unat a = unat (hhdm_offset st) + (4096 * s + 4096)"
    unfolding a(2) using h s by (intro unat_add_of_nat) simp
  then show "a \<noteq> 0" by auto
qed

lemma runs_apart:
  fixes used :: "u64 \<Rightarrow> bool"
  assumes "\<forall>j. s \<le> unat j \<and> unat j < s + n + 1 \<longrightarrow> used j"
    and "\<forall>j. t \<le> unat j \<and> unat j < t + k + 1 \<longrightarrow> \<not> used j"
    and "s + n + 1 \<le> mx" "t + k + 1 \<le> mx" "mx \<le> 2 ^ 40"
  shows "s + n + 1 \<le> t \<or> t + k + 1 \<le> s"
proof (rule ccontr)
  assume c: "\<not> ?thesis"
  let ?j = "of_nat (max s t) :: u64"
  have "unat ?j = max s t" using assms(3-5) by (intro unat_of_nat_u64) simp
  then show False using c assms(1) [rule_format, of ?j] assms(2) [rule_format, of ?j] by (auto simp: max_def split: if_splits)
qed

lemma kfree_mem [simp]: "phys_mem (kfree a st) = phys_mem st"
  by (simp add: kfree_def kmfree_def Let_def)


section \<open>Freeing\<close>

text \<open>
  With the direct map where Limine puts it, \<open>kfree\<close> frees none of its block's pages, nor any
  other the bitmap tracks: it hands \<open>kmfree\<close> an address whose pages are far past the last one.
\<close>

lemma kfree_frees_nothing:
  assumes "pmm_ok st" "block_at st addr s sz" "hhdm_offset st = 0xffff800000000000"
    and "unat (max_page st) \<le> 2 ^ 34" "unat j < unat (max_page st)"
  shows "page_used (kfree addr st) j \<longleftrightarrow> page_used st j"
proof -
  have b: "s + unat (pages_for sz) + 1 \<le> 2 ^ 34" using assms(2,4) by (simp add: block_at_def)
  have a: "addr = 0xffff800000000000 + of_nat (4096 * s) + 4096"
    using assms(2,3) unfolding block_at_def by simp
  have "load64 (phys_mem st) (addr - PAGE_SIZE) = pages_for sz" using assms(2) unfolding block_at_def by blast
  moreover have "addr - PAGE_SIZE - 16 * hhdm_offset st = 0x7800000000000 + of_nat (4096 * s)"
    by (simp add: a assms(3) PAGE_SIZE_def)
  ultimately have k: "kfree addr st = kmfree (0x7800000000000 + of_nat (4096 * s)) (pages_for sz + 1) st"
    by (simp add: kfree_def Let_def)
  have "unat (0x7800000000000 + of_nat (4096 * s) :: u64) = unat (0x7800000000000 :: u64) + 4096 * s"
    using b by (intro unat_add_of_nat) simp
  also have "\<dots> = 4096 * (0x7800000000 + s)" by simp
  finally have u: "unat (0x7800000000000 + of_nat (4096 * s) :: u64) = 4096 * (0x7800000000 + s)" .
  have "0x7800000000 + s + unat (pages_for sz + 1) \<le> 2 ^ 60" using b by (simp add: pages_for_bound(2))
  from kmfree_used [OF u this] show ?thesis using assms(4,5) unfolding k by auto
qed

section \<open>A small heap\<close>

text \<open>A block of 100 bytes, all 7, on the first two pages.\<close>

definition one_kblock :: pmm where
  "one_kblock = \<lparr>mem_bitmap = wr_bitmap (wr_bitmap (\<lambda>_. 0) 4096 True) 4097 True, bitmap_pages = 1,
     max_page = 5120, last_alloc_page = 4098, hhdm_offset = 0xffff800000000000, kernel_phys_base = 0,
     kernel_virt_base = 0, phys_mem = put_meta 0xffff800001000000 1 100 (\<lambda>_. 7)\<rparr>"

lemma one_kblock_used: "page_used one_kblock j \<longleftrightarrow> j = 4096 \<or> j = 4097"
  by (simp add: one_kblock_def) (simp add: rd_bitmap_iff disj_commute)

lemma one_kblock_ok: "pmm_ok one_kblock" "hhdm_ok one_kblock" "block_at one_kblock 0xffff800001001000 4096 100"
proof -
  show "pmm_ok one_kblock" "hhdm_ok one_kblock"
    by (simp_all add: one_kblock_def pmm_ok_def hhdm_ok_def base_unat)
  have p: "pages_for 100 = 1" by code_simp
  have j: "page_used one_kblock j" if "4096 \<le> unat j" "unat j < 4098" for j
  proof -
    have "unat j = unat (4096 :: u64) \<or> unat j = unat (4097 :: u64)" using that by auto
    then show ?thesis by (auto simp: one_kblock_used word_unat_eq_iff)
  qed
  have l: "load64 (phys_mem one_kblock) 0xffff800001000000 = 1" "load64 (phys_mem one_kblock) 0xffff800001000008 = 100"
    using put_meta_load [of "0xffff800001000000" 1 100 "\<lambda>_. 7"] by (simp_all add: one_kblock_def)
  have "hhdm_offset one_kblock = 0xffff800000000000" "max_page one_kblock = 5120" by (simp_all add: one_kblock_def)
  then show "block_at one_kblock 0xffff800001001000 4096 100"
    unfolding block_at_def p using j l by (simp add: PAGE_SIZE_def)
qed

lemma one_kblock_room: "fst (kalloc 5000 one_kblock) \<noteq> 0"
proof
  assume z: "fst (kalloc 5000 one_kblock) = 0"
  obtain p0 st0 where k: "kmalloc (pages_for 5000 + 1) one_kblock = (p0, st0)" by fastforce
  have n: "pages_for 5000 + 1 = 3" by code_simp
  have e: "hhdm_offset one_kblock = 0xffff800000000000" "last_alloc_page one_kblock = 4098" "max_page one_kblock = 5120"
    by (simp_all add: one_kblock_def)
  note spec = kmalloc_spec [OF one_kblock_ok(1) _ one_kblock_ok(2) k]
  have "\<not> page_used one_kblock (of_nat (4098 + k))" if "k < 3" for k :: nat
  proof -
    have "unat (of_nat (4098 + k) :: u64) = 4098 + k" using that by (intro unat_of_nat_u64) simp
    then have "unat (of_nat (4098 + k) :: u64) \<noteq> unat (4096 :: u64)"
      "unat (of_nat (4098 + k) :: u64) \<noteq> unat (4097 :: u64)" by simp_all
    then show ?thesis by (metis one_kblock_used)
  qed
  then have f: "free_run (page_used one_kblock) 4098 3" by (simp add: free_run_def)
  have "p0 \<noteq> 0"
  proof
    assume "p0 = 0"
    then show False using spec f unfolding n e by fastforce
  qed
  then have "fst (kalloc 5000 one_kblock) = p0 + hhdm_offset st0 + PAGE_SIZE"
    using k by (simp add: kalloc_def Let_def)
  moreover obtain s where "unat p0 = 4096 * s" "s + 3 \<le> 5120"
    using spec \<open>p0 \<noteq> 0\<close> unfolding n e by auto
  moreover have "hhdm_offset st0 = 0xffff800000000000" using kmalloc_frame [OF k] e by simp
  ultimately have "fst (kalloc 5000 one_kblock) = 0xffff800000001000 + p0" "unat p0 \<le> 4096 * 5120"
    by (simp_all add: PAGE_SIZE_def add.commute)
  then have "unat (fst (kalloc 5000 one_kblock)) = 0xffff800000001000 + unat p0"
    by (simp add: unat_add_no_wrap)
  then show False using z by simp
qed


theorem kfree_frees_nothing_witness:
  "page_used (kfree 0xffff800001001000 one_kblock) 4096 \<and> page_used (kfree 0xffff800001001000 one_kblock) 4097"
proof -
  have h: "hhdm_offset one_kblock = 0xffff800000000000" "unat (max_page one_kblock) = 5120"
    by (simp_all add: one_kblock_def)
  show ?thesis
    using kfree_frees_nothing [OF one_kblock_ok(1,3) h(1), of 4096] kfree_frees_nothing [OF one_kblock_ok(1,3) h(1), of 4097]
    by (simp add: h(2) one_kblock_used)
qed

end
