(* ===== verification/Paging.thy ===== *)
theory Paging
  imports Pmm "HOL-Library.Sublist"
begin

text \<open>
  Page tables (paging.c): \<open>map_page\<close> and \<open>map_page_2m\<close> build four levels of tables in pages from the
  page allocator, which they read and write through the direct map. The specification is what the
  CPU does with them: the walk from the root, entry by entry, to a page of 4 KiB, 2 MiB or 1 GiB.
\<close>

section \<open>The functions\<close>

definition pt_entry :: "pmm \<Rightarrow> u64 \<Rightarrow> u64 \<Rightarrow> u64" where
  "pt_entry st t i = load64 (phys_mem st) (t + 8 * i)"

definition set_pt_entry :: "u64 \<Rightarrow> u64 \<Rightarrow> u64 \<Rightarrow> pmm \<Rightarrow> pmm" where
  "set_pt_entry t i e st = st\<lparr>phys_mem := store64 (phys_mem st) (t + 8 * i) e\<rparr>"

definition pml4_idx :: "u64 \<Rightarrow> u64" where "pml4_idx v = drop_bit 39 v AND 0x1ff"
definition pdpt_idx :: "u64 \<Rightarrow> u64" where "pdpt_idx v = drop_bit 30 v AND 0x1ff"
definition pd_idx :: "u64 \<Rightarrow> u64" where "pd_idx v = drop_bit 21 v AND 0x1ff"
definition pt_idx :: "u64 \<Rightarrow> u64" where "pt_idx v = drop_bit 12 v AND 0x1ff"

definition table_of :: "pmm \<Rightarrow> u64 \<Rightarrow> u64" where
  "table_of st e = (e AND 0xfffffffffffff000) + hhdm_offset st"

text \<open>Getting or allocating the table an entry points to; \<open>None\<close> when there is no page for it.\<close>

definition get_table :: "u64 \<Rightarrow> u64 \<Rightarrow> pmm \<Rightarrow> u64 option \<times> pmm" where
  "get_table t i st =
     (if pt_entry st t i AND 1 \<noteq> 0 then (Some (table_of st (pt_entry st t i)), st)
      else let (p, st) = kmalloc 1 st
           in if p = 0 then (None, st)
              else (Some (p + hhdm_offset st), set_pt_entry t i (p OR 3) st))"

definition huge_entry :: "u64 \<Rightarrow> bool" where
  "huge_entry e \<longleftrightarrow> e AND 1 \<noteq> 0 \<and> e AND push_bit 7 1 \<noteq> 0"

definition map_page :: "u64 \<Rightarrow> u64 \<Rightarrow> u64 \<Rightarrow> pmm \<Rightarrow> int \<times> pmm" where
  "map_page pml4 phys_addr virt_addr st =
     (case get_table pml4 (pml4_idx virt_addr) st of
        (None, st) \<Rightarrow> (-1, st)
      | (Some pdpt, st) \<Rightarrow>
          if huge_entry (pt_entry st pdpt (pdpt_idx virt_addr)) then (-1, st)
          else (case get_table pdpt (pdpt_idx virt_addr) st of
                  (None, st) \<Rightarrow> (-1, st)
                | (Some pd, st) \<Rightarrow>
                    if huge_entry (pt_entry st pd (pd_idx virt_addr)) then (-1, st)
                    else (case get_table pd (pd_idx virt_addr) st of
                            (None, st) \<Rightarrow> (-1, st)
                          | (Some pt, st) \<Rightarrow>
                              (0, set_pt_entry pt (pt_idx virt_addr) ((phys_addr AND 0xfffffffffffff000) OR 3) st))))"

definition map_page_2m :: "u64 \<Rightarrow> u64 \<Rightarrow> u64 \<Rightarrow> pmm \<Rightarrow> int \<times> pmm" where
  "map_page_2m pml4 phys_addr virt_addr st =
     (case get_table pml4 (pml4_idx virt_addr) st of
        (None, st) \<Rightarrow> (-1, st)
      | (Some pdpt, st) \<Rightarrow>
          (case get_table pdpt (pdpt_idx virt_addr) st of
             (None, st) \<Rightarrow> (-1, st)
           | (Some pd, st) \<Rightarrow>
               (0, set_pt_entry pd (pd_idx virt_addr)
                     ((phys_addr AND 0xffffffffffe00000) OR 3 OR push_bit 7 1) st)))"

section \<open>The walk of the CPU\<close>

text \<open>The leaf entry an index path leads to, with the number of levels below it.\<close>

fun walk :: "pmm \<Rightarrow> u64 \<Rightarrow> u64 list \<Rightarrow> (nat \<times> u64) option" where
  "walk st t [] = None"
| "walk st t (i # is) =
     (let e = pt_entry st t i
      in if \<not> bit e 0 then None
         else if is = [] \<or> bit e 7 then Some (length is, e)
         else walk st (table_of st e) is)"

definition indices :: "u64 \<Rightarrow> u64 list" where
  "indices v = [pml4_idx v, pdpt_idx v, pd_idx v, pt_idx v]"

text \<open>Bits 51 to 12 of a leaf entry hold the frame; bit 7 of an entry of the root is reserved.\<close>

definition phys_of :: "pmm \<Rightarrow> u64 \<Rightarrow> u64 \<Rightarrow> u64 option" where
  "phys_of st pml4 v =
     (case walk st pml4 (indices v) of
        None \<Rightarrow> None
      | Some (k, e) \<Rightarrow>
          if k = 3 then None
          else Some ((e AND mask 52 AND NOT (mask (12 + 9 * k))) OR (v AND mask (12 + 9 * k))))"

section \<open>The tree of tables\<close>

text \<open>The table an index path leads to.\<close>

fun table_at :: "pmm \<Rightarrow> u64 \<Rightarrow> u64 list \<Rightarrow> u64 option" where
  "table_at st t [] = Some t"
| "table_at st t (i # is) =
     (let e = pt_entry st t i
      in if bit e 0 \<and> \<not> bit e 7 then table_at st (table_of st e) is else None)"

definition table_page :: "pmm \<Rightarrow> u64 \<Rightarrow> bool" where
  "table_page st t \<longleftrightarrow> (\<exists>s. t = hhdm_offset st + of_nat (4096 * s) \<and> s < unat (max_page st) \<and> page_used st (of_nat s))"

definition path_ok :: "u64 list \<Rightarrow> bool" where
  "path_ok p \<longleftrightarrow> length p \<le> 3 \<and> (\<forall>i\<in>set p. i < 512)"

definition tables_ok :: "pmm \<Rightarrow> u64 \<Rightarrow> bool" where
  "tables_ok st r \<longleftrightarrow> pmm_ok st \<and> hhdm_ok st \<and>
     (\<forall>p t. path_ok p \<longrightarrow> table_at st r p = Some t \<longrightarrow> table_page st t) \<and>
     (\<forall>p q t. path_ok p \<longrightarrow> path_ok q \<longrightarrow> table_at st r p = Some t \<longrightarrow> table_at st r q = Some t \<longrightarrow> p = q) \<and>
     (\<forall>i<512. bit (pt_entry st r i) 0 \<longrightarrow> \<not> bit (pt_entry st r i) 7)"

lemma table_at_append:
  "table_at st r (p @ q) = (case table_at st r p of None \<Rightarrow> None | Some t \<Rightarrow> table_at st t q)"
  by (induction p arbitrary: r) (auto simp: Let_def)

lemma walk_append: "table_at st r p = Some t \<Longrightarrow> is \<noteq> [] \<Longrightarrow> walk st r (p @ is) = walk st t is"
  by (induction p arbitrary: r) (auto simp: Let_def split: if_splits)

lemma path_ok_append: "path_ok (p @ q) \<Longrightarrow> path_ok p"
  by (auto simp: path_ok_def)

lemma idx_less: "pml4_idx v < 512" "pdpt_idx v < 512" "pd_idx v < 512" "pt_idx v < 512"
proof -
  have "x AND 0x1ff < (512 :: u64)" for x :: u64
    using word_and_le1 [of x "0x1ff"] by (rule order.strict_trans1) simp
  then show "pml4_idx v < 512" "pdpt_idx v < 512" "pd_idx v < 512" "pt_idx v < 512"
    by (simp_all add: pml4_idx_def pdpt_idx_def pd_idx_def pt_idx_def)
qed

text \<open>Entries of different tables, or at different indices, are separate.\<close>

lemma page_cells_disj:
  fixes i j :: u64
  assumes "s < 2 ^ 40" "t < 2 ^ 40" "i < 512" "j < 512" "s \<noteq> t \<or> i \<noteq> j"
  shows "disj8 (h + of_nat (4096 * s) + 8 * i) (h + of_nat (4096 * t) + 8 * j)"
proof -
  have c: "unat (of_nat (4096 * s) + 8 * i :: u64) = 4096 * s + 8 * unat i" "unat i < 512"
    if "s < 2 ^ 40" "i < 512" for s and i :: u64
  proof -
    show i: "unat i < 512" using that(2) by (simp add: word_less_nat_alt)
    have "(8 :: u64) * i = of_nat (8 * unat i)" by simp
    then have "of_nat (4096 * s) + 8 * i = (of_nat (4096 * s + 8 * unat i) :: u64)" by simp
    moreover have "unat (of_nat (4096 * s + 8 * unat i) :: u64) = 4096 * s + 8 * unat i"
      using that i by (intro unat_of_nat_u64) simp
    ultimately show "unat (of_nat (4096 * s) + 8 * i :: u64) = 4096 * s + 8 * unat i" by simp
  qed
  note u = c [OF assms(1,3)] and v = c [OF assms(2,4)]
  have "4096 * s + 8 * unat i \<noteq> 4096 * t + 8 * unat j"
  proof
    assume e: "4096 * s + 8 * unat i = 4096 * t + 8 * unat j"
    have "s = (4096 * s + 8 * unat i) div 4096" using u(2) by simp
    also have "\<dots> = t" using v(2) e by simp
    finally show False using e assms(5) by (simp add: word_unat_eq_iff)
  qed
  then have "of_nat (4096 * s) + 8 * i \<noteq> (of_nat (4096 * t) + 8 * j :: u64)" using u(1) v(1) by metis
  moreover have "(4096 * n + 8 * k) mod 8 = 0" for n k :: nat
  proof -
    have "4096 * n + 8 * k = 8 * (512 * n + k)" by simp
    then show ?thesis by (simp only: mod_mult_self1_is_0)
  qed
  then have "unat (of_nat (4096 * s) + 8 * i :: u64) mod 8 = 0" "unat (of_nat (4096 * t) + 8 * j :: u64) mod 8 = 0"
    by (simp_all only: u(1) v(1))
  ultimately have "disj8 (of_nat (4096 * s) + 8 * i) (of_nat (4096 * t) + 8 * j)" by (intro aligned8_disj)
  then show ?thesis by (simp only: disj8_offset add.assoc)
qed

section \<open>What a change of memory leaves alone\<close>

definition agree :: "pmm \<Rightarrow> pmm \<Rightarrow> u64 \<Rightarrow> u64 list \<Rightarrow> bool" where
  "agree st st' r X \<longleftrightarrow> hhdm_offset st' = hhdm_offset st \<and>
     (\<forall>q t j. path_ok q \<longrightarrow> table_at st r q = Some t \<longrightarrow> j < 512 \<longrightarrow> q @ [j] \<noteq> X \<longrightarrow>
        pt_entry st' t j = pt_entry st t j)"

definition path4 :: "u64 list \<Rightarrow> bool" where
  "path4 p \<longleftrightarrow> length p \<le> 4 \<and> (\<forall>i\<in>set p. i < 512)"

lemma path_ok_4: "path_ok p \<Longrightarrow> path4 p" "path4 (p @ i # q) \<Longrightarrow> path_ok p \<and> i < 512"
  by (auto simp: path_ok_def path4_def)

lemma agree_entry:
  assumes "agree st st' r X" "table_at st r q = Some t" "path4 (q @ j # is)" "X = [] \<or> \<not> prefix X (q @ j # is)"
  shows "pt_entry st' t j = pt_entry st t j"
proof -
  have "prefix (q @ [j]) (q @ j # is)" by (simp add: prefix_def)
  then have "q @ [j] \<noteq> X" using assms(4) by auto
  then show ?thesis using assms(1,2) path_ok_4(2) [OF assms(3)] unfolding agree_def by blast
qed

lemma agree_table_from:
  "agree st st' r X \<Longrightarrow> table_at st r q = Some t \<Longrightarrow> path_ok (q @ is) \<Longrightarrow> X = [] \<or> \<not> prefix X (q @ is) \<Longrightarrow>
     table_at st' t is = table_at st t is"
proof (induction "is" arbitrary: q t)
  case (Cons j "is")
  have e: "pt_entry st' t j = pt_entry st t j"
    using agree_entry [OF Cons.prems(1,2)] path_ok_4(1) [OF Cons.prems(3)] Cons.prems(4) by blast
  have h: "table_of st' e = table_of st e" for e using Cons.prems(1) by (simp add: agree_def table_of_def)
  show ?case
  proof (cases "bit (pt_entry st t j) 0 \<and> \<not> bit (pt_entry st t j) 7")
    case True
    then have "table_at st r (q @ [j]) = Some (table_of st (pt_entry st t j))"
      using Cons.prems(2) by (simp add: table_at_append Let_def)
    then have "table_at st' (table_of st (pt_entry st t j)) is = table_at st (table_of st (pt_entry st t j)) is"
      using Cons.IH [OF Cons.prems(1)] Cons.prems(3,4) by simp
    then show ?thesis by (simp add: e h Let_def)
  qed (auto simp: e Let_def)
qed simp

lemma agree_walk_from:
  "agree st st' r X \<Longrightarrow> table_at st r q = Some t \<Longrightarrow> path4 (q @ is) \<Longrightarrow> X = [] \<or> \<not> prefix X (q @ is) \<Longrightarrow>
     walk st' t is = walk st t is"
proof (induction "is" arbitrary: q t)
  case (Cons j "is")
  have e: "pt_entry st' t j = pt_entry st t j" using agree_entry [OF Cons.prems] .
  have h: "table_of st' e = table_of st e" for e using Cons.prems(1) by (simp add: agree_def table_of_def)
  show ?case
  proof (cases "bit (pt_entry st t j) 0 \<and> \<not> bit (pt_entry st t j) 7")
    case True
    then have "table_at st r (q @ [j]) = Some (table_of st (pt_entry st t j))"
      using Cons.prems(2) by (simp add: table_at_append Let_def)
    then have "walk st' (table_of st (pt_entry st t j)) is = walk st (table_of st (pt_entry st t j)) is"
      using Cons.IH [OF Cons.prems(1)] Cons.prems(3,4) by simp
    then show ?thesis by (simp add: e h Let_def)
  qed (auto simp: e Let_def)
qed simp

lemma agree_table: "agree st st' r X \<Longrightarrow> path_ok q \<Longrightarrow> X = [] \<or> \<not> prefix X q \<Longrightarrow> table_at st' r q = table_at st r q"
  using agree_table_from [of st st' r X "[]" r q] by simp

lemma agree_walk: "agree st st' r X \<Longrightarrow> path4 q \<Longrightarrow> X = [] \<or> \<not> prefix X q \<Longrightarrow> walk st' r q = walk st r q"
  using agree_walk_from [of st st' r X "[]" r q] by simp

section \<open>Writing an entry\<close>

lemma set_pt_entry_frame [simp]:
  "hhdm_offset (set_pt_entry t i e st) = hhdm_offset st" "max_page (set_pt_entry t i e st) = max_page st"
  "mem_bitmap (set_pt_entry t i e st) = mem_bitmap st" "pmm_ok (set_pt_entry t i e st) = pmm_ok st"
  "hhdm_ok (set_pt_entry t i e st) = hhdm_ok st" "table_page (set_pt_entry t i e st) = table_page st"
  "table_of (set_pt_entry t i e st) = table_of st"
  by (simp_all add: set_pt_entry_def pmm_ok_def hhdm_ok_def table_page_def table_of_def fun_eq_iff)

lemma pt_entry_same [simp]: "pt_entry (set_pt_entry t i e st) t i = e"
  by (simp add: pt_entry_def set_pt_entry_def mem_simps)

lemma pt_entry_other: "disj8 (t + 8 * i) (u + 8 * j) \<Longrightarrow> pt_entry (set_pt_entry t i e st) u j = pt_entry st u j"
  by (simp add: pt_entry_def set_pt_entry_def mem_simps)

lemma table_page_disj:
  assumes "pmm_ok st" "table_page st t" "table_page st u" "i < 512" "j < 512" "t \<noteq> u \<or> i \<noteq> j"
  shows "disj8 (t + 8 * i) (u + 8 * j)"
proof -
  obtain s where s: "t = hhdm_offset st + of_nat (4096 * s)" "s < unat (max_page st)"
    using assms(2) by (auto simp: table_page_def)
  obtain s' where s': "u = hhdm_offset st + of_nat (4096 * s')" "s' < unat (max_page st)"
    using assms(3) by (auto simp: table_page_def)
  have "unat (max_page st) \<le> 2 ^ 40" using assms(1) by (simp add: pmm_ok_def)
  then have b: "s < 2 ^ 40" "s' < 2 ^ 40" using s(2) s'(2) by linarith+
  have "s \<noteq> s' \<or> i \<noteq> j" using assms(6) s(1) s'(1) by auto
  from page_cells_disj [OF b assms(4,5) this] show ?thesis by (simp only: s(1) s'(1))
qed

lemma tables_okD:
  assumes "tables_ok st r"
  shows "pmm_ok st" "hhdm_ok st" "path_ok p \<Longrightarrow> table_at st r p = Some t \<Longrightarrow> table_page st t"
    "path_ok p \<Longrightarrow> path_ok q \<Longrightarrow> table_at st r p = Some t \<Longrightarrow> table_at st r q = Some t \<Longrightarrow> p = q"
    "i < 512 \<Longrightarrow> bit (pt_entry st r i) 0 \<Longrightarrow> \<not> bit (pt_entry st r i) 7"
  using assms unfolding tables_ok_def by blast+

lemma path_ok_Nil [simp]: "path_ok []"
  by (simp add: path_ok_def)

lemma agree_set:
  assumes "tables_ok st r" "path_ok p" "table_at st r p = Some t" "i < 512"
  shows "agree st (set_pt_entry t i e st) r (p @ [i])"
  unfolding agree_def
proof (intro conjI allI impI)
  fix q u j assume q: "path_ok q" "table_at st r q = Some u" "j < 512" "q @ [j] \<noteq> p @ [i]"
  have "t \<noteq> u \<or> i \<noteq> j" using tables_okD(4) [OF assms(1) assms(2) q(1) assms(3)] q by auto
  then have "disj8 (t + 8 * i) (u + 8 * j)"
    using tables_okD(1,3) [OF assms(1)] assms(2-4) q(1-3) by (intro table_page_disj) auto
  then show "pt_entry (set_pt_entry t i e st) u j = pt_entry st u j" by (rule pt_entry_other)
qed simp

lemma prefix_snoc_self: "\<not> prefix (p @ [i]) p"
  by (metis append_self_conv not_Cons_self2 prefix_def append_assoc append_is_Nil_conv)

text \<open>A leaf entry, or one that maps nothing: the tables below it are gone, the others stay.\<close>

lemma set_leaf:
  assumes "tables_ok st r" "path_ok p" "table_at st r p = Some t" "i < 512" "p \<noteq> []"
    and "length p < 3 \<longrightarrow> bit e 7" "bit e 0"
  defines "st' \<equiv> set_pt_entry t i e st"
  shows "tables_ok st' r" "path4 q \<Longrightarrow> \<not> prefix (p @ [i]) q \<Longrightarrow> walk st' r q = walk st r q"
    "is = [] \<or> bit e 7 \<Longrightarrow> walk st' r (p @ i # is) = Some (length is, e)"
    "path_ok q \<Longrightarrow> table_at st' r q = Some u \<Longrightarrow> table_at st r q = Some u"
proof -
  have ag: "agree st st' r (p @ [i])" unfolding st'_def by (rule agree_set [OF assms(1-4)])
  have tp: "table_at st' r p = Some t" using agree_table [OF ag assms(2)] prefix_snoc_self assms(3) by simp
  have other: "table_at st' r q = table_at st r q" if "path_ok q" "\<not> prefix (p @ [i]) q" for q
    using agree_table [OF ag that(1)] that(2) by simp
  have gone: "table_at st' r q = None" if q: "path_ok q" "prefix (p @ [i]) q" for q
  proof -
    obtain ks where "q = p @ i # ks" using q(2) by (auto simp: prefix_def)
    moreover have "length p < 3" using q(1) calculation by (simp add: path_ok_def)
    ultimately show ?thesis using assms(6) tp by (simp add: table_at_append Let_def st'_def)
  qed
  have sub: "table_at st' r q = Some u \<Longrightarrow> path_ok q \<Longrightarrow> table_at st r q = Some u" for q u
    using other gone by (cases "prefix (p @ [i]) q") auto
  then show "path_ok q \<Longrightarrow> table_at st' r q = Some u \<Longrightarrow> table_at st r q = Some u" by blast
  have root: "pt_entry st' r j = pt_entry st r j" if "j < 512" for j
  proof -
    have "[] @ [j] \<noteq> p @ [i]" using assms(5) by simp
    then show ?thesis using ag that unfolding agree_def by (metis path_ok_Nil table_at.simps(1))
  qed
  show "tables_ok st' r"
    unfolding tables_ok_def
  proof (intro conjI allI impI)
    show "pmm_ok st'" "hhdm_ok st'" using tables_okD(1,2) [OF assms(1)] by (simp_all add: st'_def)
    show "table_page st' u" if "path_ok q" "table_at st' r q = Some u" for q u
      using tables_okD(3) [OF assms(1) that(1)] sub that by (simp add: st'_def)
    show "q = q'" if "path_ok q" "path_ok q'" "table_at st' r q = Some u" "table_at st' r q' = Some u" for q q' u
      using tables_okD(4) [OF assms(1) that(1,2)] sub that by blast
    show "\<not> bit (pt_entry st' r j) 7" if "j < 512" "bit (pt_entry st' r j) 0" for j
      using tables_okD(5) [OF assms(1) that(1)] root [OF that(1)] that(2) by simp
  qed
  show "walk st' r q = walk st r q" if "path4 q" "\<not> prefix (p @ [i]) q"
    using agree_walk [OF ag that(1)] that(2) by simp
  show "walk st' r (p @ i # is) = Some (length is, e)" if "is = [] \<or> bit e 7"
    using walk_append [OF tp, of "i # is"] that assms(7) by (auto simp: Let_def st'_def)
qed

section \<open>A new table\<close>

text \<open>Allocation goes on: no page is given back.\<close>

definition grows :: "pmm \<Rightarrow> pmm \<Rightarrow> bool" where
  "grows st st' \<longleftrightarrow> hhdm_offset st' = hhdm_offset st \<and> max_page st' = max_page st \<and>
     kernel_phys_base st' = kernel_phys_base st \<and> kernel_virt_base st' = kernel_virt_base st \<and>
     (\<forall>j. page_used st j \<longrightarrow> page_used st' j)"

lemma grows_refl [simp]: "grows st st"
  by (simp add: grows_def)

lemma grows_trans: "grows st st1 \<Longrightarrow> grows st1 st2 \<Longrightarrow> grows st st2"
  by (simp add: grows_def)

text \<open>An address in the direct map of the start of a free page.\<close>

definition fresh_page :: "pmm \<Rightarrow> u64 \<Rightarrow> bool" where
  "fresh_page st u \<longleftrightarrow> (\<exists>s. u = hhdm_offset st + of_nat (4096 * s) \<and> 4096 \<le> s \<and> s < unat (max_page st) \<and> \<not> page_used st (of_nat s))"

lemma fresh_grows: "grows st st1 \<Longrightarrow> fresh_page st1 u \<Longrightarrow> fresh_page st u"
  by (auto simp: fresh_page_def grows_def)

lemma kmalloc_bases:
  "kmalloc n st = (p, st') \<Longrightarrow> kernel_phys_base st' = kernel_phys_base st \<and> kernel_virt_base st' = kernel_virt_base st"
  by (auto simp: kmalloc_def kmalloc_take_def Let_def split: option.splits)

lemma kmalloc_table:
  assumes "tables_ok st r" "kmalloc 1 st = (p0, st0)" "p0 \<noteq> 0"
  defines "c \<equiv> p0 + hhdm_offset st0"
  shows "tables_ok st0 r" "agree st st0 r []" "table_page st0 c" "\<And>j. j < 512 \<Longrightarrow> pt_entry st0 c j = 0"
    "\<And>q. path_ok q \<Longrightarrow> table_at st0 r q \<noteq> Some c" "p0 AND 0xfff = 0"
    "grows st st0" "fresh_page st c" "\<And>u i. table_page st u \<Longrightarrow> i < 4096 \<Longrightarrow> phys_mem st0 (u + of_nat i) = phys_mem st (u + of_nat i)"
proof -
  note ok = tables_okD(1,2) [OF assms(1)]
  have fr: "hhdm_offset st0 = hhdm_offset st" "max_page st0 = max_page st"
    using kmalloc_frame [OF assms(2)] by simp_all
  obtain s where s: "pmm_ok st0" "unat p0 = 4096 * s" "s + 1 \<le> unat (max_page st)" "free_run (page_used st) s 1"
    "\<And>j. page_used st0 j \<longleftrightarrow> s \<le> unat j \<and> unat j < s + 1 \<or> page_used st j"
    "\<And>x. phys_mem st0 x = (if unat (x - (hhdm_offset st + p0)) < 4096 then 0 else phys_mem st x)" "4096 \<le> s"
    using kmalloc_spec [OF ok(1) _ ok(2) assms(2)] assms(3) by auto
  have mx: "unat (max_page st) \<le> 2 ^ 40" using ok(1) by (simp add: pmm_ok_def)
  show "grows st st0" using fr kmalloc_bases [OF assms(2)] s(5) by (simp add: grows_def)
  have h: "unat (hhdm_offset st) + 4096 * unat (max_page st) < 2 ^ 64" using ok(2) by (simp add: hhdm_ok_def)
  have p0: "p0 = of_nat (4096 * s)" by (simp only: s(2) [symmetric]) simp
  have us: "unat (of_nat s :: u64) = s" using s(3) mx by (intro unat_of_nat_u64) simp
  have free: "\<not> page_used st (of_nat s)" using s(4) by (simp add: free_run_def)
  have uc: "unat (hhdm_offset st + p0) = unat (hhdm_offset st) + 4096 * s"
    unfolding p0 using h s(3) by (intro unat_add_of_nat) simp
  have keep: "phys_mem st0 (u + of_nat i) = phys_mem st (u + of_nat i)" if u: "table_page st u" and i: "i < 4096" for u i
  proof -
    obtain t where t: "u = hhdm_offset st + of_nat (4096 * t)" "t < unat (max_page st)" "page_used st (of_nat t)"
      using u unfolding table_page_def by blast
    then have "t \<noteq> s" using free by auto
    have uu: "unat u = unat (hhdm_offset st) + 4096 * t" unfolding t(1) using h t(2) by (intro unat_add_of_nat) simp
    have ap: "t + 0 + 1 \<le> s \<or> s + 0 + 1 \<le> t" using \<open>t \<noteq> s\<close> by linarith
    have "4096 * (0 + 1) \<le> unat (u + of_nat i - (hhdm_offset st + p0))"
      using runs_far [OF uu uc _ _ ap, of "unat (max_page st)" i] t(2) s(3) h i by simp
    then show ?thesis by (simp add: s(6))
  qed
  then show "\<And>u i. table_page st u \<Longrightarrow> i < 4096 \<Longrightarrow> phys_mem st0 (u + of_nat i) = phys_mem st (u + of_nat i)" by blast
  have "c = hhdm_offset st + of_nat (4096 * s)" by (simp add: c_def fr p0 add.commute)
  then show "fresh_page st c" using s(3,7) free by (auto simp: fresh_page_def)
  have idx: "u + 8 * j + of_nat k = u + of_nat (8 * unat j + k)" "8 * unat j + k < 4096"
    if "j < 512" "k < 8" for u j :: u64 and k
    using that by (simp_all add: word_less_nat_alt)
  show ag: "agree st st0 r []"
    unfolding agree_def
  proof (intro conjI allI impI)
    fix q t j assume q: "path_ok q" "table_at st r q = Some t" "j < (512 :: u64)"
    have "phys_mem st0 (t + 8 * j + of_nat k) = phys_mem st (t + 8 * j + of_nat k)" if "k < 8" for k
      unfolding idx(1) [OF q(3) that] using keep [OF tables_okD(3) [OF assms(1) q(1,2)]] idx(2) [OF q(3) that] by blast
    then show "pt_entry st0 t j = pt_entry st t j" unfolding pt_entry_def by (intro load64_cong)
  qed (simp add: fr)
  have tab: "table_at st0 r q = table_at st r q" if "path_ok q" for q using agree_table [OF ag that] by simp
  have tp: "table_page st0 u" if "table_page st u" for u
    using that s(5) by (auto simp: table_page_def fr)
  show "tables_ok st0 r"
    unfolding tables_ok_def
  proof (intro conjI allI impI)
    show "pmm_ok st0" by (rule s(1))
    show "hhdm_ok st0" using ok(2) by (simp add: hhdm_ok_def fr)
    show "table_page st0 u" if "path_ok q" "table_at st0 r q = Some u" for q u
      using tables_okD(3) [OF assms(1) that(1)] that tab tp by simp
    show "q = q'" if "path_ok q" "path_ok q'" "table_at st0 r q = Some u" "table_at st0 r q' = Some u" for q q' u
      using tables_okD(4) [OF assms(1) that(1,2)] that tab by simp
    fix j assume j: "j < (512 :: u64)" "bit (pt_entry st0 r j) 0"
    have "pt_entry st0 r j = pt_entry st r j"
      using ag j(1) unfolding agree_def by (metis path_ok_Nil table_at.simps(1) snoc_eq_iff_butlast)
    then show "\<not> bit (pt_entry st0 r j) 7" using tables_okD(5) [OF assms(1) j(1)] j(2) by simp
  qed
  show "table_page st0 c"
    unfolding table_page_def
  proof (intro exI [of _ s] conjI)
    show "c = hhdm_offset st0 + of_nat (4096 * s)" by (simp add: c_def p0 add.commute)
    show "s < unat (max_page st0)" using s(3) fr by simp
    show "page_used st0 (of_nat s)" by (simp add: s(5) us)
  qed
  show "pt_entry st0 c j = 0" if "j < 512" for j
  proof -
    have "phys_mem st0 (c + 8 * j + of_nat k) = 0" if "k < 8" for k
    proof -
      have "c + 8 * j + of_nat k = (hhdm_offset st + p0) + of_nat (8 * unat j + k)"
        using idx(1) [OF \<open>j < 512\<close> that, of "hhdm_offset st + p0"]
        by (simp only: c_def fr add.commute [of p0])
      moreover have "unat (of_nat (8 * unat j + k) :: u64) = 8 * unat j + k"
        using idx(2) [OF \<open>j < 512\<close> that] by (intro unat_of_nat_u64) simp
      ultimately show ?thesis using idx(2) [OF \<open>j < 512\<close> that] by (simp add: s(6))
    qed
    then show ?thesis unfolding pt_entry_def by (rule load64_zero)
  qed
  show "table_at st0 r q \<noteq> Some c" if "path_ok q" for q
  proof
    assume "table_at st0 r q = Some c"
    then have "table_page st c" using tables_okD(3) [OF assms(1) that] tab [OF that] by simp
    then obtain t where t: "c = hhdm_offset st + of_nat (4096 * t)" "t < unat (max_page st)" "page_used st (of_nat t)"
      unfolding table_page_def by blast
    have "unat c = unat (hhdm_offset st) + 4096 * t" unfolding t(1) using h t(2) by (intro unat_add_of_nat) simp
    moreover have "unat c = unat (hhdm_offset st) + 4096 * s" using uc by (simp add: c_def fr add.commute)
    ultimately show False using t(3) free by simp
  qed
  have "p0 AND 0xfff = take_bit 12 p0" by (simp add: take_bit_eq_mask mask_eq_exp_minus_1)
  moreover have "unat (take_bit 12 p0) = 0" by (subst unsigned_take_bit_eq) (simp add: s(2) take_bit_eq_mod)
  then have "take_bit 12 p0 = 0" by (simp add: unat_eq_zero)
  ultimately show "p0 AND 0xfff = 0" by simp
qed

text \<open>Hanging a fresh table into an empty entry changes no walk.\<close>

lemma set_child:
  assumes "tables_ok st r" "path_ok (p @ [i])" "table_at st r p = Some t" "length p < 3"
    and "\<not> bit (pt_entry st t i) 0" "table_page st c" "\<And>j. j < 512 \<Longrightarrow> pt_entry st c j = 0"
    and "\<And>q. path_ok q \<Longrightarrow> table_at st r q \<noteq> Some c" "bit e 0" "\<not> bit e 7" "table_of st e = c"
  defines "st' \<equiv> set_pt_entry t i e st"
  shows "tables_ok st' r" "table_at st' r (p @ [i]) = Some c"
    "length q = 4 \<Longrightarrow> path4 q \<Longrightarrow> walk st' r q = walk st r q"
    "path_ok q \<Longrightarrow> table_at st' r q = Some u \<Longrightarrow> table_at st r q = Some u \<or> u = c"
proof -
  have p: "path_ok p" "i < 512" using assms(2) by (auto simp: path_ok_def)
  have ag: "agree st st' r (p @ [i])" unfolding st'_def by (rule agree_set [OF assms(1) p(1) assms(3) p(2)])
  have tp: "table_at st' r p = Some t" using agree_table [OF ag p(1)] prefix_snoc_self assms(3) by simp
  have other: "table_at st' r q = table_at st r q" if "path_ok q" "\<not> prefix (p @ [i]) q" for q
    using agree_table [OF ag that(1)] that(2) by simp
  have tc: "t \<noteq> c" using assms(8) [OF p(1)] assms(3) by auto
  have zero: "pt_entry st' c j = 0" if "j < 512" for j
  proof -
    have "disj8 (t + 8 * i) (c + 8 * j)"
      using table_page_disj [OF tables_okD(1) [OF assms(1)] tables_okD(3) [OF assms(1) p(1) assms(3)] assms(6) p(2) that] tc
      by blast
    then show ?thesis using assms(7) [OF that] by (simp add: st'_def pt_entry_other)
  qed
  show child: "table_at st' r (p @ [i]) = Some c"
    using tp assms(9-11) by (simp add: table_at_append Let_def st'_def)
  have below: "q = p @ [i]" if "path_ok q" "prefix (p @ [i]) q" "table_at st' r q = Some u" for q u
  proof -
    obtain ks where k: "q = (p @ [i]) @ ks" using \<open>prefix (p @ [i]) q\<close> by (auto simp: prefix_def)
    show ?thesis
    proof (cases ks)
      case (Cons j js)
      then have "j < 512" using \<open>path_ok q\<close> k by (auto simp: path_ok_def)
      then have "table_at st' c ks = None" using zero Cons by (simp add: Let_def)
      then show ?thesis using \<open>table_at st' r q = Some u\<close> child unfolding k table_at_append [of st' r "p @ [i]"] by simp
    qed (simp add: k)
  qed
  have sub: "table_at st r q = Some u \<or> q = p @ [i] \<and> u = c" if "path_ok q" "table_at st' r q = Some u" for q u
    using other [OF that(1)] below [OF that(1)] that(2) child by (cases "prefix (p @ [i]) q") auto
  then show "path_ok q \<Longrightarrow> table_at st' r q = Some u \<Longrightarrow> table_at st r q = Some u \<or> u = c" by blast
  have new: "table_at st r (p @ i # ks) = None" for ks
    using assms(3,5) by (simp add: table_at_append Let_def)
  show "tables_ok st' r"
    unfolding tables_ok_def
  proof (intro conjI allI impI)
    show "pmm_ok st'" "hhdm_ok st'" using tables_okD(1,2) [OF assms(1)] by (simp_all add: st'_def)
    show "table_page st' u" if "path_ok q" "table_at st' r q = Some u" for q u
      using tables_okD(3) [OF assms(1) that(1)] sub [OF that] assms(6) by (auto simp: st'_def)
    show "q = q'" if "path_ok q" "path_ok q'" "table_at st' r q = Some u" "table_at st' r q' = Some u" for q q' u
      using tables_okD(4) [OF assms(1) that(1,2)] sub [OF that(1,3)] sub [OF that(2,4)] assms(8) that(1,2) by blast
    fix j assume j: "j < (512 :: u64)" "bit (pt_entry st' r j) 0"
    show "\<not> bit (pt_entry st' r j) 7"
    proof (cases "[j] = p @ [i]")
      case True
      then have "p = []" "j = i" by (cases p; simp)+
      then show ?thesis using assms(3,10) by (simp add: st'_def)
    next
      case False
      then have "pt_entry st' r j = pt_entry st r j"
        using ag j(1) unfolding agree_def by (metis append_Nil path_ok_Nil table_at.simps(1))
      then show ?thesis using tables_okD(5) [OF assms(1) j(1)] j(2) by simp
    qed
  qed
  show "walk st' r q = walk st r q" if q: "length q = 4" "path4 q"
  proof (cases "prefix (p @ [i]) q")
    case True
    then obtain ks where k: "q = p @ i # ks" by (auto simp: prefix_def)
    then have "ks \<noteq> []" using q(1) assms(4) by auto
    then obtain j js where js: "ks = j # js" by (cases ks) auto
    have j: "j < 512" using q(2) k js by (auto simp: path4_def)
    have "walk st r q = None" using walk_append [OF assms(3), of "i # ks"] assms(5) by (simp add: k)
    moreover have "walk st' r q = walk st' c ks"
      using walk_append [OF child, of ks] \<open>ks \<noteq> []\<close> by (simp add: k)
    moreover have "walk st' c ks = None" using zero [OF j] by (simp add: js)
    ultimately show ?thesis by simp
  next
    case False
    then show ?thesis using agree_walk [OF ag q(2)] by simp
  qed
qed

lemma and_one_bit: "x AND 1 \<noteq> 0 \<longleftrightarrow> bit (x :: u64) 0"
  by (simp add: and_one_eq bit_0 odd_iff_mod_2_eq_one)

lemma and_bit7: "x AND push_bit 7 1 \<noteq> 0 \<longleftrightarrow> bit (x :: u64) 7"
proof -
  have "bit (push_bit 7 (1 :: u64)) n \<longleftrightarrow> n = 7" for n
    by (subst bit_push_bit_iff) (auto simp: bit_1_iff)
  then have "bit (x AND push_bit 7 1) n \<longleftrightarrow> bit x 7 \<and> n = 7" for n
    by (simp only: bit_and_iff) blast
  then show ?thesis by (metis bit_0_eq bot_apply bot_bool_def bit_eqI)
qed

lemma huge_entry_iff: "huge_entry e \<longleftrightarrow> bit e 0 \<and> bit e 7"
  by (simp only: huge_entry_def and_one_bit and_bit7)

text \<open>The entry of a new table.\<close>

lemma new_entry:
  fixes p :: u64
  assumes "p AND 0xfff = 0"
  shows "bit (p OR 3) 0" "\<not> bit (p OR 3) 7" "(p OR 3) AND 0xfffffffffffff000 = p"
proof -
  have m: "(0xfff :: u64) = mask 12" "(0xfffffffffffff000 :: u64) = NOT (mask 12)" "(3 :: u64) = mask 2"
    by (simp_all add: mask_eq_exp_minus_1)
  have low: "\<not> bit p n" if "n < 12" for n
  proof -
    have "bit (p AND 0xfff) n \<longleftrightarrow> bit p n"
      using that by (simp add: m bit_and_iff bit_mask_iff)
    then show ?thesis using assms by simp
  qed
  show "bit (p OR 3) 0" by (simp add: m bit_or_iff bit_mask_iff)
  show "\<not> bit (p OR 3) 7" using low [of 7] by (simp add: m bit_or_iff bit_mask_iff)
  show "(p OR 3) AND 0xfffffffffffff000 = p"
  proof (rule bit_word_eqI)
    fix n assume "n < LENGTH(64)"
    then show "bit ((p OR 3) AND 0xfffffffffffff000) n = bit p n"
      using low [of n] by (auto simp: m bit_or_iff bit_and_iff bit_not_iff bit_mask_iff)
  qed
qed

definition no_free_page :: "pmm \<Rightarrow> bool" where
  "no_free_page st \<longleftrightarrow> (\<forall>s. 4096 \<le> s \<longrightarrow> s < unat (max_page st) \<longrightarrow> page_used st (of_nat s))"

lemma kmalloc_none:
  assumes "pmm_ok st" "hhdm_ok st" "kmalloc 1 st = (0, st')"
  shows "st' = st" "no_free_page st"
proof -
  have n: "st' = st \<and> (\<forall>s. (unat (last_alloc_page st) \<le> s \<and> s + 1 \<le> unat (max_page st) \<or>
      4096 \<le> s \<and> s + 1 \<le> unat (last_alloc_page st)) \<longrightarrow> \<not> free_run (page_used st) s 1)"
    using kmalloc_spec [OF assms(1) _ assms(2,3)] by (simp del: One_nat_def)
  then show "st' = st" by blast
  have "page_used st (of_nat s)" if s: "4096 \<le> s" "s < unat (max_page st)" for s
  proof -
    have "\<not> free_run (page_used st) s 1" using n s by (cases "unat (last_alloc_page st) \<le> s") auto
    then show ?thesis by (simp add: free_run_def)
  qed
  then show "no_free_page st" by (simp add: no_free_page_def)
qed

text \<open>
  What mapping does short of the last write: new tables in pages that were free, every walk as before,
  and nothing written outside of the tables.
\<close>

definition kept :: "pmm \<Rightarrow> pmm \<Rightarrow> u64 \<Rightarrow> bool" where
  "kept st st' r \<longleftrightarrow>
     (\<forall>u. table_page st u \<longrightarrow> (\<forall>q. path_ok q \<longrightarrow> table_at st r q \<noteq> Some u) \<longrightarrow>
        (\<forall>i<4096. phys_mem st' (u + of_nat i) = phys_mem st (u + of_nat i)))"

definition tables_from :: "pmm \<Rightarrow> pmm \<Rightarrow> u64 \<Rightarrow> bool" where
  "tables_from st st' r \<longleftrightarrow>
     (\<forall>q u. path_ok q \<longrightarrow> table_at st' r q = Some u \<longrightarrow> (\<exists>q'. path_ok q' \<and> table_at st r q' = Some u) \<or> fresh_page st u)"

definition only_tables :: "pmm \<Rightarrow> pmm \<Rightarrow> u64 \<Rightarrow> bool" where
  "only_tables st st' r \<longleftrightarrow> tables_ok st' r \<and> (\<forall>q. length q = 4 \<longrightarrow> path4 q \<longrightarrow> walk st' r q = walk st r q) \<and>
     grows st st' \<and> tables_from st st' r \<and> kept st st' r"

lemma only_tables_refl: "tables_ok st r \<Longrightarrow> only_tables st st r"
  by (auto simp: only_tables_def tables_from_def kept_def)

lemma fresh_not_used:
  assumes "fresh_page st u" "unat (max_page st) \<le> 2 ^ 40"
  shows "\<not> table_page st u"
proof
  assume "table_page st u"
  then obtain s t where s: "u = hhdm_offset st + of_nat (4096 * s)" "s < unat (max_page st)" "\<not> page_used st (of_nat s)"
    and t: "u = hhdm_offset st + of_nat (4096 * t)" "t < unat (max_page st)" "page_used st (of_nat t)"
    using assms(1) by (auto simp: fresh_page_def table_page_def)
  have "unat (of_nat (4096 * s) :: u64) = 4096 * s" "unat (of_nat (4096 * t) :: u64) = 4096 * t"
    using s(2) t(2) assms(2) by (intro unat_of_nat_u64, simp)+
  moreover have "(of_nat (4096 * s) :: u64) = of_nat (4096 * t)" using s(1) t(1) by simp
  ultimately have "4096 * s = 4096 * t" by metis
  then show False using s(3) t(3) by simp
qed

lemma table_page_grows: "grows st st' \<Longrightarrow> table_page st u \<Longrightarrow> table_page st' u"
  by (auto simp: grows_def table_page_def)

lemma kept_trans:
  assumes "kept st st1 r" "kept st1 st2 r" "grows st st1" "tables_from st st1 r" "unat (max_page st) \<le> 2 ^ 40"
  shows "kept st st2 r"
  unfolding kept_def
proof (intro allI impI)
  fix u i assume u: "table_page st u" "\<forall>q. path_ok q \<longrightarrow> table_at st r q \<noteq> Some u" "i < (4096 :: nat)"
  have "table_at st1 r q \<noteq> Some u" if "path_ok q" for q
    using assms(4) fresh_not_used [OF _ assms(5)] u that unfolding tables_from_def by metis
  then have "phys_mem st2 (u + of_nat i) = phys_mem st1 (u + of_nat i)"
    using assms(2) table_page_grows [OF assms(3) u(1)] u(3) unfolding kept_def by blast
  then show "phys_mem st2 (u + of_nat i) = phys_mem st (u + of_nat i)" using assms(1) u unfolding kept_def by metis
qed

lemma tables_from_trans: "tables_from st st1 r \<Longrightarrow> tables_from st1 st2 r \<Longrightarrow> grows st st1 \<Longrightarrow> tables_from st st2 r"
  unfolding tables_from_def by (meson fresh_grows)

lemma only_tables_trans: "only_tables st st1 r \<Longrightarrow> only_tables st1 st2 r \<Longrightarrow> only_tables st st2 r"
proof -
  assume a: "only_tables st st1 r" "only_tables st1 st2 r"
  then have "pmm_ok st1" "max_page st1 = max_page st" by (auto simp: only_tables_def tables_ok_def grows_def)
  then have "unat (max_page st) \<le> 2 ^ 40" by (simp add: pmm_ok_def)
  then show ?thesis using a kept_trans tables_from_trans grows_trans unfolding only_tables_def by metis
qed

lemma set_entry_keeps:
  assumes "tables_ok st r" "path_ok p" "table_at st r p = Some t" "i < 512"
  shows "kept st (set_pt_entry t i e st) r" "grows st (set_pt_entry t i e st)"
proof -
  show "grows st (set_pt_entry t i e st)" by (simp add: grows_def set_pt_entry_def)
  show "kept st (set_pt_entry t i e st) r"
    unfolding kept_def
  proof (intro allI impI)
    fix u k assume u: "table_page st u" "\<forall>q. path_ok q \<longrightarrow> table_at st r q \<noteq> Some u" "k < (4096 :: nat)"
    have "(of_nat (k div 8) :: u64) < 512"
      using u(3) unat_of_nat_u64 [of "k div 8"] by (simp add: word_less_nat_alt)
    then have "disj8 (t + 8 * i) (u + 8 * of_nat (k div 8))"
      using table_page_disj [OF tables_okD(1) [OF assms(1)] tables_okD(3) [OF assms(1-3)] u(1) assms(4)] u(2) assms(2,3) by blast
    then have "\<not> u + 8 * of_nat (k div 8) + of_nat (k mod 8) - (t + 8 * i) < 8" by (rule disj8_byte) simp
    moreover have "u + 8 * of_nat (k div 8) + of_nat (k mod 8) = u + of_nat k"
    proof -
      have "(of_nat k :: u64) = of_nat (8 * (k div 8) + k mod 8)" by simp
      also have "\<dots> = 8 * of_nat (k div 8) + of_nat (k mod 8)" by (simp only: of_nat_add of_nat_mult of_nat_numeral)
      finally show ?thesis by (simp only: add.assoc)
    qed
    ultimately show "phys_mem (set_pt_entry t i e st) (u + of_nat k) = phys_mem st (u + of_nat k)"
      by (simp add: set_pt_entry_def store64_outside)
  qed
qed

text \<open>Getting a table keeps the tree and every translation, and gives the table its path leads to.\<close>

lemma get_table_spec:
  assumes "tables_ok st r" "path_ok (p @ [i])" "table_at st r p = Some t" "length p < 3"
    and "\<not> huge_entry (pt_entry st t i)" "get_table t i st = (res, st')"
  shows "only_tables st st' r" "res = Some t' \<Longrightarrow> table_at st' r (p @ [i]) = Some t'" "res = None \<Longrightarrow> no_free_page st'"
proof -
  have p: "path_ok p" "i < 512" using assms(2) by (auto simp: path_ok_def)
  have "only_tables st st' r \<and> (res = Some t' \<longrightarrow> table_at st' r (p @ [i]) = Some t') \<and> (res = None \<longrightarrow> no_free_page st')"
  proof (cases "bit (pt_entry st t i) 0")
    case True
    then have "\<not> bit (pt_entry st t i) 7" using assms(5) by (simp add: huge_entry_iff)
    then have "table_at st r (p @ [i]) = Some (table_of st (pt_entry st t i))"
      using True assms(3) by (simp add: table_at_append Let_def)
    then show ?thesis using True assms(1,6) only_tables_refl by (auto simp: get_table_def and_one_bit)
  next
    case False
    obtain p0 st0 where k: "kmalloc 1 st = (p0, st0)" by fastforce
    show ?thesis
    proof (cases "p0 = 0")
      case True
      then have "st0 = st" "no_free_page st"
        using kmalloc_none [OF tables_okD(1,2) [OF assms(1)]] k by simp_all
      then show ?thesis using True False k assms(1,6) only_tables_refl by (simp add: get_table_def and_one_bit)
    next
      case new: False
      note n = kmalloc_table [OF assms(1) k new]
      have t0: "table_at st0 r p = Some t" using agree_table [OF n(2) p(1)] assms(3) by simp
      have e0: "pt_entry st0 t i = pt_entry st t i"
        using n(2) p assms(3) unfolding agree_def by (metis snoc_eq_iff_butlast)
      let ?c = "p0 + hhdm_offset st0" and ?st = "set_pt_entry t i (p0 OR 3) st0"
      have "table_of st0 (p0 OR 3) = ?c" by (simp add: table_of_def new_entry(3) [OF n(6)])
      moreover have "\<not> bit (pt_entry st0 t i) 0" using False e0 by simp
      ultimately have c: "tables_ok ?st r" "table_at ?st r (p @ [i]) = Some ?c"
        "length q = 4 \<Longrightarrow> path4 q \<Longrightarrow> walk ?st r q = walk st0 r q"
        "path_ok q \<Longrightarrow> table_at ?st r q = Some u \<Longrightarrow> table_at st0 r q = Some u \<or> u = ?c" for q u
        using set_child [OF n(1) assms(2) t0 assms(4) _ n(3) n(4) n(5) new_entry(1,2) [OF n(6)]] by blast+
      have st': "st' = ?st" "res = Some ?c"
        using assms(6) False k new by (simp_all add: get_table_def and_one_bit)
      have ag: "table_at st0 r q = table_at st r q" if "path_ok q" for q using agree_table [OF n(2) that] by simp
      have "tables_from st ?st r" using c(4) ag n(8) unfolding tables_from_def by metis
      moreover have "kept st st0 r" using n(9) by (simp add: kept_def)
      then have "kept st ?st r"
        by (rule kept_trans [OF _ set_entry_keeps(1) [OF n(1) p(1) t0 p(2)] n(7)])
          (use ag tables_okD(1) [OF assms(1)] in \<open>auto simp: tables_from_def pmm_ok_def\<close>)
      moreover have "grows st ?st" using grows_trans [OF n(7)] set_entry_keeps(2) [OF n(1) p(1) t0 p(2)] by blast
      moreover have "walk ?st r q = walk st r q" if "length q = 4" "path4 q" for q
        using c(3) [OF that] agree_walk [OF n(2) that(2)] by simp
      ultimately show ?thesis using c(1,2) by (simp add: st' only_tables_def)
    qed
  qed
  then show "only_tables st st' r" "res = Some t' \<Longrightarrow> table_at st' r (p @ [i]) = Some t'" "res = None \<Longrightarrow> no_free_page st'"
    by blast+
qed

section \<open>Mapping a page\<close>

lemma indices_path:
  "path_ok [pml4_idx v]" "path_ok [pml4_idx v, pdpt_idx v]" "path_ok [pml4_idx v, pdpt_idx v, pd_idx v]"
  "path4 (indices v)" "length (indices v) = 4"
  by (simp_all add: path_ok_def path4_def indices_def idx_less)

lemma get_table_step:
  assumes "only_tables st st1 r" "path_ok (p @ [i])" "table_at st1 r p = Some t" "length p < 3"
    and "\<not> huge_entry (pt_entry st1 t i)" "get_table t i st1 = (res, st2)"
  shows "only_tables st st2 r" "res = Some t' \<Longrightarrow> table_at st2 r (p @ [i]) = Some t'" "res = None \<Longrightarrow> no_free_page st2"
proof -
  have "tables_ok st1 r" using assms(1) by (simp add: only_tables_def)
  note g = get_table_spec [OF this assms(2-6)]
  show "only_tables st st2 r" by (rule only_tables_trans [OF assms(1) g(1)])
  show "res = Some t' \<Longrightarrow> table_at st2 r (p @ [i]) = Some t'" "res = None \<Longrightarrow> no_free_page st2" by (fact g(2,3))+
qed

lemma huge_walk:
  assumes "only_tables st st1 r" "table_at st1 r p = Some t" "huge_entry (pt_entry st1 t i)" "indices v = p @ i # is"
  shows "walk st r (indices v) = Some (length is, pt_entry st1 t i)"
proof -
  have "walk st1 r (indices v) = walk st r (indices v)"
    using assms(1) indices_path(4,5) by (simp add: only_tables_def)
  then show ?thesis
    using walk_append [OF assms(2), of "i # is"] assms(3) by (simp add: huge_entry_iff Let_def assms(4))
qed

lemma root_not_huge: "tables_ok st r \<Longrightarrow> \<not> huge_entry (pt_entry st r (pml4_idx v))"
  using tables_okD(5) [OF _ idx_less(1)] by (auto simp: huge_entry_iff)

lemma map_page_cases:
  assumes "tables_ok st r" "map_page r phys virt st = (res, st')"
  obtains (fail) "res = -1" "only_tables st st' r"
      "no_free_page st' \<or> (\<exists>k e. walk st r (indices virt) = Some (k, e) \<and> 0 < k)"
  | (mapped) st3 t where "res = 0" "only_tables st st3 r"
      "table_at st3 r [pml4_idx virt, pdpt_idx virt, pd_idx virt] = Some t"
      "st' = set_pt_entry t (pt_idx virt) ((phys AND 0xfffffffffffff000) OR 3) st3"
proof -
  let ?a = "pml4_idx virt" and ?b = "pdpt_idx virt" and ?c = "pd_idx virt"
  have o: "only_tables st st r" using assms(1) by (rule only_tables_refl)
  obtain r1 st1 where g1: "get_table r ?a st = (r1, st1)" by fastforce
  have s1: "only_tables st st1 r" "\<And>u. r1 = Some u \<Longrightarrow> table_at st1 r [?a] = Some u" "r1 = None \<Longrightarrow> no_free_page st1"
    using get_table_step [OF o, of "[]" ?a r r1 st1] indices_path(1) root_not_huge [OF assms(1)] g1 by simp_all
  show thesis
  proof (cases r1)
    case None
    then show ?thesis using fail assms(2) s1 by (simp add: map_page_def g1)
  next
    case t1: (Some pdpt)
    note at1 = s1(2) [OF t1]
    show ?thesis
    proof (cases "huge_entry (pt_entry st1 pdpt ?b)")
      case True
      then have "walk st r (indices virt) = Some (2, pt_entry st1 pdpt ?b)"
        using huge_walk [OF s1(1) at1, of ?b virt] by (simp add: indices_def del: walk.simps)
      then show ?thesis using fail assms(2) s1 True by (simp add: map_page_def g1 t1)
    next
      case h1: False
      obtain r2 st2 where g2: "get_table pdpt ?b st1 = (r2, st2)" by fastforce
      have s2: "only_tables st st2 r" "\<And>u. r2 = Some u \<Longrightarrow> table_at st2 r [?a, ?b] = Some u" "r2 = None \<Longrightarrow> no_free_page st2"
        using get_table_step [OF s1(1) _ at1 _ h1 g2] indices_path(2) by simp_all
      show ?thesis
      proof (cases r2)
        case None
        then show ?thesis using fail assms(2) s2 h1 by (simp add: map_page_def g1 t1 g2)
      next
        case t2: (Some pd)
        note at2 = s2(2) [OF t2]
        show ?thesis
        proof (cases "huge_entry (pt_entry st2 pd ?c)")
          case True
          then have "walk st r (indices virt) = Some (1, pt_entry st2 pd ?c)"
            using huge_walk [OF s2(1) at2, of ?c virt] by (simp add: indices_def del: walk.simps)
          then show ?thesis using fail assms(2) s2 True h1 by (simp add: map_page_def g1 t1 g2 t2)
        next
          case h2: False
          obtain r3 st3 where g3: "get_table pd ?c st2 = (r3, st3)" by fastforce
          have s3: "only_tables st st3 r" "\<And>u. r3 = Some u \<Longrightarrow> table_at st3 r [?a, ?b, ?c] = Some u"
            "r3 = None \<Longrightarrow> no_free_page st3"
            using get_table_step [OF s2(1) _ at2 _ h2 g3] indices_path(3) by simp_all
          show ?thesis
          proof (cases r3)
            case None
            then show ?thesis using fail assms(2) s3 h1 h2 by (simp add: map_page_def g1 t1 g2 t2 g3)
          next
            case t3: (Some pt)
            show ?thesis
              using mapped [OF _ s3(1) s3(2) [OF t3]] assms(2) h1 h2
              by (simp add: map_page_def g1 t1 g2 t2 g3 t3)
          qed
        qed
      qed
    qed
  qed
qed

lemma prefix_indices:
  "prefix [pml4_idx u, pdpt_idx u, pd_idx u, pt_idx u] (indices v) \<longleftrightarrow> indices v = indices u"
  "prefix [pml4_idx u, pdpt_idx u, pd_idx u] (indices v) \<longleftrightarrow> take 3 (indices v) = take 3 (indices u)"
  by (auto simp: indices_def)

text \<open>What \<open>map_page\<close> does beside the translation.\<close>

lemma map_page_only:
  assumes "tables_ok st r" "map_page r phys virt st = (res, st')"
  shows "grows st st'" "tables_from st st' r" "kept st st' r"
    "indices v \<noteq> indices virt \<Longrightarrow> walk st' r (indices v) = walk st r (indices v)"
    "res = 0 \<Longrightarrow> walk st' r (indices virt) = Some (0, (phys AND 0xfffffffffffff000) OR 3)"
    "res \<noteq> 0 \<Longrightarrow> walk st' r (indices v) = walk st r (indices v)"
proof -
  have "grows st st' \<and> tables_from st st' r \<and> kept st st' r \<and>
    (indices v \<noteq> indices virt \<longrightarrow> walk st' r (indices v) = walk st r (indices v)) \<and>
    (res = 0 \<longrightarrow> walk st' r (indices virt) = Some (0, (phys AND 0xfffffffffffff000) OR 3)) \<and>
    (res \<noteq> 0 \<longrightarrow> walk st' r (indices v) = walk st r (indices v))"
    using assms
  proof (cases rule: map_page_cases)
    case fail
    then show ?thesis using indices_path(4,5) by (simp add: only_tables_def)
  next
    case (mapped st3 t)
    let ?e = "(phys AND 0xfffffffffffff000) OR 3"
    have o: "tables_ok st3 r" "grows st st3" "tables_from st st3 r" "kept st st3 r" using mapped(2) by (simp_all add: only_tables_def)
    have b0: "bit ?e 0" by (simp add: bit_or_iff)
    note leaf = set_leaf [OF o(1) indices_path(3) mapped(3) idx_less(4) [of virt] _ _ b0, folded mapped(4), simplified]
    note e = set_entry_keeps [OF o(1) indices_path(3) mapped(3) idx_less(4) [of virt], where e = ?e, folded mapped(4)]
    have "unat (max_page st) \<le> 2 ^ 40" using tables_okD(1) [OF assms(1)] by (simp add: pmm_ok_def)
    then have "kept st st' r" by (rule kept_trans [OF o(4) e(1) o(2,3)])
    moreover have "tables_from st3 st' r" using leaf(4) unfolding tables_from_def by metis
    then have "tables_from st st' r" using tables_from_trans o(2,3) by blast
    moreover have "walk st' r (indices v) = walk st r (indices v)" if "indices v \<noteq> indices virt"
    proof -
      have "walk st' r (indices v) = walk st3 r (indices v)" using leaf(2) [OF indices_path(4)] that prefix_indices(1) by simp
      then show ?thesis using mapped(2) indices_path(4,5) by (simp add: only_tables_def)
    qed
    moreover have "walk st' r ([pml4_idx virt, pdpt_idx virt, pd_idx virt] @ pt_idx virt # []) = Some (length ([] :: u64 list), ?e)"
      unfolding mapped(4) by (rule set_leaf(3) [OF o(1) indices_path(3) mapped(3) idx_less(4) _ _ b0]) simp_all
    then have "walk st' r (indices virt) = Some (0, ?e)" by (simp add: indices_def del: walk.simps)
    ultimately show ?thesis using grows_trans [OF o(2) e(2)] mapped(1) by blast
  qed
  then show "grows st st'" "tables_from st st' r" "kept st st' r"
    "indices v \<noteq> indices virt \<Longrightarrow> walk st' r (indices v) = walk st r (indices v)"
    "res = 0 \<Longrightarrow> walk st' r (indices virt) = Some (0, (phys AND 0xfffffffffffff000) OR 3)"
    "res \<noteq> 0 \<Longrightarrow> walk st' r (indices v) = walk st r (indices v)" by blast+
qed

lemma leaf_entry:
  fixes a :: u64
  assumes "a < 2 ^ 52"
  shows "((a AND 0xfffffffffffff000) OR 3) AND mask 52 AND NOT (mask 12) = a AND NOT (mask 12)"
    "bit ((a AND 0xfffffffffffff000) OR 3) 0"
    "((a AND 0xffffffffffe00000) OR 3 OR push_bit 7 1) AND mask 52 AND NOT (mask 21) = a AND NOT (mask 21)"
    "bit ((a AND 0xffffffffffe00000) OR 3 OR push_bit 7 1) 0" "bit ((a AND 0xffffffffffe00000) OR 3 OR push_bit 7 1) 7"
proof -
  have a: "n < 52" if "bit a n" for n
  proof (rule ccontr)
    assume n: "\<not> n < 52"
    have "a AND mask 52 = a" using assms by (rule less_mask_eq)
    then show False using that n by (metis bit_and_iff bit_mask_iff)
  qed
  have m: "(0xfffffffffffff000 :: u64) = NOT (mask 12)" "(0xffffffffffe00000 :: u64) = NOT (mask 21)" "(3 :: u64) = mask 2"
    by (simp_all add: mask_eq_exp_minus_1)
  have b7: "bit (push_bit 7 (1 :: u64)) n \<longleftrightarrow> n = 7" for n
    by (subst bit_push_bit_iff) (auto simp: bit_1_iff)
  note bits = bit_or_iff bit_and_iff bit_not_iff bit_mask_iff b7
  show "((a AND 0xfffffffffffff000) OR 3) AND mask 52 AND NOT (mask 12) = a AND NOT (mask 12)"
    by (rule bit_word_eqI) (use a in \<open>auto simp only: m bits possible_bit_def\<close>)
  show "((a AND 0xffffffffffe00000) OR 3 OR push_bit 7 1) AND mask 52 AND NOT (mask 21) = a AND NOT (mask 21)"
    by (rule bit_word_eqI) (use a in \<open>auto simp only: m bits possible_bit_def\<close>)
  show "bit ((a AND 0xfffffffffffff000) OR 3) 0" "bit ((a AND 0xffffffffffe00000) OR 3 OR push_bit 7 1) 0"
    "bit ((a AND 0xffffffffffe00000) OR 3 OR push_bit 7 1) 7"
    by (simp_all only: m bits) simp_all
qed

lemma phys_of_only_tables: "only_tables st st' r \<Longrightarrow> phys_of st' r v = phys_of st r v"
  using indices_path(4,5) by (simp add: phys_of_def only_tables_def)

lemma map_page_spec:
  assumes "tables_ok st r" "phys < 2 ^ 52" "map_page r phys virt st = (res, st')"
  shows "tables_ok st' r \<and>
    (if res = 0
     then (\<forall>v. phys_of st' r v =
             (if indices v = indices virt then Some ((phys AND NOT (mask 12)) OR (v AND mask 12))
              else phys_of st r v))
     else res = -1 \<and> (\<forall>v. phys_of st' r v = phys_of st r v) \<and>
       (no_free_page st' \<or> (\<exists>k e. walk st r (indices virt) = Some (k, e) \<and> 0 < k)))"
  using assms(1,3)
proof (cases rule: map_page_cases)
  case fail
  then show ?thesis using phys_of_only_tables [OF fail(2)] by (simp add: only_tables_def)
next
  case (mapped st3 t)
  let ?e = "(phys AND 0xfffffffffffff000) OR 3"
  have t3: "tables_ok st3 r" using mapped(2) by (simp add: only_tables_def)
  note leaf = set_leaf [OF t3 indices_path(3) mapped(3) idx_less(4) [of virt] _ _ leaf_entry(2) [OF assms(2)],
      folded mapped(4), simplified]
  have "phys_of st' r v = phys_of st r v" if "indices v \<noteq> indices virt" for v
  proof -
    have "walk st' r (indices v) = walk st3 r (indices v)"
      using leaf(2) [OF indices_path(4)] that by (simp add: prefix_indices)
    then have "phys_of st' r v = phys_of st3 r v" by (simp add: phys_of_def)
    then show ?thesis using phys_of_only_tables [OF mapped(2)] by simp
  qed
  moreover have "phys_of st' r v = Some ((phys AND NOT (mask 12)) OR (v AND mask 12))"
    if "indices v = indices virt" for v
    using leaf(3) [of "[]"] that leaf_entry(1) [OF assms(2)] by (simp add: phys_of_def indices_def)
  ultimately show ?thesis using leaf(1) mapped(1) by auto
qed

text \<open>
  C25: \<open>map_page\<close> keeps the tree of tables well formed, changes the translation of no page but the
  one asked for, and on success that page translates to the frame given, byte by byte. It fails only
  inside a larger page or when no page of memory is left, and then changes no translation at all.
\<close>

theorem map_page_correct:
  assumes "tables_ok st r" "phys < 2 ^ 52" "map_page r phys virt st = (res, st')"
  shows "tables_ok st' r \<and>
    (if res = 0
     then (\<forall>v. phys_of st' r v =
             (if indices v = indices virt then Some ((phys AND NOT (mask 12)) OR (v AND mask 12))
              else phys_of st r v))
     else res = -1 \<and> (\<forall>v. phys_of st' r v = phys_of st r v) \<and>
       (no_free_page st' \<or> (\<exists>k e. walk st r (indices virt) = Some (k, e) \<and> 0 < k)))"
  using assms by (rule map_page_spec)

section \<open>Mapping 2 MiB\<close>

lemma map_page_2m_cases:
  assumes "tables_ok st r" "map_page_2m r phys virt st = (res, st')"
    and "\<And>e. walk st r (indices virt) \<noteq> Some (2, e)"
  obtains (fail) "res = -1" "only_tables st st' r" "no_free_page st'"
  | (mapped) st2 t where "res = 0" "only_tables st st2 r" "table_at st2 r [pml4_idx virt, pdpt_idx virt] = Some t"
      "st' = set_pt_entry t (pd_idx virt) ((phys AND 0xffffffffffe00000) OR 3 OR push_bit 7 1) st2"
proof -
  let ?a = "pml4_idx virt" and ?b = "pdpt_idx virt" and ?c = "pd_idx virt"
  have o: "only_tables st st r" using assms(1) by (rule only_tables_refl)
  obtain r1 st1 where g1: "get_table r ?a st = (r1, st1)" by fastforce
  have s1: "only_tables st st1 r" "\<And>u. r1 = Some u \<Longrightarrow> table_at st1 r [?a] = Some u" "r1 = None \<Longrightarrow> no_free_page st1"
    using get_table_step [OF o, of "[]" ?a r r1 st1] indices_path(1) root_not_huge [OF assms(1)] g1 by simp_all
  show thesis
  proof (cases r1)
    case None
    then show ?thesis using fail assms(2) s1 by (simp add: map_page_2m_def g1)
  next
    case t1: (Some pdpt)
    note at1 = s1(2) [OF t1]
    have h1: "\<not> huge_entry (pt_entry st1 pdpt ?b)"
      using huge_walk [OF s1(1) at1, of ?b virt "[?c, pt_idx virt]"] assms(3)
      by (auto simp: indices_def numeral_2_eq_2 simp del: walk.simps)
    obtain r2 st2 where g2: "get_table pdpt ?b st1 = (r2, st2)" by fastforce
    have s2: "only_tables st st2 r" "\<And>u. r2 = Some u \<Longrightarrow> table_at st2 r [?a, ?b] = Some u" "r2 = None \<Longrightarrow> no_free_page st2"
      using get_table_step [OF s1(1) _ at1 _ h1 g2] indices_path(2) by simp_all
    show ?thesis
    proof (cases r2)
      case None
      then show ?thesis using fail assms(2) s2 by (simp add: map_page_2m_def g1 t1 g2)
    next
      case t2: (Some pd)
      show ?thesis
        using mapped [OF _ s2(1) s2(2) [OF t2]] assms(2)
        by (auto simp only: map_page_2m_def g1 t1 g2 t2 prod.case option.case prod.inject)
    qed
  qed
qed

lemma map_page_2m_only:
  assumes "tables_ok st r" "map_page_2m r phys virt st = (res, st')" "\<And>e. walk st r (indices virt) \<noteq> Some (2, e)"
  shows "grows st st'" "tables_from st st' r" "kept st st' r"
    "take 3 (indices v) \<noteq> take 3 (indices virt) \<Longrightarrow> walk st' r (indices v) = walk st r (indices v)"
    "res = 0 \<Longrightarrow> take 3 (indices v) = take 3 (indices virt) \<Longrightarrow> \<exists>e. walk st' r (indices v) = Some (1, e)"
    "res \<noteq> 0 \<Longrightarrow> walk st' r (indices v) = walk st r (indices v)"
proof -
  have "grows st st' \<and> tables_from st st' r \<and> kept st st' r \<and>
    (take 3 (indices v) \<noteq> take 3 (indices virt) \<longrightarrow> walk st' r (indices v) = walk st r (indices v)) \<and>
    (res = 0 \<longrightarrow> take 3 (indices v) = take 3 (indices virt) \<longrightarrow> (\<exists>e. walk st' r (indices v) = Some (1, e))) \<and>
    (res \<noteq> 0 \<longrightarrow> walk st' r (indices v) = walk st r (indices v))"
    using assms
  proof (cases rule: map_page_2m_cases)
    case fail
    then show ?thesis using indices_path(4,5) by (simp add: only_tables_def)
  next
    case (mapped st2 t)
    let ?e = "(phys AND 0xffffffffffe00000) OR 3 OR push_bit 7 1"
    have o: "tables_ok st2 r" "grows st st2" "tables_from st st2 r" "kept st st2 r" using mapped(2) by (simp_all add: only_tables_def)
    have b: "bit ?e 0" "bit ?e 7" by (simp_all add: bit_or_iff bit_push_bit_iff del: push_bit_of_1)
    have leaf: "\<And>q. path4 q \<Longrightarrow> \<not> prefix [pml4_idx virt, pdpt_idx virt, pd_idx virt] q \<Longrightarrow> walk st' r q = walk st2 r q"
      "walk st' r [pml4_idx virt, pdpt_idx virt, pd_idx virt, i] = Some (1, ?e)"
      "path_ok q \<Longrightarrow> table_at st' r q = Some u \<Longrightarrow> table_at st2 r q = Some u" for i q u
      using set_leaf [OF o(1) indices_path(2) mapped(3) idx_less(3) [of virt] _ _ b(1)] b(2)
      unfolding mapped(4) by (simp_all del: push_bit_of_1 walk.simps)
    note e = set_entry_keeps [OF o(1) indices_path(2) mapped(3) idx_less(3) [of virt], where e = ?e, folded mapped(4)]
    have "unat (max_page st) \<le> 2 ^ 40" using tables_okD(1) [OF assms(1)] by (simp add: pmm_ok_def)
    then have "kept st st' r" by (rule kept_trans [OF o(4) e(1) o(2,3)])
    moreover have "tables_from st2 st' r" using leaf(3) unfolding tables_from_def by metis
    then have "tables_from st st' r" using tables_from_trans o(2,3) by blast
    moreover have "walk st' r (indices v) = walk st r (indices v)" if "take 3 (indices v) \<noteq> take 3 (indices virt)"
    proof -
      have "walk st' r (indices v) = walk st2 r (indices v)" using leaf(1) [OF indices_path(4)] that prefix_indices(2) by simp
      then show ?thesis using mapped(2) indices_path(4,5) by (simp add: only_tables_def)
    qed
    moreover have "walk st' r (indices v) = Some (1, ?e)" if "take 3 (indices v) = take 3 (indices virt)"
    proof -
      have "indices v = [pml4_idx virt, pdpt_idx virt, pd_idx virt, pt_idx v]" using that by (simp add: indices_def)
      then show ?thesis using leaf(2) by simp
    qed
    ultimately show ?thesis using grows_trans [OF o(2) e(2)] mapped(1) by blast
  qed
  then show "grows st st'" "tables_from st st' r" "kept st st' r"
    "take 3 (indices v) \<noteq> take 3 (indices virt) \<Longrightarrow> walk st' r (indices v) = walk st r (indices v)"
    "res = 0 \<Longrightarrow> take 3 (indices v) = take 3 (indices virt) \<Longrightarrow> \<exists>e. walk st' r (indices v) = Some (1, e)"
    "res \<noteq> 0 \<Longrightarrow> walk st' r (indices v) = walk st r (indices v)" by blast+
qed

lemma map_page_2m_spec:
  assumes "tables_ok st r" "phys < 2 ^ 52" "map_page_2m r phys virt st = (res, st')"
    and "\<And>e. walk st r (indices virt) \<noteq> Some (2, e)"
  shows "tables_ok st' r \<and>
    (if res = 0
     then (\<forall>v. phys_of st' r v =
             (if take 3 (indices v) = take 3 (indices virt) then Some ((phys AND NOT (mask 21)) OR (v AND mask 21))
              else phys_of st r v))
     else res = -1 \<and> (\<forall>v. phys_of st' r v = phys_of st r v) \<and> no_free_page st')"
  using assms(1,3,4)
proof (cases rule: map_page_2m_cases)
  case fail
  then show ?thesis using phys_of_only_tables [OF fail(2)] by (simp add: only_tables_def)
next
  case (mapped st2 t)
  let ?e = "(phys AND 0xffffffffffe00000) OR 3 OR push_bit 7 1"
  have t2: "tables_ok st2 r" using mapped(2) by (simp add: only_tables_def)
  have leaf: "tables_ok st' r"
    "\<And>q. path4 q \<Longrightarrow> \<not> prefix [pml4_idx virt, pdpt_idx virt, pd_idx virt] q \<Longrightarrow> walk st' r q = walk st2 r q"
    "walk st' r [pml4_idx virt, pdpt_idx virt, pd_idx virt, i] = Some (1, ?e)" for i
    using set_leaf [OF t2 indices_path(2) mapped(3) idx_less(3) [of virt] _ _ leaf_entry(4) [OF assms(2)]]
      leaf_entry(5) [OF assms(2)] unfolding mapped(4) by (simp_all del: push_bit_of_1 walk.simps)
  have "phys_of st' r v = phys_of st r v" if "take 3 (indices v) \<noteq> take 3 (indices virt)" for v
  proof -
    have "walk st' r (indices v) = walk st2 r (indices v)"
      using leaf(2) [OF indices_path(4)] that by (simp add: prefix_indices)
    then have "phys_of st' r v = phys_of st2 r v" by (simp add: phys_of_def)
    then show ?thesis using phys_of_only_tables [OF mapped(2)] by simp
  qed
  moreover have "phys_of st' r v = Some ((phys AND NOT (mask 21)) OR (v AND mask 21))"
    if "take 3 (indices v) = take 3 (indices virt)" for v
  proof -
    have "indices v = [pml4_idx virt, pdpt_idx virt, pd_idx virt, pt_idx v]" using that by (simp add: indices_def)
    then have "walk st' r (indices v) = Some (1, ?e)" using leaf(3) by simp
    then show ?thesis using leaf_entry(3) [OF assms(2)] by (simp add: phys_of_def del: push_bit_of_1)
  qed
  ultimately show ?thesis using leaf(1) mapped(1) by auto
qed

text \<open>
  C30: \<open>map_page_2m\<close>, where no 1 GiB page is in the way, maps the 2 MiB around the address asked for to
  the 2 MiB frame given, whatever was mapped there before, changes no other translation, and fails
  only when no page of memory is left.
\<close>

theorem map_page_2m_correct:
  assumes "tables_ok st r" "phys < 2 ^ 52" "map_page_2m r phys virt st = (res, st')"
    and "\<And>e. walk st r (indices virt) \<noteq> Some (2, e)"
  shows "tables_ok st' r \<and>
    (if res = 0
     then (\<forall>v. phys_of st' r v =
             (if take 3 (indices v) = take 3 (indices virt) then Some ((phys AND NOT (mask 21)) OR (v AND mask 21))
              else phys_of st r v))
     else res = -1 \<and> (\<forall>v. phys_of st' r v = phys_of st r v) \<and> no_free_page st')"
  using assms by (rule map_page_2m_spec)

section \<open>When mapping succeeds\<close>

definition free_pages :: "pmm \<Rightarrow> nat set" where
  "free_pages st = {s. 4096 \<le> s \<and> s < unat (max_page st) \<and> \<not> page_used st (of_nat s)}"

lemma finite_free_pages [simp]: "finite (free_pages st)"
  by (rule finite_subset [of _ "{..<unat (max_page st)}"]) (auto simp: free_pages_def)

lemma get_table_count:
  assumes "pmm_ok st" "hhdm_ok st" "get_table t i st = (res, st')"
  shows "pmm_ok st' \<and> hhdm_ok st' \<and>
    (if res = None then free_pages st = {} else card (free_pages st) \<le> card (free_pages st') + 1)"
proof (cases "pt_entry st t i AND 1 \<noteq> 0")
  case True
  then show ?thesis using assms by (auto simp: get_table_def)
next
  case False
  obtain p st0 where k: "kmalloc 1 st = (p, st0)" by fastforce
  show ?thesis
  proof (cases "p = 0")
    case True
    then have "st0 = st" "no_free_page st" using kmalloc_none [OF assms(1,2)] k by simp_all
    then show ?thesis using True False k assms by (auto simp: get_table_def no_free_page_def free_pages_def)
  next
    case new: False
    obtain s where s: "pmm_ok st0" "4096 \<le> s" "s + 1 \<le> unat (max_page st)"
      "\<And>j. page_used st0 j \<longleftrightarrow> s \<le> unat j \<and> unat j < s + 1 \<or> page_used st j"
      using kmalloc_spec [OF assms(1) _ assms(2) k] new by auto
    note fr = kmalloc_frame [OF k]
    have mx: "unat (max_page st) \<le> 2 ^ 40" using assms(1) by (simp add: pmm_ok_def)
    have "free_pages st \<subseteq> insert s (free_pages st0)"
    proof
      fix n assume n: "n \<in> free_pages st"
      then have "unat (of_nat n :: u64) = n" using mx by (intro unat_of_nat_u64) (auto simp: free_pages_def)
      then show "n \<in> insert s (free_pages st0)" using n s(4) fr by (auto simp: free_pages_def)
    qed
    then have "card (free_pages st) \<le> card (insert s (free_pages st0))" by (rule card_mono [rotated]) simp
    then have "card (free_pages st) \<le> card (free_pages st0) + 1"
      using card_insert_le_m1 by (metis Suc_eq_plus1 card_insert_if finite_free_pages le_SucI)
    moreover have "hhdm_ok st0" using assms(2) fr by (simp add: hhdm_ok_def)
    moreover have "st' = set_pt_entry t i (p OR 3) st0" "res \<noteq> None"
      using assms(3) k new False by (auto simp: get_table_def)
    ultimately show ?thesis using s(1) by (auto simp: free_pages_def)
  qed
qed

lemma get_table_some:
  assumes "pmm_ok st" "hhdm_ok st" "Suc n \<le> card (free_pages st)"
  obtains t' st' where "get_table t i st = (Some t', st')" "pmm_ok st'" "hhdm_ok st'" "n \<le> card (free_pages st')"
proof -
  obtain res st' where g: "get_table t i st = (res, st')" by fastforce
  note c = get_table_count [OF assms(1,2) g]
  then have e: "res = None \<Longrightarrow> free_pages st = {}" by simp
  then have "res \<noteq> None" using assms(3) by (metis card.empty not_less_eq_eq zero_le)
  then show thesis using that g c assms(3) by auto
qed

lemma map_page_zero:
  assumes "tables_ok st r" "3 \<le> card (free_pages st)"
    and "\<forall>k e. walk st r (indices virt) = Some (k, e) \<longrightarrow> k = 0"
  shows "fst (map_page r phys virt st) = 0"
proof -
  let ?a = "pml4_idx virt" and ?b = "pdpt_idx virt" and ?c = "pd_idx virt"
  note ok = tables_okD(1,2) [OF assms(1)]
  have o: "only_tables st st r" using assms(1) by (rule only_tables_refl)
  obtain pdpt st1 where g1: "get_table r ?a st = (Some pdpt, st1)"
      and c1: "pmm_ok st1" "hhdm_ok st1" "2 \<le> card (free_pages st1)"
    by (rule get_table_some [OF ok, of 2]) (use assms(2) in simp_all)
  have s1: "only_tables st st1 r" "table_at st1 r [?a] = Some pdpt"
    using get_table_step [OF o, of "[]" ?a r _ st1] indices_path(1) root_not_huge [OF assms(1)] g1 by simp_all
  have h1: "\<not> huge_entry (pt_entry st1 pdpt ?b)"
    using huge_walk [OF s1, of ?b virt "[?c, pt_idx virt]"] assms(3) by (auto simp: indices_def simp del: walk.simps)
  obtain pd st2 where g2: "get_table pdpt ?b st1 = (Some pd, st2)"
      and c2: "pmm_ok st2" "hhdm_ok st2" "1 \<le> card (free_pages st2)"
    by (rule get_table_some [OF c1(1,2), of 1]) (use c1(3) in simp_all)
  have s2: "only_tables st st2 r" "table_at st2 r [?a, ?b] = Some pd"
    using get_table_step [OF s1(1) _ s1(2) _ h1 g2] indices_path(2) by simp_all
  have h2: "\<not> huge_entry (pt_entry st2 pd ?c)"
    using huge_walk [OF s2, of ?c virt "[pt_idx virt]"] assms(3) by (auto simp: indices_def simp del: walk.simps)
  obtain pt st3 where g3: "get_table pd ?c st2 = (Some pt, st3)"
    by (rule get_table_some [OF c2(1,2), of 0]) (use c2(3) in simp_all)
  show ?thesis using h1 h2 by (simp add: map_page_def g1 g2 g3)
qed

lemma map_page_2m_zero:
  assumes "pmm_ok st" "hhdm_ok st" "2 \<le> card (free_pages st)"
  shows "fst (map_page_2m r phys virt st) = 0"
proof -
  obtain pdpt st1 where g1: "get_table r (pml4_idx virt) st = (Some pdpt, st1)"
      and c1: "pmm_ok st1" "hhdm_ok st1" "1 \<le> card (free_pages st1)"
    by (rule get_table_some [OF assms(1,2), of 1]) (use assms(3) in simp_all)
  obtain pd st2 where g2: "get_table pdpt (pdpt_idx virt) st1 = (Some pd, st2)"
    by (rule get_table_some [OF c1(1,2), of 0]) (use c1(3) in simp_all)
  show ?thesis by (simp add: map_page_2m_def g1 g2)
qed


section \<open>An example\<close>

text \<open>An empty root table in the first page of the memory managed.\<close>

definition empty_root :: pmm where
  "empty_root = \<lparr>mem_bitmap = (\<lambda>i. if i = 0 then 1 else 0), bitmap_pages = 1, max_page = 5120, last_alloc_page = 4097,
     hhdm_offset = 0xffff800000000000, kernel_phys_base = 0, kernel_virt_base = 0, phys_mem = (\<lambda>_. 0)\<rparr>"

abbreviation root_addr :: u64 where "root_addr \<equiv> 0xffff800001000000"

lemma empty_root_entries: "pt_entry empty_root t i = 0"
  unfolding pt_entry_def by (rule load64_zero) (simp add: empty_root_def)

lemma empty_root_tables: "tables_ok empty_root root_addr"
proof -
  have t: "table_at empty_root t p = (if p = [] then Some t else None)" for t p
    by (cases p) (simp_all add: empty_root_entries Let_def)
  have "page_used empty_root 4096" by code_simp
  then have "table_page empty_root root_addr"
    unfolding table_page_def by (intro exI [of _ 4096]) (simp add: empty_root_def)
  then show ?thesis
    by (auto simp: tables_ok_def t pmm_ok_def hhdm_ok_def empty_root_entries split: if_splits)
      (simp_all add: empty_root_def BITMAP_BASE_def MEMORY_BASE_def PAGE_SIZE_def)
qed

lemma empty_root_walk: "walk empty_root root_addr (indices v) = None"
  by (simp add: indices_def empty_root_entries)

lemma empty_root_free: "3 \<le> card (free_pages empty_root)"
proof -
  have "\<not> page_used empty_root 4097" "\<not> page_used empty_root 4098" "\<not> page_used empty_root 4099" by code_simp+
  then have "{4097, 4098, 4099} \<subseteq> free_pages empty_root" by (simp add: free_pages_def empty_root_def)
  then have "card {4097 :: nat, 4098, 4099} \<le> card (free_pages empty_root)" by (rule card_mono [rotated]) simp
  then show ?thesis by simp
qed


theorem map_page_correct_witness:
  "\<exists>st. map_page root_addr 0x5000 0x400000 empty_root = (0, st) \<and> tables_ok st root_addr \<and>
     phys_of st root_addr 0x400123 = Some 0x5123 \<and> phys_of st root_addr 0x401123 = None"
proof -
  obtain res st where m: "map_page root_addr 0x5000 0x400000 empty_root = (res, st)" by fastforce
  then have r: "res = 0"
    using map_page_zero [OF empty_root_tables empty_root_free, of "0x400000" "0x5000"] by (simp add: empty_root_walk)
  have i: "indices 0x400123 = indices 0x400000" "indices 0x401123 \<noteq> indices 0x400000" by code_simp+
  have v: "((0x5000 :: u64) AND NOT (mask 12)) OR (0x400123 AND mask 12) = 0x5123" by code_simp
  have t: "tables_ok st root_addr"
    "phys_of st root_addr v = (if indices v = indices 0x400000 then Some ((0x5000 AND NOT (mask 12)) OR (v AND mask 12))
       else phys_of empty_root root_addr v)" for v
    using map_page_correct [OF empty_root_tables _ m] r by simp_all
  show ?thesis
    using m r t(1) t(2) [of "0x400123"] t(2) [of "0x401123"] i v by (auto simp: phys_of_def empty_root_walk)
qed

theorem map_page_2m_correct_witness:
  "\<exists>st. map_page_2m root_addr 0x600000 0x400000 empty_root = (0, st) \<and> tables_ok st root_addr \<and>
     phys_of st root_addr 0x512345 = Some 0x712345 \<and> phys_of st root_addr 0x612345 = None"
proof -
  obtain res st where m: "map_page_2m root_addr 0x600000 0x400000 empty_root = (res, st)" by fastforce
  then have r: "res = 0"
    using map_page_2m_zero [OF tables_okD(1,2) [OF empty_root_tables], of root_addr "0x600000" "0x400000"] empty_root_free by simp
  have i: "take 3 (indices 0x512345) = take 3 (indices 0x400000)" "take 3 (indices 0x612345) \<noteq> take 3 (indices 0x400000)"
    by code_simp+
  have v: "((0x600000 :: u64) AND NOT (mask 21)) OR (0x512345 AND mask 21) = 0x712345" by code_simp
  have t: "tables_ok st root_addr"
    "phys_of st root_addr v = (if take 3 (indices v) = take 3 (indices 0x400000)
       then Some ((0x600000 AND NOT (mask 21)) OR (v AND mask 21)) else phys_of empty_root root_addr v)" for v
    using map_page_2m_correct [OF empty_root_tables _ m] r by (simp_all add: empty_root_walk)
  show ?thesis
    using m r t(1) t(2) [of "0x512345"] t(2) [of "0x612345"] i v by (auto simp: phys_of_def empty_root_walk)
qed

end
