(* ===== verification/X86_Emit.thy ===== *)
theory X86_Emit
  imports Prelude
begin

text \<open>
  The emitter of x86-64 code (jit.c): the bytes each function appends, and a decoder for the
  instructions it makes, written from the encoding of the processor. What is proved is that every
  function emits exactly the instruction it is named after, whatever bytes come next.
\<close>

section \<open>Emitting bytes\<close>

text \<open>\<open>em_code\<close> is the code from the start of the block being made to \<open>cp\<close>.\<close>

record emitter =
  em_code :: "u8 list"

definition RAX :: u8 where "RAX = 0"
definition RCX :: u8 where "RCX = 1"
definition RDX :: u8 where "RDX = 2"
definition RBX :: u8 where "RBX = 3"
definition RSP :: u8 where "RSP = 4"
definition RBP :: u8 where "RBP = 5"
definition RSI :: u8 where "RSI = 6"
definition RDI :: u8 where "RDI = 7"
definition R8 :: u8 where "R8 = 8"
definition R9 :: u8 where "R9 = 9"
definition R10 :: u8 where "R10 = 10"
definition R11 :: u8 where "R11 = 11"
definition R12 :: u8 where "R12 = 12"
definition R13 :: u8 where "R13 = 13"
definition R14 :: u8 where "R14 = 14"
definition R15 :: u8 where "R15 = 15"

lemmas reg_defs = RAX_def RCX_def RDX_def RBX_def RSP_def RBP_def RSI_def RDI_def
  R8_def R9_def R10_def R11_def R12_def R13_def R14_def R15_def

definition CC_C :: u8 where "CC_C = 0x2"
definition CC_NZ :: u8 where "CC_NZ = 0x5"
definition CC_L :: u8 where "CC_L = 0xc"
definition CC_LE :: u8 where "CC_LE = 0xe"

definition e8 :: "u8 \<Rightarrow> 'a emitter_scheme \<Rightarrow> 'a emitter_scheme" where
  "e8 v J = J\<lparr>em_code := em_code J @ [v]\<rparr>"

definition e32 :: "u32 \<Rightarrow> 'a emitter_scheme \<Rightarrow> 'a emitter_scheme" where
  "e32 v J = J\<lparr>em_code := em_code J @ le_bytes 4 v\<rparr>"

definition e64 :: "u64 \<Rightarrow> 'a emitter_scheme \<Rightarrow> 'a emitter_scheme" where
  "e64 v J = J\<lparr>em_code := em_code J @ le_bytes 8 v\<rparr>"

definition rex :: "u8 \<Rightarrow> u8 \<Rightarrow> u8 \<Rightarrow> u8 \<Rightarrow> 'a emitter_scheme \<Rightarrow> 'a emitter_scheme" where
  "rex w r x b J =
     (let v = 0x40 OR push_bit 3 w OR push_bit 2 (drop_bit 3 r) OR push_bit 1 (drop_bit 3 x) OR drop_bit 3 b
      in if v \<noteq> 0x40 then e8 v J else J)"

definition mem_operand :: "u8 \<Rightarrow> u8 \<Rightarrow> i32 \<Rightarrow> 'a emitter_scheme \<Rightarrow> 'a emitter_scheme" where
  "mem_operand reg base disp J =
     (let md = if disp = 0 \<and> base AND 7 \<noteq> 5 then 0
               else if sint disp \<ge> -128 \<and> sint disp \<le> 127 then 1 else 2;
          J = e8 (push_bit 6 md OR push_bit 3 (reg AND 7) OR (base AND 7)) J;
          J = if base AND 7 = 4 then e8 0x24 J else J
      in if md = 1 then e8 (ucast disp) J
         else if md = 2 then e32 disp J
         else J)"

definition modrm_reg :: "u8 \<Rightarrow> u8 \<Rightarrow> 'a emitter_scheme \<Rightarrow> 'a emitter_scheme" where
  "modrm_reg reg rm = e8 (0xc0 OR push_bit 3 (reg AND 7) OR (rm AND 7))"

section \<open>Instructions\<close>

definition op_mem :: "u8 \<Rightarrow> u8 \<Rightarrow> u8 \<Rightarrow> i32 \<Rightarrow> 'a emitter_scheme \<Rightarrow> 'a emitter_scheme" where
  "op_mem opc r base disp J = (let J = rex 1 r 0 base J; J = e8 opc J in mem_operand r base disp J)"

definition movbe_mem :: "bool \<Rightarrow> u8 \<Rightarrow> u8 \<Rightarrow> i32 \<Rightarrow> 'a emitter_scheme \<Rightarrow> 'a emitter_scheme" where
  "movbe_mem st r base disp J =
     (let J = rex 1 r 0 base J; J = e8 0x0f J; J = e8 0x38 J; J = e8 (if st then 0xf1 else 0xf0) J
      in mem_operand r base disp J)"

definition load_sib8 :: "u8 \<Rightarrow> u8 \<Rightarrow> u8 \<Rightarrow> 'a emitter_scheme \<Rightarrow> 'a emitter_scheme" where
  "load_sib8 r base index J =
     (let J = rex 1 r index base J; J = e8 0x8b J; J = e8 (0x04 OR push_bit 3 (r AND 7)) J
      in e8 (0xc0 OR push_bit 3 (index AND 7) OR (base AND 7)) J)"

definition bswap :: "u8 \<Rightarrow> 'a emitter_scheme \<Rightarrow> 'a emitter_scheme" where
  "bswap r J = (let J = rex 1 0 0 r J; J = e8 0x0f J in e8 (0xc8 + (r AND 7)) J)"

definition mov_rr :: "u8 \<Rightarrow> u8 \<Rightarrow> 'a emitter_scheme \<Rightarrow> 'a emitter_scheme" where
  "mov_rr dst src J = (let J = rex 1 src 0 dst J; J = e8 0x89 J in modrm_reg src dst J)"

definition sub_rr :: "u8 \<Rightarrow> u8 \<Rightarrow> 'a emitter_scheme \<Rightarrow> 'a emitter_scheme" where
  "sub_rr dst src J = (let J = rex 1 src 0 dst J; J = e8 0x29 J in modrm_reg src dst J)"

definition neg_r :: "u8 \<Rightarrow> 'a emitter_scheme \<Rightarrow> 'a emitter_scheme" where
  "neg_r r J = (let J = rex 1 0 0 r J; J = e8 0xf7 J in modrm_reg 3 r J)"

definition test_rr :: "u8 \<Rightarrow> u8 \<Rightarrow> 'a emitter_scheme \<Rightarrow> 'a emitter_scheme" where
  "test_rr a b J = (let J = rex 1 b 0 a J; J = e8 0x85 J in modrm_reg b a J)"

definition shr_ri :: "u8 \<Rightarrow> u8 \<Rightarrow> 'a emitter_scheme \<Rightarrow> 'a emitter_scheme" where
  "shr_ri r n J = (let J = rex 1 0 0 r J; J = e8 0xc1 J; J = modrm_reg 5 r J in e8 n J)"

definition shl_ri :: "u8 \<Rightarrow> u8 \<Rightarrow> 'a emitter_scheme \<Rightarrow> 'a emitter_scheme" where
  "shl_ri r n J = (let J = rex 1 0 0 r J; J = e8 0xc1 J; J = modrm_reg 4 r J in e8 n J)"

definition or_rr :: "u8 \<Rightarrow> u8 \<Rightarrow> 'a emitter_scheme \<Rightarrow> 'a emitter_scheme" where
  "or_rr dst src J = (let J = rex 1 src 0 dst J; J = e8 0x09 J in modrm_reg src dst J)"

definition and_rr :: "u8 \<Rightarrow> u8 \<Rightarrow> 'a emitter_scheme \<Rightarrow> 'a emitter_scheme" where
  "and_rr dst src J = (let J = rex 1 src 0 dst J; J = e8 0x21 J in modrm_reg src dst J)"

definition bt_rr :: "u8 \<Rightarrow> u8 \<Rightarrow> 'a emitter_scheme \<Rightarrow> 'a emitter_scheme" where
  "bt_rr base bt J = (let J = rex 1 bt 0 base J; J = e8 0x0f J; J = e8 0xa3 J in modrm_reg bt base J)"

text \<open>\<open>(int64_t)v == (int32_t)v\<close>\<close>

definition is_imm32 :: "u64 \<Rightarrow> bool" where
  "is_imm32 v \<longleftrightarrow> v = scast (ucast v :: i32)"

definition mov_imm :: "u8 \<Rightarrow> u64 \<Rightarrow> 'a emitter_scheme \<Rightarrow> 'a emitter_scheme" where
  "mov_imm r v J =
     (if v \<le> 0xffffffff then
        (let J = rex 0 0 0 r J; J = e8 (0xb8 + (r AND 7)) J in e32 (ucast v) J)
      else if is_imm32 v then
        (let J = rex 1 0 0 r J; J = e8 0xc7 J; J = modrm_reg 0 r J in e32 (ucast v) J)
      else
        (let J = rex 1 0 0 r J; J = e8 (0xb8 + (r AND 7)) J in e64 v J))"

definition alu_imm :: "u8 \<Rightarrow> u8 \<Rightarrow> i32 \<Rightarrow> 'a emitter_scheme \<Rightarrow> 'a emitter_scheme" where
  "alu_imm ext r v J = (let J = rex 1 0 0 r J; J = e8 0x81 J; J = modrm_reg ext r J in e32 v J)"

text \<open>The jumps give the place of their displacement, to be patched.\<close>

definition jcc32 :: "u8 \<Rightarrow> 'a emitter_scheme \<Rightarrow> nat \<times> 'a emitter_scheme" where
  "jcc32 cc J = (let J = e8 0x0f J; J = e8 (0x80 + cc) J; s = length (em_code J) in (s, e32 0 J))"

definition jmp32 :: "'a emitter_scheme \<Rightarrow> nat \<times> 'a emitter_scheme" where
  "jmp32 J = (let J = e8 0xe9 J; s = length (em_code J) in (s, e32 0 J))"

definition jmp_r :: "u8 \<Rightarrow> 'a emitter_scheme \<Rightarrow> 'a emitter_scheme" where
  "jmp_r r J = (let J = rex 0 0 0 r J; J = e8 0xff J in modrm_reg 4 r J)"

definition cmp_byte_zero :: "u8 \<Rightarrow> u8 \<Rightarrow> i32 \<Rightarrow> 'a emitter_scheme \<Rightarrow> 'a emitter_scheme" where
  "cmp_byte_zero base index disp J =
     (let J = rex 0 0 index base J; J = e8 0x80 J; J = e8 0xbc J;
          J = e8 (push_bit 3 (index AND 7) OR (base AND 7)) J; J = e32 disp J
      in e8 0 J)"

definition test_bitmap :: "u64 \<Rightarrow> 'a emitter_scheme \<Rightarrow> 'a emitter_scheme" where
  "test_bitmap w J =
     (let J = rex 0 0 0 R14 J; J = e8 0xf6 J; J = mem_operand 0 R14 (ucast (drop_bit 3 w)) J
      in e8 (push_bit (unat (w AND 7)) 1) J)"

definition exit_to :: "u64 \<Rightarrow> u32 \<Rightarrow> 'a emitter_scheme \<Rightarrow> 'a emitter_scheme" where
  "exit_to eip info J = (let J = mov_imm R13 eip J; J = mov_imm RBX (ucast info) J in jmp_r R12 J)"

section \<open>Decoding\<close>

datatype operand = Reg u8 | Mem u8 i32 | Sib u8 u8 nat i32

datatype alu = Add | Or | And | Sub | Cmp | Test

datatype xinsn =
    XStore bool operand u8
  | XLoad bool u8 operand
  | XLea u8 operand
  | XMovbeLoad u8 operand
  | XMovbeStore operand u8
  | XAlu alu bool operand u8
  | XAluImm alu bool operand i32
  | XMovImm bool operand i32
  | XMov32 u8 u32
  | XMov64 u8 u64
  | XCmpImm8 operand u8
  | XTestImm8 operand u8
  | XTestImm bool operand i32
  | XNot bool operand
  | XNeg bool operand
  | XShl bool operand u8
  | XShr bool operand u8
  | XBswap u8
  | XBt operand u8
  | XJcc u8 i32
  | XJmp i32
  | XJmpInd operand

definition of_le :: "nat \<Rightarrow> u8 list \<Rightarrow> ('a::len word \<times> u8 list) option" where
  "of_le n bs = (if n \<le> length bs then Some (join_bytes (\<lambda>i. bs ! i) 0 n, drop n bs) else None)"

definition get8 :: "u8 list \<Rightarrow> (u8 \<times> u8 list) option" where
  "get8 bs = (case bs of [] \<Rightarrow> None | b # bs \<Rightarrow> Some (b, bs))"

text \<open>The displacement after a memory operand of mode \<open>md\<close>, and the operand of a ModRM byte.\<close>

definition get_disp :: "u8 \<Rightarrow> u8 list \<Rightarrow> (i32 \<times> u8 list) option" where
  "get_disp md bs =
     (if md = 0 then Some (0, bs)
      else if md = 1 then map_option (\<lambda>(d, bs). (scast d, bs)) (get8 bs)
      else of_le 4 bs)"

definition get_modrm :: "u8 \<Rightarrow> u8 list \<Rightarrow> (u8 \<times> operand \<times> u8 list) option" where
  "get_modrm pre bs =
     (case bs of [] \<Rightarrow> None
      | m # bs \<Rightarrow>
          let md = drop_bit 6 m; rm = m AND 7;
              reg = (drop_bit 3 m AND 7) OR push_bit 3 (drop_bit 2 pre AND 1)
          in if md = 3 then Some (reg, Reg (rm OR push_bit 3 (pre AND 1)), bs)
             else if rm = 4 then
               (case bs of [] \<Rightarrow> None
                | s # bs \<Rightarrow>
                    let sc = drop_bit 6 s; base = s AND 7;
                        index = (drop_bit 3 s AND 7) OR push_bit 3 (drop_bit 1 pre AND 1)
                    in if md = 0 \<and> base = 5 then None
                       else map_option (\<lambda>(d, bs).
                              (reg, if index = 4 then Mem (base OR push_bit 3 (pre AND 1)) d
                                    else Sib (base OR push_bit 3 (pre AND 1)) index (unat sc) d, bs))
                              (get_disp md bs))
             else if md = 0 \<and> rm = 5 then None
             else map_option (\<lambda>(d, bs). (reg, Mem (rm OR push_bit 3 (pre AND 1)) d, bs)) (get_disp md bs))"

text \<open>Instructions with an immediate: opcode, extension, operand.\<close>

definition decode_imm :: "u8 \<Rightarrow> bool \<Rightarrow> u8 \<Rightarrow> operand \<Rightarrow> u8 list \<Rightarrow> (xinsn \<times> u8 list) option" where
  "decode_imm opc w ext rm bs =
     (let ext = ext AND 7;
          imm8 = (\<lambda>f. map_option (\<lambda>(v, bs). (f v, bs)) (get8 bs));
          imm32 = (\<lambda>f. map_option (\<lambda>(v, bs). (f v, bs)) (of_le 4 bs))
      in if opc = 0x81 \<and> ext = 0 then imm32 (XAluImm Add w rm)
         else if opc = 0x81 \<and> ext = 4 then imm32 (XAluImm And w rm)
         else if opc = 0x81 \<and> ext = 5 then imm32 (XAluImm Sub w rm)
         else if opc = 0xc7 \<and> ext = 0 then imm32 (XMovImm w rm)
         else if opc = 0xf7 \<and> ext = 0 then imm32 (XTestImm w rm)
         else if opc = 0xf7 \<and> ext = 2 then Some (XNot w rm, bs)
         else if opc = 0xf7 \<and> ext = 3 then Some (XNeg w rm, bs)
         else if opc = 0xf6 \<and> ext = 0 then imm8 (XTestImm8 rm)
         else if opc = 0x80 \<and> ext = 7 then imm8 (XCmpImm8 rm)
         else if opc = 0xc1 \<and> ext = 4 then imm8 (XShl w rm)
         else if opc = 0xc1 \<and> ext = 5 then imm8 (XShr w rm)
         else if opc = 0xff \<and> ext = 4 then Some (XJmpInd rm, bs)
         else None)"

definition decode_rm :: "u8 \<Rightarrow> bool \<Rightarrow> u8 \<Rightarrow> operand \<Rightarrow> u8 list \<Rightarrow> (xinsn \<times> u8 list) option" where
  "decode_rm opc w reg rm bs =
     (if opc = 0x89 then Some (XStore w rm reg, bs)
      else if opc = 0x8b then Some (XLoad w reg rm, bs)
      else if opc = 0x8d \<and> w then Some (XLea reg rm, bs)
      else if opc = 0x01 then Some (XAlu Add w rm reg, bs)
      else if opc = 0x09 then Some (XAlu Or w rm reg, bs)
      else if opc = 0x21 then Some (XAlu And w rm reg, bs)
      else if opc = 0x29 then Some (XAlu Sub w rm reg, bs)
      else if opc = 0x39 then Some (XAlu Cmp w rm reg, bs)
      else if opc = 0x85 then Some (XAlu Test w rm reg, bs)
      else decode_imm opc w reg rm bs)"

definition decode_0f :: "u8 \<Rightarrow> u8 list \<Rightarrow> (xinsn \<times> u8 list) option" where
  "decode_0f pre bs =
     (case bs of [] \<Rightarrow> None
      | opc # bs \<Rightarrow>
          if opc AND 0xf0 = 0x80 then map_option (\<lambda>(d, bs). (XJcc (opc AND 15) d, bs)) (of_le 4 bs)
          else if opc AND 0xf8 = 0xc8 then
            (if bit pre 3 then Some (XBswap ((opc AND 7) OR push_bit 3 (pre AND 1)), bs) else None)
          else if opc = 0xa3 \<and> bit pre 3 then map_option (\<lambda>(reg, rm, bs). (XBt rm reg, bs)) (get_modrm pre bs)
          else if opc = 0x38 \<and> bit pre 3 then
            (case bs of [] \<Rightarrow> None
             | k # bs \<Rightarrow>
                 (case get_modrm pre bs of None \<Rightarrow> None
                  | Some (reg, rm, bs) \<Rightarrow>
                      if k = 0xf0 then Some (XMovbeLoad reg rm, bs)
                      else if k = 0xf1 then Some (XMovbeStore rm reg, bs)
                      else None))
          else None)"

definition decode_op :: "u8 \<Rightarrow> u8 list \<Rightarrow> (xinsn \<times> u8 list) option" where
  "decode_op pre bs =
     (case bs of [] \<Rightarrow> None
      | opc # bs \<Rightarrow>
          if opc = 0x0f then decode_0f pre bs
          else if opc = 0xe9 then map_option (\<lambda>(d, bs). (XJmp d, bs)) (of_le 4 bs)
          else if opc AND 0xf8 = 0xb8 then
            (let r = (opc AND 7) OR push_bit 3 (pre AND 1)
             in if bit pre 3 then map_option (\<lambda>(v, bs). (XMov64 r v, bs)) (of_le 8 bs)
                else map_option (\<lambda>(v, bs). (XMov32 r v, bs)) (of_le 4 bs))
          else (case get_modrm pre bs of None \<Rightarrow> None
                | Some (reg, rm, bs) \<Rightarrow> decode_rm opc (bit pre 3) reg rm bs))"

definition decode :: "u8 list \<Rightarrow> (xinsn \<times> u8 list) option" where
  "decode bs =
     (case bs of [] \<Rightarrow> None
      | b # cs \<Rightarrow> if b AND 0xf0 = 0x40 then decode_op b cs else decode_op 0 bs)"

section \<open>Fields of bytes\<close>

lemma bit_less_16: "r < (16 :: u8) \<Longrightarrow> bit r n \<Longrightarrow> n < 4"
proof (rule ccontr)
  assume r: "r < 16" "bit r n" "\<not> n < 4"
  have "r AND mask 4 = r" using r(1) by (intro less_mask_eq) simp
  then show False using r(2,3) by (metis bit_and_iff bit_mask_iff)
qed

lemma bit_less_4: "r < (4 :: u8) \<Longrightarrow> bit r n \<Longrightarrow> n < 2"
proof (rule ccontr)
  assume r: "r < 4" "bit r n" "\<not> n < 2"
  have "r AND mask 2 = r" using r(1) by (intro less_mask_eq) simp
  then show False using r(2,3) by (metis bit_and_iff bit_mask_iff)
qed

lemma u8_masks: "(7 :: u8) = mask 3" "(1 :: u8) = mask 1"
  by (simp_all add: mask_eq_exp_minus_1)

lemma reg_join: "r < (16 :: u8) \<Longrightarrow> (r AND 7) OR push_bit 3 (drop_bit 3 r) = r"
proof (rule bit_word_eqI)
  fix n assume "r < 16" "n < LENGTH(8)"
  then show "bit ((r AND 7) OR push_bit 3 (drop_bit 3 r)) n = bit r n"
    by (cases "n < 3") (auto simp: u8_masks(1) bit_or_iff bit_and_iff bit_mask_iff bit_push_bit_iff bit_drop_bit_eq)
qed

lemma modrm_fields:
  fixes md reg rm :: u8
  assumes "md < 4"
  defines "m \<equiv> push_bit 6 md OR push_bit 3 (reg AND 7) OR (rm AND 7)"
  shows "drop_bit 6 m = md" "drop_bit 3 m AND 7 = reg AND 7" "m AND 7 = rm AND 7"
proof -
  note bits = u8_masks(1) bit_or_iff bit_and_iff bit_mask_iff bit_push_bit_iff bit_drop_bit_eq
  show "drop_bit 6 m = md"
    unfolding m_def by (rule bit_word_eqI) (use bit_less_4 [OF assms(1)] in \<open>auto simp: bits\<close>)
  show "drop_bit 3 m AND 7 = reg AND 7" unfolding m_def by (rule bit_word_eqI) (auto simp: bits)
  show "m AND 7 = rm AND 7" unfolding m_def by (rule bit_word_eqI) (auto simp: bits)
qed

lemma hi_reg: "r < (16 :: u8) \<Longrightarrow> drop_bit 3 r = 0 \<or> drop_bit 3 r = 1"
proof -
  assume "r < 16"
  then have "unat r < 16" by (simp add: word_less_nat_alt)
  then have "unat (drop_bit 3 r) < 2" by (simp add: drop_bit_eq_div unat_div)
  then have "unat (drop_bit 3 r) = 0 \<or> unat (drop_bit 3 r) = 1" by linarith
  then show ?thesis by (metis unat_0 unat_1 word_unat_eq_iff)
qed

lemma rex_fields:
  fixes w r x b :: u8
  assumes "w = 0 \<or> w = 1" "r < 16" "x < 16" "b < 16"
  defines "v \<equiv> 0x40 OR push_bit 3 w OR push_bit 2 (drop_bit 3 r) OR push_bit 1 (drop_bit 3 x) OR drop_bit 3 b"
  shows "v AND 0xf0 = 0x40" "bit v 3 \<longleftrightarrow> w = 1" "drop_bit 2 v AND 1 = drop_bit 3 r"
    "drop_bit 1 v AND 1 = drop_bit 3 x" "v AND 1 = drop_bit 3 b"
  using assms(1) hi_reg [OF assms(2)] hi_reg [OF assms(3)] hi_reg [OF assms(4)] unfolding v_def
  by (elim disjE; simp)+

definition put :: "u8 list \<Rightarrow> 'a emitter_scheme \<Rightarrow> 'a emitter_scheme" where
  "put bs J = J\<lparr>em_code := em_code J @ bs\<rparr>"

lemma put_simps [simp]: "put [] J = J" "put cs (put bs J) = put (bs @ cs) J" "em_code (put bs J) = em_code J @ bs"
  by (simp_all add: put_def)

lemma e_put: "e8 v J = put [v] J" "e32 w J = put (le_bytes 4 w) J" "e64 x J = put (le_bytes 8 x) J"
  by (simp_all add: put_def e8_def e32_def e64_def)

lemma rexE:
  assumes "w = 0 \<or> w = 1" "r < 16" "x < 16" "b < 16"
  obtains bs pre where "\<And>J :: 'a emitter_scheme. rex w r x b J = put bs J"
    "\<And>opc rest. opc AND 0xf0 \<noteq> 0x40 \<Longrightarrow> decode (bs @ opc # rest) = decode_op pre (opc # rest)"
    "bit pre 3 \<longleftrightarrow> w = 1" "drop_bit 2 pre AND 1 = drop_bit 3 r"
    "drop_bit 1 pre AND 1 = drop_bit 3 x" "pre AND 1 = drop_bit 3 b"
proof -
  define v where "v = 0x40 OR push_bit 3 w OR push_bit 2 (drop_bit 3 r) OR push_bit 1 (drop_bit 3 x) OR drop_bit 3 b"
  note f = rex_fields [OF assms, folded v_def]
  show thesis
  proof (cases "v = 0x40")
    case True
    show thesis
    proof (rule that [of "[]" 0])
      show "rex w r x b J = put [] J" for J :: "'a emitter_scheme"
        unfolding rex_def v_def [symmetric] Let_def using True by simp
    qed (use f True in \<open>simp_all add: decode_def\<close>)
  next
    case False
    show thesis
    proof (rule that [of "[v]" v])
      show "rex w r x b J = put [v] J" for J :: "'a emitter_scheme"
        unfolding rex_def v_def [symmetric] Let_def e_put using False by simp
    qed (use f in \<open>simp_all add: decode_def\<close>)
  qed
qed

lemma of_le_bytes [simp]:
  "of_le 4 (le_bytes 4 (v :: u32) @ rest) = Some (v, rest)" "of_le 8 (le_bytes 8 (w :: u64) @ rest) = Some (w, rest)"
proof -
  have l: "length (le_bytes n x) = n" for n and x :: "'a::len word" by (simp add: le_bytes_def)
  have nth: "(le_bytes n x @ rest) ! i = ucast (drop_bit (8 * i) x)" if "i < n" for n i and x :: "'a::len word"
    using that by (simp add: l nth_append) (simp add: le_bytes_def)
  have "join_bytes (\<lambda>i. (le_bytes 4 v @ rest) ! i) 0 4 = v"
    by (rule bit_word_eqI) (auto simp: bit_join_bytes nth bit_ucast_iff bit_drop_bit_eq)
  moreover have "join_bytes (\<lambda>i. (le_bytes 8 w @ rest) ! i) 0 8 = w"
    by (rule bit_word_eqI) (auto simp: bit_join_bytes nth bit_ucast_iff bit_drop_bit_eq)
  ultimately show "of_le 4 (le_bytes 4 v @ rest) = Some (v, rest)" "of_le 8 (le_bytes 8 w @ rest) = Some (w, rest)"
    by (simp_all add: of_le_def l)
qed

section \<open>What each function emits\<close>

fun asm :: "xinsn list \<Rightarrow> u8 list \<Rightarrow> bool" where
  "asm [] bs \<longleftrightarrow> bs = []"
| "asm (i # is) bs \<longleftrightarrow> (\<exists>b1 b2. bs = b1 @ b2 \<and> (\<forall>rest. decode (b1 @ rest) = Some (i, rest)) \<and> asm is b2)"

lemma asm_append: "asm is bs \<Longrightarrow> asm js cs \<Longrightarrow> asm (is @ js) (bs @ cs)"
proof (induction "is" arbitrary: bs)
  case (Cons i "is")
  then obtain b1 b2 where "bs = b1 @ b2" "\<forall>rest. decode (b1 @ rest) = Some (i, rest)" "asm is b2" by auto
  then show ?case using Cons.IH [of b2] Cons.prems(2) by (auto simp: append_assoc)
qed simp

definition emits :: "'a emitter_scheme \<Rightarrow> 'a emitter_scheme \<Rightarrow> xinsn list \<Rightarrow> bool" where
  "emits J J' is \<longleftrightarrow> (\<exists>bs. J' = put bs J \<and> asm is bs)"

lemma emits_trans: "emits J J1 is \<Longrightarrow> emits J1 J2 js \<Longrightarrow> emits J J2 (is @ js)"
  unfolding emits_def by (auto intro: asm_append)

lemma emitsI: "(\<And>rest. decode (bs @ rest) = Some (i, rest)) \<Longrightarrow> emits J (put bs J) [i]"
proof -
  assume "\<And>rest. decode (bs @ rest) = Some (i, rest)"
  then have "asm [i] bs" by simp
  then show ?thesis unfolding emits_def by blast
qed

text \<open>Opcodes of the plain form, followed by a ModRM byte.\<close>

definition plain_op :: "u8 \<Rightarrow> bool" where
  "plain_op opc \<longleftrightarrow> opc AND 0xf0 \<noteq> 0x40 \<and> opc \<noteq> 0x0f \<and> opc \<noteq> 0xe9 \<and> opc AND 0xf8 \<noteq> 0xb8"

lemma decode_op_plain:
  "plain_op opc \<Longrightarrow> get_modrm pre bs = Some (reg, rm, cs) \<Longrightarrow> decode_op pre (opc # bs) = decode_rm opc (bit pre 3) reg rm cs"
  by (simp add: decode_op_def plain_op_def)

lemma get_modrm_reg:
  assumes "reg < 16" "rm < 16" "drop_bit 2 pre AND 1 = drop_bit 3 reg" "pre AND 1 = drop_bit 3 rm"
  shows "get_modrm pre ((0xc0 OR push_bit 3 (reg AND 7) OR (rm AND 7)) # rest) = Some (reg, Reg rm, rest)"
proof -
  have "(0xc0 :: u8) = push_bit 6 3" by simp
  note f = modrm_fields [of 3 reg rm, folded this, simplified]
  show ?thesis by (simp add: get_modrm_def Let_def f assms reg_join)
qed

lemma mem_operandE:
  assumes "reg < 16" "base < 16" "drop_bit 2 pre AND 1 = drop_bit 3 reg" "drop_bit 1 pre AND 1 = 0" "pre AND 1 = drop_bit 3 base"
  obtains bs where "\<And>J :: 'a emitter_scheme. mem_operand reg base disp J = put bs J"
    "\<And>rest. get_modrm pre (bs @ rest) = Some (reg, Mem base disp, rest)"
proof -
  define md :: u8 where "md = (if disp = 0 \<and> base AND 7 \<noteq> 5 then 0 else if sint disp \<ge> -128 \<and> sint disp \<le> 127 then 1 else 2)"
  define d where "d = (if md = 1 then [ucast disp] else if md = 2 then le_bytes 4 disp else [])"
  define m where "m = push_bit 6 md OR push_bit 3 (reg AND 7) OR (base AND 7)"
  have md: "md < 4" by (simp add: md_def)
  note f = modrm_fields [OF md, of reg base, folded m_def]
  have s: "(scast (ucast disp :: u8) :: i32) = disp" if "md = 1"
  proof -
    have r: "-128 \<le> sint disp" "sint disp \<le> 127" using that by (auto simp: md_def split: if_splits)
    have "sint (ucast disp :: u8) = signed_take_bit 7 (uint disp)" by (simp add: signed_ucast_eq)
    also have "\<dots> = signed_take_bit 7 (sint disp)" by (simp add: sint_uint signed_take_bit_signed_take_bit)
    also have "\<dots> = sint disp" using r by (simp add: signed_take_bit_int_eq_self_iff)
    finally show ?thesis by (simp add: scast_eq)
  qed
  have g: "get_disp md (d @ rest) = Some (disp, rest)" for rest
    using s by (auto simp: get_disp_def d_def get8_def md_def split: if_splits)
  show thesis
  proof (rule that [of "m # (if base AND 7 = 4 then [0x24] else []) @ d"])
    show "mem_operand reg base disp J = put (m # (if base AND 7 = 4 then [0x24] else []) @ d) J"
      for J :: "'a emitter_scheme"
      unfolding mem_operand_def Let_def md_def [symmetric] m_def [symmetric]
      by (simp add: e_put d_def)
    have n: "md \<noteq> 3" "\<not> (md = 0 \<and> base AND 7 = 5)" by (auto simp: md_def)
    have b: "(base AND 7) OR push_bit 3 (drop_bit 3 base) = base" "(reg AND 7) OR push_bit 3 (drop_bit 3 reg) = reg"
      using reg_join assms(1,2) by auto
    show "get_modrm pre ((m # (if base AND 7 = 4 then [0x24] else []) @ d) @ rest) = Some (reg, Mem base disp, rest)" for rest
    proof (cases "base AND 7 = 4")
      case True
      then have "4 OR push_bit 3 (drop_bit 3 base) = base" using b by simp
      then show ?thesis using True n assms(4) [simplified] by (simp add: get_modrm_def Let_def f g assms b push_bit_and)
    next
      case False
      then show ?thesis using n by (auto simp: get_modrm_def Let_def f g assms b)
    qed
  qed
qed

lemma emits_reg_form:
  assumes "w = 0 \<or> w = 1" "reg < 16" "rm < 16" "plain_op opc" "hi < 16" "drop_bit 3 hi = drop_bit 3 reg"
    and "\<And>rest. decode_rm opc (w = 1) reg (Reg rm) (ts @ rest) = Some (i, rest)"
  shows "emits J (put ts (modrm_reg reg rm (e8 opc (rex w hi 0 rm J)))) [i]"
proof -
  obtain bs pre where r: "\<And>J :: 'a emitter_scheme. rex w hi 0 rm J = put bs J"
    "\<And>opc rest. opc AND 0xf0 \<noteq> 0x40 \<Longrightarrow> decode (bs @ opc # rest) = decode_op pre (opc # rest)"
    "bit pre 3 \<longleftrightarrow> w = 1" "drop_bit 2 pre AND 1 = drop_bit 3 hi"
    "drop_bit 1 pre AND 1 = drop_bit 3 0" "pre AND 1 = drop_bit 3 rm"
    by (rule rexE [OF assms(1,5) _ assms(3), of 0]) (simp, rule that)
  have hi: "drop_bit 2 pre AND 1 = drop_bit 3 reg" using r(4) assms(6) by simp
  let ?m = "0xc0 OR push_bit 3 (reg AND 7) OR (rm AND 7)"
  have "decode ((bs @ opc # ?m # ts) @ rest) = Some (i, rest)" for rest
  proof -
    have "decode ((bs @ opc # ?m # ts) @ rest) = decode_op pre (opc # ?m # ts @ rest)"
      using r(2) [of opc "?m # ts @ rest"] assms(4) by (simp add: plain_op_def)
    also have "\<dots> = Some (i, rest)"
      using decode_op_plain [OF assms(4) get_modrm_reg [OF assms(2,3) hi r(6)]] assms(7) r(3) by simp
    finally show ?thesis .
  qed
  from emitsI [OF this, of J] show ?thesis by (simp add: r(1) e_put modrm_reg_def)
qed

lemma emits_mem_form:
  assumes "w = 0 \<or> w = 1" "reg < 16" "base < 16" "plain_op opc"
    and "\<And>rest. decode_rm opc (w = 1) reg (Mem base disp) (ts @ rest) = Some (i, rest)"
  shows "emits J (put ts (mem_operand reg base disp (e8 opc (rex w reg 0 base J)))) [i]"
proof -
  obtain bs pre where r: "\<And>J :: 'a emitter_scheme. rex w reg 0 base J = put bs J"
    "\<And>opc rest. opc AND 0xf0 \<noteq> 0x40 \<Longrightarrow> decode (bs @ opc # rest) = decode_op pre (opc # rest)"
    "bit pre 3 \<longleftrightarrow> w = 1" "drop_bit 2 pre AND 1 = drop_bit 3 reg"
    "drop_bit 1 pre AND 1 = drop_bit 3 0" "pre AND 1 = drop_bit 3 base"
    by (rule rexE [OF assms(1,2) _ assms(3), of 0]) (simp, rule that)
  have x: "drop_bit 1 pre AND 1 = 0" using r(5) by simp
  obtain ms where m: "\<And>J :: 'a emitter_scheme. mem_operand reg base disp J = put ms J"
    "\<And>rest. get_modrm pre (ms @ rest) = Some (reg, Mem base disp, rest)"
    by (rule mem_operandE [OF assms(2,3) r(4) x r(6), of disp]) (rule that)
  have "decode ((bs @ opc # ms @ ts) @ rest) = Some (i, rest)" for rest
  proof -
    have "decode ((bs @ opc # ms @ ts) @ rest) = decode_op pre (opc # ms @ ts @ rest)"
      using r(2) [of opc "ms @ ts @ rest"] assms(4) by (simp add: plain_op_def)
    also have "\<dots> = Some (i, rest)"
      using decode_op_plain [OF assms(4) m(2)] assms(5) r(3) by simp
    finally show ?thesis .
  qed
  from emitsI [OF this, of J] show ?thesis by (simp add: r(1) m(1) e_put)
qed

lemmas emits_reg0 = emits_reg_form [where ts = "[]", unfolded put_simps append_Nil]
lemmas emits_reg8 = emits_reg_form [where ts = "[n]" for n, folded e_put]
lemmas emits_reg32 = emits_reg_form [where ts = "le_bytes 4 v" for v :: u32, folded e_put]
lemmas emits_mem0 = emits_mem_form [where ts = "[]", unfolded put_simps append_Nil]
lemmas emits_mem8 = emits_mem_form [where ts = "[n]" for n, folded e_put]
lemmas emits_mem32 = emits_mem_form [where ts = "le_bytes 4 v" for v :: u32, folded e_put]
lemmas decode_simps = decode_rm_def decode_imm_def plain_op_def get8_def

named_theorems emit_intros \<open>what an emitter function emits\<close>

lemma emits_rr [emit_intros]:
  assumes "a < 16" "b < 16"
  shows "emits J (mov_rr a b J) [XStore True (Reg a) b]" "emits J (sub_rr a b J) [XAlu Sub True (Reg a) b]"
    "emits J (test_rr a b J) [XAlu Test True (Reg a) b]" "emits J (or_rr a b J) [XAlu Or True (Reg a) b]"
    "emits J (and_rr a b J) [XAlu And True (Reg a) b]"
  by (unfold mov_rr_def sub_rr_def test_rr_def or_rr_def and_rr_def Let_def)
    (rule emits_reg0; simp add: assms decode_simps)+

lemma emits_r [emit_intros]:
  assumes "r < 16"
  shows "emits J (neg_r r J) [XNeg True (Reg r)]" "emits J (jmp_r r J) [XJmpInd (Reg r)]"
  by (unfold neg_r_def jmp_r_def Let_def) (rule emits_reg0; simp add: assms decode_simps)+

lemma emits_shift [emit_intros]:
  assumes "r < 16"
  shows "emits J (shr_ri r n J) [XShr True (Reg r) n]" "emits J (shl_ri r n J) [XShl True (Reg r) n]"
  by (unfold shr_ri_def shl_ri_def Let_def) (rule emits_reg8; simp add: assms decode_simps)+

lemma emits_alu_imm [emit_intros]:
  assumes "r < 16"
  shows "emits J (alu_imm 0 r v J) [XAluImm Add True (Reg r) v]" "emits J (alu_imm 4 r v J) [XAluImm And True (Reg r) v]"
    "emits J (alu_imm 5 r v J) [XAluImm Sub True (Reg r) v]"
  by (unfold alu_imm_def Let_def) (rule emits_reg32; simp add: assms decode_simps)+

lemma emits_mem [emit_intros]:
  assumes "r < 16" "base < 16"
  shows "emits J (op_mem 0x8b r base disp J) [XLoad True r (Mem base disp)]"
    "emits J (op_mem 0x89 r base disp J) [XStore True (Mem base disp) r]"
    "emits J (op_mem 0x8d r base disp J) [XLea r (Mem base disp)]"
  by (unfold op_mem_def Let_def) (rule emits_mem0; simp add: assms decode_simps)+

lemma rex_operands:
  assumes "w = 0 \<or> w = 1" "r < 16" "x < 16" "b < 16"
  obtains bs pre where "\<And>J :: 'a emitter_scheme. rex w r x b J = put bs J"
    "\<And>opc rest. opc AND 0xf0 \<noteq> 0x40 \<Longrightarrow> decode (bs @ opc # rest) = decode_op pre (opc # rest)"
    "bit pre 3 \<longleftrightarrow> w = 1" "(r AND 7) OR push_bit 3 (drop_bit 2 pre AND 1) = r"
    "(x AND 7) OR push_bit 3 (drop_bit 1 pre AND 1) = x" "(b AND 7) OR push_bit 3 (pre AND 1) = b"
    "drop_bit 2 pre AND 1 = drop_bit 3 r" "drop_bit 1 pre AND 1 = drop_bit 3 x" "pre AND 1 = drop_bit 3 b"
proof (rule rexE [OF assms])
  fix bs pre
  assume a: "\<And>J :: 'a emitter_scheme. rex w r x b J = put bs J"
    "\<And>opc rest. opc AND 0xf0 \<noteq> 0x40 \<Longrightarrow> decode (bs @ opc # rest) = decode_op pre (opc # rest)"
    "bit pre 3 \<longleftrightarrow> w = 1" and f: "drop_bit 2 pre AND 1 = drop_bit 3 r"
    "drop_bit 1 pre AND 1 = drop_bit 3 x" "pre AND 1 = drop_bit 3 b"
  show thesis
  proof (rule that)
    show "rex w r x b J = put bs J" for J :: "'a emitter_scheme" by (rule a)
    show "decode (bs @ opc # rest) = decode_op pre (opc # rest)" if "opc AND 0xf0 \<noteq> 0x40" for opc rest
      using that by (rule a)
    show "bit pre 3 \<longleftrightarrow> w = 1" by (rule a)
  qed (simp_all only: f reg_join assms)
qed

lemma emits_movbe [emit_intros]:
  assumes "r < 16" "base < 16"
  shows "emits J (movbe_mem False r base disp J) [XMovbeLoad r (Mem base disp)]"
    "emits J (movbe_mem True r base disp J) [XMovbeStore (Mem base disp) r]"
proof -
  obtain bs pre where r: "\<And>J :: 'a emitter_scheme. rex 1 r 0 base J = put bs J"
    "\<And>opc rest. opc AND 0xf0 \<noteq> 0x40 \<Longrightarrow> decode (bs @ opc # rest) = decode_op pre (opc # rest)"
    "bit pre 3 \<longleftrightarrow> (1 :: u8) = 1" and f: "drop_bit 2 pre AND 1 = drop_bit 3 r"
    "drop_bit 1 pre AND 1 = drop_bit 3 0" "pre AND 1 = drop_bit 3 base"
    by (rule rexE [OF _ assms(1) _ assms(2), of 1 0]) (simp, simp, rule that)
  have x: "drop_bit 1 pre AND 1 = 0" using f(2) by simp
  obtain ms where m: "\<And>J :: 'a emitter_scheme. mem_operand r base disp J = put ms J"
    "\<And>rest. get_modrm pre (ms @ rest) = Some (r, Mem base disp, rest)"
    by (rule mem_operandE [OF assms f(1) x f(3), of disp]) (rule that)
  have "decode ((bs @ 0x0f # 0x38 # k # ms) @ rest) =
      (if k = 0xf0 then Some (XMovbeLoad r (Mem base disp), rest)
       else if k = 0xf1 then Some (XMovbeStore (Mem base disp) r, rest) else None)" for k rest
    using r(2) [of "0x0f" "0x38 # k # ms @ rest"] r(3) m(2) [of rest]
    by (simp add: decode_op_def decode_0f_def del: One_nat_def)
  then show "emits J (movbe_mem False r base disp J) [XMovbeLoad r (Mem base disp)]"
    "emits J (movbe_mem True r base disp J) [XMovbeStore (Mem base disp) r]"
    using emitsI [of "bs @ 0x0f # 0x38 # 0xf0 # ms" _ J] emitsI [of "bs @ 0x0f # 0x38 # 0xf1 # ms" _ J]
    by (simp_all add: movbe_mem_def Let_def r(1) m(1) e_put)
qed

lemma reg_cases:
  assumes "r < (16 :: u8)"
  shows "r \<in> {0, 1, 2, 3, 4, 5, 6, 7, 8, 9, 10, 11, 12, 13, 14, 15}"
proof -
  have "unat r < 16" using assms by (simp add: word_less_nat_alt)
  then have "unat r \<in> {unat (0 :: u8), unat (1 :: u8), unat (2 :: u8), unat (3 :: u8), unat (4 :: u8), unat (5 :: u8),
      unat (6 :: u8), unat (7 :: u8), unat (8 :: u8), unat (9 :: u8), unat (10 :: u8), unat (11 :: u8),
      unat (12 :: u8), unat (13 :: u8), unat (14 :: u8), unat (15 :: u8)}" by simp arith
  then show ?thesis by (simp only: insert_iff empty_iff word_unat_eq_iff [symmetric])
qed

lemma low3_cases: "(r :: u8) AND 7 \<in> {0, 1, 2, 3, 4, 5, 6, 7}"
proof -
  have "r AND 7 < 8" using word_and_le1 [of r 7] by (rule order.strict_trans1) simp
  then have "unat (r AND 7) < 8" by (simp add: word_less_nat_alt)
  then have "unat (r AND 7) \<in> {unat (0 :: u8), unat (1 :: u8), unat (2 :: u8), unat (3 :: u8), unat (4 :: u8),
      unat (5 :: u8), unat (6 :: u8), unat (7 :: u8)}" by auto
  then show ?thesis by (simp only: insert_iff empty_iff word_unat_eq_iff [symmetric])
qed

lemma emits_bswap [emit_intros]:
  assumes "r < 16"
  shows "emits J (bswap r J) [XBswap r]"
proof -
  obtain bs pre where r: "\<And>J :: 'a emitter_scheme. rex 1 0 0 r J = put bs J"
    "\<And>opc rest. opc AND 0xf0 \<noteq> 0x40 \<Longrightarrow> decode (bs @ opc # rest) = decode_op pre (opc # rest)"
    "bit pre 3 \<longleftrightarrow> (1 :: u8) = 1" "(0 AND 7) OR push_bit 3 (drop_bit 2 pre AND 1) = (0 :: u8)"
    "(0 AND 7) OR push_bit 3 (drop_bit 1 pre AND 1) = (0 :: u8)" "(r AND 7) OR push_bit 3 (pre AND 1) = r"
    by (rule rex_operands [OF _ _ _ assms, of 1 0 0]) (simp, simp, simp, rule that)
  have "r AND 7 \<in> {0, 1, 2, 3, 4, 5, 6, 7}" by (rule low3_cases)
  then have o: "(0xc8 + (r AND 7)) AND 0xf0 \<noteq> 0x80" "(0xc8 + (r AND 7)) AND 0xf8 = 0xc8" "(0xc8 + (r AND 7)) AND 7 = r AND 7"
    by auto
  have "decode ((bs @ [0x0f, 0xc8 + (r AND 7)]) @ rest) = Some (XBswap r, rest)" for rest
    using r(2) [of "0x0f" "(0xc8 + (r AND 7)) # rest"] r(3)
    by (simp only: decode_op_def decode_0f_def list.case o r(6)) (simp del: One_nat_def)
  from emitsI [OF this, of J] show ?thesis by (simp add: bswap_def r(1) e_put)
qed

lemma emits_bt [emit_intros]:
  assumes "base < 16" "b < 16"
  shows "emits J (bt_rr base b J) [XBt (Reg base) b]"
proof -
  obtain bs pre where r: "\<And>J :: 'a emitter_scheme. rex 1 b 0 base J = put bs J"
    "\<And>opc rest. opc AND 0xf0 \<noteq> 0x40 \<Longrightarrow> decode (bs @ opc # rest) = decode_op pre (opc # rest)"
    "bit pre 3 \<longleftrightarrow> (1 :: u8) = 1" and f: "drop_bit 2 pre AND 1 = drop_bit 3 b"
    "drop_bit 1 pre AND 1 = drop_bit 3 0" "pre AND 1 = drop_bit 3 base"
    by (rule rexE [OF _ assms(2) _ assms(1), of 1 0]) (simp, simp, rule that)
  let ?m = "0xc0 OR push_bit 3 (b AND 7) OR (base AND 7)"
  have "decode ((bs @ [0x0f, 0xa3, ?m]) @ rest) = Some (XBt (Reg base) b, rest)" for rest
    using r(2) [of "0x0f" "0xa3 # ?m # rest"] r(3) get_modrm_reg [OF assms(2,1) f(1,3), of rest]
    by (simp add: decode_op_def decode_0f_def del: One_nat_def)
  from emitsI [OF this, of J] show ?thesis by (simp add: bt_rr_def r(1) e_put modrm_reg_def)
qed

text \<open>The three forms of loading a constant.\<close>

definition mov_imm_insn :: "u8 \<Rightarrow> u64 \<Rightarrow> xinsn" where
  "mov_imm_insn r v =
     (if v \<le> 0xffffffff then XMov32 r (ucast v)
      else if is_imm32 v then XMovImm True (Reg r) (ucast v)
      else XMov64 r v)"

lemma emits_mov_imm [emit_intros]:
  assumes "r < 16"
  shows "emits J (mov_imm r v J) [mov_imm_insn r v]"
proof -
  have o: "(0xb8 + (r AND 7)) AND 0xf0 \<noteq> 0x40" "0xb8 + (r AND 7) \<noteq> 0x0f" "0xb8 + (r AND 7) \<noteq> 0xe9"
    "(0xb8 + (r AND 7)) AND 0xf8 = 0xb8" "(0xb8 + (r AND 7)) AND 7 = r AND 7"
    using low3_cases [of r] by auto
  obtain b0 p0 where r0: "\<And>J :: 'a emitter_scheme. rex 0 0 0 r J = put b0 J"
    "\<And>opc rest. opc AND 0xf0 \<noteq> 0x40 \<Longrightarrow> decode (b0 @ opc # rest) = decode_op p0 (opc # rest)"
    "bit p0 3 \<longleftrightarrow> (0 :: u8) = 1" "(0 AND 7) OR push_bit 3 (drop_bit 2 p0 AND 1) = (0 :: u8)"
    "(0 AND 7) OR push_bit 3 (drop_bit 1 p0 AND 1) = (0 :: u8)" "(r AND 7) OR push_bit 3 (p0 AND 1) = r"
    by (rule rex_operands [OF _ _ _ assms, of 0 0 0]) (simp, simp, simp, rule that)
  obtain b1 p1 where r1: "\<And>J :: 'a emitter_scheme. rex 1 0 0 r J = put b1 J"
    "\<And>opc rest. opc AND 0xf0 \<noteq> 0x40 \<Longrightarrow> decode (b1 @ opc # rest) = decode_op p1 (opc # rest)"
    "bit p1 3 \<longleftrightarrow> (1 :: u8) = 1" "(0 AND 7) OR push_bit 3 (drop_bit 2 p1 AND 1) = (0 :: u8)"
    "(0 AND 7) OR push_bit 3 (drop_bit 1 p1 AND 1) = (0 :: u8)" "(r AND 7) OR push_bit 3 (p1 AND 1) = r"
    by (rule rex_operands [OF _ _ _ assms, of 1 0 0]) (simp, simp, simp, rule that)
  have d: "decode ((b0 @ (0xb8 + (r AND 7)) # le_bytes 4 w) @ rest) = Some (XMov32 r w, rest)"
    "decode ((b1 @ (0xb8 + (r AND 7)) # le_bytes 8 v) @ rest) = Some (XMov64 r v, rest)" for w rest
    using r0(2) [OF o(1), of "le_bytes 4 w @ rest"] r0(3) r1(2) [OF o(1), of "le_bytes 8 v @ rest"] r1(3)
    by (simp_all add: decode_op_def o r0(6) [simplified] r1(6) [simplified] Let_def)
  have m: "emits J (e32 (ucast v) (modrm_reg 0 r (e8 0xc7 (rex 1 0 0 r J)))) [XMovImm True (Reg r) (ucast v)]"
    by (rule emits_reg32; simp add: assms decode_simps)
  show ?thesis
    using emitsI [OF d(1) [where w = "ucast v"], of J] emitsI [OF d(2), of J] m
    by (simp add: mov_imm_def mov_imm_insn_def Let_def r0(1) r1(1) e_put)
qed

lemma emits_jcc [emit_intros]:
  assumes "cc < 16"
  shows "emits J (snd (jcc32 cc J)) [XJcc cc 0]" "fst (jcc32 cc J) + 4 = length (em_code (snd (jcc32 cc J)))"
proof -
  have c: "(0x80 + cc) AND 0xf0 = 0x80" "(0x80 + cc) AND 15 = cc"
    using reg_cases [OF assms] by auto
  have "decode ((0x0f # (0x80 + cc) # le_bytes 4 (0 :: u32)) @ rest) = Some (XJcc cc 0, rest)" for rest
    by (simp add: decode_def decode_op_def decode_0f_def c)
  from emitsI [OF this, of J] show "emits J (snd (jcc32 cc J)) [XJcc cc 0]"
    by (simp add: jcc32_def Let_def e_put)
qed (simp add: jcc32_def Let_def e_put le_bytes_def)

lemma emits_jmp [emit_intros]:
  "emits J (snd (jmp32 J)) [XJmp 0]" "fst (jmp32 J) + 4 = length (em_code (snd (jmp32 J)))"
proof -
  have "decode ((0xe9 # le_bytes 4 (0 :: u32)) @ rest) = Some (XJmp 0, rest)" for rest
    by (simp add: decode_def decode_op_def)
  from emitsI [OF this, of J] show "emits J (snd (jmp32 J)) [XJmp 0]"
    by (simp add: jmp32_def Let_def e_put)
qed (simp add: jmp32_def Let_def e_put le_bytes_def)

lemma emits_load_sib8 [emit_intros]:
  assumes "r < 16" "base < 16" "index < 16" "index \<noteq> 4" "base AND 7 \<noteq> 5"
  shows "emits J (load_sib8 r base index J) [XLoad True r (Sib base index 3 0)]"
proof -
  obtain bs pre where r: "\<And>J :: 'a emitter_scheme. rex 1 r index base J = put bs J"
    "\<And>opc rest. opc AND 0xf0 \<noteq> 0x40 \<Longrightarrow> decode (bs @ opc # rest) = decode_op pre (opc # rest)"
    "bit pre 3 \<longleftrightarrow> (1 :: u8) = 1" and f: "(r AND 7) OR push_bit 3 (drop_bit 2 pre AND 1) = r"
    "(index AND 7) OR push_bit 3 (drop_bit 1 pre AND 1) = index" "(base AND 7) OR push_bit 3 (pre AND 1) = base"
    by (rule rex_operands [OF _ assms(1,3,2), of 1]) (simp, rule that)
  let ?m = "0x04 OR push_bit 3 (r AND 7)" and ?s = "0xc0 OR push_bit 3 (index AND 7) OR (base AND 7)"
  have m: "drop_bit 6 ?m = 0" "drop_bit 3 ?m AND 7 = r AND 7" "?m AND 7 = 4"
    using modrm_fields [of 0 r 4] by (simp_all add: or.commute)
  have c: "(0xc0 :: u8) = push_bit 6 3" by simp
  have s: "drop_bit 6 ?s = 3" "drop_bit 3 ?s AND 7 = index AND 7" "?s AND 7 = base AND 7"
    using modrm_fields [of 3 index base] unfolding c by simp_all
  have "get_modrm pre (?m # ?s # rest) = Some (r, Sib base index 3 0, rest)" for rest
    unfolding get_modrm_def list.case Let_def m s f using assms(4,5) by (simp add: get_disp_def)
  then have "decode ((bs @ [0x8b, ?m, ?s]) @ rest) = Some (XLoad True r (Sib base index 3 0), rest)" for rest
    using r(2) [of "0x8b" "?m # ?s # rest"] r(3) decode_op_plain [of "0x8b" pre]
    by (simp add: decode_simps)
  from emitsI [OF this, of J] show ?thesis by (simp add: load_sib8_def Let_def r(1) e_put)
qed

lemma emits_cmp_byte_zero [emit_intros]:
  assumes "base < 16" "index < 16" "index \<noteq> 4"
  shows "emits J (cmp_byte_zero base index disp J) [XCmpImm8 (Sib base index 0 disp) 0]"
proof -
  obtain bs pre where r: "\<And>J :: 'a emitter_scheme. rex 0 0 index base J = put bs J"
    "\<And>opc rest. opc AND 0xf0 \<noteq> 0x40 \<Longrightarrow> decode (bs @ opc # rest) = decode_op pre (opc # rest)"
    "bit pre 3 \<longleftrightarrow> (0 :: u8) = 1" and f: "(0 AND 7) OR push_bit 3 (drop_bit 2 pre AND 1) = (0 :: u8)"
    "(index AND 7) OR push_bit 3 (drop_bit 1 pre AND 1) = index" "(base AND 7) OR push_bit 3 (pre AND 1) = base"
    and z: "drop_bit 2 pre AND 1 = drop_bit 3 0"
    by (rule rex_operands [OF _ _ assms(2,1), of 0 0]) (simp, simp, rule that)
  let ?s = "push_bit 3 (index AND 7) OR (base AND 7)"
  have s: "drop_bit 6 ?s = 0" "drop_bit 3 ?s AND 7 = index AND 7" "?s AND 7 = base AND 7"
    using modrm_fields [of 0 index base] by simp_all
  have m: "drop_bit 6 (0xbc :: u8) = 2" "drop_bit 3 (0xbc :: u8) AND 7 = 7" "(0xbc :: u8) AND 7 = 4" by simp_all
  have e: "(7 :: u8) OR push_bit 3 (drop_bit 2 pre AND 1) = 7" using z by simp
  have g: "get_modrm pre (0xbc # ?s # le_bytes 4 disp @ rest) = Some (7, Sib base index 0 disp, rest)" for rest
    unfolding get_modrm_def list.case Let_def m s f e using assms(3) by (simp add: get_disp_def)
  have "decode ((bs @ 0x80 # 0xbc # ?s # le_bytes 4 disp @ [0]) @ rest) = Some (XCmpImm8 (Sib base index 0 disp) 0, rest)" for rest
    using r(2) [of "0x80" "0xbc # ?s # le_bytes 4 disp @ 0 # rest"] r(3) decode_op_plain [of "0x80" pre, OF _ g [of "0 # rest"]]
    by (simp add: decode_simps)
  from emitsI [OF this, of J] show ?thesis by (simp add: cmp_byte_zero_def Let_def r(1) e_put)
qed

lemma emits_test_bitmap [emit_intros]:
  "emits J (test_bitmap w J) [XTestImm8 (Mem R14 (ucast (drop_bit 3 w))) (push_bit (unat (w AND 7)) 1)]"
  by (unfold test_bitmap_def Let_def) (rule emits_mem8; simp add: reg_defs decode_simps)

lemma emits_exit_to [emit_intros]:
  "emits J (exit_to eip info J) [mov_imm_insn R13 eip, mov_imm_insn RBX (ucast info), XJmpInd (Reg R12)]"
proof -
  have r: "R13 < 16" "RBX < 16" "R12 < 16" by (simp_all add: reg_defs)
  show ?thesis
    using emits_trans [OF emits_trans [OF emits_mov_imm [OF r(1)] emits_mov_imm [OF r(2)]] emits_r(2) [OF r(3)]]
    by (simp add: exit_to_def Let_def)
qed



end
