(* ===== verification/Reg_Cache.thy ===== *)
theory Reg_Cache
  imports X86_Emit Jit_Blocks Copy_Loop "HOL-Library.Monad_Syntax"
begin

text \<open>
  The translator's register cache (jit.c): which registers hold the values of which words, which
  words are known constants or stand for a register's value or its negation, and the store held
  back. The functions emit code as they go. \<open>None\<close> is running out of registers, where the source
  would index its table by -1.
\<close>

section \<open>State\<close>

definition BIAS :: u64 where "BIAS = 0x80000000"
definition NREGS :: nat where "NREGS = 11"
definition NCONST :: nat where "NCONST = 16"
definition NALIAS :: nat where "NALIAS = 16"

record creg =
  cr_used :: bool
  cr_addr :: u64
  cr_pinned :: bool
  cr_lru :: u32

text \<open>\<open>cval_t\<close> by its \<open>kind\<close>: none, a register, a constant, a register's negation.\<close>

datatype cval = VNone | VReg u8 | VConst u64 | VNeg u8

record cconst =
  cc_used :: bool
  cc_addr :: u64
  cc_val :: u64

record calias =
  ca_used :: bool
  ca_addr :: u64
  ca_reg :: u8
  ca_neg :: bool

record pending =
  pd_val :: cval
  pd_addr :: u64

record stub =
  sb_dyn :: bool
  sb_site :: nat
  sb_target :: u64
  sb_idx :: nat
  sb_creg :: "u8 option"
  sb_pend :: pending

text \<open>\<open>rb\<close>, \<open>t1\<close>, \<open>t2\<close> and \<open>back\<close> of a check that is \<open>precise\<close>.\<close>

record smc =
  sm_site :: nat
  sm_idx :: nat
  sm_pend :: pending
  sm_precise :: "(u8 \<times> u8 \<times> u8 \<times> nat) option"

record trans = emitter +
  t_pend :: bool
  t_pend_addr :: u64
  t_flags_live :: bool
  t_regs :: "nat \<Rightarrow> creg"
  t_lru_clock :: u32
  t_consts :: "nat \<Rightarrow> cconst"
  t_const_next :: u32
  t_aliases :: "nat \<Rightarrow> calias"
  t_alias_next :: u32
  t_stubs :: "stub list"
  t_smcs :: "smc list"
  t_movbe :: bool

definition alloc_regs :: "u8 list" where
  "alloc_regs = [RAX, RCX, RDX, RBX, RSI, RDI, R8, R9, R10, R11, R13]"

definition cacheable :: "u64 \<Rightarrow> bool" where
  "cacheable a \<longleftrightarrow> a AND 7 = 0 \<and> (a < HW_LO \<or> a \<ge> HW_HI)"

definition reg_index :: "u8 \<Rightarrow> nat option" where
  "reg_index r = find_from (\<lambda>i. alloc_regs ! i = r) 0 NREGS"

section \<open>Entries\<close>

definition upd_reg :: "nat \<Rightarrow> (creg \<Rightarrow> creg) \<Rightarrow> trans \<Rightarrow> trans" where
  "upd_reg i f J = J\<lparr>t_regs := (t_regs J)(i := f (t_regs J i))\<rparr>"

definition cache_drop :: "u64 \<Rightarrow> trans \<Rightarrow> trans" where
  "cache_drop a J =
     J\<lparr>t_regs := (\<lambda>i. let R = t_regs J i in if i < NREGS \<and> cr_used R \<and> cr_addr R = a then R\<lparr>cr_used := False\<rparr> else R),
       t_consts := (\<lambda>i. let C = t_consts J i in if i < NCONST \<and> cc_used C \<and> cc_addr C = a then C\<lparr>cc_used := False\<rparr> else C),
       t_aliases := (\<lambda>i. let A = t_aliases J i in if i < NALIAS \<and> ca_used A \<and> ca_addr A = a then A\<lparr>ca_used := False\<rparr> else A)\<rparr>"

definition cache_drop_all :: "trans \<Rightarrow> trans" where
  "cache_drop_all J =
     J\<lparr>t_regs := (\<lambda>i. if i < NREGS then t_regs J i\<lparr>cr_used := False\<rparr> else t_regs J i),
       t_consts := (\<lambda>i. if i < NCONST then t_consts J i\<lparr>cc_used := False\<rparr> else t_consts J i),
       t_aliases := (\<lambda>i. if i < NALIAS then t_aliases J i\<lparr>ca_used := False\<rparr> else t_aliases J i)\<rparr>"

text \<open>Register \<open>i\<close> of the table was used just now.\<close>

definition touch :: "nat \<Rightarrow> trans \<Rightarrow> trans" where
  "touch i J = upd_reg i (\<lambda>R. R\<lparr>cr_lru := t_lru_clock J + 1\<rparr>) (J\<lparr>t_lru_clock := t_lru_clock J + 1\<rparr>)"

definition cache_find :: "u64 \<Rightarrow> trans \<Rightarrow> cval \<times> trans" where
  "cache_find a J =
     (if \<not> cacheable a then (VNone, J)
      else case find_from (\<lambda>i. cc_used (t_consts J i) \<and> cc_addr (t_consts J i) = a) 0 NCONST of
             Some i \<Rightarrow> (VConst (cc_val (t_consts J i)), J)
           | None \<Rightarrow>
      (case find_from (\<lambda>i. cr_used (t_regs J i) \<and> cr_addr (t_regs J i) = a) 0 NREGS of
         Some i \<Rightarrow> (VReg (alloc_regs ! i), touch i J)
       | None \<Rightarrow>
      (case find_from (\<lambda>i. ca_used (t_aliases J i) \<and> ca_addr (t_aliases J i) = a) 0 NALIAS of
         Some i \<Rightarrow>
           (let r = ca_reg (t_aliases J i)
            in (if ca_neg (t_aliases J i) then VNeg r else VReg r,
                case reg_index r of Some k \<Rightarrow> touch k J | None \<Rightarrow> J))
       | None \<Rightarrow> (VNone, J))))"

definition aliased :: "trans \<Rightarrow> u8 \<Rightarrow> bool" where
  "aliased J r \<longleftrightarrow> find_from (\<lambda>i. ca_used (t_aliases J i) \<and> ca_reg (t_aliases J i) = r) 0 NALIAS \<noteq> None"

definition set_const :: "u64 \<Rightarrow> u64 \<Rightarrow> trans \<Rightarrow> trans" where
  "set_const a val J =
     (let J = cache_drop a J; C = \<lparr>cc_used = True, cc_addr = a, cc_val = val\<rparr>
      in if \<not> cacheable a then J
         else case find_from (\<lambda>i. \<not> cc_used (t_consts J i)) 0 NCONST of
                Some i \<Rightarrow> J\<lparr>t_consts := (t_consts J)(i := C)\<rparr>
              | None \<Rightarrow> J\<lparr>t_const_next := t_const_next J + 1,
                          t_consts := (t_consts J)(unat (t_const_next J) mod NCONST := C)\<rparr>)"

definition pin :: "u8 \<Rightarrow> trans \<Rightarrow> trans" where
  "pin r J = (case reg_index r of Some i \<Rightarrow> upd_reg i (\<lambda>R. R\<lparr>cr_pinned := True\<rparr>) J | None \<Rightarrow> J)"

definition unpin :: "u8 \<Rightarrow> trans \<Rightarrow> trans" where
  "unpin r J = (case reg_index r of Some i \<Rightarrow> upd_reg i (\<lambda>R. R\<lparr>cr_pinned := False\<rparr>) J | None \<Rightarrow> J)"

text \<open>\<open>v.kind & 1\<close>: pinning the register of a value or a negation.\<close>

definition pin_val :: "cval \<Rightarrow> trans \<Rightarrow> trans" where
  "pin_val v J = (case v of VReg r \<Rightarrow> pin r J | VNeg r \<Rightarrow> pin r J | _ \<Rightarrow> J)"

section \<open>Taking registers\<close>

text \<open>
  \<open>release\<close> flushes the store held back, and flushing takes registers, which releases them: the
  functions below have the one they call next as an argument, and are tied together after
  \<open>flush_pending\<close>, which holds nothing back while it runs.
\<close>

definition release_with :: "(trans \<Rightarrow> trans option) \<Rightarrow> u8 \<Rightarrow> trans \<Rightarrow> trans option" where
  "release_with fl r J = do {
     J \<leftarrow> (if t_pend J
           then (let (v, J) = cache_find (t_pend_addr J) J
                 in if v = VReg r \<or> v = VNeg r then fl J else Some J)
           else Some J);
     let J = (case reg_index r of Some i \<Rightarrow> upd_reg i (\<lambda>R. R\<lparr>cr_used := False\<rparr>) J | None \<Rightarrow> J);
     Some (J\<lparr>t_aliases := (\<lambda>i. let A = t_aliases J i in if i < NALIAS \<and> ca_used A \<and> ca_reg A = r then A\<lparr>ca_used := False\<rparr> else A)\<rparr>)
   }"

text \<open>The first free register, or else the least recently used, among those not pinned.\<close>

fun pick_reg :: "trans \<Rightarrow> nat option \<Rightarrow> nat list \<Rightarrow> nat option" where
  "pick_reg J best [] = best"
| "pick_reg J best (i # is) =
     (if cr_pinned (t_regs J i) then pick_reg J best is
      else if \<not> cr_used (t_regs J i) \<and> \<not> aliased J (alloc_regs ! i) then Some i
      else pick_reg J (case best of None \<Rightarrow> Some i
                       | Some k \<Rightarrow> if cr_lru (t_regs J i) < cr_lru (t_regs J k) then Some i else Some k) is)"

definition scratch_with :: "(u8 \<Rightarrow> trans \<Rightarrow> trans option) \<Rightarrow> trans \<Rightarrow> (u8 \<times> trans) option" where
  "scratch_with rel J =
     (case pick_reg J None [0..<NREGS] of
        None \<Rightarrow> None
      | Some best \<Rightarrow> do {
          J \<leftarrow> rel (alloc_regs ! best) (upd_reg best (\<lambda>R. R\<lparr>cr_pinned := True\<rparr>) J);
          Some (alloc_regs ! best, J)
        })"

definition bind_reg :: "u8 \<Rightarrow> u64 \<Rightarrow> trans \<Rightarrow> trans" where
  "bind_reg r a J =
     (if \<not> cacheable a then J
      else let J = cache_drop a J
           in case reg_index r of
                Some i \<Rightarrow> touch i (upd_reg i (\<lambda>R. R\<lparr>cr_used := True, cr_addr := a\<rparr>) J)
              | None \<Rightarrow> J)"

section \<open>Loads and stores\<close>

definition fits_disp :: "u64 \<Rightarrow> bool" where
  "fits_disp a \<longleftrightarrow> a < push_bit 1 BIAS"

definition disp_of :: "u64 \<Rightarrow> i32" where
  "disp_of a = ucast (a - BIAS)"

definition load_mem :: "u8 \<Rightarrow> u8 \<Rightarrow> i32 \<Rightarrow> trans \<Rightarrow> trans" where
  "load_mem r base disp J =
     (if t_movbe J then movbe_mem False r base disp J
      else let J = op_mem 0x8b r base disp J in bswap r J)"

definition load_static :: "u8 \<Rightarrow> u64 \<Rightarrow> trans \<Rightarrow> trans" where
  "load_static r a J =
     (if fits_disp a then load_mem r R15 (disp_of a) J
      else let J = mov_imm r a J in load_mem r r 0 J)"

definition negate :: "u8 \<Rightarrow> trans \<Rightarrow> trans" where
  "negate r J =
     (if \<not> t_flags_live J then neg_r r J
      else let J = rex 1 0 0 r J; J = e8 0xf7 J; J = modrm_reg 2 r J in op_mem 0x8d r r 1 J)"

definition to_reg_with :: "(trans \<Rightarrow> (u8 \<times> trans) option) \<Rightarrow> cval \<Rightarrow> trans \<Rightarrow> (u8 \<times> trans) option" where
  "to_reg_with sc v J =
     (case v of
        VReg r \<Rightarrow> Some (r, J)
      | VNeg q \<Rightarrow> do {
          (r, J) \<leftarrow> sc (pin q J);
          Some (r, negate r (mov_rr r q J))
        }
      | VConst c \<Rightarrow> do { (r, J) \<leftarrow> sc J; Some (r, mov_imm r c J) }
      | VNone \<Rightarrow> do { (r, J) \<leftarrow> sc J; Some (r, mov_imm r 0 J) })"

text \<open>\<open>base\<close> is used for a dynamic address only.\<close>

definition store_reg_with :: "(trans \<Rightarrow> (u8 \<times> trans) option) \<Rightarrow> u8 \<Rightarrow> bool \<Rightarrow> u64 \<Rightarrow> u8 \<Rightarrow> trans \<Rightarrow> trans option" where
  "store_reg_with sc r dyn a base J = do {
     (base, disp, J) \<leftarrow>
       (if dyn then Some (base, 0, J)
        else if fits_disp a then Some (R15, disp_of a, J)
        else do { (base, J) \<leftarrow> sc J; Some (base, 0, mov_imm base a J) });
     if t_movbe J then Some (movbe_mem True r base disp J)
     else do {
       (t, J) \<leftarrow> sc J;
       let J = mov_rr t r J;
       let J = bswap t J;
       Some (op_mem 0x89 t base disp J)
     }
   }"

definition store_const_with :: "(trans \<Rightarrow> (u8 \<times> trans) option) \<Rightarrow> u64 \<Rightarrow> bool \<Rightarrow> u64 \<Rightarrow> u8 \<Rightarrow> trans \<Rightarrow> trans option" where
  "store_const_with sc v dyn a base J =
     (let be = bswap64 v
      in if \<not> dyn \<and> fits_disp a \<and> is_imm32 be then
           (let J = rex 1 0 0 R15 J; J = e8 0xc7 J; J = mem_operand 0 R15 (disp_of a) J
            in Some (e32 (ucast be) J))
         else do {
           (t, J) \<leftarrow> sc J;
           let J = mov_imm t be J;
           if \<not> dyn then
             if fits_disp a then Some (op_mem 0x89 t R15 (disp_of a) J)
             else do { (base, J) \<leftarrow> sc J; Some (op_mem 0x89 t base 0 (mov_imm base a J)) }
           else Some (op_mem 0x89 t base 0 J)
         })"

definition flush_with :: "(trans \<Rightarrow> (u8 \<times> trans) option) \<Rightarrow> trans \<Rightarrow> trans option" where
  "flush_with sc J =
     (if \<not> t_pend J then Some J
      else let J = J\<lparr>t_pend := False\<rparr>; (v, J) = cache_find (t_pend_addr J) J
           in case v of
                VConst c \<Rightarrow> store_const_with sc c False (t_pend_addr J) 0 J
              | _ \<Rightarrow>
                  (case (case v of VReg q \<Rightarrow> reg_index q | VNeg q \<Rightarrow> reg_index q | _ \<Rightarrow> None) of
                     None \<Rightarrow> None
                   | Some i \<Rightarrow> do {
                       let was = cr_pinned (t_regs J i);
                       let J = upd_reg i (\<lambda>R. R\<lparr>cr_pinned := True\<rparr>) J;
                       (r, J) \<leftarrow> to_reg_with sc v J;
                       J \<leftarrow> store_reg_with sc r False (t_pend_addr J) 0 J;
                       let J = (if r \<noteq> alloc_regs ! i then unpin r J else J);
                       Some (upd_reg i (\<lambda>R. R\<lparr>cr_pinned := was\<rparr>) J)
                     }))"

text \<open>With nothing held back, releasing a register flushes nothing.\<close>

definition scratch_idle :: "trans \<Rightarrow> (u8 \<times> trans) option" where
  "scratch_idle = scratch_with (release_with (\<lambda>_. None))"

definition flush_pending :: "trans \<Rightarrow> trans option" where
  "flush_pending = flush_with scratch_idle"

definition release :: "u8 \<Rightarrow> trans \<Rightarrow> trans option" where
  "release = release_with flush_pending"

definition scratch :: "trans \<Rightarrow> (u8 \<times> trans) option" where
  "scratch = scratch_with release"

definition to_reg :: "cval \<Rightarrow> trans \<Rightarrow> (u8 \<times> trans) option" where
  "to_reg = to_reg_with scratch"

definition store_reg :: "u8 \<Rightarrow> bool \<Rightarrow> u64 \<Rightarrow> u8 \<Rightarrow> trans \<Rightarrow> trans option" where
  "store_reg = store_reg_with scratch"

definition store_const :: "u64 \<Rightarrow> bool \<Rightarrow> u64 \<Rightarrow> u8 \<Rightarrow> trans \<Rightarrow> trans option" where
  "store_const = store_const_with scratch"

section \<open>Values put together\<close>

definition set_alias :: "u64 \<Rightarrow> u8 \<Rightarrow> bool \<Rightarrow> trans \<Rightarrow> trans option" where
  "set_alias a r neg J =
     (let J = cache_drop a J; A = \<lparr>ca_used = True, ca_addr = a, ca_reg = r, ca_neg = neg\<rparr>
      in if \<not> cacheable a then Some J
         else case find_from (\<lambda>i. \<not> ca_used (t_aliases J i)) 0 NALIAS of
                Some i \<Rightarrow> Some (J\<lparr>t_aliases := (t_aliases J)(i := A)\<rparr>)
              | None \<Rightarrow> do {
                  let i = unat (t_alias_next J) mod NALIAS;
                  let J = J\<lparr>t_alias_next := t_alias_next J + 1\<rparr>;
                  J \<leftarrow> (if t_pend J \<and> t_pend_addr J = ca_addr (t_aliases J i) then flush_pending J else Some J);
                  Some (J\<lparr>t_aliases := (t_aliases J)(i := A)\<rparr>)
                })"

definition or_val :: "u8 \<Rightarrow> cval \<Rightarrow> trans \<Rightarrow> trans option" where
  "or_val r v J =
     (if v = VConst 0 then Some J
      else do {
        (t, J) \<leftarrow> to_reg v J;
        let J = or_rr r t J;
        Some (case v of VReg _ \<Rightarrow> J | _ \<Rightarrow> unpin t J)
      })"

definition shifted :: "cval \<Rightarrow> bool \<Rightarrow> nat \<Rightarrow> trans \<Rightarrow> (cval \<times> trans) option" where
  "shifted v left n J =
     (case v of
        VConst c \<Rightarrow> Some (VConst (if left then push_bit n c else drop_bit n c), J)
      | VNone \<Rightarrow> None
      | _ \<Rightarrow> do {
          (q, J) \<leftarrow> to_reg v J;
          (r, J) \<leftarrow> scratch J;
          let J = mov_rr r q J;
          let J = (if left then shl_ri r (of_nat n) J else shr_ri r (of_nat n) J);
          Some (VReg r, J)
        })"

definition and_imm64 :: "u8 \<Rightarrow> u64 \<Rightarrow> trans \<Rightarrow> trans option" where
  "and_imm64 r msk J =
     (if is_imm32 msk then
        (let J = rex 1 0 0 r J; J = e8 0x81 J; J = modrm_reg 4 r J in Some (e32 (ucast msk) J))
      else if msk = 0xffffffff then
        (let J = rex 0 r 0 r J; J = e8 0x89 J in Some (modrm_reg r r J))
      else do {
        (t, J) \<leftarrow> scratch J;
        let J = mov_imm t msk J;
        let J = and_rr r t J;
        Some (unpin t J)
      })"

text \<open>The value at a static address that is not put together from two words.\<close>

definition get_word :: "u64 \<Rightarrow> trans \<Rightarrow> (cval \<times> trans) option" where
  "get_word a J =
     (let (v, J) = cache_find a J; J = pin_val v J
      in if v \<noteq> VNone then Some (v, J)
         else do {
           J \<leftarrow> (if t_pend J \<and> a AND 7 \<noteq> 0 \<and> (t_pend_addr J = a AND NOT 7 \<or> t_pend_addr J = (a AND NOT 7) + 8)
                 then flush_pending J else Some J);
           (r, J) \<leftarrow> scratch J;
           let J = load_static r a J;
           Some (VReg r, bind_reg r a J)
         })"

definition get_static :: "u64 \<Rightarrow> trans \<Rightarrow> (cval \<times> trans) option" where
  "get_static a J =
     (let w = a AND NOT 7
      in if a AND 7 \<noteq> 0 \<and> cacheable w \<and> cacheable (w + 8) then
           (let k = unat (a AND 7) * 8; (lo, J) = cache_find w J; (hi, J) = cache_find (w + 8) J
            in if lo \<noteq> VNone \<or> hi \<noteq> VNone then do {
                 let J = pin_val hi (pin_val lo J);
                 (lo, J) \<leftarrow> (if lo = VNone then get_word w J else Some (lo, J));
                 (hi, J) \<leftarrow> (if hi = VNone then get_word (w + 8) J else Some (hi, J));
                 (v, J) \<leftarrow> shifted lo True k J;
                 (h, J) \<leftarrow> shifted hi False (64 - k) J;
                 case (v, h) of
                   (VConst x, VConst y) \<Rightarrow> Some (VConst (x OR y), J)
                 | (VConst _, VReg r) \<Rightarrow> do { J \<leftarrow> or_val r v J; Some (h, J) }
                 | (VReg r, _) \<Rightarrow> do { J \<leftarrow> or_val r h J; Some (v, J) }
                 | _ \<Rightarrow> None
               }
               else get_word a J)
         else get_word a J)"

section \<open>The store held back, in stubs\<close>

definition snap_pending :: "trans \<Rightarrow> pending \<times> trans" where
  "snap_pending J =
     (if t_pend J then (let (v, J) = cache_find (t_pend_addr J) J in (\<lparr>pd_val = v, pd_addr = t_pend_addr J\<rparr>, J))
      else (\<lparr>pd_val = VNone, pd_addr = 0\<rparr>, J))"

text \<open>The first register from \<open>t\<close> on that is neither of the two to keep.\<close>

definition skip_regs :: "u8 \<Rightarrow> u8 option \<Rightarrow> u8 option \<Rightarrow> u8" where
  "skip_regs t p keep = hd (filter (\<lambda>t. p \<noteq> Some t \<and> keep \<noteq> Some t) [t, t + 1, t + 2])"

definition stub_store :: "pending \<Rightarrow> u8 option \<Rightarrow> 'a emitter_scheme \<Rightarrow> bool \<Rightarrow> 'a emitter_scheme" where
  "stub_store p keep J movbe =
     (let preg = (case pd_val p of VReg r \<Rightarrow> Some r | VNeg r \<Rightarrow> Some r | _ \<Rightarrow> None)
      in if pd_val p = VNone then J
         else
           let t = skip_regs RAX preg keep;
               (base, disp, J) =
                 (if \<not> fits_disp (pd_addr p)
                  then (let base = skip_regs (t + 1) preg keep in (base, 0, mov_imm base (pd_addr p) J))
                  else (R15, disp_of (pd_addr p), J))
           in case pd_val p of
                VConst c \<Rightarrow> (let J = mov_imm t (bswap64 c) J in op_mem 0x89 t base disp J)
              | VReg r \<Rightarrow>
                  if movbe then movbe_mem True r base disp J
                  else (let J = mov_rr t r J; J = bswap t J in op_mem 0x89 t base disp J)
              | VNeg r \<Rightarrow>
                  (let J = mov_rr t r J; J = neg_r t J
                   in if movbe then movbe_mem True t base disp J
                      else (let J = bswap t J in op_mem 0x89 t base disp J))
              | VNone \<Rightarrow> J)"

end
