(* ===== verification/X86_Sem.thy ===== *)
theory X86_Sem
  imports X86_Emit Memory Subleq
begin

text \<open>
  What the emitted instructions do on the processor: sixteen registers, the flags, and the flat
  memory. \<open>xrun\<close> runs straight-line code up to the first jump that is taken; the places jumps go to
  are patched later, so a taken jump just leaves, with its number in the code.
\<close>

record mach =
  xr :: "u8 \<Rightarrow> u64"
  xmem :: mem
  xzf :: bool
  xsf :: bool
  xof :: bool
  xcf :: bool

section \<open>Instructions\<close>

fun ea :: "mach \<Rightarrow> operand \<Rightarrow> u64" where
  "ea M (Reg r) = 0"
| "ea M (Mem b d) = xr M b + scast d"
| "ea M (Sib b i s d) = xr M b + push_bit s (xr M i) + scast d"

definition set_r :: "u8 \<Rightarrow> u64 \<Rightarrow> mach \<Rightarrow> mach" where
  "set_r r v M = M\<lparr>xr := (xr M)(r := v)\<rparr>"

text \<open>The flags of \<open>dst - src\<close>, of a sum, and of a logical operation.\<close>

definition flags_sub :: "u64 \<Rightarrow> u64 \<Rightarrow> mach \<Rightarrow> mach" where
  "flags_sub dst src M =
     (let f = sub_flags dst src in M\<lparr>xzf := zf f, xsf := sf f, xof := off f, xcf := (dst < src)\<rparr>)"

definition flags_add :: "u64 \<Rightarrow> u64 \<Rightarrow> mach \<Rightarrow> mach" where
  "flags_add dst src M =
     (let v = dst + src
      in M\<lparr>xzf := (v = 0), xsf := bit v 63, xof := (sint dst + sint src \<noteq> sint v), xcf := (v < dst)\<rparr>)"

definition flags_logic :: "u64 \<Rightarrow> mach \<Rightarrow> mach" where
  "flags_logic v M = M\<lparr>xzf := (v = 0), xsf := bit v 63, xof := False, xcf := False\<rparr>"

definition flags_byte :: "u8 \<Rightarrow> mach \<Rightarrow> mach" where
  "flags_byte v M = M\<lparr>xzf := (v = 0), xsf := bit v 7, xof := False, xcf := False\<rparr>"

fun alu_step :: "alu \<Rightarrow> u8 \<Rightarrow> u64 \<Rightarrow> mach \<Rightarrow> mach" where
  "alu_step Add r v M = set_r r (xr M r + v) (flags_add (xr M r) v M)"
| "alu_step Sub r v M = set_r r (xr M r - v) (flags_sub (xr M r) v M)"
| "alu_step Or r v M = set_r r (xr M r OR v) (flags_logic (xr M r OR v) M)"
| "alu_step And r v M = set_r r (xr M r AND v) (flags_logic (xr M r AND v) M)"
| "alu_step Cmp r v M = flags_sub (xr M r) v M"
| "alu_step Test r v M = flags_logic (xr M r AND v) M"

text \<open>
  A shift sets \<open>xof\<close> by a rule of its own that nothing here reads. \<open>None\<close> is a form that is not
  emitted, or a jump.
\<close>

fun xstep :: "xinsn \<Rightarrow> mach \<Rightarrow> mach option" where
  "xstep (XStore True (Reg d) s) M = Some (set_r d (xr M s) M)"
| "xstep (XStore False (Reg d) s) M = Some (set_r d (ucast (ucast (xr M s) :: u32)) M)"
| "xstep (XStore True opd s) M = Some (M\<lparr>xmem := store64 (xmem M) (ea M opd) (xr M s)\<rparr>)"
| "xstep (XLoad True r (Reg s)) M = None"
| "xstep (XLoad True r opd) M = Some (set_r r (load64 (xmem M) (ea M opd)) M)"
| "xstep (XLea r (Mem b d)) M = Some (set_r r (xr M b + scast d) M)"
| "xstep (XMovbeLoad r (Mem b d)) M = Some (set_r r (bswap64 (load64 (xmem M) (xr M b + scast d))) M)"
| "xstep (XMovbeStore (Mem b d) r) M = Some (M\<lparr>xmem := store64 (xmem M) (xr M b + scast d) (bswap64 (xr M r))\<rparr>)"
| "xstep (XAlu op True (Reg d) s) M = Some (alu_step op d (xr M s) M)"
| "xstep (XAluImm op True (Reg d) v) M = Some (alu_step op d (scast v) M)"
| "xstep (XMovImm True (Reg d) v) M = Some (set_r d (scast v) M)"
| "xstep (XMovImm True (Mem b d) v) M = Some (M\<lparr>xmem := store64 (xmem M) (xr M b + scast d) (scast v)\<rparr>)"
| "xstep (XMov32 r v) M = Some (set_r r (ucast v) M)"
| "xstep (XMov64 r v) M = Some (set_r r v M)"
| "xstep (XCmpImm8 (Reg r) v) M = None"
| "xstep (XCmpImm8 opd v) M = Some (flags_byte (xmem M (ea M opd) - v) M)"
| "xstep (XTestImm8 (Reg r) v) M = None"
| "xstep (XTestImm8 opd v) M = Some (flags_byte (xmem M (ea M opd) AND v) M)"
| "xstep (XNot True (Reg r)) M = Some (set_r r (NOT (xr M r)) M)"
| "xstep (XNeg True (Reg r)) M = Some (set_r r (- xr M r) (flags_sub 0 (xr M r) M))"
| "xstep (XShl True (Reg r) n) M =
     (let v = push_bit (unat n) (xr M r) in Some (set_r r v (flags_logic v M)))"
| "xstep (XShr True (Reg r) n) M =
     (let v = drop_bit (unat n) (xr M r) in Some (set_r r v (flags_logic v M)))"
| "xstep (XBswap r) M = Some (set_r r (bswap64 (xr M r)) M)"
| "xstep (XBt (Reg b) r) M = Some (M\<lparr>xcf := bit (xr M b) (unat (xr M r) mod 64)\<rparr>)"
| "xstep i M = None"

definition cond :: "u8 \<Rightarrow> mach \<Rightarrow> bool" where
  "cond cc M =
     (if cc = CC_C then xcf M
      else if cc = 4 then xzf M
      else if cc = CC_NZ then \<not> xzf M
      else if cc = CC_L then xsf M \<noteq> xof M
      else xzf M \<or> xsf M \<noteq> xof M)"

section \<open>Runs\<close>

text \<open>
  Running bytes, the first at offset \<open>pos\<close>: falling through to the end, leaving by the jump whose
  displacement is at an offset, or stuck.
\<close>

datatype xresult = Through mach | Leaves nat mach | Stuck

function xrun :: "nat \<Rightarrow> u8 list \<Rightarrow> mach \<Rightarrow> xresult" where
  "xrun pos bs M =
     (if bs = [] then Through M
      else case decode bs of
             None \<Rightarrow> Stuck
           | Some (i, cs) \<Rightarrow>
               if length bs \<le> length cs then Stuck
               else
                 let pos' = pos + (length bs - length cs)
                 in case i of
                      XJcc cc d \<Rightarrow> if cond cc M then Leaves (pos' - 4) M else xrun pos' cs M
                    | XJmp d \<Rightarrow> Leaves (pos' - 4) M
                    | _ \<Rightarrow> (case xstep i M of None \<Rightarrow> Stuck | Some M \<Rightarrow> xrun pos' cs M))"
  by pat_completeness auto

termination
  by (relation "measure (\<lambda>(pos, bs, M). length bs)") auto

declare xrun.simps [simp del]

lemma xrun_Nil [simp]: "xrun pos [] M = Through M"
  by (simp add: xrun.simps)

lemma xrun_step:
  assumes "\<forall>rest. decode (b @ rest) = Some (i, rest)"
  shows "xrun pos (b @ cs) M =
     (case i of
        XJcc cc d \<Rightarrow> if cond cc M then Leaves (pos + length b - 4) M else xrun (pos + length b) cs M
      | XJmp d \<Rightarrow> Leaves (pos + length b - 4) M
      | _ \<Rightarrow> (case xstep i M of None \<Rightarrow> Stuck | Some M \<Rightarrow> xrun (pos + length b) cs M))"
proof -
  have "b \<noteq> []"
  proof
    assume "b = []"
    then have "decode [] = Some (i, [])" using assms by (metis append_Nil)
    then show False by (simp add: decode_def)
  qed
  then show ?thesis using assms by (subst xrun.simps) (auto split: xinsn.splits)
qed

text \<open>The code added from \<open>J\<close> to \<open>J'\<close> is whole instructions; run from \<open>M\<close> it ends with \<open>R\<close>.\<close>

definition code_run :: "'a emitter_scheme \<Rightarrow> 'a emitter_scheme \<Rightarrow> mach \<Rightarrow> xresult \<Rightarrow> bool" where
  "code_run J J' M R \<longleftrightarrow>
     (\<exists>is bs. em_code J' = em_code J @ bs \<and> asm is bs \<and> xrun (length (em_code J)) bs M = R)"

lemma xrun_append:
  "asm is bs \<Longrightarrow> xrun pos (bs @ cs) M =
     (case xrun pos bs M of Through M' \<Rightarrow> xrun (pos + length bs) cs M' | R \<Rightarrow> R)"
proof (induction "is" arbitrary: pos bs M)
  case (Cons i "is")
  then obtain b1 b2 where b: "bs = b1 @ b2" "\<forall>rest. decode (b1 @ rest) = Some (i, rest)" "asm is b2" by auto
  note IH = Cons.IH [OF b(3)]
  show ?case
    unfolding b(1) append_assoc xrun_step [OF b(2)] length_append add.assoc [symmetric] IH
    by (auto split: xinsn.splits option.splits)
qed simp

lemma code_run_same [intro]: "em_code J' = em_code J \<Longrightarrow> code_run J J' M (Through M)"
  unfolding code_run_def by (rule exI [of _ "[]"]) auto

lemma code_run_trans:
  assumes "code_run J J1 M (Through M1)" "code_run J1 J2 M1 R"
  shows "code_run J J2 M R"
proof -
  obtain "is" bs where a: "em_code J1 = em_code J @ bs" "asm is bs" "xrun (length (em_code J)) bs M = Through M1"
    using assms(1) by (auto simp: code_run_def)
  obtain js cs where c: "em_code J2 = em_code J1 @ cs" "asm js cs" "xrun (length (em_code J1)) cs M1 = R"
    using assms(2) by (auto simp: code_run_def)
  have "xrun (length (em_code J)) (bs @ cs) M = R"
    using a c by (simp add: xrun_append [OF a(2)])
  then show ?thesis unfolding code_run_def using a c asm_append [OF a(2) c(2)]
    by (intro exI [of _ "is @ js"] exI [of _ "bs @ cs"]) simp
qed

lemma code_run_leaves:
  assumes "code_run J J1 M (Leaves s M1)" "code_run J1 J2 M2 R"
  shows "code_run J J2 M (Leaves s M1)"
proof -
  obtain "is" bs where a: "em_code J1 = em_code J @ bs" "asm is bs" "xrun (length (em_code J)) bs M = Leaves s M1"
    using assms(1) by (auto simp: code_run_def)
  obtain js cs where c: "em_code J2 = em_code J1 @ cs" "asm js cs"
    using assms(2) by (auto simp: code_run_def)
  have "xrun (length (em_code J)) (bs @ cs) M = Leaves s M1" using a by (simp add: xrun_append [OF a(2)])
  then show ?thesis unfolding code_run_def using a c asm_append [OF a(2) c(2)]
    by (intro exI [of _ "is @ js"] exI [of _ "bs @ cs"]) simp
qed

lemma code_run_step:
  assumes "emits J J' [i]" "xstep i M = Some M'"
  shows "code_run J J' M (Through M')"
proof -
  obtain bs where b: "J' = put bs J" "asm [i] bs" using assms(1) by (auto simp: emits_def)
  then have d: "\<forall>rest. decode (bs @ rest) = Some (i, rest)" by auto
  have "xrun (length (em_code J)) (bs @ []) M = Through M'"
    unfolding xrun_step [OF d] using assms(2) by (auto split: xinsn.splits)
  then show ?thesis unfolding code_run_def using b by (intro exI [of _ "[i]"] exI [of _ bs]) simp
qed

lemma code_run_jcc:
  assumes "cc < 16"
  shows "code_run J (snd (jcc32 cc J)) M (if cond cc M then Leaves (fst (jcc32 cc J)) M else Through M)"
proof -
  obtain bs where b: "snd (jcc32 cc J) = put bs J" "asm [XJcc cc 0] bs"
    using emits_jcc(1) [OF assms] by (auto simp: emits_def)
  then have d: "\<forall>rest. decode (bs @ rest) = Some (XJcc cc 0, rest)" by auto
  have s: "fst (jcc32 cc J) = length (em_code J) + length bs - 4"
    using emits_jcc(2) [OF assms, of J] by (simp add: b(1))
  have "xrun (length (em_code J)) (bs @ []) M = (if cond cc M then Leaves (fst (jcc32 cc J)) M else Through M)"
    unfolding xrun_step [OF d] s by simp
  then show ?thesis unfolding code_run_def using b by (intro exI [of _ "[XJcc cc 0]"] exI [of _ bs]) simp
qed

lemma code_run_jmp: "code_run J (snd (jmp32 J)) M (Leaves (fst (jmp32 J)) M)"
proof -
  obtain bs where b: "snd (jmp32 J) = put bs J" "asm [XJmp 0] bs"
    using emits_jmp(1) by (auto simp: emits_def)
  then have d: "\<forall>rest. decode (bs @ rest) = Some (XJmp 0, rest)" by auto
  have s: "fst (jmp32 J) = length (em_code J) + length bs - 4"
    using emits_jmp(2) [of J] by (simp add: b(1))
  have "xrun (length (em_code J)) (bs @ []) M = Leaves (fst (jmp32 J)) M"
    unfolding xrun_step [OF d] s by simp
  then show ?thesis unfolding code_run_def using b by (intro exI [of _ "[XJmp 0]"] exI [of _ bs]) simp
qed

lemma set_r_simps [simp]:
  "xr (set_r r v M) = (xr M)(r := v)" "xmem (set_r r v M) = xmem M"
  "xzf (set_r r v M) = xzf M" "xsf (set_r r v M) = xsf M" "xof (set_r r v M) = xof M" "xcf (set_r r v M) = xcf M"
  by (simp_all add: set_r_def)

lemma flags_simps [simp]:
  "xr (flags_sub a b M) = xr M" "xmem (flags_sub a b M) = xmem M" "xr (flags_add a b M) = xr M"
  "xmem (flags_add a b M) = xmem M" "xr (flags_logic a M) = xr M" "xmem (flags_logic a M) = xmem M"
  "xr (flags_byte c M) = xr M" "xmem (flags_byte c M) = xmem M"
  by (simp_all add: flags_sub_def flags_add_def flags_logic_def flags_byte_def Let_def)

text \<open>The branch condition after a subtraction, and after testing a value against itself.\<close>

lemma cond_sub: "cond CC_LE (set_r r v (flags_sub dst src M)) \<longleftrightarrow> dst \<le>s src"
proof -
  have "\<not> jg (sub_flags dst src) \<longleftrightarrow> dst \<le>s src"
    by (simp add: jg_iff word_sless_alt word_sle_eq not_less)
  then show ?thesis
    by (simp add: cond_def flags_sub_def Let_def jg_def CC_LE_def CC_L_def CC_C_def CC_NZ_def)
qed

lemma cond_test: "cond CC_LE (flags_logic v M) \<longleftrightarrow> v \<le>s 0"
proof -
  have "bit v 63 \<longleftrightarrow> sint v < 0" by (simp add: sf_sint)
  moreover have "v = 0 \<longleftrightarrow> sint v = 0" by (metis sint_0 sint_eq_iff)
  ultimately show ?thesis
    by (auto simp: cond_def flags_logic_def CC_LE_def CC_L_def CC_C_def CC_NZ_def word_sle_eq)
qed

end
