(* ===== verification/Cache_Sim.thy ===== *)
theory Cache_Sim
  imports Reg_Cache X86_Sem
begin

text \<open>
  The register cache against the processor: what the cache says of words is what the registers hold,
  and memory is the SUBLEQ memory but for the store held back. Taking registers, flushing and
  loading keep this, and keep the registers in use.
\<close>

section \<open>Finding\<close>

lemma find_from_ex: "find_from P 0 n \<noteq> None \<longleftrightarrow> (\<exists>i<n. P i)"
  using find_from_None [of P 0 n] find_from_Some [of P 0 n] by (cases "find_from P 0 n") auto

lemma find_from_none: "find_from P 0 n = None \<longleftrightarrow> (\<forall>i<n. \<not> P i)"
  using find_from_ex [of P n] by auto

lemma find_fromD: "find_from P 0 n = Some i \<Longrightarrow> i < n \<and> P i"
  using find_from_Some [of P 0 n i] by auto

lemma alloc_regs_nth:
  "length alloc_regs = NREGS" "i < NREGS \<Longrightarrow> alloc_regs ! i < 16" "i < NREGS \<Longrightarrow> alloc_regs ! i \<notin> {RSP, RBP, R12, R14, R15}"
  "i < NREGS \<Longrightarrow> j < NREGS \<Longrightarrow> alloc_regs ! i = alloc_regs ! j \<Longrightarrow> i = j"
proof -
  have d: "distinct alloc_regs" "\<forall>r\<in>set alloc_regs. r < 16" "\<forall>r\<in>set alloc_regs. r \<notin> {RSP, RBP, R12, R14, R15}"
    and l: "length alloc_regs = NREGS"
    by (simp_all add: alloc_regs_def reg_defs NREGS_def)
  show "length alloc_regs = NREGS" by (rule l)
  have m: "alloc_regs ! i \<in> set alloc_regs" if "i < NREGS" for i using that l by simp
  show "alloc_regs ! i < 16" if "i < NREGS" using d(2) m [OF that] by (rule bspec)
  show "alloc_regs ! i \<notin> {RSP, RBP, R12, R14, R15}" if "i < NREGS" using d(3) m [OF that] by (rule bspec)
  show "i = j" if "i < NREGS" "j < NREGS" "alloc_regs ! i = alloc_regs ! j"
    using d(1) l that by (simp add: nth_eq_iff_index_eq)
qed

lemma reg_index_nth [simp]: "i < NREGS \<Longrightarrow> reg_index (alloc_regs ! i) = Some i"
proof -
  assume i: "i < NREGS"
  then have "reg_index (alloc_regs ! i) \<noteq> None" unfolding reg_index_def find_from_ex by (intro exI [of _ i]) simp
  then obtain k where k: "reg_index (alloc_regs ! i) = Some k" by auto
  then have "k < NREGS \<and> alloc_regs ! k = alloc_regs ! i" unfolding reg_index_def by (rule find_fromD)
  then have "k = i" using alloc_regs_nth(4) [of k i] i by simp
  then show ?thesis using k by simp
qed

lemma reg_indexD: "reg_index r = Some i \<Longrightarrow> i < NREGS \<and> alloc_regs ! i = r"
  unfolding reg_index_def by (rule find_fromD)

abbreviation areg :: "u8 \<Rightarrow> bool" where
  "areg r \<equiv> r \<in> set alloc_regs"

lemma aregE:
  assumes "areg r"
  obtains i where "i < NREGS" "r = alloc_regs ! i" "reg_index r = Some i"
proof -
  obtain i where "i < length alloc_regs" "alloc_regs ! i = r" using assms by (auto simp: in_set_conv_nth)
  then show thesis using that [of i] alloc_regs_nth(1) by auto
qed

lemma areg_nth [simp]: "i < NREGS \<Longrightarrow> areg (alloc_regs ! i)"
  by (simp add: alloc_regs_nth(1))

lemma areg_bounds: "areg r \<Longrightarrow> r < 16 \<and> r \<notin> {RSP, RBP, R12, R14, R15}"
  by (erule aregE) (simp add: alloc_regs_nth(2), use alloc_regs_nth(3) in blast)

lemma reg_bounds [simp]: "R15 < 16" "R14 < 16" "R12 < 16" "RBX < 16" "R13 < 16"
  by (simp_all add: reg_defs)

section \<open>What the cache says\<close>

text \<open>The words a register stands for, with the sign.\<close>

definition names :: "trans \<Rightarrow> u8 \<Rightarrow> (u64 \<times> bool) set" where
  "names J r =
     {(cr_addr (t_regs J i), False) | i. i < NREGS \<and> alloc_regs ! i = r \<and> cr_used (t_regs J i)} \<union>
     {(ca_addr (t_aliases J i), ca_neg (t_aliases J i)) | i. i < NALIAS \<and> ca_used (t_aliases J i) \<and> ca_reg (t_aliases J i) = r}"

definition const_words :: "trans \<Rightarrow> (u64 \<times> u64) set" where
  "const_words J = {(cc_addr (t_consts J i), cc_val (t_consts J i)) | i. i < NCONST \<and> cc_used (t_consts J i)}"

definition alias_regs :: "trans \<Rightarrow> bool" where
  "alias_regs J \<longleftrightarrow> (\<forall>i<NALIAS. ca_used (t_aliases J i) \<longrightarrow> areg (ca_reg (t_aliases J i)))"

definition has :: "trans \<Rightarrow> cval \<Rightarrow> u64 \<Rightarrow> bool" where
  "has J v a = (case v of VNone \<Rightarrow> False | VConst c \<Rightarrow> (a, c) \<in> const_words J
     | VReg r \<Rightarrow> (a, False) \<in> names J r | VNeg r \<Rightarrow> (a, True) \<in> names J r)"

text \<open>All but the order of use.\<close>

definition same_cache :: "trans \<Rightarrow> trans \<Rightarrow> bool" where
  "same_cache J J' \<longleftrightarrow>
     (\<forall>i. cr_used (t_regs J' i) = cr_used (t_regs J i) \<and> cr_addr (t_regs J' i) = cr_addr (t_regs J i)) \<and>
     t_consts J' = t_consts J \<and> t_aliases J' = t_aliases J \<and> t_pend J' = t_pend J \<and> t_pend_addr J' = t_pend_addr J"

lemma same_cache_refl [simp]: "same_cache J J"
  by (simp add: same_cache_def)

lemma same_cache_trans [trans]: "same_cache J J1 \<Longrightarrow> same_cache J1 J2 \<Longrightarrow> same_cache J J2"
  by (simp add: same_cache_def)

lemma same_cacheD:
  assumes "same_cache J J'"
  shows "names J' = names J" "const_words J' = const_words J" "alias_regs J' = alias_regs J" "t_pend J' = t_pend J"
    "t_pend_addr J' = t_pend_addr J" "has J' = has J" "aliased J' = aliased J"
  using assms by (auto simp: same_cache_def names_def const_words_def alias_regs_def has_def aliased_def fun_eq_iff split: cval.splits)

lemma touch_simps [simp]:
  "same_cache J (touch i J)" "em_code (touch i J) = em_code J" "cr_pinned (t_regs (touch i J) k) = cr_pinned (t_regs J k)"
  "t_flags_live (touch i J) = t_flags_live J" "t_stubs (touch i J) = t_stubs J" "t_smcs (touch i J) = t_smcs J"
  "t_movbe (touch i J) = t_movbe J" "t_const_next (touch i J) = t_const_next J" "t_alias_next (touch i J) = t_alias_next J"
  by (simp_all add: touch_def upd_reg_def same_cache_def)

definition same_env :: "trans \<Rightarrow> trans \<Rightarrow> bool" where
  "same_env J J' \<longleftrightarrow> t_flags_live J' = t_flags_live J \<and> t_stubs J' = t_stubs J \<and> t_smcs J' = t_smcs J \<and> t_movbe J' = t_movbe J"

lemma same_env_refl [simp]: "same_env J J"
  by (simp add: same_env_def)

lemma same_env_trans [trans]: "same_env J J1 \<Longrightarrow> same_env J1 J2 \<Longrightarrow> same_env J J2"
  by (simp add: same_env_def)

lemma cache_find_spec:
  assumes "cache_find a J = (v, J')"
  shows "same_cache J J'" "em_code J' = em_code J" "same_env J J'" "cr_pinned (t_regs J' k) = cr_pinned (t_regs J k)"
    "v = VNone \<longleftrightarrow> (\<forall>v. \<not> (cacheable a \<and> has J v a))" "v \<noteq> VNone \<Longrightarrow> has J v a \<and> cacheable a"
proof -
  let ?c = "find_from (\<lambda>i. cc_used (t_consts J i) \<and> cc_addr (t_consts J i) = a) 0 NCONST"
  let ?r = "find_from (\<lambda>i. cr_used (t_regs J i) \<and> cr_addr (t_regs J i) = a) 0 NREGS"
  let ?l = "find_from (\<lambda>i. ca_used (t_aliases J i) \<and> ca_addr (t_aliases J i) = a) 0 NALIAS"
  show "same_cache J J'" "em_code J' = em_code J" "same_env J J'" "cr_pinned (t_regs J' k) = cr_pinned (t_regs J k)"
    using assms by (auto simp: cache_find_def same_env_def Let_def split: if_splits option.splits)
  have c: "?c = None \<longleftrightarrow> (\<forall>c. (a, c) \<notin> const_words J)" by (auto simp: find_from_none const_words_def)
  have n: "?r = None \<and> ?l = None \<longleftrightarrow> (\<forall>r s. (a, s) \<notin> names J r)" by (auto simp: find_from_none names_def)
  have h: "(\<forall>v. \<not> has J v a) \<longleftrightarrow> (\<forall>c. (a, c) \<notin> const_words J) \<and> (\<forall>r s. (a, s) \<notin> names J r)"
  proof
    assume *: "\<forall>v. \<not> has J v a"
    have "(a, c) \<notin> const_words J" for c using * [rule_format, of "VConst c"] by (simp add: has_def)
    moreover have "(a, s) \<notin> names J r" for r s
      using * [rule_format, of "VReg r"] * [rule_format, of "VNeg r"] by (cases s) (simp_all add: has_def)
    ultimately show "(\<forall>c. (a, c) \<notin> const_words J) \<and> (\<forall>r s. (a, s) \<notin> names J r)" by blast
  qed (auto simp: has_def split: cval.splits)
  show "v = VNone \<longleftrightarrow> (\<forall>v. \<not> (cacheable a \<and> has J v a))"
  proof (cases "cacheable a")
    case True
    then have "v = VNone \<longleftrightarrow> ?c = None \<and> ?r = None \<and> ?l = None"
      using assms by (auto simp: cache_find_def Let_def split: if_splits option.splits)
    also have "\<dots> \<longleftrightarrow> (\<forall>v. \<not> has J v a)" unfolding h using c n by blast
    finally show ?thesis using True by simp
  qed (use assms in \<open>simp add: cache_find_def\<close>)
  assume v: "v \<noteq> VNone"
  then have ca: "cacheable a" using assms by (cases "cacheable a") (simp_all add: cache_find_def)
  consider (c) i where "?c = Some i" | (r) i where "?c = None" "?r = Some i" | (l) i where "?c = None" "?r = None" "?l = Some i"
    using assms ca v by (cases ?c; cases ?r; cases ?l) (auto simp: cache_find_def)
  then show "has J v a \<and> cacheable a"
  proof cases
    case c
    then show ?thesis using assms ca find_fromD [OF c] by (auto simp: cache_find_def has_def const_words_def)
  next
    case r
    then show ?thesis using assms ca find_fromD [OF r(2)] by (auto simp: cache_find_def has_def names_def)
  next
    case l
    then show ?thesis using assms ca find_fromD [OF l(3)] by (auto simp: cache_find_def has_def names_def Let_def)
  qed
qed

section \<open>The relation to the processor\<close>

lemma put_trans [simp]:
  "t_regs (put bs J) = t_regs J" "t_consts (put bs J) = t_consts J" "t_aliases (put bs J) = t_aliases J"
  "t_pend (put bs J) = t_pend J" "t_pend_addr (put bs J) = t_pend_addr J" "t_flags_live (put bs J) = t_flags_live J"
  "t_stubs (put bs J) = t_stubs J" "t_smcs (put bs J) = t_smcs J" "t_movbe (put bs J) = t_movbe J"
  "t_alias_next (put bs J) = t_alias_next J" "t_const_next (put bs J) = t_const_next J"
  "t_lru_clock (put bs J) = t_lru_clock J"
  by (simp_all add: put_def)

fun val_of :: "mach \<Rightarrow> cval \<Rightarrow> u64" where
  "val_of M (VConst c) = c"
| "val_of M (VReg r) = xr M r"
| "val_of M (VNeg r) = - xr M r"
| "val_of M VNone = 0"

text \<open>What the cache says of every word is true of memory \<open>g\<close>, but for the words of \<open>X\<close>.\<close>

definition cache_ok :: "u64 set \<Rightarrow> trans \<Rightarrow> mach \<Rightarrow> mem \<Rightarrow> bool" where
  "cache_ok X J M g \<longleftrightarrow> xr M R15 = BIAS \<and> alias_regs J \<and>
     (\<forall>v a. has J v a \<longrightarrow> cacheable a \<and> (a \<notin> X \<longrightarrow> rd g a = val_of M v))"

definition mem_ok :: "trans \<Rightarrow> mach \<Rightarrow> mem \<Rightarrow> bool" where
  "mem_ok J M g \<longleftrightarrow>
     (if t_pend J
      then (\<exists>v. has J v (t_pend_addr J)) \<and> cacheable (t_pend_addr J) \<and>
        g = wr (xmem M) (t_pend_addr J) (rd g (t_pend_addr J))
      else g = xmem M)"

definition sim :: "trans \<Rightarrow> mach \<Rightarrow> mem \<Rightarrow> bool" where
  "sim J M g \<longleftrightarrow> cache_ok {} J M g \<and> mem_ok J M g"

text \<open>Registers no function below changes: those pinned, and those never allocated.\<close>

definition keep :: "trans \<Rightarrow> u8 \<Rightarrow> bool" where
  "keep J r \<longleftrightarrow> (case reg_index r of None \<Rightarrow> True | Some i \<Rightarrow> cr_pinned (t_regs J i))"

lemma keep_fixed:
  assumes "r \<in> {RSP, RBP, R12, R14, R15}"
  shows "keep J r"
proof -
  have "reg_index r = None"
  proof (cases "reg_index r")
    case (Some i)
    then have "areg r" using reg_indexD [OF Some] by auto
    then show ?thesis using areg_bounds assms by blast
  qed
  then show ?thesis by (simp add: keep_def)
qed

lemma keep_cong: "(\<And>i. cr_pinned (t_regs J' i) = cr_pinned (t_regs J i)) \<Longrightarrow> keep J' = keep J"
  by (simp add: keep_def fun_eq_iff split: option.splits)

definition same_flags :: "mach \<Rightarrow> mach \<Rightarrow> bool" where
  "same_flags M M' \<longleftrightarrow> xzf M' = xzf M \<and> xsf M' = xsf M \<and> xof M' = xof M"

lemma same_flags_refl [simp]: "same_flags M M"
  by (simp add: same_flags_def)

text \<open>The code from \<open>J\<close> to \<open>J'\<close>, run, and what it leaves alone.\<close>

definition eff :: "trans \<Rightarrow> mach \<Rightarrow> trans \<Rightarrow> mach \<Rightarrow> bool" where
  "eff J M J' M' \<longleftrightarrow> code_run J J' M (Through M') \<and> same_env J J' \<and>
     (\<forall>r. keep J r \<longrightarrow> keep J' r \<and> xr M' r = xr M r \<and> names J' r = names J r) \<and>
     (t_flags_live J \<longrightarrow> same_flags M M') \<and>
     t_pend_addr J' = t_pend_addr J \<and> (t_pend J' \<longrightarrow> t_pend J)"

lemma effD:
  assumes "eff J M J' M'"
  shows "code_run J J' M (Through M')" "same_env J J'" "keep J r \<Longrightarrow> keep J' r" "keep J r \<Longrightarrow> xr M' r = xr M r"
    "keep J r \<Longrightarrow> names J' r = names J r" "t_flags_live J \<Longrightarrow> same_flags M M'"
    "t_pend J' \<Longrightarrow> t_pend J" "t_pend_addr J' = t_pend_addr J"
  using assms unfolding eff_def by blast+

lemma eff_refl [simp]: "eff J M J M"
  by (simp add: eff_def code_run_same)

lemma eff_trans [trans]:
  assumes "eff J M J1 M1" "eff J1 M1 J2 M2"
  shows "eff J M J2 M2"
  unfolding eff_def
proof (intro conjI allI impI)
  show "code_run J J2 M (Through M2)" using effD(1) [OF assms(1)] effD(1) [OF assms(2)] by (rule code_run_trans)
  show "same_env J J2" using effD(2) [OF assms(1)] effD(2) [OF assms(2)] by (rule same_env_trans)
  show "same_flags M M2" if "t_flags_live J"
    using that effD(6) [OF assms(1)] effD(6) [OF assms(2)] effD(2) [OF assms(1)] by (auto simp: same_env_def same_flags_def)
qed (use effD [OF assms(1)] effD [OF assms(2)] in auto)

lemma eff_emit:
  assumes "eff J0 M0 J1 M1" "emits J1 J2 [i]" "xstep i M1 = Some M2"
    and "\<And>q. keep J0 q \<Longrightarrow> xr M2 q = xr M1 q" "t_flags_live J0 \<Longrightarrow> same_flags M1 M2"
  shows "eff J0 M0 J2 M2"
proof -
  obtain bs where J2: "J2 = put bs J1" using assms(2) by (auto simp: emits_def)
  have same: "keep J2 = keep J1" "names J2 = names J1" "same_env J1 J2" "t_pend J2 = t_pend J1" "t_pend_addr J2 = t_pend_addr J1"
    unfolding J2 by (rule keep_cong) (simp_all add: names_def same_env_def fun_eq_iff)
  have "code_run J1 J2 M1 (Through M2)" using assms(2,3) by (rule code_run_step)
  then have "code_run J0 J2 M0 (Through M2)" using effD(1) [OF assms(1)] by (rule code_run_trans [rotated])
  moreover have "same_flags M0 M2" if "t_flags_live J0"
    using that effD(6) [OF assms(1)] assms(5) by (auto simp: same_flags_def)
  moreover have "same_env J0 J2" using effD(2) [OF assms(1)] same(3) by (rule same_env_trans)
  ultimately show ?thesis
    unfolding eff_def same using effD(3-5,7,8) [OF assms(1)] assms(4) by auto
qed

lemma eff_state:
  assumes "eff J0 M0 J1 M1" "em_code J2 = em_code J1" "same_env J1 J2"
    and "\<And>q. keep J0 q \<Longrightarrow> keep J2 q \<and> names J2 q = names J1 q" "t_pend J2 \<Longrightarrow> t_pend J1" "t_pend_addr J2 = t_pend_addr J1"
  shows "eff J0 M0 J2 M1"
proof -
  have "code_run J0 J2 M0 (Through M1)"
    using effD(1) [OF assms(1)] code_run_same [OF assms(2)] by (rule code_run_trans)
  moreover have "same_env J0 J2" using effD(2) [OF assms(1)] assms(3) by (rule same_env_trans)
  ultimately show ?thesis
    unfolding eff_def using effD(3-8) [OF assms(1)] assms(4-6) by auto
qed

lemma eff_same:
  assumes "eff J0 M0 J1 M1" "same_cache J1 J2" "em_code J2 = em_code J1" "same_env J1 J2"
    and "\<And>q. keep J0 q \<Longrightarrow> keep J2 q"
  shows "eff J0 M0 J2 M1"
  by (rule eff_state [OF assms(1,3,4)]) (simp_all add: assms(5) same_cacheD [OF assms(2)])

lemma emits_same:
  assumes "emits J J' is"
  shows "same_cache J J'" "same_env J J'" "keep J' = keep J"
  using assms by (auto simp: emits_def same_cache_def same_env_def intro: keep_cong)

section \<open>Single operations\<close>

lemma mov_imm_step: "xstep (mov_imm_insn r v) M = Some (set_r r v M)"
proof (cases "v \<le> 0xffffffff")
  case True
  then have "unat v < 2 ^ 32" by (simp add: word_le_nat_alt)
  then have "(ucast (ucast v :: u32) :: u64) = v"
    by (simp add: word_unat_eq_iff unsigned_ucast_eq take_bit_eq_mod unat_mod)
  then show ?thesis using True by (simp add: mov_imm_insn_def)
qed (simp add: mov_imm_insn_def is_imm32_def)

lemma disp_of: "fits_disp a \<Longrightarrow> BIAS + scast (disp_of a) = a"
proof -
  assume "fits_disp a"
  then have a: "uint a < 2 ^ 32" by (simp add: fits_disp_def BIAS_def word_less_def)
  have "uint (a - BIAS) = (uint a - 0x80000000) mod 2 ^ 64" by (simp add: uint_word_ariths BIAS_def)
  have "sint (disp_of a) = signed_take_bit 31 (uint (a - BIAS))" by (simp add: disp_of_def signed_ucast_eq)
  also have "\<dots> = signed_take_bit 31 (uint a - 0x80000000)"
  proof -
    have "take_bit 32 (uint (a - BIAS)) = take_bit 32 (uint a - 0x80000000)"
      unfolding \<open>uint (a - BIAS) = _\<close> by (simp add: take_bit_eq_mod mod_mod_cancel)
    then show ?thesis by (simp only: signed_take_bit_eq_iff_take_bit_eq) simp
  qed
  also have "\<dots> = uint a - 0x80000000" using a by (simp add: signed_take_bit_int_eq_self_iff)
  finally have "scast (disp_of a) = (of_int (uint a - 0x80000000) :: u64)" by (simp add: scast_eq)
  then show ?thesis by (simp add: BIAS_def)
qed

lemma cache_ok_cong:
  assumes "cache_ok X J M g" "\<And>v a. has J' v a \<Longrightarrow> has J v a" "alias_regs J'"
    and "\<And>r. names J' r \<noteq> {} \<or> r = R15 \<Longrightarrow> xr M' r = xr M r"
  shows "cache_ok X J' M' g"
proof -
  have "val_of M' v = val_of M v" if "has J' v a" for v a
    using that assms(4) by (cases v) (auto simp: has_def)
  note v = this
  have c: "cacheable a \<and> (a \<notin> X \<longrightarrow> rd g a = val_of M v)" if "has J' v a" for v a
    using assms(1) assms(2) [OF that] unfolding cache_ok_def by blast
  have "xr M' R15 = BIAS" using assms(1,4) by (simp add: cache_ok_def)
  then show ?thesis using assms(3) c v unfolding cache_ok_def by simp
qed

lemma names_areg: "alias_regs J \<Longrightarrow> names J r \<noteq> {} \<Longrightarrow> areg r"
  by (auto simp: names_def alias_regs_def)

lemma names_has: "names J r \<noteq> {} \<Longrightarrow> \<exists>a. has J (VReg r) a \<or> has J (VNeg r) a"
proof -
  assume "names J r \<noteq> {}"
  then obtain a s where "(a, s) \<in> names J r" by auto
  then show ?thesis by (cases s) (auto simp: has_def)
qed

lemma emits_has:
  assumes "emits J J' is"
  shows "names J' = names J" "has J' = has J" "alias_regs J' = alias_regs J" "t_pend J' = t_pend J"
    "t_pend_addr J' = t_pend_addr J" "t_movbe J' = t_movbe J" "keep J' = keep J" "t_flags_live J' = t_flags_live J"
  using emits_same [OF assms] same_cacheD by (auto simp: same_env_def)

section \<open>Taking registers: what the functions that need some rely on\<close>

text \<open>
  \<open>sc\<close> takes a register: whatever it emits leaves the registers in use alone, and the register it
  gives is pinned and stands for no word. \<open>inv\<close> is about the cache's words, the registers they are
  in, and memory.
\<close>

locale reg_source =
  fixes sc :: "trans \<Rightarrow> (u8 \<times> trans) option" and inv :: "trans \<Rightarrow> mach \<Rightarrow> bool"
  assumes taken: "inv J M \<Longrightarrow> sc J = Some (r, J') \<Longrightarrow>
      \<exists>M'. eff J M J' M' \<and> inv J' M' \<and> areg r \<and> \<not> keep J r \<and> keep J' r \<and> names J' r = {}"
    and inv_cong: "inv J M \<Longrightarrow> same_cache J J' \<Longrightarrow> (\<And>q. names J q \<noteq> {} \<or> q = R15 \<Longrightarrow> xr M' q = xr M q) \<Longrightarrow>
      xmem M' = xmem M \<Longrightarrow> inv J' M'"
    and inv_r15: "inv J M \<Longrightarrow> xr M R15 = BIAS"
begin

text \<open>Setting a register just taken.\<close>

lemma set_taken:
  assumes "eff J0 M0 J1 M1" "inv J1 M1" "emits J1 J2 [i]" "xstep i M1 = Some M2"
    and "\<not> keep J0 r" "areg r" "names J1 r = {}"
    and "xr M2 = (xr M1)(r := x)" "xmem M2 = xmem M1" "t_flags_live J0 \<Longrightarrow> same_flags M1 M2"
  shows "eff J0 M0 J2 M2 \<and> inv J2 M2 \<and> names J2 r = {} \<and> (keep J1 r \<longrightarrow> keep J2 r) \<and> xr M2 r = x"
proof -
  have n: "names J2 = names J1" "keep J2 = keep J1" using emits_has [OF assms(3)] by simp_all
  have "eff J0 M0 J2 M2" by (rule eff_emit [OF assms(1,3,4)]) (use assms(5,8,10) in auto)
  moreover have "inv J2 M2"
  proof (rule inv_cong [OF assms(2) emits_same(1) [OF assms(3)] _ assms(9)])
    fix q assume "names J1 q \<noteq> {} \<or> q = R15"
    then have "q \<noteq> r" using assms(7) areg_bounds [OF assms(6)] by auto
    then show "xr M2 q = xr M1 q" by (simp add: assms(8))
  qed
  ultimately show ?thesis using assms(7,8) n by simp
qed

lemma to_reg_with_spec:
  assumes "inv J M" "to_reg_with sc v J = Some (r, J')" "v \<noteq> VNone"
    and "\<And>q. v = VReg q \<or> v = VNeg q \<Longrightarrow> areg q \<and> keep J q"
  shows "\<exists>M'. eff J M J' M' \<and> inv J' M' \<and> xr M' r = val_of M v \<and> areg r \<and> keep J' r \<and>
    (v = VReg r \<or> \<not> keep J r \<and> names J' r = {})"
proof (cases v)
  case (VReg q)
  then have "J' = J" "r = q" using assms(2) by (simp_all add: to_reg_with_def)
  then show ?thesis using VReg assms(1,4) by (intro exI [of _ M]) simp
next
  case (VConst c)
  then obtain J1 where s: "sc J = Some (r, J1)" "J' = mov_imm r c J1"
    using assms(2) by (auto simp: to_reg_with_def split: bind_splits)
  obtain M1 where t: "eff J M J1 M1" "inv J1 M1" "areg r" "\<not> keep J r" "keep J1 r" "names J1 r = {}"
    using taken [OF assms(1) s(1)] by blast
  have e: "emits J1 J' [mov_imm_insn r c]" unfolding s(2) using areg_bounds [OF t(3)] by (intro emits_mov_imm) simp
  have "eff J M J' (set_r r c M1) \<and> inv J' (set_r r c M1) \<and> names J' r = {} \<and> (keep J1 r \<longrightarrow> keep J' r) \<and> xr (set_r r c M1) r = c"
    by (rule set_taken [OF t(1,2) e mov_imm_step t(4,3,6)]) (simp_all add: same_flags_def)
  then show ?thesis using VConst t by (intro exI [of _ "set_r r c M1"]) simp
next
  case (VNeg q)
  then have q: "areg q" "keep J q" using assms(4) by simp_all
  obtain J1 where s: "sc (pin q J) = Some (r, J1)" "J' = negate r (mov_rr r q J1)"
    using assms(2) VNeg by (auto simp: to_reg_with_def split: bind_splits)
  have p: "same_cache J (pin q J)" "em_code (pin q J) = em_code J" "same_env J (pin q J)" "\<And>k. keep J k \<Longrightarrow> keep (pin q J) k"
    by (auto simp: pin_def upd_reg_def same_cache_def same_env_def keep_def split: option.splits)
  have i0: "inv (pin q J) M" using inv_cong [OF assms(1) p(1)] by simp
  have e0: "eff J M (pin q J) M"
    by (rule eff_state [OF eff_refl p(2,3)]) (use p same_cacheD [OF p(1)] in auto)
  obtain M1 where t: "eff (pin q J) M J1 M1" "inv J1 M1" "areg r" "\<not> keep (pin q J) r" "keep J1 r" "names J1 r = {}"
    using taken [OF i0 s(1)] by blast
  have e1: "eff J M J1 M1" using e0 t(1) by (rule eff_trans)
  have nr: "\<not> keep J r" using t(4) p(4) by blast
  have b: "r < 16" "q < 16" using areg_bounds t(3) q(1) by auto
  have fl: "t_flags_live J1 = t_flags_live J" using effD(2) [OF e1] by (simp add: same_env_def)
  let ?J2 = "mov_rr r q J1" and ?M2 = "set_r r (xr M1 q) M1"
  have m: "eff J M ?J2 ?M2 \<and> inv ?J2 ?M2 \<and> names ?J2 r = {} \<and> (keep J1 r \<longrightarrow> keep ?J2 r) \<and> xr ?M2 r = xr M1 q"
    by (rule set_taken [OF e1 t(2) emits_rr(1) [OF b] _ nr t(3,6)]) (simp_all add: same_flags_def)
  note m1 = m [THEN conjunct1] and m2 = m [THEN conjunct2, THEN conjunct1]
  have k2: "keep ?J2 r" using m t(5) by simp
  have fl2: "t_flags_live ?J2 = t_flags_live J" using emits_has(8) [OF emits_rr(1) [OF b]] fl by simp
  have x: "xr M1 q = xr M q" using effD(4) [OF e1 q(2)] .
  show ?thesis
  proof (cases "t_flags_live J")
    case False
    then have n: "J' = neg_r r ?J2" using s(2) fl2 by (simp add: negate_def)
    let ?M3 = "set_r r (- xr ?M2 r) (flags_sub 0 (xr ?M2 r) ?M2)"
    have "eff J M J' ?M3 \<and> inv J' ?M3 \<and> names J' r = {} \<and> (keep ?J2 r \<longrightarrow> keep J' r) \<and> xr ?M3 r = - xr M1 q"
      unfolding n by (rule set_taken [OF m1 m2 emits_r(1) [OF b(1)] _ nr t(3)]) (use m False in simp_all)
    then show ?thesis using VNeg t(3) k2 nr x by (intro exI [of _ ?M3]) simp
  next
    case True
    let ?N = "modrm_reg 2 r (e8 0xf7 (rex 1 0 0 r ?J2))"
    have n: "J' = op_mem 0x8d r r 1 ?N" using s(2) fl2 True by (simp add: negate_def)
    have en: "emits ?J2 ?N [XNot True (Reg r)]" by (rule emits_reg0; simp add: b decode_simps)
    let ?M3 = "set_r r (NOT (xr ?M2 r)) ?M2"
    have m3: "eff J M ?N ?M3 \<and> inv ?N ?M3 \<and> names ?N r = {} \<and> (keep ?J2 r \<longrightarrow> keep ?N r) \<and> xr ?M3 r = NOT (xr M1 q)"
      by (rule set_taken [OF m1 m2 en _ nr t(3)]) (use m in \<open>simp_all add: same_flags_def\<close>)
    note m4 = m3 [THEN conjunct1] and m5 = m3 [THEN conjunct2, THEN conjunct1]
    let ?M4 = "set_r r (xr ?M3 r + scast (1 :: i32)) ?M3"
    have "eff J M J' ?M4 \<and> inv J' ?M4 \<and> names J' r = {} \<and> (keep ?N r \<longrightarrow> keep J' r) \<and> xr ?M4 r = xr ?M3 r + scast (1 :: i32)"
      unfolding n by (rule set_taken [OF m4 m5 emits_mem(3) [OF b(1,1)] _ nr t(3)]) (use m3 in \<open>simp_all add: same_flags_def\<close>)
    moreover have "NOT (xr M1 q) + scast (1 :: i32) = - xr M q" by (simp add: x minus_eq_not_plus_1)
    ultimately show ?thesis using VNeg t(3) k2 nr m3 by (intro exI [of _ ?M4]) simp
  qed
qed (use assms(3) in simp)

text \<open>Loads into a register just taken.\<close>

lemma load_mem_taken:
  assumes "eff J0 M0 J1 M1" "inv J1 M1" "\<not> keep J0 r" "areg r" "names J1 r = {}" "base < 16"
  shows "\<exists>M2. eff J0 M0 (load_mem r base disp J1) M2 \<and> inv (load_mem r base disp J1) M2 \<and>
    names (load_mem r base disp J1) r = {} \<and> (keep J1 r \<longrightarrow> keep (load_mem r base disp J1) r) \<and>
    xr M2 r = rd (xmem M1) (xr M1 base + scast disp) \<and> xmem M2 = xmem M1"
proof -
  have r: "r < 16" using areg_bounds [OF assms(4)] by simp
  let ?v = "load64 (xmem M1) (xr M1 base + scast disp)"
  show ?thesis
  proof (cases "t_movbe J1")
    case True
    then have l: "load_mem r base disp J1 = movbe_mem False r base disp J1" by (simp add: load_mem_def)
    have "eff J0 M0 (movbe_mem False r base disp J1) (set_r r (bswap64 ?v) M1) \<and>
        inv (movbe_mem False r base disp J1) (set_r r (bswap64 ?v) M1) \<and>
        names (movbe_mem False r base disp J1) r = {} \<and> (keep J1 r \<longrightarrow> keep (movbe_mem False r base disp J1) r) \<and>
        xr (set_r r (bswap64 ?v) M1) r = bswap64 ?v"
      by (rule set_taken [OF assms(1,2) emits_movbe(1) [OF r assms(6)] _ assms(3-5)]) (simp_all add: same_flags_def)
    then show ?thesis unfolding l
      by (intro exI [of _ "set_r r (bswap64 ?v) M1"]) (simp add: dawn_readram_def)
  next
    case False
    let ?J2 = "op_mem 0x8b r base disp J1" and ?M2 = "set_r r ?v M1"
    have l: "load_mem r base disp J1 = bswap r ?J2" using False by (simp add: load_mem_def)
    have m: "eff J0 M0 ?J2 ?M2 \<and> inv ?J2 ?M2 \<and> names ?J2 r = {} \<and> (keep J1 r \<longrightarrow> keep ?J2 r) \<and> xr ?M2 r = ?v"
      by (rule set_taken [OF assms(1,2) emits_mem(1) [OF r assms(6)] _ assms(3-5)]) (simp_all add: same_flags_def)
    note m1 = m [THEN conjunct1] and m2 = m [THEN conjunct2, THEN conjunct1]
    have "eff J0 M0 (bswap r ?J2) (set_r r (bswap64 (xr ?M2 r)) ?M2) \<and> inv (bswap r ?J2) (set_r r (bswap64 (xr ?M2 r)) ?M2) \<and>
        names (bswap r ?J2) r = {} \<and> (keep ?J2 r \<longrightarrow> keep (bswap r ?J2) r) \<and>
        xr (set_r r (bswap64 (xr ?M2 r)) ?M2) r = bswap64 (xr ?M2 r)"
      by (rule set_taken [OF m1 m2 emits_bswap [OF r] _ assms(3,4)]) (use m in \<open>simp_all add: same_flags_def\<close>)
    then show ?thesis unfolding l using m
      by (intro exI [of _ "set_r r (bswap64 (xr ?M2 r)) ?M2"]) (simp add: dawn_readram_def)
  qed
qed

lemma mov_imm_taken:
  assumes "eff J0 M0 J1 M1" "inv J1 M1" "\<not> keep J0 r" "areg r" "names J1 r = {}"
  shows "eff J0 M0 (mov_imm r c J1) (set_r r c M1) \<and> inv (mov_imm r c J1) (set_r r c M1) \<and>
    names (mov_imm r c J1) r = {} \<and> (keep J1 r \<longrightarrow> keep (mov_imm r c J1) r) \<and> xr (set_r r c M1) r = c"
proof -
  have r: "r < 16" using areg_bounds [OF assms(4)] by simp
  show ?thesis
    by (rule set_taken [OF assms(1,2) emits_mov_imm [OF r] mov_imm_step assms(3-5)]) (simp_all add: same_flags_def)
qed

lemma mov_rr_taken:
  assumes "eff J0 M0 J1 M1" "inv J1 M1" "\<not> keep J0 r" "areg r" "names J1 r = {}" "q < 16"
  shows "eff J0 M0 (mov_rr r q J1) (set_r r (xr M1 q) M1) \<and> inv (mov_rr r q J1) (set_r r (xr M1 q) M1) \<and>
    names (mov_rr r q J1) r = {} \<and> (keep J1 r \<longrightarrow> keep (mov_rr r q J1) r) \<and> xr (set_r r (xr M1 q) M1) r = xr M1 q"
proof -
  have r: "r < 16" using areg_bounds [OF assms(4)] by simp
  show ?thesis
    by (rule set_taken [OF assms(1,2) emits_rr(1) [OF r assms(6)] _ assms(3-5)]) (simp_all add: same_flags_def)
qed

lemma load_static_taken:
  assumes "eff J0 M0 J1 M1" "inv J1 M1" "\<not> keep J0 r" "areg r" "names J1 r = {}"
  shows "\<exists>M2. eff J0 M0 (load_static r a J1) M2 \<and> inv (load_static r a J1) M2 \<and>
    names (load_static r a J1) r = {} \<and> (keep J1 r \<longrightarrow> keep (load_static r a J1) r) \<and>
    xr M2 r = rd (xmem M1) a \<and> xmem M2 = xmem M1"
proof (cases "fits_disp a")
  case True
  then have "xr M1 R15 + scast (disp_of a) = a" using inv_r15 [OF assms(2)] disp_of [OF True] by simp
  then show ?thesis
    using load_mem_taken [OF assms reg_bounds(1), of "disp_of a"] True by (simp add: load_static_def)
next
  case False
  have r: "r < 16" using areg_bounds [OF assms(4)] by simp
  note m = mov_imm_taken [OF assms, of a]
  have "\<exists>M2. eff J0 M0 (load_mem r r 0 (mov_imm r a J1)) M2 \<and> inv (load_mem r r 0 (mov_imm r a J1)) M2 \<and>
    names (load_mem r r 0 (mov_imm r a J1)) r = {} \<and> (keep (mov_imm r a J1) r \<longrightarrow> keep (load_mem r r 0 (mov_imm r a J1)) r) \<and>
    xr M2 r = rd (xmem (set_r r a M1)) (xr (set_r r a M1) r + scast (0 :: i32)) \<and> xmem M2 = xmem (set_r r a M1)"
    by (rule load_mem_taken) (use m assms(3,4) r in auto)
  then show ?thesis using False m by (auto simp: load_static_def)
qed

end

text \<open>Stores are made while taking registers changes no memory.\<close>

locale idle_source = reg_source +
  fixes m :: mem
  assumes inv_mem: "inv J M \<Longrightarrow> xmem M = m"
begin

lemma store_step:
  assumes "eff J0 M0 J1 M1" "inv J1 M1" "emits J1 J2 [i]" "xstep i M1 = Some (M1\<lparr>xmem := w\<rparr>)"
  shows "\<exists>M2. eff J0 M0 J2 M2 \<and> inv J2 (M2\<lparr>xmem := m\<rparr>) \<and> xmem M2 = w"
proof (intro exI conjI)
  show "eff J0 M0 J2 (M1\<lparr>xmem := w\<rparr>)"
    by (rule eff_emit [OF assms(1,3,4)]) (simp_all add: same_flags_def)
  have "inv J2 M1" by (rule inv_cong [OF assms(2) emits_same(1) [OF assms(3)]]) simp_all
  moreover have "M1\<lparr>xmem := w\<rparr>\<lparr>xmem := m\<rparr> = M1" using inv_mem [OF assms(2)] by simp
  ultimately show "inv J2 (M1\<lparr>xmem := w\<rparr>\<lparr>xmem := m\<rparr>)" by simp
qed simp

text \<open>The store itself, with the address in \<open>base\<close>.\<close>

lemma store_at:
  assumes "eff J M J1 M1" "inv J1 M1" "base < 16" "keep J1 base" "r < 16" "keep J r" "xr M1 base + scast disp = b"
    and "(if t_movbe J1 then Some (movbe_mem True r base disp J1)
          else do { (t, J) \<leftarrow> sc J1; let J = mov_rr t r J; let J = bswap t J; Some (op_mem 0x89 t base disp J) }) = Some J'"
  shows "\<exists>M'. eff J M J' M' \<and> inv J' (M'\<lparr>xmem := m\<rparr>) \<and> xmem M' = wr m b (xr M r)"
proof -
  have x: "xr M1 r = xr M r" using effD(4) [OF assms(1,6)] .
  show ?thesis
  proof (cases "t_movbe J1")
    case True
    then have n: "J' = movbe_mem True r base disp J1" using assms(8) by simp
    show ?thesis
      unfolding n by (rule store_step [OF assms(1,2) emits_movbe(2) [OF assms(5,3)]])
        (simp add: assms(7) x dawn_writeram_def inv_mem [OF assms(2)])
  next
    case False
    then obtain t J2 where s: "sc J1 = Some (t, J2)" "J' = op_mem 0x89 t base disp (bswap t (mov_rr t r J2))"
      using assms(8) by (auto simp: Let_def split: bind_splits)
    obtain M2 where t: "eff J1 M1 J2 M2" "inv J2 M2" "areg t" "\<not> keep J1 t" "keep J2 t" "names J2 t = {}"
      using taken [OF assms(2) s(1)] by blast
    have tb: "t < 16" using areg_bounds [OF t(3)] by simp
    note e2 = eff_trans [OF assms(1) t(1)]
    have nt: "\<not> keep J t" using t(4) effD(3) [OF assms(1)] by blast
    let ?J3 = "mov_rr t r J2" and ?M3 = "set_r t (xr M2 r) M2"
    note c = mov_rr_taken [OF e2 t(2) nt t(3,6) assms(5)]
    note c1 = c [THEN conjunct1] and c2 = c [THEN conjunct2, THEN conjunct1]
    let ?J4 = "bswap t ?J3" and ?M4 = "set_r t (bswap64 (xr ?M3 t)) ?M3"
    have d: "eff J M ?J4 ?M4 \<and> inv ?J4 ?M4 \<and> names ?J4 t = {} \<and> (keep ?J3 t \<longrightarrow> keep ?J4 t) \<and> xr ?M4 t = bswap64 (xr ?M3 t)"
      by (rule set_taken [OF c1 c2 emits_bswap [OF tb] _ nt t(3)]) (use c in \<open>simp_all add: same_flags_def\<close>)
    note d1 = d [THEN conjunct1] and d2 = d [THEN conjunct2, THEN conjunct1]
    have "base \<noteq> t" using t(4) assms(4) by blast
    then have b: "xr ?M4 base = xr M1 base" using effD(4) [OF t(1) assms(4)] by simp
    have "xr M2 r = xr M r" using effD(4) [OF e2 assms(6)] .
    then have v: "xr ?M4 t = bswap64 (xr M r)" by simp
    have "xmem ?M4 = m" by (rule inv_mem [OF d2])
    then show ?thesis
      unfolding s(2) by (intro store_step [OF d1 d2 emits_mem(2) [OF tb assms(3)]])
        (simp only: xstep.simps ea.simps b v assms(7) dawn_writeram_def)
  qed
qed

lemma store_reg_with_spec:
  assumes "inv J M" "store_reg_with sc r dyn a base J = Some J'" "r < 16" "keep J r"
    and "dyn \<Longrightarrow> base < 16 \<and> keep J base"
  shows "\<exists>M'. eff J M J' M' \<and> inv J' (M'\<lparr>xmem := m\<rparr>) \<and> xmem M' = wr m (if dyn then xr M base else a) (xr M r)"
proof -
  consider (dyn) "dyn" | (disp) "\<not> dyn" "fits_disp a" | (far) "\<not> dyn" "\<not> fits_disp a" by blast
  then show ?thesis
  proof cases
    case dyn
    then show ?thesis using assms(2,5) store_at [OF eff_refl assms(1) _ _ assms(3,4), of base 0]
      by (simp add: store_reg_with_def)
  next
    case disp
    have "keep J R15" by (rule keep_fixed) simp
    then show ?thesis
      using disp assms(2) store_at [OF eff_refl assms(1) reg_bounds(1) _ assms(3,4), of "disp_of a" a]
        inv_r15 [OF assms(1)] disp_of [of a]
      by (simp add: store_reg_with_def)
  next
    case far
    obtain b J1 where s: "sc J = Some (b, J1)" using far assms(2) by (auto simp: store_reg_with_def split: bind_splits)
    obtain M1 where t: "eff J M J1 M1" "inv J1 M1" "areg b" "\<not> keep J b" "keep J1 b" "names J1 b = {}"
      using taken [OF assms(1) s] by blast
    note c = mov_imm_taken [OF t(1,2,4,3,6), of a]
    note c1 = c [THEN conjunct1] and c2 = c [THEN conjunct2, THEN conjunct1]
    have "b < 16" using areg_bounds [OF t(3)] by simp
    then show ?thesis
      using store_at [OF c1 c2 _ _ assms(3,4), of b 0 a] c t(5) far assms(2) s by (simp add: store_reg_with_def)
  qed
qed

lemma store_const_with_spec:
  assumes "inv J M" "store_const_with sc v dyn a base J = Some J'" "dyn \<Longrightarrow> base < 16 \<and> keep J base"
  shows "\<exists>M'. eff J M J' M' \<and> inv J' (M'\<lparr>xmem := m\<rparr>) \<and> xmem M' = wr m (if dyn then xr M base else a) v"
proof -
  let ?be = "bswap64 v"
  have k15: "keep J R15" by (rule keep_fixed) simp
  show ?thesis
  proof (cases "\<not> dyn \<and> fits_disp a \<and> is_imm32 ?be")
    case True
    let ?N = "mem_operand 0 R15 (disp_of a) (e8 0xc7 (rex 1 0 0 R15 J))"
    have n: "J' = e32 (ucast ?be) ?N" using assms(2) True by (simp add: store_const_with_def Let_def)
    have e: "emits J (e32 (ucast ?be) ?N) [XMovImm True (Mem R15 (disp_of a)) (ucast ?be)]"
      by (rule emits_mem32; simp add: decode_simps)
    have "xstep (XMovImm True (Mem R15 (disp_of a)) (ucast ?be)) M = Some (M\<lparr>xmem := wr m a v\<rparr>)"
      using inv_r15 [OF assms(1)] disp_of [of a] True inv_mem [OF assms(1)]
      by (simp add: dawn_writeram_def is_imm32_def)
    then show ?thesis unfolding n using store_step [OF eff_refl assms(1) e] True by auto
  next
    case False
    obtain t J1 where s: "sc J = Some (t, J1)" using False assms(2) by (auto simp: store_const_with_def Let_def split: bind_splits if_splits)
    obtain M1 where t: "eff J M J1 M1" "inv J1 M1" "areg t" "\<not> keep J t" "keep J1 t" "names J1 t = {}"
      using taken [OF assms(1) s] by blast
    have tb: "t < 16" using areg_bounds [OF t(3)] by simp
    let ?J2 = "mov_imm t ?be J1" and ?M2 = "set_r t ?be M1"
    note c = mov_imm_taken [OF t(1,2,4,3,6), of ?be]
    note c1 = c [THEN conjunct1] and c2 = c [THEN conjunct2, THEN conjunct1]
    have st: "\<exists>M'. eff J M (op_mem 0x89 t b d J3) M' \<and> inv (op_mem 0x89 t b d J3) (M'\<lparr>xmem := m\<rparr>) \<and> xmem M' = wr m x v"
      if "eff J M J3 M3" "inv J3 M3" "b < 16" "xr M3 t = ?be" "xr M3 b + scast d = x" for J3 M3 b d x
      by (rule store_step [OF that(1,2) emits_mem(2) [OF tb that(3)]])
        (simp add: that(4,5) dawn_writeram_def inv_mem [OF that(2)])
    consider (dyn) "dyn" | (disp) "\<not> dyn" "fits_disp a" | (far) "\<not> dyn" "\<not> fits_disp a" by blast
    then show ?thesis
    proof cases
      case dyn
      then have n: "J' = op_mem 0x89 t base 0 ?J2" using assms(2) False s by (simp add: store_const_with_def Let_def)
      have b: "base < 16" "keep J base" using assms(3) [OF dyn] by auto
      have "base \<noteq> t" using b(2) t(4) by blast
      then have "xr ?M2 base + scast (0 :: i32) = xr M base" using effD(4) [OF t(1) b(2)] by simp
      from st [OF c1 c2 b(1) _ this] show ?thesis unfolding n using dyn by simp
    next
      case disp
      then have n: "J' = op_mem 0x89 t R15 (disp_of a) ?J2" using assms(2) False s by (simp add: store_const_with_def Let_def)
      have "xr ?M2 R15 + scast (disp_of a) = a" using inv_r15 [OF c2] disp_of [OF disp(2)] by simp
      from st [OF c1 c2 reg_bounds(1) _ this] show ?thesis unfolding n using disp by simp
    next
      case far
      obtain b J3 where s2: "sc ?J2 = Some (b, J3)" "J' = op_mem 0x89 t b 0 (mov_imm b a J3)"
        using assms(2) False s far by (auto simp: store_const_with_def Let_def split: bind_splits)
      obtain M3 where u: "eff ?J2 ?M2 J3 M3" "inv J3 M3" "areg b" "\<not> keep ?J2 b" "keep J3 b" "names J3 b = {}"
        using taken [OF c2 s2(1)] by blast
      note e3 = eff_trans [OF c1 u(1)]
      have nb: "\<not> keep J b" using u(4) effD(3) [OF c1] by blast
      note d = mov_imm_taken [OF e3 u(2) nb u(3,6), of a]
      note d1 = d [THEN conjunct1] and d2 = d [THEN conjunct2, THEN conjunct1]
      have kt: "keep ?J2 t" using c t(5) by simp
      then have "b \<noteq> t" using u(4) by blast
      then have "xr (set_r b a M3) t = ?be" using effD(4) [OF u(1) kt] by simp
      moreover have "b < 16" using areg_bounds [OF u(3)] by simp
      ultimately show ?thesis unfolding s2(2) using st [OF d1 d2, of b 0 a] far by simp
    qed
  qed
qed

end

section \<open>Releasing and taking\<close>

definition idle :: "u64 set \<Rightarrow> mem \<Rightarrow> mem \<Rightarrow> trans \<Rightarrow> mach \<Rightarrow> bool" where
  "idle X g m J M \<longleftrightarrow> \<not> t_pend J \<and> cache_ok X J M g \<and> xmem M = m"

definition drop_reg :: "u8 \<Rightarrow> trans \<Rightarrow> trans" where
  "drop_reg r J =
     (let J = (case reg_index r of Some i \<Rightarrow> upd_reg i (\<lambda>R. R\<lparr>cr_used := False\<rparr>) J | None \<Rightarrow> J)
      in J\<lparr>t_aliases := (\<lambda>i. let A = t_aliases J i in if i < NALIAS \<and> ca_used A \<and> ca_reg A = r then A\<lparr>ca_used := False\<rparr> else A)\<rparr>)"

lemma drop_reg_entries:
  "i < NREGS \<Longrightarrow> cr_used (t_regs (drop_reg r J) i) \<longleftrightarrow> cr_used (t_regs J i) \<and> alloc_regs ! i \<noteq> r"
  "cr_addr (t_regs (drop_reg r J) i) = cr_addr (t_regs J i)"
  "i < NALIAS \<Longrightarrow> ca_used (t_aliases (drop_reg r J) i) \<longleftrightarrow> ca_used (t_aliases J i) \<and> ca_reg (t_aliases J i) \<noteq> r"
  "ca_addr (t_aliases (drop_reg r J) i) = ca_addr (t_aliases J i)" "ca_reg (t_aliases (drop_reg r J) i) = ca_reg (t_aliases J i)"
  "ca_neg (t_aliases (drop_reg r J) i) = ca_neg (t_aliases J i)"
proof -
  show "cr_used (t_regs (drop_reg r J) i) \<longleftrightarrow> cr_used (t_regs J i) \<and> alloc_regs ! i \<noteq> r" if "i < NREGS"
  proof (cases "alloc_regs ! i = r")
    case True
    then have "reg_index r = Some i" using that by auto
    then show ?thesis using True by (simp add: drop_reg_def upd_reg_def)
  next
    case False
    then have "reg_index r \<noteq> Some i" using reg_indexD by blast
    then show ?thesis using False by (auto simp: drop_reg_def upd_reg_def Let_def split: option.splits)
  qed
qed (auto simp: drop_reg_def upd_reg_def Let_def split: option.splits)

lemma names_drop_reg: "names (drop_reg r J) q = (if q = r then {} else names J q)"
  unfolding names_def drop_reg_entries using drop_reg_entries(1,3) by auto

lemma drop_reg_facts:
  shows "em_code (drop_reg r J) = em_code J" "same_env J (drop_reg r J)" "keep (drop_reg r J) = keep J"
    "const_words (drop_reg r J) = const_words J" "alias_regs J \<Longrightarrow> alias_regs (drop_reg r J)"
    "t_pend (drop_reg r J) = t_pend J" "t_pend_addr (drop_reg r J) = t_pend_addr J"
proof -
  show "em_code (drop_reg r J) = em_code J" "same_env J (drop_reg r J)"
    "t_pend (drop_reg r J) = t_pend J" "t_pend_addr (drop_reg r J) = t_pend_addr J" "const_words (drop_reg r J) = const_words J"
    by (simp_all add: drop_reg_def upd_reg_def same_env_def const_words_def Let_def split: option.splits)
  show "keep (drop_reg r J) = keep J"
    by (rule keep_cong) (simp add: drop_reg_def upd_reg_def Let_def split: option.splits)
  show "alias_regs J \<Longrightarrow> alias_regs (drop_reg r J)"
    by (simp add: alias_regs_def drop_reg_entries)
qed

lemma has_drop_reg: "has (drop_reg r J) v a \<longleftrightarrow> has J v a \<and> v \<noteq> VReg r \<and> v \<noteq> VNeg r"
  by (cases v) (auto simp: has_def names_drop_reg drop_reg_facts(4))

lemma cache_ok_drop: "cache_ok X J M g \<Longrightarrow> cache_ok X (drop_reg r J) M g"
  by (rule cache_ok_cong) (auto simp: has_drop_reg cache_ok_def drop_reg_facts(5))

lemma release_with_drop:
  "release_with fl r J =
     (if t_pend J
      then (let (v, J1) = cache_find (t_pend_addr J) J
            in map_option (drop_reg r) (if v = VReg r \<or> v = VNeg r then fl J1 else Some J1))
      else Some (drop_reg r J))"
  by (simp add: release_with_def drop_reg_def Let_def map_conv_bind_option comp_def split: prod.splits)

text \<open>The one taken is pinned, then released.\<close>

lemma pick_reg_spec: "pick_reg J best is = Some i \<Longrightarrow> best = Some i \<or> i \<in> set is \<and> \<not> cr_pinned (t_regs J i)"
  by (induction J best "is" rule: pick_reg.induct) (auto split: if_splits option.splits)

lemma scratch_withE:
  assumes "scratch_with rel J = Some (r, J')"
  obtains i where "i < NREGS" "r = alloc_regs ! i" "\<not> keep J r"
    "rel r (upd_reg i (\<lambda>R. R\<lparr>cr_pinned := True\<rparr>) J) = Some J'"
proof -
  obtain i where p: "pick_reg J None [0..<NREGS] = Some i" "r = alloc_regs ! i"
    "rel r (upd_reg i (\<lambda>R. R\<lparr>cr_pinned := True\<rparr>) J) = Some J'"
    using assms by (auto simp: scratch_with_def split: option.splits bind_splits)
  then have "i < NREGS" "\<not> cr_pinned (t_regs J i)" using pick_reg_spec [OF p(1)] by auto
  then show thesis using that [OF _ p(2) _ p(3)] p(2) by (simp add: keep_def)
qed

lemma pin_index:
  assumes "i < NREGS" "\<not> keep J r" "r = alloc_regs ! i"
  defines "J1 \<equiv> upd_reg i (\<lambda>R. R\<lparr>cr_pinned := True\<rparr>) J"
  shows "same_cache J J1" "eff J M J1 M" "keep J1 r" "\<And>q. keep J1 q \<longleftrightarrow> q = r \<or> keep J q"
proof -
  show s: "same_cache J J1" by (simp add: J1_def upd_reg_def same_cache_def)
  show k: "keep J1 q \<longleftrightarrow> q = r \<or> keep J q" for q
    using reg_indexD [of q i] assms(1,3) by (auto simp: keep_def J1_def upd_reg_def split: option.splits)
  then show "keep J1 r" by simp
  show "eff J M J1 M"
    by (rule eff_state [OF eff_refl]) (use k same_cacheD [OF s] in \<open>auto simp: J1_def upd_reg_def same_env_def\<close>)
qed

lemma eff_drop:
  assumes "eff J M J1 M1" "\<not> keep J r"
  shows "eff J M (drop_reg r J1) M1"
  by (rule eff_state [OF assms(1)]) (use effD(3) [OF assms(1)] assms(2) in \<open>auto simp: drop_reg_facts names_drop_reg\<close>)

interpretation idle_scratch: idle_source "scratch_with (release_with fl)" "idle X g m" m for fl X g m
proof
  fix J M r J'
  assume a: "idle X g m J M" "scratch_with (release_with fl) J = Some (r, J')"
  obtain i where i: "i < NREGS" "r = alloc_regs ! i" "\<not> keep J r"
    "release_with fl r (upd_reg i (\<lambda>R. R\<lparr>cr_pinned := True\<rparr>) J) = Some J'"
    by (rule scratch_withE [OF a(2)])
  let ?J1 = "upd_reg i (\<lambda>R. R\<lparr>cr_pinned := True\<rparr>) J"
  note p = pin_index [OF i(1,3,2)]
  have j: "J' = drop_reg r ?J1" using i(4) a(1) by (simp add: release_with_drop idle_def upd_reg_def)
  have c: "cache_ok X ?J1 M g"
    by (rule cache_ok_cong) (use a(1) same_cacheD [OF p(1)] in \<open>auto simp: idle_def cache_ok_def\<close>)
  have "eff J M J' M" unfolding j by (rule eff_drop [OF p(2) i(3)])
  moreover have "idle X g m J' M"
    using a(1) cache_ok_drop [OF c] same_cacheD(4) [OF p(1)] by (simp add: j idle_def drop_reg_facts)
  ultimately show "\<exists>M'. eff J M J' M' \<and> idle X g m J' M' \<and> areg r \<and> \<not> keep J r \<and> keep J' r \<and> names J' r = {}"
    using i p(3) by (intro exI [of _ M]) (simp add: j names_drop_reg drop_reg_facts)
next
  fix J M J' and M' :: mach
  assume a: "idle X g m J M" "same_cache J J'" "\<And>q. names J q \<noteq> {} \<or> q = R15 \<Longrightarrow> xr M' q = xr M q" "xmem M' = xmem M"
  have "cache_ok X J' M' g"
    by (rule cache_ok_cong [of X J M]) (use a same_cacheD [OF a(2)] in \<open>auto simp: idle_def cache_ok_def\<close>)
  then show "idle X g m J' M'" using a same_cacheD(4) [OF a(2)] by (simp add: idle_def)
qed (simp_all add: idle_def cache_ok_def)

section \<open>Pins\<close>

lemma upd_pin_facts:
  fixes w :: bool and J :: trans
  assumes "i < NREGS"
  defines "J' \<equiv> upd_reg i (\<lambda>R. R\<lparr>cr_pinned := w\<rparr>) J"
  shows "same_cache J J'" "em_code J' = em_code J" "same_env J J'"
    "keep J' k \<longleftrightarrow> (if k = alloc_regs ! i then w else keep J k)"
proof -
  show "same_cache J J'" "em_code J' = em_code J" "same_env J J'"
    by (simp_all add: J'_def upd_reg_def same_cache_def same_env_def)
  show "keep J' k \<longleftrightarrow> (if k = alloc_regs ! i then w else keep J k)"
  proof (cases "reg_index k")
    case None
    then have "k \<noteq> alloc_regs ! i" using assms(1) by auto
    then show ?thesis using None by (simp add: keep_def)
  next
    case (Some l)
    then have "l < NREGS" "k = alloc_regs ! l" using reg_indexD by auto
    moreover have "alloc_regs ! l = alloc_regs ! i \<longleftrightarrow> l = i" using alloc_regs_nth(4) assms(1) calculation(1) by auto
    ultimately show ?thesis using Some by (simp add: keep_def J'_def upd_reg_def)
  qed
qed

lemma unpin_facts:
  "same_cache J (unpin r J)" "em_code (unpin r J) = em_code J" "same_env J (unpin r J)"
  "keep (unpin r J) k \<longleftrightarrow> keep J k \<and> (k = r \<longrightarrow> \<not> areg r)"
proof -
  have "same_cache J (unpin r J) \<and> em_code (unpin r J) = em_code J \<and> same_env J (unpin r J) \<and>
      (keep (unpin r J) k \<longleftrightarrow> keep J k \<and> (k = r \<longrightarrow> \<not> areg r))"
  proof (cases "reg_index r")
    case None
    then have "\<not> areg r" by (auto elim: aregE)
    then show ?thesis using None by (simp add: unpin_def)
  next
    case (Some i)
    then have i: "i < NREGS" "r = alloc_regs ! i" using reg_indexD by auto
    then show ?thesis using Some upd_pin_facts [OF i(1), where J = J and w = False] by (auto simp: unpin_def)
  qed
  then show "same_cache J (unpin r J)" "em_code (unpin r J) = em_code J" "same_env J (unpin r J)"
    "keep (unpin r J) k \<longleftrightarrow> keep J k \<and> (k = r \<longrightarrow> \<not> areg r)" by blast+
qed

lemma pin_facts:
  "same_cache J (pin r J)" "em_code (pin r J) = em_code J" "same_env J (pin r J)"
  "keep (pin r J) k \<longleftrightarrow> keep J k \<or> k = r"
proof -
  have "same_cache J (pin r J) \<and> em_code (pin r J) = em_code J \<and> same_env J (pin r J) \<and>
      (keep (pin r J) k \<longleftrightarrow> keep J k \<or> k = r)"
  proof (cases "reg_index r")
    case None
    then show ?thesis by (auto simp: pin_def keep_def)
  next
    case (Some i)
    then have i: "i < NREGS" "r = alloc_regs ! i" using reg_indexD by auto
    then show ?thesis using Some upd_pin_facts [OF i(1), where J = J and w = True] by (auto simp: pin_def)
  qed
  then show "same_cache J (pin r J)" "em_code (pin r J) = em_code J" "same_env J (pin r J)"
    "keep (pin r J) k \<longleftrightarrow> keep J k \<or> k = r" by blast+
qed

section \<open>Flushing\<close>

lemma cache_ok_mem [simp]: "cache_ok X J (M\<lparr>xmem := w\<rparr>) g = cache_ok X J M g"
proof -
  have "val_of (M\<lparr>xmem := w\<rparr>) v = val_of M v" for v by (cases v) simp_all
  then show ?thesis by (simp add: cache_ok_def)
qed

lemma cache_ok_same: "same_cache J J' \<Longrightarrow> cache_ok X J' M g = cache_ok X J M g"
  using same_cacheD(3,6) by (simp add: cache_ok_def)

lemma has_val: "cache_ok X J M g \<Longrightarrow> has J v a \<Longrightarrow> a \<notin> X \<Longrightarrow> val_of M v = rd g a"
  by (simp add: cache_ok_def)

lemma has_areg: "cache_ok X J M g \<Longrightarrow> has J v a \<Longrightarrow> v = VReg q \<or> v = VNeg q \<Longrightarrow> areg q"
proof -
  assume a: "cache_ok X J M g" "has J v a" "v = VReg q \<or> v = VNeg q"
  then have "names J q \<noteq> {}" by (auto simp: has_def)
  moreover have "alias_regs J" using a(1) by (simp add: cache_ok_def)
  ultimately show "areg q" by (intro names_areg)
qed

lemma flush_pending_spec:
  assumes "sim J M g" "flush_pending J = Some J'"
  shows "\<exists>M'. eff J M J' M' \<and> sim J' M' g \<and> \<not> t_pend J'"
proof (cases "t_pend J")
  case False
  then have "J' = J" using assms(2) by (simp add: flush_pending_def flush_with_def)
  then show ?thesis using False assms(1) by (intro exI [of _ M]) simp
next
  case True
  let ?pa = "t_pend_addr J" and ?J1 = "J\<lparr>t_pend := False\<rparr>" and ?m = "xmem M"
  have ok: "cache_ok {} J M g" and g: "g = wr ?m ?pa (rd g ?pa)" and ca: "cacheable ?pa" "\<exists>v. has J v ?pa"
    using assms(1) True by (auto simp: sim_def mem_ok_def)
  obtain v J2 where v: "cache_find ?pa ?J1 = (v, J2)" by fastforce
  note f = cache_find_spec [OF v]
  have nc: "names ?J1 = names J" "const_words ?J1 = const_words J" "alias_regs ?J1 = alias_regs J"
    by (simp_all add: names_def const_words_def alias_regs_def fun_eq_iff)
  have kp: "keep ?J1 = keep J" by (rule keep_cong) simp
  have h1: "has ?J1 = has J" by (simp add: has_def nc fun_eq_iff split: cval.splits)
  note h1 = h1 nc kp
  have h2: "names J2 = names J" "has J2 = has J" "\<not> t_pend J2" "t_pend_addr J2 = ?pa"
    using same_cacheD [OF f(1)] h1 by simp_all
  have k2: "keep J2 = keep J" using keep_cong [OF f(4)] h1(5) by simp
  have e2: "eff J M J2 M"
    by (rule eff_state [OF eff_refl]) (use f(2,3) h2 k2 in \<open>auto simp: same_env_def\<close>)
  have ok1: "cache_ok {} ?J1 M g" using ok h1 by (simp add: cache_ok_def)
  have ok2: "cache_ok {} J2 M g" using ok1 cache_ok_same [OF f(1)] by simp
  have i2: "idle {} g ?m J2 M" using ok2 h2(3) by (simp add: idle_def)
  have vn: "v \<noteq> VNone" using f(5) ca h1 by auto
  then have hv: "has J v ?pa" using f(6) h1 by simp
  then have val: "val_of M v = rd g ?pa" using has_val [OF ok] by simp
  show ?thesis
  proof (cases "\<exists>c. v = VConst c")
    case True
    then obtain c where c: "v = VConst c" by blast
    have s: "store_const_with scratch_idle c False ?pa 0 J2 = Some J'"
      using assms(2) \<open>t_pend J\<close> v c h2(4) by (simp add: flush_pending_def flush_with_def)
    obtain M' where t: "eff J2 M J' M'" "idle {} g ?m J' (M'\<lparr>xmem := ?m\<rparr>)" "xmem M' = wr ?m ?pa c"
      using idle_scratch.store_const_with_spec [OF i2 s [unfolded scratch_idle_def]] by auto
    have "xmem M' = g" using t(3) g val c by simp
    then have "sim J' M' g" using t(2) by (simp add: sim_def mem_ok_def idle_def)
    then show ?thesis using eff_trans [OF e2 t(1)] t(2) by (auto simp: idle_def)
  next
    case False
    then obtain q where q: "v = VReg q \<or> v = VNeg q" using vn by (cases v) auto
    have aq: "areg q" using has_areg [OF ok hv q] .
    obtain i where i: "i < NREGS" "q = alloc_regs ! i" "reg_index q = Some i" by (rule aregE [OF aq])
    let ?P = "upd_reg i (\<lambda>R. R\<lparr>cr_pinned := True\<rparr>) J2" and ?was = "cr_pinned (t_regs J2 i)"
    have ri: "(case v of VReg q \<Rightarrow> reg_index q | VNeg q \<Rightarrow> reg_index q | _ \<Rightarrow> None) = Some i"
      using q i(3) by auto
    obtain r J3 J4 where s: "to_reg_with scratch_idle v ?P = Some (r, J3)"
      "store_reg_with scratch_idle r False (t_pend_addr J3) 0 J3 = Some J4"
      "J' = upd_reg i (\<lambda>R. R\<lparr>cr_pinned := ?was\<rparr>) (if r \<noteq> q then unpin r J4 else J4)"
      using assms(2) \<open>t_pend J\<close> v ri q False h2(4) i(2)
      by (auto simp: flush_pending_def flush_with_def Let_def split: bind_splits)
    have ps: "same_cache J2 ?P" "\<And>k. keep ?P k \<longleftrightarrow> k = q \<or> keep J2 k"
      using upd_pin_facts [OF i(1), where J = J2 and w = True] i(2) by auto
    have e3: "eff J M ?P M"
      by (rule eff_state [OF e2]) (use ps k2 same_cacheD [OF ps(1)] in \<open>auto simp: upd_reg_def same_env_def\<close>)
    have i3: "idle {} g ?m ?P M" using i2 same_cacheD(4) [OF ps(1)] cache_ok_same [OF ps(1)] by (simp add: idle_def)
    have aqs: "areg k \<and> keep ?P k" if "v = VReg k \<or> v = VNeg k" for k
      using that q aq ps(2) [of k] by auto
    obtain M1 where t: "eff ?P M J3 M1" "idle {} g ?m J3 M1" "xr M1 r = val_of M v" "areg r" "keep J3 r"
      "v = VReg r \<or> \<not> keep ?P r \<and> names J3 r = {}"
      using idle_scratch.to_reg_with_spec [OF i3 s(1) [unfolded scratch_idle_def] vn aqs] by blast
    have rb: "r < 16" using areg_bounds [OF t(4)] by simp
    have pa: "t_pend_addr J3 = ?pa" using effD(8) [OF t(1)] same_cacheD(5) [OF ps(1)] h2(4) by simp
    obtain M2 where u: "eff J3 M1 J4 M2" "idle {} g ?m J4 (M2\<lparr>xmem := ?m\<rparr>)" "xmem M2 = wr ?m ?pa (xr M1 r)"
      using idle_scratch.store_reg_with_spec [OF t(2) s(2) [unfolded scratch_idle_def] rb t(5)] pa by auto
    have mem: "xmem M2 = g" using u(3) t(3) val g by simp
    have e4: "eff J M J4 M2" using eff_trans [OF eff_trans [OF e3 t(1)] u(1)] .
    have nr: "r \<noteq> q \<Longrightarrow> \<not> keep J r" using t(6) ps(2) k2 q by auto
    let ?U = "if r \<noteq> q then unpin r J4 else J4"
    have us: "same_cache J4 ?U" "em_code ?U = em_code J4" "same_env J4 ?U" "\<And>k. k \<noteq> r \<or> r = q \<Longrightarrow> keep J4 k \<Longrightarrow> keep ?U k"
      using unpin_facts by auto
    have fs: "same_cache ?U J'" "em_code J' = em_code ?U" "same_env ?U J'" "\<And>k. k \<noteq> q \<Longrightarrow> keep ?U k \<Longrightarrow> keep J' k" "keep J' q \<longleftrightarrow> ?was"
      unfolding s(3) using upd_pin_facts [OF i(1)] i(2) by auto
    have was: "keep J q \<longleftrightarrow> ?was" using i(3) f(4) [of i] by (simp add: keep_def)
    have kk: "keep J k \<Longrightarrow> keep J' k" for k
      using was fs(4) [of k] fs(5) us(4) [of k] effD(3) [OF e4, of k] nr by (cases "k = q") auto
    have sc: "same_cache J4 J'" using same_cache_trans [OF us(1) fs(1)] .
    have "eff J M J' M2"
    proof (rule eff_same [OF e4 sc])
      show "em_code J' = em_code J4" using fs(2) us(2) by (rule trans)
      show "same_env J4 J'" using us(3) fs(3) by (rule same_env_trans)
    qed (rule kk)
    moreover have "sim J' M2 g"
      using u(2) mem cache_ok_same [OF sc] same_cacheD(4) [OF sc] by (simp add: sim_def mem_ok_def idle_def)
    moreover have "\<not> t_pend J'" using u(2) same_cacheD(4) [OF sc] by (simp add: idle_def)
    ultimately show ?thesis by blast
  qed
qed

section \<open>The functions as the source has them\<close>

text \<open>With nothing held back \<open>flush_pending\<close> is not called again, so it satisfies the source's recursion.\<close>

definition idle_agree :: "(trans \<Rightarrow> (u8 \<times> trans) option) \<Rightarrow> (trans \<Rightarrow> (u8 \<times> trans) option) \<Rightarrow> bool" where
  "idle_agree s1 s2 \<longleftrightarrow> (\<forall>J. \<not> t_pend J \<longrightarrow> s1 J = s2 J \<and> (\<forall>r J'. s1 J = Some (r, J') \<longrightarrow> \<not> t_pend J'))"

lemma idle_agreeD: "idle_agree s1 s2 \<Longrightarrow> \<not> t_pend J \<Longrightarrow> s1 J = s2 J \<and> (s2 J = Some (r, J') \<longrightarrow> \<not> t_pend J')"
proof -
  assume a: "idle_agree s1 s2" "\<not> t_pend J"
  then have "s1 J = s2 J" by (simp add: idle_agree_def)
  moreover have "\<not> t_pend J'" if "s1 J = Some (r, J')" using a that unfolding idle_agree_def by blast
  ultimately show ?thesis by simp
qed

lemma scratch_agree: "idle_agree scratch_idle scratch"
  unfolding idle_agree_def
proof (intro allI impI)
  fix J :: trans
  assume p: "\<not> t_pend J"
  have "release_with f1 r J1 = release_with f2 r J1 \<and> (\<forall>J'. release_with f1 r J1 = Some J' \<longrightarrow> \<not> t_pend J')"
    if "\<not> t_pend J1" for f1 f2 r J1
    using that by (simp add: release_with_drop drop_reg_facts)
  then show "scratch_idle J = scratch J \<and> (\<forall>r J'. scratch_idle J = Some (r, J') \<longrightarrow> \<not> t_pend J')"
    using p by (auto simp: scratch_idle_def scratch_def scratch_with_def release_def upd_reg_def
        release_with_drop drop_reg_facts split: option.splits bind_splits)
qed

lemma emit_pend [simp]:
  "t_pend (mov_rr a b J) = t_pend J" "t_pend (negate a J) = t_pend J" "t_pend (mov_imm a v J) = t_pend J"
  "t_pend (bswap a J) = t_pend J" "t_pend (pin a J) = t_pend J"
proof -
  show "t_pend (mov_rr a b J) = t_pend J" "t_pend (mov_imm a v J) = t_pend J" "t_pend (bswap a J) = t_pend J"
    by (simp_all add: mov_rr_def mov_imm_def bswap_def rex_def modrm_reg_def e_put Let_def)
  show "t_pend (negate a J) = t_pend J"
    by (simp add: negate_def neg_r_def op_mem_def mem_operand_def rex_def modrm_reg_def e_put Let_def)
  show "t_pend (pin a J) = t_pend J" using same_cacheD(4) [OF pin_facts(1)] .
qed

lemma to_reg_agree:
  assumes "idle_agree s1 s2" "\<not> t_pend J"
  shows "to_reg_with s1 v J = to_reg_with s2 v J \<and> (to_reg_with s2 v J = Some (r, J') \<longrightarrow> \<not> t_pend J')"
proof (cases v)
  case (VNeg q)
  have "\<not> t_pend (pin q J)" using assms(2) by simp
  from idle_agreeD [OF assms(1) this] show ?thesis
    by (auto simp: to_reg_with_def VNeg split: bind_splits)
qed (use idle_agreeD [OF assms] assms(2) in \<open>auto simp: to_reg_with_def split: bind_splits\<close>)

lemma store_reg_agree:
  assumes "idle_agree s1 s2" "\<not> t_pend J"
  shows "store_reg_with s1 r dyn a base J = store_reg_with s2 r dyn a base J"
proof -
  have "s1 J = s2 J" using idle_agreeD [OF assms] by blast
  moreover have "s1 (mov_imm b a J1) = s2 (mov_imm b a J1)" if "s2 J = Some (b, J1)" for b J1
    using idle_agreeD [OF assms, of b J1] that idle_agreeD [OF assms(1), of "mov_imm b a J1"] by simp
  ultimately show ?thesis by (auto simp: store_reg_with_def split: bind_splits intro!: Option.bind_cong)
qed

lemma store_const_agree:
  assumes "idle_agree s1 s2" "\<not> t_pend J"
  shows "store_const_with s1 v dyn a base J = store_const_with s2 v dyn a base J"
proof -
  have "s1 J = s2 J" using idle_agreeD [OF assms] by blast
  moreover have "s1 (mov_imm b w J1) = s2 (mov_imm b w J1)" if "s2 J = Some (b, J1)" for b w J1
    using idle_agreeD [OF assms, of b J1] that idle_agreeD [OF assms(1), of "mov_imm b w J1"] by simp
  ultimately show ?thesis by (auto simp: store_const_with_def Let_def split: bind_splits intro!: Option.bind_cong)
qed

lemma flush_pending_eq: "flush_pending J = flush_with scratch J"
proof (cases "t_pend J")
  case True
  obtain v J2 where c: "cache_find (t_pend_addr J) (J\<lparr>t_pend := False\<rparr>) = (v, J2)" by fastforce
  have p: "\<not> t_pend J2" using same_cacheD(4) [OF cache_find_spec(1) [OF c]] by simp
  have u: "\<not> t_pend (upd_reg i (\<lambda>R. R\<lparr>cr_pinned := True\<rparr>) J2)" for i using p by (simp add: upd_reg_def)
  note t = to_reg_agree [OF scratch_agree u]
  have "to_reg_with scratch_idle w (upd_reg i (\<lambda>R. R\<lparr>cr_pinned := True\<rparr>) J2) =
      to_reg_with scratch w (upd_reg i (\<lambda>R. R\<lparr>cr_pinned := True\<rparr>) J2)" for w i
    using t by blast
  moreover have "store_reg_with scratch_idle r False a b J3 = store_reg_with scratch r False a b J3"
    if "to_reg_with scratch w (upd_reg i (\<lambda>R. R\<lparr>cr_pinned := True\<rparr>) J2) = Some (r, J3)" for w i r J3 a b
    using t [of w i r J3] that store_reg_agree [OF scratch_agree] by blast
  ultimately show ?thesis
    using True store_const_agree [OF scratch_agree p]
    by (auto simp: flush_pending_def flush_with_def c Let_def split: cval.splits option.splits intro!: Option.bind_cong)
qed (simp add: flush_pending_def flush_with_def)

section \<open>Taking registers with a store held back\<close>

interpretation idle_full: idle_source scratch "idle X g m" m for X g m
  unfolding scratch_def release_def by unfold_locales

lemma mem_ok_cong:
  assumes "mem_ok J M g" "t_pend J' = t_pend J" "t_pend_addr J' = t_pend_addr J" "xmem M' = xmem M"
    and "t_pend J \<Longrightarrow> \<exists>v. has J' v (t_pend_addr J)"
  shows "mem_ok J' M' g"
  using assms by (auto simp: mem_ok_def)

lemma sim_same:
  assumes "sim J M g" "same_cache J J'"
  shows "sim J' M g"
proof -
  have "mem_ok J' M g"
    by (rule mem_ok_cong [of J M]) (use assms(1) in \<open>auto simp: sim_def mem_ok_def same_cacheD [OF assms(2)]\<close>)
  then show ?thesis using assms(1) cache_ok_same [OF assms(2)] by (simp add: sim_def)
qed

interpretation full: reg_source scratch "\<lambda>J M. sim J M g" for g
proof
  fix J M r J'
  assume a: "sim J M g" "scratch J = Some (r, J')"
  obtain i where i: "i < NREGS" "r = alloc_regs ! i" "\<not> keep J r"
    "release r (upd_reg i (\<lambda>R. R\<lparr>cr_pinned := True\<rparr>) J) = Some J'"
    using a(2) unfolding scratch_def by (rule scratch_withE)
  let ?J1 = "upd_reg i (\<lambda>R. R\<lparr>cr_pinned := True\<rparr>) J"
  note p = pin_index [OF i(1,3,2)]
  have s1: "sim ?J1 M g" by (rule sim_same [OF a(1) p(1)])
  have "\<exists>J2 M'. J' = drop_reg r J2 \<and> eff J M J2 M' \<and> sim J2 M' g \<and> keep J2 r \<and>
      (t_pend J2 \<longrightarrow> (\<exists>v. has J2 v (t_pend_addr J2) \<and> v \<noteq> VReg r \<and> v \<noteq> VNeg r))"
  proof (cases "t_pend J")
    case False
    then have "J' = drop_reg r ?J1" using i(4) same_cacheD(4) [OF p(1)] by (simp add: release_def release_with_drop)
    then show ?thesis using False s1 p(2,3) same_cacheD(4) [OF p(1)] by (intro exI [of _ ?J1] exI [of _ M]) auto
  next
    case True
    obtain v J2 where c: "cache_find (t_pend_addr ?J1) ?J1 = (v, J2)" by fastforce
    note f = cache_find_spec [OF c]
    have e2: "eff J M J2 M"
      by (rule eff_same [OF p(2) f(1,2,3)]) (use p(4) keep_cong [OF f(4)] in auto)
    have s2: "sim J2 M g" by (rule sim_same [OF s1 f(1)])
    have k2: "keep J2 r" using p(3) keep_cong [OF f(4)] by simp
    have "\<exists>v. has ?J1 v (t_pend_addr ?J1)" "cacheable (t_pend_addr ?J1)"
      using s1 True same_cacheD(4) [OF p(1)] unfolding sim_def mem_ok_def by simp_all
    then have "v \<noteq> VNone" using f(5) by blast
    then have v: "has J2 v (t_pend_addr J2)" using f(6) by (simp add: same_cacheD [OF f(1)])
    show ?thesis
    proof (cases "v = VReg r \<or> v = VNeg r")
      case True
      then obtain J3 where j: "flush_pending J2 = Some J3" "J' = drop_reg r J3"
        using i(4) c \<open>t_pend J\<close> same_cacheD(4) [OF p(1)] by (auto simp: release_def release_with_drop)
      obtain M' where e: "eff J2 M J3 M'" "sim J3 M' g" "\<not> t_pend J3" using flush_pending_spec [OF s2 j(1)] by blast
      then show ?thesis using j(2) eff_trans [OF e2 e(1)] effD(3) [OF e(1) k2] by (intro exI [of _ J3] exI [of _ M']) simp
    next
      case False
      then have "J' = drop_reg r J2"
        using i(4) c \<open>t_pend J\<close> same_cacheD(4) [OF p(1)] by (auto simp: release_def release_with_drop)
      then show ?thesis using e2 s2 k2 v False by (intro exI [of _ J2] exI [of _ M]) auto
    qed
  qed
  then obtain J2 M' where j: "J' = drop_reg r J2" "eff J M J2 M'" "sim J2 M' g" "keep J2 r"
    "t_pend J2 \<longrightarrow> (\<exists>v. has J2 v (t_pend_addr J2) \<and> v \<noteq> VReg r \<and> v \<noteq> VNeg r)" by blast
  have "eff J M J' M'" unfolding j(1) by (rule eff_drop [OF j(2) i(3)])
  moreover have "mem_ok J' M' g"
    by (rule mem_ok_cong [of J2 M']) (use j(3,5) in \<open>auto simp: j(1) sim_def drop_reg_facts has_drop_reg\<close>)
  then have "sim J' M' g" using j(3) cache_ok_drop by (simp add: sim_def j(1))
  ultimately show "\<exists>M'. eff J M J' M' \<and> sim J' M' g \<and> areg r \<and> \<not> keep J r \<and> keep J' r \<and> names J' r = {}"
    using i j(4) by (intro exI [of _ M']) (simp add: j(1) names_drop_reg drop_reg_facts)
next
  fix J M J' and M' :: mach
  assume a: "sim J M g" "same_cache J J'" "\<And>q. names J q \<noteq> {} \<or> q = R15 \<Longrightarrow> xr M' q = xr M q" "xmem M' = xmem M"
  have "cache_ok {} J' M' g"
    by (rule cache_ok_cong [of _ J M]) (use a(1,3) in \<open>auto simp: sim_def cache_ok_def same_cacheD [OF a(2)]\<close>)
  moreover have "mem_ok J' M' g"
    by (rule mem_ok_cong [of J M]) (use a(1,4) in \<open>auto simp: sim_def mem_ok_def same_cacheD [OF a(2)]\<close>)
  ultimately show "sim J' M' g" by (simp add: sim_def)
qed (simp add: sim_def cache_ok_def)

end
