(* ===== verification/Unaligned.thy ===== *)
theory Unaligned
  imports Cache_Sim
begin

text \<open>
  Words read and written across two aligned ones, as the words they are put together from.
\<close>

section \<open>Unaligned words\<close>

lemma bit_rd: "bit (rd m a) n \<longleftrightarrow> n < 64 \<and> bit (m (a + of_nat (7 - n div 8))) (n mod 8)"
proof (cases "n < 64")
  case True
  let ?i = "8 * (7 - n div 8) + n mod 8"
  have d: "?i div 8 = 7 - n div 8" "?i mod 8 = n mod 8" by simp_all
  show ?thesis using True bswap_index(1) [OF True]
    by (simp only: dawn_readram_def Let_def bit_bswap64 bit_load64 d simp_thms)
qed (simp add: dawn_readram_def bit_bswap64)

lemma byte_wr:
  assumes "i < 8" "n < 8"
  shows "bit (wr m a v (a + of_nat i)) n \<longleftrightarrow> bit v (8 * (7 - i) + n)"
proof -
  have d: "(8 * (7 - i) + n) div 8 = 7 - i" "(8 * (7 - i) + n) mod 8 = n" "7 - (7 - i) = i" "8 * (7 - i) + n < 64"
    using assms by simp_all
  have "bit v (8 * (7 - i) + n) \<longleftrightarrow> bit (rd (wr m a v) a) (8 * (7 - i) + n)" by simp
  also have "\<dots> \<longleftrightarrow> bit (wr m a v (a + of_nat i)) n" by (simp only: bit_rd d simp_thms)
  finally show ?thesis by simp
qed

lemma and_not_plus: "(a AND NOT m) + (a AND m) = (a :: u64)"
proof -
  have "(a AND NOT m) AND (a AND m) = 0" "(a AND NOT m) OR (a AND m) = a"
    by (auto simp: bit_eq_iff bit_and_iff bit_or_iff bit_not_iff)
  then show ?thesis using word_plus_and_or [of "a AND NOT m" "a AND m"] by (simp only: add_0)
qed

lemma low_bits:
  fixes a :: u64
  shows "unat (a AND 7) = unat a mod 8" "a = (a AND NOT 7) + of_nat (unat a mod 8)" "(a AND NOT 7) AND 7 = 0"
proof -
  have "a AND 7 = take_bit 3 a" by (simp add: take_bit_eq_mask mask_eq_exp_minus_1)
  then show 1: "unat (a AND 7) = unat a mod 8" by (simp add: take_bit_eq_mod unat_mod_distrib)
  have "a = (a AND NOT 7) + (a AND 7)" by (simp only: and_not_plus)
  then show "a = (a AND NOT 7) + of_nat (unat a mod 8)" unfolding 1 [symmetric] by simp
  have "(a AND NOT m) AND m = 0" for m by (auto simp: bit_eq_iff bit_and_iff bit_not_iff)
  then show "(a AND NOT 7) AND 7 = 0" .
qed

text \<open>The word at \<open>w + j\<close> in the two words it spans.\<close>

lemma rd_spanned:
  assumes "0 < j" "j < 8"
  shows "rd g (w + of_nat j) = push_bit (8 * j) (rd g w) OR drop_bit (64 - 8 * j) (rd g (w + 8))"
proof (rule bit_word_eqI)
  fix n assume "n < LENGTH(64)"
  then have n: "n < 64" by simp
  define q r where "q = n div 8" and "r = n mod 8"
  have q: "q < 8" "r < 8" "n = 8 * q + r" using n by (auto simp: q_def r_def)
  have L: "bit (rd g (w + of_nat j)) n \<longleftrightarrow> bit (g (w + of_nat j + of_nat (7 - q))) r"
    using n by (simp add: bit_rd q_def r_def)
  show "bit (rd g (w + of_nat j)) n = bit (push_bit (8 * j) (rd g w) OR drop_bit (64 - 8 * j) (rd g (w + 8))) n"
  proof (cases "j \<le> q")
    case True
    then have m: "8 * j \<le> n" "n - 8 * j = 8 * (q - j) + r" using q by (auto simp: algebra_simps)
    have dv: "(n - 8 * j) div 8 = q - j" "(n - 8 * j) mod 8 = r" unfolding m(2) using q(2) by simp_all
    have "bit (push_bit (8 * j) (rd g w)) n \<longleftrightarrow> bit (g (w + of_nat (7 - (q - j)))) r"
      using n m(1) less_imp_diff_less [OF n] by (simp add: bit_push_bit_iff bit_rd dv)
    moreover have "\<not> bit (drop_bit (64 - 8 * j) (rd g (w + 8))) n"
    proof -
      have "\<not> 64 - 8 * j + n < 64" using m(1) assms by simp
      then show ?thesis by (simp only: bit_drop_bit_eq comp_def bit_rd simp_thms)
    qed
    moreover have "of_nat j + of_nat (7 - q) = (of_nat (7 - (q - j)) :: u64)"
    proof -
      have "j + (7 - q) = 7 - (q - j)" using True q(1) by simp
      then have "(of_nat (j + (7 - q)) :: u64) = of_nat (7 - (q - j))" by (rule arg_cong)
      then show ?thesis by (simp only: of_nat_add)
    qed
    ultimately show ?thesis unfolding L by (simp add: bit_or_iff add.assoc)
  next
    case False
    then have m: "\<not> 8 * j \<le> n" using q by auto
    have s: "64 - 8 * j + n = 8 * (8 - j + q) + r" using assms q by (simp add: algebra_simps)
    have dv: "(64 - 8 * j + n) div 8 = 8 - j + q" "(64 - 8 * j + n) mod 8 = r"
      unfolding s using q(2) by (simp_all only: div_mult_self4 mod_mult_self4 mod_less div_less)
    have "64 - 8 * j + n < 64" using m assms by simp
    then have "bit (drop_bit (64 - 8 * j) (rd g (w + 8))) n \<longleftrightarrow> bit (g (w + 8 + of_nat (7 - (8 - j + q)))) r"
      by (simp only: bit_drop_bit_eq comp_def bit_rd dv simp_thms)
    moreover have "of_nat j + of_nat (7 - q) = (8 + of_nat (7 - (8 - j + q)) :: u64)"
    proof -
      have "j + (7 - q) = 8 + (7 - (8 - j + q))" using False assms q(1) by simp
      then have "(of_nat (j + (7 - q)) :: u64) = of_nat (8 + (7 - (8 - j + q)))" by simp
      then show ?thesis by (simp only: of_nat_add of_nat_numeral)
    qed
    ultimately show ?thesis unfolding L using m by (simp add: bit_or_iff bit_push_bit_iff add.assoc)
  qed
qed

text \<open>The words that a store to \<open>w + j\<close> reaches.\<close>

lemma rd_wr_spanned:
  assumes "0 < j" "j < 8"
  shows "rd (wr g (w + of_nat j) v) w = (rd g w AND NOT (drop_bit (8 * j) (- 1))) OR drop_bit (8 * j) v"
    and "rd (wr g (w + of_nat j) v) (w + 8) = (rd g (w + 8) AND drop_bit (8 * j) (- 1)) OR push_bit (64 - 8 * j) v"
proof -
  let ?g = "wr g (w + of_nat j) v"
  have inside: "bit (?g (w + of_nat (j + i))) n \<longleftrightarrow> bit v (8 * (7 - i) + n)" if "i < 8" "n < 8" for i n
    using byte_wr [OF that, of g "w + of_nat j" v] by (simp add: add.assoc)
  have outside: "?g (w + of_nat i) = g (w + of_nat i)" if "i < j \<or> j + 8 \<le> i" "i < 16" for i
  proof (rule dawn_writeram_outside, rule notI)
    assume "w + of_nat i - (w + of_nat j) < 8"
    then obtain k where k: "k < 8" "w + of_nat i = w + of_nat j + of_nat k" using in_cell_iff by blast
    then have "(of_nat i :: u64) = of_nat (j + k)" by (simp add: add.assoc)
    then have "unat (of_nat i :: u64) = unat (of_nat (j + k) :: u64)" by (rule arg_cong)
    moreover have "i \<le> 18446744073709551615" "j + k \<le> 18446744073709551615" using that assms k(1) by simp_all
    ultimately have "i = j + k" by (simp only: unat_of_nat_u64)
    then show False using that k(1) by simp
  qed
  have one: "bit (drop_bit (8 * j) (- 1) :: u64) n \<longleftrightarrow> n + 8 * j < 64" for n
    by (auto simp: bit_drop_bit_eq bit_mask_iff)
  show "rd ?g w = (rd g w AND NOT (drop_bit (8 * j) (- 1))) OR drop_bit (8 * j) v"
  proof (rule bit_word_eqI)
    fix n assume "n < LENGTH(64)"
    then have n: "n < 64" by simp
    define q r where "q = n div 8" and "r = n mod 8"
    have q: "q < 8" "r < 8" "n = 8 * q + r" using n by (auto simp: q_def r_def)
    have L: "bit (rd ?g w) n \<longleftrightarrow> bit (?g (w + of_nat (7 - q))) r" "bit (rd g w) n \<longleftrightarrow> bit (g (w + of_nat (7 - q))) r"
      using n by (simp_all add: bit_rd q_def r_def)
    show "bit (rd ?g w) n = bit ((rd g w AND NOT (drop_bit (8 * j) (- 1))) OR drop_bit (8 * j) v) n"
    proof (cases "j \<le> 7 - q")
      case True
      have i: "j + (7 - q - j) = 7 - q" "7 - q - j < 8" "8 * (7 - (7 - q - j)) + r = 8 * j + n" using True q by auto
      have "n + 8 * j < 64" using True q by simp
      then show ?thesis unfolding bit_or_iff bit_and_iff bit_not_iff one L inside [OF i(2) q(2), unfolded i] using n
        by (simp add: bit_drop_bit_eq)
    next
      case False
      then have s: "\<not> n + 8 * j < 64" using q by simp
      then have "\<not> bit v (8 * j + n)" using bit_imp_le_length [of v "8 * j + n"] by auto
      then show ?thesis unfolding bit_or_iff bit_and_iff bit_not_iff one L using s outside [of "7 - q"] False n
        by (simp add: bit_drop_bit_eq)
    qed
  qed
  show "rd ?g (w + 8) = (rd g (w + 8) AND drop_bit (8 * j) (- 1)) OR push_bit (64 - 8 * j) v"
  proof (rule bit_word_eqI)
    fix n assume "n < LENGTH(64)"
    then have n: "n < 64" by simp
    define q r where "q = n div 8" and "r = n mod 8"
    have q: "q < 8" "r < 8" "n = 8 * q + r" using n by (auto simp: q_def r_def)
    have w: "w + 8 + of_nat (7 - q) = w + of_nat (15 - q)" 
    proof -
      have "8 + (7 - q) = 15 - q" using q(1) by simp
      then have "of_nat (8 + (7 - q)) = (of_nat (15 - q) :: u64)" by (rule arg_cong)
      then show ?thesis by (simp add: add.assoc)
    qed
    have L: "bit (rd ?g (w + 8)) n \<longleftrightarrow> bit (?g (w + of_nat (15 - q))) r" "bit (rd g (w + 8)) n \<longleftrightarrow> bit (g (w + of_nat (15 - q))) r"
      using n unfolding w [symmetric] by (simp_all add: bit_rd q_def r_def)
    show "bit (rd ?g (w + 8)) n = bit ((rd g (w + 8) AND drop_bit (8 * j) (- 1)) OR push_bit (64 - 8 * j) v) n"
    proof (cases "8 \<le> q + j")
      case True
      have i: "j + (15 - q - j) = 15 - q" "15 - q - j < 8" "8 * (7 - (15 - q - j)) + r = n - (64 - 8 * j)" using True q assms by auto
      have "\<not> n + 8 * j < 64" "64 - 8 * j \<le> n" using True q by auto
      then show ?thesis unfolding bit_or_iff bit_and_iff one L inside [OF i(2) q(2), unfolded i] using n
        by (simp add: bit_push_bit_iff)
    next
      case False
      then have "n + 8 * j < 64" "\<not> 64 - 8 * j \<le> n" using q by auto
      moreover have "?g (w + of_nat (15 - q)) = g (w + of_nat (15 - q))" by (rule outside) (use False q in auto)
      ultimately show ?thesis unfolding bit_or_iff bit_and_iff one L by (simp add: bit_push_bit_iff)
    qed
  qed
qed

end
