(* ===== verification/Cache_Entries.thy ===== *)
theory Cache_Entries
  imports Unaligned
begin

text \<open>
  The entries of the register cache: taking registers and flushing only forget words, and what
  entering a word adds.
\<close>

section \<open>The cache only forgets\<close>

text \<open>Taking registers and flushing add no word to the cache.\<close>

definition forgets :: "trans \<Rightarrow> trans \<Rightarrow> bool" where
  "forgets J J' \<longleftrightarrow> (\<forall>v a. has J' v a \<longrightarrow> has J v a)"

definition forgetting :: "(trans \<Rightarrow> (u8 \<times> trans) option) \<Rightarrow> bool" where
  "forgetting sc \<longleftrightarrow> (\<forall>J r J'. sc J = Some (r, J') \<longrightarrow> forgets J J')"

lemma forgets_refl [simp]: "forgets J J"
  by (simp add: forgets_def)

lemma forgets_trans: "forgets J J1 \<Longrightarrow> forgets J1 J2 \<Longrightarrow> forgets J J2"
  by (simp add: forgets_def)

lemma forgets_same: "same_cache J J' \<Longrightarrow> forgets J J'"
  by (simp add: forgets_def same_cacheD)

lemma forgettingD: "forgetting sc \<Longrightarrow> sc J = Some (r, J') \<Longrightarrow> forgets J J'"
  by (simp add: forgetting_def)

lemma has_put [simp]: "has (put bs J) = has J"
  by (simp add: has_def names_def const_words_def fun_eq_iff split: cval.splits)

lemma has_emit [simp]:
  "has (mov_rr a b J) = has J" "has (mov_imm a v J) = has J" "has (bswap a J) = has J" "has (neg_r a J) = has J"
  "has (op_mem c a b d J) = has J" "has (movbe_mem st a b d J) = has J" "has (negate a J) = has J"
  "has (load_mem a b d J) = has J" "has (load_static a w J) = has J"
proof -
  show 1: "has (mov_rr a b J) = has J" "has (mov_imm a v J) = has J" "has (bswap a J) = has J" "has (neg_r a J) = has J"
    "has (op_mem c a b d J) = has J" "has (movbe_mem st a b d J) = has J" for c b d st v J
    by (simp_all add: mov_rr_def mov_imm_def bswap_def neg_r_def op_mem_def movbe_mem_def mem_operand_def rex_def modrm_reg_def
        e_put Let_def)
  show "has (negate a J) = has J"
    by (simp add: negate_def neg_r_def op_mem_def mem_operand_def rex_def modrm_reg_def e_put Let_def)
  show 2: "has (load_mem a b d J) = has J" for b d J by (simp add: load_mem_def 1 Let_def)
  show "has (load_static a w J) = has J" by (simp add: load_static_def 1 2 Let_def)
qed

lemma forgets_emit [simp]:
  "forgets J (mov_rr a b J') = forgets J J'" "forgets J (mov_imm a v J') = forgets J J'" "forgets J (bswap a J') = forgets J J'"
  "forgets J (op_mem c a b d J') = forgets J J'" "forgets J (movbe_mem st a b d J') = forgets J J'"
  "forgets J (negate a J') = forgets J J'" "forgets J (load_mem a b d J') = forgets J J'"
  "forgets J (load_static a w J') = forgets J J'" "forgets J (put bs J') = forgets J J'"
  by (simp_all add: forgets_def)

lemma has_pins [simp]: "has (pin r J) = has J" "has (unpin r J) = has J"
  "has (upd_reg i (\<lambda>R. R\<lparr>cr_pinned := w\<rparr>) J) = has J" "has (J\<lparr>t_pend := b\<rparr>) = has J"
proof -
  show "has (upd_reg i (\<lambda>R. R\<lparr>cr_pinned := w\<rparr>) J) = has J"
    by (rule same_cacheD(6)) (simp add: upd_reg_def same_cache_def)
  show "has (J\<lparr>t_pend := b\<rparr>) = has J" by (simp add: has_def names_def const_words_def fun_eq_iff split: cval.splits)
qed (simp_all add: same_cacheD(6) [OF pin_facts(1)] same_cacheD(6) [OF unpin_facts(1)])

lemma forgets_from [simp]:
  "forgets (mov_imm a v J) J' = forgets J J'" "forgets (pin q J) J' = forgets J J'" "forgets (unpin q J) J' = forgets J J'"
  "forgets (upd_reg i (\<lambda>R. R\<lparr>cr_pinned := w\<rparr>) J) J' = forgets J J'" "forgets J (pin q J') = forgets J J'"
  "forgets J (unpin q J') = forgets J J'"
  by (simp_all add: forgets_def)

lemma scratch_forgets:
  assumes "\<And>J J'. fl J = Some J' \<Longrightarrow> forgets J J'"
  shows "forgetting (scratch_with (release_with fl))"
  unfolding forgetting_def
proof (intro allI impI)
  fix J r J'
  assume "scratch_with (release_with fl) J = Some (r, J')"
  then obtain i where r: "release_with fl r (upd_reg i (\<lambda>R. R\<lparr>cr_pinned := True\<rparr>) J) = Some J'"
    by (rule scratch_withE)
  have d: "forgets J1 (drop_reg r J1)" for J1 by (simp add: forgets_def has_drop_reg)
  have "forgets J1 J'" if j: "release_with fl r J1 = Some J'" for J1
  proof (cases "t_pend J1")
    case True
    obtain v J2 where c: "cache_find (t_pend_addr J1) J1 = (v, J2)" by fastforce
    have s: "forgets J1 J2" using cache_find_spec(1) [OF c] by (rule forgets_same)
    obtain J3 where "forgets J2 J3" "J' = drop_reg r J3"
    proof (cases "v = VReg r \<or> v = VNeg r")
      case True
      then obtain J3 where "fl J2 = Some J3" "J' = drop_reg r J3" using j \<open>t_pend J1\<close> c by (auto simp: release_with_drop)
      then show thesis using that assms by blast
    next
      case False
      then have "J' = drop_reg r J2" using j \<open>t_pend J1\<close> c by (auto simp: release_with_drop)
      then show thesis by (rule that [OF forgets_refl])
    qed
    then show ?thesis using s d forgets_trans by blast
  next
    case False
    then have "J' = drop_reg r J1" using j by (simp add: release_with_drop)
    then show ?thesis using d by simp
  qed
  from this [OF r] show "forgets J J'" by (simp add: forgets_def)
qed

lemma to_reg_forgets: "forgetting sc \<Longrightarrow> to_reg_with sc v J = Some (r, J') \<Longrightarrow> forgets J J'"
proof (cases v)
  case (VNeg q)
  assume a: "forgetting sc" "to_reg_with sc v J = Some (r, J')"
  then obtain J1 where "sc (pin q J) = Some (r, J1)" "J' = negate r (mov_rr r q J1)"
    using VNeg by (auto simp: to_reg_with_def split: bind_splits)
  then show ?thesis using forgettingD [OF a(1), of "pin q J" r J1] by simp
qed (auto simp: to_reg_with_def forgettingD split: bind_splits)

lemma store_reg_forgets:
  assumes "forgetting sc" "store_reg_with sc r dyn a b J = Some J'"
  shows "forgets J J'"
  using assms(2)
  by (auto simp: store_reg_with_def Let_def split: bind_splits if_splits
      dest!: forgettingD [OF assms(1)]) (erule (1) forgets_trans)+

lemma e32_forgets: "forgets J (e32 v (mem_operand a b d (e8 x (rex w y z k J))))"
  by (simp add: mem_operand_def rex_def e_put Let_def)

lemma store_const_forgets:
  assumes "forgetting sc" "store_const_with sc v dyn a b J = Some J'"
  shows "forgets J J'"
  using assms(2)
  by (auto simp: store_const_with_def Let_def e32_forgets split: bind_splits if_splits
      dest!: forgettingD [OF assms(1)]) (erule (1) forgets_trans)+

lemma flush_forgets:
  assumes "forgetting sc" "flush_with sc J = Some J'"
  shows "forgets J J'"
proof (cases "t_pend J")
  case True
  obtain v J2 where c: "cache_find (t_pend_addr J) (J\<lparr>t_pend := False\<rparr>) = (v, J2)" by fastforce
  have s: "forgets J J2" using forgets_same [OF cache_find_spec(1) [OF c]] by (simp add: forgets_def)
  have "forgets J2 J'"
  proof (cases "\<exists>c. v = VConst c")
    case True
    then show ?thesis using assms(2) \<open>t_pend J\<close> c store_const_forgets [OF assms(1)] by (auto simp: flush_with_def)
  next
    case False
    then obtain i r J3 J4 where j: "to_reg_with sc v (upd_reg i (\<lambda>R. R\<lparr>cr_pinned := True\<rparr>) J2) = Some (r, J3)"
      "store_reg_with sc r False (t_pend_addr J3) 0 J3 = Some J4" "has J' = has J4"
      using assms(2) \<open>t_pend J\<close> c by (auto simp: flush_with_def Let_def split: bind_splits option.splits cval.splits)
    show ?thesis using to_reg_forgets [OF assms(1) j(1)] store_reg_forgets [OF assms(1) j(2)] j(3)
      by (simp add: forgets_def)
  qed
  then show ?thesis using s by (rule forgets_trans [rotated])
qed (use assms(2) in \<open>simp add: flush_with_def\<close>)

lemma flush_pending_forgets: "flush_pending J = Some J' \<Longrightarrow> forgets J J'"
  unfolding flush_pending_def scratch_idle_def by (rule flush_forgets [OF scratch_forgets]) simp_all

lemma scratch_forgetting: "forgetting scratch"
  unfolding scratch_def release_def by (rule scratch_forgets) (rule flush_pending_forgets)

section \<open>Entering words in the cache\<close>

lemma cache_drop_entries:
  "i < NREGS \<Longrightarrow> cr_used (t_regs (cache_drop a J) i) \<longleftrightarrow> cr_used (t_regs J i) \<and> cr_addr (t_regs J i) \<noteq> a"
  "cr_addr (t_regs (cache_drop a J) i) = cr_addr (t_regs J i)"
  "i < NCONST \<Longrightarrow> cc_used (t_consts (cache_drop a J) i) \<longleftrightarrow> cc_used (t_consts J i) \<and> cc_addr (t_consts J i) \<noteq> a"
  "cc_addr (t_consts (cache_drop a J) i) = cc_addr (t_consts J i)" "cc_val (t_consts (cache_drop a J) i) = cc_val (t_consts J i)"
  "i < NALIAS \<Longrightarrow> ca_used (t_aliases (cache_drop a J) i) \<longleftrightarrow> ca_used (t_aliases J i) \<and> ca_addr (t_aliases J i) \<noteq> a"
  "ca_addr (t_aliases (cache_drop a J) i) = ca_addr (t_aliases J i)" "ca_reg (t_aliases (cache_drop a J) i) = ca_reg (t_aliases J i)"
  "ca_neg (t_aliases (cache_drop a J) i) = ca_neg (t_aliases J i)"
  by (auto simp: cache_drop_def Let_def)

lemma names_cache_drop: "names (cache_drop a J) r = {x \<in> names J r. fst x \<noteq> a}"
  unfolding names_def cache_drop_entries using cache_drop_entries(1,6) by fastforce

lemma const_words_cache_drop: "const_words (cache_drop a J) = {x \<in> const_words J. fst x \<noteq> a}"
  unfolding const_words_def cache_drop_entries using cache_drop_entries(3) by fastforce

lemma has_cache_drop: "has (cache_drop a J) v b \<longleftrightarrow> b \<noteq> a \<and> has J v b"
  by (cases v) (auto simp: has_def names_cache_drop const_words_cache_drop)

lemma cache_drop_facts [simp]:
  "em_code (cache_drop a J) = em_code J" "same_env J (cache_drop a J)" "cr_pinned (t_regs (cache_drop a J) i) = cr_pinned (t_regs J i)"
  "keep (cache_drop a J) = keep J" "t_pend (cache_drop a J) = t_pend J" "t_pend_addr (cache_drop a J) = t_pend_addr J"
  "t_movbe (cache_drop a J) = t_movbe J" "t_flags_live (cache_drop a J) = t_flags_live J"
proof -
  show "cr_pinned (t_regs (cache_drop a J) i) = cr_pinned (t_regs J i)" for i
    by (simp add: cache_drop_def Let_def)
  then show "keep (cache_drop a J) = keep J" by (rule keep_cong)
qed (simp_all add: cache_drop_def same_env_def Let_def)

lemma alias_regs_drop: "alias_regs J \<Longrightarrow> alias_regs (cache_drop a J)"
  by (simp add: alias_regs_def cache_drop_def Let_def)

lemma cache_drop_all_facts:
  "\<not> has (cache_drop_all J) v a" "em_code (cache_drop_all J) = em_code J" "same_env J (cache_drop_all J)"
  "keep (cache_drop_all J) = keep J" "t_pend (cache_drop_all J) = t_pend J" "t_pend_addr (cache_drop_all J) = t_pend_addr J"
  "alias_regs (cache_drop_all J)" "t_flags_live (cache_drop_all J) = t_flags_live J"
proof -
  show "\<not> has (cache_drop_all J) v a"
    by (auto simp: cache_drop_all_def has_def names_def const_words_def split: cval.splits)
  show "keep (cache_drop_all J) = keep J" by (rule keep_cong) (simp add: cache_drop_all_def)
qed (auto simp: cache_drop_all_def same_env_def alias_regs_def)

text \<open>A word put in a register that holds nothing else but through aliases.\<close>

lemma bind_reg_spec:
  assumes "areg r" "reg_index r = Some i" "cr_used (t_regs J i) \<Longrightarrow> cr_addr (t_regs J i) = a"
  shows "cacheable a \<Longrightarrow> has (bind_reg r a J) v b \<longleftrightarrow> (if b = a then v = VReg r else has J v b)"
    and "\<not> cacheable a \<Longrightarrow> bind_reg r a J = J"
    and "names (bind_reg r a J) q = (if cacheable a then (if q = r then insert (a, False) else id) {x \<in> names J q. fst x \<noteq> a} else names J q)"
    and "em_code (bind_reg r a J) = em_code J" "same_env J (bind_reg r a J)" "keep (bind_reg r a J) = keep J"
    and "t_pend (bind_reg r a J) = t_pend J" "t_pend_addr (bind_reg r a J) = t_pend_addr J"
    and "alias_regs J \<Longrightarrow> alias_regs (bind_reg r a J)"
proof -
  let ?D = "cache_drop a J"
  let ?B = "upd_reg i (\<lambda>R. R\<lparr>cr_used := True, cr_addr := a\<rparr>) ?D"
  have i: "i < NREGS" "alloc_regs ! i = r" using reg_indexD [OF assms(2)] by auto
  have b: "bind_reg r a J = touch i ?B" if "cacheable a" using that assms(2) by (simp add: bind_reg_def Let_def)
  show nb: "bind_reg r a J = J" if "\<not> cacheable a" using that by (simp add: bind_reg_def)
  have free: "\<not> cr_used (t_regs ?D i)" using assms(3) i by (auto simp: cache_drop_def Let_def)
  have nr: "names ?B q = (if q = r then insert (a, False) (names ?D q) else names ?D q)" for q
  proof -
    have u: "cr_used (t_regs ?B k) \<longleftrightarrow> k = i \<or> cr_used (t_regs ?D k)" "cr_addr (t_regs ?B k) = (if k = i then a else cr_addr (t_regs ?D k))"
      "t_aliases ?B = t_aliases ?D" for k
      by (auto simp: upd_reg_def)
    have "alloc_regs ! k = r \<longleftrightarrow> k = i" if "k < NREGS" for k using alloc_regs_nth(4) [OF that i(1)] i(2) by auto
    then show ?thesis using free i unfolding names_def u by auto
  qed
  have sc: "same_cache ?B (bind_reg r a J)" if "cacheable a" using b [OF that] by simp
  note sD = same_cacheD [OF sc]
  have cw: "const_words ?B = const_words ?D" by (simp add: const_words_def upd_reg_def)
  show n: "names (bind_reg r a J) q = (if cacheable a then (if q = r then insert (a, False) else id) {x \<in> names J q. fst x \<noteq> a} else names J q)" for q
    using nb by (cases "cacheable a") (simp_all add: sD nr names_cache_drop)
  have "const_words (bind_reg r a J) = {x \<in> const_words J. fst x \<noteq> a}" if "cacheable a"
    using that by (simp add: sD cw const_words_cache_drop)
  then show "has (bind_reg r a J) v b \<longleftrightarrow> (if b = a then v = VReg r else has J v b)" if "cacheable a"
    using that by (cases v) (auto simp: has_def n)
  show "em_code (bind_reg r a J) = em_code J" "t_pend (bind_reg r a J) = t_pend J" "t_pend_addr (bind_reg r a J) = t_pend_addr J"
    using nb by (cases "cacheable a"; simp add: b upd_reg_def touch_def)+
  show "same_env J (bind_reg r a J)"
  proof (cases "cacheable a")
    case True
    have "same_env J ?D" by simp
    then show ?thesis unfolding b [OF True] by (simp add: same_env_def upd_reg_def)
  qed (simp add: nb)
  show "keep (bind_reg r a J) = keep J"
  proof (rule keep_cong)
    fix k show "cr_pinned (t_regs (bind_reg r a J) k) = cr_pinned (t_regs J k)"
      by (cases "cacheable a") (simp_all add: nb b upd_reg_def)
  qed
  show "alias_regs (bind_reg r a J)" if "alias_regs J"
  proof (cases "cacheable a")
    case True
    have "alias_regs ?B" using alias_regs_drop [OF that, of a] by (simp add: alias_regs_def upd_reg_def)
    then show ?thesis using sD(3) [OF True] by simp
  qed (simp add: nb that)
qed

lemma names_free: "areg r \<Longrightarrow> names J r = {} \<Longrightarrow> reg_index r = Some i \<Longrightarrow> \<not> cr_used (t_regs J i)"
  using reg_indexD [of r i] by (auto simp: names_def)

lemma set_const_spec:
  shows "has (set_const a c J) v b \<Longrightarrow> (if b = a then v = VConst c \<and> cacheable a else has J v b)"
    and "cacheable a \<Longrightarrow> has (set_const a c J) (VConst c) a"
    and "em_code (set_const a c J) = em_code J" "same_env J (set_const a c J)" "keep (set_const a c J) = keep J"
    and "t_pend (set_const a c J) = t_pend J" "t_pend_addr (set_const a c J) = t_pend_addr J"
    and "alias_regs J \<Longrightarrow> alias_regs (set_const a c J)" "names (set_const a c J) q = {x \<in> names J q. fst x \<noteq> a}"
proof -
  let ?D = "cache_drop a J" and ?C = "\<lparr>cc_used = True, cc_addr = a, cc_val = c\<rparr>"
  have "set_const a c J = ?D \<and> \<not> cacheable a \<or>
      cacheable a \<and> (\<exists>i<NCONST. \<exists>n. set_const a c J = ?D\<lparr>t_const_next := n, t_consts := (t_consts ?D)(i := ?C)\<rparr>)"
  proof (cases "find_from (\<lambda>i. \<not> cc_used (t_consts ?D i)) 0 NCONST")
    case None
    have "unat (t_const_next ?D) mod NCONST < NCONST" by (simp add: NCONST_def)
    then show ?thesis using None by (auto simp: set_const_def Let_def)
  next
    case (Some i)
    then have "i < NCONST" using find_fromD by blast
    moreover have "set_const a c J = ?D\<lparr>t_const_next := t_const_next ?D, t_consts := (t_consts ?D)(i := ?C)\<rparr>" if "cacheable a"
      using that Some by (simp add: set_const_def Let_def)
    ultimately show ?thesis by (cases "cacheable a") (blast, simp add: set_const_def Let_def)
  qed
  then consider (no) "set_const a c J = ?D" "\<not> cacheable a"
    | (yes) i n where "i < NCONST" "set_const a c J = ?D\<lparr>t_const_next := n, t_consts := (t_consts ?D)(i := ?C)\<rparr>" "cacheable a"
    by blast
  then have "(has (set_const a c J) v b \<longrightarrow> (if b = a then v = VConst c \<and> cacheable a else has J v b)) \<and>
    (cacheable a \<longrightarrow> has (set_const a c J) (VConst c) a) \<and>
    em_code (set_const a c J) = em_code J \<and> same_env J (set_const a c J) \<and> keep (set_const a c J) = keep J \<and>
    t_pend (set_const a c J) = t_pend J \<and> t_pend_addr (set_const a c J) = t_pend_addr J \<and>
    (alias_regs J \<longrightarrow> alias_regs (set_const a c J)) \<and> names (set_const a c J) q = {x \<in> names J q. fst x \<noteq> a}"
  proof cases
    case no
    then show ?thesis using alias_regs_drop by (simp add: has_cache_drop names_cache_drop)
  next
    case yes
    let ?S = "?D\<lparr>t_const_next := n, t_consts := (t_consts ?D)(i := ?C)\<rparr>"
    have n: "names ?S q = {x \<in> names J q. fst x \<noteq> a}" for q
      unfolding names_cache_drop [symmetric] by (simp add: names_def)
    have "const_words ?S \<subseteq> insert (a, c) (const_words ?D)" "(a, c) \<in> const_words ?S"
      using yes(1) by (auto simp: const_words_def split: if_splits)
    then have h: "has ?S v b \<longrightarrow> (if b = a then v = VConst c else has J v b)" "has ?S (VConst c) a"
      by (cases v; auto simp: has_def n const_words_cache_drop)+
    have "keep ?S = keep ?D" by (rule keep_cong) simp
    moreover have "same_env J ?S" using cache_drop_facts(2) [of J a] by (simp add: same_env_def)
    moreover have "alias_regs J \<longrightarrow> alias_regs ?S" using alias_regs_drop [of J a] by (simp add: alias_regs_def)
    ultimately show ?thesis using h n yes(3) unfolding yes(2) by simp
  qed
  then show "has (set_const a c J) v b \<Longrightarrow> (if b = a then v = VConst c \<and> cacheable a else has J v b)"
    "cacheable a \<Longrightarrow> has (set_const a c J) (VConst c) a"
    "em_code (set_const a c J) = em_code J" "same_env J (set_const a c J)" "keep (set_const a c J) = keep J"
    "t_pend (set_const a c J) = t_pend J" "t_pend_addr (set_const a c J) = t_pend_addr J"
    "alias_regs J \<Longrightarrow> alias_regs (set_const a c J)" "names (set_const a c J) q = {x \<in> names J q. fst x \<noteq> a}"
    by blast+
qed

end
