(* ===== verification/Cache_Values.thy ===== *)
theory Cache_Values
  imports Cache_Entries
begin

text \<open>
  The values of words while an instruction is translated: loads, values put together in new
  registers, and static operands (\<open>get_static\<close> of jit.c), aligned or not.
\<close>

section \<open>Words in memory\<close>

lemma aligned8_sub: "a AND 7 = 0 \<Longrightarrow> b AND 7 = 0 \<Longrightarrow> unat (a - b) mod 8 = 0" for a b :: u64
proof -
  assume "a AND 7 = 0" "b AND 7 = 0"
  moreover have u: "uint x mod 8 = int (unat x mod 8)" for x :: u64 by (simp add: of_nat_mod)
  ultimately have "uint a mod 8 = 0" "uint b mod 8 = 0" by (simp_all add: aligned8_iff)
  then have "8 dvd uint a - uint b" by (simp add: mod_0_imp_dvd)
  then have "8 dvd (uint a - uint b) mod 2 ^ 64" by (simp add: dvd_mod)
  then have "uint (a - b) mod 8 = 0" by (simp add: uint_word_ariths)
  then show ?thesis using u [of "a - b"] by simp
qed

lemma unaligned_disj:
  fixes a b :: u64
  assumes "b AND 7 = 0" "b \<noteq> a AND NOT 7" "b \<noteq> (a AND NOT 7) + 8"
  shows "disj8 b a"
proof -
  let ?w = "a AND NOT 7" and ?j = "unat a mod 8"
  have a: "a = ?w + of_nat ?j" by (rule low_bits(2))
  have j: "?j < 8" by simp
  have w: "?w AND 7 = 0" by (rule low_bits(3))
  have m1: "unat (?w - b) mod 8 = 0" by (rule aligned8_sub [OF w assms(1)])
  have m2: "unat (b - ?w) mod 8 = 0" by (rule aligned8_sub [OF assms(1) w])
  have n1: "unat (?w - b) \<noteq> 0" using assms(2) by (simp add: unat_eq_zero)
  have n2: "unat (b - ?w) \<noteq> 0" "unat (b - ?w) \<noteq> 8"
  proof -
    show "unat (b - ?w) \<noteq> 0" using assms(2) by (simp add: unat_eq_zero)
    have "b - ?w \<noteq> 8" using assms(3) by (auto simp: algebra_simps)
    then show "unat (b - ?w) \<noteq> 8" by (simp add: word_unat_eq_iff)
  qed
  obtain x where x: "unat (?w - b) = 8 * x" using m1 by auto
  obtain y where y: "unat (b - ?w) = 8 * y" using m2 by auto
  have xb: "8 * x < 2 ^ 64" "8 * y < 2 ^ 64" using x y unat_u64_bound by metis+
  have jw: "unat (of_nat ?j :: u64) = ?j" using j by (simp add: unat_of_nat_u64)
  have "unat (a - b) = unat ((?w - b) + of_nat ?j)" using a by (metis add_diff_eq add.commute diff_add_eq)
  also have "\<dots> = 8 * x + ?j" using x xb j jw by (subst unat_add_no_wrap) auto
  finally have 1: "8 \<le> unat (a - b)" using n1 x by simp
  have "unat (b - a) = unat ((b - ?w) - of_nat ?j)" using a by (metis diff_diff_eq)
  also have "\<dots> = 8 * y - ?j" using y n2 j jw by (subst unat_diff_le) (auto simp: word_le_nat_alt)
  finally have 2: "8 \<le> unat (b - a)" using n2 y by simp
  show ?thesis using 1 2 by (simp add: disj8_def word_le_nat_alt)
qed

lemma mem_ok_rd: "mem_ok J M g \<Longrightarrow> (t_pend J \<Longrightarrow> disj8 (t_pend_addr J) a) \<Longrightarrow> rd g a = rd (xmem M) a"
proof (cases "t_pend J")
  case True
  assume "mem_ok J M g" "t_pend J \<Longrightarrow> disj8 (t_pend_addr J) a"
  then have "g = wr (xmem M) (t_pend_addr J) (rd g (t_pend_addr J))" "disj8 (t_pend_addr J) a"
    using True by (simp_all add: mem_ok_def)
  then show ?thesis by (metis be.rd_wr_disj)
qed (simp add: mem_ok_def)

lemma cacheable_disj: "cacheable a \<Longrightarrow> b AND 7 = 0 \<Longrightarrow> a \<noteq> b \<Longrightarrow> disj8 a b"
  by (rule aligned8_disj) (simp_all add: cacheable_def flip: aligned8_iff)

section \<open>Values of words\<close>

text \<open>A value in registers in use, and what else its register may stand for.\<close>

definition ready :: "trans \<Rightarrow> cval \<Rightarrow> bool" where
  "ready J v = (case v of VNone \<Rightarrow> False | VConst c \<Rightarrow> True | VReg q \<Rightarrow> areg q \<and> keep J q | VNeg q \<Rightarrow> areg q \<and> keep J q)"

definition of_word :: "trans \<Rightarrow> trans \<Rightarrow> cval \<Rightarrow> u64 \<Rightarrow> bool" where
  "of_word J J' v a = (case v of VReg q \<Rightarrow> (a, False) \<in> names J' q \<or> \<not> keep J q \<and> names J' q = {}
     | VNeg q \<Rightarrow> (a, True) \<in> names J' q | _ \<Rightarrow> True)"

lemma readyD: "ready J v \<Longrightarrow> v \<noteq> VNone" "ready J v \<Longrightarrow> v = VReg q \<or> v = VNeg q \<Longrightarrow> areg q \<and> keep J q"
  by (auto simp: ready_def)

lemma ready_eff: "ready J v \<Longrightarrow> eff J M J' M' \<Longrightarrow> ready J' v \<and> val_of M' v = val_of M v"
  by (cases v) (auto simp: ready_def effD(3,4))

lemma of_word_eff: "of_word J0 J v a \<Longrightarrow> ready J v \<Longrightarrow> eff J M J' M' \<Longrightarrow> of_word J0 J' v a"
  by (cases v) (auto simp: of_word_def ready_def effD(5))

lemma pin_val_facts:
  "same_cache J (pin_val v J)" "em_code (pin_val v J) = em_code J" "same_env J (pin_val v J)" "keep J q \<Longrightarrow> keep (pin_val v J) q"
  "v = VReg q \<or> v = VNeg q \<Longrightarrow> keep (pin_val v J) q"
  by (cases v; simp add: pin_val_def pin_facts)+

lemma has_ready:
  assumes "cache_ok X J M g" "has J v a"
  shows "ready (pin_val v J) v"
proof (cases v)
  case VNone
  then show ?thesis using assms(2) by (simp add: has_def)
qed (use has_areg [OF assms] pin_val_facts(5) in \<open>auto simp: ready_def\<close>)

lemma eff_pin_val: "eff J M (pin_val v J) M"
  by (rule eff_same [OF eff_refl pin_val_facts(1-3)]) (rule pin_val_facts(4))

lemma find_spec:
  assumes "sim J M g" "cache_find a J = (v, J')"
  shows "eff J M J' M" "sim J' M g" "v \<noteq> VNone \<Longrightarrow> has J' v a \<and> val_of M v = rd g a \<and> cacheable a"
    "v = VNone \<Longrightarrow> cacheable a \<Longrightarrow> \<not> has J' w a"
proof -
  note f = cache_find_spec [OF assms(2)]
  show "eff J M J' M" by (rule eff_same [OF eff_refl f(1-3)]) (use keep_cong [OF f(4)] in simp)
  show s: "sim J' M g" by (rule sim_same [OF assms(1) f(1)])
  show "v \<noteq> VNone \<Longrightarrow> has J' v a \<and> val_of M v = rd g a \<and> cacheable a"
    using f(6) s has_val [of "{}" J' M g v a] by (simp add: same_cacheD [OF f(1)] sim_def)
  show "v = VNone \<Longrightarrow> cacheable a \<Longrightarrow> \<not> has J' w a" using f(5) by (simp add: same_cacheD [OF f(1)])
qed

lemma sim_bind:
  assumes "sim J M g" "areg r" "reg_index r = Some i" "cr_used (t_regs J i) \<Longrightarrow> cr_addr (t_regs J i) = a" "xr M r = rd g a"
  shows "sim (bind_reg r a J) M g"
proof (cases "cacheable a")
  case True
  note b = bind_reg_spec [OF assms(2-4)]
  have "cache_ok {} (bind_reg r a J) M g"
    using assms(1,5) b(9) True by (auto simp: sim_def cache_ok_def b(1) split: if_splits)
  moreover have "mem_ok (bind_reg r a J) M g"
    by (rule mem_ok_cong [of J M]) (use assms(1) True in \<open>auto simp: b sim_def mem_ok_def\<close>)
  ultimately show ?thesis by (simp add: sim_def)
qed (use assms(1) in \<open>simp add: bind_reg_def\<close>)

text \<open>A load into a register just taken, which then holds the word.\<close>

lemma load_bind_spec:
  assumes "sim J M g" "scratch J = Some (r, J1)" "\<And>v. cacheable a \<Longrightarrow> \<not> has J v a"
    and "t_pend J \<Longrightarrow> disj8 (t_pend_addr J) a"
  defines "J' \<equiv> bind_reg r a (load_static r a J1)"
  shows "\<exists>M'. eff J M J' M' \<and> sim J' M' g \<and> xr M' r = rd g a \<and> areg r \<and> keep J' r \<and> \<not> keep J r \<and>
    names J' r = (if cacheable a then {(a, False)} else {})"
proof -
  obtain M1 where t: "eff J M J1 M1" "sim J1 M1 g" "areg r" "\<not> keep J r" "keep J1 r" "names J1 r = {}"
    using full.taken [OF assms(1,2)] by blast
  let ?J2 = "load_static r a J1"
  obtain M2 where u: "eff J M ?J2 M2" "sim ?J2 M2 g" "names ?J2 r = {}" "keep ?J2 r" "xr M2 r = rd (xmem M1) a"
    using full.load_static_taken [OF t(1,2,4,3,6), of a] t(5) by blast
  have "rd g a = rd (xmem M1) a"
    by (rule mem_ok_rd [of J1]) (use t(2) effD(7,8) [OF t(1)] assms(4) in \<open>auto simp: sim_def\<close>)
  then have x: "xr M2 r = rd g a" using u(5) by simp
  obtain i where i: "reg_index r = Some i" by (rule aregE [OF t(3)])
  have fr: "\<not> cr_used (t_regs ?J2 i)" using names_free [OF t(3) u(3) i] .
  note b = bind_reg_spec [OF t(3) i, of ?J2 a]
  have "forgets J ?J2" using forgettingD [OF scratch_forgetting assms(2)] by simp
  then have nh: "\<not> has ?J2 v a" if "cacheable a" for v using assms(3) [OF that] by (auto simp: forgets_def)
  have nn: "(a, s) \<notin> names ?J2 q" if "cacheable a" for q s
    using nh [OF that, of "VReg q"] nh [OF that, of "VNeg q"] by (cases s) (simp_all add: has_def del: has_emit)
  then have nq: "names J' q = (if cacheable a \<and> q = r then insert (a, False) (names ?J2 q) else names ?J2 q)" for q
    unfolding J'_def using b(3) fr by auto
  have "sim J' M2 g" unfolding J'_def by (rule sim_bind [OF u(2) t(3) i _ x]) (simp add: fr)
  moreover have "eff J M J' M2"
    by (rule eff_state [OF u(1)]) (use b(4-8) fr nq t(4) effD(3) [OF u(1)] in \<open>auto simp: J'_def\<close>)
  moreover have "keep J' r" unfolding J'_def using b(6) fr u(4) by simp
  ultimately show ?thesis using x t(3,4) nq u(3) by (intro exI [of _ M2]) simp
qed

lemma get_word_spec:
  assumes "sim J M g" "get_word a J = Some (v, J')"
  shows "\<exists>M'. eff J M J' M' \<and> sim J' M' g \<and> val_of M' v = rd g a \<and> ready J' v \<and> of_word J J' v a"
proof -
  obtain w J1 where f: "cache_find a J = (w, J1)" by fastforce
  note s = find_spec [OF assms(1) f]
  let ?J2 = "pin_val w J1"
  have e2: "eff J M ?J2 M" using eff_trans [OF s(1) eff_pin_val] .
  have s2: "sim ?J2 M g" by (rule sim_same [OF s(2) pin_val_facts(1)])
  show ?thesis
  proof (cases "w = VNone")
    case False
    then have j: "v = w" "J' = ?J2" using assms(2) f by (auto simp: get_word_def)
    have h: "has J1 w a" "val_of M w = rd g a" using s(3) [OF False] by auto
    have "ready ?J2 w" using has_ready [OF _ h(1)] s(2) by (auto simp: sim_def)
    moreover have "of_word J ?J2 w a"
      using h(1) by (auto simp: of_word_def has_def same_cacheD(1) [OF pin_val_facts(1)] split: cval.splits)
    ultimately show ?thesis unfolding j using e2 s2 h(2) by blast
  next
    case True
    have J2: "pin_val VNone J1 = J1" by (simp add: pin_val_def)
    let ?c = "t_pend J1 \<and> a AND 7 \<noteq> 0 \<and> (t_pend_addr J1 = a AND NOT 7 \<or> t_pend_addr J1 = (a AND NOT 7) + 8)"
    obtain J3 r J4 where j: "(if ?c then flush_pending J1 else Some J1) = Some J3" "scratch J3 = Some (r, J4)" "v = VReg r"
      "J' = bind_reg r a (load_static r a J4)"
      using assms(2) f True by (auto simp: get_word_def J2 Let_def split: bind_splits cong: if_cong)
    have nh: "cacheable a \<Longrightarrow> \<not> has J1 x a" for x using s(4) [OF True] .
    have dj: "disj8 (t_pend_addr J1) a" if "t_pend J1" "\<not> ?c"
    proof -
      have p: "cacheable (t_pend_addr J1)" "\<exists>v. has J1 v (t_pend_addr J1)" using s(2) that(1) by (auto simp: sim_def mem_ok_def)
      show ?thesis
      proof (cases "a AND 7 = 0")
        case True
        have "t_pend_addr J1 \<noteq> a" using p nh by blast
        then show ?thesis using cacheable_disj [OF p(1) True] by simp
      next
        case False
        then show ?thesis using that p(1) by (intro unaligned_disj) (auto simp: cacheable_def)
      qed
    qed
    have "\<exists>M3. eff J M J3 M3 \<and> sim J3 M3 g \<and> (t_pend J3 \<longrightarrow> disj8 (t_pend_addr J3) a) \<and> forgets J1 J3"
    proof (cases ?c)
      case True
      then have fl: "flush_pending J1 = Some J3" using j(1) by simp
      obtain M3 where "eff J1 M J3 M3" "sim J3 M3 g" "\<not> t_pend J3" using flush_pending_spec [OF s(2) fl] by blast
      then show ?thesis using eff_trans [OF s(1)] flush_pending_forgets [OF fl] by blast
    next
      case False
      then have "J3 = J1" using j(1) by (simp only: if_False option.inject)
      then show ?thesis using s(1,2) dj [OF _ False] by auto
    qed
    then obtain M3 where t: "eff J M J3 M3" "sim J3 M3 g" "t_pend J3 \<Longrightarrow> disj8 (t_pend_addr J3) a" "forgets J1 J3" by blast
    have nh3: "cacheable a \<Longrightarrow> \<not> has J3 x a" for x using nh t(4) by (auto simp: forgets_def)
    obtain M' where u: "eff J3 M3 J' M'" "sim J' M' g" "xr M' r = rd g a" "areg r" "keep J' r" "\<not> keep J3 r"
      "names J' r = (if cacheable a then {(a, False)} else {})"
      using load_bind_spec [OF t(2) j(2) nh3 t(3)] unfolding j(4) [symmetric] by blast
    have "\<not> keep J r" using u(6) effD(3) [OF t(1)] by blast
    then show ?thesis using eff_trans [OF t(1) u(1)] u
      by (intro exI [of _ M']) (simp add: j(3) ready_def of_word_def)
  qed
qed

section \<open>Values put together in new registers\<close>

text \<open>A constant, or a register just taken that stands for no word.\<close>

definition fresh_val :: "trans \<Rightarrow> trans \<Rightarrow> cval \<Rightarrow> bool" where
  "fresh_val J J' v = (case v of VConst c \<Rightarrow> True
     | VReg r \<Rightarrow> areg r \<and> keep J' r \<and> \<not> keep J r \<and> names J' r = {} | _ \<Rightarrow> False)"

lemma fresh_ready: "fresh_val J J' v \<Longrightarrow> ready J' v \<and> of_word J J' v a"
  by (cases v) (auto simp: fresh_val_def ready_def of_word_def)

lemma fresh_eff: "fresh_val J J1 v \<Longrightarrow> eff J1 M1 J2 M2 \<Longrightarrow> fresh_val J J2 v"
  by (cases v) (auto simp: fresh_val_def effD(3,5))

lemma fresh_before: "fresh_val J1 J2 v \<Longrightarrow> eff J M J1 M1 \<Longrightarrow> fresh_val J J2 v"
  using effD(3) by (cases v) (auto simp: fresh_val_def)

lemma ready_flags: "eff J M J' M' \<Longrightarrow> t_flags_live J' = t_flags_live J"
  using effD(2) [of J M J' M'] by (simp add: same_env_def)

lemma eff_unpin: "eff J M J1 M1 \<Longrightarrow> \<not> keep J r \<Longrightarrow> eff J M (unpin r J1) M1"
  by (rule eff_same [OF _ unpin_facts(1-3)]) (auto simp: unpin_facts(4) effD(3))

text \<open>The functions that put values together use \<open>scratch\<close>, whatever is known of the cache.\<close>

locale value_source = reg_source scratch inv for inv
begin

lemma shift_step:
  assumes "eff J0 M0 J1 M1" "inv J1 M1" "\<not> keep J0 r" "areg r" "keep J1 r" "names J1 r = {}" "\<not> t_flags_live J0" "n < 256"
    and "J2 = (if left then shl_ri r (of_nat n) J1 else shr_ri r (of_nat n) J1)"
  shows "\<exists>M2. eff J0 M0 J2 M2 \<and> inv J2 M2 \<and> names J2 r = {} \<and> keep J2 r \<and>
    xr M2 r = (if left then push_bit n (xr M1 r) else drop_bit n (xr M1 r))"
proof -
  have r: "r < 16" using areg_bounds [OF assms(4)] by simp
  have n: "unat (of_nat n :: u8) = n" using assms(8) by (simp add: unat_of_nat take_bit_eq_mod)
  let ?v = "if left then push_bit n (xr M1 r) else drop_bit n (xr M1 r)"
  let ?i = "if left then XShl True (Reg r) (of_nat n) else XShr True (Reg r) (of_nat n)"
  have e: "emits J1 J2 [?i]" unfolding assms(9) using emits_shift [OF r, where J = J1] by simp
  have "eff J0 M0 J2 (set_r r ?v (flags_logic ?v M1)) \<and> inv J2 (set_r r ?v (flags_logic ?v M1)) \<and> names J2 r = {} \<and>
      (keep J1 r \<longrightarrow> keep J2 r) \<and> xr (set_r r ?v (flags_logic ?v M1)) r = ?v"
    by (rule set_taken [OF assms(1,2) e _ assms(3,4,6)]) (use assms(7) in \<open>simp_all add: n Let_def\<close>)
  then show ?thesis using assms(5) by blast
qed

lemma to_reg_spec:
  assumes "inv J M" "to_reg v J = Some (r, J')" "ready J v"
  shows "\<exists>M'. eff J M J' M' \<and> inv J' M' \<and> xr M' r = val_of M v \<and> areg r \<and> keep J' r \<and>
    (v = VReg r \<or> \<not> keep J r \<and> names J' r = {})"
  using to_reg_with_spec [OF assms(1) assms(2) [unfolded to_reg_def] readyD(1) [OF assms(3)]] readyD(2) [OF assms(3)]
  by blast

lemma shifted_spec:
  assumes "inv J M" "shifted v left n J = Some (w, J')" "ready J v" "\<not> t_flags_live J" "n < 256"
  shows "\<exists>M'. eff J M J' M' \<and> inv J' M' \<and> fresh_val J J' w \<and>
    val_of M' w = (if left then push_bit n (val_of M v) else drop_bit n (val_of M v))"
proof (cases "\<exists>c. v = VConst c")
  case True
  then show ?thesis using assms(1,2) by (intro exI [of _ M]) (auto simp: shifted_def fresh_val_def)
next
  case False
  then obtain q J1 r J2 where s: "to_reg v J = Some (q, J1)" "scratch J1 = Some (r, J2)" "w = VReg r"
    "J' = (if left then shl_ri r (of_nat n) (mov_rr r q J2) else shr_ri r (of_nat n) (mov_rr r q J2))"
    using assms(2) readyD(1) [OF assms(3)] by (auto simp: shifted_def Let_def split: cval.splits bind_splits)
  obtain M1 where t: "eff J M J1 M1" "inv J1 M1" "xr M1 q = val_of M v" "areg q" "keep J1 q"
    using to_reg_spec [OF assms(1) s(1) assms(3)] by blast
  obtain M2 where u: "eff J1 M1 J2 M2" "inv J2 M2" "areg r" "\<not> keep J1 r" "keep J2 r" "names J2 r = {}"
    using taken [OF t(2) s(2)] by blast
  note e2 = eff_trans [OF t(1) u(1)]
  have nr: "\<not> keep J r" using u(4) effD(3) [OF t(1)] by blast
  have q: "q < 16" using areg_bounds [OF t(4)] by simp
  have x: "xr M2 q = val_of M v" using effD(4) [OF u(1) t(5)] t(3) by simp
  note m = mov_rr_taken [OF e2 u(2) nr u(3,6) q]
  note m1 = m [THEN conjunct1] and m2 = m [THEN conjunct2, THEN conjunct1]
  have m3: "keep (mov_rr r q J2) r" "names (mov_rr r q J2) r = {}" using m u(5) by auto
  obtain M3 where w: "eff J M J' M3" "inv J' M3" "names J' r = {}" "keep J' r"
    "xr M3 r = (if left then push_bit n (xr (set_r r (xr M2 q) M2) r) else drop_bit n (xr (set_r r (xr M2 q) M2) r))"
    using shift_step [OF m1 m2 nr u(3) m3 assms(4,5) s(4)] by blast
  then show ?thesis using x nr u(3) by (intro exI [of _ M3]) (simp add: s(3) fresh_val_def)
qed

text \<open>Combining the register just taken with a value.\<close>

lemma combine_step:
  assumes "eff J0 M0 J1 M1" "inv J1 M1" "\<not> keep J0 r" "areg r" "keep J1 r" "names J1 r = {}" "\<not> t_flags_live J0"
    and "emits J1 J2 [i]" "xstep i M1 = Some M2" "xr M2 = (xr M1)(r := x)" "xmem M2 = xmem M1"
  shows "eff J0 M0 J2 M2 \<and> inv J2 M2 \<and> names J2 r = {} \<and> keep J2 r \<and> xr M2 r = x"
  using set_taken [OF assms(1,2,8,9,3,4,6,10,11)] assms(5,7) by blast

lemma or_val_spec:
  assumes "eff J0 M0 J1 M1" "inv J1 M1" "\<not> keep J0 r" "areg r" "keep J1 r" "names J1 r = {}" "\<not> t_flags_live J0"
    and "or_val r v J1 = Some J2" "ready J1 v"
  shows "\<exists>M2. eff J0 M0 J2 M2 \<and> inv J2 M2 \<and> names J2 r = {} \<and> keep J2 r \<and> xr M2 r = xr M1 r OR val_of M1 v"
proof (cases "v = VConst 0")
  case True
  then show ?thesis using assms by (intro exI [of _ M1]) (simp add: or_val_def)
next
  case False
  then obtain t Ja where s: "to_reg v J1 = Some (t, Ja)"
    "J2 = or_rr r t Ja \<and> (\<exists>q. v = VReg q) \<or> J2 = unpin t (or_rr r t Ja) \<and> (\<forall>q. v \<noteq> VReg q)"
    using assms(8) by (auto simp: or_val_def Let_def split: bind_splits cval.splits)
  obtain Ma where t: "eff J1 M1 Ja Ma" "inv Ja Ma" "xr Ma t = val_of M1 v" "areg t" "keep Ja t"
    "v = VReg t \<or> \<not> keep J1 t \<and> names Ja t = {}"
    using to_reg_spec [OF assms(2) s(1) assms(9)] by blast
  note e = eff_trans [OF assms(1) t(1)]
  have b: "r < 16" "t < 16" using areg_bounds assms(4) t(4) by auto
  have k: "keep Ja r" "names Ja r = {}" "xr Ma r = xr M1 r"
    using effD(3,5,4) [OF t(1) assms(5)] assms(6) by simp_all
  let ?v = "xr M1 r OR val_of M1 v" and ?J3 = "or_rr r t Ja"
  have u: "eff J0 M0 ?J3 (set_r r ?v (flags_logic ?v Ma)) \<and> inv ?J3 (set_r r ?v (flags_logic ?v Ma)) \<and> names ?J3 r = {} \<and>
      keep ?J3 r \<and> xr (set_r r ?v (flags_logic ?v Ma)) r = ?v"
    by (rule combine_step [OF e t(2) assms(3,4) k(1,2) assms(7) emits_rr(4) [OF b]]) (simp_all add: k(3) t(3))
  show ?thesis
  proof (cases "\<exists>q. v = VReg q")
    case True
    then have "J2 = ?J3" using s(2) by blast
    then show ?thesis using u by blast
  next
    case False
    then have j: "J2 = unpin t ?J3" and nt: "\<not> keep J1 t" using s(2) t(6) by auto
    have "\<not> keep J0 t" "r \<noteq> t" using nt effD(3) [OF assms(1)] assms(5) by blast+
    then have "eff J0 M0 J2 (set_r r ?v (flags_logic ?v Ma))" "keep J2 r"
      unfolding j using u eff_unpin unpin_facts(4) by blast+
    moreover have "inv J2 (set_r r ?v (flags_logic ?v Ma))" "names J2 r = {}"
      unfolding j using u inv_cong [OF _ unpin_facts(1)] same_cacheD(1) [OF unpin_facts(1)] by auto
    ultimately show ?thesis using u by blast
  qed
qed

end

interpretation sv: value_source "\<lambda>J M. sim J M g" for g
  by unfold_locales

interpretation iv: value_source "idle X g m" for X g m
  by unfold_locales


section \<open>Static operands\<close>

lemma pin_val_spec: "eff J M J1 M1 \<Longrightarrow> sim J1 M1 g \<Longrightarrow> eff J M (pin_val v J1) M1 \<and> sim (pin_val v J1) M1 g"
  using eff_trans [OF _ eff_pin_val] sim_same [OF _ pin_val_facts(1)] by blast

lemma pin_val_ready: "ready J w \<Longrightarrow> ready (pin_val v J) w"
  by (cases w) (auto simp: ready_def pin_val_facts(4))

text \<open>A half of an unaligned word: as found, or else loaded.\<close>

lemma half_spec:
  assumes "sim J M g" "(if v = VNone then get_word w J else Some (v, J)) = Some (x, J')"
    and "v \<noteq> VNone \<Longrightarrow> ready J v \<and> val_of M v = rd g w"
  shows "\<exists>M'. eff J M J' M' \<and> sim J' M' g \<and> ready J' x \<and> val_of M' x = rd g w"
proof (cases "v = VNone")
  case True
  then have "get_word w J = Some (x, J')" using assms(2) by simp
  then show ?thesis using get_word_spec [OF assms(1)] by blast
qed (use assms in \<open>auto intro!: exI [of _ M]\<close>)

lemma get_static_spec:
  assumes "sim J M g" "get_static a J = Some (v, J')" "\<not> t_flags_live J"
  shows "\<exists>M'. eff J M J' M' \<and> sim J' M' g \<and> val_of M' v = rd g a \<and> ready J' v \<and> of_word J J' v a"
proof -
  define w where "w = a AND NOT 7"
  define k where "k = unat (a AND 7) * 8"
  note G = get_static_def [of a J, folded w_def k_def, unfolded Let_def, folded w_def k_def]
  obtain lo J1 where f1: "cache_find w J = (lo, J1)" by fastforce
  obtain hi J2 where f2: "cache_find (w + 8) J1 = (hi, J2)" by fastforce
  show ?thesis
  proof (cases "a AND 7 \<noteq> 0 \<and> cacheable w \<and> cacheable (w + 8) \<and> (lo \<noteq> VNone \<or> hi \<noteq> VNone)")
    case False
    have "get_word a J = Some (v, J') \<or> get_word a J2 = Some (v, J')"
      using False assms(2) f1 f2 by (auto simp: G split: if_splits)
    then show ?thesis
    proof
      assume "get_word a J = Some (v, J')"
      then show ?thesis by (rule get_word_spec [OF assms(1)])
    next
      note s1 = find_spec [OF assms(1) f1]
      note s2 = find_spec [OF s1(2) f2]
      note e = eff_trans [OF s1(1) s2(1)]
      assume "get_word a J2 = Some (v, J')"
      then obtain M' where "eff J2 M J' M'" "sim J' M' g" "val_of M' v = rd g a" "ready J' v" "of_word J2 J' v a"
        using get_word_spec [OF s2(2)] by blast
      then show ?thesis using eff_trans [OF e] effD(3) [OF e]
        by (intro exI [of _ M']) (auto simp: of_word_def split: cval.splits)
    qed
  next
    case True
    let ?J3 = "pin_val hi (pin_val lo J2)"
    note s1 = find_spec [OF assms(1) f1]
    note s2 = find_spec [OF s1(2) f2]
    note e2 = eff_trans [OF s1(1) s2(1)]
    note p1 = pin_val_spec [OF e2 s2(2), of lo]
    note p2 = pin_val_spec [OF p1 [THEN conjunct1] p1 [THEN conjunct2], of hi]
    have lo: "ready ?J3 lo \<and> val_of M lo = rd g w" if "lo \<noteq> VNone"
    proof -
      have "has J2 lo w" using s1(3) [OF that] same_cacheD(6) [OF cache_find_spec(1) [OF f2]] by simp
      then have "ready (pin_val lo J2) lo" using has_ready s2(2) by (auto simp: sim_def)
      then show ?thesis using s1(3) [OF that] by (simp add: pin_val_ready)
    qed
    have hi: "ready ?J3 hi \<and> val_of M hi = rd g (w + 8)" if "hi \<noteq> VNone"
    proof -
      have "has (pin_val lo J2) hi (w + 8)" using s2(3) [OF that] same_cacheD(6) [OF pin_val_facts(1)] by simp
      then have "ready ?J3 hi" using has_ready p1 by (auto simp: sim_def)
      then show ?thesis using s2(3) [OF that] by simp
    qed
    obtain lo' J4 hi' J5 x J6 h J7 where j: "(if lo = VNone then get_word w ?J3 else Some (lo, ?J3)) = Some (lo', J4)"
      "(if hi = VNone then get_word (w + 8) J4 else Some (hi, J4)) = Some (hi', J5)"
      "shifted lo' True k J5 = Some (x, J6)" "shifted hi' False (64 - k) J6 = Some (h, J7)"
      and c: "(case (x, h) of (VConst b, VConst d) \<Rightarrow> Some (VConst (b OR d), J7)
         | (VConst _, VReg r) \<Rightarrow> do { J \<leftarrow> or_val r x J7; Some (h, J) }
         | (VReg r, _) \<Rightarrow> do { J \<leftarrow> or_val r h J7; Some (x, J) }
         | _ \<Rightarrow> None) = Some (v, J')"
      using True assms(2) f1 f2 by (auto simp: G split: bind_splits)
    obtain M4 where t4: "eff ?J3 M J4 M4" "sim J4 M4 g" "ready J4 lo'" "val_of M4 lo' = rd g w"
      using half_spec [OF p2 [THEN conjunct2] j(1) lo] by blast
    have hi4: "ready J4 hi \<and> val_of M4 hi = rd g (w + 8)" if "hi \<noteq> VNone"
      using hi [OF that] ready_eff [OF _ t4(1)] by auto
    obtain M5 where t5: "eff J4 M4 J5 M5" "sim J5 M5 g" "ready J5 hi'" "val_of M5 hi' = rd g (w + 8)"
      using half_spec [OF t4(2) j(2) hi4] by blast
    note e5 = eff_trans [OF eff_trans [OF p2 [THEN conjunct1] t4(1)] t5(1)]
    have lo5: "ready J5 lo'" "val_of M5 lo' = rd g w" using ready_eff [OF t4(3) t5(1)] t4(4) by simp_all
    have nf: "\<not> t_flags_live J5" using ready_flags [OF e5] assms(3) by simp
    have a7: "unat (a AND 7) < 8" using low_bits(1) by simp
    then have k: "k < 256" "64 - k < 256" by (simp_all add: k_def)
    obtain M6 where t6: "eff J5 M5 J6 M6" "sim J6 M6 g" "fresh_val J5 J6 x" "val_of M6 x = push_bit k (rd g w)"
      using sv.shifted_spec [OF t5(2) j(3) lo5(1) nf k(1)] lo5(2) by auto
    have hi6: "ready J6 hi'" "val_of M6 hi' = rd g (w + 8)" using ready_eff [OF t5(3) t6(1)] t5(4) by simp_all
    have nf6: "\<not> t_flags_live J6" using ready_flags [OF t6(1)] nf by simp
    obtain M7 where t7: "eff J6 M6 J7 M7" "sim J7 M7 g" "fresh_val J6 J7 h" "val_of M7 h = drop_bit (64 - k) (rd g (w + 8))"
      using sv.shifted_spec [OF t6(2) j(4) hi6(1) nf6 k(2)] hi6(2) by auto
    note e6 = eff_trans [OF e5 t6(1)]
    note e7 = eff_trans [OF e6 t7(1)]
    have x7: "fresh_val J J7 x" "val_of M7 x = push_bit k (rd g w)" and xr7: "ready J7 x"
      using fresh_eff [OF fresh_before [OF t6(3) e5] t7(1)] ready_eff [OF _ t7(1)] fresh_ready [OF t6(3)] t6(4) by auto
    have h7: "fresh_val J J7 h" "ready J7 h" using fresh_before [OF t7(3) e6] fresh_ready [OF t7(3)] by auto
    have both: "rd g a = val_of M7 x OR val_of M7 h"
    proof -
      have j: "0 < unat (a AND 7)" using True by (simp add: unat_gt_0)
      have "w + of_nat (unat (a AND 7)) = a" using low_bits(1,2) [of a] by (simp add: w_def)
      then show ?thesis using rd_spanned [OF j a7, of g w] by (simp add: x7(2) t7(4) k_def mult.commute)
    qed
    have fin: "\<exists>M'. eff J M J' M' \<and> sim J' M' g \<and> val_of M' y = rd g a \<and> ready J' y \<and> of_word J J' y a"
      if y: "y = VReg r" "fresh_val J J7 y" "or_val r z J7 = Some J'" "ready J7 z" "rd g a = val_of M7 y OR val_of M7 z" for y z r
    proof -
      have r: "areg r" "keep J7 r" "\<not> keep J r" "names J7 r = {}" using y(1,2) by (simp_all add: fresh_val_def)
      obtain M8 where "eff J M J' M8" "sim J' M8 g" "names J' r = {}" "keep J' r" "xr M8 r = xr M7 r OR val_of M7 z"
        using sv.or_val_spec [OF e7 t7(2) r(3,1,2,4) assms(3) y(3,4)] by blast
      then show ?thesis using y(1,5) r by (intro exI [of _ M8]) (simp add: ready_def of_word_def)
    qed
    show ?thesis
    proof (cases x)
      case (VConst b)
      show ?thesis
      proof (cases h)
        case (VConst d)
        then have "v = VConst (b OR d)" "J' = J7" using c \<open>x = VConst b\<close> by simp_all
        then show ?thesis using e7 t7(2) both \<open>x = VConst b\<close> VConst
          by (intro exI [of _ M7]) (simp add: ready_def of_word_def)
      next
        case (VReg r)
        then have "or_val r x J7 = Some J'" "v = h" using c VConst by (auto split: bind_splits)
        then show ?thesis using fin [OF VReg h7(1) _ xr7] both by (simp add: or.commute)
      qed (use c VConst in simp_all)
    next
      case (VReg r)
      then have "or_val r h J7 = Some J'" "v = x" using c by (auto split: bind_splits)
      then show ?thesis using fin [OF VReg x7(1) _ h7(2) both] by simp
    qed (use c in simp_all)
  qed
qed

end
