(* ===== verification/Translate_Insn.thy ===== *)
theory Translate_Insn
  imports Reg_Cache
begin

text \<open>
  The translation of one SUBLEQ instruction (\<open>translate_insn\<close> of jit.c): which of its fields are
  baked in, the check of its store against translated code, the operands, the subtraction, the store
  and what it does to the register cache, and the branch.
\<close>

section \<open>What the translation of a block knows\<close>

text \<open>
  Memory as read while translating, the map of dynamic words, \<open>written\<close>, and the sizes; and the
  state: the registers and code, the block's record, the shared maps.
\<close>

record tenv =
  te_mem :: mem
  te_dyn_map :: bytes
  te_written :: "u64 \<Rightarrow> bool"
  te_mem_size :: u64
  te_page_off :: u64

definition is_dynamic :: "tenv \<Rightarrow> u64 \<Rightarrow> u64 \<Rightarrow> bool" where
  "is_dynamic E a start \<longleftrightarrow>
     bit_get (te_dyn_map E) (drop_bit 3 a) \<or>
     (a \<ge> start \<and> a < start + 24 * of_nat JIT_MAX_BLOCK \<and> te_written E (drop_bit 3 (a - start)))"

section \<open>Fields\<close>

definition mark_field :: "tenv \<Rightarrow> u64 \<Rightarrow> nat \<Rightarrow> nat \<Rightarrow> jit_block \<times> maps \<Rightarrow> jit_block \<times> maps" where
  "mark_field E p i f = (\<lambda>(B, M).
     if is_dynamic E (p + 8 * of_nat f) (jb_start B) then (B, M)
     else
       let bitno = i * 3 + f; raw = load64 (te_mem E) (p + 8 * of_nat f);
           B = B\<lparr>jb_smask := (jb_smask B)(bitno div 64 := jb_smask B (bitno div 64) OR push_bit (bitno mod 64) 1)\<rparr>;
           B = B\<lparr>jb_shash := (jb_shash B XOR raw) * 0x100000001b3\<rparr>
       in (B, mark_static M (drop_bit 3 p + of_nat f)))"

definition mark_fields :: "tenv \<Rightarrow> u64 \<Rightarrow> nat \<Rightarrow> jit_block \<times> maps \<Rightarrow> jit_block \<times> maps" where
  "mark_fields E p i = fold (mark_field E p i) [0..<3]"

text \<open>A field: whether it is read at run time, its value if not, and what the cache has for it.\<close>

definition field_val :: "tenv \<Rightarrow> u64 \<Rightarrow> u64 \<Rightarrow> trans \<Rightarrow> (bool \<times> u64 \<times> cval) \<times> trans" where
  "field_val E start a J =
     (let dyn = is_dynamic E a start; f = bswap64 (load64 (te_mem E) a)
      in if \<not> dyn then ((False, f, VNone), J)
         else let (v, J) = cache_find a J
              in case v of VConst c \<Rightarrow> ((False, c, v), J) | _ \<Rightarrow> ((True, f, v), pin_val v J))"

definition unpin_all :: "trans \<Rightarrow> trans" where
  "unpin_all J = J\<lparr>t_regs := (\<lambda>k. if k < NREGS then t_regs J k\<lparr>cr_pinned := False\<rparr> else t_regs J k)\<rparr>"

section \<open>The check of the store\<close>

text \<open>The words of a store to \<open>fb\<close>, as the loop goes through them.\<close>

definition target_words :: "tenv \<Rightarrow> u64 \<Rightarrow> u64 list" where
  "target_words E fb =
     takeWhile (\<lambda>w. w \<le> drop_bit 3 (fb + 7) \<and> w < drop_bit 3 (te_mem_size E)) [drop_bit 3 fb, drop_bit 3 fb + 1]"

definition check_word :: "nat \<Rightarrow> u64 \<Rightarrow> trans \<Rightarrow> trans" where
  "check_word i w J =
     (let J = test_bitmap w J; (pd, J) = snap_pending J; (site, J) = jcc32 CC_NZ J
      in J\<lparr>t_smcs := t_smcs J @ [\<lparr>sm_site = site, sm_idx = i, sm_pend = pd, sm_precise = None\<rparr>]\<rparr>)"

definition check_static :: "tenv \<Rightarrow> jit_block \<Rightarrow> nat \<Rightarrow> u64 \<Rightarrow> trans \<Rightarrow> trans" where
  "check_static E B i fb J =
     fold (\<lambda>w J. if hoisted B w then J else check_word i w J) (target_words E fb) J"

definition check_dynamic :: "tenv \<Rightarrow> nat \<Rightarrow> u64 \<Rightarrow> cval \<Rightarrow> trans \<Rightarrow> (u8 \<times> trans) option" where
  "check_dynamic E i p fbv J = do {
     (rb, J) \<leftarrow> (if fbv \<noteq> VNone then to_reg fbv J
                 else do {
                   (rb, J) \<leftarrow> scratch J;
                   let J = load_static rb (p + 8) J;
                   Some (rb, bind_reg rb (p + 8) J)
                 });
     (t1, J) \<leftarrow> scratch J;
     (t2, J) \<leftarrow> scratch J;
     let J = mov_rr t1 rb J;
     let J = shr_ri t1 12 J;
     let J = cmp_byte_zero R14 t1 (ucast (te_page_off E)) J;
     let (pd, J) = snap_pending J;
     let (site, J) = jcc32 CC_NZ J;
     let J = J\<lparr>t_smcs := t_smcs J @
                [\<lparr>sm_site = site, sm_idx = i, sm_pend = pd, sm_precise = Some (rb, t1, t2, length (em_code J))\<rparr>]\<rparr>;
     Some (rb, unpin t2 (unpin t1 J))
   }"

section \<open>Operands\<close>

text \<open>An operand through a pointer, which is in the cache or read from the field at \<open>p\<close>.\<close>

definition pointer_reg :: "cval \<Rightarrow> u64 \<Rightarrow> trans \<Rightarrow> (u8 \<times> trans) option" where
  "pointer_reg fv p J =
     (if fv \<noteq> VNone then to_reg fv J
      else do {
        (ra, J) \<leftarrow> scratch J;
        let J = load_static ra p J;
        Some (ra, bind_reg ra p J)
      })"

definition load_pointed :: "u8 \<Rightarrow> trans \<Rightarrow> (cval \<times> trans) option" where
  "load_pointed ra J = do {
     J \<leftarrow> flush_pending J;
     (r, J) \<leftarrow> scratch J;
     Some (VReg r, load_mem r ra 0 J)
   }"

definition operand_a :: "bool \<times> u64 \<times> cval \<Rightarrow> u64 \<Rightarrow> trans \<Rightarrow> (cval \<times> trans) option" where
  "operand_a = (\<lambda>(dyna, fa, fav) p J.
     if \<not> dyna then get_static fa J
     else do { (ra, J) \<leftarrow> pointer_reg fav p J; load_pointed ra J })"

definition operand_b :: "bool \<times> u64 \<times> cval \<Rightarrow> u8 \<Rightarrow> trans \<Rightarrow> (cval \<times> trans) option" where
  "operand_b = (\<lambda>(dynb, fb, fbv) rb J. if \<not> dynb then get_static fb J else load_pointed rb J)"

text \<open>A dynamic C, read before the store.\<close>

definition dynamic_c :: "bool \<times> u64 \<times> cval \<Rightarrow> u64 \<Rightarrow> trans \<Rightarrow> (u8 option \<times> trans) option" where
  "dynamic_c = (\<lambda>(dync, fc, fcv) p J.
     if \<not> dync then Some (None, J)
     else if fcv \<noteq> VNone then do { (rc, J) \<leftarrow> to_reg fcv J; Some (Some rc, J) }
     else do { (rc, J) \<leftarrow> scratch J; Some (Some rc, load_static rc (p + 16) J) })"

section \<open>The subtraction\<close>

text \<open>Whether the result can be computed in the register of B, which holds nothing but B.\<close>

definition in_place :: "cval \<Rightarrow> bool \<Rightarrow> u64 \<Rightarrow> trans \<Rightarrow> bool" where
  "in_place vb dynb fb J =
     (case vb of
        VReg r \<Rightarrow>
          (case reg_index r of
             None \<Rightarrow> False
           | Some i \<Rightarrow> \<not> aliased J r \<and> (\<not> cr_used (t_regs J i) \<or> (\<not> dynb \<and> cr_addr (t_regs J i) = fb)))
      | _ \<Rightarrow> False)"

text \<open>The first sum checks \<open>dynb\<close> for a free register, too.\<close>

definition in_place_add :: "cval \<Rightarrow> bool \<Rightarrow> u64 \<Rightarrow> trans \<Rightarrow> bool" where
  "in_place_add vb dynb fb J =
     (case vb of
        VReg r \<Rightarrow>
          (case reg_index r of
             None \<Rightarrow> False
           | Some i \<Rightarrow> \<not> aliased J r \<and> (\<not> cr_used (t_regs J i) \<or> cr_addr (t_regs J i) = fb) \<and> \<not> dynb)
      | _ \<Rightarrow> False)"

text \<open>A copy of B to compute in.\<close>

definition copy_val :: "cval \<Rightarrow> trans \<Rightarrow> (u8 \<times> trans) option" where
  "copy_val vb J = do {
     (rr, J) \<leftarrow> scratch J;
     (case vb of
        VConst c \<Rightarrow> Some (rr, mov_imm rr c J)
      | VReg r \<Rightarrow> Some (rr, mov_rr rr r J)
      | VNeg r \<Rightarrow> Some (rr, mov_rr rr r J)
      | VNone \<Rightarrow> None)
   }"

definition sub_value :: "cval \<Rightarrow> cval \<Rightarrow> bool \<Rightarrow> u64 \<Rightarrow> trans \<Rightarrow> (cval \<times> trans) option" where
  "sub_value va vb dynb fb J = do {
     (rr, J) \<leftarrow>
       (if vb = VConst 0 then do {
          (rr, J) \<leftarrow> to_reg va J;
          (rr, J) \<leftarrow> (if va = VReg rr then do { (q, J) \<leftarrow> scratch J; Some (q, mov_rr q rr J) } else Some (rr, J));
          Some (rr, neg_r rr J)
        }
        else do {
          (rr, J) \<leftarrow>
            (if in_place vb dynb fb J then (case vb of VReg r \<Rightarrow> Some (r, J) | _ \<Rightarrow> None)
             else case vb of VNeg _ \<Rightarrow> to_reg vb J | _ \<Rightarrow> copy_val vb J);
          (ra, J) \<leftarrow> to_reg va J;
          Some (rr, sub_rr rr ra J)
        });
     Some (VReg rr, pin rr J)
   }"

definition add_value :: "u8 \<Rightarrow> cval \<Rightarrow> bool \<Rightarrow> u64 \<Rightarrow> trans \<Rightarrow> (cval \<times> trans) option" where
  "add_value ra vb dynb fb J = do {
     (rr, J) \<leftarrow> (if in_place_add vb dynb fb J then (case vb of VReg r \<Rightarrow> Some (r, J) | _ \<Rightarrow> None) else copy_val vb J);
     let J = rex 1 ra 0 rr J;
     let J = e8 0x01 J;
     let J = modrm_reg ra rr J;
     Some (VReg rr, pin rr J)
   }"

text \<open>The result, the branch if known, and whether B stays as it is.\<close>

definition compute :: "bool \<Rightarrow> cval \<Rightarrow> cval \<Rightarrow> bool \<Rightarrow> bool \<Rightarrow> u64 \<Rightarrow> trans \<Rightarrow> (cval \<times> bool option \<times> bool \<times> trans) option" where
  "compute same va vb branch dynb fb J =
     (if same then Some (VConst 0, Some True, False, J)
      else case (va, vb) of
        (VConst x, VConst y) \<Rightarrow> Some (VConst (y - x), Some (y \<le>s x), False, J)
      | _ \<Rightarrow>
        if va = VConst 0 then
          (if branch then do { (t, J) \<leftarrow> to_reg vb J; Some (vb, None, True, test_rr t t J) }
           else Some (vb, None, True, J))
        else case (va, vb) of
          (VReg r, VConst y) \<Rightarrow>
            if y = 0 \<and> \<not> branch then Some (VNeg r, None, False, J)
            else do { (res, J) \<leftarrow> sub_value va vb dynb fb J; Some (res, None, False, J) }
        | (VNeg r, _) \<Rightarrow>
            if vb = VConst 0 \<and> \<not> branch then Some (VReg r, None, False, J)
            else if (case vb of VNeg _ \<Rightarrow> False | _ \<Rightarrow> True) \<and> \<not> branch then
              do { (res, J) \<leftarrow> add_value r vb dynb fb J; Some (res, None, False, J) }
            else do { (res, J) \<leftarrow> sub_value va vb dynb fb J; Some (res, None, False, J) }
        | _ \<Rightarrow> do { (res, J) \<leftarrow> sub_value va vb dynb fb J; Some (res, None, False, J) })"

section \<open>The store\<close>

text \<open>A store to a static word that can be cached is held back, otherwise made now.\<close>

definition store_result :: "cval \<Rightarrow> bool \<Rightarrow> bool \<Rightarrow> bool \<Rightarrow> u64 \<Rightarrow> u8 \<Rightarrow> trans \<Rightarrow> (cval \<times> trans) option" where
  "store_result res unchanged pendable dynb fb rb J =
     (if unchanged then Some (res, J)
      else if \<not> pendable then do {
        J \<leftarrow> flush_pending J;
        (case res of
           VConst c \<Rightarrow> do { J \<leftarrow> store_const c dynb fb rb J; Some (res, J) }
         | _ \<Rightarrow> do {
             (r, J) \<leftarrow> to_reg res J;
             J \<leftarrow> store_reg r dynb fb rb J;
             Some (VReg r, J)
           })
      }
      else if t_pend J \<and> t_pend_addr J \<noteq> fb then do { J \<leftarrow> flush_pending J; Some (res, J) }
      else Some (res, J))"

text \<open>What the store did to the cache, and whether the words it spans are still to be put together.\<close>

definition cache_result :: "cval \<Rightarrow> bool \<Rightarrow> bool \<Rightarrow> bool \<Rightarrow> u64 \<Rightarrow> trans \<Rightarrow> (bool \<times> trans) option" where
  "cache_result res unchanged pendable dynb fb J =
     (let w = fb AND NOT 7
      in if dynb then Some (False, if unchanged then J else cache_drop_all J)
         else if pendable then do {
           J \<leftarrow> (case res of
                   VConst c \<Rightarrow> Some (set_const fb c J)
                 | VNeg r \<Rightarrow> set_alias fb r True J
                 | VReg r \<Rightarrow>
                     (case reg_index r of
                        None \<Rightarrow> None
                      | Some i \<Rightarrow>
                          if cr_used (t_regs J i) \<and> cr_addr (t_regs J i) \<noteq> fb then set_alias fb r False J
                          else Some (bind_reg r fb J))
                 | VNone \<Rightarrow> None);
           Some (False, if unchanged then J else J\<lparr>t_pend := True, t_pend_addr := fb\<rparr>)
         }
         else if fb AND 7 \<noteq> 0 \<and> cacheable w \<and> cacheable (w + 8) \<and> \<not> unchanged then Some (True, J)
         else Some (False, if unchanged then J else cache_drop (w + 8) (cache_drop w J)))"

text \<open>\<open>(w & keep) | part\<close>, as a new value.\<close>

definition masked_or :: "cval \<Rightarrow> u64 \<Rightarrow> cval \<Rightarrow> trans \<Rightarrow> (cval \<times> trans) option" where
  "masked_or w keep part J =
     (case (w, part) of
        (VConst x, VConst y) \<Rightarrow> Some (VConst ((x AND keep) OR y), J)
      | _ \<Rightarrow>
        if (case w of VConst x \<Rightarrow> x AND keep = 0 | _ \<Rightarrow> False) then Some (part, J)
        else do {
          (w, J) \<leftarrow> (case w of VNeg _ \<Rightarrow> do { (q, J) \<leftarrow> to_reg w J; Some (VReg q, J) } | _ \<Rightarrow> Some (w, J));
          (r, J) \<leftarrow> scratch J;
          J \<leftarrow> (case w of
                  VConst x \<Rightarrow> Some (mov_imm r (x AND keep) J)
                | VReg q \<Rightarrow> and_imm64 r keep (mov_rr r q J)
                | _ \<Rightarrow> None);
          J \<leftarrow> or_val r part J;
          Some (VReg r, J)
        })"

definition update_word :: "cval \<Rightarrow> u64 \<Rightarrow> u64 \<Rightarrow> cval \<Rightarrow> bool \<Rightarrow> nat \<Rightarrow> trans \<Rightarrow> trans option" where
  "update_word wv w keep v left n J =
     (if wv = VNone then Some J
      else do {
        (part, J) \<leftarrow> shifted v left n J;
        (x, J) \<leftarrow> masked_or wv keep part J;
        (case x of VConst c \<Rightarrow> Some (set_const w c J) | VReg r \<Rightarrow> Some (bind_reg r w J) | _ \<Rightarrow> None)
      })"

definition update_spanned :: "u64 \<Rightarrow> cval \<Rightarrow> trans \<Rightarrow> trans option" where
  "update_spanned a v J =
     (let k = unat (a AND 7) * 8; lo = a AND NOT 7; hi = lo + 8;
          J = pin_val v (unpin_all J);
          (lv, J) = cache_find lo J;
          (hv, J) = cache_find hi J;
          J = pin_val hv (pin_val lv J)
      in do {
        J \<leftarrow> update_word lv lo (NOT (drop_bit k (- 1))) v False k J;
        update_word hv hi (drop_bit k (- 1)) v True (64 - k) J
      })"

section \<open>The branch, and the instruction\<close>

definition emit_branch :: "bool \<times> u64 \<times> cval \<Rightarrow> u8 option \<Rightarrow> bool option \<Rightarrow> u64 \<Rightarrow> nat \<Rightarrow> trans \<Rightarrow> bool \<times> trans" where
  "emit_branch = (\<lambda>(dync, fc, fcv) rc taken p i J.
     if taken \<noteq> Some False \<and> (dync \<or> fc \<noteq> p + 24) then
       let (pd, J) = snap_pending J;
           (site, J) = (if taken = Some True then jmp32 J else jcc32 CC_LE J);
           S = \<lparr>sb_dyn = dync, sb_site = site, sb_target = fc, sb_idx = i, sb_creg = rc, sb_pend = pd\<rparr>
       in (taken = Some True, J\<lparr>t_stubs := t_stubs J @ [S]\<rparr>)
     else (False, J))"

definition translate_code :: "tenv \<Rightarrow> jit_block \<Rightarrow> u64 \<Rightarrow> nat \<Rightarrow> trans \<Rightarrow> (bool \<times> trans) option" where
  "translate_code E B p i J =
     (let start = jb_start B;
          J = unpin_all J;
          (fA, J) = field_val E start p J;
          (fB, J) = field_val E start (p + 8) J;
          (fC, J) = field_val E start (p + 16) J;
          (dyna, fa, fav) = fA; (dynb, fb, fbv) = fB; (dync, fc, fcv) = fC
      in do {
        (rb, J) \<leftarrow> (if \<not> dynb then Some (0, check_static E B i fb J) else check_dynamic E i p fbv J);
        let same = (\<not> dyna \<and> \<not> dynb \<and> fa = fb);
        (va, J) \<leftarrow> (if same then Some (VNone, J) else operand_a fA p J);
        (vb, J) \<leftarrow> (if same then Some (VNone, J) else operand_b fB rb J);
        (rc, J) \<leftarrow> dynamic_c fC p J;
        let branch = (dync \<or> fc \<noteq> p + 24);
        let pendable = (\<not> dynb \<and> cacheable fb);
        J \<leftarrow> (if \<not> same \<and> \<not> (va = VConst 0 \<and> (case vb of VConst _ \<Rightarrow> False | _ \<Rightarrow> True)) \<and>
                 (\<not> pendable \<or> t_pend_addr J \<noteq> fb)
              then flush_pending J else Some J);
        (res, taken, unchanged, J) \<leftarrow> compute same va vb branch dynb fb J;
        let J = J\<lparr>t_flags_live := (branch \<and> taken = None)\<rparr>;
        (res, J) \<leftarrow> store_result res unchanged pendable dynb fb rb J;
        (spanned, J) \<leftarrow> cache_result res unchanged pendable dynb fb J;
        let J = J\<lparr>t_flags_live := False\<rparr>;
        let (ended, J) = emit_branch fC rc taken p i J;
        J \<leftarrow> (if spanned \<and> \<not> ended then update_spanned fb res J else Some J);
        Some (ended, J)
      })"

definition translate_insn :: "tenv \<Rightarrow> u64 \<Rightarrow> nat \<Rightarrow> jit_block \<times> maps \<times> trans \<Rightarrow> (bool \<times> jit_block \<times> maps \<times> trans) option" where
  "translate_insn E p i = (\<lambda>(B, M, J).
     let (B', M') = mark_fields E p i (B, M)
     in map_option (\<lambda>(ended, J). (ended, B', M', J)) (translate_code E B p i J))"

end
