(* ===== verification/Insn_Compute.thy ===== *)
theory Insn_Compute
  imports Cache_Values Translate_Insn
begin

text \<open>
  The subtraction of an instruction: what the code for every way of computing the result leaves in
  registers, flags and cache.
\<close>

section \<open>What the subtraction does\<close>

lemma cache_ok_mono: "cache_ok X J M g \<Longrightarrow> X \<subseteq> Y \<Longrightarrow> cache_ok Y J M g"
  unfolding cache_ok_def by blast

text \<open>
  A run that may leave what is cached of the words of \<open>X\<close> wrong, by changing registers in use,
  of \<open>R\<close> only.
\<close>

definition altered :: "u8 set \<Rightarrow> u64 set \<Rightarrow> mem \<Rightarrow> trans \<Rightarrow> mach \<Rightarrow> trans \<Rightarrow> mach \<Rightarrow> bool" where
  "altered R X g J M J' M' \<longleftrightarrow> code_run J J' M (Through M') \<and> same_env J J' \<and>
     (\<forall>k. keep J k \<and> k \<notin> R \<longrightarrow> keep J' k \<and> xr M' k = xr M k) \<and>
     cache_ok X J' M' g \<and> mem_ok J' M' g \<and> (t_pend J' \<longrightarrow> t_pend J) \<and> t_pend_addr J' = t_pend_addr J"

lemma alteredD:
  assumes "altered R X g J M J' M'"
  shows "code_run J J' M (Through M')" "same_env J J'" "keep J k \<Longrightarrow> k \<notin> R \<Longrightarrow> keep J' k"
    "keep J k \<Longrightarrow> k \<notin> R \<Longrightarrow> xr M' k = xr M k" "cache_ok X J' M' g" "mem_ok J' M' g"
    "t_pend J' \<Longrightarrow> t_pend J" "t_pend_addr J' = t_pend_addr J"
  using assms unfolding altered_def by blast+

lemma altered_mono:
  "altered R X g J M J' M' \<Longrightarrow> X \<subseteq> Y \<Longrightarrow> (\<And>k. k \<in> R \<Longrightarrow> keep J k \<Longrightarrow> k \<in> S) \<Longrightarrow> altered S Y g J M J' M'"
  unfolding altered_def using cache_ok_mono by blast

lemma eff_altered: "eff J M J' M' \<Longrightarrow> sim J' M' g \<Longrightarrow> altered {} {} g J M J' M'"
  unfolding altered_def using effD by (auto simp: sim_def)

lemma alter_step:
  assumes "eff J0 M0 J1 M1" "sim J1 M1 g" "areg r" "keep J1 r" "names J1 r \<subseteq> X \<times> {False}"
    and "emits J1 J2 [i]" "xstep i M1 = Some M2" "xr M2 = (xr M1)(r := x)" "xmem M2 = xmem M1"
  shows "altered {r} X g J0 M0 J2 M2 \<and> keep J2 r \<and> xr M2 r = x"
proof -
  note h = emits_has [OF assms(6)]
  have "code_run J0 J2 M0 (Through M2)"
    using effD(1) [OF assms(1)] code_run_step [OF assms(6,7)] by (rule code_run_trans)
  moreover have "same_env J0 J2" using effD(2) [OF assms(1)] emits_same(2) [OF assms(6)] by (rule same_env_trans)
  moreover have "cache_ok X J2 M2 g"
  proof -
    have r15: "R15 \<noteq> r" using areg_bounds [OF assms(3)] by blast
    have v: "val_of M2 v = val_of M1 v" if "has J1 v a" "a \<notin> X" for v a
      using that assms(5) by (cases v) (auto simp: assms(8) has_def)
    show ?thesis using assms(2) v r15 unfolding sim_def cache_ok_def by (auto simp: h assms(8))
  qed
  moreover have "mem_ok J2 M2 g"
    by (rule mem_ok_cong [of J1 M1]) (use assms(2,9) in \<open>auto simp: h sim_def mem_ok_def\<close>)
  moreover have "keep J0 k \<Longrightarrow> k \<noteq> r \<Longrightarrow> keep J2 k \<and> xr M2 k = xr M0 k" for k
    using effD(3,4) [OF assms(1)] by (simp add: h assms(8))
  ultimately show ?thesis unfolding altered_def using effD(7,8) [OF assms(1)] assms(4,8) by (auto simp: h)
qed

lemma altered_pin: "altered R X g J M J1 M1 \<Longrightarrow> altered R X g J M (pin q J1) M1"
proof -
  assume a: "altered R X g J M J1 M1"
  have "code_run J (pin q J1) M (Through M1)"
    using alteredD(1) [OF a] code_run_same [OF pin_facts(2)] by (rule code_run_trans)
  moreover have "same_env J (pin q J1)" using alteredD(2) [OF a] pin_facts(3) by (rule same_env_trans)
  moreover have "mem_ok (pin q J1) M1 g"
    by (rule mem_ok_cong [OF alteredD(6) [OF a]]) (use alteredD(6) [OF a] in \<open>auto simp: same_cacheD(4,5) [OF pin_facts(1)] mem_ok_def\<close>)
  ultimately show ?thesis unfolding altered_def using alteredD [OF a] cache_ok_same [OF pin_facts(1)]
    by (auto simp: pin_facts(4) same_cacheD(4,5) [OF pin_facts(1)])
qed

lemma aliased_iff: "aliased J r \<longleftrightarrow> (\<exists>i<NALIAS. ca_used (t_aliases J i) \<and> ca_reg (t_aliases J i) = r)"
  unfolding aliased_def find_from_ex ..

lemma sole_names:
  assumes "reg_index r = Some i" "\<not> aliased J r"
  shows "names J r = (if cr_used (t_regs J i) then {(cr_addr (t_regs J i), False)} else {})"
proof -
  have i: "i < NREGS" "alloc_regs ! i = r" using reg_indexD [OF assms(1)] by auto
  have "alloc_regs ! k = r \<longleftrightarrow> k = i" if "k < NREGS" for k using alloc_regs_nth(4) [OF that i(1)] i(2) by auto
  then show ?thesis using i assms(2) unfolding names_def aliased_iff by auto
qed

lemma in_place_names:
  "in_place (VReg r) dynb fb J \<Longrightarrow> names J r \<subseteq> (if dynb then {} else {fb}) \<times> {False}"
  "in_place_add (VReg r) dynb fb J \<Longrightarrow> names J r \<subseteq> (if dynb then {} else {fb}) \<times> {False}"
  by (auto simp: in_place_def in_place_add_def sole_names split: option.splits if_splits)

lemma copy_val_spec:
  assumes "sim J M g" "copy_val v J = Some (r, J')" "ready J v" "\<And>q. v \<noteq> VNeg q"
  shows "\<exists>M'. eff J M J' M' \<and> sim J' M' g \<and> xr M' r = val_of M v \<and> areg r \<and> keep J' r \<and> \<not> keep J r \<and> names J' r = {}"
proof -
  obtain J1 where s: "scratch J = Some (r, J1)" "(\<exists>c. v = VConst c \<and> J' = mov_imm r c J1) \<or> (\<exists>q. v = VReg q \<and> J' = mov_rr r q J1)"
    using assms(2) assms(4) readyD(1) [OF assms(3)] by (cases v) (auto simp: copy_val_def split: bind_splits)
  obtain M1 where t: "eff J M J1 M1" "sim J1 M1 g" "areg r" "\<not> keep J r" "keep J1 r" "names J1 r = {}"
    using full.taken [OF assms(1) s(1)] by blast
  from s(2) show ?thesis
  proof (elim disjE exE conjE)
    fix c assume "v = VConst c" "J' = mov_imm r c J1"
    then show ?thesis using full.mov_imm_taken [OF t(1,2,4,3,6), of c] t(3-5) by (intro exI [of _ "set_r r c M1"]) simp
  next
    fix q assume v: "v = VReg q" "J' = mov_rr r q J1"
    then have q: "areg q" "keep J q" using readyD(2) [OF assms(3)] by auto
    then have "q < 16" "xr M1 q = xr M q" using areg_bounds effD(4) [OF t(1)] by auto
    then show ?thesis using v full.mov_rr_taken [OF t(1,2,4,3,6), of q] t(3-5) by (intro exI [of _ "set_r r (xr M1 q) M1"]) simp
  qed
qed

text \<open>The register the result is computed in: B's own, or a new one with its value.\<close>

lemma dest_spec:
  assumes "sim J M g" "ready J vb" "dest = Some (r, J')"
    and "dest = (if P then (case vb of VReg r \<Rightarrow> Some (r, J) | _ \<Rightarrow> None) else case vb of VNeg _ \<Rightarrow> to_reg vb J | _ \<Rightarrow> copy_val vb J)"
    and "\<And>q. P \<Longrightarrow> vb = VReg q \<Longrightarrow> names J q \<subseteq> X \<times> {False}"
  shows "\<exists>M'. eff J M J' M' \<and> sim J' M' g \<and> xr M' r = val_of M vb \<and> areg r \<and> keep J' r \<and> names J' r \<subseteq> X \<times> {False} \<and>
    (\<not> keep J r \<or> vb = VReg r \<and> names J r \<subseteq> X \<times> {False})"
proof (cases P)
  case True
  then have "vb = VReg r" "J' = J" using assms(3,4) by (auto split: cval.splits)
  then show ?thesis using assms(1,5) True readyD(2) [OF assms(2)] by (intro exI [of _ M]) auto
next
  case False
  show ?thesis
  proof (cases "\<exists>q. vb = VNeg q")
    case True
    then have "to_reg vb J = Some (r, J')" using assms(3,4) False by auto
    from sv.to_reg_spec [OF assms(1) this assms(2)] True show ?thesis by auto
  next
    case nn: False
    then have "copy_val vb J = Some (r, J')" using assms(3,4) False by (auto split: cval.splits)
    from copy_val_spec [OF assms(1) this assms(2)] nn show ?thesis by auto
  qed
qed

lemma sub_value_spec:
  assumes "sim J M g" "sub_value va vb dynb fb J = Some (res, J')" "\<not> t_flags_live J"
    and "ready J va" "ready J vb"
    and "\<And>q. vb = VReg q \<Longrightarrow> names J q \<subseteq> (if dynb then {} else {fb}) \<times> {False} \<Longrightarrow> va \<noteq> VReg q \<and> va \<noteq> VNeg q"
  defines "X \<equiv> if dynb then {} else {fb}"
  shows "\<exists>r M'. res = VReg r \<and> altered {r} X g J M J' M' \<and> areg r \<and> keep J' r \<and>
    xr M' r = val_of M vb - val_of M va \<and> (cond CC_LE M' \<longleftrightarrow> val_of M vb \<le>s val_of M va) \<and>
    (\<not> keep J r \<or> vb = VReg r \<and> names J r \<subseteq> X \<times> {False})"
proof (cases "vb = VConst 0")
  case True
  obtain ra J1 rr J2 where s: "to_reg va J = Some (ra, J1)"
    "(if va = VReg ra then do { (q, J) \<leftarrow> scratch J1; Some (q, mov_rr q ra J) } else Some (ra, J1)) = Some (rr, J2)"
    "res = VReg rr" "J' = pin rr (neg_r rr J2)"
    using assms(2) True by (auto simp: sub_value_def Let_def split: bind_splits if_splits)
  obtain M1 where t: "eff J M J1 M1" "sim J1 M1 g" "xr M1 ra = val_of M va" "areg ra" "keep J1 ra"
    "va = VReg ra \<or> \<not> keep J ra \<and> names J1 ra = {}"
    using sv.to_reg_spec [OF assms(1) s(1) assms(4)] by blast
  have "\<exists>M2. eff J M J2 M2 \<and> sim J2 M2 g \<and> xr M2 rr = val_of M va \<and> areg rr \<and> keep J2 rr \<and> \<not> keep J rr \<and> names J2 rr = {}"
  proof (cases "va = VReg ra")
    case True
    then obtain J3 where q: "scratch J1 = Some (rr, J3)" "J2 = mov_rr rr ra J3" using s(2) by (auto split: bind_splits)
    obtain M3 where u: "eff J1 M1 J3 M3" "sim J3 M3 g" "areg rr" "\<not> keep J1 rr" "keep J3 rr" "names J3 rr = {}"
      using full.taken [OF t(2) q(1)] by blast
    have n: "\<not> keep J rr" using u(4) effD(3) [OF t(1)] by blast
    have b: "ra < 16" using areg_bounds [OF t(4)] by simp
    have "xr M3 ra = val_of M va" using effD(4) [OF u(1) t(5)] t(3) by simp
    then show ?thesis using full.mov_rr_taken [OF eff_trans [OF t(1) u(1)] u(2) n u(3,6) b] u(3,5) n
      unfolding q(2) by (intro exI [of _ "set_r rr (xr M3 ra) M3"]) simp
  next
    case False
    then show ?thesis using s(2) t by (intro exI [of _ M1]) auto
  qed
  then obtain M2 where u: "eff J M J2 M2" "sim J2 M2 g" "xr M2 rr = val_of M va" "areg rr" "keep J2 rr" "\<not> keep J rr" "names J2 rr = {}"
    by blast
  have b: "rr < 16" using areg_bounds [OF u(4)] by simp
  let ?M3 = "set_r rr (- xr M2 rr) (flags_sub 0 (xr M2 rr) M2)"
  have v: "altered {rr} X g J M (neg_r rr J2) ?M3 \<and> keep (neg_r rr J2) rr \<and> xr ?M3 rr = - xr M2 rr"
    by (rule alter_step [OF u(1,2,4,5) _ emits_r(1) [OF b]]) (simp_all add: u(7))
  have c: "cond CC_LE ?M3 \<longleftrightarrow> 0 \<le>s xr M2 rr" by (rule cond_sub)
  show ?thesis
    using v c u(3,4,6) s(3) altered_pin [of "{rr}" X g J M "neg_r rr J2" ?M3 rr] True
    by (intro exI [of _ rr] exI [of _ ?M3]) (simp add: s(4) pin_facts(4))
next
  case False
  obtain rr J1 ra J2 where s:
    "(if in_place vb dynb fb J then (case vb of VReg r \<Rightarrow> Some (r, J) | _ \<Rightarrow> None) else case vb of VNeg _ \<Rightarrow> to_reg vb J | _ \<Rightarrow> copy_val vb J) = Some (rr, J1)"
    "to_reg va J1 = Some (ra, J2)" "res = VReg rr" "J' = pin rr (sub_rr rr ra J2)"
    using assms(2) False by (auto simp: sub_value_def Let_def split: bind_splits)
  obtain M1 where t: "eff J M J1 M1" "sim J1 M1 g" "xr M1 rr = val_of M vb" "areg rr" "keep J1 rr" "names J1 rr \<subseteq> X \<times> {False}"
    "\<not> keep J rr \<or> vb = VReg rr \<and> names J rr \<subseteq> X \<times> {False}"
    using dest_spec [OF assms(1,5) s(1) refl, of X] in_place_names(1) unfolding X_def by blast
  have va1: "ready J1 va" "val_of M1 va = val_of M va" using ready_eff [OF assms(4) t(1)] by simp_all
  obtain M2 where u: "eff J1 M1 J2 M2" "sim J2 M2 g" "xr M2 ra = val_of M va" "areg ra" "keep J2 ra"
    using sv.to_reg_spec [OF t(2) s(2) va1(1)] va1(2) by metis
  note e = eff_trans [OF t(1) u(1)]
  have b: "rr < 16" "ra < 16" using areg_bounds t(4) u(4) by auto
  have k: "keep J2 rr" "names J2 rr \<subseteq> X \<times> {False}" "xr M2 rr = val_of M vb"
    using effD(3-5) [OF u(1) t(5)] t(3,6) by simp_all
  let ?M3 = "set_r rr (xr M2 rr - xr M2 ra) (flags_sub (xr M2 rr) (xr M2 ra) M2)"
  have v: "altered {rr} X g J M (sub_rr rr ra J2) ?M3 \<and> keep (sub_rr rr ra J2) rr \<and> xr ?M3 rr = xr M2 rr - xr M2 ra"
    by (rule alter_step [OF e u(2) t(4) k(1,2) emits_rr(2) [OF b]]) simp_all
  have c: "cond CC_LE ?M3 \<longleftrightarrow> xr M2 rr \<le>s xr M2 ra" by (rule cond_sub)
  show ?thesis
    using v c u(3) k(3) t(4,7) s(3) altered_pin [of "{rr}" X g J M "sub_rr rr ra J2" ?M3 rr]
    by (intro exI [of _ rr] exI [of _ ?M3]) (simp add: s(4) pin_facts(4))
qed

lemma add_value_spec:
  assumes "sim J M g" "add_value q vb dynb fb J = Some (res, J')" "\<not> t_flags_live J"
    and "ready J (VNeg q)" "ready J vb" "\<And>k. vb \<noteq> VNeg k"
  defines "X \<equiv> if dynb then {} else {fb}"
  shows "\<exists>r M'. res = VReg r \<and> altered {r} X g J M J' M' \<and> areg r \<and> keep J' r \<and>
    xr M' r = val_of M vb - val_of M (VNeg q) \<and> (\<not> keep J r \<or> vb = VReg r \<and> names J r \<subseteq> X \<times> {False})"
proof -
  obtain rr J1 where s:
    "(if in_place_add vb dynb fb J then (case vb of VReg r \<Rightarrow> Some (r, J) | _ \<Rightarrow> None) else copy_val vb J) = Some (rr, J1)"
    "res = VReg rr" "J' = pin rr (modrm_reg q rr (e8 0x01 (rex 1 q 0 rr J1)))"
    using assms(2) by (auto simp: add_value_def Let_def split: bind_splits)
  have s1: "(if in_place_add vb dynb fb J then (case vb of VReg r \<Rightarrow> Some (r, J) | _ \<Rightarrow> None)
      else case vb of VNeg _ \<Rightarrow> to_reg vb J | _ \<Rightarrow> copy_val vb J) = Some (rr, J1)"
    using s(1) assms(6) by (auto split: cval.splits if_splits)
  obtain M1 where t: "eff J M J1 M1" "sim J1 M1 g" "xr M1 rr = val_of M vb" "areg rr" "keep J1 rr" "names J1 rr \<subseteq> X \<times> {False}"
    "\<not> keep J rr \<or> vb = VReg rr \<and> names J rr \<subseteq> X \<times> {False}"
    using dest_spec [OF assms(1,5) s1 refl, of X] in_place_names(2) unfolding X_def by blast
  have q: "areg q" "keep J q" using readyD(2) [OF assms(4)] by auto
  have b: "rr < 16" "q < 16" using areg_bounds t(4) q(1) by auto
  have x: "xr M1 q = xr M q" using effD(4) [OF t(1) q(2)] .
  let ?J2 = "modrm_reg q rr (e8 0x01 (rex 1 q 0 rr J1))"
  have e: "emits J1 ?J2 [XAlu Add True (Reg rr) q]" by (rule emits_reg0; simp add: b decode_simps)
  let ?M3 = "set_r rr (xr M1 rr + xr M1 q) (flags_add (xr M1 rr) (xr M1 q) M1)"
  have v: "altered {rr} X g J M ?J2 ?M3 \<and> keep ?J2 rr \<and> xr ?M3 rr = xr M1 rr + xr M1 q"
    by (rule alter_step [OF t(1,2,4,5,6) e]) simp_all
  show ?thesis
    using v t(3,4,7) x s(2) altered_pin [of "{rr}" X g J M ?J2 ?M3 rr]
    by (intro exI [of _ rr] exI [of _ ?M3]) (simp add: s(3) pin_facts(4))
qed

text \<open>The ways the result is computed.\<close>

lemma compute_eqs:
  "compute True va vb branch dynb fb J = Some (VConst 0, Some True, False, J)"
  "compute False (VConst x) (VConst y) branch dynb fb J = Some (VConst (y - x), Some (y \<le>s x), False, J)"
  "(\<forall>c. vb \<noteq> VConst c) \<Longrightarrow> compute False (VConst 0) vb branch dynb fb J =
  (if branch then do { (t, J) \<leftarrow> to_reg vb J; Some (vb, None, True, test_rr t t J) } else Some (vb, None, True, J))"
  "x \<noteq> 0 \<Longrightarrow> (\<forall>c. vb \<noteq> VConst c) \<Longrightarrow> compute False (VConst x) vb branch dynb fb J =
  do { (res, J) \<leftarrow> sub_value (VConst x) vb dynb fb J; Some (res, None, False, J) }"
  "compute False (VReg q) vb branch dynb fb J =
  (if vb = VConst 0 \<and> \<not> branch then Some (VNeg q, None, False, J)
   else do { (res, J) \<leftarrow> sub_value (VReg q) vb dynb fb J; Some (res, None, False, J) })"
  "compute False (VNeg q) vb branch dynb fb J =
  (if vb = VConst 0 \<and> \<not> branch then Some (VReg q, None, False, J)
   else if (\<forall>k. vb \<noteq> VNeg k) \<and> \<not> branch then do { (res, J) \<leftarrow> add_value q vb dynb fb J; Some (res, None, False, J) }
   else do { (res, J) \<leftarrow> sub_value (VNeg q) vb dynb fb J; Some (res, None, False, J) })"
  by (cases vb; simp add: compute_def)+

lemma compute_cases:
  assumes "compute same va vb branch dynb fb J = Some (res, taken, unchanged, J')" "\<not> same \<longrightarrow> va \<noteq> VNone \<and> vb \<noteq> VNone"
  obtains (same) "same" "res = VConst 0" "taken = Some True" "\<not> unchanged" "J' = J"
    | (const) x y where "\<not> same" "va = VConst x" "vb = VConst y" "res = VConst (y - x)" "taken = Some (y \<le>s x)" "\<not> unchanged" "J' = J"
    | (zero) "\<not> same" "va = VConst 0" "\<not> branch" "res = vb" "taken = None" "unchanged" "J' = J" "\<forall>c. vb \<noteq> VConst c"
    | (test) t J1 where "\<not> same" "va = VConst 0" "to_reg vb J = Some (t, J1)" "res = vb" "taken = None" "unchanged" "J' = test_rr t t J1" "\<forall>c. vb \<noteq> VConst c"
    | (neg) q where "\<not> same" "va = VReg q" "vb = VConst 0" "\<not> branch" "res = VNeg q" "taken = None" "\<not> unchanged" "J' = J"
    | (pos) q where "\<not> same" "va = VNeg q" "vb = VConst 0" "\<not> branch" "res = VReg q" "taken = None" "\<not> unchanged" "J' = J"
    | (add) q where "\<not> same" "va = VNeg q" "\<And>k. vb \<noteq> VNeg k" "\<not> branch" "add_value q vb dynb fb J = Some (res, J')" "taken = None" "\<not> unchanged"
    | (sub) "\<not> same" "sub_value va vb dynb fb J = Some (res, J')" "taken = None" "\<not> unchanged"
proof (cases same)
  case True
  then have "same = True" by simp
  from assms(1) [unfolded this compute_eqs(1)] show thesis by (intro same [OF True]) simp_all
next
  case False
  then have n: "same = False" "\<not> same" by simp_all
  note c = assms(1) [unfolded n(1)]
  have S: thesis if a: "do { (res, J) \<leftarrow> sub_value va vb dynb fb J; Some (res, None :: bool option, False, J) } = Some (res, taken, unchanged, J')"
  proof -
    obtain "sub_value va vb dynb fb J = Some (res, J')" "taken = None" "\<not> unchanged" using a by (auto split: bind_splits)
    then show thesis by (rule sub [OF n(2)])
  qed
  show thesis
  proof (cases va)
    case (VConst x)
    consider y where "vb = VConst y" | "x = 0" "\<forall>c. vb \<noteq> VConst c" | "x \<noteq> 0" "\<forall>c. vb \<noteq> VConst c" by blast
    then show thesis
    proof cases
      case 1
      from c [unfolded VConst 1 compute_eqs(2)] show thesis by (intro const [OF n(2) VConst 1]) simp_all
    next
      case 2
      note e = c [unfolded VConst 2(1) compute_eqs(3) [OF 2(2)]]
      have v: "va = VConst 0" using VConst 2(1) by simp
      show thesis
      proof (cases branch)
        case False
        from e [unfolded if_not_P [OF False]] show thesis by (intro zero [OF n(2) v False]) (use 2(2) in simp_all)
      next
        case True
        obtain t J1 where "to_reg vb J = Some (t, J1)" "Some (vb, None, True, test_rr t t J1) = Some (res, taken, unchanged, J')"
          using e [unfolded if_P [OF True]] by (auto split: bind_splits)
        then show thesis by (intro test [OF n(2) v]) (use 2(2) in auto)
      qed
    next
      case 3
      show thesis by (rule S) (use c in \<open>simp only: VConst compute_eqs(4) [OF 3]\<close>)
    qed
  next
    case (VReg q)
    show thesis
    proof (cases "vb = VConst 0 \<and> \<not> branch")
      case True
      then have v: "vb = VConst 0" "\<not> branch" by simp_all
      from c [unfolded VReg v(1) compute_eqs(5)] v(2) show thesis by (intro neg [OF n(2) VReg v]) simp_all
    next
      case False
      show thesis by (rule S) (use c False in \<open>simp only: VReg compute_eqs(5) if_False\<close>)
    qed
  next
    case (VNeg q)
    consider "vb = VConst 0 \<and> \<not> branch" | "\<not> (vb = VConst 0 \<and> \<not> branch)" "(\<forall>k. vb \<noteq> VNeg k) \<and> \<not> branch"
      | "\<not> (vb = VConst 0 \<and> \<not> branch)" "\<not> ((\<forall>k. vb \<noteq> VNeg k) \<and> \<not> branch)" by blast
    then show thesis
    proof cases
      case 1
      then have v: "vb = VConst 0" "\<not> branch" by simp_all
      from c [unfolded VNeg v(1) compute_eqs(6)] v(2) show thesis by (intro pos [OF n(2) VNeg v]) simp_all
    next
      case 2
      then have v: "\<not> branch" "\<And>k. vb \<noteq> VNeg k" by auto
      have "do { (res, J) \<leftarrow> add_value q vb dynb fb J; Some (res, None :: bool option, False, J) } = Some (res, taken, unchanged, J')"
        using c [unfolded VNeg compute_eqs(6)] by (simp only: if_not_P [OF 2(1)] if_P [OF 2(2)])
      then obtain "add_value q vb dynb fb J = Some (res, J')" "taken = None" "\<not> unchanged" by (auto split: bind_splits)
      then show thesis by (intro add [OF n(2) VNeg v(2,1)])
    next
      case 3
      show thesis by (rule S) (use c 3 in \<open>simp only: VNeg compute_eqs(6) if_False\<close>)
    qed
  qed (use assms(2) n in simp)
qed

lemma compute_spec:
  assumes "sim J M g" "compute same va vb branch dynb fb J = Some (res, taken, unchanged, J')" "\<not> t_flags_live J"
    and ab: "\<not> same \<Longrightarrow> ready J va \<and> val_of M va = A \<and> ready J vb \<and> val_of M vb = B" "same \<Longrightarrow> A = B"
    and sep: "\<And>q. \<not> same \<Longrightarrow> vb = VReg q \<Longrightarrow> names J q \<subseteq> (if dynb then {} else {fb}) \<times> {False} \<Longrightarrow> va \<noteq> VReg q \<and> va \<noteq> VNeg q"
  defines "X \<equiv> if dynb then {} else {fb}"
  shows "\<exists>M'. altered {k. \<not> same \<and> vb = VReg k \<and> names J k \<subseteq> X \<times> {False}} X g J M J' M' \<and>
    ready J' res \<and> val_of M' res = B - A \<and> (\<forall>t. taken = Some t \<longrightarrow> t = (B \<le>s A)) \<and>
    (branch \<and> taken = None \<longrightarrow> cond CC_LE M' = (B \<le>s A)) \<and> (unchanged \<longrightarrow> A = 0 \<and> (\<forall>c. res \<noteq> VConst c)) \<and> (same \<or> unchanged \<longrightarrow> sim J' M' g)"
    (is "\<exists>M'. altered ?R X g J M J' M' \<and> ?Q M'")
proof -
  have keepM: "altered ?R X g J M J M" by (rule altered_mono [OF eff_altered [OF eff_refl assms(1)]]) simp_all
  have ab2: "ready J va" "val_of M va = A" "ready J vb" "val_of M vb = B" if "\<not> same" using ab(1) [OF that] by auto
  have sub: "\<exists>M'. altered ?R X g J M J' M' \<and> ?Q M'"
    if n: "\<not> same" and s: "sub_value va vb dynb fb J = Some (res, J')" "taken = None" "\<not> unchanged"
  proof -
    obtain r M' where "res = VReg r" "altered {r} X g J M J' M'" "areg r" "keep J' r" "xr M' r = B - A"
      "cond CC_LE M' \<longleftrightarrow> B \<le>s A" "\<not> keep J r \<or> vb = VReg r \<and> names J r \<subseteq> X \<times> {False}"
      using sub_value_spec [OF assms(1) s(1) assms(3) ab2(1,3) [OF n] sep [OF n]] ab2(2,4) [OF n]
      unfolding X_def [symmetric] by metis
    then show ?thesis using n s(2,3) altered_mono [of "{r}" X g J M J' M' X ?R]
      by (intro exI [of _ M']) (simp add: ready_def)
  qed
  have add: "\<exists>M'. altered ?R X g J M J' M' \<and> ?Q M'"
    if n: "\<not> same" and s: "va = VNeg q" "add_value q vb dynb fb J = Some (res, J')" "taken = None" "\<not> unchanged" "\<not> branch"
      "\<And>k. vb \<noteq> VNeg k" for q
  proof -
    obtain r M' where "res = VReg r" "altered {r} X g J M J' M'" "areg r" "keep J' r" "xr M' r = B - A"
      "\<not> keep J r \<or> vb = VReg r \<and> names J r \<subseteq> X \<times> {False}"
      using add_value_spec [OF assms(1) s(2) assms(3) ab2(1) [OF n, unfolded s(1)] ab2(3) [OF n] s(6)]
        ab2(2) [OF n, unfolded s(1)] ab2(4) [OF n]
      unfolding X_def [symmetric] by metis
    then show ?thesis using n s(3-5) altered_mono [of "{r}" X g J M J' M' X ?R]
      by (intro exI [of _ M']) (simp add: ready_def)
  qed
  have nn: "\<not> same \<longrightarrow> va \<noteq> VNone \<and> vb \<noteq> VNone" using ab2(1,3) readyD(1) by blast
  show ?thesis
  proof (cases rule: compute_cases [OF assms(2) nn, case_names same const zero test neg pos add sub])
    case same
    have "B \<le>s A" using ab(2) [OF same(1)] by simp
    then show ?thesis unfolding same(2,3,5) using keepM same(4) ab(2) [OF same(1)] assms(1) by (intro exI [of _ M]) (simp add: ready_def)
  next
    case (const x y)
    have "x = A" "y = B" using ab2(2,4) [OF const(1)] const(2,3) by simp_all
    then show ?thesis unfolding const(4,5,7) using keepM const(1,6) by (intro exI [of _ M]) (simp add: ready_def)
  next
    case zero
    have "A = 0" using ab2(2) [OF zero(1)] zero(2) by simp
    then show ?thesis unfolding zero(4,5,7) using keepM zero(3,8) ab2(3,4) [OF zero(1)] assms(1) by (intro exI [of _ M]) simp
  next
    case (test t J1)
    have A: "A = 0" using ab2(2) [OF test(1)] test(2) by simp
    obtain M1 where u: "eff J M J1 M1" "sim J1 M1 g" "xr M1 t = val_of M vb" "areg t" "keep J1 t"
      using sv.to_reg_spec [OF assms(1) test(3) ab2(3) [OF test(1)]] by blast
    have b: "t < 16" using areg_bounds [OF u(4)] by simp
    let ?M2 = "flags_logic (xr M1 t AND xr M1 t) M1"
    note e = emits_rr(3) [OF b b, of J1]
    have e2: "eff J M J' ?M2" unfolding test(7) by (rule eff_emit [OF u(1) e]) (use assms(3) in simp_all)
    have s2: "sim J' ?M2 g" unfolding test(7) by (rule full.inv_cong [OF u(2) emits_same(1) [OF e]]) simp_all
    have "cond CC_LE ?M2 \<longleftrightarrow> B \<le>s 0" using cond_test [of "xr M1 t AND xr M1 t" M1] u(3) ab2(4) [OF test(1)] by simp
    moreover have "altered ?R X g J M J' ?M2" by (rule altered_mono [OF eff_altered [OF e2 s2]]) simp_all
    ultimately show ?thesis using ready_eff [OF ab2(3) [OF test(1)] e2] ab2(4) [OF test(1)] s2 A
      by (intro exI [of _ ?M2]) (simp add: test(4-6,8))
  next
    case (neg q)
    have "A = xr M q" "B = 0" "areg q \<and> keep J q" using ab2 [OF neg(1)] neg(2,3) readyD(2) by auto
    then show ?thesis unfolding neg(5,6,8) using keepM neg(1,4,7) by (intro exI [of _ M]) (simp add: ready_def)
  next
    case (pos q)
    have "A = - xr M q" "B = 0" "areg q \<and> keep J q" using ab2 [OF pos(1)] pos(2,3) readyD(2) by auto
    then show ?thesis unfolding pos(5,6,8) using keepM pos(1,4,7) by (intro exI [of _ M]) (simp add: ready_def)
  next
    case add': (add q)
    show ?thesis by (rule add [OF add'(1,2,5,6,7,4,3)])
  next
    case sub': sub
    show ?thesis by (rule sub [OF sub'])
  qed
qed

end
