(* ===== verification/Insn_Store.thy ===== *)
theory Insn_Store
  imports Insn_Compute
begin

text \<open>
  The store of an instruction, made or held back, and what the cache says of it afterwards.
\<close>

section \<open>The store\<close>

text \<open>What is left of \<open>eff\<close> when words are entered in the cache.\<close>

definition quiet :: "trans \<Rightarrow> mach \<Rightarrow> trans \<Rightarrow> mach \<Rightarrow> bool" where
  "quiet J M J' M' \<longleftrightarrow> code_run J J' M (Through M') \<and> same_env J J' \<and>
     (\<forall>r. keep J r \<longrightarrow> keep J' r \<and> xr M' r = xr M r) \<and> (t_flags_live J \<longrightarrow> same_flags M M')"

lemma quietD:
  assumes "quiet J M J' M'"
  shows "code_run J J' M (Through M')" "same_env J J'" "keep J r \<Longrightarrow> keep J' r" "keep J r \<Longrightarrow> xr M' r = xr M r"
    "t_flags_live J \<Longrightarrow> same_flags M M'"
  using assms unfolding quiet_def by blast+

lemma eff_quiet: "eff J M J' M' \<Longrightarrow> quiet J M J' M'"
  unfolding eff_def quiet_def by blast

lemma quiet_trans: "quiet J M J1 M1 \<Longrightarrow> quiet J1 M1 J2 M2 \<Longrightarrow> quiet J M J2 M2"
proof -
  assume a: "quiet J M J1 M1" "quiet J1 M1 J2 M2"
  have "code_run J J2 M (Through M2)" using quietD(1) [OF a(1)] quietD(1) [OF a(2)] by (rule code_run_trans)
  moreover have "same_env J J2" using quietD(2) [OF a(1)] quietD(2) [OF a(2)] by (rule same_env_trans)
  moreover have "same_flags M M2" if "t_flags_live J"
    using that quietD(5) [OF a(1)] quietD(5) [OF a(2)] quietD(2) [OF a(1)] by (auto simp: same_env_def same_flags_def)
  ultimately show ?thesis unfolding quiet_def using quietD(3,4) [OF a(1)] quietD(3,4) [OF a(2)] by auto
qed

lemma quiet_state:
  assumes "em_code J' = em_code J" "same_env J J'" "keep J' = keep J"
  shows "quiet J M J' M"
  using assms by (simp add: quiet_def code_run_same)

lemma quiet_ready: "quiet J M J' M' \<Longrightarrow> ready J v \<Longrightarrow> ready J' v \<and> val_of M' v = val_of M v"
  by (cases v) (auto simp: ready_def quietD(3,4))

text \<open>An alias put in slot \<open>i\<close>.\<close>

definition put_alias :: "nat \<Rightarrow> u64 \<Rightarrow> u8 \<Rightarrow> bool \<Rightarrow> trans \<Rightarrow> trans" where
  "put_alias i a r neg J = J\<lparr>t_aliases := (t_aliases J)(i := \<lparr>ca_used = True, ca_addr = a, ca_reg = r, ca_neg = neg\<rparr>)\<rparr>"

lemma names_iff:
  "(b, s) \<in> names J q \<longleftrightarrow>
     (\<exists>k<NREGS. alloc_regs ! k = q \<and> cr_used (t_regs J k) \<and> cr_addr (t_regs J k) = b \<and> \<not> s) \<or>
     (\<exists>k<NALIAS. ca_used (t_aliases J k) \<and> ca_reg (t_aliases J k) = q \<and> ca_addr (t_aliases J k) = b \<and> ca_neg (t_aliases J k) = s)"
  unfolding names_def by blast

lemma names_put_alias:
  assumes "i < NALIAS"
  shows "(b, s) \<in> names (put_alias i a r neg J) q \<Longrightarrow> b = a \<and> s = neg \<and> q = r \<or> (b, s) \<in> names J q"
    "(a, neg) \<in> names (put_alias i a r neg J) r"
    "(b, s) \<in> names J q \<Longrightarrow> \<not> (ca_used (t_aliases J i) \<and> ca_addr (t_aliases J i) = b) \<Longrightarrow> (b, s) \<in> names (put_alias i a r neg J) q"
proof -
  let ?P = "put_alias i a r neg J"
  have e: "t_aliases ?P k = (if k = i then \<lparr>ca_used = True, ca_addr = a, ca_reg = r, ca_neg = neg\<rparr> else t_aliases J k)"
    "t_regs ?P = t_regs J" for k by (simp_all add: put_alias_def)
  show "(b, s) \<in> names ?P q \<Longrightarrow> b = a \<and> s = neg \<and> q = r \<or> (b, s) \<in> names J q"
    unfolding names_iff e by (auto split: if_splits)
  show "(a, neg) \<in> names ?P r" unfolding names_iff e using assms by auto
  show "(b, s) \<in> names ?P q" if n: "(b, s) \<in> names J q" "\<not> (ca_used (t_aliases J i) \<and> ca_addr (t_aliases J i) = b)"
    using n(1) unfolding names_iff
  proof
    assume "\<exists>k<NALIAS. ca_used (t_aliases J k) \<and> ca_reg (t_aliases J k) = q \<and> ca_addr (t_aliases J k) = b \<and> ca_neg (t_aliases J k) = s"
    then obtain k where k: "k < NALIAS" "ca_used (t_aliases J k)" "ca_reg (t_aliases J k) = q" "ca_addr (t_aliases J k) = b" "ca_neg (t_aliases J k) = s"
      by blast
    then have "k \<noteq> i" using n(2) by blast
    then have "t_aliases ?P k = t_aliases J k" by (simp add: e)
    then show "(\<exists>k<NREGS. alloc_regs ! k = q \<and> cr_used (t_regs ?P k) \<and> cr_addr (t_regs ?P k) = b \<and> \<not> s) \<or>
      (\<exists>k<NALIAS. ca_used (t_aliases ?P k) \<and> ca_reg (t_aliases ?P k) = q \<and> ca_addr (t_aliases ?P k) = b \<and> ca_neg (t_aliases ?P k) = s)"
      using k by (intro disjI2 exI [of _ k]) simp
  qed (simp add: e)
qed

lemma put_alias_facts:
  "em_code (put_alias i a r neg J) = em_code J" "same_env J (put_alias i a r neg J)" "keep (put_alias i a r neg J) = keep J"
  "t_pend (put_alias i a r neg J) = t_pend J" "t_pend_addr (put_alias i a r neg J) = t_pend_addr J"
  "const_words (put_alias i a r neg J) = const_words J" "alias_regs J \<Longrightarrow> areg r \<Longrightarrow> alias_regs (put_alias i a r neg J)"
proof -
  show "keep (put_alias i a r neg J) = keep J" by (rule keep_cong) (simp add: put_alias_def)
qed (auto simp: put_alias_def same_env_def const_words_def alias_regs_def)

lemma put_alias_has:
  assumes "i < NALIAS"
  shows "has (put_alias i a r neg J) v b \<Longrightarrow> b = a \<and> v = (if neg then VNeg r else VReg r) \<or> has J v b"
    and "has (put_alias i a r neg J) (if neg then VNeg r else VReg r) a"
    and "has J v b \<Longrightarrow> \<not> (ca_used (t_aliases J i) \<and> ca_addr (t_aliases J i) = b) \<Longrightarrow> has (put_alias i a r neg J) v b"
proof -
  note n = names_put_alias [OF assms, where J = J and a = a and r = r and neg = neg]
  show "has (put_alias i a r neg J) v b \<Longrightarrow> b = a \<and> v = (if neg then VNeg r else VReg r) \<or> has J v b"
    by (cases v) (auto simp: has_def put_alias_facts(6) dest!: n(1))
  show "has (put_alias i a r neg J) (if neg then VNeg r else VReg r) a" using n(2) by (cases neg) (simp_all add: has_def)
  show "has J v b \<Longrightarrow> \<not> (ca_used (t_aliases J i) \<and> ca_addr (t_aliases J i) = b) \<Longrightarrow> has (put_alias i a r neg J) v b"
    using n(3) by (cases v) (auto simp: has_def put_alias_facts(6))
qed

text \<open>The word's value is \<open>v\<close>: the cache has it right, and what is held back of other words stays so.\<close>

lemma cache_ok_put_alias:
  assumes "cache_ok {} J M g" "i < NALIAS" "areg r" "cacheable a" "val_of M (if neg then VNeg r else VReg r) = rd g a"
  shows "cache_ok {} (put_alias i a r neg J) M g"
  unfolding cache_ok_def
proof (intro conjI allI impI)
  show "xr M R15 = BIAS" "alias_regs (put_alias i a r neg J)"
    using assms(1,3) put_alias_facts(7) by (simp_all add: cache_ok_def)
  fix v b
  assume h: "has (put_alias i a r neg J) v b"
  from put_alias_has(1) [OF assms(2) h]
  show "cacheable b" and "b \<notin> {} \<Longrightarrow> rd g b = val_of M v" using assms(1,4,5) by (auto simp: cache_ok_def)
qed

lemma mem_ok_put_alias:
  assumes "mem_ok J M g" "i < NALIAS" "t_pend J \<Longrightarrow> \<not> (ca_used (t_aliases J i) \<and> ca_addr (t_aliases J i) = t_pend_addr J)"
  shows "mem_ok (put_alias i a r neg J) M g"
proof (rule mem_ok_cong [OF assms(1) put_alias_facts(4,5) refl])
  assume p: "t_pend J"
  then obtain v where "has J v (t_pend_addr J)" using assms(1) by (auto simp: mem_ok_def)
  from put_alias_has(3) [OF assms(2) this assms(3) [OF p]] show "\<exists>v. has (put_alias i a r neg J) v (t_pend_addr J)" ..
qed

lemma set_alias_spec:
  assumes "cache_ok {a} J M g" "areg r" "keep J r" "cacheable a" "val_of M (if neg then VNeg r else VReg r) = rd g a"
    and "set_alias a r neg J = Some J'" "t_pend J \<Longrightarrow> t_pend_addr J \<noteq> a \<Longrightarrow> mem_ok J M g"
  shows "\<exists>M'. quiet J M J' M' \<and> cache_ok {} J' M' g \<and> has J' (if neg then VNeg r else VReg r) a \<and>
    (if t_pend J \<and> t_pend_addr J \<noteq> a then mem_ok J' M' g else M' = M \<and> t_pend J' = t_pend J \<and> t_pend_addr J' = t_pend_addr J)"
proof -
  let ?D = "cache_drop a J" and ?v = "if neg then VNeg r else VReg r"
  have d: "cache_ok {} ?D M g"
    using assms(1) unfolding cache_ok_def by (auto simp: has_cache_drop alias_regs_drop)
  have md: "mem_ok ?D M g" if "t_pend J" "t_pend_addr J \<noteq> a"
    by (rule mem_ok_cong [OF assms(7) [OF that]]) (use that assms(7) [OF that] in \<open>auto simp: has_cache_drop mem_ok_def\<close>)
  show ?thesis
  proof (cases "find_from (\<lambda>i. \<not> ca_used (t_aliases ?D i)) 0 NALIAS")
    case (Some i)
    then have i: "i < NALIAS" "\<not> ca_used (t_aliases ?D i)" using find_fromD by auto
    have j: "J' = put_alias i a r neg ?D" using assms(4,6) Some by (simp add: set_alias_def put_alias_def Let_def)
    note f = put_alias_facts [where i = i and a = a and r = r and neg = neg and J = ?D]
    have "same_env J J'" unfolding j using same_env_trans [OF cache_drop_facts(2) f(2)] .
    then have "quiet J M J' M" by (intro quiet_state) (simp_all add: j f)
    moreover have "cache_ok {} J' M g" unfolding j by (rule cache_ok_put_alias [OF d i(1) assms(2,4,5)])
    moreover have "has J' ?v a" unfolding j by (rule put_alias_has(2) [OF i(1)])
    moreover have "mem_ok J' M g" if "t_pend J" "t_pend_addr J \<noteq> a"
      unfolding j by (rule mem_ok_put_alias [OF md [OF that] i(1)]) (use i(2) in simp)
    ultimately show ?thesis by (intro exI [of _ M]) (simp add: j f)
  next
    case None
    define i where "i = unat (t_alias_next ?D) mod NALIAS"
    have i: "i < NALIAS" by (simp add: i_def NALIAS_def)
    have used: "ca_used (t_aliases ?D i)" using None i unfolding find_from_none by blast
    let ?J1 = "?D\<lparr>t_alias_next := t_alias_next ?D + 1\<rparr>"
    have s1: "same_cache ?D ?J1" "em_code ?J1 = em_code ?D" "same_env ?D ?J1" "keep ?J1 = keep ?D"
      by (simp_all add: same_cache_def same_env_def) (rule keep_cong, simp)
    have t1: "t_aliases ?J1 = t_aliases ?D" "t_pend ?J1 = t_pend J" "t_pend_addr ?J1 = t_pend_addr J" by simp_all
    have q1: "quiet J M ?J1 M"
      by (rule quiet_state) (use s1 same_env_trans [OF cache_drop_facts(2) s1(3)] in simp_all)
    have c1: "cache_ok {} ?J1 M g" using d cache_ok_same [OF s1(1)] by simp
    have na: "ca_addr (t_aliases ?D i) \<noteq> a" using used i cache_drop_entries(6) [of i a J] cache_drop_entries(7) [of a J i] by simp
    obtain J2 where j: "(if t_pend J \<and> t_pend_addr J = ca_addr (t_aliases ?D i) then flush_pending ?J1 else Some ?J1) = Some J2"
      "J' = put_alias i a r neg J2"
      using assms(4,6) None by (auto simp: set_alias_def put_alias_def Let_def i_def split: bind_splits)
    note f = put_alias_facts [where i = i and a = a and r = r and neg = neg and J = J2]
    show ?thesis
    proof (cases "t_pend J \<and> t_pend_addr J = ca_addr (t_aliases ?D i)")
      case True
      then have p: "t_pend J" "t_pend_addr J \<noteq> a" using na by auto
      have "mem_ok ?J1 M g"
        by (rule mem_ok_cong [OF md [OF p]]) (use md [OF p] p in \<open>auto simp: same_cacheD [OF s1(1)] mem_ok_def\<close>)
      then have sm: "sim ?J1 M g" using c1 by (simp add: sim_def)
      have fl: "flush_pending ?J1 = Some J2" using j(1) True by simp
      obtain M2 where e: "eff ?J1 M J2 M2" "sim J2 M2 g" "\<not> t_pend J2" using flush_pending_spec [OF sm fl] by blast
      have k1: "keep ?J1 r" using s1(4) assms(3) by simp
      have "val_of M2 ?v = val_of M ?v" using effD(4) [OF e(1) k1] by simp
      then have c2: "cache_ok {} J' M2 g"
        unfolding j(2) using cache_ok_put_alias [OF _ i assms(2,4), of J2 M2 g neg] e(2) assms(5) by (simp add: sim_def)
      have "quiet J2 M2 J' M2" unfolding j(2) by (rule quiet_state) (simp_all add: f)
      then have "quiet J M J' M2" using quiet_trans [OF quiet_trans [OF q1 eff_quiet [OF e(1)]]] by blast
      moreover have "mem_ok J' M2 g"
        unfolding j(2) by (rule mem_ok_cong [of J2 M2]) (use e(2,3) in \<open>simp_all add: f sim_def\<close>)
      ultimately show ?thesis using c2 p put_alias_has(2) [OF i] by (intro exI [of _ M2]) (simp add: j(2))
    next
      case False
      then have j2: "J2 = ?J1" using j(1) by (simp only: if_False option.inject)
      have "quiet J2 M J' M" unfolding j(2) by (rule quiet_state) (simp_all add: f)
      then have q2: "quiet J M J' M" using quiet_trans [OF q1] j2 by simp
      have c2: "cache_ok {} J' M g" unfolding j(2) using cache_ok_put_alias [OF _ i assms(2,4,5)] c1 j2 by simp
      have "mem_ok J' M g" if p: "t_pend J" "t_pend_addr J \<noteq> a"
      proof -
        have "mem_ok J2 M g"
          by (rule mem_ok_cong [OF md [OF p]]) (use md [OF p] p in \<open>auto simp: j2 same_cacheD [OF s1(1)] mem_ok_def\<close>)
        then show ?thesis unfolding j(2) by (rule mem_ok_put_alias [OF _ i]) (use False p in \<open>auto simp: j2\<close>)
      qed
      moreover have "t_pend J' = t_pend J" "t_pend_addr J' = t_pend_addr J" using f(4,5) by (simp_all add: j(2) j2)
      moreover have "has J' ?v a" unfolding j(2) by (rule put_alias_has(2) [OF i])
      ultimately show ?thesis using q2 c2 by (intro exI [of _ M]) simp
    qed
  qed
qed

text \<open>Making the store, or holding it back.\<close>

lemma idle_sim: "sim J M g \<Longrightarrow> \<not> t_pend J \<Longrightarrow> idle {} g g J M"
  by (auto simp: sim_def mem_ok_def idle_def)

lemma cache_ok_uncacheable: "cache_ok {a} J M g \<Longrightarrow> \<not> cacheable a \<Longrightarrow> cache_ok {} J M g"
  unfolding cache_ok_def by blast

lemma store_now_spec:
  assumes "sim J M g" "ready J res" "dyn \<Longrightarrow> rb < 16 \<and> keep J rb"
    and "do { J \<leftarrow> flush_pending J;
           (case res of
              VConst c \<Rightarrow> do { J \<leftarrow> store_const c dyn fb rb J; Some (res, J) }
            | _ \<Rightarrow> do { (r, J) \<leftarrow> to_reg res J; J \<leftarrow> store_reg r dyn fb rb J; Some (VReg r, J) }) } = Some (res', J')"
  shows "\<exists>M'. eff J M J' M' \<and> cache_ok {} J' M' g \<and> \<not> t_pend J' \<and> ready J' res' \<and> val_of M' res' = val_of M res \<and>
    xmem M' = wr g (if dyn then xr M rb else fb) (val_of M res)"
proof -
  obtain J1 where f: "flush_pending J = Some J1" using assms(4) by (auto split: bind_splits)
  obtain M1 where t: "eff J M J1 M1" "sim J1 M1 g" "\<not> t_pend J1" using flush_pending_spec [OF assms(1) f] by blast
  have r1: "ready J1 res" "val_of M1 res = val_of M res" using ready_eff [OF assms(2) t(1)] by simp_all
  show ?thesis
  proof (cases "\<exists>c. res = VConst c")
    case True
    then obtain c where c: "res = VConst c" by blast
    have s: "store_const c dyn fb rb J1 = Some J'" "res' = res" using assms(4) f c by (auto split: bind_splits)
    have k: "dyn \<Longrightarrow> rb < 16 \<and> keep J1 rb" using assms(3) effD(3) [OF t(1)] by blast
    obtain M' where u: "eff J1 M1 J' M'" "idle {} g g J' (M'\<lparr>xmem := g\<rparr>)" "xmem M' = wr g (if dyn then xr M1 rb else fb) c"
      using idle_full.store_const_with_spec [OF idle_sim [OF t(2,3)] s(1) [unfolded store_const_def] k] by blast
    have "dyn \<Longrightarrow> xr M1 rb = xr M rb" using assms(3) effD(4) [OF t(1)] by blast
    then show ?thesis using eff_trans [OF t(1) u(1)] u(2,3) s(2) c
      by (intro exI [of _ M']) (auto simp: idle_def ready_def)
  next
    case False
    then obtain r J2 where s: "to_reg res J1 = Some (r, J2)" "store_reg r dyn fb rb J2 = Some J'" "res' = VReg r"
      using assms(4) f by (cases res) (auto split: bind_splits)
    obtain M2 where u: "eff J1 M1 J2 M2" "sim J2 M2 g" "xr M2 r = val_of M1 res" "areg r" "keep J2 r"
      using sv.to_reg_spec [OF t(2) s(1) r1(1)] by blast
    have np: "\<not> t_pend J2" using effD(7) [OF u(1)] t(3) by blast
    note e = eff_trans [OF t(1) u(1)]
    have k: "dyn \<Longrightarrow> rb < 16 \<and> keep J2 rb" using assms(3) effD(3) [OF e] by blast
    have rb: "r < 16" using areg_bounds [OF u(4)] by simp
    obtain M' where w: "eff J2 M2 J' M'" "idle {} g g J' (M'\<lparr>xmem := g\<rparr>)" "xmem M' = wr g (if dyn then xr M2 rb else fb) (xr M2 r)"
      using idle_full.store_reg_with_spec [OF idle_sim [OF u(2) np] s(2) [unfolded store_reg_def] rb u(5) k] by blast
    have "dyn \<Longrightarrow> xr M2 rb = xr M rb" using assms(3) effD(4) [OF e] by blast
    moreover have "xr M' r = xr M2 r" using effD(4) [OF w(1) u(5)] .
    ultimately show ?thesis using eff_trans [OF e w(1)] w(2,3) u(3,4) s(3) r1(2) effD(3) [OF w(1) u(5)]
      by (intro exI [of _ M']) (auto simp: idle_def ready_def)
  qed
qed

text \<open>What is held back, and where it is stored.\<close>

lemma store_result_spec:
  assumes "store_result res unchanged pendable dynb fb rb J = Some (res', J')" "pendable \<longleftrightarrow> \<not> dynb \<and> cacheable fb"
    and "cache_ok (if dynb then {} else {fb}) J M g" "mem_ok J M g" "ready J res"
    and "same \<or> unchanged \<Longrightarrow> sim J M g"
    and "\<not> same \<Longrightarrow> \<not> unchanged \<Longrightarrow> t_pend J \<Longrightarrow> pendable \<and> t_pend_addr J = fb"
    and "dynb \<Longrightarrow> rb < 16 \<and> keep J rb"
  shows "\<exists>M'. eff J M J' M' \<and> ready J' res' \<and> val_of M' res' = val_of M res \<and>
    (if unchanged then sim J' M' g \<and> res' = res
     else if \<not> pendable then cache_ok {} J' M' g \<and> \<not> t_pend J' \<and>
       xmem M' = wr g (if dynb then xr M rb else fb) (val_of M res)
     else res' = res \<and> cache_ok {fb} J' M' g \<and> mem_ok J' M' g \<and> (t_pend J' \<longrightarrow> t_pend_addr J' = fb))"
proof -
  consider (un) "unchanged" | (now) "\<not> unchanged" "\<not> pendable" | (fl) "\<not> unchanged" "pendable" "t_pend J" "t_pend_addr J \<noteq> fb"
    | (stay) "\<not> unchanged" "pendable" "\<not> (t_pend J \<and> t_pend_addr J \<noteq> fb)" by blast
  then show ?thesis
  proof cases
    case un
    then show ?thesis using assms(1,5,6) by (intro exI [of _ M]) (simp add: store_result_def)
  next
    case now
    have s: "sim J M g" using now assms(2,3,4) cache_ok_uncacheable by (cases dynb) (auto simp: sim_def)
    obtain M' where "eff J M J' M'" "cache_ok {} J' M' g" "\<not> t_pend J'" "ready J' res'" "val_of M' res' = val_of M res"
      "xmem M' = wr g (if dynb then xr M rb else fb) (val_of M res)"
      using store_now_spec [OF s assms(5,8) assms(1) [unfolded store_result_def if_not_P [OF now(1)] if_P [OF now(2)]]] by blast
    then show ?thesis using now by (intro exI [of _ M']) simp
  next
    case fl
    then have s: "sim J M g" using assms(6,7) by blast
    have "flush_pending J = Some J'" "res' = res" using fl assms(1) by (auto simp: store_result_def split: bind_splits)
    then obtain M' where "eff J M J' M'" "sim J' M' g" "\<not> t_pend J'" using flush_pending_spec [OF s] by blast
    then show ?thesis using fl assms(2) ready_eff [OF assms(5)] \<open>res' = res\<close> cache_ok_mono [of "{}" J' M' g "{fb}"]
      by (intro exI [of _ M']) (auto simp: sim_def)
  next
    case stay
    then have "J' = J" "res' = res" using assms(1) by (auto simp: store_result_def)
    then show ?thesis using stay assms(2-5) by (intro exI [of _ M]) auto
  qed
qed

text \<open>Entering the result for its word.\<close>

definition enter_word :: "cval \<Rightarrow> u64 \<Rightarrow> trans \<Rightarrow> trans option" where
  "enter_word res fb J =
     (case res of
        VConst c \<Rightarrow> Some (set_const fb c J)
      | VNeg r \<Rightarrow> set_alias fb r True J
      | VReg r \<Rightarrow>
          (case reg_index r of
             None \<Rightarrow> None
           | Some i \<Rightarrow>
               if cr_used (t_regs J i) \<and> cr_addr (t_regs J i) \<noteq> fb then set_alias fb r False J
               else Some (bind_reg r fb J))
      | VNone \<Rightarrow> None)"

lemma enter_word_spec:
  assumes "enter_word res a J = Some J'" "cache_ok {a} J M g" "ready J res" "cacheable a" "val_of M res = rd g a"
    and "t_pend J \<Longrightarrow> t_pend_addr J \<noteq> a \<Longrightarrow> mem_ok J M g \<and> (\<forall>c. res \<noteq> VConst c)"
  shows "\<exists>M'. quiet J M J' M' \<and> cache_ok {} J' M' g \<and> has J' res a \<and>
    (if t_pend J \<and> t_pend_addr J \<noteq> a then mem_ok J' M' g else M' = M \<and> t_pend J' = t_pend J \<and> t_pend_addr J' = t_pend_addr J)"
proof -
  have m: "mem_ok J M g" if "t_pend J" "t_pend_addr J \<noteq> a" using assms(6) that by blast
  show ?thesis
  proof (cases res)
    case (VConst c)
    then have j: "J' = set_const a c J" using assms(1) by (simp add: enter_word_def)
    note s = set_const_spec [where a = a and c = c and J = J]
    have "cache_ok {} J' M g"
      unfolding cache_ok_def
    proof (intro conjI allI impI)
      show "xr M R15 = BIAS" "alias_regs J'" using assms(2) s(8) by (simp_all add: j cache_ok_def)
      fix v b assume h: "has J' v b"
      from s(1) [OF h [unfolded j]]
      show "cacheable b" and "b \<notin> {} \<Longrightarrow> rd g b = val_of M v"
        using assms(2,5) VConst by (auto simp: cache_ok_def split: if_splits)
    qed
    moreover have "quiet J M J' M" unfolding j by (rule quiet_state) (simp_all add: s)
    moreover have "\<not> (t_pend J \<and> t_pend_addr J \<noteq> a)" using assms(6) VConst by blast
    ultimately show ?thesis using s(2) [OF assms(4)] VConst by (intro exI [of _ M]) (auto simp: j s)
  next
    case (VNeg r)
    then have "set_alias a r True J = Some J'" "areg r" "keep J r"
      using assms(1) readyD(2) [OF assms(3)] by (auto simp: enter_word_def)
    from set_alias_spec [OF assms(2) this(2,3) assms(4) _ this(1) m] show ?thesis using assms(5) VNeg by simp
  next
    case (VReg r)
    then have r: "areg r" "keep J r" using readyD(2) [OF assms(3)] by auto
    obtain i where i: "reg_index r = Some i" by (rule aregE [OF r(1)])
    show ?thesis
    proof (cases "cr_used (t_regs J i) \<and> cr_addr (t_regs J i) \<noteq> a")
      case True
      then have "set_alias a r False J = Some J'" using assms(1) VReg i by (simp add: enter_word_def)
      from set_alias_spec [OF assms(2) r assms(4) _ this m] show ?thesis using assms(5) VReg by simp
    next
      case False
      then have j: "J' = bind_reg r a J" using assms(1) VReg i by (simp add: enter_word_def split: if_splits)
      have c: "cr_used (t_regs J i) \<Longrightarrow> cr_addr (t_regs J i) = a" using False by blast
      note b = bind_reg_spec [OF r(1) i c, simplified]
      have "cache_ok {} J' M g"
        using assms(2,4,5) VReg b(9) by (auto simp: j cache_ok_def b(1) split: if_splits)
      moreover have "quiet J M J' M" unfolding j by (rule quiet_state) (simp_all add: b)
      moreover have "mem_ok J' M g" if "t_pend J" "t_pend_addr J \<noteq> a"
        by (rule mem_ok_cong [OF m [OF that]]) (use that m [OF that] in \<open>auto simp: j b mem_ok_def assms(4)\<close>)
      ultimately show ?thesis using VReg by (intro exI [of _ M]) (simp add: j b assms(4))
    qed
  qed (use assms(3) in \<open>simp add: ready_def\<close>)
qed

lemma cache_result_enter:
  "cache_result res unchanged pendable dynb fb J =
     (if dynb then Some (False, if unchanged then J else cache_drop_all J)
      else if pendable then
        map_option (\<lambda>J. (False, if unchanged then J else J\<lparr>t_pend := True, t_pend_addr := fb\<rparr>)) (enter_word res fb J)
      else if fb AND 7 \<noteq> 0 \<and> cacheable (fb AND NOT 7) \<and> cacheable ((fb AND NOT 7) + 8) \<and> \<not> unchanged then Some (True, J)
      else Some (False, if unchanged then J else cache_drop ((fb AND NOT 7) + 8) (cache_drop (fb AND NOT 7) J)))"
  by (simp add: cache_result_def enter_word_def Let_def map_conv_bind_option comp_def)

lemma wr_wr_same: "wr (wr m a x) a y = wr m a y"
  by (rule dawn_mem_eqI [of "{a}"]) (auto simp: dawn_writeram_outside)

lemma cacheable_outside:
  assumes "cacheable c" "c \<notin> {a AND NOT 7, (a AND NOT 7) + 8}"
  shows "rd (wr g a v) c = rd g c"
proof -
  have "disj8 c a" by (rule unaligned_disj) (use assms in \<open>auto simp: cacheable_def\<close>)
  then show ?thesis by (simp add: disj8_commute)
qed

lemma cache_ok_wr:
  assumes "cache_ok X J M g" "X \<subseteq> Y" "\<And>c. cacheable c \<Longrightarrow> c \<notin> Y \<Longrightarrow> rd (wr g a v) c = rd g c"
  shows "cache_ok Y J M (wr g a v)"
  using assms unfolding cache_ok_def by auto

lemma cache_result_spec:
  assumes "cache_result res unchanged pendable dynb fb J = Some (spanned, J')" "pendable \<longleftrightarrow> \<not> dynb \<and> cacheable fb" "ready J res"
    and "dynb \<or> b = fb" "unchanged \<Longrightarrow> rd g b = val_of M res \<and> (\<forall>c. res \<noteq> VConst c)"
    and st: "if unchanged then sim J M g
     else if \<not> pendable then cache_ok {} J M g \<and> \<not> t_pend J \<and> xmem M = wr g b (val_of M res)
     else cache_ok {fb} J M g \<and> mem_ok J M g \<and> (t_pend J \<longrightarrow> t_pend_addr J = fb)"
  defines "g' \<equiv> wr g b (val_of M res)" and "w \<equiv> fb AND NOT 7"
  shows "\<exists>M'. quiet J M J' M' \<and>
    (if spanned then J' = J \<and> M' = M \<and> \<not> dynb \<and> fb AND 7 \<noteq> 0 \<and> cache_ok {} J M g \<and> \<not> t_pend J \<and> xmem M = g' \<and>
       cacheable w \<and> cacheable (w + 8)
     else sim J' M' g')"
proof -
  have gu: "g' = g" if "unchanged" using assms(5) [OF that] unfolding g'_def by (metis dawn_write_read_same)
  have q0: "quiet J M J M" by (rule eff_quiet) simp
  consider (un) "unchanged" "\<not> pendable" | (dyn) "dynb" "\<not> unchanged" "\<not> pendable"
    | (span) "\<not> dynb" "\<not> unchanged" "\<not> pendable" "fb AND 7 \<noteq> 0 \<and> cacheable w \<and> cacheable (w + 8)"
    | (drop) "\<not> dynb" "\<not> unchanged" "\<not> pendable" "\<not> (fb AND 7 \<noteq> 0 \<and> cacheable w \<and> cacheable (w + 8))"
    | (pu) "\<not> dynb" "pendable" "unchanged" | (pc) "\<not> dynb" "pendable" "\<not> unchanged"
    using assms(2) by blast
  then show ?thesis
  proof cases
    case un
    then have "J' = J" "\<not> spanned" using assms(1) by (auto simp: cache_result_enter cong: if_cong)
    then show ?thesis using st un gu q0 by (intro exI [of _ M]) simp
  next
    case dyn
    then have j: "J' = cache_drop_all J" "\<not> spanned" using assms(1) by (auto simp: cache_result_enter cong: if_cong)
    have "quiet J M J' M" unfolding j by (rule quiet_state) (simp_all add: cache_drop_all_facts)
    moreover have "sim J' M g'"
      using st dyn by (simp add: sim_def mem_ok_def cache_ok_def j cache_drop_all_facts g'_def)
    ultimately show ?thesis using j(2) by auto
  next
    case span
    then have j: "J' = J" "spanned" using assms(1) by (auto simp: cache_result_enter w_def cong: if_cong)
    show ?thesis using j st span q0 by (intro exI [of _ M]) (simp add: g'_def)
  next
    case drop
    then have j: "J' = cache_drop (w + 8) (cache_drop w J)" "\<not> spanned" using assms(1) by (auto simp: cache_result_enter w_def cong: if_cong)
    have c: "cache_ok {w, w + 8} J M g'"
      unfolding g'_def by (rule cache_ok_wr [of "{}"]) (use st drop assms(4) cacheable_outside in \<open>auto simp: w_def\<close>)
    have "same_env J J'" unfolding j by (rule same_env_trans) (rule cache_drop_facts(2))+
    then have "quiet J M J' M" by (intro quiet_state) (simp_all add: j)
    moreover have "cache_ok {} J' M g'"
      using c alias_regs_drop by (auto simp: j cache_ok_def has_cache_drop)
    ultimately show ?thesis using st drop j by (intro exI [of _ M]) (simp add: sim_def mem_ok_def g'_def)
  next
    case pu
    then have j: "enter_word res fb J = Some J'" "\<not> spanned" using assms(1) by (auto simp: cache_result_enter cong: if_cong)
    have s: "sim J M g" "val_of M res = rd g fb" "\<forall>c. res \<noteq> VConst c" using st pu assms(4,5) by auto
    have c: "cache_ok {fb} J M g" using s(1) by (auto simp: sim_def intro: cache_ok_mono)
    have ca: "cacheable fb" using pu assms(2) by blast
    obtain M' where e: "quiet J M J' M'" "cache_ok {} J' M' g" "has J' res fb"
      "if t_pend J \<and> t_pend_addr J \<noteq> fb then mem_ok J' M' g else M' = M \<and> t_pend J' = t_pend J \<and> t_pend_addr J' = t_pend_addr J"
      using enter_word_spec [OF j(1) c assms(3) ca s(2)] s(1,3) by (auto simp: sim_def)
    have "mem_ok J' M' g" using e(3,4) s(1) ca by (auto simp: sim_def mem_ok_def split: if_splits)
    then show ?thesis using e(1,2) gu [OF pu(3)] j(2) by (auto simp: sim_def)
  next
    case pc
    then obtain J1 where j: "enter_word res fb J = Some J1" "J' = J1\<lparr>t_pend := True, t_pend_addr := fb\<rparr>" "\<not> spanned"
      using assms(1) by (auto simp: cache_result_enter cong: if_cong)
    have s: "cache_ok {fb} J M g" "mem_ok J M g" "t_pend J \<longrightarrow> t_pend_addr J = fb" using st pc by auto
    have b: "b = fb" and ca: "cacheable fb" using assms(2,4) pc by auto
    have c: "cache_ok {fb} J M g'"
      unfolding g'_def b by (rule cache_ok_wr [OF s(1)]) (use cacheable_disj [OF ca] in \<open>auto simp: cacheable_def\<close>)
    have v: "val_of M res = rd g' fb" by (simp add: g'_def b)
    have e: "quiet J M J1 M" "cache_ok {} J1 M g'" "has J1 res fb"
      using enter_word_spec [OF j(1) c assms(3) ca v] s(3) by auto
    have g': "g' = wr (xmem M) fb (rd g' fb)"
    proof (cases "t_pend J")
      case True
      then have "g = wr (xmem M) fb (rd g fb)" using s(2,3) by (simp add: mem_ok_def)
      then show ?thesis unfolding v [symmetric] by (metis g'_def b wr_wr_same)
    next
      case False
      then have "g = xmem M" using s(2) by (simp add: mem_ok_def)
      then show ?thesis unfolding v [symmetric] by (simp add: g'_def b)
    qed
    have p: "has J' = has J1" "alias_regs J' = alias_regs J1"
      by (simp_all add: j(2) has_def names_def const_words_def alias_regs_def fun_eq_iff split: cval.splits)
    have pk: "keep J' = keep J1" by (rule keep_cong) (simp add: j(2))
    have "quiet J1 M J' M" by (rule quiet_state) (simp_all add: pk, simp_all add: j(2) same_env_def)
    then have "quiet J M J' M" using quiet_trans [OF e(1)] by blast
    moreover have "sim J' M g'" using e(2,3) ca g' by (auto simp: sim_def cache_ok_def mem_ok_def p) (auto simp: j(2))
    ultimately show ?thesis using j(3) by auto
  qed
qed

text \<open>What is held back afterwards: a store of the instruction, or the one held back before.\<close>

definition pend_from :: "trans \<Rightarrow> trans \<Rightarrow> u64 \<Rightarrow> bool" where
  "pend_from J J' b \<longleftrightarrow> (t_pend J' \<longrightarrow> t_pend_addr J' = b \<or> t_pend J \<and> t_pend_addr J' = t_pend_addr J)"

lemma idle_after_scratch: "scratch J = Some (r, J') \<Longrightarrow> \<not> t_pend J \<Longrightarrow> \<not> t_pend J'"
  using idle_agreeD [OF scratch_agree] by blast

lemma emit_pend2 [simp]:
  "t_pend (op_mem c a b d J) = t_pend J" "t_pend (movbe_mem st a b d J) = t_pend J"
  "t_pend (e32 v (mem_operand a b d (e8 x (rex w y z k J)))) = t_pend J"
  by (auto simp: op_mem_def movbe_mem_def mem_operand_def rex_def Let_def e_put)

lemma idle_after_store:
  assumes "\<not> t_pend J"
  shows "store_reg_with scratch r dyn a b J = Some J' \<Longrightarrow> \<not> t_pend J'" "store_const_with scratch c dyn a b J = Some J' \<Longrightarrow> \<not> t_pend J'"
proof -
  show "store_reg_with scratch r dyn a b J = Some J' \<Longrightarrow> \<not> t_pend J'"
    using assms by (auto simp: store_reg_with_def Let_def split: bind_splits if_splits dest!: idle_after_scratch)
  show "store_const_with scratch c dyn a b J = Some J' \<Longrightarrow> \<not> t_pend J'"
    using assms by (auto simp: store_const_with_def Let_def split: bind_splits if_splits dest!: idle_after_scratch)
qed

lemma idle_after_flush:
  assumes "flush_pending J = Some J'"
  shows "\<not> t_pend J'"
proof (cases "t_pend J")
  case False
  then show ?thesis using assms by (simp add: flush_pending_def flush_with_def)
next
  case True
  let ?J0 = "J\<lparr>t_pend := False\<rparr>"
  obtain v J1 where f: "cache_find (t_pend_addr J) ?J0 = (v, J1)" by fastforce
  have p1: "\<not> t_pend J1" using same_cacheD(4) [OF cache_find_spec(1) [OF f]] by simp
  show ?thesis
  proof (cases "\<exists>c. v = VConst c")
    case True
    then show ?thesis using assms \<open>t_pend J\<close> f idle_after_store(2) [OF p1]
      by (auto simp: flush_pending_eq flush_with_def Let_def)
  next
    case False
    have u: "t_pend (unpin r J) = t_pend J" for r J using same_cacheD(4) [OF unpin_facts(1)] .
    obtain i r a J2 J3 where s: "to_reg_with scratch v (upd_reg i (\<lambda>R. R\<lparr>cr_pinned := True\<rparr>) J1) = Some (r, J2)"
      "store_reg_with scratch r False a 0 J2 = Some J3" "t_pend J' = t_pend J3"
      using assms False \<open>t_pend J\<close> f unfolding flush_pending_eq flush_with_def Let_def
      by (auto split: cval.splits option.splits bind_splits if_splits simp: upd_reg_def u)
    have "\<not> t_pend (upd_reg i (\<lambda>R. R\<lparr>cr_pinned := True\<rparr>) J1)" using p1 by (simp add: upd_reg_def)
    then have "\<not> t_pend J2" using to_reg_agree [OF scratch_agree] s(1) by blast
    then show ?thesis using idle_after_store(1) s(2,3) by metis
  qed
qed

lemma set_alias_pend: "set_alias a r neg J = Some J' \<Longrightarrow> pend_from J J' b"
  by (auto simp: set_alias_def Let_def pend_from_def split: option.splits if_splits bind_splits dest!: idle_after_flush)

lemma enter_word_pend:
  assumes "enter_word res fb J = Some J'" "ready J res"
  shows "pend_from J J' b"
proof (cases res)
  case (VConst c)
  then show ?thesis using assms set_const_spec(6,7) by (auto simp: enter_word_def pend_from_def)
next
  case (VReg r)
  then have r: "areg r" using readyD(2) [OF assms(2)] by auto
  obtain i where i: "reg_index r = Some i" by (rule aregE [OF r])
  show ?thesis
  proof (cases "cr_used (t_regs J i) \<and> cr_addr (t_regs J i) \<noteq> fb")
    case True
    then show ?thesis using assms(1) VReg i set_alias_pend by (simp add: enter_word_def)
  next
    case False
    then have "J' = bind_reg r fb J" "cr_used (t_regs J i) \<Longrightarrow> cr_addr (t_regs J i) = fb"
      using assms(1) VReg i by (auto simp: enter_word_def split: if_splits)
    then show ?thesis using bind_reg_spec(7,8) [OF r i] by (simp add: pend_from_def)
  qed
qed (use assms set_alias_pend in \<open>auto simp: enter_word_def\<close>)

lemma cache_result_pend:
  assumes "cache_result res unchanged pendable dynb fb J = Some (spanned, J')" "ready J res" "dynb \<or> b = fb"
  shows "pend_from J J' b"
  using assms(1,3) enter_word_pend [OF _ assms(2), where fb = fb and b = b]
  by (auto simp: cache_result_enter pend_from_def cache_drop_all_facts split: if_splits)

end
