(* ===== verification/Insn_Spanned.thy ===== *)
theory Insn_Spanned
  imports Insn_Store
begin

text \<open>
  The cached words that an unaligned store spans, put together after the branch.
\<close>

section \<open>The words an unaligned store spans\<close>

context value_source
begin

lemma and_imm64_spec:
  assumes "eff J0 M0 J1 M1" "inv J1 M1" "\<not> keep J0 r" "areg r" "keep J1 r" "names J1 r = {}" "\<not> t_flags_live J0"
    and "and_imm64 r k J1 = Some J2"
  shows "\<exists>M2. eff J0 M0 J2 M2 \<and> inv J2 M2 \<and> names J2 r = {} \<and> keep J2 r \<and> xr M2 r = xr M1 r AND k"
proof -
  have r: "r < 16" using areg_bounds [OF assms(4)] by simp
  let ?v = "xr M1 r AND k"
  consider (imm) "is_imm32 k" "J2 = e32 (ucast k) (modrm_reg 4 r (e8 0x81 (rex 1 0 0 r J1)))"
    | (low) "k = 0xffffffff" "J2 = modrm_reg r r (e8 0x89 (rex 0 r 0 r J1))"
    | (reg) t J3 where "scratch J1 = Some (t, J3)" "J2 = unpin t (and_rr r t (mov_imm t k J3))"
    using assms(8) by (auto simp: and_imm64_def Let_def split: if_splits bind_splits)
  then show ?thesis
  proof cases
    case imm
    have e: "emits J1 J2 [XAluImm And True (Reg r) (ucast k)]"
      unfolding imm(2) by (rule emits_reg32; simp add: r decode_simps)
    have "scast (ucast k :: i32) = k" using imm(1) by (simp add: is_imm32_def)
    then have "eff J0 M0 J2 (set_r r ?v (flags_logic ?v M1)) \<and> inv J2 (set_r r ?v (flags_logic ?v M1)) \<and> names J2 r = {} \<and>
        keep J2 r \<and> xr (set_r r ?v (flags_logic ?v M1)) r = ?v"
      by (intro combine_step [OF assms(1-7) e]) simp_all
    then show ?thesis by blast
  next
    case low
    have e: "emits J1 J2 [XStore False (Reg r) r]" unfolding low(2) by (rule emits_reg0; simp add: r decode_simps)
    have "(ucast (ucast (xr M1 r) :: u32) :: u64) = ?v"
    proof (rule bit_word_eqI)
      have k: "k = mask 32" unfolding low(1) by (simp add: mask_eq_exp_minus_1)
      show "bit (ucast (ucast (xr M1 r) :: u32) :: u64) n = bit ?v n" for n
        unfolding k by (auto simp: bit_ucast_iff bit_and_iff bit_mask_iff)
    qed
    then have "eff J0 M0 J2 (set_r r ?v M1) \<and> inv J2 (set_r r ?v M1) \<and> names J2 r = {} \<and> keep J2 r \<and> xr (set_r r ?v M1) r = ?v"
      by (intro combine_step [OF assms(1-7) e]) simp_all
    then show ?thesis by blast
  next
    case reg
    obtain M3 where t: "eff J1 M1 J3 M3" "inv J3 M3" "areg t" "\<not> keep J1 t" "keep J3 t" "names J3 t = {}"
      using taken [OF assms(2) reg(1)] by blast
    note e3 = eff_trans [OF assms(1) t(1)]
    have nt: "\<not> keep J0 t" "r \<noteq> t" using t(4) effD(3) [OF assms(1)] assms(5) by blast+
    note m = mov_imm_taken [OF e3 t(2) nt(1) t(3,6), of k]
    note m1 = m [THEN conjunct1] and m2 = m [THEN conjunct2, THEN conjunct1]
    let ?J4 = "mov_imm t k J3" and ?M4 = "set_r t k M3"
    have k4: "keep ?J4 r" "names ?J4 r = {}"
      using effD(3,5) [OF t(1) assms(5)] assms(6) emits_has(1,7) [OF emits_mov_imm [of t J3 k]] areg_bounds [OF t(3)] by auto
    have x4: "xr ?M4 r = xr M1 r" "xr ?M4 t = k" using effD(4) [OF t(1) assms(5)] nt(2) by simp_all
    have b: "t < 16" using areg_bounds [OF t(3)] by simp
    have u: "eff J0 M0 (and_rr r t ?J4) (set_r r ?v (flags_logic ?v ?M4)) \<and> inv (and_rr r t ?J4) (set_r r ?v (flags_logic ?v ?M4)) \<and>
        names (and_rr r t ?J4) r = {} \<and> keep (and_rr r t ?J4) r \<and> xr (set_r r ?v (flags_logic ?v ?M4)) r = ?v"
      by (rule combine_step [OF m1 m2 assms(3,4) k4 assms(7) emits_rr(5) [OF r b]]) (use x4 nt(2) in simp_all)
    then have "eff J0 M0 J2 (set_r r ?v (flags_logic ?v ?M4))" "keep J2 r"
      unfolding reg(2) using eff_unpin [OF _ nt(1)] unpin_facts(4) nt(2) by blast+
    moreover have "inv J2 (set_r r ?v (flags_logic ?v ?M4))" "names J2 r = {}"
      unfolding reg(2) using u inv_cong [OF _ unpin_facts(1)] same_cacheD(1) [OF unpin_facts(1)] by auto
    ultimately show ?thesis using u by blast
  qed
qed

lemma masked_or_spec:
  assumes "inv J M" "masked_or w k part J = Some (x, J')" "ready J w" "ready J part" "\<And>q. part \<noteq> VNeg q" "\<not> t_flags_live J"
  shows "\<exists>M'. eff J M J' M' \<and> inv J' M' \<and> (x = part \<or> fresh_val J J' x) \<and> val_of M' x = (val_of M w AND k) OR val_of M part"
proof -
  have fin: "\<exists>M'. eff J M J' M' \<and> inv J' M' \<and> (x = part \<or> fresh_val J J' x) \<and> val_of M' x = (val_of M w AND k) OR val_of M part"
    if a: "eff J M J3 M3" "inv J3 M3" "\<not> keep J r" "areg r" "keep J3 r" "names J3 r = {}" "xr M3 r = val_of M w AND k"
      "or_val r part J3 = Some J'" "x = VReg r" for r J3 M3
  proof -
    have p: "ready J3 part" "val_of M3 part = val_of M part" using ready_eff [OF assms(4) a(1)] by simp_all
    obtain M' where "eff J M J' M'" "inv J' M'" "names J' r = {}" "keep J' r" "xr M' r = xr M3 r OR val_of M3 part"
      using or_val_spec [OF a(1-6) assms(6) a(8) p(1)] by blast
    then show ?thesis using a(3,4,7,9) p(2) by (intro exI [of _ M']) (simp add: fresh_val_def)
  qed
  have np: "part \<noteq> VNone" "w \<noteq> VNone" using readyD(1) [OF assms(4)] readyD(1) [OF assms(3)] by auto
  consider (const) a b where "w = VConst a" "part = VConst b" "x = VConst ((a AND k) OR b)" "J' = J"
    | (part) a where "w = VConst a" "a AND k = 0" "x = part" "J' = J"
    | (imm) a r J2 where "w = VConst a" "scratch J = Some (r, J2)" "or_val r part (mov_imm r (a AND k) J2) = Some J'" "x = VReg r"
    | (reg) q J1 r J2 J3 where "to_reg w J = Some (q, J1)" "scratch J1 = Some (r, J2)"
      "and_imm64 r k (mov_rr r q J2) = Some J3" "or_val r part J3 = Some J'" "x = VReg r"
    using assms(2,5) np by (cases w; cases part) (auto simp: masked_or_def to_reg_def to_reg_with_def split: if_splits bind_splits)
  then show ?thesis
  proof cases
    case const
    then show ?thesis using assms(1) by (intro exI [of _ M]) (simp add: fresh_val_def)
  next
    case part
    then show ?thesis using assms(1) by (intro exI [of _ M]) simp
  next
    case imm
    obtain M2 where u: "eff J M J2 M2" "inv J2 M2" "areg r" "\<not> keep J r" "keep J2 r" "names J2 r = {}"
      using taken [OF assms(1) imm(2)] by blast
    note m = mov_imm_taken [OF u(1,2,4,3,6), of "a AND k"]
    show ?thesis by (rule fin [OF _ _ u(4,3) _ _ _ imm(3,4)]) (use m u(5) imm(1) in auto)
  next
    case reg
    obtain M1 where t: "eff J M J1 M1" "inv J1 M1" "areg q" "keep J1 q" "xr M1 q = val_of M w"
      using to_reg_spec [OF assms(1) reg(1) assms(3)] by blast
    obtain M2 where u: "eff J1 M1 J2 M2" "inv J2 M2" "areg r" "\<not> keep J1 r" "keep J2 r" "names J2 r = {}"
      using taken [OF t(2) reg(2)] by blast
    note e2 = eff_trans [OF t(1) u(1)]
    have nr: "\<not> keep J r" using u(4) effD(3) [OF t(1)] by blast
    have q: "q < 16" "xr M2 q = val_of M w" using areg_bounds [OF t(3)] effD(4) [OF u(1) t(4)] t(5) by auto
    note m = mov_rr_taken [OF e2 u(2) nr u(3,6) q(1)]
    note m1 = m [THEN conjunct1] and m2 = m [THEN conjunct2, THEN conjunct1]
    have m3: "keep (mov_rr r q J2) r" "names (mov_rr r q J2) r = {}" using m u(5) by auto
    obtain M3 where w: "eff J M J3 M3" "inv J3 M3" "names J3 r = {}" "keep J3 r" "xr M3 r = xr (set_r r (xr M2 q) M2) r AND k"
      using and_imm64_spec [OF m1 m2 nr u(3) m3 assms(6) reg(3)] by blast
    show ?thesis by (rule fin [OF w(1,2) nr u(3) w(4,3) _ reg(4,5)]) (use w(5) q(2) in simp)
  qed
qed

end

lemma has_emit2 [simp]:
  "has (shl_ri a n J) = has J" "has (shr_ri a n J) = has J" "has (or_rr a b J) = has J" "has (and_rr a b J) = has J"
  "has (e32 v (modrm_reg x b (e8 y (rex w a z c J)))) = has J" "has (modrm_reg x b (e8 y (rex w a z c J))) = has J"
  by (simp_all add: shl_ri_def shr_ri_def or_rr_def and_rr_def rex_def modrm_reg_def e_put Let_def)

lemma to_reg_forgets': "to_reg v J = Some (r, J') \<Longrightarrow> forgets J J'"
  unfolding to_reg_def by (rule to_reg_forgets [OF scratch_forgetting])

lemma shifted_forgets: "shifted v left n J = Some (x, J') \<Longrightarrow> forgets J J'"
  by (cases v) (auto simp: shifted_def Let_def forgets_def split: bind_splits if_splits
      dest!: to_reg_forgets' forgettingD [OF scratch_forgetting])

lemma or_val_forgets: "or_val r v J = Some J' \<Longrightarrow> forgets J J'"
  by (cases v) (auto simp: or_val_def forgets_def split: bind_splits if_splits dest!: to_reg_forgets')

lemma and_imm64_forgets: "and_imm64 r k J = Some J' \<Longrightarrow> forgets J J'"
  by (auto simp: and_imm64_def Let_def forgets_def split: bind_splits if_splits dest!: forgettingD [OF scratch_forgetting])

lemma masked_or_forgets: "masked_or w k part J = Some (x, J') \<Longrightarrow> forgets J J'"
  by (cases w; cases part)
    (auto simp: masked_or_def forgets_def split: bind_splits if_splits
      dest!: or_val_forgets and_imm64_forgets to_reg_forgets' forgettingD [OF scratch_forgetting])

lemma update_word_spec:
  assumes "idle (insert c Y) h h J M" "cacheable c" "update_word wv c k v left n J = Some J'" "ready J v" "\<not> t_flags_live J" "n < 256"
    and "wv \<noteq> VNone \<Longrightarrow> ready J wv \<and>
      rd h c = (val_of M wv AND k) OR (if left then push_bit n (val_of M v) else drop_bit n (val_of M v))"
    and "wv = VNone \<Longrightarrow> \<forall>x. \<not> has J x c"
  shows "\<exists>M'. quiet J M J' M' \<and> idle Y h h J' M' \<and> (\<forall>x b. b \<noteq> c \<longrightarrow> has J' x b \<longrightarrow> has J x b)"
proof (cases "wv = VNone")
  case True
  then have "J' = J" using assms(3) by (simp add: update_word_def)
  moreover have "idle Y h h J M" using assms(1) assms(8) [OF True] by (auto simp: idle_def cache_ok_def)
  ultimately show ?thesis using eff_quiet [OF eff_refl] by blast
next
  case False
  obtain part J1 x J2 where j: "shifted v left n J = Some (part, J1)" "masked_or wv k part J1 = Some (x, J2)"
    "(case x of VConst d \<Rightarrow> Some (set_const c d J2) | VReg r \<Rightarrow> Some (bind_reg r c J2) | _ \<Rightarrow> None) = Some J'"
    using assms(3) False by (auto simp: update_word_def split: bind_splits)
  obtain M1 where t: "eff J M J1 M1" "idle (insert c Y) h h J1 M1" "fresh_val J J1 part"
    "val_of M1 part = (if left then push_bit n (val_of M v) else drop_bit n (val_of M v))"
    using iv.shifted_spec [OF assms(1) j(1) assms(4,5,6)] by blast
  have r1: "ready J1 wv" "val_of M1 wv = val_of M wv" using ready_eff [OF _ t(1)] assms(7) [OF False] by auto
  have nn: "part \<noteq> VNeg q" for q using t(3) by (auto simp: fresh_val_def)
  have fl: "\<not> t_flags_live J1" using ready_flags [OF t(1)] assms(5) by simp
  obtain M2 where u: "eff J1 M1 J2 M2" "idle (insert c Y) h h J2 M2" "x = part \<or> fresh_val J1 J2 x"
    "val_of M2 x = (val_of M1 wv AND k) OR val_of M1 part"
    using iv.masked_or_spec [OF t(2) j(2) r1(1) _ nn fl] fresh_ready [OF t(3)] by blast
  note e = eff_trans [OF t(1) u(1)]
  have fr: "fresh_val J J2 x" using u(3) fresh_eff [OF t(3) u(1)] fresh_before [OF _ t(1)] by blast
  have v: "val_of M2 x = rd h c" using u(4) t(4) r1(2) assms(7) [OF False] by simp
  have sh: "forgets J J2" using shifted_forgets [OF j(1)] masked_or_forgets [OF j(2)] by (rule forgets_trans)
  have ok: "cache_ok (insert c Y) J2 M2 h" "\<not> t_pend J2" "xmem M2 = h" using u(2) by (simp_all add: idle_def)
  have fin: "quiet J M J' M2 \<and> idle Y h h J' M2 \<and> (\<forall>x b. b \<noteq> c \<longrightarrow> has J' x b \<longrightarrow> has J x b)"
    if a: "\<And>y b. has J' y b \<Longrightarrow> (if b = c then y = x else has J2 y b)" "em_code J' = em_code J2" "same_env J2 J'" "keep J' = keep J2"
      "t_pend J' = t_pend J2" "alias_regs J2 \<Longrightarrow> alias_regs J'"
  proof (intro conjI)
    show "quiet J M J' M2" by (rule quiet_trans [OF eff_quiet [OF e] quiet_state [OF a(2-4)]])
    have "cache_ok Y J' M2 h"
      using ok(1) a(1,6) v assms(2) unfolding cache_ok_def by (metis insert_iff)
    then show "idle Y h h J' M2" using ok(2,3) a(5) by (simp add: idle_def)
    show "\<forall>x b. b \<noteq> c \<longrightarrow> has J' x b \<longrightarrow> has J x b" using a(1) sh unfolding forgets_def by metis
  qed
  show ?thesis
  proof (cases x)
    case (VConst d)
    then have j': "J' = set_const c d J2" using j(3) by simp
    note s = set_const_spec [where a = c and c = d and J = J2]
    have "has J' y b \<Longrightarrow> if b = c then y = x else has J2 y b" for y b
      using s(1) [of y b] VConst by (auto simp: j' split: if_splits)
    then show ?thesis using fin s(3-6,8) unfolding j' by blast
  next
    case (VReg r)
    then have j': "J' = bind_reg r c J2" and r: "areg r" "names J2 r = {}" using j(3) fr by (auto simp: fresh_val_def)
    obtain i where i: "reg_index r = Some i" by (rule aregE [OF r(1)])
    have "\<not> cr_used (t_regs J2 i)" using names_free [OF r i] .
    then have b: "cr_used (t_regs J2 i) \<Longrightarrow> cr_addr (t_regs J2 i) = c" by blast
    note s = bind_reg_spec [OF r(1) i b, simplified]
    have "has J' y b \<Longrightarrow> if b = c then y = x else has J2 y b" for y b
      using s(1) [OF assms(2)] VReg by (auto simp: j' split: if_splits)
    then show ?thesis using fin s(4-7,9) unfolding j' by blast
  qed (use fr in \<open>simp_all add: fresh_val_def\<close>)
qed

lemma unpin_all_facts:
  "same_cache J (unpin_all J)" "em_code (unpin_all J) = em_code J" "same_env J (unpin_all J)" "keep (unpin_all J) r \<longleftrightarrow> \<not> areg r"
proof -
  show "same_cache J (unpin_all J)" "em_code (unpin_all J) = em_code J" "same_env J (unpin_all J)"
    by (simp_all add: unpin_all_def same_cache_def same_env_def)
  show "keep (unpin_all J) r \<longleftrightarrow> \<not> areg r"
  proof (cases "reg_index r")
    case None
    then have "\<not> areg r" by (auto elim: aregE)
    then show ?thesis using None by (simp add: keep_def)
  next
    case (Some i)
    then have "i < NREGS" "areg r" using reg_indexD [OF Some] by auto
    then show ?thesis using Some by (simp add: keep_def unpin_all_def)
  qed
qed

lemma code_run_state: "code_run J1 J2 M R \<Longrightarrow> em_code J1 = em_code J0 \<Longrightarrow> code_run J0 J2 M R"
  by (simp add: code_run_def)

text \<open>The registers of the code around the blocks.\<close>

definition fixed :: "mach \<Rightarrow> mach \<Rightarrow> bool" where
  "fixed M M' \<longleftrightarrow> (\<forall>r\<in>{RSP, RBP, R12, R14, R15}. xr M' r = xr M r)"

lemma fixed_refl [simp]: "fixed M M"
  by (simp add: fixed_def)

lemma fixed_trans: "fixed M M1 \<Longrightarrow> fixed M1 M2 \<Longrightarrow> fixed M M2"
  by (simp add: fixed_def)

lemma update_spanned_spec:
  assumes "update_spanned a v J = Some J'" "cache_ok {} J M g" "\<not> t_pend J" "xmem M = wr g a (val_of M v)" "ready J v"
    and "a AND 7 \<noteq> 0" "cacheable (a AND NOT 7)" "cacheable ((a AND NOT 7) + 8)" "\<not> t_flags_live J"
  shows "\<exists>M'. code_run J J' M (Through M') \<and> same_env J J' \<and> sim J' M' (xmem M) \<and> \<not> t_pend J' \<and> fixed M M'"
proof -
  define w k h where "w = a AND NOT 7" and "k = unat (a AND 7) * 8" and "h = xmem M"
  have j: "0 < unat (a AND 7)" "unat (a AND 7) < 8"
    using assms(6) by (simp add: unat_gt_0) (simp add: low_bits(1))
  have k: "k < 256" "64 - k < 256" "k = 8 * unat (a AND 7)" using j by (simp_all add: k_def)
  have aw: "w + of_nat (unat (a AND 7)) = a" using low_bits(1,2) [of a] by (simp add: w_def)
  have cw: "cacheable w" "cacheable (w + 8)" using assms(7,8) by (simp_all add: w_def)
  have halves: "rd h w = (rd g w AND NOT (drop_bit k (- 1))) OR drop_bit k (val_of M v)"
    "rd h (w + 8) = (rd g (w + 8) AND drop_bit k (- 1)) OR push_bit (64 - k) (val_of M v)"
    using rd_wr_spanned [OF j, of g w "val_of M v"] unfolding aw k(3) [symmetric] h_def assms(4) by blast+
  let ?J0 = "unpin_all J" and ?J1 = "pin_val v (unpin_all J)"
  obtain lv J2 where f1: "cache_find w ?J1 = (lv, J2)" by fastforce
  obtain hv J3 where f2: "cache_find (w + 8) J2 = (hv, J3)" by fastforce
  let ?J4 = "pin_val hv (pin_val lv J3)"
  obtain J5 where u: "update_word lv w (NOT (drop_bit k (- 1))) v False k ?J4 = Some J5"
    "update_word hv (w + 8) (drop_bit k (- 1)) v True (64 - k) J5 = Some J'"
    using assms(1) f1 f2 by (auto simp: update_spanned_def Let_def w_def k_def split: bind_splits)
  note c1 = cache_find_spec [OF f1] and c2 = cache_find_spec [OF f2]
  note sc = unpin_all_facts(1) [of J] pin_val_facts(1) [of ?J0 v] c1(1) c2(1) pin_val_facts(1) [of J3 lv]
    pin_val_facts(1) [of "pin_val lv J3" hv]
  have s3: "same_cache J J3" using same_cache_trans [OF same_cache_trans [OF same_cache_trans [OF sc(1) sc(2)] sc(3)] sc(4)] .
  have s4: "same_cache J ?J4" using same_cache_trans [OF same_cache_trans [OF s3 sc(5)] sc(6)] .
  have em: "em_code ?J4 = em_code J"
    by (simp add: pin_val_facts(2) c1(2) c2(2) unpin_all_facts(2))
  have env: "same_env J ?J4"
    using same_env_trans [OF same_env_trans [OF same_env_trans [OF unpin_all_facts(3) pin_val_facts(3)] c1(3)]
        same_env_trans [OF c2(3) same_env_trans [OF pin_val_facts(3) pin_val_facts(3)]]] .
  have k3: "keep J3 = keep ?J1" using keep_cong [OF c1(4)] keep_cong [OF c2(4)] by simp
  have rv: "ready ?J1 v" using assms(5) pin_val_facts(5) by (cases v) (auto simp: ready_def)
  have rv4: "ready ?J4 v" using rv by (cases v) (auto simp: ready_def k3 pin_val_facts(4))
  have val: "ready ?J4 x \<and> val_of M x = rd g b"
    if x: "x = lv \<and> b = w \<or> x = hv \<and> b = w + 8" "x \<noteq> VNone" for x b
  proof -
    have "has J x b" using x c1(6) c2(6) same_cacheD(6) [OF sc(3)] same_cacheD(6) [OF same_cache_trans [OF sc(1) sc(2)]]
        same_cacheD(6) [OF s3] same_cacheD(6) [OF sc(4)] by auto
    then have h: "has J3 x b" "has (pin_val lv J3) x b" "val_of M x = rd g b"
      using same_cacheD(6) [OF s3] same_cacheD(6) [OF sc(5)] has_val [OF assms(2)] by auto
    have ok3: "cache_ok {} J3 M g" "cache_ok {} (pin_val lv J3) M g" using assms(2) cache_ok_same [OF s3] cache_ok_same [OF sc(5)] by auto
    have "ready ?J4 x" using x(1) has_ready [OF ok3(1) h(1)] has_ready [OF ok3(2) h(2)] pin_val_ready by auto
    then show ?thesis using h(3) by simp
  qed
  have none: "\<forall>y. \<not> has ?J4 y b" if x: "x = lv \<and> b = w \<or> x = hv \<and> b = w + 8" "x = VNone" for x b
    using x c1(5) c2(5) cw by (auto simp: same_cacheD(6) [OF s4] same_cacheD(6) [OF same_cache_trans [OF sc(1) sc(2)]]
        same_cacheD(6) [OF same_cache_trans [OF same_cache_trans [OF sc(1) sc(2)] sc(3)]])
  have "cache_ok {w, w + 8} ?J4 M h"
    unfolding cache_ok_same [OF s4] h_def assms(4)
    by (rule cache_ok_wr [OF assms(2)]) (use cacheable_outside in \<open>auto simp: w_def\<close>)
  then have i4: "idle {w, w + 8} h h ?J4 M" using assms(3) by (simp add: idle_def same_cacheD(4) [OF s4] h_def)
  have fl4: "\<not> t_flags_live ?J4" using env assms(9) by (simp add: same_env_def)
  obtain M5 where q5: "quiet ?J4 M J5 M5" "idle {w + 8} h h J5 M5" "\<forall>x b. b \<noteq> w \<longrightarrow> has J5 x b \<longrightarrow> has ?J4 x b"
  proof -
    have "\<exists>M'. quiet ?J4 M J5 M' \<and> idle {w + 8} h h J5 M' \<and> (\<forall>x b. b \<noteq> w \<longrightarrow> has J5 x b \<longrightarrow> has ?J4 x b)"
      by (rule update_word_spec [OF i4 cw(1) u(1) rv4 fl4 k(1)]) (use val [of lv w] none [of lv w] halves(1) in auto)
    then show thesis using that by blast
  qed
  have rv5: "ready J5 v" "val_of M5 v = val_of M v" using quiet_ready [OF q5(1) rv4] by simp_all
  have fl5: "\<not> t_flags_live J5" using quietD(2) [OF q5(1)] fl4 by (simp add: same_env_def)
  have hv5: "ready J5 hv \<and> val_of M5 hv = rd g (w + 8)" if "hv \<noteq> VNone"
    using val [of hv "w + 8"] that quiet_ready [OF q5(1)] by simp
  have "w + 8 \<noteq> w" by simp
  then have nh5: "hv = VNone \<Longrightarrow> \<forall>x. \<not> has J5 x (w + 8)" using q5(3) none [of hv "w + 8"] by blast
  have "\<exists>M'. quiet J5 M5 J' M' \<and> idle {} h h J' M' \<and> (\<forall>x b. b \<noteq> w + 8 \<longrightarrow> has J' x b \<longrightarrow> has J5 x b)"
    by (rule update_word_spec [OF q5(2) cw(2) u(2) rv5(1) fl5 k(2)]) (use hv5 nh5 halves(2) rv5(2) in auto)
  then obtain M' where q: "quiet J5 M5 J' M'" "idle {} h h J' M'" by blast
  note qq = quiet_trans [OF q5(1) q(1)]
  have "code_run J J' M (Through M')" using quietD(1) [OF qq] em by (rule code_run_state)
  moreover have "same_env J J'" using env quietD(2) [OF qq] by (rule same_env_trans)
  moreover have "sim J' M' h \<and> \<not> t_pend J'" using q(2) by (simp add: idle_def sim_def mem_ok_def)
  moreover have "fixed M M'" using quietD(4) [OF qq] keep_fixed unfolding fixed_def by blast
  ultimately show ?thesis unfolding h_def by blast
qed

end
