(* ===== verification/Insn_Operands.thy ===== *)
theory Insn_Operands
  imports Insn_Spanned
begin

text \<open>
  The fields of an instruction as the translation knows them, and its operands and branch target.
\<close>

section \<open>What stays as it is\<close>

text \<open>What \<open>eff\<close> says but for the code, with exits added.\<close>

definition stays :: "trans \<Rightarrow> mach \<Rightarrow> trans \<Rightarrow> mach \<Rightarrow> bool" where
  "stays J M J' M' \<longleftrightarrow> t_flags_live J' = t_flags_live J \<and> t_stubs J' = t_stubs J \<and> (\<exists>S. t_smcs J' = t_smcs J @ S) \<and>
     (\<forall>r. keep J r \<longrightarrow> keep J' r \<and> xr M' r = xr M r \<and> names J' r = names J r) \<and>
     t_pend_addr J' = t_pend_addr J \<and> (t_pend J' \<longrightarrow> t_pend J)"

lemma staysD:
  assumes "stays J M J' M'"
  shows "t_flags_live J' = t_flags_live J" "t_stubs J' = t_stubs J" "S \<in> set (t_smcs J) \<Longrightarrow> S \<in> set (t_smcs J')"
    "keep J r \<Longrightarrow> keep J' r" "keep J r \<Longrightarrow> xr M' r = xr M r" "keep J r \<Longrightarrow> names J' r = names J r"
    "t_pend J' \<Longrightarrow> t_pend J" "t_pend_addr J' = t_pend_addr J"
  using assms unfolding stays_def by auto

lemma eff_stays: "eff J M J' M' \<Longrightarrow> stays J M J' M'"
  unfolding eff_def stays_def same_env_def by simp

lemma stays_refl [simp]: "stays J M J M"
  by (rule eff_stays) simp

lemma stays_trans: "stays J M J1 M1 \<Longrightarrow> stays J1 M1 J2 M2 \<Longrightarrow> stays J M J2 M2"
  unfolding stays_def by (elim conjE exE, intro conjI allI impI) auto

lemma ready_stays: "ready J v \<Longrightarrow> stays J M J' M' \<Longrightarrow> ready J' v \<and> val_of M' v = val_of M v"
  by (cases v) (auto simp: ready_def staysD)

lemma stays_fixed: "stays J M J' M' \<Longrightarrow> fixed M M'"
  using keep_fixed staysD(5) unfolding fixed_def by blast

section \<open>Fields\<close>

text \<open>A word that no entry is for, cached or not.\<close>

definition absent :: "trans \<Rightarrow> u64 \<Rightarrow> bool" where
  "absent J a \<longleftrightarrow> (cacheable a \<longrightarrow> (\<forall>v. \<not> has J v a))"

text \<open>
  What is known of a field: a constant with the value of the word, or a value in registers in use,
  or none while there is no entry for the word.
\<close>

definition field_ok :: "trans \<Rightarrow> mach \<Rightarrow> mem \<Rightarrow> u64 \<Rightarrow> bool \<times> u64 \<times> cval \<Rightarrow> bool" where
  "field_ok J M g a = (\<lambda>(dyn, f, v).
     if \<not> dyn then f = rd g a
     else if v = VNone then absent J a
     else ready J v \<and> val_of M v = rd g a \<and> (\<forall>c. v \<noteq> VConst c) \<and> has J v a)"

lemma absent_same: "same_cache J J' \<Longrightarrow> absent J' a = absent J a"
  by (simp add: absent_def same_cacheD)

lemma field_val_spec:
  assumes "sim J M g" "field_val E start a J = (F, J')"
    and "\<not> is_dynamic E a start \<Longrightarrow> bswap64 (load64 (te_mem E) a) = rd g a"
  shows "eff J M J' M" "sim J' M g" "same_cache J J'" "field_ok J' M g a F" "em_code J' = em_code J" "fst F \<Longrightarrow> is_dynamic E a start"
proof -
  have "eff J M J' M \<and> sim J' M g \<and> same_cache J J' \<and> field_ok J' M g a F \<and> em_code J' = em_code J \<and> (fst F \<longrightarrow> is_dynamic E a start)"
  proof (cases "is_dynamic E a start")
    case False
    then have "F = (False, bswap64 (load64 (te_mem E) a), VNone)" "J' = J" using assms(2) by (simp_all add: field_val_def Let_def)
    then show ?thesis using assms(1) assms(3) [OF False] by (simp add: field_ok_def)
  next
    case True
    obtain v J1 where f: "cache_find a J = (v, J1)" by fastforce
    note s = find_spec [OF assms(1) f] and c = cache_find_spec [OF f]
    show ?thesis
    proof (cases "\<exists>k. v = VConst k")
      case True
      then obtain k where k: "v = VConst k" by blast
      then have j: "F = (False, k, v)" "J' = J1" using assms(2) \<open>is_dynamic E a start\<close> f by (simp_all add: field_val_def Let_def)
      show ?thesis unfolding j using s(1,2) s(3) c(1,2) k by (simp add: field_ok_def)
    next
      case False
      then have j: "J' = pin_val v J1" "F = (True, bswap64 (load64 (te_mem E) a), v)"
        using assms(2) \<open>is_dynamic E a start\<close> f by (auto simp: field_val_def Let_def split: cval.splits)
      have e: "eff J M J' M" unfolding j(1) using eff_trans [OF s(1) eff_pin_val] .
      have sm: "same_cache J J'" unfolding j(1) using same_cache_trans [OF c(1) pin_val_facts(1)] .
      have si: "sim J' M g" using sim_same [OF assms(1) sm] .
      have "field_ok J' M g a F"
      proof (cases "v = VNone")
        case True
        then show ?thesis using c(5) by (simp add: j(2) field_ok_def absent_def same_cacheD [OF sm])
      next
        case n: False
        have h: "has J1 v a" "val_of M v = rd g a" using s(3) [OF n] by auto
        have "ready J' v" unfolding j(1) using has_ready [OF _ h(1)] s(2) by (auto simp: sim_def)
        moreover have "has J' v a" using h(1) by (simp add: j(1) same_cacheD [OF pin_val_facts(1)])
        ultimately show ?thesis using n False h(2) by (auto simp: j(2) field_ok_def)
      qed
      then show ?thesis using e si sm \<open>is_dynamic E a start\<close> by (simp add: j c(2) pin_val_facts(2))
    qed
  qed
  then show "eff J M J' M" "sim J' M g" "same_cache J J'" "field_ok J' M g a F" "em_code J' = em_code J" "fst F \<Longrightarrow> is_dynamic E a start"
    by blast+
qed

text \<open>Field values stay known.\<close>

lemma has_stays: "has J v a \<Longrightarrow> ready J v \<Longrightarrow> stays J M J' M' \<Longrightarrow> (\<forall>c. v \<noteq> VConst c) \<Longrightarrow> has J' v a"
  by (cases v) (auto simp: has_def ready_def staysD(6))

lemma field_ok_stays:
  assumes "field_ok J M g a F" "stays J M J' M'" "absent J a \<longrightarrow> absent J' a"
  shows "field_ok J' M' g a F"
  using assms(1,3) ready_stays [OF _ assms(2)] has_stays [OF _ _ assms(2)]
  by (cases F) (auto simp: field_ok_def split: if_splits)

section \<open>Operands\<close>

lemma and7_plus:
  fixes p :: u64
  assumes "p AND 7 = 0"
  shows "(p + 8) AND 7 = 0" "(p + 16) AND 7 = 0"
proof -
  have "unat p mod 8 = 0" using assms low_bits(1) [of p] by simp
  then have "(unat p + 8) mod 8 = 0" "(unat p + 16) mod 8 = 0" by presburger+
  then have "unat (p + 8) mod 8 = 0" "unat (p + 16) mod 8 = 0"
    by (simp_all add: unat_word_ariths mod_mod_cancel)
  then show "(p + 8) AND 7 = 0" "(p + 16) AND 7 = 0"
    using low_bits(1) [of "p + 8"] low_bits(1) [of "p + 16"] by (simp_all add: unat_eq_zero)
qed

text \<open>The word at an address in a register.\<close>

lemma load_pointed_spec:
  assumes "sim J M g" "load_pointed ra J = Some (v, J')" "ra < 16" "keep J ra"
  shows "\<exists>M' r. v = VReg r \<and> eff J M J' M' \<and> sim J' M' g \<and> fresh_val J J' v \<and> val_of M' v = rd g (xr M ra) \<and> \<not> t_pend J'"
proof -
  obtain J1 J2 r where s: "flush_pending J = Some J1" "scratch J1 = Some (r, J2)" "v = VReg r" "J' = load_mem r ra 0 J2"
    using assms(2) by (auto simp: load_pointed_def Let_def split: bind_splits)
  obtain M1 where t: "eff J M J1 M1" "sim J1 M1 g" "\<not> t_pend J1" using flush_pending_spec [OF assms(1) s(1)] by blast
  obtain M2 where u: "eff J1 M1 J2 M2" "sim J2 M2 g" "areg r" "\<not> keep J1 r" "keep J2 r" "names J2 r = {}"
    using full.taken [OF t(2) s(2)] by blast
  obtain M3 where w: "eff J1 M1 J' M3" "sim J' M3 g" "names J' r = {}" "keep J' r" "xr M3 r = rd (xmem M2) (xr M2 ra + scast (0 :: i32))"
    using full.load_mem_taken [OF u(1,2,4,3,6) assms(3), of 0] u(5) s(4) by blast
  have x: "xr M2 ra = xr M ra" using effD(4) [OF eff_trans [OF t(1) u(1)] assms(4)] .
  have "\<not> t_pend J2" using effD(7) [OF u(1)] t(3) by blast
  then have "xmem M2 = g" using u(2) by (simp add: sim_def mem_ok_def)
  moreover have "\<not> t_pend J'" using effD(7) [OF w(1)] t(3) by blast
  moreover have "\<not> keep J r" using effD(3) [OF t(1)] u(4) by blast
  ultimately show ?thesis using eff_trans [OF t(1) w(1)] w(2-5) u(3) x s(3)
    by (intro exI [of _ M3] exI [of _ r]) (simp add: fresh_val_def)
qed

lemma sim_pend_absent:
  assumes "sim J M g" "t_pend J" "absent J a"
  shows "t_pend_addr J \<noteq> a"
  using assms by (auto simp: sim_def mem_ok_def absent_def)

text \<open>A pointer in a register.\<close>

lemma pointer_load:
  assumes "sim J M g" "absent J a" "a AND 7 = 0" "scratch J = Some (r, J1)"
  defines "J' \<equiv> bind_reg r a (load_static r a J1)"
  shows "\<exists>M'. eff J M J' M' \<and> sim J' M' g \<and> xr M' r = rd g a \<and> areg r \<and> keep J' r"
proof -
  have "disj8 (t_pend_addr J) a" if p: "t_pend J"
  proof (rule cacheable_disj)
    show "cacheable (t_pend_addr J)" using assms(1) p by (simp add: sim_def mem_ok_def)
  qed (use assms(3) sim_pend_absent [OF assms(1) p assms(2)] in auto)
  then show ?thesis using load_bind_spec [OF assms(1,4), of a] assms(2) unfolding J'_def absent_def by blast
qed

lemma pointer_reg_spec:
  assumes "sim J M g" "pointer_reg v p J = Some (r, J')" "field_ok J M g p (True, f, v)" "p AND 7 = 0"
  shows "\<exists>M'. eff J M J' M' \<and> sim J' M' g \<and> xr M' r = rd g p \<and> areg r \<and> keep J' r"
proof (cases "v = VNone")
  case False
  then show ?thesis using assms(2,3) sv.to_reg_spec [OF assms(1), of v r J'] by (auto simp: pointer_reg_def field_ok_def)
next
  case True
  then obtain J1 where s: "scratch J = Some (r, J1)" "J' = bind_reg r p (load_static r p J1)"
    using assms(2) by (auto simp: pointer_reg_def Let_def split: bind_splits)
  have "absent J p" using True assms(3) by (simp add: field_ok_def)
  then show ?thesis using pointer_load [OF assms(1) _ assms(4) s(1)] unfolding s(2) by blast
qed

lemma operand_a_spec:
  assumes "sim J M g" "operand_a F p J = Some (v, J')" "field_ok J M g p F" "p AND 7 = 0" "\<not> t_flags_live J"
  shows "\<exists>M'. eff J M J' M' \<and> sim J' M' g \<and> val_of M' v = rd g (rd g p) \<and> ready J' v \<and> of_word J J' v (rd g p) \<and>
    (fst F \<longrightarrow> fresh_val J J' v)"
proof -
  obtain dyn f w where F: "F = (dyn, f, w)" by (cases F)
  show ?thesis
  proof (cases dyn)
    case False
    then have "f = rd g p" "get_static f J = Some (v, J')" using assms(2,3) by (simp_all add: F operand_a_def field_ok_def)
    then show ?thesis using get_static_spec [OF assms(1) _ assms(5)] False by (simp add: F)
  next
    case True
    then obtain r J1 where s: "pointer_reg w p J = Some (r, J1)" "load_pointed r J1 = Some (v, J')"
      using assms(2) by (auto simp: F operand_a_def split: bind_splits)
    have "field_ok J M g p (True, f, w)" using assms(3) True by (simp add: F)
    then obtain M1 where t: "eff J M J1 M1" "sim J1 M1 g" "xr M1 r = rd g p" "areg r" "keep J1 r"
      using pointer_reg_spec [OF assms(1) s(1) _ assms(4)] by blast
    have "r < 16" using areg_bounds [OF t(4)] by simp
    then obtain M' where u: "eff J1 M1 J' M'" "sim J' M' g" "fresh_val J1 J' v" "val_of M' v = rd g (xr M1 r)"
      using load_pointed_spec [OF t(2) s(2) _ t(5)] by blast
    show ?thesis using eff_trans [OF t(1) u(1)] u(2,4) t(3) fresh_before [OF u(3) t(1)] fresh_ready [OF fresh_before [OF u(3) t(1)]]
      by (intro exI [of _ M']) simp
  qed
qed

lemma operand_b_spec:
  assumes "sim J M g" "operand_b (dyn, f, w) rb J = Some (v, J')" "\<not> t_flags_live J"
    and "\<not> dyn \<Longrightarrow> b = f" "dyn \<Longrightarrow> rb < 16 \<and> keep J rb \<and> xr M rb = b"
  shows "\<exists>M'. eff J M J' M' \<and> sim J' M' g \<and> val_of M' v = rd g b \<and> ready J' v \<and> of_word J J' v b \<and> (dyn \<longrightarrow> fresh_val J J' v)"
proof (cases dyn)
  case False
  then have "get_static b J = Some (v, J')" using assms(2,4) by (simp add: operand_b_def)
  then show ?thesis using get_static_spec [OF assms(1) _ assms(3)] False by blast
next
  case True
  then have s: "load_pointed rb J = Some (v, J')" using assms(2) by (simp add: operand_b_def)
  obtain M' where "eff J M J' M'" "sim J' M' g" "fresh_val J J' v" "val_of M' v = rd g (xr M rb)"
    using load_pointed_spec [OF assms(1) s] assms(5) [OF True] by blast
  then show ?thesis using fresh_ready assms(5) [OF True] by (intro exI [of _ M']) simp
qed

text \<open>The target of the branch, in a register that the subtraction leaves alone.\<close>

lemma dynamic_c_spec:
  assumes "sim J M g" "dynamic_c F p J = Some (rc, J')" "field_ok J0 M0 g (p + 16) F" "stays J0 M0 J M" "p AND 7 = 0"
    and "sim J0 M0 g"
  shows "\<exists>M'. eff J M J' M' \<and> sim J' M' g \<and> rc = (if fst F then Some (the rc) else None) \<and>
    (fst F \<longrightarrow> areg (the rc) \<and> keep J' (the rc) \<and> xr M' (the rc) = rd g (p + 16) \<and>
      (\<not> keep J (the rc) \<or> (p + 16, False) \<in> names J' (the rc)))"
proof -
  obtain dyn f v where F: "F = (dyn, f, v)" by (cases F)
  have a: "(p + 16) AND 7 = 0" using assms(5) by (rule and7_plus(2))
  show ?thesis
  proof (cases "dyn \<and> v \<noteq> VNone")
    case True
    then have f0: "ready J0 v" "val_of M0 v = rd g (p + 16)" "has J0 v (p + 16)" "\<forall>c. v \<noteq> VConst c"
      using assms(3) by (auto simp: F field_ok_def)
    have f1: "ready J v" "val_of M v = rd g (p + 16)" using ready_stays [OF f0(1) assms(4)] f0(2) by simp_all
    obtain r where s: "to_reg v J = Some (r, J')" "rc = Some r"
      using assms(2) True by (auto simp: F dynamic_c_def split: bind_splits)
    obtain M' where t: "eff J M J' M'" "sim J' M' g" "xr M' r = val_of M v" "areg r" "keep J' r" "v = VReg r \<or> \<not> keep J r \<and> names J' r = {}"
      using sv.to_reg_spec [OF assms(1) s(1) f1(1)] by blast
    have "has J' v (p + 16)" using has_stays [OF f0(3,1) stays_trans [OF assms(4) eff_stays [OF t(1)]] f0(4)] .
    then have "\<not> keep J r \<or> (p + 16, False) \<in> names J' r" using t(6) by (auto simp: has_def)
    then show ?thesis using t(1-5) f1(2) True s(2) by (intro exI [of _ M']) (simp add: F)
  next
    case False
    show ?thesis
    proof (cases dyn)
      case d: False
      then show ?thesis using assms(1,2) by (auto simp: F dynamic_c_def intro!: exI [of _ M])
    next
      case d: True
      then have v: "v = VNone" using False by simp
      obtain r J1 where s: "scratch J = Some (r, J1)" "rc = Some r" "J' = load_static r (p + 16) J1"
        using assms(2) d by (auto simp: F dynamic_c_def v split: bind_splits)
      obtain M1 where t: "eff J M J1 M1" "sim J1 M1 g" "areg r" "\<not> keep J r" "keep J1 r" "names J1 r = {}"
        using full.taken [OF assms(1) s(1)] by blast
      obtain M2 where u: "eff J M J' M2" "sim J' M2 g" "keep J' r" "xr M2 r = rd (xmem M1) (p + 16)"
        using full.load_static_taken [OF t(1,2,4,3,6), of "p + 16"] t(5) s(3) by blast
      note e = stays_trans [OF assms(4) eff_stays [OF t(1)]]
      have "disj8 (t_pend_addr J1) (p + 16)" if q: "t_pend J1"
      proof (rule cacheable_disj)
        show "cacheable (t_pend_addr J1)" using t(2) q by (simp add: sim_def mem_ok_def)
        have "absent J0 (p + 16)" using assms(3) d by (simp add: F field_ok_def v)
        then show "t_pend_addr J1 \<noteq> p + 16" using sim_pend_absent [OF assms(6)] staysD(7,8) [OF e] q by simp
      qed (use a in simp)
      then have "rd g (p + 16) = rd (xmem M1) (p + 16)" by (intro mem_ok_rd [of J1]) (use t(2) in \<open>auto simp: sim_def\<close>)
      then show ?thesis using u t(3,4) d s(2) by (intro exI [of _ M2]) (simp add: F)
    qed
  qed
qed

end
