(* ===== verification/Insn_Check.thy ===== *)
theory Insn_Check
  imports Insn_Operands
begin

text \<open>
  The check of a store against translated code: every word of a static address, or the page of a
  computed one.
\<close>

section \<open>The store held back, at an exit\<close>

text \<open>Memory once the store recorded at an exit is made.\<close>

definition pend_mem :: "pending \<Rightarrow> mach \<Rightarrow> mem" where
  "pend_mem pd M = (if pd_val pd = VNone then xmem M else wr (xmem M) (pd_addr pd) (val_of M (pd_val pd)))"

lemma snap_pending_spec:
  assumes "sim J M g" "snap_pending J = (pd, J')"
  shows "eff J M J' M" "sim J' M g" "same_cache J J'" "em_code J' = em_code J" "keep J' = keep J" "pend_mem pd M = g"
proof -
  have "eff J M J' M \<and> sim J' M g \<and> same_cache J J' \<and> em_code J' = em_code J \<and> keep J' = keep J \<and> pend_mem pd M = g"
  proof (cases "t_pend J")
    case False
    then have "J' = J" "pd = \<lparr>pd_val = VNone, pd_addr = 0\<rparr>" using assms(2) by (simp_all add: snap_pending_def)
    then show ?thesis using assms(1) False by (auto simp: pend_mem_def sim_def mem_ok_def)
  next
    case True
    obtain v J1 where f: "cache_find (t_pend_addr J) J = (v, J1)" by fastforce
    note s = find_spec [OF assms(1) f] and c = cache_find_spec [OF f]
    have j: "J' = J1" "pd = \<lparr>pd_val = v, pd_addr = t_pend_addr J\<rparr>"
      using assms(2) True f same_cacheD(5) [OF c(1)] by (auto simp: snap_pending_def)
    have m: "\<exists>x. has J x (t_pend_addr J)" "cacheable (t_pend_addr J)" "g = wr (xmem M) (t_pend_addr J) (rd g (t_pend_addr J))"
      using assms(1) True by (simp_all add: sim_def mem_ok_def)
    then have n: "v \<noteq> VNone" using c(5) by blast
    then have "val_of M v = rd g (t_pend_addr J)" using s(3) by blast
    then have "pend_mem pd M = g" using m(3) n by (simp add: pend_mem_def j(2))
    then show ?thesis using s(1,2) c(1,2) keep_cong [OF c(4)] by (simp add: j(1))
  qed
  then show "eff J M J' M" "sim J' M g" "same_cache J J'" "em_code J' = em_code J" "keep J' = keep J" "pend_mem pd M = g"
    by blast+
qed

section \<open>The check of the store\<close>

text \<open>The byte of the map of translated words for a word, and the byte for a page of guest memory.\<close>

definition word_byte :: "u64 \<Rightarrow> u64 \<Rightarrow> u64" where
  "word_byte base w = base + scast (ucast (drop_bit 3 w) :: i32)"

definition word_flagged :: "mem \<Rightarrow> u64 \<Rightarrow> u64 \<Rightarrow> bool" where
  "word_flagged m base w \<longleftrightarrow> m (word_byte base w) AND push_bit (unat (w AND 7)) 1 \<noteq> 0"

definition page_byte :: "tenv \<Rightarrow> u64 \<Rightarrow> u64 \<Rightarrow> u64" where
  "page_byte E base b = base + drop_bit 12 b + scast (ucast (te_page_off E) :: i32)"

text \<open>Whether a store to \<open>b\<close> is found to be one to translated code, and the bytes looked at.\<close>

definition flagged :: "tenv \<Rightarrow> jit_block \<Rightarrow> mem \<Rightarrow> u64 \<Rightarrow> bool \<Rightarrow> u64 \<Rightarrow> bool" where
  "flagged E B m base dynb b \<longleftrightarrow>
     (if dynb then m (page_byte E base b) \<noteq> 0
      else \<exists>w\<in>set (target_words E b). \<not> hoisted B w \<and> word_flagged m base w)"

definition flag_bytes :: "tenv \<Rightarrow> u64 \<Rightarrow> bool \<Rightarrow> u64 \<Rightarrow> u64 set" where
  "flag_bytes E base dynb b = (if dynb then {page_byte E base b} else word_byte base ` set (target_words E b))"

lemma mem_ok_byte: "mem_ok J M g \<Longrightarrow> (t_pend J \<Longrightarrow> \<not> x - t_pend_addr J < 8) \<Longrightarrow> xmem M x = g x"
  unfolding mem_ok_def by (cases "t_pend J") (simp_all, metis dawn_writeram_outside)

text \<open>Leaving with the instruction not run.\<close>

definition smc_exit :: "trans \<Rightarrow> mem \<Rightarrow> nat \<Rightarrow> nat \<Rightarrow> mach \<Rightarrow> bool" where
  "smc_exit J g i s N \<longleftrightarrow> (\<exists>S\<in>set (t_smcs J). sm_site S = s \<and> sm_idx S = i \<and> sm_precise S = None \<and> pend_mem (sm_pend S) N = g)"

lemma code_run_emits:
  assumes "code_run J J1 M (Through M1)" "emits J1 J2 [i]" "xstep i M1 = Some M2"
  shows "code_run J J2 M (Through M2)"
  using code_run_trans [OF assms(1) code_run_step [OF assms(2,3)]] .

lemma cond_nz: "cond CC_NZ M \<longleftrightarrow> \<not> xzf M"
  by (simp add: cond_def CC_NZ_def CC_C_def)

text \<open>Adding an exit after a test: the same code either way.\<close>

definition add_smc :: "nat \<Rightarrow> pending \<Rightarrow> (u8 \<times> u8 \<times> u8) option \<Rightarrow> trans \<Rightarrow> trans" where
  "add_smc i pd pr J =
     (let (site, J) = jcc32 CC_NZ J
      in J\<lparr>t_smcs := t_smcs J @ [\<lparr>sm_site = site, sm_idx = i, sm_pend = pd,
             sm_precise = map_option (\<lambda>(rb, t1, t2). (rb, t1, t2, length (em_code J))) pr\<rparr>]\<rparr>)"

lemma jcc_state:
  "same_cache J (snd (jcc32 cc J))" "t_flags_live (snd (jcc32 cc J)) = t_flags_live J" "t_stubs (snd (jcc32 cc J)) = t_stubs J"
  "t_smcs (snd (jcc32 cc J)) = t_smcs J" "keep (snd (jcc32 cc J)) = keep J"
  by (simp_all add: jcc32_def Let_def e_put same_cache_def) (rule keep_cong, simp)

lemma add_smc_spec:
  fixes i :: nat and pd :: pending and pr :: "(u8 \<times> u8 \<times> u8) option"
  assumes "sim J M g"
  defines "J' \<equiv> add_smc i pd pr J" and "s \<equiv> fst (jcc32 CC_NZ J)"
  shows "code_run J J' M (if cond CC_NZ M then Leaves s M else Through M)" "stays J M J' M" "sim J' M g" "same_cache J J'"
    "keep J' = keep J"
    "\<exists>S\<in>set (t_smcs J'). sm_site S = s \<and> sm_idx S = i \<and> sm_pend S = pd \<and>
       sm_precise S = map_option (\<lambda>(rb, t1, t2). (rb, t1, t2, length (em_code J'))) pr"
proof -
  have j: "J' = (snd (jcc32 CC_NZ J))\<lparr>t_smcs := t_smcs J @ [\<lparr>sm_site = s, sm_idx = i, sm_pend = pd,
      sm_precise = map_option (\<lambda>(rb, t1, t2). (rb, t1, t2, length (em_code (snd (jcc32 CC_NZ J))))) pr\<rparr>]\<rparr>"
    unfolding J'_def add_smc_def s_def by (simp add: split_beta Let_def jcc_state)
  have "code_run J (snd (jcc32 CC_NZ J)) M (if cond CC_NZ M then Leaves s M else Through M)"
    unfolding s_def by (rule code_run_jcc) (simp add: CC_NZ_def)
  then show "code_run J J' M (if cond CC_NZ M then Leaves s M else Through M)" by (simp add: code_run_def j)
  show sc: "same_cache J J'" using jcc_state(1) [of J CC_NZ] by (simp add: j same_cache_def)
  have "keep J' = keep (snd (jcc32 CC_NZ J))" by (rule keep_cong) (simp add: j)
  then show k: "keep J' = keep J" using jcc_state(5) [where J = J and cc = CC_NZ] by simp
  show "sim J' M g" using sim_same [OF assms(1) sc] .
  show "stays J M J' M" using jcc_state [where J = J and cc = CC_NZ] by (simp add: stays_def k same_cacheD [OF sc]) (simp add: j)
  show "\<exists>S\<in>set (t_smcs J'). sm_site S = s \<and> sm_idx S = i \<and> sm_pend S = pd \<and>
       sm_precise S = map_option (\<lambda>(rb, t1, t2). (rb, t1, t2, length (em_code J'))) pr"
    by (simp add: j)
qed

text \<open>One word of the map tested.\<close>

lemma check_word_spec:
  fixes i :: nat and w :: u64
  assumes "sim J M g" "\<not> t_flags_live J"
  defines "J' \<equiv> check_word i w J"
  shows "\<exists>M' s. code_run J J' M (if word_flagged (xmem M) (xr M R14) w then Leaves s M' else Through M') \<and> smc_exit J' g i s M' \<and>
    stays J M J' M' \<and> sim J' M' g \<and> same_cache J J' \<and> xmem M' = xmem M \<and> keep J' = keep J"
proof -
  let ?J1 = "test_bitmap w J"
  define M1 where "M1 = flags_byte (xmem M (word_byte (xr M R14) w) AND push_bit (unat (w AND 7)) 1) M"
  have em: "emits J ?J1 [XTestImm8 (Mem R14 (ucast (drop_bit 3 w))) (push_bit (unat (w AND 7)) 1)]" by (rule emits_test_bitmap)
  have x: "xstep (XTestImm8 (Mem R14 (ucast (drop_bit 3 w))) (push_bit (unat (w AND 7)) 1)) M = Some M1"
    by (simp add: M1_def word_byte_def)
  have e1: "eff J M ?J1 M1"
    by (rule eff_emit [OF eff_refl em x]) (use assms(2) in \<open>simp_all add: M1_def\<close>)
  note sc1 = emits_same(1) [OF em]
  have s1: "sim ?J1 M1 g"
    by (rule full.inv_cong [OF assms(1) sc1]) (simp_all add: M1_def)
  obtain pd J2 where sn: "snap_pending ?J1 = (pd, J2)" by fastforce
  note p = snap_pending_spec [OF s1 sn]
  have j: "J' = add_smc i pd None J2"
    using sn by (simp add: J'_def check_word_def add_smc_def Let_def)
  note a = add_smc_spec [OF p(2), of i pd None, folded j]
  have z: "cond CC_NZ M1 = word_flagged (xmem M) (xr M R14) w"
    by (simp add: cond_nz M1_def flags_byte_def word_flagged_def)
  have "code_run J J2 M (Through M1)" using effD(1) [OF eff_trans [OF e1 p(1)]] .
  from code_run_trans [OF this a(1)]
  have "code_run J J' M (if word_flagged (xmem M) (xr M R14) w then Leaves (fst (jcc32 CC_NZ J2)) M1 else Through M1)"
    unfolding z .
  moreover have "smc_exit J' g i (fst (jcc32 CC_NZ J2)) M1"
    using a(6) p(6) by (auto simp: smc_exit_def)
  moreover have "stays J M J' M1" using stays_trans [OF eff_stays [OF eff_trans [OF e1 p(1)]] a(2)] .
  moreover have "same_cache J J'" using same_cache_trans [OF same_cache_trans [OF sc1 p(3)] a(4)] .
  moreover have "keep J' = keep J" using a(5) p(5) emits_same(3) [OF em] by simp
  ultimately show ?thesis using a(3) by (intro exI [of _ M1] exI [of _ "fst (jcc32 CC_NZ J2)"]) (simp add: M1_def)
qed

lemma smc_exit_mono: "smc_exit J g i s N \<Longrightarrow> stays J M J' M' \<Longrightarrow> smc_exit J' g i s N"
  unfolding smc_exit_def using staysD(3) by blast

text \<open>The words one after the other.\<close>

definition check_words :: "jit_block \<Rightarrow> nat \<Rightarrow> u64 list \<Rightarrow> trans \<Rightarrow> trans" where
  "check_words B i ws = fold (\<lambda>w J. if hoisted B w then J else check_word i w J) ws"

lemma check_words_spec:
  assumes "sim J M g" "\<not> t_flags_live J"
  shows "\<exists>R M'. code_run J (check_words B i ws J) M R \<and>
    stays J M (check_words B i ws J) M' \<and> sim (check_words B i ws J) M' g \<and> same_cache J (check_words B i ws J) \<and>
    (if \<exists>w\<in>set ws. \<not> hoisted B w \<and> word_flagged (xmem M) (xr M R14) w
     then \<exists>s N. R = Leaves s N \<and> fixed M N \<and> smc_exit (check_words B i ws J) g i s N else R = Through M')"
  using assms
proof (induction ws arbitrary: J M)
  case Nil
  then show ?case by (intro exI [of _ "Through M"] exI [of _ M]) (auto simp: check_words_def)
next
  case (Cons w ws)
  show ?case
  proof (cases "hoisted B w")
    case True
    then have "check_words B i (w # ws) J = check_words B i ws J" by (simp add: check_words_def)
    moreover have "(\<exists>x\<in>set (w # ws). \<not> hoisted B x \<and> word_flagged (xmem M) (xr M R14) x) \<longleftrightarrow>
        (\<exists>x\<in>set ws. \<not> hoisted B x \<and> word_flagged (xmem M) (xr M R14) x)" using True by auto
    ultimately show ?thesis using Cons.IH [OF Cons.prems] by (simp only:)
  next
    case False
    let ?J1 = "check_word i w J" and ?J' = "check_words B i (w # ws) J"
    have eq: "?J' = check_words B i ws ?J1" using False by (simp add: check_words_def)
    obtain M1 s where c: "code_run J ?J1 M (if word_flagged (xmem M) (xr M R14) w then Leaves s M1 else Through M1)"
      "smc_exit ?J1 g i s M1" "stays J M ?J1 M1" "sim ?J1 M1 g" "same_cache J ?J1" "xmem M1 = xmem M"
      using check_word_spec [OF Cons.prems, of i w] by blast
    have fl: "\<not> t_flags_live ?J1" using Cons.prems(2) staysD(1) [OF c(3)] by simp
    have b: "xr M1 R14 = xr M R14" by (rule staysD(5) [OF c(3)]) (simp add: keep_fixed)
    let ?f = "\<exists>w\<in>set ws. \<not> hoisted B w \<and> word_flagged (xmem M) (xr M R14) w"
    obtain R M2 where d: "code_run ?J1 ?J' M1 R" "stays ?J1 M1 ?J' M2" "sim ?J' M2 g" "same_cache ?J1 ?J'"
      "if ?f then \<exists>s N. R = Leaves s N \<and> fixed M1 N \<and> smc_exit ?J' g i s N else R = Through M2"
      using Cons.IH [OF c(4) fl] unfolding eq c(6) b by blast
    note fx = stays_fixed [OF c(3)] fixed_trans [OF stays_fixed [OF c(3)]]
    note st = stays_trans [OF c(3) d(2)] and sc = same_cache_trans [OF c(5) d(4)]
    show ?thesis
    proof (cases "word_flagged (xmem M) (xr M R14) w")
      case True
      then have "code_run J ?J' M (Leaves s M1)" using code_run_leaves [OF _ d(1)] c(1) by simp
      then show ?thesis using st d(3) sc True False smc_exit_mono [OF c(2) d(2)] fx(1)
        by (intro exI [of _ "Leaves s M1"] exI [of _ M2]) auto
    next
      case nf: False
      then have "code_run J ?J' M R" using code_run_trans [OF _ d(1)] c(1) by simp
      moreover have "if ?f then \<exists>s N. R = Leaves s N \<and> fixed M N \<and> smc_exit ?J' g i s N else R = Through M2"
        using d(5) fx(2) by (auto split: if_splits)
      ultimately show ?thesis using st d(3) sc nf False by (intro exI [of _ R] exI [of _ M2]) auto
    qed
  qed
qed

text \<open>A page tested, with the words of the store still to be told apart.\<close>

lemma check_dynamic_rb:
  assumes "sim J M g" "field_ok J M g (p + 8) (True, f, v)" "p AND 7 = 0"
    and "(if v \<noteq> VNone then to_reg v J
          else do { (rb, J) \<leftarrow> scratch J; let J = load_static rb (p + 8) J; Some (rb, bind_reg rb (p + 8) J) }) = Some (rb, J')"
  shows "\<exists>M'. eff J M J' M' \<and> sim J' M' g \<and> xr M' rb = rd g (p + 8) \<and> areg rb \<and> keep J' rb \<and> (absent J p \<longrightarrow> absent J' p)"
proof (cases "v = VNone")
  case False
  then have s: "to_reg v J = Some (rb, J')" using assms(4) by simp
  then have "absent J p \<longrightarrow> absent J' p" using to_reg_forgets' [OF s] by (auto simp: absent_def forgets_def)
  then show ?thesis using False assms(2) sv.to_reg_spec [OF assms(1) s] by (auto simp: field_ok_def)
next
  case True
  then obtain J1 where s: "scratch J = Some (rb, J1)" "J' = bind_reg rb (p + 8) (load_static rb (p + 8) J1)"
    using assms(4) by (auto simp: Let_def split: bind_splits)
  have a: "absent J (p + 8)" using True assms(2) by (simp add: field_ok_def)
  obtain M' where m: "eff J M J' M'" "sim J' M' g" "xr M' rb = rd g (p + 8)" "areg rb" "keep J' rb"
    using pointer_load [OF assms(1) a and7_plus(1) [OF assms(3)] s(1)] unfolding s(2) by blast
  have sh: "forgets J (load_static rb (p + 8) J1)" using forgettingD [OF scratch_forgetting s(1)] by simp
  obtain i where i: "reg_index rb = Some i" by (rule aregE [OF m(4)])
  obtain M1 where t: "eff J M J1 M1" "sim J1 M1 g" "\<not> keep J rb" "keep J1 rb" "names J1 rb = {}"
    using full.taken [OF assms(1) s(1)] by blast
  have n: "names (load_static rb (p + 8) J1) rb = {}" using full.load_static_taken [OF t(1,2,3) m(4) t(5), of "p + 8"] by blast
  note b = bind_reg_spec [OF m(4) i, of "load_static rb (p + 8) J1" "p + 8"]
  have "p \<noteq> p + 8" by simp
  then have "absent J p \<longrightarrow> absent J' p"
    using b(1) [where v = v for v] b(2) names_free [OF m(4) n i] sh unfolding s(2) absent_def forgets_def
    by (cases "cacheable (p + 8)") (simp_all del: has_emit, blast+)
  then show ?thesis using m by blast
qed

lemma check_dynamic_spec:
  assumes "sim J M g" "check_dynamic E i p v J = Some (rb, J')" "field_ok J M g (p + 8) (True, f, v)" "p AND 7 = 0" "\<not> t_flags_live J"
    and "t_pend J \<Longrightarrow> \<not> page_byte E (xr M R14) (rd g (p + 8)) - t_pend_addr J < 8"
  shows "\<exists>M' s S t1 t2. code_run J J' M (if g (page_byte E (xr M R14) (rd g (p + 8))) \<noteq> 0 then Leaves s M' else Through M') \<and>
    S \<in> set (t_smcs J') \<and> sm_site S = s \<and> sm_idx S = i \<and> sm_precise S = Some (rb, t1, t2, length (em_code J')) \<and>
    pend_mem (sm_pend S) M' = g \<and>
    areg rb \<and> keep J' rb \<and> xr M' rb = rd g (p + 8) \<and> (absent J p \<longrightarrow> absent J' p) \<and>
    (\<forall>N. xmem N = xmem M' \<and> (\<forall>r. r \<noteq> t1 \<and> r \<noteq> t2 \<longrightarrow> xr N r = xr M' r) \<longrightarrow>
       stays J M J' N \<and> sim J' N g \<and> xr N rb = rd g (p + 8))"
proof -
  let ?b = "rd g (p + 8)"
  obtain J1 J2 J3 t1 t2 where s:
    "(if v \<noteq> VNone then to_reg v J
      else do { (rb, J) \<leftarrow> scratch J; let J = load_static rb (p + 8) J; Some (rb, bind_reg rb (p + 8) J) }) = Some (rb, J1)"
    "scratch J1 = Some (t1, J2)" "scratch J2 = Some (t2, J3)"
    "(let J = mov_rr t1 rb J3; J = shr_ri t1 12 J; J = cmp_byte_zero R14 t1 (ucast (te_page_off E)) J;
          (pd, J) = snap_pending J
      in unpin t2 (unpin t1 (add_smc i pd (Some (rb, t1, t2)) J))) = J'"
    using assms(2) unfolding check_dynamic_def add_smc_def
    by (auto simp: Let_def split: bind_splits prod.splits)
  obtain M1 where m1: "eff J M J1 M1" "sim J1 M1 g" "xr M1 rb = ?b" "areg rb" "keep J1 rb" "absent J p \<longrightarrow> absent J1 p"
    using check_dynamic_rb [OF assms(1,3,4) s(1)] by blast
  obtain M2 where m2: "eff J1 M1 J2 M2" "sim J2 M2 g" "areg t1" "\<not> keep J1 t1" "keep J2 t1" "names J2 t1 = {}"
    using full.taken [OF m1(2) s(2)] by blast
  obtain M3 where m3: "eff J2 M2 J3 M3" "sim J3 M3 g" "areg t2" "\<not> keep J2 t2" "keep J3 t2" "names J3 t2 = {}"
    using full.taken [OF m2(2) s(3)] by blast
  have e3: "eff J1 M1 J3 M3" using eff_trans [OF m2(1) m3(1)] .
  have n3: "keep J3 t1" "names J3 t1 = {}" using effD(3,5) [OF m3(1) m2(5)] m2(6) by simp_all
  have fl: "\<not> t_flags_live J1" using assms(5) ready_flags [OF m1(1)] by simp
  have rb: "rb < 16" using areg_bounds [OF m1(4)] by simp
  have m4: "eff J1 M1 (mov_rr t1 rb J3) (set_r t1 (xr M3 rb) M3)" "sim (mov_rr t1 rb J3) (set_r t1 (xr M3 rb) M3) g"
    "names (mov_rr t1 rb J3) t1 = {}" "keep (mov_rr t1 rb J3) t1" "xr (set_r t1 (xr M3 rb) M3) t1 = xr M3 rb"
    using full.mov_rr_taken [OF e3 m3(2) m2(4,3) n3(2) rb] n3(1) by blast+
  obtain M5 where m5: "eff J1 M1 (shr_ri t1 12 (mov_rr t1 rb J3)) M5" "sim (shr_ri t1 12 (mov_rr t1 rb J3)) M5 g"
    "names (shr_ri t1 12 (mov_rr t1 rb J3)) t1 = {}" "keep (shr_ri t1 12 (mov_rr t1 rb J3)) t1"
    "xr M5 t1 = drop_bit 12 (xr M3 rb)"
    using sv.shift_step [OF m4(1,2) m2(4,3) m4(4,3) fl, of 12 _ False] m4(5) by auto
  let ?J5 = "shr_ri t1 12 (mov_rr t1 rb J3)"
  let ?J6 = "cmp_byte_zero R14 t1 (ucast (te_page_off E)) ?J5"
  have t1: "t1 < 16" "t1 \<noteq> 4" using areg_bounds [OF m2(3)] by (auto simp: reg_defs)
  have em: "emits ?J5 ?J6 [XCmpImm8 (Sib R14 t1 0 (ucast (te_page_off E))) 0]"
    by (rule emits_cmp_byte_zero) (simp_all add: t1)
  define M6 where "M6 = flags_byte (xmem M5 (ea M5 (Sib R14 t1 0 (ucast (te_page_off E)))) - 0) M5"
  have x6: "xstep (XCmpImm8 (Sib R14 t1 0 (ucast (te_page_off E))) 0) M5 = Some M6" by (simp add: M6_def)
  have e6: "eff J1 M1 ?J6 M6"
    by (rule eff_emit [OF m5(1) em x6]) (use fl in \<open>simp_all add: M6_def\<close>)
  have s6: "sim ?J6 M6 g"
    by (rule full.inv_cong [OF m5(2) emits_same(1) [OF em]]) (simp_all add: M6_def)
  obtain pd J7 where sn: "snap_pending ?J6 = (pd, J7)" by fastforce
  note p = snap_pending_spec [OF s6 sn]
  let ?J8 = "add_smc i pd (Some (rb, t1, t2)) J7"
  have j: "J' = unpin t2 (unpin t1 ?J8)" using s(4) sn by (simp add: Let_def)
  note a = add_smc_spec [OF p(2), of i pd "Some (rb, t1, t2)"]
  let ?s = "fst (jcc32 CC_NZ J7)"
  have e7: "eff J1 M1 J7 M6" using eff_trans [OF e6 p(1)] .
  have eJ: "eff J M J7 M6" using eff_trans [OF m1(1) e7] .
  have r14: "xr M5 R14 = xr M R14" using effD(4) [OF eff_trans [OF m1(1) m5(1)]] by (simp add: keep_fixed)
  have rb3: "xr M3 rb = ?b" using effD(4) [OF e3 m1(5)] m1(3) by simp
  have pg: "xmem M6 (page_byte E (xr M R14) ?b) = g (page_byte E (xr M R14) ?b)"
    by (rule mem_ok_byte [of ?J6]) (use s6 assms(6) effD(7,8) [OF eff_trans [OF m1(1) e6]] in \<open>auto simp: sim_def\<close>)
  have c: "cond CC_NZ M6 \<longleftrightarrow> g (page_byte E (xr M R14) ?b) \<noteq> 0"
    using pg by (simp add: cond_nz M6_def flags_byte_def m5(5) r14 rb3 page_byte_def)
  let ?R = "if g (page_byte E (xr M R14) ?b) \<noteq> 0 then Leaves ?s M6 else Through M6"
  have run8: "code_run J ?J8 M ?R" using code_run_trans [OF effD(1) [OF eJ] a(1)] unfolding c .
  have ems: "em_code J' = em_code ?J8" "t_smcs J' = t_smcs ?J8" "same_cache ?J8 J'"
    using unpin_facts(2,3) same_cache_trans [OF unpin_facts(1) unpin_facts(1)] by (auto simp: j same_env_def)
  have run: "code_run J J' M ?R" using run8 by (simp add: code_run_def ems(1))
  have kJ': "keep J' r \<longleftrightarrow> keep J7 r \<and> r \<noteq> t1 \<and> r \<noteq> t2" for r
    using m2(3) m3(3) by (auto simp: j unpin_facts(4) a(5))
  have kt: "\<not> keep J t1" "\<not> keep J t2"
    using effD(3) [OF m1(1)] m2(4) effD(3) [OF eff_trans [OF m1(1) m2(1)]] m3(4) by blast+
  have st8: "stays J M ?J8 M6" using stays_trans [OF eff_stays [OF eJ] a(2)] .
  have sJ': "same_cache J7 J'" using same_cache_trans [OF a(4) ems(3)] .
  have env: "t_flags_live J' = t_flags_live ?J8" "t_stubs J' = t_stubs ?J8"
    by (simp_all add: j unpin_def upd_reg_def split: option.splits)
  have stay: "stays J M J' N" if N: "\<forall>r. r \<noteq> t1 \<and> r \<noteq> t2 \<longrightarrow> xr N r = xr M6 r" for N
    using st8 kt N unfolding stays_def same_cacheD [OF ems(3)] ems(2) env
    by (metis a(5) kJ')
  have nt: "names J7 t1 = {}" "names J7 t2 = {}"
  proof -
    have "keep J3 t2 \<and> keep J3 t1" using m3(5) n3(1) by simp
    show "names J7 t1 = {}" using m5(3) by (simp add: emits_has(1) [OF em] same_cacheD(1) [OF p(3)])
    have e: "names ?J5 t2 = names J3 t2"
      using emits_has(1) [OF emits_shift(1) [OF t1(1), of "mov_rr t1 rb J3" 12]] emits_has(1) [OF emits_rr(1) [OF t1(1) rb, of J3]] by simp
    then show "names J7 t2 = {}" using m3(6) by (simp add: emits_has(1) [OF em] same_cacheD(1) [OF p(3)])
  qed
  have simN: "sim J' N g" if N: "xmem N = xmem M6" "\<forall>r. r \<noteq> t1 \<and> r \<noteq> t2 \<longrightarrow> xr N r = xr M6 r" for N
  proof (rule full.inv_cong [OF p(2) sJ' _ N(1)])
    fix q assume "names J7 q \<noteq> {} \<or> q = R15"
    then have "q \<noteq> t1 \<and> q \<noteq> t2" using nt areg_bounds m2(3) m3(3) by auto
    then show "xr N q = xr M6 q" using N(2) by blast
  qed
  have rbk: "keep J1 rb" by (rule m1(5))
  have rbt: "rb \<noteq> t1" "rb \<noteq> t2" using rbk m2(4) effD(3) [OF m2(1) rbk] m3(4) by blast+
  have rb6: "xr M6 rb = ?b" using effD(4) [OF e7 rbk] m1(3) by simp
  have "keep J' rb" using kJ' effD(3) [OF e7 rbk] rbt by simp
  moreover have ab: "absent J p \<longrightarrow> absent J' p"
  proof -
    have "forgets J1 J3" using forgets_trans [OF forgettingD [OF scratch_forgetting s(2)] forgettingD [OF scratch_forgetting s(3)]] .
    moreover have "has J' = has J3"
      using emits_has(2) [OF emits_shift(1) [OF t1(1), of "mov_rr t1 rb J3" 12]] emits_has(2) [OF emits_rr(1) [OF t1(1) rb, of J3]]
      by (simp add: same_cacheD(6) [OF sJ'] same_cacheD(6) [OF p(3)] emits_has(2) [OF em])
    ultimately show ?thesis using m1(6) by (auto simp: absent_def forgets_def)
  qed
  moreover obtain S where "S \<in> set (t_smcs J')" "sm_site S = ?s" "sm_idx S = i" "sm_pend S = pd"
      "sm_precise S = Some (rb, t1, t2, length (em_code J'))"
    using a(6) by (auto simp: ems)
  ultimately show ?thesis using run p(6) m1(4) rb6 stay simN rbt
    by (intro exI [of _ M6] exI [of _ ?s] exI [of _ S] exI [of _ t1] exI [of _ t2]) auto
qed

end
