(* ===== verification/Insn_Settle.thy ===== *)
theory Insn_Settle
  imports Insn_Check
begin

text \<open>
  The part of an instruction after the check: operands, result, store and cache.
\<close>

section \<open>The operands together\<close>

text \<open>The part of the translation after the check.\<close>

definition run_insn :: "bool \<times> u64 \<times> cval \<Rightarrow> bool \<times> u64 \<times> cval \<Rightarrow> bool \<times> u64 \<times> cval \<Rightarrow> u8 \<Rightarrow> u64 \<Rightarrow> nat \<Rightarrow> trans \<Rightarrow> (bool \<times> trans) option" where
  "run_insn fA fB fC rb p i J =
     (let (dyna, fa, fav) = fA; (dynb, fb, fbv) = fB; (dync, fc, fcv) = fC; same = (\<not> dyna \<and> \<not> dynb \<and> fa = fb)
      in do {
        (va, J) \<leftarrow> (if same then Some (VNone, J) else operand_a fA p J);
        (vb, J) \<leftarrow> (if same then Some (VNone, J) else operand_b fB rb J);
        (rc, J) \<leftarrow> dynamic_c fC p J;
        let branch = (dync \<or> fc \<noteq> p + 24);
        let pendable = (\<not> dynb \<and> cacheable fb);
        J \<leftarrow> (if \<not> same \<and> \<not> (va = VConst 0 \<and> (case vb of VConst _ \<Rightarrow> False | _ \<Rightarrow> True)) \<and>
                 (\<not> pendable \<or> t_pend_addr J \<noteq> fb)
              then flush_pending J else Some J);
        (res, taken, unchanged, J) \<leftarrow> compute same va vb branch dynb fb J;
        let J = J\<lparr>t_flags_live := (branch \<and> taken = None)\<rparr>;
        (res, J) \<leftarrow> store_result res unchanged pendable dynb fb rb J;
        (spanned, J) \<leftarrow> cache_result res unchanged pendable dynb fb J;
        let J = J\<lparr>t_flags_live := False\<rparr>;
        let (ended, J) = emit_branch fC rc taken p i J;
        J \<leftarrow> (if spanned \<and> \<not> ended then update_spanned fb res J else Some J);
        Some (ended, J)
      })"

lemma translate_code_split:
  "translate_code E B p i J =
     (let start = jb_start B;
          (fA, J) = field_val E start p (unpin_all J);
          (fB, J) = field_val E start (p + 8) J;
          (fC, J) = field_val E start (p + 16) J
      in do {
        (rb, J) \<leftarrow> (if \<not> fst fB then Some (0, check_words B i (target_words E (fst (snd fB))) J)
                    else check_dynamic E i p (snd (snd fB)) J);
        run_insn fA fB fC rb p i J
      })"
  by (simp add: translate_code_def run_insn_def check_words_def check_static_def Let_def split_beta cong: if_cong)

definition in_b :: "bool \<Rightarrow> cval \<Rightarrow> bool \<Rightarrow> u64 \<Rightarrow> trans \<Rightarrow> u8 set" where
  "in_b same vb dynb fb J = {k. \<not> same \<and> vb = VReg k \<and> names J k \<subseteq> (if dynb then {} else {fb}) \<times> {False}}"

lemma operands_spec:
  assumes "sim J M g" "\<not> t_flags_live J" "p AND 7 = 0"
    and "(if same then Some (VNone, J) else operand_a (dyna, fa, fav) p J) = Some (va, J1)"
    and "(if same then Some (VNone, J1) else operand_b (dynb, fb, fbv) rb J1) = Some (vb, J2)"
    and "dynamic_c fC p J2 = Some (rc, J3)"
    and "same \<longleftrightarrow> \<not> dyna \<and> \<not> dynb \<and> fa = fb" "field_ok J M g p (dyna, fa, fav)"
    and "\<not> dynb \<Longrightarrow> b = fb" "dynb \<Longrightarrow> areg rb \<and> keep J rb \<and> xr M rb = b"
    and "field_ok J0 M0 g (p + 16) fC" "stays J0 M0 J M" "sim J0 M0 g" "fst fC \<Longrightarrow> b \<noteq> p + 16"
  shows "\<exists>M'. eff J M J3 M' \<and> sim J3 M' g \<and>
    (\<not> same \<longrightarrow> ready J3 va \<and> val_of M' va = rd g (rd g p) \<and> ready J3 vb \<and> val_of M' vb = rd g b) \<and>
    (\<forall>q\<in>in_b same vb dynb fb J3. va \<noteq> VReg q \<and> va \<noteq> VNeg q) \<and> (dynb \<longrightarrow> rb \<notin> in_b same vb dynb fb J3) \<and>
    rc = (if fst fC then Some (the rc) else None) \<and>
    (fst fC \<longrightarrow> keep J3 (the rc) \<and> the rc \<notin> in_b same vb dynb fb J3 \<and> xr M' (the rc) = rd g (p + 16))"
proof -
  obtain M1 where a: "eff J M J1 M1" "sim J1 M1 g"
    "\<not> same \<longrightarrow> val_of M1 va = rd g (rd g p) \<and> ready J1 va \<and> of_word J J1 va (rd g p) \<and> (dyna \<longrightarrow> fresh_val J J1 va)"
  proof (cases same)
    case True
    then show thesis using that [of M] assms(1,4) by simp
  next
    case False
    then show thesis using that assms(4) operand_a_spec [OF assms(1) _ assms(8,3,2)] by auto
  qed
  have fl1: "\<not> t_flags_live J1" using assms(2) ready_flags [OF a(1)] by simp
  have k1: "dynb \<Longrightarrow> rb < 16 \<and> keep J1 rb \<and> xr M1 rb = b"
    using assms(10) effD(3,4) [OF a(1)] areg_bounds by metis
  obtain M2 where b: "eff J1 M1 J2 M2" "sim J2 M2 g"
    "\<not> same \<longrightarrow> val_of M2 vb = rd g b \<and> ready J2 vb \<and> of_word J1 J2 vb b \<and> (dynb \<longrightarrow> fresh_val J1 J2 vb)"
  proof (cases same)
    case True
    then show thesis using that [of M1] a(2) assms(5) by simp
  next
    case False
    then have "operand_b (dynb, fb, fbv) rb J1 = Some (vb, J2)" using assms(5) by simp
    from operand_b_spec [OF a(2) this fl1 assms(9) k1] show thesis using that False by auto
  qed
  have e2: "eff J M J2 M2" using eff_trans [OF a(1) b(1)] .
  obtain M3 where c: "eff J2 M2 J3 M3" "sim J3 M3 g" "rc = (if fst fC then Some (the rc) else None)"
    "fst fC \<longrightarrow> keep J3 (the rc) \<and> xr M3 (the rc) = rd g (p + 16) \<and> (\<not> keep J2 (the rc) \<or> (p + 16, False) \<in> names J3 (the rc))"
    using dynamic_c_spec [OF b(2) assms(6) assms(11) stays_trans [OF assms(12) eff_stays [OF e2]] assms(3,13)] by blast
  note e13 = eff_trans [OF b(1) c(1)]
  have A: "ready J3 va \<and> val_of M3 va = rd g (rd g p) \<and> of_word J J3 va (rd g p)" if "\<not> same"
    using a(3) that ready_eff [OF _ e13] of_word_eff [OF _ _ e13] by metis
  have B: "ready J3 vb \<and> val_of M3 vb = rd g b \<and> of_word J1 J3 vb b" if "\<not> same"
    using b(3) that ready_eff [OF _ c(1)] of_word_eff [OF _ _ c(1)] by metis
  have sep: "va \<noteq> VReg q \<and> va \<noteq> VNeg q" if "q \<in> in_b same vb dynb fb J3" for q
  proof -
    have q: "\<not> same" "vb = VReg q" "names J3 q \<subseteq> (if dynb then {} else {fb}) \<times> {False}" using that by (auto simp: in_b_def)
    have "va \<noteq> VNeg q" using A [OF q(1)] q(3) by (auto simp: of_word_def)
    moreover have "va \<noteq> VReg q"
    proof
      assume v: "va = VReg q"
      then have k: "keep J1 q" using a(3) q(1) by (simp add: ready_def)
      then have n: "(b, False) \<in> names J3 q" using B [OF q(1)] q(2) by (auto simp: of_word_def)
      then have nd: "\<not> dynb" using q(3) by auto
      have "names J3 q = names J1 q" by (rule effD(5) [OF e13 k])
      then have "\<not> dyna" using a(3) q(1) v n by (auto simp: fresh_val_def)
      then have "rd g p = fa" using assms(8) by (simp add: field_ok_def)
      then have "rd g p \<noteq> fb" using nd \<open>\<not> dyna\<close> q(1) assms(7) by auto
      then show False using A [OF q(1)] v n q(3) nd by (auto simp: of_word_def)
    qed
    ultimately show ?thesis by blast
  qed
  have rbn: "rb \<notin> in_b same vb dynb fb J3" if "dynb"
    using b(3) k1 that by (auto simp: in_b_def fresh_val_def)
  have rcn: "the rc \<notin> in_b same vb dynb fb J3" if d: "fst fC"
  proof
    assume "the rc \<in> in_b same vb dynb fb J3"
    then have q: "\<not> same" "vb = VReg (the rc)" "names J3 (the rc) \<subseteq> (if dynb then {} else {fb}) \<times> {False}" by (auto simp: in_b_def)
    then have "keep J2 (the rc)" using b(3) by (simp add: ready_def)
    then have "(p + 16, False) \<in> names J3 (the rc)" using c(4) d by blast
    then show False using q(3) assms(9) assms(14) [OF d] by (auto split: if_splits)
  qed
  show ?thesis using eff_trans [OF e2 c(1)] c(2-4) A B sep rbn rcn by (intro exI [of _ M3]) blast
qed

section \<open>Computing and storing\<close>

lemma set_flags_facts:
  fixes J :: trans and b :: bool
  defines "J' \<equiv> J\<lparr>t_flags_live := b\<rparr>"
  shows "same_cache J J'" "keep J' = keep J" "em_code J' = em_code J" "t_smcs J' = t_smcs J" "t_stubs J' = t_stubs J"
  using keep_cong [of J' J] by (simp_all add: J'_def same_cache_def)

lemma mem_ok_same: "same_cache J J' \<Longrightarrow> mem_ok J' M g = mem_ok J M g"
  by (simp add: mem_ok_def same_cacheD)

lemma compute_unchanged:
  assumes "compute same va vb branch dynb fb J = Some (res, taken, unchanged, J')" "\<not> same \<longrightarrow> va \<noteq> VNone \<and> vb \<noteq> VNone"
  shows "unchanged \<longleftrightarrow> \<not> same \<and> va = VConst 0 \<and> (\<forall>c. vb \<noteq> VConst c)"
proof
  assume unchanged
  then show "\<not> same \<and> va = VConst 0 \<and> (\<forall>c. vb \<noteq> VConst c)" by (cases rule: compute_cases [OF assms]) auto
next
  assume u: "\<not> same \<and> va = VConst 0 \<and> (\<forall>c. vb \<noteq> VConst c)"
  then have "compute False (VConst 0) vb branch dynb fb J = Some (res, taken, unchanged, J')" using assms(1) by simp
  then show unchanged using compute_eqs(3) [of vb branch dynb fb J] u by (auto split: bind_splits if_splits)
qed

text \<open>From the operands to the branch.\<close>

definition settle :: "bool \<Rightarrow> cval \<Rightarrow> cval \<Rightarrow> bool \<Rightarrow> bool \<Rightarrow> u64 \<Rightarrow> u8 \<Rightarrow> trans \<Rightarrow> (cval \<times> bool option \<times> bool \<times> trans) option" where
  "settle same va vb branch dynb fb rb J = do {
     let pendable = (\<not> dynb \<and> cacheable fb);
     J \<leftarrow> (if \<not> same \<and> \<not> (va = VConst 0 \<and> (case vb of VConst _ \<Rightarrow> False | _ \<Rightarrow> True)) \<and>
              (\<not> pendable \<or> t_pend_addr J \<noteq> fb)
           then flush_pending J else Some J);
     (res, taken, unchanged, J) \<leftarrow> compute same va vb branch dynb fb J;
     let J = J\<lparr>t_flags_live := (branch \<and> taken = None)\<rparr>;
     (res, J) \<leftarrow> store_result res unchanged pendable dynb fb rb J;
     (spanned, J) \<leftarrow> cache_result res unchanged pendable dynb fb J;
     Some (res, taken, spanned, J\<lparr>t_flags_live := False\<rparr>)
   }"

lemma cond_flags: "same_flags M M' \<Longrightarrow> cond CC_LE M' = cond CC_LE M"
  by (simp add: same_flags_def cond_def CC_LE_def CC_L_def CC_C_def CC_NZ_def)

lemma code_run_to: "code_run J J1 M R \<Longrightarrow> em_code J2 = em_code J1 \<Longrightarrow> code_run J J2 M R"
  by (simp add: code_run_def)

lemma settle_spec:
  assumes "sim J M g" "settle same va vb branch dynb fb rb J = Some (res, taken, spanned, J')" "\<not> t_flags_live J"
    and ab: "\<not> same \<Longrightarrow> ready J va \<and> val_of M va = A \<and> ready J vb \<and> val_of M vb = B" "same \<Longrightarrow> A = B"
    and sep: "\<forall>q\<in>in_b same vb dynb fb J. va \<noteq> VReg q \<and> va \<noteq> VNeg q"
    and bb: "\<not> dynb \<Longrightarrow> b = fb" "dynb \<Longrightarrow> areg rb \<and> keep J rb \<and> xr M rb = b \<and> rb \<notin> in_b same vb dynb fb J" "rd g b = B"
    and "dynb \<Longrightarrow> \<not> same"
  defines "g' \<equiv> wr g b (B - A)"
  shows "\<exists>M'. code_run J J' M (Through M') \<and> \<not> t_flags_live J' \<and> t_stubs J' = t_stubs J \<and> t_smcs J' = t_smcs J \<and>
    (\<forall>k. keep J k \<and> k \<notin> in_b same vb dynb fb J \<longrightarrow> xr M' k = xr M k) \<and> ready J' res \<and> val_of M' res = B - A \<and>
    (\<forall>t. taken = Some t \<longrightarrow> t = (B \<le>s A)) \<and> (branch \<and> taken = None \<longrightarrow> cond CC_LE M' = (B \<le>s A)) \<and> pend_from J J' b \<and>
    (if spanned then \<not> dynb \<and> b AND 7 \<noteq> 0 \<and> cache_ok {} J' M' g \<and> \<not> t_pend J' \<and> xmem M' = g' \<and>
       cacheable (b AND NOT 7) \<and> cacheable ((b AND NOT 7) + 8)
     else sim J' M' g')"
proof -
  define pendable where "pendable \<longleftrightarrow> \<not> dynb \<and> cacheable fb"
  define X where "X = (if dynb then {} else {fb})"
  obtain J1 J2 J3 J4 unch res0 where s:
    "(if \<not> same \<and> \<not> (va = VConst 0 \<and> (case vb of VConst _ \<Rightarrow> False | _ \<Rightarrow> True)) \<and>
              (\<not> pendable \<or> t_pend_addr J \<noteq> fb)
           then flush_pending J else Some J) = Some J1"
    "compute same va vb branch dynb fb J1 = Some (res0, taken, unch, J2)"
    "store_result res0 unch pendable dynb fb rb (J2\<lparr>t_flags_live := (branch \<and> taken = None)\<rparr>) = Some (res, J3)"
    "cache_result res unch pendable dynb fb J3 = Some (spanned, J4)" "J' = J4\<lparr>t_flags_live := False\<rparr>"
    using assms(2) unfolding settle_def pendable_def Let_def by (auto split: bind_splits prod.splits)
  obtain M1 where m1: "eff J M J1 M1" "sim J1 M1 g"
    "\<not> same \<and> \<not> (va = VConst 0 \<and> (\<forall>c. vb \<noteq> VConst c)) \<longrightarrow> t_pend J1 \<longrightarrow> pendable \<and> t_pend_addr J1 = fb"
  proof (cases "\<not> same \<and> \<not> (va = VConst 0 \<and> (case vb of VConst _ \<Rightarrow> False | _ \<Rightarrow> True)) \<and> (\<not> pendable \<or> t_pend_addr J \<noteq> fb)")
    case True
    then have "flush_pending J = Some J1" using s(1) by simp
    then obtain M1 where "eff J M J1 M1" "sim J1 M1 g" "\<not> t_pend J1" using flush_pending_spec [OF assms(1)] by blast
    then show thesis using that [of M1] by blast
  next
    case False
    then have j: "J1 = J" using s(1) by (simp only: if_False) simp
    have "(\<forall>c. vb \<noteq> VConst c) \<longleftrightarrow> (case vb of VConst _ \<Rightarrow> False | _ \<Rightarrow> True)" by (cases vb) auto
    then show thesis using that [of M] assms(1) False unfolding j by auto
  qed
  have fl1: "\<not> t_flags_live J1" using ready_flags [OF m1(1)] assms(3) by simp
  have nn: "\<not> same \<longrightarrow> va \<noteq> VNone \<and> vb \<noteq> VNone" using ab(1) readyD(1) by blast
  have ib: "in_b same vb dynb fb J1 = in_b same vb dynb fb J"
    using ab(1) effD(5) [OF m1(1)] by (auto simp: in_b_def ready_def)
  have ab1: "ready J1 va \<and> val_of M1 va = A \<and> ready J1 vb \<and> val_of M1 vb = B" if "\<not> same"
    using ab(1) [OF that] ready_eff [OF _ m1(1)] by simp
  have sep1: "va \<noteq> VReg q \<and> va \<noteq> VNeg q"
    if "\<not> same" "vb = VReg q" "names J1 q \<subseteq> (if dynb then {} else {fb}) \<times> {False}" for q
    using sep that unfolding ib [symmetric] by (auto simp: in_b_def)
  have un: "unch \<longleftrightarrow> \<not> same \<and> va = VConst 0 \<and> (\<forall>c. vb \<noteq> VConst c)" by (rule compute_unchanged [OF s(2) nn])
  have "\<exists>M2. altered (in_b same vb dynb fb J1) X g J1 M1 J2 M2 \<and> ready J2 res0 \<and> val_of M2 res0 = B - A \<and>
    (\<forall>t. taken = Some t \<longrightarrow> t = (B \<le>s A)) \<and> (branch \<and> taken = None \<longrightarrow> cond CC_LE M2 = (B \<le>s A)) \<and>
    (unch \<longrightarrow> A = 0 \<and> (\<forall>c. res0 \<noteq> VConst c)) \<and> (same \<or> unch \<longrightarrow> sim J2 M2 g)"
    unfolding in_b_def X_def by (rule compute_spec [OF m1(2) s(2) fl1 ab1 ab(2) sep1])
  then obtain M2 where m2: "altered (in_b same vb dynb fb J) X g J1 M1 J2 M2" "ready J2 res0" "val_of M2 res0 = B - A"
    "\<forall>t. taken = Some t \<longrightarrow> t = (B \<le>s A)" "branch \<and> taken = None \<longrightarrow> cond CC_LE M2 = (B \<le>s A)"
    "unch \<longrightarrow> A = 0 \<and> (\<forall>c. res0 \<noteq> VConst c)" "same \<or> unch \<longrightarrow> sim J2 M2 g"
    unfolding ib by blast
  note al = alteredD [OF m2(1)]
  let ?J2 = "J2\<lparr>t_flags_live := (branch \<and> taken = None)\<rparr>"
  note f2 = set_flags_facts [where J = J2 and b = "branch \<and> taken = None"]
  have k2: "keep J2 k \<and> xr M2 k = xr M k" if "keep J k" "k \<notin> in_b same vb dynb fb J" for k
    using al(3,4) that effD(3,4) [OF m1(1)] by metis
  have dyn2: "rb < 16 \<and> keep ?J2 rb" if dynb using bb(2) [OF that] k2 areg_bounds f2(2) by metis
  have st: "\<exists>M'. eff ?J2 M2 J3 M' \<and> ready J3 res \<and> val_of M' res = val_of M2 res0 \<and>
    (if unch then sim J3 M' g \<and> res = res0
     else if \<not> pendable then cache_ok {} J3 M' g \<and> \<not> t_pend J3 \<and>
       xmem M' = wr g (if dynb then xr M2 rb else fb) (val_of M2 res0)
     else res = res0 \<and> cache_ok {fb} J3 M' g \<and> mem_ok J3 M' g \<and> (t_pend J3 \<longrightarrow> t_pend_addr J3 = fb))"
  proof (rule store_result_spec [OF s(3), where same = same])
    show "pendable \<longleftrightarrow> \<not> dynb \<and> cacheable fb" by (simp add: pendable_def)
    show "cache_ok (if dynb then {} else {fb}) ?J2 M2 g" using al(5) cache_ok_same [OF f2(1)] by (simp add: X_def)
    show "mem_ok ?J2 M2 g" using al(6) mem_ok_same [OF f2(1)] by simp
    show "ready ?J2 res0" using m2(2) f2(2) by (cases res0) (auto simp: ready_def)
    show "sim ?J2 M2 g" if "same \<or> unch" using m2(7) that sim_same [OF _ f2(1)] by blast
    show "pendable \<and> t_pend_addr ?J2 = fb" if "\<not> same" "\<not> unch" "t_pend ?J2"
      using m1(3) un that al(7,8) same_cacheD(4,5) [OF f2(1)] by simp
    show "dynb \<Longrightarrow> rb < 16 \<and> keep ?J2 rb" by (rule dyn2)
  qed
  then obtain M3 where m3: "eff ?J2 M2 J3 M3" "ready J3 res" "val_of M3 res = val_of M2 res0"
    "if unch then sim J3 M3 g \<and> res = res0
     else if \<not> pendable then cache_ok {} J3 M3 g \<and> \<not> t_pend J3 \<and>
       xmem M3 = wr g (if dynb then xr M2 rb else fb) (val_of M2 res0)
     else res = res0 \<and> cache_ok {fb} J3 M3 g \<and> mem_ok J3 M3 g \<and> (t_pend J3 \<longrightarrow> t_pend_addr J3 = fb)" by blast
  have v3: "val_of M3 res = B - A" using m3(3) m2(3) by simp
  have bx: "(if dynb then xr M2 rb else fb) = b" using bb(1,2) k2 by auto
  have cr: "\<exists>M'. quiet J3 M3 J4 M' \<and>
    (if spanned then J4 = J3 \<and> M' = M3 \<and> \<not> dynb \<and> fb AND 7 \<noteq> 0 \<and> cache_ok {} J3 M3 g \<and> \<not> t_pend J3 \<and>
       xmem M3 = wr g b (val_of M3 res) \<and> cacheable (fb AND NOT 7) \<and> cacheable ((fb AND NOT 7) + 8)
     else sim J4 M' (wr g b (val_of M3 res)))"
  proof (rule cache_result_spec [OF s(4) _ m3(2)])
    show "pendable \<longleftrightarrow> \<not> dynb \<and> cacheable fb" by (simp add: pendable_def)
    show "dynb \<or> b = fb" using bb(1) by blast
    show "rd g b = val_of M3 res \<and> (\<forall>c. res \<noteq> VConst c)" if unch
      using m2(6) m3(4) that v3 bb(3) by simp
    show "if unch then sim J3 M3 g
      else if \<not> pendable then cache_ok {} J3 M3 g \<and> \<not> t_pend J3 \<and> xmem M3 = wr g b (val_of M3 res)
      else cache_ok {fb} J3 M3 g \<and> mem_ok J3 M3 g \<and> (t_pend J3 \<longrightarrow> t_pend_addr J3 = fb)"
      using m3(4) bx m3(3) by auto
  qed
  then obtain M4 where m4: "quiet J3 M3 J4 M4"
    "if spanned then J4 = J3 \<and> M4 = M3 \<and> \<not> dynb \<and> fb AND 7 \<noteq> 0 \<and> cache_ok {} J3 M3 g \<and> \<not> t_pend J3 \<and>
       xmem M3 = g' \<and> cacheable (fb AND NOT 7) \<and> cacheable ((fb AND NOT 7) + 8)
     else sim J4 M4 g'" unfolding v3 g'_def by blast
  note q4 = quiet_trans [OF eff_quiet [OF m3(1)] m4(1)]
  note f4 = set_flags_facts [where J = J4 and b = False, folded s(5)]
  have r4: "ready J4 res" "val_of M4 res = B - A" using quiet_ready [OF m4(1) m3(2)] v3 by simp_all
  have fin: "if spanned then \<not> dynb \<and> b AND 7 \<noteq> 0 \<and> cache_ok {} J' M4 g \<and> \<not> t_pend J' \<and> xmem M4 = g' \<and>
       cacheable (b AND NOT 7) \<and> cacheable ((b AND NOT 7) + 8)
     else sim J' M4 g'"
  proof (cases spanned)
    case True
    then have "b = fb" using m4(2) bb(1) by simp
    then show ?thesis using True m4(2) cache_ok_same [OF f4(1)] same_cacheD(4) [OF f4(1)] by auto
  next
    case False
    then show ?thesis using m4(2) sim_same [OF _ f4(1)] by simp
  qed
  have run: "code_run J J' M (Through M4)"
  proof -
    have "code_run ?J2 J4 M2 (Through M4)" by (rule quietD(1) [OF q4])
    then have "code_run J2 J4 M2 (Through M4)" using code_run_state f2(3) by metis
    from code_run_trans [OF effD(1) [OF m1(1)] code_run_trans [OF al(1) this]]
    show ?thesis using f4(3) by (rule code_run_to)
  qed
  have cc: "branch \<and> taken = None \<longrightarrow> cond CC_LE M4 = (B \<le>s A)"
    using m2(5) cond_flags [OF quietD(5) [OF q4]] by auto
  have env: "t_stubs J' = t_stubs J" "t_smcs J' = t_smcs J" "\<not> t_flags_live J'"
    using al(2) effD(2) [OF m1(1)] quietD(2) [OF q4] s(5) f2(4,5) f4(4,5) by (simp_all add: same_env_def)
  have kk: "xr M4 k = xr M k" if "keep J k" "k \<notin> in_b same vb dynb fb J" for k
    using k2 [OF that] quietD(4) [OF q4] f2(2) by simp
  have pf: "pend_from J J' b"
    using cache_result_pend [OF s(4) m3(2), of b] bb(1) effD(7,8) [OF m3(1)] al(7,8) effD(7,8) [OF m1(1)]
      same_cacheD(4,5) [OF f2(1)] same_cacheD(4,5) [OF f4(1)]
    unfolding pend_from_def by auto
  have rJ: "ready J' res" using r4(1) f4(2) by (cases res) (auto simp: ready_def)
  show ?thesis using run env kk rJ r4(2) m2(4) cc pf fin by (intro exI [of _ M4]) blast
qed

end
