(* ===== verification/Translate_Correct.thy ===== *)
theory Translate_Correct
  imports Insn_Settle
begin

text \<open>
  The code of one instruction (\<open>translate_insn\<close> of jit.c) does what the instruction does: run from
  registers and memory that agree with the register cache it ends in ones that do, after the step of
  the machine, or leaves by one of its exits with the step done, or refused by the check.
\<close>

section \<open>The branch\<close>

text \<open>Leaving by a branch, for \<open>C\<close>, with memory \<open>g\<close> once what is held back is stored.\<close>

definition branch_exit :: "trans \<Rightarrow> mem \<Rightarrow> nat \<Rightarrow> u64 \<Rightarrow> nat \<Rightarrow> mach \<Rightarrow> bool" where
  "branch_exit J g i C s N \<longleftrightarrow>
     (\<exists>S\<in>set (t_stubs J). sb_site S = s \<and> sb_idx S = i \<and> pend_mem (sb_pend S) N = g \<and>
        (if sb_dyn S then \<exists>r. sb_creg S = Some r \<and> xr N r = C else sb_target S = C))"

lemma jmp_state:
  "same_cache J (snd (jmp32 J))" "t_flags_live (snd (jmp32 J)) = t_flags_live J" "t_stubs (snd (jmp32 J)) = t_stubs J"
  "t_smcs (snd (jmp32 J)) = t_smcs J" "keep (snd (jmp32 J)) = keep J"
  by (simp_all add: jmp32_def Let_def e_put same_cache_def) (rule keep_cong, simp)

lemma emit_branch_spec:
  assumes "emit_branch (dync, fc, fcv) rc taken p i J = (ended, J')"
    and "\<forall>pd J1. snap_pending J = (pd, J1) \<longrightarrow>
      same_cache J J1 \<and> em_code J1 = em_code J \<and> same_env J J1 \<and> keep J1 = keep J \<and> pend_mem pd M = h"
    and "\<forall>t. taken = Some t \<longrightarrow> t = T" "dync \<or> fc \<noteq> p + 24 \<Longrightarrow> taken = None \<Longrightarrow> cond CC_LE M = T"
    and "dync \<Longrightarrow> rc = Some r \<and> xr M r = C" "\<not> dync \<Longrightarrow> fc = C"
  shows "\<exists>s. code_run J J' M (if T \<and> (dync \<or> fc \<noteq> p + 24) then Leaves s M else Through M) \<and>
    (T \<and> (dync \<or> fc \<noteq> p + 24) \<longrightarrow> branch_exit J' h i C s M) \<and> same_cache J J' \<and> keep J' = keep J \<and>
    t_smcs J' = t_smcs J \<and> (\<exists>S. t_stubs J' = t_stubs J @ S) \<and> t_flags_live J' = t_flags_live J \<and>
    (ended \<longrightarrow> T \<and> (dync \<or> fc \<noteq> p + 24))"
proof (cases "taken \<noteq> Some False \<and> (dync \<or> fc \<noteq> p + 24)")
  case False
  then have "J' = J" "\<not> ended" using assms(1) by (auto simp: emit_branch_def split: if_splits)
  moreover have "\<not> (T \<and> (dync \<or> fc \<noteq> p + 24))" using False assms(3) by blast
  ultimately show ?thesis by (auto intro: code_run_same)
next
  case True
  obtain pd J1 where sn: "snap_pending J = (pd, J1)" by fastforce
  define jump where "jump = (if taken = Some True then jmp32 J1 else jcc32 CC_LE J1)"
  define S where "S = \<lparr>sb_dyn = dync, sb_site = fst jump, sb_target = fc, sb_idx = i, sb_creg = rc, sb_pend = pd\<rparr>"
  have j: "ended = (taken = Some True)" "J' = (snd jump)\<lparr>t_stubs := t_stubs (snd jump) @ [S]\<rparr>"
    using assms(1) True by (auto simp: emit_branch_def Let_def jump_def S_def sn split_beta)
  have st: "same_cache J1 (snd jump)" "t_flags_live (snd jump) = t_flags_live J1" "t_stubs (snd jump) = t_stubs J1"
    "t_smcs (snd jump) = t_smcs J1" "keep (snd jump) = keep J1"
    by (auto simp: jump_def jmp_state jcc_state)
  have p: "same_cache J J1" "em_code J1 = em_code J" "same_env J J1" "keep J1 = keep J" "pend_mem pd M = h" using assms(2) sn by auto
  have run: "code_run J1 (snd jump) M (if T then Leaves (fst jump) M else Through M)"
  proof (cases "taken = Some True")
    case t: True
    then have "T" using assms(3) by blast
    then show ?thesis using t code_run_jmp by (simp add: jump_def)
  next
    case False
    then have "taken = None" using True by (cases taken) auto
    then have "cond CC_LE M = T" using assms(4) True by blast
    moreover have "CC_LE < 16" by (simp add: CC_LE_def)
    ultimately show ?thesis using False code_run_jcc [of CC_LE J1 M] by (cases T) (simp_all add: jump_def)
  qed
  have "code_run J J' M (if T then Leaves (fst jump) M else Through M)"
    using run p(2) by (simp add: code_run_def j(2))
  moreover have "branch_exit J' h i C (fst jump) M"
    using p(5) assms(5,6) by (auto simp: branch_exit_def j(2) S_def)
  moreover have "same_cache J J'" using same_cache_trans [OF p(1) st(1)] by (simp add: j(2) same_cache_def)
  moreover have "keep J' = keep (snd jump)" by (rule keep_cong) (simp add: j(2))
  ultimately show ?thesis using True p(3,4) st(2-5) assms(3) j
    by (intro exI [of _ "fst jump"]) (auto simp: same_env_def)
qed

section \<open>The instruction\<close>

lemma run_insn_settle:
  "run_insn (dyna, fa, fav) (dynb, fb, fbv) (dync, fc, fcv) rb p i J = do {
     let same = (\<not> dyna \<and> \<not> dynb \<and> fa = fb);
     (va, J) \<leftarrow> (if same then Some (VNone, J) else operand_a (dyna, fa, fav) p J);
     (vb, J) \<leftarrow> (if same then Some (VNone, J) else operand_b (dynb, fb, fbv) rb J);
     (rc, J) \<leftarrow> dynamic_c (dync, fc, fcv) p J;
     (res, taken, spanned, J) \<leftarrow> settle same va vb (dync \<or> fc \<noteq> p + 24) dynb fb rb J;
     let (ended, J) = emit_branch (dync, fc, fcv) rc taken p i J;
     J \<leftarrow> (if spanned \<and> \<not> ended then update_spanned fb res J else Some J);
     Some (ended, J)
   }"
  unfolding run_insn_def settle_def Let_def
  by (simp add: case_prod_unfold cong: if_cong)

lemma run_insnE:
  assumes "run_insn (dyna, fa, fav) (dynb, fb, fbv) (dync, fc, fcv) rb p i J = Some (ended, J')"
  obtains va J1 vb J2 rc J3 res taken spanned J4 J5 where
    "(if \<not> dyna \<and> \<not> dynb \<and> fa = fb then Some (VNone, J) else operand_a (dyna, fa, fav) p J) = Some (va, J1)"
    "(if \<not> dyna \<and> \<not> dynb \<and> fa = fb then Some (VNone, J1) else operand_b (dynb, fb, fbv) rb J1) = Some (vb, J2)"
    "dynamic_c (dync, fc, fcv) p J2 = Some (rc, J3)"
    "settle (\<not> dyna \<and> \<not> dynb \<and> fa = fb) va vb (dync \<or> fc \<noteq> p + 24) dynb fb rb J3 = Some (res, taken, spanned, J4)"
    "emit_branch (dync, fc, fcv) rc taken p i J4 = (ended, J5)"
    "(if spanned \<and> \<not> ended then update_spanned fb res J5 else Some J5) = Some J'"
proof -
  define same where "same \<longleftrightarrow> \<not> dyna \<and> \<not> dynb \<and> fa = fb"
  define opa where "opa = (if same then Some (VNone, J) else operand_a (dyna, fa, fav) p J)"
  define opb where "opb = (\<lambda>J. if same then Some (VNone, J) else operand_b (dynb, fb, fbv) rb J)"
  define upd where "upd = (\<lambda>spanned ended res J. if spanned \<and> \<not> ended then update_spanned fb res J else Some J)"
  obtain va J1 vb J2 rc J3 res taken spanned J4 J5 where
    "opa = Some (va, J1)" "opb J1 = Some (vb, J2)" "dynamic_c (dync, fc, fcv) p J2 = Some (rc, J3)"
    "settle same va vb (dync \<or> fc \<noteq> p + 24) dynb fb rb J3 = Some (res, taken, spanned, J4)"
    "emit_branch (dync, fc, fcv) rc taken p i J4 = (ended, J5)" "upd spanned ended res J5 = Some J'"
    using assms unfolding run_insn_settle Let_def same_def [symmetric] opa_def [symmetric] opb_def [symmetric, THEN fun_cong]
      upd_def [symmetric, THEN fun_cong, THEN fun_cong, THEN fun_cong, THEN fun_cong]
    by (auto split: bind_splits prod.splits)
  then show thesis using that unfolding opa_def opb_def upd_def same_def by blast
qed

text \<open>
  What the code of an instruction at \<open>p\<close> does once the check is passed, memory being \<open>g\<close> and the next
  instruction at \<open>q\<close> then: it leaves by its branch for \<open>q\<close>, or goes on to the instruction after it.
\<close>

definition insn_done :: "trans \<Rightarrow> bool \<Rightarrow> nat \<Rightarrow> u64 \<Rightarrow> mach \<Rightarrow> mem \<times> u64 \<Rightarrow> xresult \<Rightarrow> bool" where
  "insn_done J ended i p M = (\<lambda>(g, q) R.
     (\<exists>s N. R = Leaves s N \<and> fixed M N \<and> branch_exit J g i q s N) \<or>
     (\<exists>N. R = Through N \<and> fixed M N \<and> \<not> ended \<and> q = p + 24 \<and> sim J N g))"

definition grows :: "trans \<Rightarrow> trans \<Rightarrow> bool" where
  "grows J J' \<longleftrightarrow> (\<exists>S. t_smcs J' = t_smcs J @ S) \<and> (\<exists>S. t_stubs J' = t_stubs J @ S)"

lemma snap_done:
  assumes "(\<not> t_pend J \<and> xmem M = h) \<or> sim J M h"
  shows "\<forall>pd J1. snap_pending J = (pd, J1) \<longrightarrow>
    same_cache J J1 \<and> em_code J1 = em_code J \<and> same_env J J1 \<and> keep J1 = keep J \<and> pend_mem pd M = h"
  using assms
proof
  assume "\<not> t_pend J \<and> xmem M = h"
  then show ?thesis by (auto simp: snap_pending_def pend_mem_def)
next
  assume s: "sim J M h"
  show ?thesis using snap_pending_spec [OF s] effD(2) by blast
qed

lemma branch_exit_mono: "branch_exit J g i C s N \<Longrightarrow> t_stubs J' = t_stubs J @ S \<Longrightarrow> branch_exit J' g i C s N"
  by (auto simp: branch_exit_def)

lemma run_insn_spec:
  assumes "sim J M g" "run_insn fA fB fC rb p i J = Some (ended, J')" "\<not> t_flags_live J" "p AND 7 = 0"
    and "field_ok J M g p fA" "\<not> fst fB \<Longrightarrow> fst (snd fB) = b" "fst fB \<Longrightarrow> areg rb \<and> keep J rb \<and> xr M rb = b" "b = rd g (p + 8)"
    and "field_ok J0 M0 g (p + 16) fC" "stays J0 M0 J M" "sim J0 M0 g" "fst fC \<Longrightarrow> b \<noteq> p + 16"
  defines "A \<equiv> rd g (rd g p)" and "B \<equiv> rd g b"
  defines "g' \<equiv> wr g b (B - A)"
  shows "\<exists>R. code_run J J' M R \<and> insn_done J' ended i p M (g', if B \<le>s A then rd g (p + 16) else p + 24) R \<and>
    \<not> t_flags_live J' \<and> grows J J' \<and> pend_from J J' b \<and> (ended \<or> (\<exists>N. sim J' N g' \<and> fixed M N))"
proof -
  obtain dyna fa fav dynb fb fbv dync fc fcv where F: "fA = (dyna, fa, fav)" "fB = (dynb, fb, fbv)" "fC = (dync, fc, fcv)"
    by (metis surj_pair)
  define same where "same \<longleftrightarrow> \<not> dyna \<and> \<not> dynb \<and> fa = fb"
  define C where "C = rd g (p + 16)"
  obtain va J1 vb J2 rc J3 res taken spanned J4 J5 where s:
    "(if same then Some (VNone, J) else operand_a (dyna, fa, fav) p J) = Some (va, J1)"
    "(if same then Some (VNone, J1) else operand_b (dynb, fb, fbv) rb J1) = Some (vb, J2)"
    "dynamic_c (dync, fc, fcv) p J2 = Some (rc, J3)"
    "settle same va vb (dync \<or> fc \<noteq> p + 24) dynb fb rb J3 = Some (res, taken, spanned, J4)"
    "emit_branch (dync, fc, fcv) rc taken p i J4 = (ended, J5)"
    "(if spanned \<and> \<not> ended then update_spanned fb res J5 else Some J5) = Some J'"
    using assms(2) unfolding F same_def by (rule run_insnE)
  have fb: "\<not> dynb \<Longrightarrow> b = fb" "dynb \<Longrightarrow> areg rb \<and> keep J rb \<and> xr M rb = b" using assms(6,7) by (simp_all add: F)
  have fC: "field_ok J0 M0 g (p + 16) (dync, fc, fcv)" "fst (dync, fc, fcv) \<Longrightarrow> b \<noteq> p + 16" using assms(9,12) by (simp_all add: F)
  have "\<exists>M'. eff J M J3 M' \<and> sim J3 M' g \<and>
    (\<not> same \<longrightarrow> ready J3 va \<and> val_of M' va = A \<and> ready J3 vb \<and> val_of M' vb = B) \<and>
    (\<forall>q\<in>in_b same vb dynb fb J3. va \<noteq> VReg q \<and> va \<noteq> VNeg q) \<and> (dynb \<longrightarrow> rb \<notin> in_b same vb dynb fb J3) \<and>
    rc = (if dync then Some (the rc) else None) \<and>
    (dync \<longrightarrow> keep J3 (the rc) \<and> the rc \<notin> in_b same vb dynb fb J3 \<and> xr M' (the rc) = C)"
    using operands_spec [OF assms(1,3,4) s(1,2,3) same_def _ fb fC(1) assms(10,11) fC(2)] assms(5)
    unfolding A_def B_def C_def F by simp
  then obtain M3 where m3: "eff J M J3 M3" "sim J3 M3 g"
    "\<not> same \<Longrightarrow> ready J3 va \<and> val_of M3 va = A \<and> ready J3 vb \<and> val_of M3 vb = B"
    "\<forall>q\<in>in_b same vb dynb fb J3. va \<noteq> VReg q \<and> va \<noteq> VNeg q" "dynb \<longrightarrow> rb \<notin> in_b same vb dynb fb J3"
    "rc = (if dync then Some (the rc) else None)"
    "dync \<longrightarrow> keep J3 (the rc) \<and> the rc \<notin> in_b same vb dynb fb J3 \<and> xr M3 (the rc) = C" by blast
  have fl3: "\<not> t_flags_live J3" using ready_flags [OF m3(1)] assms(3) by simp
  have sameAB: "A = B" if same
  proof -
    have "fa = fb" "\<not> dyna" "\<not> dynb" using that by (simp_all add: same_def)
    moreover have "fa = rd g p" using assms(5) \<open>\<not> dyna\<close> by (simp add: F field_ok_def)
    ultimately show ?thesis using fb(1) by (simp add: A_def B_def)
  qed
  have rb3: "dynb \<Longrightarrow> areg rb \<and> keep J3 rb \<and> xr M3 rb = b \<and> rb \<notin> in_b same vb dynb fb J3"
    using fb(2) effD(3,4) [OF m3(1)] m3(5) by metis
  have Bd: "rd g b = B" by (simp add: B_def)
  have ds: "dynb \<Longrightarrow> \<not> same" by (simp add: same_def)
  obtain M4 where m4: "code_run J3 J4 M3 (Through M4)" "\<not> t_flags_live J4" "t_stubs J4 = t_stubs J3" "t_smcs J4 = t_smcs J3"
    "\<forall>k. keep J3 k \<and> k \<notin> in_b same vb dynb fb J3 \<longrightarrow> xr M4 k = xr M3 k" "ready J4 res" "val_of M4 res = B - A"
    "\<forall>t. taken = Some t \<longrightarrow> t = (B \<le>s A)" "(dync \<or> fc \<noteq> p + 24) \<and> taken = None \<longrightarrow> cond CC_LE M4 = (B \<le>s A)"
    "pend_from J3 J4 b"
    "if spanned then \<not> dynb \<and> b AND 7 \<noteq> 0 \<and> cache_ok {} J4 M4 g \<and> \<not> t_pend J4 \<and> xmem M4 = g' \<and>
       cacheable (b AND NOT 7) \<and> cacheable ((b AND NOT 7) + 8)
     else sim J4 M4 g'"
    using settle_spec [OF m3(2) s(4) fl3 m3(3) sameAB m3(4) fb(1) rb3 Bd ds] unfolding g'_def by blast
  have run4: "code_run J J4 M (Through M4)" using code_run_trans [OF effD(1) [OF m3(1)] m4(1)] .
  have rc: "dync \<Longrightarrow> rc = Some (the rc) \<and> xr M4 (the rc) = C" using m3(6,7) m4(5) by metis
  have fcC: "\<not> dync \<Longrightarrow> fc = C" using fC(1) by (simp add: field_ok_def C_def)
  have sn: "(\<not> t_pend J4 \<and> xmem M4 = g') \<or> sim J4 M4 g'" using m4(11) by (auto split: if_splits)
  let ?br = "(B \<le>s A) \<and> (dync \<or> fc \<noteq> p + 24)"
  have c4: "dync \<or> fc \<noteq> p + 24 \<Longrightarrow> taken = None \<Longrightarrow> cond CC_LE M4 = (B \<le>s A)" using m4(9) by blast
  obtain s0 where e: "code_run J4 J5 M4 (if ?br then Leaves s0 M4 else Through M4)"
    "?br \<longrightarrow> branch_exit J5 g' i C s0 M4" "same_cache J4 J5" "keep J5 = keep J4" "t_smcs J5 = t_smcs J4"
    "\<exists>S. t_stubs J5 = t_stubs J4 @ S" "t_flags_live J5 = t_flags_live J4" "ended \<longrightarrow> ?br"
    using emit_branch_spec [OF s(5) snap_done [OF sn] m4(8) c4 rc fcC] by blast
  have last: "\<exists>N. code_run J5 J' M4 (Through N) \<and> (ended \<or> sim J' N g') \<and> same_env J5 J' \<and> pend_from J5 J' b \<and> fixed M4 N"
  proof (cases "spanned \<and> \<not> ended")
    case False
    then have "J' = J5" using s(6) by auto
    then show ?thesis using False m4(11) sim_same [OF _ e(3)]
      by (intro exI [of _ M4]) (auto simp: pend_from_def intro: code_run_same)
  next
    case True
    then have u: "update_spanned b res J5 = Some J'" using s(6) m4(11) fb(1) by auto
    have "cache_ok {} J5 M4 g" "\<not> t_pend J5" "xmem M4 = wr g b (val_of M4 res)"
      using True m4(11,7) cache_ok_same [OF e(3)] same_cacheD(4) [OF e(3)] by (simp_all add: g'_def)
    moreover have "ready J5 res" using m4(6) e(4) by (cases res) (auto simp: ready_def)
    moreover have "\<not> t_flags_live J5" using m4(2) e(7) by simp
    ultimately show ?thesis using update_spanned_spec [OF u] True m4(11) by (auto simp: g'_def pend_from_def)
  qed
  then obtain N where n: "code_run J5 J' M4 (Through N)" "ended \<or> sim J' N g'" "same_env J5 J'" "pend_from J5 J' b" "fixed M4 N" by blast
  have f4: "fixed M M4"
  proof -
    have "r \<notin> in_b same vb dynb fb J3" if r: "r \<in> {RSP, RBP, R12, R14, R15}" for r
    proof
      assume "r \<in> in_b same vb dynb fb J3"
      then have "areg r" using m3(3) by (auto simp: in_b_def ready_def)
      then show False using areg_bounds [of r] r by blast
    qed
    then have "fixed M3 M4" using m4(5) keep_fixed unfolding fixed_def by blast
    then show ?thesis using fixed_trans [OF stays_fixed [OF eff_stays [OF m3(1)]]] by blast
  qed
  note fx = f4 fixed_trans [OF f4 n(5)]
  have "pend_from J J' b"
    using n(4) m4(10) same_cacheD(4,5) [OF e(3)] effD(7,8) [OF m3(1)] unfolding pend_from_def by auto
  note pf = this
  have fin: "\<not> t_flags_live J'" "grows J J'"
    using n(3) e(5-7) m4(2-4) effD(2) [OF m3(1)] by (auto simp: same_env_def grows_def)
  have bx: "branch_exit J' g' i C s0 M4" if ?br
    using e(2) that n(3) branch_exit_mono [of J5 g' i C s0 M4 J' "[]"] by (simp add: same_env_def)
  show ?thesis
  proof (cases ?br)
    case True
    then have "code_run J J' M (Leaves s0 M4)"
      using code_run_trans [OF run4 code_run_leaves [OF _ n(1)]] e(1) by simp
    then show ?thesis using True bx fin n(2) pf fx
      by (intro exI [of _ "Leaves s0 M4"]) (auto simp: insn_done_def C_def)
  next
    case False
    have "code_run J J' M (Through N)" using code_run_trans [OF run4 code_run_trans [OF e(1) [unfolded if_not_P [OF False]] n(1)]] .
    moreover have "\<not> ended" using e(8) False by blast
    ultimately show ?thesis using False fin n(2) fcC pf fx
      by (intro exI [of _ "Through N"]) (auto simp: insn_done_def C_def)
  qed
qed

section \<open>The whole instruction\<close>

text \<open>
  Refused by the check: it leaves with nothing of the instruction done. Where only the page was
  looked at, the code can be taken up again at \<open>back\<close> with any contents of the two registers used.
\<close>

definition insn_refused :: "trans \<Rightarrow> bool \<Rightarrow> nat \<Rightarrow> u64 \<Rightarrow> mach \<Rightarrow> mem \<Rightarrow> xresult \<Rightarrow> bool" where
  "insn_refused J ended i p M g R \<longleftrightarrow>
     (\<exists>S\<in>set (t_smcs J). \<exists>N. R = Leaves (sm_site S) N \<and> fixed M N \<and> sm_idx S = i \<and> pend_mem (sm_pend S) N = g \<and>
        (case sm_precise S of None \<Rightarrow> True
         | Some (rb, t1, t2, back) \<Rightarrow>
             xr N rb = rd g (p + 8) \<and>
             (\<forall>N'. xmem N' = xmem N \<and> (\<forall>r. r \<noteq> t1 \<and> r \<noteq> t2 \<longrightarrow> xr N' r = xr N r) \<longrightarrow>
                (\<exists>J1 R'. length (em_code J1) = back \<and> code_run J1 J N' R' \<and> insn_done J ended i p M (subleq_step (g, p)) R'))))"

lemma fields_spec:
  assumes "sim J M g"
    and "field_val E start p (unpin_all J) = (fA, J1)" "field_val E start (p + 8) J1 = (fB, J2)" "field_val E start (p + 16) J2 = (fC, J3)"
    and "\<And>a. a \<in> {p, p + 8, p + 16} \<Longrightarrow> \<not> is_dynamic E a start \<Longrightarrow> rd (te_mem E) a = rd g a"
  shows "sim J3 M g" "stays (unpin_all J) M J3 M" "same_cache J J3" "em_code J3 = em_code J"
    "field_ok J3 M g p fA" "field_ok J3 M g (p + 8) fB" "field_ok J3 M g (p + 16) fC"
    "fst fB \<Longrightarrow> is_dynamic E (p + 8) start" "fst fC \<Longrightarrow> is_dynamic E (p + 16) start"
proof -
  note u = unpin_all_facts [of J]
  have s0: "sim (unpin_all J) M g" by (rule sim_same [OF assms(1) u(1)])
  have r: "bswap64 (load64 (te_mem E) a) = rd g a" if "a \<in> {p, p + 8, p + 16}" "\<not> is_dynamic E a start" for a
    using assms(5) [OF that] by (simp add: dawn_readram_def)
  note a = field_val_spec [OF s0 assms(2) r] note b = field_val_spec [OF a(2) assms(3) r] note c = field_val_spec [OF b(2) assms(4) r]
  note bc = stays_trans [OF eff_stays [OF b(1)] eff_stays [OF c(1)]]
  show "sim J3 M g" using c(2) by simp
  show "stays (unpin_all J) M J3 M" using stays_trans [OF eff_stays [OF a(1)] bc] by simp
  have ab: "same_cache (unpin_all J) J1" "same_cache J1 J2" "same_cache J2 J3" using a(3) b(3) c(3) by simp_all
  show "same_cache J J3" using same_cache_trans [OF same_cache_trans [OF u(1) ab(1)] same_cache_trans [OF ab(2,3)]] .
  show "em_code J3 = em_code J" using a(5) b(5) c(5) u(2) by simp
  show "field_ok J3 M g p fA" using field_ok_stays [OF a(4) bc] absent_same [OF same_cache_trans [OF ab(2,3)]] by simp
  show "field_ok J3 M g (p + 8) fB" using field_ok_stays [OF b(4) eff_stays [OF c(1)]] absent_same [OF ab(3)] by simp
  show "field_ok J3 M g (p + 16) fC" using c(4) by simp
  show "fst fB \<Longrightarrow> is_dynamic E (p + 8) start" "fst fC \<Longrightarrow> is_dynamic E (p + 16) start" using b(6) c(6) by simp_all
qed

lemma flagged_static:
  assumes "mem_ok J M g" "\<And>x. t_pend J \<Longrightarrow> x \<in> flag_bytes E base False b \<Longrightarrow> \<not> x - t_pend_addr J < 8"
  shows "flagged E B g base False b \<longleftrightarrow> (\<exists>w\<in>set (target_words E b). \<not> hoisted B w \<and> word_flagged (xmem M) base w)"
proof -
  have "word_flagged (xmem M) base w = word_flagged g base w" if "w \<in> set (target_words E b)" for w
    using mem_ok_byte [OF assms(1), of "word_byte base w"] assms(2) that by (auto simp: word_flagged_def flag_bytes_def)
  then show ?thesis by (auto simp: flagged_def)
qed

lemma translate_codeE:
  assumes "translate_code E B p i J = Some (ended, J')"
  obtains fA J1 fB J2 fC J3 rb J4 where
    "field_val E (jb_start B) p (unpin_all J) = (fA, J1)" "field_val E (jb_start B) (p + 8) J1 = (fB, J2)"
    "field_val E (jb_start B) (p + 16) J2 = (fC, J3)"
    "\<not> fst fB \<longrightarrow> J4 = check_words B i (target_words E (fst (snd fB))) J3"
    "fst fB \<longrightarrow> check_dynamic E i p (snd (snd fB)) J3 = Some (rb, J4)"
    "run_insn fA fB fC rb p i J4 = Some (ended, J')"
proof -
  obtain fA J1 where a: "field_val E (jb_start B) p (unpin_all J) = (fA, J1)" by fastforce
  obtain fB J2 where b: "field_val E (jb_start B) (p + 8) J1 = (fB, J2)" by fastforce
  obtain fC J3 where c: "field_val E (jb_start B) (p + 16) J2 = (fC, J3)" by fastforce
  obtain rb J4 where "(if \<not> fst fB then Some (0, check_words B i (target_words E (fst (snd fB))) J3)
                    else check_dynamic E i p (snd (snd fB)) J3) = Some (rb, J4)" "run_insn fA fB fC rb p i J4 = Some (ended, J')"
    using assms a b c by (auto simp: translate_code_split Let_def split: bind_splits)
  then show thesis by (intro that [OF a b c]) (auto split: if_splits)
qed

lemma translate_code_spec:
  assumes "translate_code E B p i J = Some (ended, J')" "sim J M g" "\<not> t_flags_live J" "p AND 7 = 0"
    and "\<And>a. a \<in> {p, p + 8, p + 16} \<Longrightarrow> \<not> is_dynamic E a (jb_start B) \<Longrightarrow> rd (te_mem E) a = rd g a"
    and "is_dynamic E (p + 16) (jb_start B) \<Longrightarrow> rd g (p + 8) \<noteq> p + 16"
    and "\<And>d x. t_pend J \<Longrightarrow> x \<in> flag_bytes E (xr M R14) d (rd g (p + 8)) \<Longrightarrow> \<not> x - t_pend_addr J < 8"
  defines "b \<equiv> rd g (p + 8)" and "st \<equiv> subleq_step (g, p)"
  shows "\<exists>R dynb. code_run J J' M R \<and> (dynb \<longrightarrow> is_dynamic E (p + 8) (jb_start B)) \<and>
    (if flagged E B g (xr M R14) dynb b then insn_refused J' ended i p M g R else insn_done J' ended i p M st R) \<and>
    \<not> t_flags_live J' \<and> grows J J' \<and> pend_from J J' b \<and> (ended \<or> (\<exists>N. sim J' N (fst st) \<and> fixed M N))"
proof -
  obtain fA J1 fB J2 fC J3 rb J4 where s:
    "field_val E (jb_start B) p (unpin_all J) = (fA, J1)" "field_val E (jb_start B) (p + 8) J1 = (fB, J2)"
    "field_val E (jb_start B) (p + 16) J2 = (fC, J3)"
    "\<not> fst fB \<longrightarrow> J4 = check_words B i (target_words E (fst (snd fB))) J3"
    "fst fB \<longrightarrow> check_dynamic E i p (snd (snd fB)) J3 = Some (rb, J4)"
    "run_insn fA fB fC rb p i J4 = Some (ended, J')"
    using assms(1) by (rule translate_codeE)
  note f = fields_spec [OF assms(2) s(1-3) assms(5)]
  have st3: "stays (unpin_all J) M J3 M" using f(2) by simp
  have fl3: "\<not> t_flags_live J3" using staysD(1) [OF st3] unpin_all_facts(3) assms(3) by (simp add: same_env_def)
  have r14: "xr N R14 = xr M R14" if "stays J3 M J4 N" for N using staysD(5) [OF that] by (simp add: keep_fixed)
  have st_eq: "st = (wr g (rd g (p + 8)) (rd g (rd g (p + 8)) - rd g (rd g p)),
      if rd g (rd g (p + 8)) \<le>s rd g (rd g p) then rd g (p + 16) else p + 24)"
    by (simp add: st_def subleq_step_def Let_def)
  have restN: "\<exists>R. code_run J4 J' N R \<and> insn_done J' ended i p N st R \<and>
      \<not> t_flags_live J' \<and> grows J4 J' \<and> pend_from J4 J' b \<and> (ended \<or> (\<exists>N'. sim J' N' (fst st) \<and> fixed N N'))"
    if "sim J4 N g" "stays J3 M J4 N" "absent J3 p \<longrightarrow> absent J4 p" "fst fB \<Longrightarrow> areg rb \<and> keep J4 rb \<and> xr N rb = b" for N
    unfolding st_eq fst_conv b_def
  proof (rule run_insn_spec [OF that(1) s(6)])
    show "\<not> t_flags_live J4" using staysD(1) [OF that(2)] fl3 by simp
    show "field_ok J4 N g p fA" by (rule field_ok_stays [OF f(5) that(2,3)]) simp_all
    show "fst (snd fB) = rd g (p + 8)" if "\<not> fst fB" using f(6) that by (cases fB) (simp add: field_ok_def)
    show "fst fB \<Longrightarrow> areg rb \<and> keep J4 rb \<and> xr N rb = rd g (p + 8)" using that(4) by (simp add: b_def)
    show "field_ok J3 M g (p + 16) fC" "sim J3 M g" using f(7,1) by simp_all
    show "fst fC \<Longrightarrow> rd g (p + 8) \<noteq> p + 16" using f(9) assms(6) by simp
  qed (use assms(4) that(2) in simp_all)
  have rest: "\<exists>R. code_run J4 J' N R \<and> insn_done J' ended i p M st R \<and>
      \<not> t_flags_live J' \<and> grows J4 J' \<and> pend_from J4 J' b \<and> (ended \<or> (\<exists>N. sim J' N (fst st) \<and> fixed M N))"
    if "sim J4 N g" "stays J3 M J4 N" "absent J3 p \<longrightarrow> absent J4 p" "fst fB \<Longrightarrow> areg rb \<and> keep J4 rb \<and> xr N rb = b" for N
  proof -
    have f: "fixed M N" by (rule stays_fixed [OF that(2)])
    have "insn_done J' ended i p M st R" if "insn_done J' ended i p N st R" for R
      using that fixed_trans [OF f] unfolding insn_done_def by auto
    then show ?thesis using restN [OF that] fixed_trans [OF f] by blast
  qed
  have em: "code_run J J' M R" if "code_run J3 J' M R" for R using that f(4) by (simp add: code_run_def)
  have pf: "pend_from J J' b" if "stays J3 M J4 N" "pend_from J4 J' b" for N
    using that staysD(7,8) [OF that(1)] same_cacheD(4,5) [OF f(3)] by (auto simp: pend_from_def)
  have gr: "grows J J'" if "stays J3 M J4 N" "grows J4 J'" for N
    using that f(2) unpin_all_facts(3) [of J] unfolding grows_def stays_def same_env_def by auto
  show ?thesis
  proof (cases "fst fB")
    case False
    have b: "fst (snd fB) = b" using f(6) False by (cases fB) (simp add: field_ok_def b_def)
    have j4: "J4 = check_words B i (target_words E b) J3" using s(4) False b by simp
    obtain R N where c: "code_run J3 J4 M R" "stays J3 M J4 N" "sim J4 N g" "same_cache J3 J4"
      "if \<exists>w\<in>set (target_words E b). \<not> hoisted B w \<and> word_flagged (xmem M) (xr M R14) w
       then \<exists>s N. R = Leaves s N \<and> fixed M N \<and> smc_exit J4 g i s N else R = Through N"
      using check_words_spec [of J3 M g B i "target_words E b"] f(1) fl3 unfolding j4 by blast
    have ab: "absent J3 p \<longrightarrow> absent J4 p" using absent_same [OF c(4)] by simp
    obtain R' where r: "code_run J4 J' N R'" "insn_done J' ended i p M st R'" "\<not> t_flags_live J'" "grows J4 J'"
      "ended \<or> (\<exists>N. sim J' N (fst st) \<and> fixed M N)" "pend_from J4 J' b" using rest [OF c(3,2) ab] False by blast
    have fg: "flagged E B g (xr M R14) False b \<longleftrightarrow> (\<exists>w\<in>set (target_words E b). \<not> hoisted B w \<and> word_flagged (xmem M) (xr M R14) w)"
      by (rule flagged_static) (use assms(2,7) in \<open>auto simp: sim_def b_def\<close>)
    show ?thesis
    proof (cases "flagged E B g (xr M R14) False b")
      case True
      then obtain s0 N0 where n: "R = Leaves s0 N0" "fixed M N0" "smc_exit J4 g i s0 N0" using c(5) fg by auto
      have "code_run J J' M R" using em [OF code_run_leaves [OF c(1) [unfolded n(1)] r(1)]] n(1) by simp
      moreover have "insn_refused J' ended i p M g R"
        using n r(4) unfolding smc_exit_def insn_refused_def grows_def by (auto split: option.splits)
      ultimately show ?thesis using True r(3,5) gr [OF c(2) r(4)] pf [OF c(2) r(6)] by (intro exI [of _ R] exI [of _ False]) simp
    next
      case nf: False
      then have "R = Through N" using c(5) fg by simp
      then have "code_run J J' M R'" using em [OF code_run_trans [OF _ r(1)]] c(1) by simp
      then show ?thesis using nf r(2,3,5) gr [OF c(2) r(4)] pf [OF c(2) r(6)] by (intro exI [of _ R'] exI [of _ False]) simp
    qed
  next
    case True
    obtain f0 v where fB: "fB = (True, f0, v)" using True by (cases fB) auto
    have pb: "t_pend J3 \<Longrightarrow> \<not> page_byte E (xr M R14) (rd g (p + 8)) - t_pend_addr J3 < 8"
      using assms(7) [of "page_byte E (xr M R14) (rd g (p + 8))" True] same_cacheD(4,5) [OF f(3)] by (simp add: flag_bytes_def)
    have "check_dynamic E i p v J3 = Some (rb, J4)" using s(5) by (simp add: fB)
    then obtain N s0 S t1 t2 where c: "code_run J3 J4 M (if g (page_byte E (xr M R14) b) \<noteq> 0 then Leaves s0 N else Through N)"
      "S \<in> set (t_smcs J4)" "sm_site S = s0" "sm_idx S = i" "sm_precise S = Some (rb, t1, t2, length (em_code J4))"
      "pend_mem (sm_pend S) N = g" "areg rb" "keep J4 rb" "xr N rb = b" "absent J3 p \<longrightarrow> absent J4 p"
      "\<forall>N'. xmem N' = xmem N \<and> (\<forall>r. r \<noteq> t1 \<and> r \<noteq> t2 \<longrightarrow> xr N' r = xr N r) \<longrightarrow>
         stays J3 M J4 N' \<and> sim J4 N' g \<and> xr N' rb = b"
      using check_dynamic_spec [of J3 M g E i p v rb J4 f0, OF f(1) _ _ assms(4) fl3 pb] f(6) unfolding fB b_def by blast
    have res: "\<exists>R. code_run J4 J' N' R \<and> insn_done J' ended i p M st R \<and>
      \<not> t_flags_live J' \<and> grows J4 J' \<and> pend_from J4 J' b \<and> (ended \<or> (\<exists>N. sim J' N (fst st) \<and> fixed M N))"
      if "xmem N' = xmem N" "\<forall>r. r \<noteq> t1 \<and> r \<noteq> t2 \<longrightarrow> xr N' r = xr N r" for N'
      using rest [OF _ _ c(10)] c(7,8,11) that by blast
    obtain R' where r: "code_run J4 J' N R'" "insn_done J' ended i p M st R'" "\<not> t_flags_live J'" "grows J4 J'"
      "ended \<or> (\<exists>N. sim J' N (fst st) \<and> fixed M N)" "pend_from J4 J' b" using res [of N] by blast
    have stN: "stays J3 M J4 N" using c(11) by blast
    note fx = stays_fixed [OF stN]
    have fg: "flagged E B g (xr M R14) True b \<longleftrightarrow> g (page_byte E (xr M R14) b) \<noteq> 0" by (simp add: flagged_def)
    have dyn: "is_dynamic E (p + 8) (jb_start B)" using f(8) True by simp
    show ?thesis
    proof (cases "flagged E B g (xr M R14) True b")
      case fl: True
      then have "code_run J J' M (Leaves s0 N)" using em [OF code_run_leaves [OF _ r(1)]] c(1) fg by simp
      moreover have "insn_refused J' ended i p M g (Leaves s0 N)"
      proof -
        have "S \<in> set (t_smcs J')" using c(2) r(4) by (auto simp: grows_def)
        moreover have "\<forall>N'. xmem N' = xmem N \<and> (\<forall>r. r \<noteq> t1 \<and> r \<noteq> t2 \<longrightarrow> xr N' r = xr N r) \<longrightarrow>
            (\<exists>J1 R'. length (em_code J1) = length (em_code J4) \<and> code_run J1 J' N' R' \<and> insn_done J' ended i p M st R')"
          using res by blast
        ultimately show ?thesis using c(9) unfolding insn_refused_def
          by (intro bexI [of _ S] exI [of _ N]) (simp_all add: fx c(3-6) b_def st_def)
      qed
      ultimately show ?thesis using fl r(3,5) gr [OF stN r(4)] pf [OF stN r(6)] dyn by (intro exI [of _ "Leaves s0 N"] exI [of _ True]) simp
    next
      case nf: False
      then have "code_run J J' M R'" using em [OF code_run_trans [OF _ r(1)]] c(1) fg by simp
      then show ?thesis using nf r(2,3,5) gr [OF stN r(4)] pf [OF stN r(6)] dyn by (intro exI [of _ R'] exI [of _ True]) simp
    qed
  qed
qed


section \<open>An instruction translated\<close>

text \<open>\<open>8192 8192 12288\<close> at 4096: a word cleared, and a jump.\<close>

definition ex_mem :: mem where
  "ex_mem = wr (wr (wr (wr (\<lambda>_. 0) 4096 8192) 4104 8192) 4112 12288) 8192 7"

definition ex_env :: tenv where
  "ex_env = \<lparr>te_mem = ex_mem, te_dyn_map = (\<lambda>_. 0), te_written = (\<lambda>_. False), te_mem_size = 65536, te_page_off = 0x200\<rparr>"

definition ex_block :: jit_block where
  "ex_block = \<lparr>jb_start = 4096, jb_n = 1, jb_entry = 0, jb_inv_stub = 0, jb_incoming = [], jb_hoist = [],
     jb_smask = (\<lambda>_. 0), jb_shash = 0, jb_valid = True\<rparr>"

definition ex_trans :: trans where
  "ex_trans = \<lparr>em_code = [], t_pend = False, t_pend_addr = 0, t_flags_live = False,
     t_regs = (\<lambda>_. \<lparr>cr_used = False, cr_addr = 0, cr_pinned = False, cr_lru = 0\<rparr>), t_lru_clock = 0,
     t_consts = (\<lambda>_. \<lparr>cc_used = False, cc_addr = 0, cc_val = 0\<rparr>), t_const_next = 0,
     t_aliases = (\<lambda>_. \<lparr>ca_used = False, ca_addr = 0, ca_reg = 0, ca_neg = False\<rparr>), t_alias_next = 0,
     t_stubs = [], t_smcs = [], t_movbe = True\<rparr>"

definition ex_mach :: mach where
  "ex_mach = \<lparr>xr = (\<lambda>_. 0)(R15 := BIAS, R14 := 0x100000), xmem = ex_mem, xzf = False, xsf = False, xof = False, xcf = False\<rparr>"

lemma ex_reads: "rd ex_mem 4096 = 8192" "rd ex_mem 4104 = 8192" "rd ex_mem 4112 = 12288" "rd ex_mem 8192 = 7"
  by (simp_all add: ex_mem_def mem_simps dawn_readram_def dawn_writeram_def disj8_def)

lemma ex_static: "\<not> is_dynamic ex_env a 4096"
  by (simp add: is_dynamic_def ex_env_def bit_get_def)

lemma ex_sim: "sim ex_trans ex_mach ex_mem" "\<not> t_flags_live ex_trans" "\<not> t_pend ex_trans"
proof -
  have "\<not> has ex_trans v a" for v a
    by (cases v) (simp_all add: has_def names_def const_words_def ex_trans_def)
  then show "sim ex_trans ex_mach ex_mem" "\<not> t_flags_live ex_trans" "\<not> t_pend ex_trans"
    by (simp_all add: sim_def cache_ok_def mem_ok_def alias_regs_def ex_mach_def) (simp_all add: ex_trans_def ex_mach_def reg_defs)
qed

lemma ex_translates: "\<exists>ended J'. translate_code ex_env ex_block 4096 0 ex_trans = Some (ended, J')"
proof -
  let ?J = "unpin_all ex_trans"
  have f: "field_val ex_env 4096 a J = ((False, rd ex_mem a, VNone), J)" for a J
    using ex_static by (simp add: field_val_def Let_def dawn_readram_def) (simp add: ex_env_def)
  define J1 where "J1 = check_words ex_block 0 (target_words ex_env 8192) ?J"
  have "same_cache ?J J1" unfolding J1_def
    using check_words_spec [OF sim_same [OF ex_sim(1) unpin_all_facts(1)]] ex_sim(2) unpin_all_facts(3) [of ex_trans]
    by (auto simp: same_env_def)
  then have p: "\<not> t_pend J1" using ex_sim(3) same_cacheD(4) unpin_all_facts(1) by metis
  have c: "cacheable 8192" by (simp add: cacheable_def HW_LO_def)
  show ?thesis
    using p c
    by (simp add: translate_code_split Let_def ex_block_def [THEN arg_cong [where f = jb_start]] f run_insn_def ex_reads
        J1_def [symmetric] compute_eqs(1) dynamic_c_def store_result_def cache_result_def split_beta)
qed

lemma ex_unflagged: "\<not> flagged ex_env ex_block ex_mem 0x100000 False 8192"
proof -
  have "target_words ex_env 8192 = [1024]" by (simp add: target_words_def ex_env_def)
  moreover have "ex_mem 0x100080 = 0"
    by (simp add: ex_mem_def dawn_writeram_outside)
  ultimately show ?thesis by (simp add: flagged_def word_flagged_def word_byte_def)
qed


end
