(* ===== verification/Stub_Store.thy ===== *)
theory Stub_Store
  imports Translate_Correct
begin

text \<open>
  The store held back, made out of line where code leaves (\<open>stub_store\<close> of jit.c).
\<close>

section \<open>The store held back, made in a stub\<close>

lemma skip_regs_spec:
  fixes t :: u8
  shows "skip_regs t p k \<in> {t, t + 1, t + 2}" "p \<noteq> Some (skip_regs t p k)" "k \<noteq> Some (skip_regs t p k)"
proof -
  let ?P = "\<lambda>x. p \<noteq> Some x \<and> k \<noteq> Some x"
  have d: "t \<noteq> t + 1" "t \<noteq> t + 2" "t + 1 \<noteq> t + 2" by simp_all
  have "?P t \<or> ?P (t + 1) \<or> ?P (t + 2)" using d by auto
  then have "filter ?P [t, t + 1, t + 2] \<noteq> []" by auto
  then have "skip_regs t p k \<in> set (filter ?P [t, t + 1, t + 2])" unfolding skip_regs_def by (rule hd_in_set)
  then have "skip_regs t p k \<in> {x \<in> set [t, t + 1, t + 2]. ?P x}" by (simp only: set_filter)
  then show "skip_regs t p k \<in> {t, t + 1, t + 2}" "p \<noteq> Some (skip_regs t p k)" "k \<noteq> Some (skip_regs t p k)" by auto
qed

text \<open>The registers a stub may change: RAX, RCX, RDX and RBX, but for the one to keep.\<close>

definition stub_reg :: "u8 option \<Rightarrow> u8 \<Rightarrow> bool" where
  "stub_reg kp r \<longleftrightarrow> r \<in> {0, 1, 2, 3} \<and> kp \<noteq> Some r"

lemma stub_regs:
  fixes preg kp :: "u8 option"
  defines "t \<equiv> skip_regs RAX preg kp"
  defines "b \<equiv> skip_regs (t + 1) preg kp"
  shows "stub_reg kp t" "stub_reg kp b" "b \<noteq> t" "preg \<noteq> Some t" "preg \<noteq> Some b"
proof -
  note st = skip_regs_spec [where t = RAX and p = preg and k = kp, folded t_def]
  note sb = skip_regs_spec [where t = "t + 1" and p = preg and k = kp, folded b_def]
  have t: "t \<in> {0, 1, 2}" using st(1) by (simp add: reg_defs)
  show "stub_reg kp t" "preg \<noteq> Some t" using st(2,3) t by (auto simp: stub_reg_def)
  have b: "b \<in> {t + 1, t + 2, t + 3}" using sb(1) by (simp add: add.assoc)
  then show "b \<noteq> t" by auto
  have c: "b \<noteq> 4 \<and> b \<noteq> 5"
  proof -
    have "b = hd (filter (\<lambda>x. preg \<noteq> Some x \<and> kp \<noteq> Some x) [t + 1, t + 2, t + 3])"
      by (simp add: b_def skip_regs_def add.assoc)
    moreover have "t = 0 \<or> t = 1 \<and> (preg = Some 0 \<or> kp = Some 0) \<or>
        t = 2 \<and> (preg = Some 0 \<and> kp = Some 1 \<or> preg = Some 1 \<and> kp = Some 0)"
      using t unfolding t_def skip_regs_def by (auto simp: reg_defs split: if_splits)
    ultimately show ?thesis by auto
  qed
  then show "stub_reg kp b" "preg \<noteq> Some b" using sb(2,3) b t by (auto simp: stub_reg_def)
qed

text \<open>Runs in which only such registers change.\<close>

definition stub_run :: "u8 option \<Rightarrow> 'a emitter_scheme \<Rightarrow> mach \<Rightarrow> 'a emitter_scheme \<Rightarrow> mach \<Rightarrow> bool" where
  "stub_run kp J M J' M' \<longleftrightarrow> code_run J J' M (Through M') \<and> (\<forall>r. \<not> stub_reg kp r \<longrightarrow> xr M' r = xr M r)"

lemma stub_run_step:
  assumes "stub_run kp J M J1 M1" "emits J1 J2 [i]" "xstep i M1 = Some M2" "\<And>r. \<not> stub_reg kp r \<Longrightarrow> xr M2 r = xr M1 r"
  shows "stub_run kp J M J2 M2"
  using assms code_run_trans [OF _ code_run_step [OF assms(2,3)]] by (simp add: stub_run_def)

lemma stub_run_set:
  assumes "stub_run kp J M J1 M1" "emits J1 J2 [i]" "xstep i M1 = Some M2" "xr M2 = (xr M1)(t := x)" "stub_reg kp t"
  shows "stub_run kp J M J2 M2"
  by (rule stub_run_step [OF assms(1-3)]) (use assms(4,5) in auto)

lemma stub_store_base:
  fixes J :: "'a emitter_scheme" and a :: u64
  assumes "xr M R15 = BIAS" "b < 16" "stub_reg kp b"
  defines "J1 \<equiv> (if \<not> fits_disp a then mov_imm b a J else J)" and "base \<equiv> (if \<not> fits_disp a then b else R15)"
    and "d \<equiv> (if \<not> fits_disp a then 0 else disp_of a)"
  shows "\<exists>M1. stub_run kp J M J1 M1 \<and> xr M1 base + scast d = a \<and> base < 16 \<and> xmem M1 = xmem M \<and>
    (\<forall>r. r \<noteq> b \<longrightarrow> xr M1 r = xr M r)"
proof (cases "fits_disp a")
  case True
  then show ?thesis using assms(1) disp_of [OF True]
    by (intro exI [of _ M]) (auto simp: J1_def base_def d_def stub_run_def intro: code_run_same)
next
  case False
  have "stub_run kp J M J M" by (auto simp: stub_run_def intro: code_run_same)
  from stub_run_set [OF this emits_mov_imm [OF assms(2)] mov_imm_step _ assms(3), of a]
  have "stub_run kp J M J1 (set_r b a M)" using False by (simp add: J1_def)
  then show ?thesis using False assms(2)
    by (intro exI [of _ "set_r b a M"]) (simp add: base_def d_def)
qed

text \<open>The bytes of a register swapped in another, and stored.\<close>

lemma stub_swap_store:
  assumes "stub_run kp J M J1 M1" "t < 16" "stub_reg kp t" "t \<noteq> base" "base < 16" "xr M1 base + scast d = a"
  shows "\<exists>M2. stub_run kp J M (op_mem 0x89 t base d (bswap t J1)) M2 \<and> xmem M2 = wr (xmem M1) a (xr M1 t)"
proof -
  let ?M2 = "set_r t (bswap64 (xr M1 t)) M1"
  have s2: "stub_run kp J M (bswap t J1) ?M2"
    by (rule stub_run_set [OF assms(1) emits_bswap [OF assms(2)] _ _ assms(3)]) simp_all
  have "stub_run kp J M (op_mem 0x89 t base d (bswap t J1)) (?M2\<lparr>xmem := store64 (xmem M1) a (bswap64 (xr M1 t))\<rparr>)"
    by (rule stub_run_step [OF s2 emits_mem(2) [OF assms(2,5)]]) (use assms(4,6) in auto)
  then show ?thesis by (intro exI) (auto simp: dawn_writeram_def)
qed

lemma stub_movbe:
  assumes "stub_run kp J M J1 M1" "r < 16" "base < 16" "xr M1 base + scast d = a"
  shows "\<exists>M2. stub_run kp J M (movbe_mem True r base d J1) M2 \<and> xmem M2 = wr (xmem M1) a (xr M1 r)"
proof -
  have "stub_run kp J M (movbe_mem True r base d J1) (M1\<lparr>xmem := store64 (xmem M1) a (bswap64 (xr M1 r))\<rparr>)"
    by (rule stub_run_step [OF assms(1) emits_movbe(2) [OF assms(2,3)]]) (use assms(4) in auto)
  then show ?thesis by (intro exI) (auto simp: dawn_writeram_def)
qed

lemma stub_store_correct:
  fixes J :: "'a emitter_scheme"
  assumes "xr M R15 = BIAS" "\<And>r. pd_val p = VReg r \<or> pd_val p = VNeg r \<Longrightarrow> r < 16"
  shows "\<exists>M'. stub_run kp J M (stub_store p kp J movbe) M' \<and> xmem M' = pend_mem p M"
proof -
  define preg where "preg = (case pd_val p of VReg r \<Rightarrow> Some r | VNeg r \<Rightarrow> Some r | _ \<Rightarrow> None)"
  define t where "t = skip_regs RAX preg kp"
  define b where "b = skip_regs (t + 1) preg kp"
  define a where "a = pd_addr p"
  note r = stub_regs [where preg = preg and kp = kp, folded t_def, folded b_def]
  have lt: "t < 16" "b < 16" using r(1,2) by (auto simp: stub_reg_def)
  have nt: "t \<noteq> R15" using r(1) by (auto simp: stub_reg_def reg_defs)
  define J1 where "J1 = (if \<not> fits_disp a then mov_imm b a J else J)"
  define base where "base = (if \<not> fits_disp a then b else R15)"
  define d where "d = (if \<not> fits_disp a then 0 else disp_of a)"
  have ss: "stub_store p kp J movbe = (case pd_val p of
      VConst c \<Rightarrow> op_mem 0x89 t base d (mov_imm t (bswap64 c) J1)
    | VReg q \<Rightarrow> if movbe then movbe_mem True q base d J1 else op_mem 0x89 t base d (bswap t (mov_rr t q J1))
    | VNeg q \<Rightarrow> if movbe then movbe_mem True t base d (neg_r t (mov_rr t q J1))
        else op_mem 0x89 t base d (bswap t (neg_r t (mov_rr t q J1)))
    | VNone \<Rightarrow> J)"
    unfolding stub_store_def Let_def preg_def [symmetric] t_def [symmetric] b_def [symmetric] a_def [symmetric]
      J1_def base_def d_def by (cases "pd_val p") simp_all
  obtain M1 where m1: "stub_run kp J M J1 M1" "xr M1 base + scast d = a" "base < 16" "xmem M1 = xmem M" "\<forall>r. r \<noteq> b \<longrightarrow> xr M1 r = xr M r"
    using stub_store_base [OF assms(1) lt(2) r(2), of J a] unfolding J1_def base_def d_def by blast
  have tb: "t \<noteq> base" using r(3) nt by (auto simp: base_def)
  have copy: "stub_run kp J M (mov_rr t q J1) (set_r t (xr M q) M1)" "q < 16" if "pd_val p = VReg q \<or> pd_val p = VNeg q" for q
  proof -
    show q: "q < 16" by (rule assms(2)) (rule that)
    have "preg = Some q" using that by (auto simp: preg_def)
    then have "xr M1 q = xr M q" using r(5) m1(5) by blast
    then show "stub_run kp J M (mov_rr t q J1) (set_r t (xr M q) M1)"
      by (intro stub_run_set [OF m1(1) emits_rr(1) [OF lt(1) q] _ _ r(1)]) simp_all
  qed
  show ?thesis
  proof (cases "pd_val p")
    case VNone
    then show ?thesis by (intro exI [of _ M]) (auto simp: ss pend_mem_def stub_run_def intro: code_run_same)
  next
    case (VConst c)
    let ?M2 = "set_r t (bswap64 c) M1"
    have "stub_run kp J M (mov_imm t (bswap64 c) J1) ?M2"
      by (rule stub_run_set [OF m1(1) emits_mov_imm [OF lt(1)] mov_imm_step _ r(1)]) simp
    from stub_run_step [OF this emits_mem(2) [OF lt(1) m1(3)], of d "?M2\<lparr>xmem := store64 (xmem M) a (bswap64 c)\<rparr>"]
    show ?thesis using VConst tb m1(2,4) by (intro exI) (auto simp: ss pend_mem_def dawn_writeram_def a_def)
  next
    case (VReg q)
    then have "xr M1 q = xr M q" using r(5) m1(5) by (auto simp: preg_def)
    then show ?thesis
      using stub_movbe [OF m1(1) copy(2) m1(3,2)] stub_swap_store [OF copy(1) lt(1) r(1) tb m1(3), where a = a] VReg tb m1(2,4)
      by (auto simp: ss pend_mem_def a_def)
  next
    case (VNeg q)
    let ?M2 = "set_r t (- xr M q) (flags_sub 0 (xr M q) (set_r t (xr M q) M1))"
    have n: "stub_run kp J M (neg_r t (mov_rr t q J1)) ?M2"
      by (rule stub_run_set [OF copy(1) emits_r(1) [OF lt(1)] _ _ r(1)]) (use VNeg in simp_all)
    then show ?thesis
      using stub_movbe [OF n lt(1) m1(3), where a = a and d = d] stub_swap_store [OF n lt(1) r(1) tb m1(3), where a = a and d = d] VNeg tb m1(2,4)
      by (auto simp: ss pend_mem_def a_def)
  qed
qed

end
