(* ===== verification/Translate_Block.thy ===== *)
theory Translate_Block
  imports Translate_Insn
begin

text \<open>
  The translation of a block (\<open>translate\<close> of jit.c): its extent and the fields it writes, the checks
  on entry, the code of its instructions, and the code out of line where it leaves. Code is put
  together as a list of bytes from the block's entry; addresses in it are offsets from there, as only
  their differences are used.
\<close>

section \<open>The extent of a block\<close>

text \<open>
  What \<open>translate\<close> reads besides memory and maps: settings, where things lie, and the addresses
  of the C function and of \<open>meta\<close>.
\<close>

record tconf =
  tc_page_off :: u64
  tc_watch_addr :: u64
  tc_watch_value :: u64
  tc_jit_copy :: u64
  tc_meta_base :: u64
  tc_code_end :: u64
  tc_max_blocks :: nat

definition CODE_SLACK :: u64 where "CODE_SLACK = 256 * 1024"

text \<open>
  The words of the block that a store to \<open>b\<close> reaches. \<open>x\<close> goes up by 8 and may wrap around below
  \<open>b + 8\<close>; \<open>None\<close> is a loop still running when the fuel is out.
\<close>

fun mark_written :: "nat \<Rightarrow> u64 \<Rightarrow> u64 \<Rightarrow> u64 \<Rightarrow> (u64 \<Rightarrow> bool) \<Rightarrow> (u64 \<Rightarrow> bool) option" where
  "mark_written 0 start b x wrt = None"
| "mark_written (Suc fuel) start b x wrt =
     (if \<not> x < b + 8 then Some wrt
      else mark_written fuel start b (x + 8)
             (if start \<le> x \<and> x < start + 24 * of_nat JIT_MAX_BLOCK then wrt(drop_bit 3 (x - start) := True) else wrt))"

text \<open>
  For an unaligned \<open>b\<close> in the last 16 bytes below where \<open>b + 8\<close> wraps around, no multiple of 8 is
  at or above \<open>b + 8\<close>: the loop does not end.
\<close>

lemma mark_written_stuck:
  assumes "2 ^ 64 - 16 < unat b" "unat b < 2 ^ 64 - 8" "unat x mod 8 = 0"
  shows "mark_written fuel start b x wrt = None"
  using assms(3)
proof (induction fuel arbitrary: x wrt)
  case (Suc fuel)
  have b: "unat (b + 8) = unat b + 8" using assms(1,2) by (subst unat_add_lem [THEN iffD1]) simp_all
  have "unat x < 2 ^ 64" using unsigned_less [of x] by simp
  then have "x < b + 8" using Suc.prems assms(1) by (simp add: word_less_nat_alt b) presburger
  moreover have "unat (x + 8) mod 8 = 0" using Suc.prems by (simp add: unat_word_ariths mod_mod_cancel mod_add_left_eq)
  ultimately show ?case using Suc.IH by simp
qed simp

text \<open>The loop over the instructions; \<open>left\<close> counts down to the most a block may have.\<close>

fun scan_block :: "nat \<Rightarrow> tenv \<Rightarrow> jit_cpu \<Rightarrow> bool \<Rightarrow> u64 \<Rightarrow> nat \<Rightarrow> u64 \<Rightarrow> nat \<Rightarrow> (u64 \<Rightarrow> bool) \<Rightarrow> (nat \<times> (u64 \<Rightarrow> bool)) option" where
  "scan_block fuel E J copy start 0 p n wrt = Some (n, wrt)"
| "scan_block fuel E J copy start (Suc left) p n wrt =
     (if \<not> p + 24 \<le> te_mem_size E then Some (n, wrt)
      else if p \<noteq> start \<and> \<not> copy \<and> lookup J p \<noteq> None then Some (n, wrt)
      else
        let a = rd (te_mem E) p; b = rd (te_mem E) (p + 8); c = rd (te_mem E) (p + 16)
        in do {
          wrt \<leftarrow> (if \<not> bit_get (te_dyn_map E) (drop_bit 3 (p + 8)) then mark_written fuel start b (b AND NOT 7) wrt
                  else Some wrt);
          let dyn = (bit_get (te_dyn_map E) (drop_bit 3 p) \<or> bit_get (te_dyn_map E) (drop_bit 3 (p + 8)) \<or>
                     bit_get (te_dyn_map E) (drop_bit 3 (p + 16)));
          if \<not> dyn \<and> a = b \<and> c \<noteq> p + 24 then Some (Suc n, wrt)
          else scan_block fuel E J copy start left (p + 24) (Suc n) wrt
        })"

text \<open>The words stored to through static addresses, each once.\<close>

definition add_hoist :: "u64 \<Rightarrow> u64 list \<Rightarrow> u64 list" where
  "add_hoist w hs = (if w \<in> set hs then hs else hs @ [w])"

definition hoist_words :: "tenv \<Rightarrow> u64 \<Rightarrow> nat \<Rightarrow> u64 list" where
  "hoist_words E start n =
     fold (\<lambda>k hs. let p = start + 24 * of_nat k in
             if is_dynamic E (p + 8) start then hs
             else fold add_hoist (target_words E (rd (te_mem E) (p + 8))) hs)
       [0..<n] []"

section \<open>The entry\<close>

definition patch_bytes :: "nat \<Rightarrow> u8 list \<Rightarrow> trans \<Rightarrow> trans" where
  "patch_bytes site bs J = J\<lparr>em_code := take site (em_code J) @ bs @ drop (site + length bs) (em_code J)\<rparr>"

definition patch_jump :: "nat \<Rightarrow> nat \<Rightarrow> trans \<Rightarrow> trans" where
  "patch_jump site target J = patch_bytes site (le_bytes 4 (of_int (int target - int (site + 4)) :: i32)) J"

definition patch_here :: "nat \<Rightarrow> trans \<Rightarrow> trans" where
  "patch_here site J = patch_jump site (length (em_code J)) J"

text \<open>The budget: the place of its immediate, to be patched, and of the jump.\<close>

definition emit_budget :: "trans \<Rightarrow> (nat \<times> nat) \<times> trans" where
  "emit_budget J =
     (let J = alu_imm 5 RBP 0 J; imm = length (em_code J) - 4; (site, J) = jcc32 CC_L J in ((imm, site), J))"

definition emit_watch :: "tconf \<Rightarrow> trans \<Rightarrow> nat option \<times> trans" where
  "emit_watch T J =
     (if tc_watch_addr T = 0 then (None, J)
      else
        let J = mov_imm RAX (bswap64 (tc_watch_value T)) J;
            J = (if fits_disp (tc_watch_addr T)
                 then (let J = rex 1 RAX 0 R15 J; J = e8 0x39 J in mem_operand RAX R15 (disp_of (tc_watch_addr T)) J)
                 else (let J = mov_imm RCX (tc_watch_addr T) J; J = rex 1 RAX 0 RCX J; J = e8 0x39 J
                       in mem_operand RAX RCX 0 J));
            (site, J) = jcc32 CC_NZ J
        in (Some site, J))"

text \<open>One test per dword of the map, the words of a dword tested with the first of them.\<close>

function emit_hoists :: "u64 list \<Rightarrow> trans \<Rightarrow> nat list \<times> trans" where
  "emit_hoists [] J = ([], J)"
| "emit_hoists (w # ws) J =
     (let d = drop_bit 5 w;
          msk = fold (\<lambda>v m. if drop_bit 5 v = d then m OR push_bit (unat (v AND 31)) 1 else m) (w # ws) (0 :: u32);
          J = rex 0 0 0 R14 J; J = e8 0xf7 J; J = mem_operand 0 R14 (ucast (push_bit 2 d)) J; J = e32 msk J;
          (site, J) = jcc32 CC_NZ J;
          (sites, J) = emit_hoists (filter (\<lambda>v. drop_bit 5 v \<noteq> d) ws) J
      in (site # sites, J))"
  by pat_completeness auto

termination
  by (relation "measure (\<lambda>(ws, J). length ws)") (auto simp: less_Suc_eq_le)

text \<open>The call of \<open>jit_copy\<close> with the descriptor at \<open>d\<close>, and the way on from it.\<close>

definition emit_copy :: "tconf \<Rightarrow> nat \<Rightarrow> u64 \<Rightarrow> trans \<Rightarrow> trans" where
  "emit_copy T d start J =
     (let J = mov_imm RDI (tc_meta_base T + 8 * of_nat d) J;
          J = mov_rr RSI RBP J;
          J = mov_imm RAX (tc_jit_copy T) J;
          J = e8 0xd0 (e8 0xff J);
          J = test_rr RAX RAX J;
          (none, J) = jcc32 4 J;
          J = e8 19 (e8 0xc8 (e8 0x6b (e8 0x48 J)));
          J = alu_imm 5 RCX 19 J;
          J = sub_rr RBP RCX J;
          J = test_rr RDX RDX J;
          (site, J) = jcc32 CC_NZ J;
          S = \<lparr>sb_dyn = False, sb_site = site, sb_target = start + 19 * 24, sb_idx = 18, sb_creg = None,
               sb_pend = \<lparr>pd_val = VNone, pd_addr = 0\<rparr>\<rparr>;
          J = J\<lparr>t_stubs := t_stubs J @ [S]\<rparr>;
          (back, J) = jmp32 J;
          J = patch_jump back 0 J
      in patch_here none J)"

definition reset_cache :: "trans \<Rightarrow> trans" where
  "reset_cache J =
     J\<lparr>t_regs := (\<lambda>k. if k < NREGS then \<lparr>cr_used = False, cr_addr = 0, cr_pinned = False, cr_lru = 0\<rparr> else t_regs J k),
       t_consts := (\<lambda>k. if k < NCONST then (t_consts J k)\<lparr>cc_used := False\<rparr> else t_consts J k),
       t_aliases := (\<lambda>k. if k < NALIAS then (t_aliases J k)\<lparr>ca_used := False\<rparr> else t_aliases J k),
       t_pend := False\<rparr>"

section \<open>The instructions\<close>

text \<open>The instructions \<open>i\<close> up to \<open>n\<close>, until one ends the block: how many were translated.\<close>

fun translate_insns :: "tenv \<Rightarrow> u64 \<Rightarrow> nat list \<Rightarrow> jit_block \<times> maps \<times> trans \<Rightarrow> (bool \<times> nat \<times> jit_block \<times> maps \<times> trans) option" where
  "translate_insns E start [] S = Some (False, 0, S)"
| "translate_insns E start (i # is) S = do {
     (ended, S) \<leftarrow> translate_insn E (start + 24 * of_nat i) i S;
     if ended then Some (True, 1, S)
     else do { (ended, k, S) \<leftarrow> translate_insns E start is S; Some (ended, Suc k, S) }
   }"

text \<open>A block that does not end in a jump goes on to what follows it.\<close>

definition emit_end :: "u64 \<Rightarrow> nat \<Rightarrow> trans \<Rightarrow> trans" where
  "emit_end start n J =
     (let (pd, J) = snap_pending J; (site, J) = jmp32 J;
          S = \<lparr>sb_dyn = False, sb_site = site, sb_target = start + 24 * of_nat n, sb_idx = n - 1, sb_creg = None, sb_pend = pd\<rparr>
      in J\<lparr>t_stubs := t_stubs J @ [S]\<rparr>)"

section \<open>Out of line\<close>

text \<open>
  No budget left, the watched word changed, the block dropped, a static store target turned out to be
  translated code: where the third of these is, and the code.
\<close>

definition emit_exits :: "u64 \<Rightarrow> nat \<Rightarrow> nat \<Rightarrow> nat option \<Rightarrow> nat list \<Rightarrow> trans \<Rightarrow> nat \<times> trans" where
  "emit_exits start n budget_site watch_site hoist_sites J =
     (let J = patch_here budget_site J;
          J = alu_imm 0 RBP (of_nat n) J;
          J = exit_to start 0 J;
          J = (case watch_site of None \<Rightarrow> J
               | Some s \<Rightarrow> exit_to start 3 (alu_imm 0 RBP (of_nat n) (patch_here s J)));
          inv = length (em_code J);
          J = exit_to start 0 J;
          J = (if hoist_sites = [] then J
               else exit_to start 2 (alu_imm 0 RBP (of_nat n) (fold patch_here hoist_sites J)))
      in (inv, J))"

text \<open>The words of a store in a page with translated code, told apart.\<close>

definition emit_word_test :: "u8 \<Rightarrow> u8 \<Rightarrow> trans \<Rightarrow> nat \<times> trans" where
  "emit_word_test t1 t2 J =
     (let J = shr_ri t1 3 J; J = mov_rr t2 t1 J; J = shr_ri t2 6 J; J = load_sib8 t2 R14 t2 J; J = bt_rr t2 t1 J
      in jcc32 CC_C J)"

definition emit_precise :: "u8 \<Rightarrow> u8 \<Rightarrow> u8 \<Rightarrow> nat \<Rightarrow> trans \<Rightarrow> trans" where
  "emit_precise rb t1 t2 back J =
     (let (hit0, J) = emit_word_test t1 t2 (mov_rr t1 rb J);
          (hit1, J) = emit_word_test t1 t2 (op_mem 0x8d t1 rb 7 J);
          (site, J) = jmp32 J;
          J = patch_jump site back J
      in patch_here hit1 (patch_here hit0 J))"

text \<open>Leaving before the instruction ran.\<close>

definition emit_smc :: "u64 \<Rightarrow> nat \<Rightarrow> smc \<Rightarrow> trans \<Rightarrow> trans" where
  "emit_smc start n S J =
     (let J = patch_here (sm_site S) J;
          J = (case sm_precise S of None \<Rightarrow> J | Some (rb, t1, t2, back) \<Rightarrow> emit_precise rb t1 t2 back J);
          J = stub_store (sm_pend S) None J (t_movbe J);
          J = alu_imm 0 RBP (of_nat n - of_nat (sm_idx S)) J
      in exit_to (start + 24 * of_nat (sm_idx S)) 1 J)"

text \<open>Leaving by a branch, with \<open>rbx\<close> the place of a jump that can be linked to the target.\<close>

definition emit_stub :: "nat \<Rightarrow> stub \<Rightarrow> trans \<Rightarrow> trans option" where
  "emit_stub n S J = do {
     let J = patch_here (sb_site S) J;
     let J = stub_store (sb_pend S) (if sb_dyn S then sb_creg S else None) J (t_movbe J);
     let unexec = (of_nat n - of_nat (sb_idx S) - 1 :: u32);
     let J = (if unexec \<noteq> 0 then alu_imm 0 RBP unexec J else J);
     if sb_dyn S then do {
       r \<leftarrow> sb_creg S;
       Some (jmp_r R12 (mov_imm RBX 0 (mov_rr R13 r J)))
     }
     else do {
       let (site, J) = jmp32 J;
       let J = patch_here site J;
       let J = mov_imm R13 (sb_target S) J;
       let J = e8 0x1d (e8 0x8d (e8 0x48 J));
       let J = e32 (of_int (int site - int (length (em_code J) + 4))) J;
       Some (jmp_r R12 J)
     }
   }"

fun emit_stubs :: "nat \<Rightarrow> stub list \<Rightarrow> trans \<Rightarrow> trans option" where
  "emit_stubs n [] J = Some J"
| "emit_stubs n (S # Ss) J = do { J \<leftarrow> emit_stub n S J; emit_stubs n Ss J }"

section \<open>The block\<close>

text \<open>The code of a block: where its stub for dropped blocks is, how many instructions it has.\<close>

definition block_code :: "tconf \<Rightarrow> tenv \<Rightarrow> nat \<Rightarrow> nat option \<Rightarrow> jit_block \<times> maps \<times> trans \<Rightarrow> (nat \<times> jit_block \<times> maps \<times> trans) option" where
  "block_code T E n copy = (\<lambda>(B, M, J). do {
     let start = jb_start B;
     let J = J\<lparr>em_code := [], t_stubs := [], t_smcs := []\<rparr>;
     let ((imm, budget_site), J) = emit_budget J;
     let (watch_site, J) = emit_watch T J;
     let (hoist_sites, J) = emit_hoists (jb_hoist B) J;
     let J = (case copy of None \<Rightarrow> J | Some d \<Rightarrow> emit_copy T d start J);
     (ended, k, B, M, J) \<leftarrow> translate_insns E start [0..<n] (B, M, reset_cache J);
     let J = patch_bytes imm (le_bytes 4 (of_nat k :: u32)) J;
     let J = (if ended then J else emit_end start k J);
     let (inv, J) = emit_exits start k budget_site watch_site hoist_sites J;
     let J = fold (emit_smc start k) (t_smcs J) J;
     J \<leftarrow> emit_stubs k (t_stubs J) J;
     Some (inv, B\<lparr>jb_n := k\<rparr>, M, J)
   })"

definition put_code :: "u64 \<Rightarrow> u8 list \<Rightarrow> mem \<Rightarrow> mem" where
  "put_code p bs m = (\<lambda>x. if unat (x - p) < length bs then bs ! unat (x - p) else m x)"

text \<open>Waiting for room among the new blocks.\<close>

fun wait_pending :: "nat \<Rightarrow> nat \<Rightarrow> nat \<Rightarrow> jit \<Rightarrow> jit option" where
  "wait_pending 0 rf c W = None"
| "wait_pending (Suc fuel) rf c W =
     (if ring_next PENDING_LEN (jc_ptail (j_cpus W c)) \<noteq> jc_phead (j_cpus W c) then Some W
      else do { W \<leftarrow> revalidate rf c W; wait_pending fuel rf c W })"

definition translate_needs_flush :: "tconf \<Rightarrow> jit_cpu \<Rightarrow> bool" where
  "translate_needs_flush T J \<longleftrightarrow>
     tc_code_end T - jc_code_ptr J < CODE_SLACK \<or> jc_nblocks J = tc_max_blocks T \<or>
     jc_nmeta J + JIT_MAX_BLOCK * 2 + 8 > jc_max_meta J"

text \<open>
  The state is that of the tables, the translator's registers and code, and the epoch. The result is
  the block made, if any.
\<close>

definition translate :: "nat \<Rightarrow> tconf \<Rightarrow> nat \<Rightarrow> u64 \<Rightarrow> jit \<times> trans \<times> u64 \<Rightarrow> (nat option \<times> jit \<times> trans \<times> u64) option" where
  "translate fuel T c start = (\<lambda>(W, X, ep).
     if start AND 7 \<noteq> 0 \<or> start + 24 > j_mem_size W then Some (None, W, X, ep)
     else do {
       let W = (if translate_needs_flush T (j_cpus W c) then on_cpu c flush W else W);
       let desc = match_copy (j_mem W) (j_dyn_map W) (j_mem_size W) start;
       let E = \<lparr>te_mem = j_mem W, te_dyn_map = j_dyn_map W, te_written = (\<lambda>_. False), te_mem_size = j_mem_size W,
                te_page_off = tc_page_off T\<rparr>;
       (n, wrt) \<leftarrow> scan_block fuel E (j_cpus W c) (desc \<noteq> None) start (if desc \<noteq> None then 19 else JIT_MAX_BLOCK) start 0 (\<lambda>_. False);
       let copy = (desc \<noteq> None \<and> n = 19);
       let E = E\<lparr>te_written := wrt\<rparr>;
       let hs = hoist_words E start n;
       let b = jc_nblocks (j_cpus W c);
       let J = (j_cpus W c)\<lparr>jc_nblocks := b + 1\<rparr>;
       (h, J) \<leftarrow> (case meta_alloc (length hs) J of (None, _) \<Rightarrow> None | (Some h, J) \<Rightarrow> Some (h, J));
       (d, J) \<leftarrow> (if \<not> copy then Some (None, J)
                 else case meta_alloc 7 J of (None, _) \<Rightarrow> None | (Some d, J) \<Rightarrow> Some (Some d, J));
       let B = \<lparr>jb_start = start, jb_n = 0, jb_entry = jc_code_ptr J, jb_inv_stub = 0, jb_incoming = [], jb_hoist = hs,
                jb_smask = (\<lambda>_. 0), jb_shash = 0x9e3779b97f4a7c15, jb_valid = True\<rparr>;
       (inv, B, M, X) \<leftarrow> block_code T E n d (B, j_maps W, X);
       let B = B\<lparr>jb_inv_stub := jc_code_ptr J + of_nat inv\<rparr>;
       let J = J\<lparr>jc_blocks := (jc_blocks J)(b := B), jc_code := put_code (jc_code_ptr J) (em_code X) (jc_code J),
                 jc_code_ptr := jc_code_ptr J + of_nat (length (em_code X)),
                 jc_htab := (jc_htab J)(hash start := b # jc_htab J (hash start))\<rparr>;
       W \<leftarrow> wait_pending fuel fuel c (W\<lparr>j_maps := M, j_cpus := (j_cpus W)(c := J)\<rparr>);
       let J = j_cpus W c;
       let J = J\<lparr>jc_pending := (jc_pending J)(jc_ptail J := (b, ep + 1)), jc_ptail := ring_next PENDING_LEN (jc_ptail J)\<rparr>;
       Some (Some b, W\<lparr>j_cpus := (j_cpus W)(c := J)\<rparr>, X, ep + 1)
     })"

end
