(* ===== verification/Translate_Grows.thy ===== *)
theory Translate_Grows
  imports Translate_Block Translate_Correct "HOL-Library.Sublist"
begin

text \<open>
  Translating only adds: code at its end, and exits to those recorded. What was run of a block up to
  an exit does not depend on the instructions translated later.
\<close>

section \<open>Adding\<close>

definition extends :: "trans \<Rightarrow> trans \<Rightarrow> bool" where
  "extends J J' \<longleftrightarrow> prefix (em_code J) (em_code J') \<and> prefix (t_stubs J) (t_stubs J') \<and> prefix (t_smcs J) (t_smcs J')"

lemma extends_refl [simp]: "extends J J"
  by (simp add: extends_def)

lemma extends_trans: "extends J J1 \<Longrightarrow> extends J1 J2 \<Longrightarrow> extends J J2"
  unfolding extends_def by (elim conjE, intro conjI) (erule (1) prefix_order.trans)+

text \<open>The form in which the simplifier chains what each function adds.\<close>

lemma extends_all: "extends K K' \<Longrightarrow> \<forall>J. extends J K \<longrightarrow> extends J K'"
  using extends_trans by blast

lemma extends_put [simp]: "extends J K \<Longrightarrow> extends J (put bs K)"
  by (auto simp: extends_def put_def)

lemma extends_emit [simp]:
  assumes "extends J K"
  shows "extends J (e8 v K)" "extends J (e32 w K)" "extends J (rex b0 r0 x0 b1 K)" "extends J (modrm_reg r0 b1 K)"
    "extends J (mem_operand r0 b1 d K)" "extends J (mov_rr a b K)" "extends J (mov_imm a x K)" "extends J (bswap a K)"
    "extends J (neg_r a K)" "extends J (op_mem c a b d K)" "extends J (movbe_mem st a b d K)" "extends J (or_rr a b K)"
    "extends J (and_rr a b K)" "extends J (sub_rr a b K)" "extends J (test_rr a b K)" "extends J (shl_ri a v K)"
    "extends J (shr_ri a v K)" "extends J (cmp_byte_zero a b d K)" "extends J (test_bitmap x K)"
    "extends J (snd (jcc32 v K))" "extends J (snd (jmp32 K))" "extends J (alu_imm v a w K)"
proof -
  note e = rex_def modrm_reg_def mem_operand_def e_put Let_def
  show "extends J (e8 v K)" "extends J (e32 w K)" "extends J (rex b0 r0 x0 b1 K)" "extends J (modrm_reg r0 b1 K)"
    "extends J (mem_operand r0 b1 d K)" "extends J (mov_rr a b K)" "extends J (mov_imm a x K)" "extends J (bswap a K)"
    "extends J (neg_r a K)" "extends J (op_mem c a b d K)" "extends J (movbe_mem st a b d K)" "extends J (or_rr a b K)"
    "extends J (and_rr a b K)" "extends J (sub_rr a b K)" "extends J (test_rr a b K)" "extends J (shl_ri a v K)"
    "extends J (shr_ri a v K)" "extends J (cmp_byte_zero a b d K)" "extends J (test_bitmap x K)"
    "extends J (snd (jcc32 v K))" "extends J (snd (jmp32 K))" "extends J (alu_imm v a w K)"
    using assms
    by (simp_all add: e mov_rr_def mov_imm_def bswap_def neg_r_def op_mem_def movbe_mem_def or_rr_def and_rr_def sub_rr_def
        test_rr_def shl_ri_def shr_ri_def cmp_byte_zero_def test_bitmap_def jcc32_def jmp32_def alu_imm_def)
qed

lemma extends_code [simp]:
  assumes "extends J K"
  shows "extends J (load_mem a b d K)" "extends J (load_static a x K)" "extends J (negate a K)"
  using assms by (simp_all add: load_mem_def load_static_def negate_def Let_def)

text \<open>What does not touch code or exits.\<close>

lemma extends_fields [simp]:
  "extends J (K\<lparr>t_regs := a\<rparr>) = extends J K" "extends J (K\<lparr>t_consts := b\<rparr>) = extends J K"
  "extends J (K\<lparr>t_aliases := c\<rparr>) = extends J K" "extends J (K\<lparr>t_pend := d\<rparr>) = extends J K"
  "extends J (K\<lparr>t_pend_addr := e\<rparr>) = extends J K" "extends J (K\<lparr>t_flags_live := f\<rparr>) = extends J K"
  "extends J (K\<lparr>t_lru_clock := g\<rparr>) = extends J K" "extends J (K\<lparr>t_const_next := h\<rparr>) = extends J K"
  "extends J (K\<lparr>t_alias_next := h\<rparr>) = extends J K"
  "extends (K\<lparr>t_regs := a\<rparr>) J = extends K J" "extends (K\<lparr>t_pend := d\<rparr>) J = extends K J"
  "extends (K\<lparr>t_flags_live := f\<rparr>) J = extends K J"
  by (simp_all add: extends_def)

lemma extends_upd [simp]: "extends J (upd_reg i f K) = extends J K" "extends (upd_reg i f K) J = extends K J"
  by (simp_all add: upd_reg_def)

lemma extends_cache [simp]:
  "extends J (touch i K) = extends J K" "extends J (pin r K) = extends J K" "extends J (unpin r K) = extends J K"
  "extends J (pin_val v K) = extends J K" "extends J (cache_drop a K) = extends J K" "extends J (cache_drop_all K) = extends J K"
  "extends J (snd (cache_find a K)) = extends J K" "extends J (set_const a c K) = extends J K"
  "extends J (bind_reg r a K) = extends J K" "extends J (unpin_all K) = extends J K"
proof -
  show t: "extends J (touch i K) = extends J K" for i K by (simp add: touch_def)
  show "extends J (pin r K) = extends J K" "extends J (unpin r K) = extends J K" for r
    by (simp_all add: pin_def unpin_def split: option.split)
  then show "extends J (pin_val v K) = extends J K" by (simp add: pin_val_def split: cval.split)
  show d: "extends J (cache_drop a K) = extends J K" "extends J (cache_drop_all K) = extends J K" for a K
    by (simp_all add: cache_drop_def cache_drop_all_def)
  show "extends J (snd (cache_find a K)) = extends J K"
    by (simp add: cache_find_def Let_def t split: option.split)
  show "extends J (set_const a c K) = extends J K" "extends J (bind_reg r a K) = extends J K"
    by (simp_all add: set_const_def bind_reg_def Let_def d t split: option.split)
  show "extends J (unpin_all K) = extends J K" by (simp add: unpin_all_def)
qed

lemma extends_find: "cache_find a K = (v, K') \<Longrightarrow> \<forall>J. extends J K \<longrightarrow> extends J K'"
  using extends_cache(7) [of _ a K] by simp

lemma extends_snap: "snap_pending K = (pd, K') \<Longrightarrow> \<forall>J. extends J K \<longrightarrow> extends J K'"
  by (auto simp: snap_pending_def split: if_splits prod.splits dest!: extends_find)

lemma extends_snap_snd [simp]: "extends J K \<Longrightarrow> extends J (snd (snap_pending K))"
  using extends_snap [of K "fst (snap_pending K)" "snd (snap_pending K)"] by simp

lemma extends_smcs [simp]: "extends J K \<Longrightarrow> extends J (K\<lparr>t_smcs := t_smcs K @ S\<rparr>)"
  and extends_stubs [simp]: "extends J K \<Longrightarrow> extends J (K\<lparr>t_stubs := t_stubs K @ T\<rparr>)"
  by (simp_all add: extends_def)

section \<open>The register cache\<close>

text \<open>Taking registers and flushing, from what the function called next does.\<close>

lemma release_extends:
  assumes "\<And>K K'. fl K = Some K' \<Longrightarrow> extends K K'" "release_with fl r K = Some K'"
  shows "extends K K'"
  using assms(2)
  by (auto simp: release_with_def Let_def split: bind_splits if_splits prod.splits option.splits
      dest!: assms(1) [THEN extends_all] extends_find)

lemma scratch_with_extends:
  assumes "\<And>r K K'. rel r K = Some K' \<Longrightarrow> extends K K'" "scratch_with rel K = Some (r, K')"
  shows "extends K K'"
  using assms(2)
  by (auto simp: scratch_with_def split: bind_splits option.splits dest!: assms(1))

text \<open>What the functions below ask of the one that takes registers.\<close>

locale register_taker =
  fixes sc :: "trans \<Rightarrow> (u8 \<times> trans) option"
  assumes sc: "sc K = Some (r, K') \<Longrightarrow> extends K K'"
begin

lemma to_reg_extends: "to_reg_with sc v K = Some (r, K') \<Longrightarrow> extends K K'"
  by (auto simp: to_reg_with_def split: bind_splits cval.splits dest!: sc [THEN extends_all])

lemma store_reg_extends: "store_reg_with sc r dyn a b K = Some K' \<Longrightarrow> extends K K'"
  by (auto simp: store_reg_with_def Let_def split: bind_splits if_splits dest!: sc [THEN extends_all])

lemma store_const_extends: "store_const_with sc c dyn a b K = Some K' \<Longrightarrow> extends K K'"
  by (auto simp: store_const_with_def Let_def split: bind_splits if_splits dest!: sc [THEN extends_all])

lemma flush_extends: "flush_with sc K = Some K' \<Longrightarrow> extends K K'"
  by (auto simp: flush_with_def Let_def split: bind_splits if_splits prod.splits cval.splits option.splits
      dest!: extends_find store_const_extends [THEN extends_all] store_reg_extends [THEN extends_all]
        to_reg_extends [THEN extends_all])

end

interpretation idle_taker: register_taker scratch_idle
  unfolding scratch_idle_def by unfold_locales (rule scratch_with_extends [OF release_extends], simp_all)

lemma flush_pending_extends: "flush_pending K = Some K' \<Longrightarrow> extends K K'"
  unfolding flush_pending_def by (rule idle_taker.flush_extends)

interpretation taker: register_taker scratch
  unfolding scratch_def release_def by unfold_locales (rule scratch_with_extends [OF release_extends [OF flush_pending_extends]])

lemma take_extends_any:
  "scratch K = Some (r, K') \<Longrightarrow> extends K K'" "to_reg v K = Some (r, K') \<Longrightarrow> extends K K'"
  "store_reg q dyn a b K = Some K' \<Longrightarrow> extends K K'" "store_const c dyn a b K = Some K' \<Longrightarrow> extends K K'"
  unfolding to_reg_def store_reg_def store_const_def
  by (rule taker.sc taker.to_reg_extends taker.store_reg_extends taker.store_const_extends, assumption)+

lemmas take_extends = take_extends_any [THEN extends_all] flush_pending_extends [THEN extends_all]

lemma set_alias_extends: "set_alias a r neg K = Some K' \<Longrightarrow> extends K K'"
  by (auto simp: set_alias_def Let_def split: bind_splits if_splits option.splits dest!: take_extends)

lemma or_val_extends: "or_val r v K = Some K' \<Longrightarrow> extends K K'"
  by (auto simp: or_val_def Let_def split: bind_splits if_splits cval.splits dest!: take_extends)

lemma shifted_extends: "shifted v left n K = Some (x, K') \<Longrightarrow> extends K K'"
  by (auto simp: shifted_def Let_def split: bind_splits if_splits cval.splits dest!: take_extends)

lemma and_imm64_extends: "and_imm64 r k K = Some K' \<Longrightarrow> extends K K'"
  by (auto simp: and_imm64_def Let_def split: bind_splits if_splits dest!: take_extends)

lemma get_word_extends: "get_word a K = Some (v, K') \<Longrightarrow> extends K K'"
  by (auto simp: get_word_def Let_def split: bind_splits if_splits prod.splits dest!: take_extends extends_find)

lemmas value_extends =
  set_alias_extends [THEN extends_all] or_val_extends [THEN extends_all] shifted_extends [THEN extends_all]
  and_imm64_extends [THEN extends_all] get_word_extends [THEN extends_all]

lemma get_static_extends: "get_static a K = Some (v, K') \<Longrightarrow> extends K K'"
  by (auto simp: get_static_def Let_def split: bind_splits if_splits prod.splits cval.splits
      dest!: value_extends extends_find)

section \<open>The instruction\<close>

lemma check_words_extends: "extends K (check_words B i ws K)"
proof -
  have "extends J K \<Longrightarrow> extends J (check_word i w K)" for J K w
    by (simp add: check_word_def Let_def split_beta)
  then have "extends J K \<Longrightarrow> extends J (fold (\<lambda>w J. if hoisted B w then J else check_word i w J) ws K)" for J K
    by (induction ws arbitrary: K) auto
  then show ?thesis by (simp add: check_words_def)
qed

lemma check_dynamic_extends: "check_dynamic E i p v K = Some (rb, K') \<Longrightarrow> extends K K'"
  by (auto simp: check_dynamic_def Let_def split_beta split: bind_splits if_splits dest!: take_extends)

lemma operand_extends:
  "pointer_reg v p K = Some (r, K') \<Longrightarrow> extends K K'" "load_pointed r K = Some (x, K') \<Longrightarrow> extends K K'"
  "dynamic_c f p K = Some (rc, K') \<Longrightarrow> extends K K'"
  by (auto simp: pointer_reg_def load_pointed_def dynamic_c_def Let_def split: bind_splits if_splits prod.splits
      dest!: take_extends)

lemmas fetch_extends = operand_extends [THEN extends_all] get_static_extends [THEN extends_all]

lemma operand_ab_extends:
  "operand_a f p K = Some (v, K') \<Longrightarrow> extends K K'" "operand_b f rb K = Some (v, K') \<Longrightarrow> extends K K'"
  by (auto simp: operand_a_def operand_b_def split: bind_splits if_splits prod.splits dest!: fetch_extends)

lemma copy_val_extends: "copy_val v K = Some (r, K') \<Longrightarrow> extends K K'"
  by (auto simp: copy_val_def split: bind_splits cval.splits dest!: take_extends)

lemma sub_value_extends: "sub_value va vb dynb fb K = Some (v, K') \<Longrightarrow> extends K K'"
  by (auto simp: sub_value_def Let_def split: bind_splits if_splits cval.splits
      dest!: take_extends copy_val_extends [THEN extends_all])

lemma add_value_extends: "add_value ra vb dynb fb K = Some (v, K') \<Longrightarrow> extends K K'"
  by (auto simp: add_value_def Let_def split: bind_splits if_splits cval.splits
      dest!: take_extends copy_val_extends [THEN extends_all])

lemma compute_extends: "compute same va vb branch dynb fb K = Some (res, taken, unchanged, K') \<Longrightarrow> extends K K'"
  by (auto simp: compute_def split: bind_splits if_splits cval.splits
      dest!: take_extends sub_value_extends [THEN extends_all] add_value_extends [THEN extends_all])

lemma store_result_extends: "store_result res unchanged pendable dynb fb rb K = Some (v, K') \<Longrightarrow> extends K K'"
  by (auto simp: store_result_def split: bind_splits if_splits cval.splits dest!: take_extends)

lemma cache_result_extends: "cache_result res unchanged pendable dynb fb K = Some (sp, K') \<Longrightarrow> extends K K'"
  by (auto simp: cache_result_def Let_def split: bind_splits if_splits cval.splits option.splits dest!: value_extends)

lemma masked_or_extends: "masked_or w k part K = Some (v, K') \<Longrightarrow> extends K K'"
  by (auto simp: masked_or_def Let_def split: bind_splits if_splits cval.splits dest!: value_extends take_extends)

lemma update_word_extends: "update_word wv w k v left n K = Some K' \<Longrightarrow> extends K K'"
  by (auto simp: update_word_def split: bind_splits if_splits cval.splits
      dest!: value_extends masked_or_extends [THEN extends_all])

lemma update_spanned_extends: "update_spanned a v K = Some K' \<Longrightarrow> extends K K'"
  by (auto simp: update_spanned_def Let_def split: bind_splits prod.splits
      dest!: update_word_extends [THEN extends_all] extends_find)

lemma emit_branch_extends: "emit_branch f rc taken p i K = (ended, K') \<Longrightarrow> extends K K'"
  by (auto simp: emit_branch_def Let_def split_beta split: if_splits)

lemma field_val_extends: "field_val E start a K = (f, K') \<Longrightarrow> \<forall>J. extends J K \<longrightarrow> extends J K'"
  by (auto simp: field_val_def Let_def split: if_splits prod.splits cval.splits dest!: extends_find)

lemma settle_extends: "settle same va vb branch dynb fb rb K = Some (res, taken, spanned, K') \<Longrightarrow> extends K K'"
  unfolding settle_def Let_def
  by (auto split: bind_splits if_splits dest!: take_extends compute_extends [THEN extends_all]
      store_result_extends [THEN extends_all] cache_result_extends [THEN extends_all])

lemma run_insn_extends:
  assumes "run_insn fA fB fC rb p i K = Some (ended, K')"
  shows "extends K K'"
proof -
  obtain dyna fa fav dynb fb fbv dync fc fcv where f: "fA = (dyna, fa, fav)" "fB = (dynb, fb, fbv)" "fC = (dync, fc, fcv)"
    by (metis prod_cases3)
  show ?thesis
    using assms unfolding f
    by (rule run_insnE) (auto split: if_splits
      dest!: operand_ab_extends [THEN extends_all] fetch_extends settle_extends [THEN extends_all]
        emit_branch_extends [THEN extends_all] update_spanned_extends [THEN extends_all])
qed

lemma translate_code_extends:
  assumes "translate_code E B p i K = Some (ended, K')"
  shows "extends K K'"
  using assms
  by (rule translate_codeE)
    (auto split: if_splits dest!: field_val_extends check_dynamic_extends [THEN extends_all] run_insn_extends [THEN extends_all]
      simp: check_words_extends [THEN extends_all, rule_format])

end
