(* ===== verification/Block_Correct.thy ===== *)
theory Block_Correct
  imports Translate_Grows Jit_Links
begin

text \<open>
  The code of a block: the instructions one after the other do what the machine does from the
  block's start, up to the exit taken, and no store they make changes what the code was made from.
\<close>

section \<open>What the code of a block relies on\<close>

abbreviation insn_at :: "jit_block \<Rightarrow> nat \<Rightarrow> u64" where
  "insn_at B i \<equiv> jb_start B + 24 * of_nat i"

text \<open>The maps, at \<open>base\<close> and \<open>te_page_off\<close> after it, are outside guest memory.\<close>

definition maps_apart :: "tenv \<Rightarrow> u64 \<Rightarrow> bool" where
  "maps_apart E base \<longleftrightarrow>
     (\<forall>w. w < drop_bit 3 (te_mem_size E) \<longrightarrow> te_mem_size E \<le> word_byte base w) \<and>
     (\<forall>b. unat b + 8 \<le> unat (te_mem_size E) \<longrightarrow> te_mem_size E \<le> page_byte E base b)"

text \<open>The words a store reaches.\<close>

definition store_hits :: "u64 \<Rightarrow> u64 \<Rightarrow> bool" where
  "store_hits b w \<longleftrightarrow> w = drop_bit 3 b \<or> w = drop_bit 3 (b + 7)"

text \<open>
  The static fields of the first \<open>n\<close> instructions are in memory as they were when translated and are
  marked, words and pages; the words checked on entry are not.
\<close>

definition block_env :: "tenv \<Rightarrow> jit_block \<Rightarrow> nat \<Rightarrow> u64 \<Rightarrow> mem \<Rightarrow> bool" where
  "block_env E B n base g \<longleftrightarrow>
     (\<forall>f<3 * n. \<not> is_dynamic E (jb_start B + 8 * of_nat f) (jb_start B) \<longrightarrow>
        rd (te_mem E) (jb_start B + 8 * of_nat f) = rd g (jb_start B + 8 * of_nat f) \<and>
        word_flagged g base (field_word B f) \<and>
        (\<forall>b. unat b + 8 \<le> unat (te_mem_size E) \<and> store_hits b (field_word B f) \<longrightarrow> g (page_byte E base b) \<noteq> 0)) \<and>
     (\<forall>w\<in>set (jb_hoist B). w < drop_bit 3 (te_mem_size E) \<and> \<not> word_flagged g base w)"

text \<open>
  The run of the machine from \<open>p\<close>, as far as it goes from one of the \<open>n\<close> instructions to the next,
  stores to guest memory, and never to a C that is read at run time.
\<close>

primrec stores_ok :: "tenv \<Rightarrow> jit_block \<Rightarrow> nat \<Rightarrow> mem \<Rightarrow> u64 \<Rightarrow> bool" where
  "stores_ok E B 0 g p = True"
| "stores_ok E B (Suc n) g p =
     (unat (rd g (p + 8)) + 8 \<le> unat (te_mem_size E) \<and>
      (is_dynamic E (p + 16) (jb_start B) \<longrightarrow> rd g (p + 8) \<noteq> p + 16) \<and>
      (snd (subleq_step (g, p)) = p + 24 \<longrightarrow> stores_ok E B n (fst (subleq_step (g, p))) (p + 24)))"

section \<open>Stores keep it\<close>

text \<open>The block lies in guest memory, which is whole words.\<close>

definition block_range :: "tenv \<Rightarrow> jit_block \<Rightarrow> nat \<Rightarrow> bool" where
  "block_range E B n \<longleftrightarrow>
     in_memory (te_mem_size E) (B\<lparr>jb_n := n\<rparr>) \<and> unat (te_mem_size E) \<le> 2 ^ 63 \<and> unat (te_mem_size E) mod 8 = 0"

lemma field_facts:
  assumes "block_range E B n" "f < 3 * n"
  shows "8 * unat (field_word B f) = unat (jb_start B) + 8 * f" "field_word B f < drop_bit 3 (te_mem_size E)"
    "jb_start B + 8 * of_nat f = push_bit 3 (field_word B f)"
  using field_word_unat [of "te_mem_size E" "B\<lparr>jb_n := n\<rparr>" f] assms by (simp_all add: field_word_def block_range_def)

lemma field_small: "block_range E B n \<Longrightarrow> f < 3 * n \<Longrightarrow> unat (field_word B f) < 2 ^ 61"
  using field_facts(1) [of E B n f] by (simp add: in_memory_def block_range_def)

text \<open>A byte of a map is no byte of a store to guest memory.\<close>

lemma outside_store: "unat b + 8 \<le> unat (te_mem_size E) \<Longrightarrow> te_mem_size E \<le> x \<Longrightarrow> \<not> x - b < 8"
  by (simp add: word_less_nat_alt word_le_nat_alt unat_sub_if')

lemma word_flagged_store:
  assumes "maps_apart E base" "unat b + 8 \<le> unat (te_mem_size E)" "w < drop_bit 3 (te_mem_size E)"
  shows "word_flagged (wr g b v) base w = word_flagged g base w"
  using outside_store [OF assms(2)] assms(1,3) by (simp add: word_flagged_def maps_apart_def dawn_writeram_outside)

lemma page_store:
  assumes "maps_apart E base" "unat b + 8 \<le> unat (te_mem_size E)" "unat c + 8 \<le> unat (te_mem_size E)"
  shows "wr g b v (page_byte E base c) = g (page_byte E base c)"
  using outside_store [OF assms(2)] assms(1,3) by (simp add: maps_apart_def dawn_writeram_outside)

lemma env_store:
  assumes "block_range E B n" "maps_apart E base" "block_env E B n base g" "unat b + 8 \<le> unat (te_mem_size E)"
    and "\<And>f. f < 3 * n \<Longrightarrow> \<not> is_dynamic E (jb_start B + 8 * of_nat f) (jb_start B) \<Longrightarrow> \<not> store_hits b (field_word B f)"
  shows "block_env E B n base (wr g b v)"
proof -
  have r: "rd (wr g b v) (jb_start B + 8 * of_nat f) = rd g (jb_start B + 8 * of_nat f)"
    if "f < 3 * n" "\<not> is_dynamic E (jb_start B + 8 * of_nat f) (jb_start B)" for f
    unfolding field_facts(3) [OF assms(1) that(1)]
    using store_words [OF field_small [OF assms(1) that(1)], of b] assms(5) [OF that] by (simp add: store_hits_def mem_simps)
  show ?thesis
    using assms(3) r unfolding block_env_def
    by (auto simp: word_flagged_store [OF assms(2,4)] page_store [OF assms(2,4)] field_facts(2) [OF assms(1)])
qed

text \<open>What a check that finds nothing says of the static fields.\<close>

lemma target_hit:
  assumes "unat (te_mem_size E) mod 8 = 0" "unat b + 8 \<le> unat (te_mem_size E)" "store_hits b w"
  shows "w \<in> set (target_words E b)"
proof -
  have u: "unat (b + 7) = unat b + 7" using assms(2) unat_u64_bound [of "te_mem_size E"] by (subst unat_add_of_nat [of b 7, simplified]) auto
  have d: "unat (drop_bit 3 x) = unat x div 8" for x :: u64 by (rule unat_shr_3)
  have lt: "drop_bit 3 b < drop_bit 3 (te_mem_size E)" "drop_bit 3 (b + 7) < drop_bit 3 (te_mem_size E)"
    "drop_bit 3 b \<le> drop_bit 3 (b + 7)"
  proof -
    obtain m where m: "unat (te_mem_size E) = 8 * m" using assms(1) by auto
    then show "drop_bit 3 b < drop_bit 3 (te_mem_size E)" "drop_bit 3 (b + 7) < drop_bit 3 (te_mem_size E)"
      "drop_bit 3 b \<le> drop_bit 3 (b + 7)"
      using assms(2) by (simp_all add: word_less_nat_alt word_le_nat_alt d u div_le_mono div_less_iff_less_mult)
  qed
  have "drop_bit 3 (b + 7) = drop_bit 3 b \<or> drop_bit 3 (b + 7) = drop_bit 3 b + 1"
  proof -
    have "unat (drop_bit 3 b + 1) = unat b div 8 + 1"
      using unat_u64_bound [of b] by (subst unat_add_of_nat [of _ 1, simplified]) (simp_all add: d)
    moreover have "(unat b + 7) div 8 \<le> (unat b + 8) div 8" "unat b div 8 \<le> (unat b + 7) div 8" by (simp_all add: div_le_mono)
    ultimately show ?thesis by (auto simp: word_unat_eq_iff d u)
  qed
  then show ?thesis using assms(3) lt by (auto simp: target_words_def store_hits_def)
qed

lemma unflagged_fields:
  assumes "unat (te_mem_size E) mod 8 = 0"
    and "block_env E B n base g" "unat b + 8 \<le> unat (te_mem_size E)" "\<not> flagged E B g base d b"
    and "f < 3 * n" "\<not> is_dynamic E (jb_start B + 8 * of_nat f) (jb_start B)"
  shows "\<not> store_hits b (field_word B f)"
proof
  assume h: "store_hits b (field_word B f)"
  have fl: "word_flagged g base (field_word B f)" and pg: "g (page_byte E base b) \<noteq> 0"
    using assms(2,3,5,6) h by (simp_all add: block_env_def)
  show False
  proof (cases d)
    case True
    then show ?thesis using assms(4) pg by (simp add: flagged_def)
  next
    case False
    then have "hoisted B (field_word B f)" using assms(4) fl target_hit [OF assms(1,3) h] by (auto simp: flagged_def)
    then show ?thesis using assms(2) fl by (auto simp: block_env_def hoisted_def)
  qed
qed

lemma unflagged_words:
  assumes "block_env E B n base g" "\<not> (\<exists>w. store_hits b w \<and> word_flagged g base w)"
    and "f < 3 * n" "\<not> is_dynamic E (jb_start B + 8 * of_nat f) (jb_start B)"
  shows "\<not> store_hits b (field_word B f)"
  using assms by (auto simp: block_env_def)

lemma env_fields:
  assumes "block_env E B n base g" "i < n" "a \<in> {insn_at B i, insn_at B i + 8, insn_at B i + 16}"
    and "\<not> is_dynamic E a (jb_start B)"
  shows "rd (te_mem E) a = rd g a"
proof -
  have e: "insn_at B i + 8 * of_nat k = jb_start B + 8 * of_nat (3 * i + k)" for k by (simp add: distrib_left)
  have "a = insn_at B i + 8 * of_nat 0 \<or> a = insn_at B i + 8 * of_nat 1 \<or> a = insn_at B i + 8 * of_nat 2"
    using assms(3) by simp
  then have "\<exists>k<3. a = jb_start B + 8 * of_nat (3 * i + k)" unfolding e by (auto intro: exI [of _ 0] exI [of _ 1] exI [of _ 2] simp del: of_nat_add)
  then obtain k where "k < 3" "a = jb_start B + 8 * of_nat (3 * i + k)" by blast
  then obtain f where "f < 3 * n" "a = jb_start B + 8 * of_nat f" using assms(2) by (intro that [of "3 * i + k"]) simp_all
  then show ?thesis using assms(1,4) by (simp add: block_env_def)
qed

lemma insn_aligned:
  assumes "block_range E B n" "i < n"
  shows "insn_at B i AND 7 = 0"
proof -
  have "insn_at B i = push_bit 3 (field_word B (3 * i))"
    using field_facts(3) [OF assms(1), of "3 * i"] assms(2) by simp
  then show ?thesis using unat_word_addr [of "field_word B (3 * i)"] field_small [OF assms(1), of "3 * i"] assms(2)
    by (simp add: aligned8_iff)
qed

section \<open>Leaving a block\<close>

text \<open>
  How the code \<open>J\<close> of a block of \<open>n\<close> instructions, entered with the registers of \<open>M0\<close>, may leave by
  the jump at \<open>s\<close>, from before instruction \<open>i\<close> with memory \<open>g\<close>: past the last instruction; with the
  store of instruction \<open>i\<close> refused, because of a word or because of its page, in which case the code
  can go on at \<open>back\<close> should the words turn out clear; or from its branch.
\<close>

definition part_run :: "trans \<Rightarrow> trans \<Rightarrow> mach \<Rightarrow> nat \<Rightarrow> mach \<Rightarrow> bool" where
  "part_run J J' M s N \<longleftrightarrow> (\<exists>J1. code_run J J1 M (Leaves s N) \<and> extends J1 J')"

inductive block_exit :: "tenv \<Rightarrow> jit_block \<Rightarrow> u64 \<Rightarrow> nat \<Rightarrow> trans \<Rightarrow> mach \<Rightarrow> nat \<Rightarrow> mem \<Rightarrow> nat \<Rightarrow> mach \<Rightarrow> bool"
  and insn_exit :: "tenv \<Rightarrow> jit_block \<Rightarrow> u64 \<Rightarrow> nat \<Rightarrow> trans \<Rightarrow> mach \<Rightarrow> nat \<Rightarrow> mem \<Rightarrow> nat \<Rightarrow> mach \<Rightarrow> bool"
  for E B base n J M0 where
  block_end: "branch_exit J g (n - 1) (insn_at B n) s N \<Longrightarrow> fixed M0 N \<Longrightarrow> block_exit E B base n J M0 n g s N"
| refused_word:
    "i < n \<Longrightarrow> flagged E B g base d (rd g (insn_at B i + 8)) \<Longrightarrow> S \<in> set (t_smcs J) \<Longrightarrow> sm_precise S = None \<Longrightarrow>
     sm_site S = s \<Longrightarrow> sm_idx S = i \<Longrightarrow> pend_mem (sm_pend S) N = g \<Longrightarrow> fixed M0 N \<Longrightarrow>
     block_exit E B base n J M0 i g s N"
| refused_page:
    "i < n \<Longrightarrow> flagged E B g base d b \<Longrightarrow> S \<in> set (t_smcs J) \<Longrightarrow> sm_precise S = Some (rb, t1, t2, back) \<Longrightarrow>
     sm_site S = s \<Longrightarrow> sm_idx S = i \<Longrightarrow> pend_mem (sm_pend S) N = g \<Longrightarrow> fixed M0 N \<Longrightarrow>
     b = rd g (insn_at B i + 8) \<Longrightarrow> xr N rb = b \<Longrightarrow>
     (\<not> (\<exists>w. store_hits b w \<and> word_flagged g base w) \<Longrightarrow>
      (\<forall>N'. xmem N' = xmem N \<and> (\<forall>r. r \<noteq> t1 \<and> r \<noteq> t2 \<longrightarrow> xr N' r = xr N r) \<longrightarrow>
         (\<exists>J1 s' N''. length (em_code J1) = back \<and> part_run J1 J N' s' N'' \<and> insn_exit E B base n J M0 i g s' N''))) \<Longrightarrow>
     block_exit E B base n J M0 i g s N"
| passed:
    "i < n \<Longrightarrow> \<not> flagged E B g base d (rd g (insn_at B i + 8)) \<Longrightarrow>
     (d \<longrightarrow> is_dynamic E (insn_at B i + 8) (jb_start B)) \<Longrightarrow> insn_exit E B base n J M0 i g s N \<Longrightarrow>
     block_exit E B base n J M0 i g s N"
| branched:
    "subleq_step (g, insn_at B i) = (g', q) \<Longrightarrow> branch_exit J g' i q s N \<Longrightarrow> fixed M0 N \<Longrightarrow>
     insn_exit E B base n J M0 i g s N"
| went_on:
    "subleq_step (g, insn_at B i) = (g', insn_at B (Suc i)) \<Longrightarrow> block_exit E B base n J M0 (Suc i) g' s N \<Longrightarrow>
     insn_exit E B base n J M0 i g s N"

section \<open>The instructions one after the other\<close>

lemma translate_code_cong:
  "jb_start B' = jb_start B \<Longrightarrow> jb_hoist B' = jb_hoist B \<Longrightarrow> translate_code E B' p i J = translate_code E B p i J"
proof -
  assume a: "jb_start B' = jb_start B" "jb_hoist B' = jb_hoist B"
  then have "hoisted B' = hoisted B" by (simp add: hoisted_def fun_eq_iff)
  then have "check_static E B' = check_static E B" by (simp add: check_static_def fun_eq_iff)
  then show ?thesis by (simp only: translate_code_def a(1))
qed

lemma mark_fields_block:
  "jb_start (fst (mark_fields E p i (B, M))) = jb_start B \<and> jb_hoist (fst (mark_fields E p i (B, M))) = jb_hoist B"
proof -
  have "jb_start (fst (mark_field E p i f S)) = jb_start (fst S) \<and> jb_hoist (fst (mark_field E p i f S)) = jb_hoist (fst S)" for f S
    by (simp add: mark_field_def split_beta Let_def)
  then have "jb_start (fst (fold (mark_field E p i) fs S)) = jb_start (fst S) \<and>
      jb_hoist (fst (fold (mark_field E p i) fs S)) = jb_hoist (fst S)" for fs S
    by (induction fs arbitrary: S) auto
  then show ?thesis by (simp add: mark_fields_def)
qed

lemma translate_insns_ConsE:
  assumes "translate_insns E start (i # is) (B, Mp, J) = Some (ended, k, B', Mp', J')"
  obtains e1 J1 B1 Mp1 where "translate_code E B (start + 24 * of_nat i) i J = Some (e1, J1)"
    "jb_start B1 = jb_start B" "jb_hoist B1 = jb_hoist B"
    "e1 \<longrightarrow> ended \<and> k = 1 \<and> J' = J1"
    "\<not> e1 \<longrightarrow> (\<exists>k'. k = Suc k' \<and> translate_insns E start is (B1, Mp1, J1) = Some (ended, k', B', Mp', J'))"
proof -
  obtain B1 Mp1 where m: "mark_fields E (start + 24 * of_nat i) i (B, Mp) = (B1, Mp1)" by fastforce
  then have b: "jb_start B1 = jb_start B" "jb_hoist B1 = jb_hoist B" using mark_fields_block [of E _ i B Mp] by (metis fst_conv)+
  show thesis
    using assms m
    by (auto simp: translate_insn_def split: bind_splits if_splits intro!: that [OF _ b])
qed

lemma translate_insns_extends:
  "translate_insns E start is (B, Mp, J) = Some (ended, k, B', Mp', J') \<Longrightarrow> extends J J'"
proof (induction "is" arbitrary: B Mp J k)
  case (Cons i "is")
  show ?case using Cons.prems
  proof (rule translate_insns_ConsE)
    fix e1 J1 B1 Mp1
    assume a: "translate_code E B (start + 24 * of_nat i) i J = Some (e1, J1)" "e1 \<longrightarrow> ended \<and> k = 1 \<and> J' = J1"
      "\<not> e1 \<longrightarrow> (\<exists>k'. k = Suc k' \<and> translate_insns E start is (B1, Mp1, J1) = Some (ended, k', B', Mp', J'))"
    show "extends J J'"
      using translate_code_extends [OF a(1)] a(2,3) Cons.IH [of B1 Mp1 J1] extends_trans by (cases e1) blast+
  qed
qed simp

lemma emit_end_extends: "extends J (emit_end start n J)"
  by (simp add: emit_end_def Let_def split_beta)

lemma emit_end_spec:
  assumes "sim J M g"
  shows "\<exists>s. code_run J (emit_end start n J) M (Leaves s M) \<and> branch_exit (emit_end start n J) g (n - 1) (start + 24 * of_nat n) s M"
proof -
  obtain pd J1 where sn: "snap_pending J = (pd, J1)" by fastforce
  note p = snap_pending_spec [OF assms sn]
  have "code_run J (emit_end start n J) M (Leaves (fst (jmp32 J1)) M)"
    using code_run_jmp [of J1 M] p(4) by (simp add: emit_end_def sn split_beta Let_def code_run_def)
  moreover have "branch_exit (emit_end start n J) g (n - 1) (start + 24 * of_nat n) (fst (jmp32 J1)) M"
    using p(6) by (simp add: branch_exit_def emit_end_def sn split_beta Let_def)
  ultimately show ?thesis by blast
qed

lemma part_run_trans: "code_run J J1 M (Through M1) \<Longrightarrow> part_run J1 J' M1 s N \<Longrightarrow> part_run J J' M s N"
  unfolding part_run_def using code_run_trans by blast

lemma branch_exit_extends: "branch_exit J g i q s N \<Longrightarrow> extends J J' \<Longrightarrow> branch_exit J' g i q s N"
  by (auto simp: extends_def elim!: prefixE intro: branch_exit_mono)

lemma smcs_extends: "S \<in> set (t_smcs J) \<Longrightarrow> extends J J' \<Longrightarrow> S \<in> set (t_smcs J')"
  by (auto simp: extends_def elim!: prefixE)

lemma flag_bytes_outside:
  assumes "maps_apart E base" "unat b + 8 \<le> unat (te_mem_size E)" "x \<in> flag_bytes E base d b"
  shows "te_mem_size E \<le> x"
  using assms by (auto simp: flag_bytes_def maps_apart_def target_words_def dest: set_takeWhileD split: if_splits)

definition pend_in :: "tenv \<Rightarrow> trans \<Rightarrow> bool" where
  "pend_in E J \<longleftrightarrow> (t_pend J \<longrightarrow> unat (t_pend_addr J) + 8 \<le> unat (te_mem_size E))"

lemma subleq_step_mem: "fst (subleq_step (g, p)) = wr g (rd g (p + 8)) (rd g (rd g (p + 8)) - rd g (rd g p))"
  by (simp add: subleq_step_def Let_def)

lemma insn_spec:
  assumes "translate_code E B (insn_at B i) i J = Some (ended, J')" "sim J M g" "\<not> t_flags_live J"
    and "block_range E B n" "maps_apart E (xr M R14)" "block_env E B n (xr M R14) g" "i < n"
    and "stores_ok E B (Suc k) g (insn_at B i)" "pend_in E J"
  defines "p \<equiv> insn_at B i" defines "b \<equiv> rd g (p + 8)" and "st \<equiv> subleq_step (g, p)"
  shows "\<exists>R dynb. code_run J J' M R \<and> (dynb \<longrightarrow> is_dynamic E (p + 8) (jb_start B)) \<and>
    (if flagged E B g (xr M R14) dynb b then insn_refused J' ended i p M g R else insn_done J' ended i p M st R) \<and>
    \<not> t_flags_live J' \<and> pend_in E J' \<and> (ended \<or> (\<exists>N. sim J' N (fst st) \<and> fixed M N))"
proof -
  have b: "unat b + 8 \<le> unat (te_mem_size E)" "is_dynamic E (p + 16) (jb_start B) \<Longrightarrow> b \<noteq> p + 16"
    using assms(8) by (auto simp: b_def p_def)
  have fl: "\<not> x - t_pend_addr J < 8" if "t_pend J" "x \<in> flag_bytes E (xr M R14) d b" for x d
    using outside_store [OF _ flag_bytes_outside [OF assms(5) b(1) that(2)]] assms(9) that(1) by (simp add: pend_in_def)
  have "\<exists>R dynb. code_run J J' M R \<and> (dynb \<longrightarrow> is_dynamic E (p + 8) (jb_start B)) \<and>
    (if flagged E B g (xr M R14) dynb b then insn_refused J' ended i p M g R else insn_done J' ended i p M st R) \<and>
    \<not> t_flags_live J' \<and> grows J J' \<and> pend_from J J' b \<and> (ended \<or> (\<exists>N. sim J' N (fst st) \<and> fixed M N))"
    unfolding b_def st_def
  proof (rule translate_code_spec [OF assms(1-3)[folded p_def]])
    show "p AND 7 = 0" unfolding p_def by (rule insn_aligned [OF assms(4,7)])
    show "rd (te_mem E) a = rd g a" if "a \<in> {p, p + 8, p + 16}" "\<not> is_dynamic E a (jb_start B)" for a
      using env_fields [OF assms(6,7)] that unfolding p_def by blast
    show "rd g (p + 8) \<noteq> p + 16" if "is_dynamic E (p + 16) (jb_start B)" using b(2) [OF that] unfolding b_def .
    show "\<not> x - t_pend_addr J < 8" if "t_pend J" "x \<in> flag_bytes E (xr M R14) d (rd g (p + 8))" for d x
      using fl that unfolding b_def by blast
  qed
  then obtain R dynb where r: "code_run J J' M R" "dynb \<longrightarrow> is_dynamic E (p + 8) (jb_start B)"
    "if flagged E B g (xr M R14) dynb b then insn_refused J' ended i p M g R else insn_done J' ended i p M st R"
    "\<not> t_flags_live J'" "pend_from J J' b" "ended \<or> (\<exists>N. sim J' N (fst st) \<and> fixed M N)" by blast
  have "pend_in E J'" using r(5) b(1) assms(9) by (auto simp: pend_from_def pend_in_def)
  then show ?thesis using r by blast
qed

lemma translate_insns_run:
  assumes "translate_insns E (jb_start B) [i..<m] (B1, Mp, J) = Some (ended, k, B', Mp', J')" "n = i + k" "i < m"
    and "jb_start B1 = jb_start B" "jb_hoist B1 = jb_hoist B"
    and "sim J M g" "\<not> t_flags_live J" "pend_in E J" "fixed M0 M"
    and "block_range E B n" "maps_apart E (xr M0 R14)" "block_env E B n (xr M0 R14) g" "stores_ok E B k g (insn_at B i)"
  defines "F \<equiv> if ended then J' else emit_end (jb_start B) n J'"
  shows "\<exists>s N. part_run J F M s N \<and> block_exit E B (xr M0 R14) n F M0 i g s N"
  using assms(1-9,12,13)
proof (induction "m - i" arbitrary: i B1 Mp J M g k)
  case (Suc d)
  let ?p = "insn_at B i" and ?base = "xr M0 R14"
  note hyp = Suc.prems
  have r14: "xr M R14 = ?base" using hyp(9) by (simp add: fixed_def)
  obtain e1 J1 B2 Mp1 where c: "translate_code E B1 ?p i J = Some (e1, J1)" "jb_start B2 = jb_start B1" "jb_hoist B2 = jb_hoist B1"
    "e1 \<longrightarrow> ended \<and> k = 1 \<and> J' = J1"
    "\<not> e1 \<longrightarrow> (\<exists>k'. k = Suc k' \<and> translate_insns E (jb_start B) [Suc i..<m] (B2, Mp1, J1) = Some (ended, k', B', Mp', J'))"
    using translate_insns_ConsE hyp(1) unfolding upt_conv_Cons [OF hyp(3)] by blast
  have code: "translate_code E B ?p i J = Some (e1, J1)" using c(1) translate_code_cong [OF hyp(4,5)] by simp
  obtain k' where k: "k = Suc k'" using c(4,5) by (cases e1) auto
  then have i: "i < n" using hyp(2) by simp
  have extF: "extends J1 F"
    using c(4,5) translate_insns_extends extends_trans emit_end_extends unfolding F_def by (cases e1) (auto, blast+)
  have so: "stores_ok E B (Suc k') g ?p" using hyp(11) k by simp
  define b where "b = rd g (?p + 8)"
  obtain g' q where st: "subleq_step (g, ?p) = (g', q)" by fastforce
  have g': "g' = wr g b (b' - a')" if "b' = rd g b" "a' = rd g (rd g ?p)" for a' b'
    using subleq_step_mem [of g ?p] st that by (simp add: b_def)
  note env = hyp(10)
  have "\<exists>R dynb. code_run J J1 M R \<and> (dynb \<longrightarrow> is_dynamic E (?p + 8) (jb_start B)) \<and>
    (if flagged E B g ?base dynb b then insn_refused J1 e1 i ?p M g R else insn_done J1 e1 i ?p M (g', q) R) \<and>
    \<not> t_flags_live J1 \<and> pend_in E J1 \<and> (e1 \<or> (\<exists>N. sim J1 N g' \<and> fixed M N))"
    using insn_spec [OF code hyp(6,7) assms(10) assms(11) [folded r14] env [folded r14] i so hyp(8)]
    unfolding r14 b_def st fst_conv .
  then obtain R dynb where r: "code_run J J1 M R" "dynb \<longrightarrow> is_dynamic E (?p + 8) (jb_start B)"
    "if flagged E B g ?base dynb b then insn_refused J1 e1 i ?p M g R else insn_done J1 e1 i ?p M (g', q) R"
    "\<not> t_flags_live J1" "pend_in E J1" by blast
  have fx: "fixed M0 N" if "fixed M N" for N using fixed_trans [OF hyp(9) that] .
  have after: "\<exists>s N. part_run Ja F Ma s N \<and> insn_exit E B ?base n F M0 i g s N"
    if a: "code_run Ja J1 Ma Ra" "insn_done J1 e1 i ?p M (g', q) Ra"
      and h: "\<And>f. f < 3 * n \<Longrightarrow> \<not> is_dynamic E (jb_start B + 8 * of_nat f) (jb_start B) \<Longrightarrow> \<not> store_hits b (field_word B f)"
    for Ja Ma Ra
  proof -
    consider (out) s N where "Ra = Leaves s N" "fixed M N" "branch_exit J1 g' i q s N"
      | (on) N where "Ra = Through N" "fixed M N" "\<not> e1" "q = ?p + 24" "sim J1 N g'"
      using a(2) by (auto simp: insn_done_def)
    then show ?thesis
    proof cases
      case out
      have "part_run Ja F Ma s N" using a(1) out(1) extF unfolding part_run_def by blast
      moreover have "insn_exit E B ?base n F M0 i g s N"
        by (rule branched [OF st branch_exit_extends [OF out(3) extF] fx [OF out(2)]])
      ultimately show ?thesis by blast
    next
      case on
      have q: "q = insn_at B (Suc i)" using on(4) by (simp add: algebra_simps)
      have env': "block_env E B n ?base g'"
        unfolding g' [OF refl refl] by (rule env_store [OF assms(10,11) env _ h]) (use so in \<open>simp_all add: b_def\<close>)
      have so': "stores_ok E B k' g' (insn_at B (Suc i))" using so unfolding q [symmetric] on(4) by (simp add: st on(4))
      have "\<exists>s N'. part_run J1 F N s N' \<and> block_exit E B ?base n F M0 (Suc i) g' s N'"
      proof (cases "Suc i < m")
        case True
        obtain k2 where k2: "k = Suc k2" "translate_insns E (jb_start B) [Suc i..<m] (B2, Mp1, J1) = Some (ended, k2, B', Mp', J')"
          using c(5) on(3) by blast
        show ?thesis
          by (rule Suc.hyps(1) [OF _ k2(2)])
            (use Suc.hyps(2) True k k2(1) hyp(2,4,5) c(2,3) on(5) r(4,5) fx [OF on(2)] env' so' in simp_all)
      next
        case False
        then have "Suc i = m" using hyp(3) by simp
        then have l: "\<not> ended" "J' = J1" "n = Suc i" using c(5) on(3) hyp(2) k by auto
        obtain s where s: "code_run J1 F N (Leaves s N)" "branch_exit F g' (n - 1) (jb_start B + 24 * of_nat n) s N"
          using emit_end_spec [OF on(5), of "jb_start B" n] unfolding F_def l(2) using l(1) by auto
        have "part_run J1 F N s N" using s(1) unfolding part_run_def by (intro exI [of _ F]) simp
        moreover have "block_exit E B ?base n F M0 n g' s N" by (rule block_end [OF s(2) fx [OF on(2)]])
        ultimately show ?thesis unfolding l(3) [symmetric] by blast
      qed
      then obtain s N' where s: "part_run J1 F N s N'" "block_exit E B ?base n F M0 (Suc i) g' s N'" by blast
      show ?thesis using part_run_trans [OF a(1) [unfolded on(1)] s(1)] went_on [OF st [unfolded q] s(2)] by blast
    qed
  qed
  have al: "unat (te_mem_size E) mod 8 = 0" using assms(10) by (simp add: block_range_def)
  have br: "unat b + 8 \<le> unat (te_mem_size E)" using so by (simp add: b_def)
  show ?case
  proof (cases "flagged E B g ?base dynb b")
    case False
    have "\<exists>s N. part_run J F M s N \<and> insn_exit E B ?base n F M0 i g s N"
      by (rule after [OF r(1)]) (use r(3) False unflagged_fields [OF al env br False] in simp_all)
    then show ?thesis using passed [OF i False [unfolded b_def] r(2)] by blast
  next
    case True
    obtain S N where s: "S \<in> set (t_smcs J1)" "R = Leaves (sm_site S) N" "fixed M N" "sm_idx S = i" "pend_mem (sm_pend S) N = g"
      "case sm_precise S of None \<Rightarrow> True
         | Some (rb, t1, t2, back) \<Rightarrow>
             xr N rb = b \<and>
             (\<forall>N'. xmem N' = xmem N \<and> (\<forall>r. r \<noteq> t1 \<and> r \<noteq> t2 \<longrightarrow> xr N' r = xr N r) \<longrightarrow>
                (\<exists>Ja R'. length (em_code Ja) = back \<and> code_run Ja J1 N' R' \<and> insn_done J1 e1 i ?p M (g', q) R'))"
      using r(3) True unfolding insn_refused_def b_def st by auto
    have pr: "part_run J F M (sm_site S) N" using r(1) s(2) extF unfolding part_run_def by blast
    note sF = smcs_extends [OF s(1) extF]
    have "block_exit E B ?base n F M0 i g (sm_site S) N"
    proof (cases "sm_precise S")
      case None
      then show ?thesis using refused_word [OF i True [unfolded b_def] sF None refl s(4,5) fx [OF s(3)]] by blast
    next
      case (Some x)
      obtain rb t1 t2 bk where x: "sm_precise S = Some (rb, t1, t2, bk)" using Some by (cases x) auto
      have xr: "xr N rb = b" and go: "\<And>N'. xmem N' = xmem N \<and> (\<forall>r. r \<noteq> t1 \<and> r \<noteq> t2 \<longrightarrow> xr N' r = xr N r) \<Longrightarrow>
          \<exists>Ja R'. length (em_code Ja) = bk \<and> code_run Ja J1 N' R' \<and> insn_done J1 e1 i ?p M (g', q) R'"
        using s(6) x by auto
      show ?thesis
      proof (rule refused_page [OF i True sF x refl s(4,5) fx [OF s(3)] b_def xr])
        assume w: "\<not> (\<exists>w. store_hits b w \<and> word_flagged g ?base w)"
        show "\<forall>N'. xmem N' = xmem N \<and> (\<forall>r. r \<noteq> t1 \<and> r \<noteq> t2 \<longrightarrow> xr N' r = xr N r) \<longrightarrow>
          (\<exists>J1 s' N''. length (em_code J1) = bk \<and> part_run J1 F N' s' N'' \<and> insn_exit E B ?base n F M0 i g s' N'')"
          using go after unflagged_words [OF env w] by blast
      qed
    qed
    then show ?thesis using pr by blast
  qed
qed simp

section \<open>The block\<close>

text \<open>
  Left by the jump at \<open>s\<close> with the machine's first \<open>k\<close> instructions done, for the instruction it is at
  then: through the exit of the last of them, or before the next, whose store is one to translated
  code.
\<close>

definition left_after :: "tenv \<Rightarrow> jit_block \<Rightarrow> nat \<Rightarrow> trans \<Rightarrow> mach \<Rightarrow> mem \<Rightarrow> nat \<Rightarrow> nat \<Rightarrow> mach \<Rightarrow> bool" where
  "left_after E B n J M g k s N \<longleftrightarrow>
     (case (subleq_step ^^ k) (g, jb_start B) of (gk, pk) \<Rightarrow>
        k \<le> n \<and> fixed M N \<and>
        ((\<exists>S\<in>set (t_stubs J). sb_site S = s \<and> sb_idx S + 1 = k \<and> pend_mem (sb_pend S) N = gk \<and>
            (if sb_dyn S then \<exists>r. sb_creg S = Some r \<and> xr N r = pk else sb_target S = pk)) \<or>
         (\<exists>S\<in>set (t_smcs J). sm_site S = s \<and> sm_idx S = k \<and> k < n \<and> pend_mem (sm_pend S) N = gk \<and> pk = insn_at B k \<and>
            (\<exists>d. flagged E B gk (xr M R14) d (rd gk (pk + 8))))))"

lemma left_branch:
  assumes "branch_exit J g' i q s N" "fixed M N" "(subleq_step ^^ Suc i) (g, jb_start B) = (g', q)" "i < n"
  shows "left_after E B n J M g (Suc i) s N"
  using assms by (auto simp: left_after_def branch_exit_def simp del: funpow.simps)

lemma left_refused:
  assumes "S \<in> set (t_smcs J)" "sm_site S = s" "sm_idx S = i" "pend_mem (sm_pend S) N = g'" "fixed M N" "i < n"
    and "(subleq_step ^^ i) (g, jb_start B) = (g', insn_at B i)" "flagged E B g' (xr M R14) d (rd g' (insn_at B i + 8))"
  shows "left_after E B n J M g i s N"
  using assms by (auto simp: left_after_def)

lemma exits_left_after:
  "block_exit E B base n J M i g' s N \<Longrightarrow> base = xr M R14 \<and> 0 < n \<and> i \<le> n \<and>
     (subleq_step ^^ i) (g, jb_start B) = (g', insn_at B i) \<longrightarrow> (\<exists>k. left_after E B n J M g k s N)"
  "insn_exit E B base n J M i g' s N \<Longrightarrow> base = xr M R14 \<and> i < n \<and>
     (subleq_step ^^ i) (g, jb_start B) = (g', insn_at B i) \<longrightarrow> (\<exists>k. left_after E B n J M g k s N)"
proof (induction rule: block_exit_insn_exit.inducts)
  case (block_end g' s N)
  show ?case
  proof
    assume a: "base = xr M R14 \<and> 0 < n \<and> n \<le> n \<and> (subleq_step ^^ n) (g, jb_start B) = (g', insn_at B n)"
    then have "(subleq_step ^^ Suc (n - 1)) (g, jb_start B) = (g', insn_at B n)" by simp
    from left_branch [OF block_end(1,2) this, of n E] a show "\<exists>k. left_after E B n J M g k s N" by auto
  qed
next
  case (refused_word i g' d S s N)
  then show ?case by (auto intro: left_refused)
next
  case (refused_page i g' d b S rb t1 t2 bk s N)
  then show ?case by (auto intro: left_refused)
next
  case (branched g' i g'' q s N)
  show ?case
  proof
    assume a: "base = xr M R14 \<and> i < n \<and> (subleq_step ^^ i) (g, jb_start B) = (g', insn_at B i)"
    then have "(subleq_step ^^ Suc i) (g, jb_start B) = (g'', q)" using branched(1) by simp
    then show "\<exists>k. left_after E B n J M g k s N" using left_branch [OF branched(2,3)] a by blast
  qed
next
  case (went_on g' i g'' s N)
  then show ?case by simp
qed simp

lemma sim_reset: "xr M R15 = BIAS \<Longrightarrow> sim (reset_cache X) M (xmem M)"
proof -
  assume r: "xr M R15 = BIAS"
  have "\<not> has (reset_cache X) v a" for v a
    by (cases v) (auto simp: has_def names_def const_words_def reset_cache_def)
  then show ?thesis using r
    by (simp add: sim_def cache_ok_def mem_ok_def alias_regs_def) (simp add: reset_cache_def)
qed


section \<open>A block run\<close>

text \<open>The instruction at 4096 of \<open>ex_mem\<close> as a block, its words 512 to 514 marked, and their pages.\<close>

definition ex_marked :: mem where
  "ex_marked = ex_mem(0x100040 := 7, 0x100200 := 1, 0x100201 := 1)"

lemma rd_marked: "unat a < 65536 \<Longrightarrow> rd ex_marked a = rd ex_mem a"
proof -
  assume a: "unat a < 65536"
  have "ex_marked (a + of_nat i) = ex_mem (a + of_nat i)" if "i < 8" for i
  proof -
    have "unat (a + of_nat i) = unat a + i" by (rule unat_add_of_nat) (use a that in simp)
    then have "unat (a + of_nat i) < 0x100000" using a that by simp
    then show ?thesis by (auto simp: ex_marked_def)
  qed
  then show ?thesis by (simp add: dawn_readram_def load64_def cong: load64_cong)
qed

lemma ex_range: "block_range ex_env ex_block 1"
  by (simp add: block_range_def in_memory_def ex_env_def ex_block_def)

lemma ex_apart: "maps_apart ex_env 0x100000"
  unfolding maps_apart_def
proof (intro conjI allI impI)
  fix w :: u64 assume "w < drop_bit 3 (te_mem_size ex_env)"
  then have "unat w < 8192" by (simp add: ex_env_def word_less_nat_alt)
  then have u: "unat (drop_bit 3 w) < 1024" by (simp add: unat_shr_3 div_less_iff_less_mult)
  have "scast (ucast (drop_bit 3 w) :: i32) = drop_bit 3 w"
  proof (rule scast_ucast_32)
    have "drop_bit 3 w < 1024" using u by (simp add: word_less_nat_alt)
    then have x: "uint (drop_bit 3 w) < 1024" by (simp only: word_less_def) simp
    have "sint (drop_bit 3 w) = uint (drop_bit 3 w)"
      unfolding sint_uint
      by (rule signed_take_bit_int_eq_self) (use order_trans [OF _ uint_ge_0, of "- (2 ^ 63)"] order_less_le_trans [OF x] in simp_all)
    moreover have "0 \<le> uint (drop_bit 3 w)" by simp
    ultimately have "0 \<le> sint (drop_bit 3 w)" "sint (drop_bit 3 w) < 1024" using x by simp_all
    then show "- (2 ^ 31) \<le> sint (drop_bit 3 w)" "sint (drop_bit 3 w) < 2 ^ 31" by simp_all
  qed
  then show "te_mem_size ex_env \<le> word_byte 0x100000 w"
    using u by (simp add: word_byte_def ex_env_def word_le_nat_alt unat_word_ariths)
next
  fix b :: u64 assume "unat b + 8 \<le> unat (te_mem_size ex_env)"
  then have "unat b div 4096 < 16" by (simp add: ex_env_def div_less_iff_less_mult)
  then have "unat (drop_bit 12 b) < 16" by (simp only: unat_drop_bit_eq) (simp add: drop_bit_eq_div)
  then show "te_mem_size ex_env \<le> page_byte ex_env 0x100000 b"
    by (simp add: page_byte_def ex_env_def word_le_nat_alt unat_word_ariths)
qed

lemma ex_env_marked: "block_env ex_env ex_block 1 0x100000 ex_marked"
proof -
  have w: "field_word ex_block f = 512 + of_nat f" for f by (simp add: field_word_def ex_block_def)
  have f: "rd (te_mem ex_env) (4096 + 8 * of_nat f) = rd ex_marked (4096 + 8 * of_nat f) \<and>
      word_flagged ex_marked 0x100000 (512 + of_nat f)" if f: "f < 3" for f
  proof -
    have "unat (4096 + 8 * of_nat f :: u64) < 65536" using f by (auto simp: numeral_3_eq_3 less_Suc_eq)
    moreover have "f = 0 \<or> f = 1 \<or> f = 2" using f by auto
    ultimately show ?thesis
      by (auto simp: rd_marked ex_env_def word_flagged_def word_byte_def) (simp_all add: ex_marked_def)
  qed
  have pg: "ex_marked (page_byte ex_env 0x100000 b) \<noteq> 0" if h: "store_hits b (512 + of_nat f)" "f < 3" for b f
  proof -
    have u: "unat (512 + of_nat f :: u64) = 512 + f" using h(2) by (subst unat_add_of_nat) simp_all
    have "unat b < 8192"
    proof (cases "drop_bit 3 b = 512 + of_nat f")
      case True
      then have "unat b div 8 = 512 + f" using u by (simp add: unat_shr_3 [symmetric])
      then show ?thesis using h(2) by linarith
    next
      case False
      then have "unat (b + 7) div 8 = 512 + f" using h(1) u by (simp add: store_hits_def unat_shr_3 [symmetric])
      then have x: "4096 \<le> unat (b + 7)" "unat (b + 7) < 4128" using h(2) by linarith+
      have "unat (b + 7 - 7) = unat (b + 7) - unat (7 :: u64)" using x by (intro unat_sub) (simp add: word_le_nat_alt)
      then show ?thesis using x by simp
    qed
    then have "unat (drop_bit 12 b) = 0 \<or> unat (drop_bit 12 b) = 1"
      by (simp only: unat_drop_bit_eq) (simp add: drop_bit_eq_div, linarith)
    then have "drop_bit 12 b = 0 \<or> drop_bit 12 b = 1" by (auto simp: word_unat_eq_iff)
    then show ?thesis by (auto simp: page_byte_def ex_env_def ex_marked_def)
  qed
  show ?thesis using f pg by (auto simp: block_env_def w) (simp_all add: ex_block_def)
qed

definition ex_start :: mach where
  "ex_start = ex_mach\<lparr>xmem := ex_marked\<rparr>"

definition ex_maps :: maps where
  "ex_maps = \<lparr>static_map = (\<lambda>_. 0), page_map = (\<lambda>_. 0)\<rparr>"


end
