(* ===== verification/Translate_Tables.thy ===== *)
theory Translate_Tables
  imports Block_Correct
begin

text \<open>
  What translating a block does to the tables: how far the block goes, which fields are marked as
  static, and that the new block is as coherent with memory as those there were.
\<close>

section \<open>The extent\<close>

lemma scan_block_extent:
  assumes "scan_block fuel E J copy start left p n wrt = Some (m, wrt')" "unat (te_mem_size E) \<le> 2 ^ 63"
    and "unat p = unat start + 24 * n" "unat p + 24 < 2 ^ 64" "n = 0 \<or> unat p \<le> unat (te_mem_size E)"
  shows "n \<le> m \<and> m \<le> n + left \<and> (m = 0 \<or> unat start + 24 * m \<le> unat (te_mem_size E)) \<and>
    (m = n \<longrightarrow> left = 0 \<or> unat (te_mem_size E) < unat p + 24 \<or> p \<noteq> start)"
  using assms
proof (induction left arbitrary: p n wrt)
  case 0
  then show ?case by auto
next
  case (Suc left)
  have u: "unat (p + 24) = unat p + 24" using unat_add_of_nat [of p 24] Suc.prems(4) by simp
  have le: "p + 24 \<le> te_mem_size E \<longleftrightarrow> unat p + 24 \<le> unat (te_mem_size E)" by (simp add: word_le_nat_alt u)
  show ?case
  proof (cases "unat p + 24 \<le> unat (te_mem_size E)")
    case False
    then show ?thesis using Suc.prems(1,3,5) le by auto
  next
    case True
    have IH: "scan_block fuel E J copy start left (p + 24) (Suc n) w = Some (m, wrt') \<Longrightarrow>
        Suc n \<le> m \<and> m \<le> Suc n + left \<and> (m = 0 \<or> unat start + 24 * m \<le> unat (te_mem_size E))" for w
      using Suc.IH [of "p + 24" "Suc n" w] True u Suc.prems(2,3) by auto
    show ?thesis
      using Suc.prems(1) True le Suc.prems(3,5) by (auto simp: Let_def split: if_splits bind_splits dest!: IH)
  qed
qed

section \<open>The fields marked\<close>

lemma smask_get_bit: "smask_get B f \<longleftrightarrow> bit (jb_smask B (f div 64)) (f mod 64)"
  by (simp add: smask_get_def and_one_eq bit_iff_odd_drop_bit odd_iff_mod_2_eq_one)

text \<open>The fields recorded as static are those up to \<open>lim\<close> that are marked.\<close>

definition marked :: "nat \<Rightarrow> jit_block \<times> maps \<Rightarrow> bool" where
  "marked lim = (\<lambda>(B, M). \<forall>f. smask_get B f \<longrightarrow> f < lim \<and> bit_get (static_map M) (field_word B f))"

text \<open>The maps only gain words.\<close>

definition gains :: "maps \<Rightarrow> maps \<Rightarrow> bool" where
  "gains M M' \<longleftrightarrow> (\<forall>w. bit_get (static_map M) w \<longrightarrow> bit_get (static_map M') w) \<and> (page_cover M \<longrightarrow> page_cover M')"

lemma gains_refl [simp]: "gains M M"
  by (simp add: gains_def)

lemma gains_trans: "gains M M1 \<Longrightarrow> gains M1 M2 \<Longrightarrow> gains M M2"
  by (simp add: gains_def)

lemma gains_mark: "gains M (mark_static M w)"
  using page_cover_mark by (simp add: gains_def) (simp add: mark_static_def Let_def)

definition same_block :: "jit_block \<Rightarrow> jit_block \<Rightarrow> bool" where
  "same_block B B' \<longleftrightarrow>
     jb_start B' = jb_start B \<and> jb_n B' = jb_n B \<and> jb_entry B' = jb_entry B \<and> jb_inv_stub B' = jb_inv_stub B \<and>
     jb_incoming B' = jb_incoming B \<and> jb_hoist B' = jb_hoist B \<and> jb_valid B' = jb_valid B"

lemma mark_field_marks:
  assumes "marked lim (B, M)" "lim \<le> 3 * i + f" "f < 3"
    and "8 * unat (field_word B (3 * i)) = unat (jb_start B) + 24 * i" "unat (jb_start B) + 24 * i + 24 < 2 ^ 64"
    and "unat (jb_start B) mod 8 = 0" "mark_field E (insn_at B i) i f (B, M) = (B', M')"
  shows "marked (3 * i + f + 1) (B', M') \<and> gains M M' \<and> same_block B B'"
proof (cases "is_dynamic E (insn_at B i + 8 * of_nat f) (jb_start B)")
  case True
  then have "B' = B" "M' = M" using assms(7) by (simp_all add: mark_field_def)
  then show ?thesis using assms(1,2) by (fastforce simp: marked_def same_block_def)
next
  case False
  have ui: "unat (insn_at B i) = unat (jb_start B) + 24 * i"
    using unat_add_of_nat [of "jb_start B" "24 * i"] assms(5) by simp
  have w: "drop_bit 3 (insn_at B i) + of_nat f = field_word B (3 * i + f)"
  proof -
    have "drop_bit 3 (insn_at B i) = field_word B (3 * i)"
      using assms(4,6) by (simp only: word_unat_eq_iff unat_shr_3 ui)
    then show ?thesis by (simp add: field_word_def algebra_simps)
  qed
  have m: "M' = mark_static M (field_word B (3 * i + f))" "same_block B B'"
    "jb_smask B' = (jb_smask B)((i * 3 + f) div 64 := jb_smask B ((i * 3 + f) div 64) OR push_bit ((i * 3 + f) mod 64) 1)"
    using assms(7) False by (auto simp: mark_field_def Let_def w same_block_def)
  have "smask_get B' k \<longleftrightarrow> k = 3 * i + f \<or> smask_get B k" for k
  proof -
    have "bit (push_bit ((3 * i + f) mod 64) 1 :: u64) j \<longleftrightarrow> j = (3 * i + f) mod 64" if "j < 64" for j
      using that by (auto simp: bit_exp_iff possible_bit_def)
    moreover have "k div 64 = (3 * i + f) div 64 \<Longrightarrow> k mod 64 = (3 * i + f) mod 64 \<Longrightarrow> k = 3 * i + f"
      by (metis div_mult_mod_eq)
    ultimately show ?thesis by (auto simp: smask_get_bit m(3) bit_or_iff mult.commute [of i 3])
  qed
  moreover have "field_word B' = field_word B" using m(2) by (simp add: same_block_def field_word_def fun_eq_iff)
  moreover have bs: "bit_get (static_map (mark_static M v)) x \<longleftrightarrow> x = v \<or> bit_get (static_map M) x" for v x
    by (simp add: mark_static_def Let_def)
  ultimately have "marked (3 * i + f + 1) (B', M')"
    using assms(1,2) bs by (auto simp: marked_def m(1))
  then show ?thesis using m(1,2) gains_mark by simp
qed

lemma marked_mono: "marked lim S \<Longrightarrow> lim \<le> lim' \<Longrightarrow> marked lim' S"
  by (auto simp: marked_def)

lemma same_block_refl [simp]: "same_block B B"
  by (simp add: same_block_def)

lemma same_block_trans: "same_block B B1 \<Longrightarrow> same_block B1 B2 \<Longrightarrow> same_block B B2"
  by (simp add: same_block_def)

lemma same_blockD: "same_block B B' \<Longrightarrow> jb_start B' = jb_start B" "same_block B B' \<Longrightarrow> field_word B' = field_word B"
  by (simp_all add: same_block_def field_word_def fun_eq_iff)

text \<open>A block whose instruction \<open>i\<close> is in the address space.\<close>

definition holds_insn :: "jit_block \<Rightarrow> nat \<Rightarrow> bool" where
  "holds_insn B i \<longleftrightarrow> unat (jb_start B) mod 8 = 0 \<and> unat (jb_start B) + 24 * i + 24 < 2 ^ 64"

lemma field_word_plain:
  assumes "holds_insn B i"
  shows "8 * unat (field_word B (3 * i)) = unat (jb_start B) + 24 * i"
proof -
  obtain q where q: "unat (jb_start B) = 8 * q" using assms by (auto simp: holds_insn_def elim!: dvdE)
  have "unat (drop_bit 3 (jb_start B) + of_nat (3 * i)) = unat (drop_bit 3 (jb_start B)) + 3 * i"
    by (rule unat_add_of_nat) (use assms q in \<open>simp add: unat_shr_3 holds_insn_def\<close>)
  then show ?thesis by (simp add: field_word_def unat_shr_3 q)
qed

lemma mark_fields_marks:
  assumes "marked (3 * i) (B, M)" "holds_insn B i" "mark_fields E (insn_at B i) i (B, M) = (B', M')"
  shows "marked (3 * Suc i) (B', M') \<and> gains M M' \<and> same_block B B'"
proof -
  have step: "marked (3 * i + f + 1) S' \<and> gains (snd S) (snd S') \<and> same_block (fst S) (fst S')"
    if "marked (3 * i + f) S" "f < 3" "holds_insn (fst S) i" "S' = mark_field E (insn_at (fst S) i) i f S" for f S S'
    using mark_field_marks [of "3 * i + f" "fst S" "snd S" i f E "fst S'" "snd S'"] that field_word_plain [OF that(3)]
    by (simp add: holds_insn_def)
  define S0 S1 S2 where "S0 = mark_field E (insn_at B i) i 0 (B, M)" and "S1 = mark_field E (insn_at B i) i 1 S0"
    and "S2 = mark_field E (insn_at B i) i 2 S1"
  have eq: "(B', M') = S2" using assms(3) by (simp add: mark_fields_def S0_def S1_def S2_def numeral_3_eq_3 numeral_2_eq_2 upt_rec)
  have a: "marked (3 * i + 1) S0" "gains M (snd S0)" "same_block B (fst S0)"
    using step [of 0 "(B, M)" S0] assms(1,2) by (simp_all add: S0_def)
  have h0: "holds_insn (fst S0) i" "insn_at (fst S0) i = insn_at B i" using a(3) assms(2) by (simp_all add: holds_insn_def same_block_def)
  have b: "marked (3 * i + 2) S1" "gains (snd S0) (snd S1)" "same_block (fst S0) (fst S1)"
    using step [of 1 S0 S1] a(1) h0 by (simp_all add: S1_def)
  have h1: "holds_insn (fst S1) i" "insn_at (fst S1) i = insn_at B i" using b(3) h0 by (simp_all add: holds_insn_def same_block_def)
  have c: "marked (3 * i + 3) S2" "gains (snd S1) (snd S2)" "same_block (fst S1) (fst S2)"
    using step [of 2 S1 S2] b(1) h1 by (simp_all add: S2_def numeral_3_eq_3)
  show ?thesis
    using c(1) gains_trans [OF gains_trans [OF a(2) b(2)] c(2)] same_block_trans [OF same_block_trans [OF a(3) b(3)] c(3)]
    by (simp add: eq [symmetric] add.commute)
qed

lemma translate_insns_marks:
  assumes "translate_insns E start [i..<m] (B, M, J) = Some (ended, k, B', M', J')" "marked (3 * i) (B, M)"
    and "start = jb_start B" "unat start mod 8 = 0" "unat start + 24 * m < 2 ^ 64" "i \<le> m"
  shows "marked (3 * (i + k)) (B', M') \<and> gains M M' \<and> same_block B B' \<and> i + k \<le> m \<and> (i < m \<longrightarrow> 0 < k)"
  using assms
proof (induction "m - i" arbitrary: i B M J k)
  case 0
  then show ?case by simp
next
  case (Suc d)
  have lt: "i < m" using Suc.hyps(2) by simp
  obtain B1 M1 where m: "mark_fields E (insn_at B i) i (B, M) = (B1, M1)" by fastforce
  have h: "holds_insn B i" using Suc.prems(3-5) lt by (simp add: holds_insn_def)
  note mk = mark_fields_marks [OF Suc.prems(2) h m]
  obtain e1 J1 where c: "translate_code E B (insn_at B i) i J = Some (e1, J1)"
    and r: "if e1 then (ended, k, B', M', J') = (True, 1, B1, M1, J1)
      else \<exists>k'. k = Suc k' \<and> translate_insns E start [Suc i..<m] (B1, M1, J1) = Some (ended, k', B', M', J')"
    using Suc.prems(1,3) lt m by (auto simp: upt_conv_Cons translate_insn_def split: bind_splits if_splits)
  show ?case
  proof (cases e1)
    case True
    then show ?thesis using r mk lt by (simp add: algebra_simps)
  next
    case False
    then obtain k' where k: "k = Suc k'" "translate_insns E start [Suc i..<m] (B1, M1, J1) = Some (ended, k', B', M', J')"
      using r by auto
    have "marked (3 * (Suc i + k')) (B', M') \<and> gains M1 M' \<and> same_block B1 B' \<and> Suc i + k' \<le> m"
      using Suc.hyps(1) [OF _ k(2)] Suc.hyps(2) mk Suc.prems(3-5) lt same_blockD(1) [of B B1] by simp
    then show ?thesis using mk gains_trans same_block_trans k(1) by auto
  qed
qed

section \<open>A CPU of the dispatcher\<close>

text \<open>
  All code coherent, the blocks waiting to be looked at again well formed, no block beyond those
  made, and the words a block checks on entry in memory.
\<close>

definition blocks_below :: "jit_cpu \<Rightarrow> bool" where
  "blocks_below J \<longleftrightarrow>
     (\<forall>b\<in>live J. b < jc_nblocks J \<and> (\<forall>w\<in>set (jb_hoist (jc_blocks J b)). unat w < 2 ^ 60)) \<and>
     (\<forall>(b, _)\<in>set (pending_list J). b < jc_nblocks J)"

definition cpu_ok :: "snapshot \<Rightarrow> nat \<Rightarrow> jit \<Rightarrow> bool" where
  "cpu_ok sn c W \<longleftrightarrow> coherent sn W \<and> c < j_ncpus W \<and> pending_ok (j_mem_size W) (j_cpus W c) \<and> blocks_below (j_cpus W c)"

text \<open>What looking again at blocks leaves alone.\<close>

definition same_world :: "jit \<Rightarrow> jit \<Rightarrow> bool" where
  "same_world W W' \<longleftrightarrow> j_mem W' = j_mem W \<and> j_mem_size W' = j_mem_size W \<and> j_ncpus W' = j_ncpus W"

lemma same_world_refl [simp]: "same_world W W"
  by (simp add: same_world_def)

lemma same_world_trans: "same_world W W1 \<Longrightarrow> same_world W1 W2 \<Longrightarrow> same_world W W2"
  by (simp add: same_world_def)

lemma cpu_okD:
  assumes "cpu_ok sn c W"
  shows "coherent sn W" "c < j_ncpus W" "pending_ok (j_mem_size W) (j_cpus W c)" "tables_ok (j_cpus W c)"
    "unat (j_mem_size W) \<le> 2 ^ 63" "blocks_below (j_cpus W c)"
  using assms by (auto simp: cpu_ok_def coherent_def cpu_coherent_def)

text \<open>Dropping blocks of the CPU.\<close>

lemma blocks_below_drops:
  assumes "blocks_below J" "drops J J'" "tables_ok J"
  shows "blocks_below J'"
proof -
  have "jb_hoist (jc_blocks J' b) = jb_hoist (jc_blocks J b)" for b using assms(2) by (simp add: drops_def fixed_parts_def)
  then show ?thesis using assms drops_pending(1) [OF assms(2)] by (auto simp: blocks_below_def drops_def)
qed

lemma drop_fields_ok:
  assumes "cpu_ok sn c W" "in_memory (j_mem_size W) B"
  shows "cpu_ok sn c (drop_block_fields c B W) \<and> same_world W (drop_block_fields c B W) \<and>
    drops (j_cpus W c) (j_cpus (drop_block_fields c B W) c)"
proof -
  note o = cpu_okD [OF assms(1)]
  note p = drop_block_fields_props [OF o(1,2) assms(2)]
  show ?thesis
    using p o(2,3) blocks_below_drops [OF o(6) p(5) o(4)] drops_pending(2) [OF p(5)]
    by (simp add: cpu_ok_def same_world_def)
qed

lemma advance_ok:
  assumes "cpu_ok sn c W" "jc_phead (j_cpus W c) \<noteq> jc_ptail (j_cpus W c)"
  defines "W' \<equiv> on_cpu c (\<lambda>J. J\<lparr>jc_phead := ring_next PENDING_LEN (jc_phead J)\<rparr>) W"
  shows "cpu_ok sn c W'" "same_world W W'" "shrinks (j_cpus W c) (j_cpus W' c)"
    "in_memory (j_mem_size W) (jc_blocks (j_cpus W c) (fst (jc_pending (j_cpus W c) (jc_phead (j_cpus W c)))))"
proof -
  note o = cpu_okD [OF assms(1)]
  note s = pending_step [OF o(3) assms(2)]
  show "in_memory (j_mem_size W) (jc_blocks (j_cpus W c) (fst (jc_pending (j_cpus W c) (jc_phead (j_cpus W c)))))" by (rule s(3))
  have "blocks_below ((j_cpus W c)\<lparr>jc_phead := ring_next PENDING_LEN (jc_phead (j_cpus W c))\<rparr>)"
    using o(6) s(1) by (simp add: blocks_below_def live_def)
  then show "cpu_ok sn c W'" using o(1-3) s(2) by (simp add: cpu_ok_def W'_def coherent_on_phead)
  show "same_world W W'" "shrinks (j_cpus W c) (j_cpus W' c)" by (simp_all add: same_world_def W'_def shrinks_phead)
qed

lemma revalidate_loop_ok:
  assumes "revalidate_loop fuel c mn W = Some W'" "cpu_ok sn c W"
  shows "cpu_ok sn c W' \<and> same_world W W' \<and> shrinks (j_cpus W c) (j_cpus W' c)"
  using assms
proof (induction fuel arbitrary: W)
  case (Suc fuel)
  define J where "J = j_cpus W c"
  define b where "b = fst (jc_pending J (jc_phead J))"
  define W1 where "W1 = on_cpu c (\<lambda>J. J\<lparr>jc_phead := ring_next PENDING_LEN (jc_phead J)\<rparr>) W"
  define W2 where "W2 = on_cpu c (\<lambda>J. J\<lparr>jc_stats := jc_stats J\<lparr>js_revalidations := js_revalidations (jc_stats J) + 1\<rparr>\<rparr>) W1"
  show ?case
  proof (cases "jc_phead J \<noteq> jc_ptail J \<and> snd (jc_pending J (jc_phead J)) \<le> mn")
    case False
    then show ?thesis using Suc.prems by (simp add: J_def)
  next
    case True
    then have ne: "jc_phead (j_cpus W c) \<noteq> jc_ptail (j_cpus W c)" by (simp add: J_def)
    note a = advance_ok [OF Suc.prems(2) ne, folded W1_def]
    have bl: "jc_blocks (j_cpus W1 c) = jc_blocks J" "j_mem W1 = j_mem W" by (simp_all add: W1_def J_def)
    show ?thesis
    proof (cases "\<not> jb_valid (jc_blocks J b) \<or> static_hash (j_mem W) (jc_blocks J b) = jb_shash (jc_blocks J b)")
      case ok: True
      then have "revalidate_loop fuel c mn W1 = Some W'"
        using True Suc.prems(1) by (auto simp: Let_def J_def [symmetric] b_def [symmetric] W1_def [symmetric] bl)
      from Suc.IH [OF this a(1)] show ?thesis using a(2,3) same_world_trans shrinks_trans by blast
    next
      case bad: False
      have r: "revalidate_loop fuel c mn (drop_block_fields c (jc_blocks J b) W2) = Some W'"
        using True bad Suc.prems(1)
        by (simp add: Let_def J_def [symmetric] b_def [symmetric] W1_def [symmetric] bl W2_def [symmetric])
      have d2: "drops (j_cpus W1 c) (j_cpus W2 c)" by (simp add: W2_def drops_stats)
      have ok2: "cpu_ok sn c W2" "same_world W1 W2"
        using a(1) blocks_below_drops [OF _ d2] drops_pending(2) [OF d2] cpu_okD [OF a(1)]
        by (simp_all add: cpu_ok_def same_world_def) (simp_all add: W2_def coherent_on_cpu_stats)
      have im: "in_memory (j_mem_size W2) (jc_blocks J b)"
        using a(2,4) ok2(2) by (simp add: same_world_def J_def b_def)
      note d3 = drop_fields_ok [OF ok2(1) im]
      from Suc.IH [OF r conjunct1 [OF d3]]
      have "cpu_ok sn c W' \<and> same_world W1 W' \<and> shrinks (j_cpus W1 c) (j_cpus W' c)"
        using d3 ok2(2) same_world_trans shrinks_trans drops_shrinks [OF drops_trans [OF d2] cpu_okD(4) [OF a(1)]] by blast
      then show ?thesis using a(2,3) same_world_trans shrinks_trans by blast
    qed
  qed
qed simp

lemma revalidate_ok:
  assumes "revalidate fuel c W = Some W'" "cpu_ok sn c W"
  shows "cpu_ok sn c W' \<and> same_world W W' \<and> shrinks (j_cpus W c) (j_cpus W' c)"
  using assms revalidate_loop_ok by (auto simp: revalidate_def split: if_splits)

lemma wait_pending_ok:
  assumes "wait_pending fuel rf c W = Some W'" "cpu_ok sn c W"
  shows "cpu_ok sn c W' \<and> same_world W W' \<and> shrinks (j_cpus W c) (j_cpus W' c) \<and>
    ring_next PENDING_LEN (jc_ptail (j_cpus W' c)) \<noteq> jc_phead (j_cpus W' c)"
  using assms
proof (induction fuel arbitrary: W)
  case (Suc fuel)
  show ?case
  proof (cases "ring_next PENDING_LEN (jc_ptail (j_cpus W c)) \<noteq> jc_phead (j_cpus W c)")
    case False
    then obtain W1 where w: "revalidate rf c W = Some W1" "wait_pending fuel rf c W1 = Some W'"
      using Suc.prems(1) by (auto split: bind_splits)
    note r = revalidate_ok [OF w(1) Suc.prems(2)]
    from Suc.IH [OF w(2)] r show ?thesis using same_world_trans shrinks_trans by blast
  qed (use Suc.prems in simp)
qed simp

section \<open>The new block\<close>

lemma flush_ok:
  assumes "cpu_ok sn c W"
  shows "cpu_ok sn c (on_cpu c flush W)" "same_world W (on_cpu c flush W)" "lookup (j_cpus (on_cpu c flush W) c) a = None"
proof -
  have "cpu_coherent s W (flush J)" if "cpu_coherent s W J" for s J
    using that by (auto simp: cpu_coherent_def tables_ok_def flush_def live_def words_queued_def)
  moreover have "cpu_coherent s (on_cpu c flush W) J = cpu_coherent s W J" for s J
    by (rule cpu_coherent_cong) simp_all
  ultimately have "coherent sn (on_cpu c flush W)" using assms by (auto simp: cpu_ok_def coherent_def)
  moreover have "live (flush J) = {}" "pending_list (flush J) = []" "jc_phead (flush J) = 0" "jc_ptail (flush J) = 0" for J
    by (simp_all add: live_def flush_def pending_list_def ring_list_def ring_len_def)
  ultimately show "cpu_ok sn c (on_cpu c flush W)"
    using assms by (simp add: cpu_ok_def pending_ok_def blocks_below_def PENDING_LEN_def)
  show "same_world W (on_cpu c flush W)" by (simp add: same_world_def)
  show "lookup (j_cpus (on_cpu c flush W) c) a = None" by (simp add: lookup_def flush_def)
qed

lemma cpu_coherent_gains:
  assumes "cpu_coherent s W J" "gains (j_maps W) M"
  shows "cpu_coherent s (W\<lparr>j_maps := M, j_cpus := C\<rparr>) J"
proof -
  have "field_matches s (W\<lparr>j_maps := M, j_cpus := C\<rparr>) b B f" if "field_matches s W b B f" for b B f
    using that assms(2) by (simp add: field_matches_def gains_def)
  then show ?thesis using assms(1) unfolding cpu_coherent_def by simp blast
qed

text \<open>The tables with block \<open>B\<close> added.\<close>

definition add_block :: "jit_block \<Rightarrow> jit_cpu \<Rightarrow> jit_cpu" where
  "add_block B J =
     (let b = jc_nblocks J; h = hash (jb_start B)
      in J\<lparr>jc_nblocks := b + 1, jc_blocks := (jc_blocks J)(b := B), jc_htab := (jc_htab J)(h := b # jc_htab J h)\<rparr>)"

lemma add_block_simps [simp]:
  "jc_blocks (add_block B J) = (jc_blocks J)(jc_nblocks J := B)" "jc_nblocks (add_block B J) = jc_nblocks J + 1"
  "pending_list (add_block B J) = pending_list J" "words_queued (add_block B J) = words_queued J"
  "jc_qoverflow (add_block B J) = jc_qoverflow J" "jc_phead (add_block B J) = jc_phead J"
  "jc_ptail (add_block B J) = jc_ptail J" "jc_qhead (add_block B J) = jc_qhead J" "jc_qtail (add_block B J) = jc_qtail J"
  by (simp_all add: add_block_def Let_def pending_list_def words_queued_def)

lemma add_block_live:
  assumes "blocks_below J"
  shows "live (add_block B J) = insert (jc_nblocks J) (live J)"
proof -
  have "jc_nblocks J \<notin> live J" using assms by (auto simp: blocks_below_def)
  then show ?thesis
    by (auto simp: live_def add_block_def Let_def split: if_splits)
qed

lemma add_block_tables:
  assumes "tables_ok J" "blocks_below J" "lookup J (jb_start B) = None" "block_ok B"
  shows "tables_ok (add_block B J)"
proof -
  let ?b = "jc_nblocks J" and ?s = "hash (jb_start B)"
  have nb: "b \<noteq> ?b" if "b \<in> set (jc_htab J h)" for b h
    using assms(2) liveD [OF that assms(1)] by (auto simp: blocks_below_def)
  have h: "jc_htab (add_block B J) = (jc_htab J)(?s := ?b # jc_htab J ?s)" by (simp add: add_block_def Let_def)
  have m: "map (\<lambda>b. jb_start (if b = ?b then B else jc_blocks J b)) (jc_htab J h) = map (\<lambda>b. jb_start (jc_blocks J b)) (jc_htab J h)" for h
    using nb by (auto intro: map_cong)
  have new: "jb_start B \<notin> (\<lambda>b. jb_start (jc_blocks J b)) ` set (jc_htab J ?s)"
    using assms(3) by (auto simp: lookup_def find_None_iff)
  show ?thesis
    using assms(1,4) nb new unfolding tables_ok_def h by (auto simp: m)
qed

lemma add_block_coherent:
  assumes co: "cpu_coherent s W J" and below: "blocks_below J" and new: "lookup J (jb_start B) = None"
    and B: "jb_valid B" "jb_n B \<le> JIT_MAX_BLOCK" "in_memory (j_mem_size W) B" "unat (j_mem_size W) \<le> 2 ^ 63"
    and M: "marked (3 * jb_n B) (B, M)" "gains (j_maps W) M"
  shows "cpu_coherent (s(jc_nblocks J := \<lambda>f. load64 (j_mem W) (jb_start B + 8 * of_nat f)))
    (W\<lparr>j_maps := M, j_cpus := C\<rparr>) (add_block B J)"
proof -
  let ?b = "jc_nblocks J" and ?W = "W\<lparr>j_maps := M, j_cpus := C\<rparr>"
  have ok: "tables_ok J" using co by (simp add: cpu_coherent_def)
  have nb: "b \<noteq> ?b" if "b \<in> live J" for b using below that by (auto simp: blocks_below_def)
  have "block_ok B" using B by (simp add: block_ok_def in_memory_def)
  note t = add_block_tables [OF ok below new this]
  have c1: "cpu_coherent s ?W J" using cpu_coherent_gains [OF co M(2)] .
  have f: "field_matches (s(?b := \<lambda>f. load64 (j_mem W) (jb_start B + 8 * of_nat f))) ?W ?b B f" if "smask_get B f" for f
    using M(1) that by (simp add: field_matches_def marked_def)
  show ?thesis
    using c1 t B(3) f nb unfolding cpu_coherent_def add_block_live [OF below]
    by (auto simp: field_matches_def)
qed

lemma add_block_ok:
  assumes "cpu_ok sn c W" "lookup (j_cpus W c) (jb_start B) = None"
    and B: "jb_valid B" "jb_n B \<le> JIT_MAX_BLOCK" "in_memory (j_mem_size W) B"
    and M: "marked (3 * jb_n B) (B, M)" "gains (j_maps W) M" and H: "\<forall>w\<in>set (jb_hoist B). unat w < 2 ^ 60"
  defines "b \<equiv> jc_nblocks (j_cpus W c)"
  defines "sn' \<equiv> sn(c := (sn c)(b := \<lambda>f. load64 (j_mem W) (jb_start B + 8 * of_nat f)))"
  shows "cpu_ok sn' c (W\<lparr>j_maps := M, j_cpus := (j_cpus W)(c := add_block B (j_cpus W c))\<rparr>)"
proof -
  note o = cpu_okD [OF assms(1)]
  let ?W = "W\<lparr>j_maps := M, j_cpus := (j_cpus W)(c := add_block B (j_cpus W c))\<rparr>"
  have "cpu_coherent (sn' k) ?W (j_cpus ?W k)" if k: "k < j_ncpus W" for k
  proof (cases "k = c")
    case True
    then show ?thesis
      using add_block_coherent [OF _ o(6) assms(2) B o(5) M, of "sn c"] o(1,2) by (simp add: sn'_def b_def coherent_def)
  next
    case False
    then show ?thesis using cpu_coherent_gains [OF _ M(2)] o(1) k by (simp add: sn'_def coherent_def)
  qed
  then have "coherent sn' ?W" using o(5) by (simp add: coherent_def)
  moreover have "pending_ok (j_mem_size W) (add_block B (j_cpus W c))"
    using o(3,6) by (auto simp: pending_ok_def blocks_below_def)
  moreover have "blocks_below (add_block B (j_cpus W c))"
    using o(6) H by (auto simp: blocks_below_def add_block_live [OF o(6)])
  ultimately show ?thesis using o(2) by (simp add: cpu_ok_def)
qed

section \<open>Translating\<close>

lemma cpu_ok_code:
  assumes "cpu_ok sn c (W\<lparr>j_maps := M, j_cpus := C(c := J)\<rparr>)"
  shows "cpu_ok sn c (W\<lparr>j_maps := M, j_cpus := C(c := J\<lparr>jc_nmeta := n, jc_code := k, jc_code_ptr := p\<rparr>)\<rparr>)"
proof -
  let ?J = "J\<lparr>jc_nmeta := n, jc_code := k, jc_code_ptr := p\<rparr>"
  have e: "tables_ok ?J = tables_ok J" "live ?J = live J" "words_queued ?J = words_queued J" "pending_list ?J = pending_list J"
    by (simp_all add: tables_ok_def live_def words_queued_def pending_list_def)
  have "cpu_coherent s (W\<lparr>j_maps := M, j_cpus := C(c := ?J)\<rparr>) K = cpu_coherent s (W\<lparr>j_maps := M, j_cpus := C(c := J)\<rparr>) K" for s K
    by (rule cpu_coherent_cong) simp_all
  moreover have "cpu_coherent s V ?J = cpu_coherent s V J" for s V by (simp add: cpu_coherent_def e)
  moreover have "pending_ok ms ?J = pending_ok ms J" "blocks_below ?J = blocks_below J" for ms
    by (simp_all add: pending_ok_def blocks_below_def e)
  ultimately show ?thesis using assms by (auto simp: cpu_ok_def coherent_def split: if_splits)
qed

text \<open>The new block put at the end of those to look at again.\<close>

lemma push_pending_ok:
  assumes "cpu_ok sn c W" "ring_next PENDING_LEN (jc_ptail (j_cpus W c)) \<noteq> jc_phead (j_cpus W c)"
    and "in_memory (j_mem_size W) (jc_blocks (j_cpus W c) b)" "b < jc_nblocks (j_cpus W c)"
  shows "cpu_ok sn c (on_cpu c (\<lambda>J. J\<lparr>jc_pending := (jc_pending J)(jc_ptail J := (b, st)),
    jc_ptail := ring_next PENDING_LEN (jc_ptail J)\<rparr>) W)"
proof -
  note o = cpu_okD [OF assms(1)]
  let ?f = "\<lambda>J. J\<lparr>jc_pending := (jc_pending J)(jc_ptail J := (b, st)), jc_ptail := ring_next PENDING_LEN (jc_ptail J)\<rparr>"
  let ?J = "j_cpus W c"
  have e: "tables_ok (?f J) = tables_ok J" "live (?f J) = live J" "words_queued (?f J) = words_queued J" for J
    by (simp_all add: tables_ok_def live_def words_queued_def)
  have "cpu_coherent s (on_cpu c ?f W) K = cpu_coherent s W K" for s K by (rule cpu_coherent_cong) simp_all
  moreover have "cpu_coherent s W (?f J) = cpu_coherent s W J" for s J by (simp add: cpu_coherent_def e)
  ultimately have "coherent sn (on_cpu c ?f W)" using o(1) by (auto simp: coherent_def)
  moreover have t: "jc_phead ?J < PENDING_LEN" "jc_ptail ?J < PENDING_LEN" using o(3) by (simp_all add: pending_ok_def)
  have rn: "ring_next PENDING_LEN i < PENDING_LEN" for i by (simp add: PENDING_LEN_def)
  have l: "pending_list (?f ?J) = pending_list ?J @ [(b, st)]"
    using ring_list_push [OF t assms(2)] by (simp add: pending_list_def)
  have "pending_ok (j_mem_size W) (?f ?J)" "blocks_below (?f ?J)"
    using o(3,6) assms(3,4) rn by (auto simp: pending_ok_def blocks_below_def l e)
  ultimately show ?thesis using o(2) by (simp add: cpu_ok_def)
qed

lemma block_code_marks:
  assumes "block_code T E n copy (B, M, X) = Some (iv, B', M', X')" "marked 0 (B, M)"
    and "unat (jb_start B) mod 8 = 0" "unat (jb_start B) + 24 * n < 2 ^ 64"
  shows "\<exists>B1. B' = B1\<lparr>jb_n := jb_n B'\<rparr> \<and> same_block B B1 \<and> marked (3 * jb_n B') (B', M') \<and> gains M M' \<and> jb_n B' \<le> n \<and> (0 < n \<longrightarrow> 0 < jb_n B')"
proof -
  obtain ended k B1 J0 J1 where t: "translate_insns E (jb_start B) [0..<n] (B, M, J0) = Some (ended, k, B1, M', J1)" "B' = B1\<lparr>jb_n := k\<rparr>"
    using assms(1) by (auto simp: block_code_def Let_def split_beta split: bind_splits)
  have m: "marked (3 * 0) (B, M)" using assms(2) by simp
  have "marked (3 * k) (B1, M') \<and> gains M M' \<and> same_block B B1 \<and> k \<le> n \<and> (0 < n \<longrightarrow> 0 < k)"
    using translate_insns_marks [OF t(1) m refl assms(3,4)] by simp
  moreover have "marked (3 * k) (B', M') = marked (3 * k) (B1, M')"
    by (simp add: marked_def t(2) smask_get_def field_word_def)
  ultimately show ?thesis using t(2) by (intro exI [of _ B1]) simp
qed

lemma hoist_words_small: "w \<in> set (hoist_words E start n) \<Longrightarrow> w < drop_bit 3 (te_mem_size E)"
proof -
  have tw: "w \<in> set (target_words E b) \<Longrightarrow> w < drop_bit 3 (te_mem_size E)" for w b
    by (auto simp: target_words_def dest: set_takeWhileD)
  have ah: "set (fold add_hoist ws hs) = set hs \<union> set ws" for ws hs
    by (induction ws arbitrary: hs) (auto simp: add_hoist_def)
  have "\<forall>w\<in>set (fold (\<lambda>k hs. let p = start + 24 * of_nat k in
      if is_dynamic E (p + 8) start then hs else fold add_hoist (target_words E (rd (te_mem E) (p + 8))) hs) ks hs).
      w < drop_bit 3 (te_mem_size E)" if "\<forall>w\<in>set hs. w < drop_bit 3 (te_mem_size E)" for ks hs
    using that
  proof (induction ks arbitrary: hs)
    case (Cons k ks)
    show ?case unfolding fold_simps by (rule Cons.IH) (use Cons.prems in \<open>auto simp: Let_def ah dest: tw\<close>)
  qed simp
  from this [of "[]"] show "w \<in> set (hoist_words E start n) \<Longrightarrow> w < drop_bit 3 (te_mem_size E)" by (simp add: hoist_words_def)
qed

lemma aligned_mod8: "(a :: u64) AND 7 = 0 \<Longrightarrow> unat a mod 8 = 0"
  by (simp add: aligned8_iff)

lemma meta_alloc_Some: "meta_alloc n J = (Some h, J') \<Longrightarrow> \<exists>m. J' = J\<lparr>jc_nmeta := m\<rparr>"
  by (auto simp: meta_alloc_def split: if_splits)

lemma translateE:
  fixes W :: jit
  assumes "translate fuel T c start (W, X, ep) = Some (r, W', X', ep')" "\<not> (start AND 7 \<noteq> 0 \<or> start + 24 > j_mem_size W)"
  defines "W1 \<equiv> if translate_needs_flush T (j_cpus W c) then on_cpu c flush W else W"
  defines "b \<equiv> jc_nblocks (j_cpus W1 c)"
  defines "E \<equiv> \<lambda>wrt. \<lparr>te_mem = j_mem W1, te_dyn_map = j_dyn_map W1, te_written = wrt, te_mem_size = j_mem_size W1,
    te_page_off = tc_page_off T\<rparr>"
  defines "B0 \<equiv> \<lambda>hs. \<lparr>jb_start = start, jb_n = 0, jb_entry = jc_code_ptr (j_cpus W1 c), jb_inv_stub = 0, jb_incoming = [], jb_hoist = hs,
    jb_smask = (\<lambda>_. 0), jb_shash = 0x9e3779b97f4a7c15, jb_valid = True\<rparr>"
  obtains mc n wrt d iv B M X1 nm ko kp kq W2 where
    "scan_block fuel (E (\<lambda>_. False)) (j_cpus W1 c) mc start (if mc then 19 else JIT_MAX_BLOCK) start 0 (\<lambda>_. False) = Some (n, wrt)"
    "block_code T (E wrt) n d (B0 (hoist_words (E wrt) start n), j_maps W1, X) = Some (iv, B, M, X1)"
    "wait_pending fuel fuel c (W1\<lparr>j_maps := M, j_cpus := (j_cpus W1)(c := (j_cpus W1 c)\<lparr>jc_nblocks := b + 1, jc_nmeta := nm,
       jc_blocks := (jc_blocks (j_cpus W1 c))(b := B\<lparr>jb_inv_stub := kp\<rparr>), jc_code := ko, jc_code_ptr := kq,
       jc_htab := (jc_htab (j_cpus W1 c))(hash start := b # jc_htab (j_cpus W1 c) (hash start))\<rparr>)\<rparr>) = Some W2"
    "W' = on_cpu c (\<lambda>J. J\<lparr>jc_pending := (jc_pending J)(jc_ptail J := (b, ep + 1)), jc_ptail := ring_next PENDING_LEN (jc_ptail J)\<rparr>) W2"
    "r = Some b"
proof -
  let ?J = "(j_cpus W1 c)\<lparr>jc_nblocks := b + 1\<rparr>"
  define mc where "mc = match_copy (j_mem W1) (j_dyn_map W1) (j_mem_size W1) start"
  define al1 where "al1 = (\<lambda>(w :: nat) (J :: jit_cpu). case meta_alloc w J of (None, _) \<Rightarrow> None | (Some h, J) \<Rightarrow> Some (h, J))"
  define al2 where "al2 = (\<lambda>copy (J :: jit_cpu). if \<not> copy then Some (None, J)
    else case meta_alloc 7 J of (None, _) \<Rightarrow> None | (Some d, J) \<Rightarrow> Some (Some d, J))"
  have a1: "\<exists>m. J' = J\<lparr>jc_nmeta := m\<rparr>" if "al1 w J = Some (h, J')" for w J h J'
    using that meta_alloc_Some [of w J] by (auto simp: al1_def split: prod.splits option.splits)
  have a2: "\<exists>m. J' = J\<lparr>jc_nmeta := m\<rparr>" if "al2 copy J = Some (d, J')" for copy J d J'
    using that meta_alloc_Some [of 7 J] by (auto simp: al2_def split: prod.splits option.splits if_splits intro: exI [of _ "jc_nmeta J"])
  obtain n wrt h J1 d J2 iv B M X1 W2 where s:
    "scan_block fuel (E (\<lambda>_. False)) (j_cpus W1 c) (mc \<noteq> None) start (if mc \<noteq> None then 19 else JIT_MAX_BLOCK) start 0 (\<lambda>_. False) = Some (n, wrt)"
    "al1 (length (hoist_words (E wrt) start n)) ?J = Some (h, J1)" "al2 (mc \<noteq> None \<and> n = 19) J1 = Some (d, J2)"
    "block_code T (E wrt) n d ((B0 (hoist_words (E wrt) start n))\<lparr>jb_entry := jc_code_ptr J2\<rparr>, j_maps W1, X) = Some (iv, B, M, X1)"
    "wait_pending fuel fuel c (W1\<lparr>j_maps := M, j_cpus := (j_cpus W1)(c := J2\<lparr>
       jc_blocks := (jc_blocks J2)(b := B\<lparr>jb_inv_stub := jc_code_ptr J2 + of_nat iv\<rparr>),
       jc_code := put_code (jc_code_ptr J2) (em_code X1) (jc_code J2), jc_code_ptr := jc_code_ptr J2 + of_nat (length (em_code X1)),
       jc_htab := (jc_htab J2)(hash start := b # jc_htab J2 (hash start))\<rparr>)\<rparr>) = Some W2"
    "W' = on_cpu c (\<lambda>J. J\<lparr>jc_pending := (jc_pending J)(jc_ptail J := (b, ep + 1)), jc_ptail := ring_next PENDING_LEN (jc_ptail J)\<rparr>) W2"
    "r = Some b"
    using assms(1) unfolding translate_def prod.case if_not_P [OF assms(2)] W1_def [symmetric] Let_def mc_def [symmetric]
      al1_def [symmetric, THEN fun_cong, THEN fun_cong] al2_def [symmetric, THEN fun_cong, THEN fun_cong]
    by (auto simp: E_def B0_def b_def on_cpu_def split: bind_splits prod.splits)
  have "\<exists>nm. J2 = ?J\<lparr>jc_nmeta := nm\<rparr>" using a1 [OF s(2)] a2 [OF s(3)] by auto
  then obtain nm where j: "J2 = ?J\<lparr>jc_nmeta := nm\<rparr>" by blast
  show thesis by (rule that [OF s(1) _ _ s(6,7)]) (use s(4,5) in \<open>simp_all add: j B0_def\<close>)
qed

lemma translate_ok:
  assumes "translate fuel T c start (W, X, ep) = Some (r, W', X', ep')" "cpu_ok sn c W" "lookup (j_cpus W c) start = None"
    and "unat start + 24 < 2 ^ 64"
  shows "\<exists>sn'. cpu_ok sn' c W' \<and> same_world W W' \<and>
    (case r of None \<Rightarrow> W' = W
     | Some b \<Rightarrow> b < jc_nblocks (j_cpus W' c) \<and> jb_start (jc_blocks (j_cpus W' c) b) = start \<and> 0 < jb_n (jc_blocks (j_cpus W' c) b) \<and>
         in_memory (j_mem_size W') (jc_blocks (j_cpus W' c) b))"
proof (cases "start AND 7 \<noteq> 0 \<or> start + 24 > j_mem_size W")
  case True
  then show ?thesis using assms(1,2) by (auto simp: translate_def)
next
  case False
  define W1 where "W1 = (if translate_needs_flush T (j_cpus W c) then on_cpu c flush W else W)"
  have w1: "cpu_ok sn c W1" "same_world W W1" "lookup (j_cpus W1 c) start = None"
    using flush_ok [OF assms(2)] assms(2,3) by (auto simp: W1_def)
  note o = cpu_okD [OF w1(1)]
  define b where "b = jc_nblocks (j_cpus W1 c)"
  define E where "E = (\<lambda>wrt. \<lparr>te_mem = j_mem W1, te_dyn_map = j_dyn_map W1, te_written = wrt, te_mem_size = j_mem_size W1,
    te_page_off = tc_page_off T\<rparr>)"
  define N where "N = (\<lambda>hs. \<lparr>jb_start = start, jb_n = 0, jb_entry = jc_code_ptr (j_cpus W1 c), jb_inv_stub = 0, jb_incoming = [], jb_hoist = hs,
    jb_smask = (\<lambda>_. 0), jb_shash = 0x9e3779b97f4a7c15, jb_valid = True\<rparr>)"
  obtain mc n wrt d iv B M X1 nm ko kp kq W2 where s:
    "scan_block fuel (E (\<lambda>_. False)) (j_cpus W1 c) mc start (if mc then 19 else JIT_MAX_BLOCK) start 0 (\<lambda>_. False) = Some (n, wrt)"
    "block_code T (E wrt) n d (N (hoist_words (E wrt) start n), j_maps W1, X) = Some (iv, B, M, X1)"
    "wait_pending fuel fuel c (W1\<lparr>j_maps := M, j_cpus := (j_cpus W1)(c := (j_cpus W1 c)\<lparr>jc_nblocks := b + 1, jc_nmeta := nm,
       jc_blocks := (jc_blocks (j_cpus W1 c))(b := B\<lparr>jb_inv_stub := kp\<rparr>), jc_code := ko, jc_code_ptr := kq,
       jc_htab := (jc_htab (j_cpus W1 c))(hash start := b # jc_htab (j_cpus W1 c) (hash start))\<rparr>)\<rparr>) = Some W2"
    "W' = on_cpu c (\<lambda>J. J\<lparr>jc_pending := (jc_pending J)(jc_ptail J := (b, ep + 1)), jc_ptail := ring_next PENDING_LEN (jc_ptail J)\<rparr>) W2"
    "r = Some b"
    unfolding E_def N_def by (rule translateE [OF assms(1) False, folded W1_def, folded b_def])
  define B0 where "B0 = N (hoist_words (E wrt) start n)"
  note code = s(2) [folded B0_def]
  have e: "te_mem_size (E w) = j_mem_size W1" "jb_start B0 = start" "jb_smask B0 = (\<lambda>_. 0)" "jb_valid B0" for w
    by (simp_all add: E_def B0_def N_def)
  have sz: "j_mem_size W1 = j_mem_size W" using w1(2) by (simp add: same_world_def)
  have st: "unat start + 24 \<le> unat (j_mem_size W)" "unat start mod 8 = 0"
    using False unat_add_of_nat [of start 24] assms(4) aligned_mod8 by (simp_all add: word_less_nat_alt not_less)
  have n: "0 < n" "n \<le> JIT_MAX_BLOCK" "unat start + 24 * n \<le> unat (j_mem_size W)"
    using scan_block_extent [OF s(1)] e(1) sz o(5) assms(4) st(1) by (auto simp: JIT_MAX_BLOCK_def split: if_splits)
  have lim: "unat start + 24 * n < 2 ^ 64" using n(3) o(5) sz by simp
  have m0: "marked 0 (B0, j_maps W1)" by (simp add: marked_def smask_get_def e(3))
  obtain B1 where B: "B = B1\<lparr>jb_n := jb_n B\<rparr>" "same_block B0 B1" "marked (3 * jb_n B) (B, M)" "gains (j_maps W1) M" "jb_n B \<le> n" "0 < jb_n B"
    using block_code_marks [OF code m0] st(2) lim e(2) n(1) by auto
  define B2 where "B2 = B\<lparr>jb_inv_stub := kp\<rparr>"
  have b2s: "jb_start B2 = start" "jb_valid B2" "jb_n B2 = jb_n B"
    using B(1,2) e(2,4) by (simp_all add: B2_def same_block_def) (metis jit_block.select_convs(1,9) jit_block.surjective jit_block.update_convs(2))+
  have b2: "jb_n B2 \<le> JIT_MAX_BLOCK" "in_memory (j_mem_size W1) B2" "marked (3 * jb_n B2) (B2, M)"
    using n B(3,5) st(2) sz b2s by (auto simp: in_memory_def marked_def B2_def smask_get_def field_word_def)
  have H: "\<forall>w\<in>set (jb_hoist B2). unat w < 2 ^ 60"
  proof -
    have "jb_hoist B2 = hoist_words (E wrt) start n"
      using B(1,2) by (simp add: B2_def same_block_def B0_def N_def) (metis jit_block.select_convs(6) jit_block.surjective jit_block.update_convs(2))
    then show ?thesis using word_small [OF _ o(5)] hoist_words_small [of _ "E wrt" start n] e(1) by auto
  qed
  define sn' where "sn' = sn(c := (sn c)(b := \<lambda>f. load64 (j_mem W1) (jb_start B2 + 8 * of_nat f)))"
  define K where "K = (add_block B2 (j_cpus W1 c))\<lparr>jc_nmeta := nm, jc_code := ko, jc_code_ptr := kq\<rparr>"
  define W3 where "W3 = W1\<lparr>j_maps := M, j_cpus := (j_cpus W1)(c := K)\<rparr>"
  have "cpu_ok sn' c W3"
    using add_block_ok [OF w1(1) _ b2s(2) b2(1,2,3) B(4) H] w1(3) b2s(1)
    unfolding W3_def K_def sn'_def b_def by (intro cpu_ok_code) simp
  moreover have "wait_pending fuel fuel c W3 = Some W2"
  proof -
    have "(j_cpus W1 c)\<lparr>jc_nblocks := b + 1, jc_nmeta := nm, jc_blocks := (jc_blocks (j_cpus W1 c))(b := B2), jc_code := ko,
        jc_code_ptr := kq, jc_htab := (jc_htab (j_cpus W1 c))(hash start := b # jc_htab (j_cpus W1 c) (hash start))\<rparr> = K"
      by (rule jit_cpu.equality) (simp_all add: K_def add_block_def Let_def b2s(1) b_def)
    then show ?thesis using s(3) by (simp only: W3_def B2_def)
  qed
  ultimately have w2: "cpu_ok sn' c W2" "same_world W3 W2" "shrinks (j_cpus W3 c) (j_cpus W2 c)"
    "ring_next PENDING_LEN (jc_ptail (j_cpus W2 c)) \<noteq> jc_phead (j_cpus W2 c)"
    using wait_pending_ok by blast+
  have k: "jc_blocks (j_cpus W3 c) b = B2" "jc_nblocks (j_cpus W3 c) = b + 1" "j_mem_size W3 = j_mem_size W1" "same_world W1 W3"
    by (simp_all add: W3_def K_def b_def same_world_def)
  then have f: "fixed_parts (jc_blocks (j_cpus W2 c) b) = fixed_parts B2" "b < jc_nblocks (j_cpus W2 c)"
    using w2(3) by (auto simp: shrinks_def)
  have im: "in_memory (j_mem_size W2) (jc_blocks (j_cpus W2 c) b)"
    using b2(2) k(3) w2(2) by (simp add: fixed_parts_eq(6) [OF f(1)] same_world_def)
  have ok: "cpu_ok sn' c W'" unfolding s(4) by (rule push_pending_ok [OF w2(1,4) im f(2)])
  have sw: "same_world W2 W'" "jc_blocks (j_cpus W' c) = jc_blocks (j_cpus W2 c)" "jc_nblocks (j_cpus W' c) = jc_nblocks (j_cpus W2 c)"
    unfolding s(4) by (simp_all add: same_world_def)
  show ?thesis
    using ok same_world_trans [OF same_world_trans [OF w1(2) k(4)] same_world_trans [OF w2(2) sw(1)]] im sw b2s B(6)
      fixed_parts_eq(1,2) [OF f(1)] f(2)
    by (intro exI [of _ sn']) (simp add: s(5) same_world_def)
qed

end
