(* ===== verification/Jit_Run.thy ===== *)
theory Jit_Run
  imports Translate_Tables
begin

text \<open>
  The dispatcher of a CPU (\<open>jit_run\<close> of jit.c): it drops what other CPUs announced, finds or makes
  the block at \<open>eip\<close>, and enters it, or interprets an instruction where there is none. What the
  translated code does from a block's entry is a parameter, held to \<open>entry_ok\<close> in Jit_Dispatch.
\<close>

section \<open>State\<close>

text \<open>
  The fields of \<open>jit_cpu_t\<close> that only the dispatcher uses; \<open>st\<close> is \<open>dp_eip\<close> and \<open>dp_budget\<close>, and the
  last four are its counters in \<open>jit_stats_t\<close>.
\<close>

record disp =
  dp_exact :: bool
  dp_strong :: bool
  dp_weak :: u32
  dp_last_eip :: u64
  dp_eip :: u64
  dp_budget :: u64
  dp_entries :: u64
  dp_smc_exits :: u64
  dp_hoist_exits :: u64
  dp_executed :: u64

text \<open>Entering code: the way out is \<open>exit\<close>, 0 to 3 or the place of a jump that can be linked.\<close>

type_synonym enter = "u64 \<Rightarrow> jit \<times> u64 \<times> u64 \<Rightarrow> (jit \<times> u64 \<times> u64) \<times> u64"

type_synonym jit_state = "jit \<times> trans \<times> u64 \<times> disp"

section \<open>One turn of the loop\<close>

text \<open>An instruction interpreted where there is no block.\<close>

definition interp_turn :: "nat \<Rightarrow> jit_state \<Rightarrow> jit_state" where
  "interp_turn c = (\<lambda>(W, X, ep, D).
     let (W, next) = interp_step c (dp_eip D) W; strong = (next \<noteq> dp_eip D + 24)
     in (W, X, ep, D\<lparr>dp_strong := strong, dp_weak := (if strong then 0 else dp_weak D + 1), dp_eip := next,
                     dp_budget := dp_budget D - 1\<rparr>))"

text \<open>\<open>exit\<close> 1: the instruction at \<open>eip\<close> stores to translated code.\<close>

definition smc_turn :: "nat \<Rightarrow> jit_state \<Rightarrow> jit_state" where
  "smc_turn c = (\<lambda>(W, X, ep, D).
     let (W, next) = interp_step c (dp_eip D) W
     in (W, X, ep, D\<lparr>dp_smc_exits := dp_smc_exits D + 1, dp_strong := (next \<noteq> dp_eip D + 24), dp_eip := next,
                     dp_budget := dp_budget D - 1\<rparr>))"

text \<open>\<open>exit\<close> 2: the words the block at \<open>eip\<close> stores to that are translated code are dropped.\<close>

definition hoist_turn :: "nat \<Rightarrow> u64 \<Rightarrow> jit \<Rightarrow> jit" where
  "hoist_turn c eip W =
     (case lookup (j_cpus W c) eip of
        None \<Rightarrow> W
      | Some f \<Rightarrow>
          fold (\<lambda>w W. if bit_get (static_map (j_maps W)) w then smc_hit c w W else W) (jb_hoist (jc_blocks (j_cpus W c) f)) W)"

text \<open>Leaving by a jump that can be linked: to the block there, if there is one or it can be made.\<close>

definition link_turn :: "nat \<Rightarrow> tconf \<Rightarrow> nat \<Rightarrow> u64 \<Rightarrow> u64 \<Rightarrow> jit_state \<Rightarrow> jit_state option" where
  "link_turn fuel T c site gen = (\<lambda>(W, X, ep, D). do {
     (t, W, X, ep) \<leftarrow> (case lookup (j_cpus W c) (dp_eip D) of
                        Some t \<Rightarrow> Some (Some t, W, X, ep)
                      | None \<Rightarrow> translate fuel T c (dp_eip D) (W, X, ep));
     Some ((case t of
              Some t \<Rightarrow> if gen = js_flushes (jc_stats (j_cpus W c)) then on_cpu c (link_to site t) W else W
            | None \<Rightarrow> W), X, ep, D)
   })"

definition enter_turn :: "nat \<Rightarrow> tconf \<Rightarrow> enter \<Rightarrow> nat \<Rightarrow> nat \<Rightarrow> jit_state \<Rightarrow> (bool \<times> jit_state) option" where
  "enter_turn fuel T enter c b = (\<lambda>(W, X, ep, D). do {
     let gen = js_flushes (jc_stats (j_cpus W c));
     let ((W, eip, budget), ex) = enter (jb_entry (jc_blocks (j_cpus W c) b)) (W, dp_eip D, dp_budget D);
     let D = D\<lparr>dp_eip := eip, dp_budget := budget, dp_entries := dp_entries D + 1, dp_strong := True, dp_weak := 0\<rparr>;
     if ex = 3 then Some (False, W, X, ep, D)
     else if ex = 1 then Some (True, smc_turn c (W, X, ep, D))
     else if ex = 2 then Some (True, hoist_turn c (dp_eip D) W, X, ep, D\<lparr>dp_hoist_exits := dp_hoist_exits D + 1\<rparr>)
     else if ex > 3 then do { S \<leftarrow> link_turn fuel T c ex gen (W, X, ep, D); Some (True, S) }
     else Some (True, W, X, ep, D)
   })"

text \<open>What a turn starts with: announcing it has seen the epoch, and dropping what others dropped.\<close>

definition refresh :: "nat \<Rightarrow> nat \<Rightarrow> u64 \<Rightarrow> jit \<Rightarrow> jit option" where
  "refresh fuel c ep W = do {
     let W = W\<lparr>j_quiet := (j_quiet W)(c := ep)\<rparr>;
     J \<leftarrow> drain_queue fuel (j_cpus W c);
     revalidate fuel c (on_cpu c (\<lambda>_. J) W)
   }"

text \<open>The block at \<open>eip\<close>, made if need be where control came by a jump or has long gone without a block.\<close>

definition next_block :: "nat \<Rightarrow> tconf \<Rightarrow> nat \<Rightarrow> jit_state \<Rightarrow> (nat option \<times> jit_state) option" where
  "next_block fuel T c = (\<lambda>(W, X, ep, D).
     let b = lookup (j_cpus W c) (dp_eip D)
     in if b = None \<and> (dp_strong D \<or> of_nat JIT_MAX_BLOCK \<le> dp_weak D)
        then do { (b, W, X, ep) \<leftarrow> translate fuel T c (dp_eip D) (W, X, ep); Some (b, W, X, ep, D) }
        else Some (b, W, X, ep, D))"

text \<open>Whether the loop goes on, and the state. \<open>None\<close> is a loop still running when the fuel is out.\<close>

definition run_block :: "nat \<Rightarrow> tconf \<Rightarrow> enter \<Rightarrow> nat \<Rightarrow> nat option \<Rightarrow> jit_state \<Rightarrow> (bool \<times> jit_state) option" where
  "run_block fuel T enter c b = (\<lambda>(W, X, ep, D).
     let interp = Some (if dp_budget D = 0 then (False, W, X, ep, D) else (True, interp_turn c (W, X, ep, D)))
     in case b of
          None \<Rightarrow> interp
        | Some b \<Rightarrow>
            let n = of_nat (jb_n (jc_blocks (j_cpus W c) b))
            in if dp_exact D \<and> n > dp_budget D then interp
               else if n > dp_budget D then Some (False, W, X, ep, D)
               else enter_turn fuel T enter c b (W, X, ep, D))"

definition jit_turn :: "nat \<Rightarrow> tconf \<Rightarrow> enter \<Rightarrow> nat \<Rightarrow> jit_state \<Rightarrow> (bool \<times> jit_state) option" where
  "jit_turn fuel T enter c = (\<lambda>(W, X, ep, D). do {
     W \<leftarrow> refresh fuel c ep W;
     (b, S) \<leftarrow> next_block fuel T c (W, X, ep, D);
     run_block fuel T enter c b S
   })"

section \<open>The loop\<close>

fun jit_loop :: "nat \<Rightarrow> nat \<Rightarrow> tconf \<Rightarrow> enter \<Rightarrow> nat \<Rightarrow> jit_state \<Rightarrow> jit_state option" where
  "jit_loop 0 rf T enter c S = None"
| "jit_loop (Suc fuel) rf T enter c S = do {
     (on, S) \<leftarrow> jit_turn rf T enter c S;
     if on then jit_loop fuel rf T enter c S else Some S
   }"

definition jit_begin :: "u64 \<Rightarrow> u64 \<Rightarrow> disp \<Rightarrow> disp" where
  "jit_begin eip budget D =
     (let D = (if eip \<noteq> dp_last_eip D then D\<lparr>dp_strong := False, dp_weak := 0\<rparr> else D)
      in D\<lparr>dp_eip := eip, dp_budget := budget\<rparr>)"

definition jit_run :: "nat \<Rightarrow> nat \<Rightarrow> tconf \<Rightarrow> enter \<Rightarrow> nat \<Rightarrow> u64 \<Rightarrow> u64 \<Rightarrow> jit_state \<Rightarrow> (u64 \<times> jit_state) option" where
  "jit_run fuel rf T enter c eip budget = (\<lambda>(W, X, ep, D). do {
     (W, X, ep, D) \<leftarrow> jit_loop fuel rf T enter c (W, X, ep, jit_begin eip budget D);
     Some (dp_eip D, W\<lparr>j_quiet := (j_quiet W)(c := - 1)\<rparr>, X, ep, 
       D\<lparr>dp_executed := dp_executed D + (budget - dp_budget D), dp_last_eip := dp_eip D\<rparr>)
   })"

section \<open>Settings and samples\<close>

definition jit_set_mem_size :: "u64 \<Rightarrow> jit \<Rightarrow> jit" where
  "jit_set_mem_size n W = W\<lparr>j_mem_size := n\<rparr>"

definition jit_set_watch :: "u64 \<Rightarrow> u64 \<Rightarrow> tconf \<Rightarrow> tconf" where
  "jit_set_watch a v T = T\<lparr>tc_watch_addr := a, tc_watch_value := v\<rparr>"

text \<open>Samples outside translated code are counted by line, in a table with open addressing.\<close>

record samples =
  sm_blocks :: "nat \<Rightarrow> u32"
  sm_in :: u32
  sm_out :: u32
  sm_lines :: "nat \<Rightarrow> u64 \<times> u32"

definition line_hash :: "u64 \<Rightarrow> nat" where
  "line_hash line = unat (drop_bit 26 (ucast (drop_bit 6 line * 0x9e3779b1) :: u32))"

fun count_line :: "nat \<Rightarrow> nat \<Rightarrow> u64 \<Rightarrow> (nat \<Rightarrow> u64 \<times> u32) \<Rightarrow> (nat \<Rightarrow> u64 \<times> u32)" where
  "count_line 0 h line L = L"
| "count_line (Suc k) h line L =
     (if fst (L h) = line \<or> snd (L h) = 0 then L(h := (line, snd (L h) + 1))
      else count_line k ((h + 1) mod 64) line L)"

text \<open>The last block at or before \<open>p\<close>, as blocks are made in the order of their code.\<close>

function find_block :: "(nat \<Rightarrow> u64) \<Rightarrow> u64 \<Rightarrow> nat \<Rightarrow> nat \<Rightarrow> nat" where
  "find_block entry p lo hi =
     (if hi - lo > 1 then
        let mid = (lo + hi) div 2
        in if entry mid \<le> p then find_block entry p mid hi else find_block entry p lo mid
      else lo)"
  by pat_completeness auto

termination
  by (relation "measure (\<lambda>(entry, p, lo, hi). hi - lo)") auto

definition jit_sample :: "bool \<Rightarrow> nat \<Rightarrow> u64 \<Rightarrow> jit \<Rightarrow> samples \<Rightarrow> samples" where
  "jit_sample enabled cpu rip W S =
     (if \<not> enabled \<or> j_ncpus W \<le> cpu then S
      else
        let J = j_cpus W cpu
        in if rip < jc_code_base J \<or> jc_code_ptr J \<le> rip then
             let S = S\<lparr>sm_out := sm_out S + 1\<rparr>; line = rip AND NOT 63
             in S\<lparr>sm_lines := count_line 64 (line_hash line) line (sm_lines S)\<rparr>
           else if jc_nblocks J = 0 then S
           else
             let b = find_block (\<lambda>i. jb_entry (jc_blocks J i)) rip 0 (jc_nblocks J)
             in S\<lparr>sm_blocks := (sm_blocks S)(b := sm_blocks S b + 1), sm_in := sm_in S + 1\<rparr>)"

text \<open>
  Putting a count in its place among the \<open>mx\<close> largest, largest first, in the caller's array, of which
  \<open>n\<close> entries are in use. The last entry is compared when it is taken, too.
\<close>

fun top_shift :: "nat \<Rightarrow> u64 \<times> u32 \<Rightarrow> (nat \<Rightarrow> u64 \<times> u32) \<Rightarrow> (nat \<Rightarrow> u64 \<times> u32)" where
  "top_shift 0 x A = A(0 := x)"
| "top_shift (Suc i) x A = (if snd (A i) < snd x then top_shift i x (A(Suc i := A i)) else A(Suc i := x))"

definition top_add :: "nat \<Rightarrow> u64 \<times> u32 \<Rightarrow> nat \<times> (nat \<Rightarrow> u64 \<times> u32) \<Rightarrow> nat \<times> (nat \<Rightarrow> u64 \<times> u32)" where
  "top_add mx x = (\<lambda>(n, A).
     if snd x = 0 then (n, A)
     else
       let (i, n) = (if n < mx then (n, n + 1) else (mx - 1, n))
       in if i = mx - 1 \<and> n = mx \<and> snd x \<le> snd (A i) then (n, A) else (n, top_shift i x A))"

definition jit_top_samples :: "nat \<Rightarrow> jit_cpu \<Rightarrow> samples \<Rightarrow> (nat \<Rightarrow> u64 \<times> u32) \<Rightarrow> nat \<times> (nat \<Rightarrow> u64 \<times> u32) \<times> u32 \<times> samples" where
  "jit_top_samples mx J S A =
     (let (n, A) = fold (\<lambda>k. top_add mx (sm_lines S k)) [0..<64] (0, A);
          (n, A) = fold (\<lambda>b. top_add mx (jb_start (jc_blocks J b), sm_blocks S b)) [0..<jc_nblocks J] (n, A)
      in (n, A, sm_in S + sm_out S,
          S\<lparr>sm_lines := (\<lambda>k. if k < 64 then (fst (sm_lines S k), 0) else sm_lines S k),
            sm_blocks := (\<lambda>b. if b < jc_nblocks J then 0 else sm_blocks S b), sm_in := 0, sm_out := 0\<rparr>))"

section \<open>What each part keeps\<close>

lemma smc_hit_ok:
  assumes "cpu_ok sn c W" "unat w < 2 ^ 60"
  shows "cpu_ok sn c (smc_hit c w W) \<and> same_world W (smc_hit c w W) \<and> drops (j_cpus W c) (j_cpus (smc_hit c w W) c)"
proof -
  note o = cpu_okD [OF assms(1)]
  note d = smc_hit_own [of W c w]
  show ?thesis
    using coherent_smc_hit [OF o(1) assms(2)] o(2,3) blocks_below_drops [OF o(6) d o(4)] drops_pending(2) [OF d] d
    by (simp add: cpu_ok_def same_world_def)
qed

lemma store_check_ok:
  assumes "cpu_ok sn c W"
  shows "cpu_ok sn c (store_check c b W) \<and> drops (j_cpus W c) (j_cpus (store_check c b W) c)"
proof -
  note sz = cpu_okD(5) [OF assms]
  define W1 where "W1 = (if drop_bit 3 b < drop_bit 3 (j_mem_size W) \<and> bit_get (static_map (j_maps W)) (drop_bit 3 b)
    then smc_hit c (drop_bit 3 b) W else W)"
  have a: "cpu_ok sn c W1" "drops (j_cpus W c) (j_cpus W1 c)" "j_mem_size W1 = j_mem_size W"
    using smc_hit_ok [OF assms word_small [OF _ sz]] assms by (auto simp: W1_def same_world_def)
  show ?thesis
    using smc_hit_ok [OF a(1) word_small [OF _ sz]] a drops_trans [OF a(2)]
    unfolding store_check_def Let_def W1_def [symmetric] by auto
qed

lemma cpu_ok_drops_cong:
  assumes "cpu_ok sn c W" "coherent sn W'" "j_ncpus W' = j_ncpus W" "j_mem_size W' = j_mem_size W"
    and "drops (j_cpus W c) (j_cpus W' c)"
  shows "cpu_ok sn c W'"
  using assms blocks_below_drops [OF cpu_okD(6) [OF assms(1)] assms(5) cpu_okD(4) [OF assms(1)]] drops_pending(2) [OF assms(5)]
  by (simp add: cpu_ok_def)

lemma interp_step_ok:
  assumes "cpu_ok sn c W"
  shows "cpu_ok sn c (fst (interp_step c eip W)) \<and>
    (j_mem (fst (interp_step c eip W)), snd (interp_step c eip W)) = subleq_step (j_mem W, eip) \<and>
    j_mem_size (fst (interp_step c eip W)) = j_mem_size W"
proof -
  define b v where "b = dawn_readram (j_mem W) (eip + 8)"
    and "v = dawn_readram (j_mem W) b - dawn_readram (j_mem W) (dawn_readram (j_mem W) eip)"
  let ?f = "\<lambda>J. J\<lparr>jc_stats := jc_stats J\<lparr>js_interp_steps := js_interp_steps (jc_stats J) + 1\<rparr>\<rparr>"
  have e: "fst (interp_step c eip W) = on_cpu c ?f ((store_check c b W)\<lparr>j_mem := dawn_writeram (j_mem (store_check c b W)) b v\<rparr>)"
    by (simp add: interp_step_def Let_def b_def v_def)
  have "drops (j_cpus W c) (j_cpus (fst (interp_step c eip W)) c)"
    unfolding e using drops_trans [OF conjunct2 [OF store_check_ok [OF assms]] drops_stats] by simp
  moreover have "coherent sn (fst (interp_step c eip W))" by (rule coherent_interp_step [OF cpu_okD(1) [OF assms]])
  moreover have "(j_mem (fst (interp_step c eip W)), snd (interp_step c eip W)) = subleq_step (j_mem W, eip)"
    by (simp add: interp_step_def subleq_step_def Let_def)
  ultimately show ?thesis using cpu_ok_drops_cong [OF assms] by (simp add: e)
qed

lemma link_to_drops:
  "fixed_parts (jc_blocks (link_to site t J) b) = fixed_parts (jc_blocks J b)"
  "jc_htab (link_to site t J) = jc_htab J" "words_queued (link_to site t J) = words_queued J"
  "pending_list (link_to site t J) = pending_list J" "jc_nblocks (link_to site t J) = jc_nblocks J"
  "jb_valid (jc_blocks (link_to site t J) b) = jb_valid (jc_blocks J b)"
  by (auto simp: link_to_def Let_def fixed_parts_def words_queued_def pending_list_def split: list.splits)

lemma link_to_ok:
  assumes "cpu_ok sn c W"
  shows "cpu_ok sn c (on_cpu c (link_to site t) W)"
proof -
  let ?J = "j_cpus W c"
  have f: "fixed_parts (jc_blocks (link_to site t ?J) b) = fixed_parts (jc_blocks ?J b)" for b by (rule link_to_drops(1))
  have s: "jb_start (jc_blocks (link_to site t ?J) b) = jb_start (jc_blocks ?J b)"
    "jb_n (jc_blocks (link_to site t ?J) b) = jb_n (jc_blocks ?J b)" for b
    using fixed_parts_eq [OF f] by simp_all
  have q: "jc_qhead (link_to site t J) = jc_qhead J \<and> jc_qtail (link_to site t J) = jc_qtail J \<and> jc_queue (link_to site t J) = jc_queue J \<and>
      jc_qoverflow (link_to site t J) = jc_qoverflow J \<and> jc_phead (link_to site t J) = jc_phead J \<and> jc_ptail (link_to site t J) = jc_ptail J \<and>
      jc_pending (link_to site t J) = jc_pending J" for J
    by (auto simp: link_to_def Let_def split: list.splits)
  have "tables_ok (link_to site t ?J) = tables_ok ?J"
    by (simp add: tables_ok_def block_ok_def link_to_drops(2,6) s q)
  moreover have "live (link_to site t ?J) = live ?J" by (simp add: live_def link_to_drops(2) s)
  ultimately have d: "drops ?J (link_to site t ?J)"
    using f q by (simp add: drops_def link_to_drops(5))
  have "cpu_coherent s W (link_to site t ?J) = cpu_coherent s W ?J" for s
    using drops_blk [OF d] \<open>tables_ok _ = _\<close> \<open>live _ = _\<close> q by (simp add: cpu_coherent_def link_to_drops(3))
  moreover have "cpu_coherent s (on_cpu c (link_to site t) W) K = cpu_coherent s W K" for s K by (rule cpu_coherent_cong) simp_all
  ultimately have "coherent sn (on_cpu c (link_to site t) W)" using cpu_okD(1) [OF assms] by (auto simp: coherent_def)
  then show ?thesis using cpu_ok_drops_cong [OF assms] d by simp
qed

lemma drain_words_keeps:
  assumes "drain_words fuel J = Some J'" "tables_ok J"
  shows "(\<forall>b. fixed_parts (jc_blocks J' b) = fixed_parts (jc_blocks J b)) \<and> live J' \<subseteq> live J \<and> pending_list J' = pending_list J \<and>
    jc_phead J' = jc_phead J \<and> jc_ptail J' = jc_ptail J \<and> jc_nblocks J' = jc_nblocks J"
  using assms
proof (induction fuel arbitrary: J)
  case (Suc fuel)
  show ?case
  proof (cases "jc_qhead J = jc_qtail J")
    case False
    define J1 where "J1 = invalidate_word (jc_queue J (jc_qhead J)) J"
    have d: "drops J J1" unfolding J1_def by (rule invalidate_word_drops)
    have t1: "tables_ok J1" "live J1 \<subseteq> live J" using d Suc.prems(2) by (simp_all add: drops_def)
    define J2 where "J2 = J1\<lparr>jc_qhead := ring_next QUEUE_LEN (jc_qhead J)\<rparr>"
    have "tables_ok J2" using t1(1) by (simp add: J2_def tables_ok_def QUEUE_LEN_def)
    moreover have "jc_qhead J1 = jc_qhead J" using d by (simp add: drops_def)
    then have "drain_words fuel J2 = Some J'" using Suc.prems(1) False by (simp add: J1_def J2_def Let_def)
    moreover have "jc_blocks J2 = jc_blocks J1" "live J2 = live J1" "pending_list J2 = pending_list J1"
      "jc_phead J2 = jc_phead J1" "jc_ptail J2 = jc_ptail J1" "jc_nblocks J2 = jc_nblocks J1"
      by (simp_all add: J2_def live_def pending_list_def)
    ultimately show ?thesis using Suc.IH [of J2] t1(2) d drops_pending(1) [OF d] by (auto simp: drops_def)
  qed (use Suc.prems in simp)
qed simp

lemma drain_ok:
  assumes "cpu_ok sn c W" "QUEUE_LEN \<le> fuel"
  shows "\<exists>J. drain_queue fuel (j_cpus W c) = Some J \<and> cpu_ok sn c (on_cpu c (\<lambda>_. J) W)"
proof -
  note o = cpu_okD [OF assms(1)]
  have "cpu_coherent (sn c) W (j_cpus W c)" using o(1,2) by (simp add: coherent_def)
  from drain_queue_coherent [OF this o(5) assms(2)] obtain J
    where J: "drain_queue fuel (j_cpus W c) = Some J" "cpu_coherent (sn c) W J" by blast
  have "cpu_coherent s (on_cpu c (\<lambda>_. J) W) K = cpu_coherent s W K" for s K by (rule cpu_coherent_cong) simp_all
  then have co: "coherent sn (on_cpu c (\<lambda>_. J) W)" using o(1) J(2) by (auto simp: coherent_def)
  have "pending_ok (j_mem_size W) J \<and> blocks_below J"
  proof (cases "jc_qoverflow (j_cpus W c)")
    case True
    then have "J = flush ((j_cpus W c)\<lparr>jc_qoverflow := False, jc_qhead := jc_qtail (j_cpus W c)\<rparr>)"
      using J(1) by (simp add: drain_queue_def)
    then have "live J = {}" "pending_list J = []" "jc_phead J = 0" "jc_ptail J = 0"
      by (simp_all add: flush_def live_def pending_list_def ring_list_def ring_len_def)
    then show ?thesis by (simp add: pending_ok_def blocks_below_def PENDING_LEN_def)
  next
    case False
    then have "drain_words fuel (j_cpus W c) = Some J" using J(1) by (simp add: drain_queue_def)
    note k = drain_words_keeps [OF this o(4)]
    have "jb_hoist (jc_blocks J b) = jb_hoist (jc_blocks (j_cpus W c) b)" for b using k by (simp add: fixed_parts_def)
    then show ?thesis
      using o(3,6) k fixed_parts_eq(6) [of "jc_blocks J b" "jc_blocks (j_cpus W c) b" for b]
      by (auto simp: pending_ok_def blocks_below_def)
  qed
  then show ?thesis using J(1) co o(2) by (auto simp: cpu_ok_def)
qed

text \<open>The epoch a CPU says it has seen plays no part in what is coherent.\<close>

lemma quiet_ok: "cpu_ok sn c (W\<lparr>j_quiet := q\<rparr>) = cpu_ok sn c W"
proof -
  have "cpu_coherent s (W\<lparr>j_quiet := q\<rparr>) J = cpu_coherent s W J" for s J by (rule cpu_coherent_cong) simp_all
  then show ?thesis by (simp add: cpu_ok_def coherent_def)
qed

lemma refresh_ok:
  assumes "cpu_ok sn c W" "QUEUE_LEN \<le> fuel" "PENDING_LEN \<le> fuel"
  shows "\<exists>W'. refresh fuel c ep W = Some W' \<and> cpu_ok sn c W' \<and> same_world W W'"
proof -
  let ?W = "W\<lparr>j_quiet := (j_quiet W)(c := ep)\<rparr>"
  obtain J where J: "drain_queue fuel (j_cpus W c) = Some J" "cpu_ok sn c (on_cpu c (\<lambda>_. J) ?W)"
    using drain_ok [of sn c ?W] assms(1,2) by (auto simp: quiet_ok)
  let ?V = "on_cpu c (\<lambda>_. J) ?W"
  note o = cpu_okD [OF J(2)]
  have "\<exists>W'. revalidate fuel c ?V = Some W'"
  proof (cases "jc_phead (j_cpus ?V c) = jc_ptail (j_cpus ?V c)")
    case False
    have "length (pending_list (j_cpus ?V c)) < fuel"
      using o(3) assms(3) ring_len_less [of "jc_phead (j_cpus ?V c)" PENDING_LEN "jc_ptail (j_cpus ?V c)"]
      by (simp add: pending_ok_def pending_list_def)
    then show ?thesis using revalidate_loop_props [OF o(1-3)] False by (fastforce simp: revalidate_def)
  qed (simp add: revalidate_def)
  then obtain W' where w: "revalidate fuel c ?V = Some W'" by blast
  have "same_world W ?V" by (simp add: same_world_def)
  then show ?thesis using revalidate_ok [OF w J(2)] J(1) w same_world_trans by (auto simp: refresh_def)
qed

lemma hoist_turn_ok:
  assumes "cpu_ok sn c W"
  shows "cpu_ok sn c (hoist_turn c eip W) \<and> same_world W (hoist_turn c eip W)"
proof -
  have f: "cpu_ok sn c (fold (\<lambda>w W. if bit_get (static_map (j_maps W)) w then smc_hit c w W else W) ws W) \<and>
      same_world W (fold (\<lambda>w W. if bit_get (static_map (j_maps W)) w then smc_hit c w W else W) ws W)"
    if "cpu_ok sn c W" "\<forall>w\<in>set ws. unat w < 2 ^ 60" for ws W
    using that
  proof (induction ws arbitrary: W)
    case (Cons w ws)
    let ?W = "if bit_get (static_map (j_maps W)) w then smc_hit c w W else W"
    have "cpu_ok sn c ?W \<and> same_world W ?W" using smc_hit_ok [OF Cons.prems(1), of w] Cons.prems by auto
    then show ?case using Cons.IH [of ?W] Cons.prems(2) same_world_trans by auto
  qed simp
  have "\<forall>w\<in>set (jb_hoist (jc_blocks (j_cpus W c) b)). unat w < 2 ^ 60" if "lookup (j_cpus W c) eip = Some b" for b
    using cpu_okD(6) [OF assms] lookup_live [OF that] by (simp add: blocks_below_def)
  then show ?thesis using f [OF assms] assms by (auto simp: hoist_turn_def split: option.split)
qed

end
