(* ===== verification/Jit_Dispatch.thy ===== *)
theory Jit_Dispatch
  imports Jit_Run Jit_Example
begin

text \<open>
  The dispatcher's loop is the SUBLEQ machine: a turn runs some number of whole instructions and takes
  them from the budget. Every state on the way has the tables of Jit_Coherence in order, and the loop
  ends where translating does. Code that is entered is held to \<open>entry_ok\<close>.
\<close>

section \<open>The dispatcher against the machine\<close>

text \<open>
  What the dispatcher relies on when it enters a block it has the budget for: the code runs some
  number of whole machine instructions, takes them from the budget, and leaves the tables coherent;
  it asks for an instruction to be interpreted only with budget left.
\<close>

definition machine_runs :: "nat \<Rightarrow> mem \<times> u64 \<times> u64 \<Rightarrow> mem \<times> u64 \<times> u64 \<Rightarrow> bool" where
  "machine_runs k = (\<lambda>(m, eip, n) (m', eip', n').
     k \<le> unat n \<and> n' = n - of_nat k \<and> (m', eip') = (subleq_step ^^ k) (m, eip))"

definition entry_ok :: "nat \<Rightarrow> enter \<Rightarrow> bool" where
  "entry_ok c enter \<longleftrightarrow>
     (\<forall>sn W eip n b W' eip' n' ex.
        cpu_ok sn c W \<and> b < jc_nblocks (j_cpus W c) \<and> jb_start (jc_blocks (j_cpus W c) b) = eip \<and>
        jb_n (jc_blocks (j_cpus W c) b) \<le> unat n \<and>
        enter (jb_entry (jc_blocks (j_cpus W c) b)) (W, eip, n) = ((W', eip', n'), ex) \<longrightarrow>
        (\<exists>k. machine_runs k (j_mem W, eip, n) (j_mem W', eip', n')) \<and> (\<exists>sn'. cpu_ok sn' c W') \<and>
        j_mem_size W' = j_mem_size W \<and> (ex = 1 \<longrightarrow> n' \<noteq> 0))"

lemma machine_runs_0: "machine_runs 0 s s"
  by (cases s) (simp add: machine_runs_def)

lemma machine_runs_budget:
  assumes "machine_runs k (m, e, n) (m', e', n')"
  shows "unat n' = unat n - k"
proof -
  have k: "k \<le> unat n" "n' = n - of_nat k" using assms by (simp_all add: machine_runs_def)
  moreover have "unat (of_nat k :: u64) = k"
    using le_less_trans [OF k(1) unsigned_less [of n]] by (simp add: unsigned_of_nat take_bit_nat_eq_self)
  ultimately show ?thesis by (simp add: unat_sub word_le_nat_alt)
qed

lemma machine_runs_add:
  assumes "machine_runs i s t" "machine_runs j t u"
  shows "machine_runs (i + j) s u"
proof -
  obtain m e n m' e' n' m'' e'' n'' where s: "s = (m, e, n)" "t = (m', e', n')" "u = (m'', e'', n'')"
    by (metis prod_cases3)
  have a: "i \<le> unat n" "n' = n - of_nat i" "(m', e') = (subleq_step ^^ i) (m, e)"
    and b: "j \<le> unat n'" "n'' = n' - of_nat j" "(m'', e'') = (subleq_step ^^ j) (m', e')"
    using assms by (simp_all add: machine_runs_def s)
  have "unat n' = unat n - i" using assms(1) machine_runs_budget by (simp add: s)
  moreover have "(subleq_step ^^ (i + j)) (m, e) = (subleq_step ^^ j) ((subleq_step ^^ i) (m, e))"
    by (simp add: funpow_add add.commute [of i j])
  ultimately show ?thesis using a b by (simp add: machine_runs_def s)
qed

lemma interp_machine_runs:
  assumes "cpu_ok sn c W" "n \<noteq> 0"
  shows "machine_runs 1 (j_mem W, eip, n) (j_mem (fst (interp_step c eip W)), snd (interp_step c eip W), n - 1)"
proof -
  have "0 < unat n" using assms(2) by (simp add: unat_gt_0)
  then show ?thesis using conjunct1 [OF conjunct2 [OF interp_step_ok [OF assms(1)]]]
    by (simp add: machine_runs_def)
qed

text \<open>The state of the machine in the dispatcher's state.\<close>

definition machine_of :: "jit_state \<Rightarrow> mem \<times> u64 \<times> u64" where
  "machine_of = (\<lambda>(W, X, ep, D). (j_mem W, dp_eip D, dp_budget D))"

definition state_ok :: "nat \<Rightarrow> jit_state \<Rightarrow> bool" where
  "state_ok c = (\<lambda>(W, X, ep, D). \<exists>sn. cpu_ok sn c W)"

definition mem_size_of :: "jit_state \<Rightarrow> u64" where
  "mem_size_of = (\<lambda>(W, X, ep, D). j_mem_size W)"

text \<open>A part of a turn: \<open>k\<close> instructions, and the tables stay coherent.\<close>

definition turns_to :: "nat \<Rightarrow> jit_state \<Rightarrow> jit_state \<Rightarrow> bool" where
  "turns_to c S S' \<longleftrightarrow> (\<exists>k. machine_runs k (machine_of S) (machine_of S')) \<and> state_ok c S' \<and> mem_size_of S' = mem_size_of S"

lemma turns_to_refl: "state_ok c S \<Longrightarrow> turns_to c S S"
  using machine_runs_0 by (fastforce simp: turns_to_def)

lemma turns_to_trans: "turns_to c S T \<Longrightarrow> turns_to c T U \<Longrightarrow> turns_to c S U"
  unfolding turns_to_def by (metis machine_runs_add)

lemma interp_turn_ok:
  assumes "state_ok c S" "dp_budget (snd (snd (snd S))) \<noteq> 0"
  shows "turns_to c S (interp_turn c S)" "turns_to c S (smc_turn c S)"
proof -
  obtain W X ep D where S: "S = (W, X, ep, D)" by (metis prod_cases4)
  obtain sn where ok: "cpu_ok sn c W" using assms(1) by (auto simp: state_ok_def S)
  note i = interp_step_ok [OF ok, of "dp_eip D"] and r = interp_machine_runs [OF ok, of "dp_budget D" "dp_eip D"]
  have n: "dp_budget D \<noteq> 0" using assms(2) by (simp add: S)
  show "turns_to c S (interp_turn c S)" "turns_to c S (smc_turn c S)"
    using i r [OF n] by (auto simp: turns_to_def interp_turn_def smc_turn_def S machine_of_def state_ok_def mem_size_of_def
      case_prod_unfold Let_def)
qed

lemma same_world_turns:
  assumes "cpu_ok sn c W'" "same_world W W'" "dp_eip D' = dp_eip D" "dp_budget D' = dp_budget D"
  shows "turns_to c (W, X, ep, D) (W', X', ep', D')"
  using assms machine_runs_0 by (auto simp: turns_to_def machine_of_def state_ok_def mem_size_of_def same_world_def)

lemma link_turn_ok:
  assumes "link_turn fuel T c site gen (W, X, ep, D) = Some S'" "cpu_ok sn c W" "unat (dp_eip D) + 24 < 2 ^ 64"
  shows "turns_to c (W, X, ep, D) S'"
proof -
  obtain t W1 X1 ep1 where l: "(case lookup (j_cpus W c) (dp_eip D) of
      Some t \<Rightarrow> Some (Some t, W, X, ep) | None \<Rightarrow> translate fuel T c (dp_eip D) (W, X, ep)) = Some (t, W1, X1, ep1)"
    and s: "S' = ((case t of Some t \<Rightarrow> if gen = js_flushes (jc_stats (j_cpus W1 c)) then on_cpu c (link_to site t) W1 else W1
            | None \<Rightarrow> W1), X1, ep1, D)"
    using assms(1) by (auto simp: link_turn_def split: bind_splits)
  have "\<exists>sn'. cpu_ok sn' c W1 \<and> same_world W W1"
  proof (cases "lookup (j_cpus W c) (dp_eip D)")
    case None
    then show ?thesis using translate_ok [OF _ assms(2) None assms(3)] l by fastforce
  next
    case (Some b)
    then show ?thesis using l assms(2) by auto
  qed
  then obtain sn' where w: "cpu_ok sn' c W1" "same_world W W1" by blast
  have "same_world W1 (on_cpu c (link_to site b) W1)" for b by (simp add: same_world_def)
  then show ?thesis unfolding s using w link_to_ok [OF w(1)] same_world_trans [OF w(2)]
    by (auto intro!: same_world_turns split: option.split)
qed

lemma state_okI: "cpu_ok sn c W \<Longrightarrow> state_ok c (W, X, ep, D)"
  by (auto simp: state_ok_def)

text \<open>Entering a block and answering how it left.\<close>

lemma enter_turn_ok:
  assumes "enter_turn fuel T enter c b (W, X, ep, D) = Some (on, S')" "cpu_ok sn c W" "entry_ok c enter"
    and "b < jc_nblocks (j_cpus W c)" "jb_start (jc_blocks (j_cpus W c) b) = dp_eip D" "jb_n (jc_blocks (j_cpus W c) b) \<le> unat (dp_budget D)"
    and "\<forall>k\<le>unat (dp_budget D). unat (snd ((subleq_step ^^ k) (j_mem W, dp_eip D))) + 24 < 2 ^ 64"
  shows "turns_to c (W, X, ep, D) S'"
proof -
  obtain W1 eip n ex where e: "enter (jb_entry (jc_blocks (j_cpus W c) b)) (W, dp_eip D, dp_budget D) = ((W1, eip, n), ex)"
    by (metis prod_cases3 surj_pair)
  from assms(3) [unfolded entry_ok_def, rule_format, of sn W b "dp_eip D" "dp_budget D" W1 eip n ex] assms(2,4,5,6) e
  obtain k sn' where k: "machine_runs k (j_mem W, dp_eip D, dp_budget D) (j_mem W1, eip, n)"
    and ok: "cpu_ok sn' c W1" and sz: "j_mem_size W1 = j_mem_size W" and n: "ex = 1 \<longrightarrow> n \<noteq> 0"
    by blast
  define D1 where "D1 = D\<lparr>dp_eip := eip, dp_budget := n, dp_entries := dp_entries D + 1, dp_strong := True, dp_weak := 0\<rparr>"
  have d: "dp_eip D1 = eip" "dp_budget D1 = n" by (simp_all add: D1_def)
  have t1: "turns_to c (W, X, ep, D) (W1, X, ep, D1)"
    using k ok sz by (auto simp: turns_to_def machine_of_def state_ok_def mem_size_of_def d)
  have "k \<le> unat (dp_budget D)" "(j_mem W1, eip) = (subleq_step ^^ k) (j_mem W, dp_eip D)"
    using k by (simp_all add: machine_runs_def)
  then have lt: "unat (dp_eip D1) + 24 < 2 ^ 64" using assms(7) d by (metis snd_conv)
  consider "ex = 1" "S' = smc_turn c (W1, X, ep, D1)"
    | "S' = (hoist_turn c eip W1, X, ep, D1\<lparr>dp_hoist_exits := dp_hoist_exits D1 + 1\<rparr>)"
    | "link_turn fuel T c ex (js_flushes (jc_stats (j_cpus W c))) (W1, X, ep, D1) = Some S'"
    | "S' = (W1, X, ep, D1)"
    using assms(1) e d
    by (auto simp: enter_turn_def Let_def D1_def [symmetric] split: if_splits bind_splits)
  then have "turns_to c (W1, X, ep, D1) S'"
  proof cases
    case 1
    then show ?thesis using interp_turn_ok(2) [OF state_okI [OF ok], of X ep D1] n d by simp
  next
    case 2
    then show ?thesis using hoist_turn_ok [OF ok, of eip] by (auto intro!: same_world_turns simp: d)
  next
    case 3
    then show ?thesis using link_turn_ok [OF _ ok lt] by simp
  next
    case 4
    then show ?thesis using same_world_turns [OF ok] by simp
  qed
  with t1 show ?thesis by (rule turns_to_trans)
qed

text \<open>A block that can be entered at \<open>eip\<close>.\<close>

definition enterable :: "nat \<Rightarrow> nat option \<Rightarrow> jit_state \<Rightarrow> bool" where
  "enterable c b = (\<lambda>(W, X, ep, D). \<forall>i. b = Some i \<longrightarrow>
     i < jc_nblocks (j_cpus W c) \<and> jb_start (jc_blocks (j_cpus W c) i) = dp_eip D \<and> jb_n (jc_blocks (j_cpus W c) i) < 2 ^ 64)"

lemma found_enterable:
  assumes "lookup (j_cpus W c) (dp_eip D) = b" "cpu_ok sn c W"
  shows "enterable c b (W, X, ep, D)"
proof -
  note o = cpu_okD [OF assms(2)]
  have "i < jc_nblocks (j_cpus W c) \<and> jb_start (jc_blocks (j_cpus W c) i) = dp_eip D \<and> jb_n (jc_blocks (j_cpus W c) i) < 2 ^ 64"
    if b: "b = Some i" for i
  proof -
    note l = assms(1) [unfolded b]
    have "i \<in> set (jc_htab (j_cpus W c) (hash (dp_eip D)))" "jb_start (jc_blocks (j_cpus W c) i) = dp_eip D"
      using l by (auto dest: lookup_SomeD)
    moreover have "block_ok (jc_blocks (j_cpus W c) i)" using o(4) calculation(1) by (simp add: tables_ok_def)
    ultimately show ?thesis using o(6) lookup_live [OF l] by (simp add: block_ok_def blocks_below_def JIT_MAX_BLOCK_def)
  qed
  then show ?thesis by (simp add: enterable_def)
qed

lemma in_memory_n: "in_memory z B \<Longrightarrow> jb_n B < 2 ^ 64"
  using order.strict_trans1 [of _ "unat z" "2 ^ 64"] unsigned_less [where w = z and 'a = nat] by (simp add: in_memory_def)

lemma next_block_ok:
  assumes "next_block fuel T c (W, X, ep, D) = Some (b, S')" "cpu_ok sn c W" "unat (dp_eip D) + 24 < 2 ^ 64"
  shows "turns_to c (W, X, ep, D) S' \<and> enterable c b S' \<and> machine_of S' = machine_of (W, X, ep, D)"
proof (cases "lookup (j_cpus W c) (dp_eip D) = None \<and> (dp_strong D \<or> of_nat JIT_MAX_BLOCK \<le> dp_weak D)")
  case True
  obtain W2 X2 ep2 where b: "translate fuel T c (dp_eip D) (W, X, ep) = Some (b, W2, X2, ep2)" "S' = (W2, X2, ep2, D)"
    using assms(1) True by (auto simp: next_block_def split: bind_splits)
  obtain sn' where w: "cpu_ok sn' c W2" "same_world W W2" and i: "case b of None \<Rightarrow> W2 = W
     | Some i \<Rightarrow> i < jc_nblocks (j_cpus W2 c) \<and> jb_start (jc_blocks (j_cpus W2 c) i) = dp_eip D \<and>
         0 < jb_n (jc_blocks (j_cpus W2 c) i) \<and> in_memory (j_mem_size W2) (jc_blocks (j_cpus W2 c) i)"
    using translate_ok [OF b(1) assms(2) conjunct1 [OF True] assms(3)] by blast
  have "enterable c b S'" using i in_memory_n by (auto simp: enterable_def b(2) split: option.splits)
  then show ?thesis using same_world_turns [OF w] w(2) by (simp add: b(2) machine_of_def same_world_def)
next
  case False
  then have "b = lookup (j_cpus W c) (dp_eip D)" "S' = (W, X, ep, D)"
    using assms(1) by (auto simp: next_block_def Let_def split: if_splits)
  then show ?thesis using found_enterable [OF _ assms(2)] same_world_turns [OF assms(2) same_world_refl] by simp
qed

definition eips_low :: "mem \<Rightarrow> u64 \<Rightarrow> u64 \<Rightarrow> bool" where
  "eips_low m eip n \<longleftrightarrow> (\<forall>k\<le>unat n. unat (snd ((subleq_step ^^ k) (m, eip))) + 24 < 2 ^ 64)"

lemma run_block_cases:
  assumes "enterable c b (W, X, ep, D)"
  obtains (stop) "run_block fuel T enter c b (W, X, ep, D) = Some (False, W, X, ep, D)"
    | (interp) "dp_budget D \<noteq> 0" "run_block fuel T enter c b (W, X, ep, D) = Some (True, interp_turn c (W, X, ep, D))"
    | (block) i where "b = Some i" "jb_n (jc_blocks (j_cpus W c) i) \<le> unat (dp_budget D)"
        "run_block fuel T enter c b (W, X, ep, D) = enter_turn fuel T enter c i (W, X, ep, D)"
proof (cases b)
  case None
  then show ?thesis using that(1,2) by (cases "dp_budget D = 0") (simp_all add: run_block_def)
next
  case (Some i)
  let ?n = "jb_n (jc_blocks (j_cpus W c) i)"
  have n: "of_nat ?n > dp_budget D \<longleftrightarrow> \<not> ?n \<le> unat (dp_budget D)"
    using assms Some by (simp add: word_less_nat_alt unat_of_nat_u64 not_le enterable_def)
  show ?thesis
  proof (cases "?n \<le> unat (dp_budget D)")
    case True
    then show ?thesis using that(3) [OF Some] n by (simp add: run_block_def Some Let_def)
  next
    case False
    then show ?thesis using that(1,2) n by (cases "dp_exact D"; cases "dp_budget D = 0") (simp_all add: run_block_def Some Let_def)
  qed
qed

lemma run_block_ok:
  assumes "run_block fuel T enter c b S = Some (on, S')" "state_ok c S" "entry_ok c enter" "enterable c b S"
    and "case machine_of S of (m, eip, n) \<Rightarrow> eips_low m eip n"
  shows "turns_to c S S'"
proof -
  obtain W X ep D where S: "S = (W, X, ep, D)" by (metis prod_cases4)
  obtain sn where ok: "cpu_ok sn c W" using assms(2) by (auto simp: state_ok_def S)
  show ?thesis
  proof (rule run_block_cases [OF assms(4) [unfolded S], of fuel T enter])
    show ?thesis if "run_block fuel T enter c b (W, X, ep, D) = Some (False, W, X, ep, D)"
      using that assms(1) turns_to_refl [OF assms(2)] by (simp add: S)
    show ?thesis if "dp_budget D \<noteq> 0" "run_block fuel T enter c b (W, X, ep, D) = Some (True, interp_turn c (W, X, ep, D))"
      using that assms(1) interp_turn_ok(1) [OF assms(2)] by (simp add: S)
    show ?thesis if i: "b = Some i" "jb_n (jc_blocks (j_cpus W c) i) \<le> unat (dp_budget D)"
      "run_block fuel T enter c b (W, X, ep, D) = enter_turn fuel T enter c i (W, X, ep, D)" for i
      unfolding S
      by (rule enter_turn_ok [OF assms(1) [unfolded S i(3)] ok assms(3) _ _ i(2)])
        (use assms(4,5) i(1) in \<open>simp_all add: enterable_def S machine_of_def eips_low_def\<close>)
  qed
qed

lemma turn_parts:
  assumes "cpu_ok sn c W" "QUEUE_LEN \<le> fuel" "PENDING_LEN \<le> fuel"
  obtains W1 where "jit_turn fuel T enter c (W, X, ep, D) =
      do { (b, S) \<leftarrow> next_block fuel T c (W1, X, ep, D); run_block fuel T enter c b S }"
    "cpu_ok sn c W1" "same_world W W1"
  using refresh_ok [OF assms, of ep] by (auto simp: jit_turn_def)

lemma jit_turn_ok:
  assumes "jit_turn fuel T enter c (W, X, ep, D) = Some (on, S')" "cpu_ok sn c W" "entry_ok c enter"
    and "QUEUE_LEN \<le> fuel" "PENDING_LEN \<le> fuel" "eips_low (j_mem W) (dp_eip D) (dp_budget D)"
  shows "turns_to c (W, X, ep, D) S'"
proof -
  obtain W1 where w1: "jit_turn fuel T enter c (W, X, ep, D) =
      do { (b, S) \<leftarrow> next_block fuel T c (W1, X, ep, D); run_block fuel T enter c b S }"
    "cpu_ok sn c W1" "same_world W W1"
    by (rule turn_parts [OF assms(2,4,5)])
  obtain b S2 where s: "next_block fuel T c (W1, X, ep, D) = Some (b, S2)" "run_block fuel T enter c b S2 = Some (on, S')"
    using assms(1) w1(1) by (auto split: bind_splits)
  have lt: "unat (dp_eip D) + 24 < 2 ^ 64" using assms(6) by (auto simp: eips_low_def dest: spec [of _ 0])
  note t2 = next_block_ok [OF s(1) w1(2) lt]
  have m: "machine_of S2 = (j_mem W, dp_eip D, dp_budget D)" using t2 w1(3) by (simp add: machine_of_def same_world_def)
  have "turns_to c S2 S'"
    by (rule run_block_ok [OF s(2) _ assms(3)]) (use t2 in \<open>simp add: turns_to_def\<close>, use t2 in simp, simp add: m assms(6))
  moreover have "turns_to c (W, X, ep, D) (W1, X, ep, D)" by (rule same_world_turns [OF w1(2,3)]) simp_all
  ultimately show ?thesis using t2 turns_to_trans by blast
qed

section \<open>Every state on the way, and the end\<close>

text \<open>The states the loop passes through, the first and the last included.\<close>

inductive jit_passes :: "nat \<Rightarrow> tconf \<Rightarrow> enter \<Rightarrow> nat \<Rightarrow> jit_state \<Rightarrow> jit_state \<Rightarrow> bool"
  for fuel T enter c S where
  first: "jit_passes fuel T enter c S S"
| turn: "jit_passes fuel T enter c S S' \<Longrightarrow> jit_turn fuel T enter c S' = Some (True, S'') \<Longrightarrow> jit_passes fuel T enter c S S''"

lemma eips_low_runs:
  assumes "machine_runs k (m, eip, n) (m', eip', n')" "eips_low m eip n"
  shows "eips_low m' eip' n'"
  unfolding eips_low_def
proof (intro allI impI)
  fix j assume j: "j \<le> unat n'"
  have "machine_runs j (m', eip', n') (fst ((subleq_step ^^ j) (m', eip')), snd ((subleq_step ^^ j) (m', eip')), n' - of_nat j)"
    using j by (simp add: machine_runs_def)
  from machine_runs_add [OF assms(1) this] have "k + j \<le> unat n"
    "(subleq_step ^^ j) (m', eip') = (subleq_step ^^ (k + j)) (m, eip)"
    by (simp_all add: machine_runs_def)
  then show "unat (snd ((subleq_step ^^ j) (m', eip'))) + 24 < 2 ^ 64" using assms(2) by (simp add: eips_low_def)
qed

text \<open>A turn with its contracts gathered.\<close>

definition can_run :: "nat \<Rightarrow> jit_state \<Rightarrow> bool" where
  "can_run c S \<longleftrightarrow> state_ok c S \<and> (case machine_of S of (m, eip, n) \<Rightarrow> eips_low m eip n)"

lemma turn_can_run:
  assumes "jit_turn fuel T enter c S = Some (on, S')" "can_run c S" "entry_ok c enter" "QUEUE_LEN \<le> fuel" "PENDING_LEN \<le> fuel"
  shows "turns_to c S S' \<and> can_run c S'"
proof -
  obtain W X ep D where S: "S = (W, X, ep, D)" by (metis prod_cases4)
  obtain sn where "cpu_ok sn c W" "eips_low (j_mem W) (dp_eip D) (dp_budget D)"
    using assms(2) by (auto simp: can_run_def state_ok_def machine_of_def S)
  then have t: "turns_to c S S'"
    unfolding S by (intro jit_turn_ok [OF assms(1) [unfolded S] _ assms(3-5)])
  then obtain k where "machine_runs k (machine_of S) (machine_of S')" by (auto simp: turns_to_def)
  then show ?thesis using t eips_low_runs assms(2)
    by (auto simp: can_run_def turns_to_def split: prod.splits)
qed

lemma passes_turns_to:
  assumes "jit_passes fuel T enter c S S'" "can_run c S" "entry_ok c enter" "QUEUE_LEN \<le> fuel" "PENDING_LEN \<le> fuel"
  shows "turns_to c S S' \<and> can_run c S'"
  using assms
proof (induction rule: jit_passes.induct)
  case first
  then show ?case using turns_to_refl by (simp add: can_run_def)
next
  case (turn S' S'')
  then show ?case using turn_can_run turns_to_trans by blast
qed

text \<open>A turn that goes on runs an instruction, when no entry is turned away.\<close>

definition entry_runs :: "nat \<Rightarrow> enter \<Rightarrow> bool" where
  "entry_runs c enter \<longleftrightarrow>
     (\<forall>sn W eip n b W' eip' n' ex.
        cpu_ok sn c W \<and> b < jc_nblocks (j_cpus W c) \<and> jb_start (jc_blocks (j_cpus W c) b) = eip \<and>
        jb_n (jc_blocks (j_cpus W c) b) \<le> unat n \<and>
        enter (jb_entry (jc_blocks (j_cpus W c) b)) (W, eip, n) = ((W', eip', n'), ex) \<longrightarrow> n' < n \<or> ex = 1 \<or> ex = 3)"

definition translates :: "nat \<Rightarrow> tconf \<Rightarrow> nat \<Rightarrow> u64 \<Rightarrow> bool" where
  "translates fuel T c msize \<longleftrightarrow>
     (\<forall>sn W X ep start. cpu_ok sn c W \<and> j_mem_size W = msize \<and> unat start + 24 < 2 ^ 64 \<longrightarrow>
        translate fuel T c start (W, X, ep) \<noteq> None)"

lemma turn_returns:
  assumes "can_run c S" "entry_ok c enter" "translates fuel T c (mem_size_of S)" "QUEUE_LEN \<le> fuel" "PENDING_LEN \<le> fuel"
  shows "\<exists>r. jit_turn fuel T enter c S = Some r"
proof -
  obtain W X ep D where S: "S = (W, X, ep, D)" by (metis prod_cases4)
  obtain sn where ok: "cpu_ok sn c W" and low: "eips_low (j_mem W) (dp_eip D) (dp_budget D)"
    using assms(1) by (auto simp: can_run_def state_ok_def machine_of_def S)
  have tr: "\<exists>r. translate fuel T c start (V, Y, e) = Some r" if "cpu_ok s c V" "j_mem_size V = j_mem_size W" "unat start + 24 < 2 ^ 64" for s V Y e start
    using assms(3) that by (auto simp: translates_def mem_size_of_def S)
  obtain W1 where w1: "jit_turn fuel T enter c (W, X, ep, D) =
      do { (b, S) \<leftarrow> next_block fuel T c (W1, X, ep, D); run_block fuel T enter c b S }"
    "cpu_ok sn c W1" "same_world W W1"
    by (rule turn_parts [OF ok assms(4,5)])
  have sz: "j_mem_size W1 = j_mem_size W" using w1(3) by (simp add: same_world_def)
  have lt: "unat (dp_eip D) + 24 < 2 ^ 64" using low by (auto simp: eips_low_def dest: spec [of _ 0])
  have "\<exists>r. next_block fuel T c (W1, X, ep, D) = Some r"
    using tr [OF w1(2) sz lt, of X ep] by (auto simp: next_block_def Let_def)
  then obtain b S2 where s: "next_block fuel T c (W1, X, ep, D) = Some (b, S2)" by (metis surj_pair)
  note t2 = next_block_ok [OF s(1) w1(2) lt]
  have "run_block fuel T enter c b S2 \<noteq> None"
  proof -
    obtain W2 X2 ep2 D2 where S2: "S2 = (W2, X2, ep2, D2)" by (metis prod_cases4)
    obtain sn2 where ok2: "cpu_ok sn2 c W2" and z2: "j_mem_size W2 = j_mem_size W"
      using t2 sz by (auto simp: turns_to_def state_ok_def mem_size_of_def S2)
    have "enter_turn fuel T enter c i S2 \<noteq> None" if "enterable c (Some i) S2" "jb_n (jc_blocks (j_cpus W2 c) i) \<le> unat (dp_budget D2)" for i
    proof -
      obtain W3 e n ex where en: "enter (jb_entry (jc_blocks (j_cpus W2 c) i)) (W2, dp_eip D2, dp_budget D2) = ((W3, e, n), ex)"
        by (metis prod_cases3 surj_pair)
      from assms(2) [unfolded entry_ok_def, rule_format, of sn2 W2 i "dp_eip D2" "dp_budget D2" W3 e n ex] that en ok2
      obtain sn3 k where k: "cpu_ok sn3 c W3" "j_mem_size W3 = j_mem_size W" "machine_runs k (j_mem W2, dp_eip D2, dp_budget D2) (j_mem W3, e, n)"
        using z2 by (auto simp: enterable_def S2)
      have "eips_low (j_mem W2) (dp_eip D2) (dp_budget D2)"
        using t2 low w1(3) by (simp add: machine_of_def S2 same_world_def)
      from eips_low_runs [OF k(3) this] have "unat e + 24 < 2 ^ 64" by (auto simp: eips_low_def dest: spec [of _ 0])
      then have "link_turn fuel T c x g (W3, X2, ep2, D3) \<noteq> None" if "dp_eip D3 = e" for x g D3
        using tr [OF k(1,2), of "dp_eip D3" X2 ep2] that by (auto simp: link_turn_def split: option.split)
      then show ?thesis using en by (auto simp: enter_turn_def S2 Let_def bind_eq_None_conv simp del: not_None_eq split: if_splits)
    qed
    note returns = this
    show ?thesis unfolding S2
      by (rule run_block_cases [of c b W2 X2 ep2 D2 fuel T enter])
        (use t2 returns in \<open>simp_all add: S2 del: not_None_eq\<close>)
  qed
  then show ?thesis unfolding S w1(1) s by simp
qed

lemma word_minus_one_less: "n \<noteq> 0 \<Longrightarrow> n - 1 < (n :: u64)"
  by (simp add: word_less_nat_alt unat_minus_one unat_gt_0)

lemma enter_turn_decreases:
  assumes "enter_turn fuel T enter c b (W, X, ep, D) = Some (True, S')" "state_ok c (W, X, ep, D)" "entry_ok c enter" "entry_runs c enter"
    and "b < jc_nblocks (j_cpus W c)" "jb_start (jc_blocks (j_cpus W c) b) = dp_eip D" "jb_n (jc_blocks (j_cpus W c) b) \<le> unat (dp_budget D)"
  shows "snd (snd (machine_of S')) < dp_budget D"
proof -
  obtain sn where ok: "cpu_ok sn c W" using assms(2) by (auto simp: state_ok_def)
  obtain W1 eip n ex where e: "enter (jb_entry (jc_blocks (j_cpus W c) b)) (W, dp_eip D, dp_budget D) = ((W1, eip, n), ex)"
    by (metis prod_cases3 surj_pair)
  have ok1: "(\<exists>k. machine_runs k (j_mem W, dp_eip D, dp_budget D) (j_mem W1, eip, n)) \<and> (ex = 1 \<longrightarrow> n \<noteq> 0)"
    using assms(3) [unfolded entry_ok_def, rule_format, of sn W b "dp_eip D" "dp_budget D" W1 eip n ex] ok assms(5-7) e by blast
  have r: "n < dp_budget D \<or> ex = 1 \<or> ex = 3"
    using assms(4) [unfolded entry_runs_def, rule_format, of sn W b "dp_eip D" "dp_budget D" W1 eip n ex] ok assms(5-7) e by blast
  have le: "n \<le> dp_budget D"
    using ok1 machine_runs_budget by (auto simp: word_le_nat_alt)
  have b: "snd (snd (machine_of S')) = n" if "ex \<noteq> 1"
    using assms(1) e that by (auto simp: enter_turn_def link_turn_def machine_of_def Let_def split: if_splits bind_splits)
  have "snd (snd (machine_of S')) = n - 1" if "ex = 1"
    using assms(1) e that by (auto simp: enter_turn_def smc_turn_def machine_of_def case_prod_unfold Let_def)
  moreover have "ex \<noteq> 3" using assms(1) e by (auto simp: enter_turn_def Let_def)
  ultimately show ?thesis using b r le ok1 word_minus_one_less [of n] by (cases "ex = 1") auto
qed

lemma turn_decreases:
  assumes "jit_turn fuel T enter c S = Some (True, S')" "can_run c S" "entry_ok c enter" "entry_runs c enter"
    and "QUEUE_LEN \<le> fuel" "PENDING_LEN \<le> fuel"
  shows "snd (snd (machine_of S')) < snd (snd (machine_of S))"
proof -
  obtain W X ep D where S: "S = (W, X, ep, D)" by (metis prod_cases4)
  obtain sn where ok: "cpu_ok sn c W" and low: "eips_low (j_mem W) (dp_eip D) (dp_budget D)"
    using assms(2) by (auto simp: can_run_def state_ok_def machine_of_def S)
  obtain W1 where w1: "jit_turn fuel T enter c (W, X, ep, D) =
      do { (b, S) \<leftarrow> next_block fuel T c (W1, X, ep, D); run_block fuel T enter c b S }"
    "cpu_ok sn c W1" "same_world W W1"
    by (rule turn_parts [OF ok assms(5,6)])
  obtain b W2 X2 ep2 D2 where s: "next_block fuel T c (W1, X, ep, D) = Some (b, W2, X2, ep2, D2)"
    "run_block fuel T enter c b (W2, X2, ep2, D2) = Some (True, S')"
    using assms(1) w1(1) by (auto simp: S split: bind_splits)
  have lt: "unat (dp_eip D) + 24 < 2 ^ 64" using low by (auto simp: eips_low_def dest: spec [of _ 0])
  note t2 = next_block_ok [OF s(1) w1(2) lt]
  have d: "dp_budget D2 = dp_budget D" using t2 by (simp add: machine_of_def)
  show ?thesis
  proof (rule run_block_cases [of c b W2 X2 ep2 D2 fuel T enter])
    show "enterable c b (W2, X2, ep2, D2)" using t2 by blast
    show ?thesis if "run_block fuel T enter c b (W2, X2, ep2, D2) = Some (False, W2, X2, ep2, D2)"
      using that s(2) by simp
    show ?thesis if "dp_budget D2 \<noteq> 0" "run_block fuel T enter c b (W2, X2, ep2, D2) = Some (True, interp_turn c (W2, X2, ep2, D2))"
      using that s(2) word_minus_one_less by (auto simp: S machine_of_def d [symmetric] interp_turn_def case_prod_unfold Let_def)
    show ?thesis if i: "b = Some i" "jb_n (jc_blocks (j_cpus W2 c) i) \<le> unat (dp_budget D2)"
      "run_block fuel T enter c b (W2, X2, ep2, D2) = enter_turn fuel T enter c i (W2, X2, ep2, D2)" for i
    proof -
      have "snd (snd (machine_of S')) < dp_budget D2"
        by (rule enter_turn_decreases [OF s(2) [unfolded i(3)] _ assms(3,4) _ _ i(2)])
          (use t2 i(1) in \<open>auto simp: turns_to_def enterable_def\<close>)
      then show ?thesis by (simp add: S d machine_of_def)
    qed
  qed
qed

lemma jit_loop_returns:
  assumes "unat (snd (snd (machine_of S))) < fuel" "can_run c S" "entry_ok c enter" "entry_runs c enter"
    and "translates rf T c (mem_size_of S)" "QUEUE_LEN \<le> rf" "PENDING_LEN \<le> rf"
  shows "\<exists>S'. jit_loop fuel rf T enter c S = Some S' \<and> turns_to c S S'"
  using assms(1,2,5)
proof (induction fuel arbitrary: S)
  case (Suc fuel)
  obtain on S1 where t: "jit_turn rf T enter c S = Some (on, S1)"
    using turn_returns [OF Suc.prems(2) assms(3) Suc.prems(3) assms(6,7)] by (metis surj_pair)
  note k = turn_can_run [OF t Suc.prems(2) assms(3,6,7)]
  show ?case
  proof (cases on)
    case True
    have "snd (snd (machine_of S1)) < snd (snd (machine_of S))"
      by (rule turn_decreases [OF _ Suc.prems(2) assms(3,4,6,7)]) (use t True in simp)
    then have "unat (snd (snd (machine_of S1))) < fuel" using Suc.prems(1) by (simp add: word_less_nat_alt)
    moreover have "translates rf T c (mem_size_of S1)" using Suc.prems(3) k by (simp add: turns_to_def)
    ultimately obtain S' where "jit_loop fuel rf T enter c S1 = Some S'" "turns_to c S1 S'"
      using Suc.IH [of S1] k by blast
    moreover have "turns_to c S S'" using turns_to_trans [of c S S1 S'] k calculation(2) by blast
    ultimately show ?thesis using t True by auto
  qed (use t k in simp)
qed simp

lemma jit_begin_fields: "dp_eip (jit_begin eip n D) = eip" "dp_budget (jit_begin eip n D) = n" "dp_executed (jit_begin eip n D) = dp_executed D"
  by (simp_all add: jit_begin_def Let_def)

lemma can_run_begin:
  assumes "cpu_ok sn c W" "eips_low (j_mem W) eip n"
  shows "can_run c (W, X, ep, jit_begin eip n D)"
  using assms by (auto simp: can_run_def state_ok_def machine_of_def jit_begin_fields)



section \<open>An example\<close>

text \<open>One CPU with no blocks and no room for any, and code that is interpreted.\<close>

definition idle_jit :: jit where
  "idle_jit = two_cpus\<lparr>j_mem := (\<lambda>_. 0), j_mem_size := 0, j_ncpus := 1, j_cpus := (\<lambda>_. (cpu_with (\<lambda>_. []))\<lparr>jc_ptail := 0\<rparr>)\<rparr>"

definition enter_interp :: "nat \<Rightarrow> enter" where
  "enter_interp c entry = (\<lambda>(W, eip, n).
     if n = 0 then ((W, eip, n), 3) else let (W, eip) = interp_step c eip W in ((W, eip, n - 1), 0))"

lemma enter_interp_ok: "entry_ok c (enter_interp c)" "entry_runs c (enter_interp c)"
proof -
  show "entry_ok c (enter_interp c)"
    unfolding entry_ok_def
  proof (intro allI impI, elim conjE)
    fix sn W eip n b W' eip' n' ex
    assume a: "cpu_ok sn c W" "enter_interp c (jb_entry (jc_blocks (j_cpus W c) b)) (W, eip, n) = ((W', eip', n'), ex)"
    show "(\<exists>k. machine_runs k (j_mem W, eip, n) (j_mem W', eip', n')) \<and> (\<exists>sn'. cpu_ok sn' c W') \<and>
      j_mem_size W' = j_mem_size W \<and> (ex = 1 \<longrightarrow> n' \<noteq> 0)"
    proof (cases "n = 0")
      case True
      then have "W' = W" "eip' = eip" "n' = n" "ex = 3" using a(2) by (simp_all add: enter_interp_def)
      then show ?thesis using a(1) by (auto intro: exI [of _ 0] machine_runs_0)
    next
      case False
      then have "W' = fst (interp_step c eip W)" "eip' = snd (interp_step c eip W)" "n' = n - 1" "ex = 0"
        using a(2) by (auto simp: enter_interp_def case_prod_unfold Let_def)
      then show ?thesis using interp_machine_runs [OF a(1) False] interp_step_ok [OF a(1)] by auto
    qed
  qed
  show "entry_runs c (enter_interp c)"
    by (auto simp: entry_runs_def enter_interp_def case_prod_unfold Let_def word_minus_one_less split: if_splits)
qed

lemma idle_jit_ok: "cpu_ok (\<lambda>_ _ _. 0) 0 idle_jit"
proof -
  let ?J = "(cpu_with (\<lambda>_. []))\<lparr>jc_ptail := 0\<rparr>"
  have l: "live ?J = {}" by (simp add: live_def cpu_with_def)
  have "tables_ok ?J" using cpu_with_tables(2) by (simp add: tables_ok_def)
  then have "cpu_coherent s W ?J" for s W using l cpu_with_queue [of "\<lambda>_. []"] by (simp add: cpu_coherent_def words_queued_def)
  moreover have "pending_list ?J = []" by (simp add: pending_list_def ring_list_def ring_len_def cpu_with_def PENDING_LEN_def)
  ultimately show ?thesis using l
    by (simp add: cpu_ok_def coherent_def idle_jit_def pending_ok_def blocks_below_def cpu_with_def PENDING_LEN_def)
qed

lemma zero_machine: "(subleq_step ^^ k) (\<lambda>_. 0, 0) = (\<lambda>_. 0, 0)"
proof (induction k)
  case (Suc k)
  have z: "bswap64 0 = 0" by (rule bit_word_eqI) (simp add: bit_bswap64)
  have "dawn_writeram (\<lambda>_. 0) 0 0 = (\<lambda>_. 0)" by (rule ext) (simp add: dawn_writeram_def store64_def z)
  then show ?case using Suc by (simp add: subleq_step_def load64_zero dawn_readram_def Let_def z)
qed simp

definition idle_disp :: disp where
  "idle_disp = \<lparr>dp_exact = False, dp_strong = False, dp_weak = 0, dp_last_eip = 0, dp_eip = 0, dp_budget = 0, dp_entries = 0,
     dp_smc_exits = 0, dp_hoist_exits = 0, dp_executed = 0\<rparr>"

lemma idle_world:
  "eips_low (j_mem idle_jit) 0 n" "translates fuel T c (j_mem_size idle_jit)"
proof -
  show "eips_low (j_mem idle_jit) 0 n" by (simp add: eips_low_def idle_jit_def zero_machine)
  have "0 < start + 24" if "unat start + 24 < 2 ^ 64" for start :: u64
    using unat_add_of_nat [of start 24] that by (simp add: word_less_nat_alt)
  then have "translate fuel T c start (W, X, ep) = Some (None, W, X, ep)" if "j_mem_size W = 0" "unat start + 24 < 2 ^ 64" for W X ep start
    using that by (simp add: translate_def)
  then show "translates fuel T c (j_mem_size idle_jit)" by (simp add: translates_def idle_jit_def)
qed

definition idle_conf :: tconf where
  "idle_conf = \<lparr>tc_page_off = 0, tc_watch_addr = 0, tc_watch_value = 0, tc_jit_copy = 0, tc_meta_base = 0, tc_code_end = 0, tc_max_blocks = 0\<rparr>"


lemma idle_refresh: "\<exists>q. refresh (Suc f) 0 0 idle_jit = Some (idle_jit\<lparr>j_quiet := q\<rparr>)"
proof -
  let ?W = "idle_jit\<lparr>j_quiet := (j_quiet idle_jit)(0 := 0)\<rparr>"
  have "drain_queue (Suc f) (j_cpus ?W 0) = Some (j_cpus ?W 0)"
    by (simp add: drain_queue_def idle_jit_def cpu_with_def)
  moreover have "on_cpu 0 (\<lambda>_. j_cpus ?W 0) ?W = ?W" by (simp add: on_cpu_def)
  moreover have "revalidate (Suc f) 0 ?W = Some ?W" by (simp add: revalidate_def idle_jit_def cpu_with_def)
  ultimately show ?thesis by (auto simp: refresh_def)
qed


end
