(* ===== verification/Jit_Init.thy ===== *)
theory Jit_Init
  imports Jit_Dispatch Pmm
begin

text \<open>
  Setting the translator up (\<open>jit_init\<close> of jit.c): how the memory it may take is split into maps, code
  caches and block records, their allocation, and the tables every CPU starts with.
\<close>

section \<open>Sizes\<close>

text \<open>\<open>sizeof\<close> of the records kept per block and per link; that of \<open>jit_cpu_t\<close> is an argument.\<close>

definition JIT_MAX_CPUS :: nat where "JIT_MAX_CPUS = 128"
definition HASH_BITS :: nat where "HASH_BITS = 16"
definition BLOCK_BYTES :: u64 where "BLOCK_BYTES = 96"
definition LINK_BYTES :: u64 where "LINK_BYTES = 16"

definition map_bytes :: "u64 \<Rightarrow> u64" where
  "map_bytes msize = (drop_bit 6 msize + 15) AND NOT 7"

definition page_bytes :: "u64 \<Rightarrow> u64" where
  "page_bytes msize = drop_bit 12 msize + 1"

definition fixed_bytes :: "u64 \<Rightarrow> nat \<Rightarrow> u64 \<Rightarrow> u64" where
  "fixed_bytes cpu_bytes n msize =
     2 * map_bytes msize + page_bytes msize + of_nat n * (cpu_bytes + push_bit HASH_BITS 8)"

text \<open>How many blocks a CPU gets, a block per 512 bytes of code; \<open>None\<close> is too little memory.\<close>

definition block_count :: "u64 \<Rightarrow> nat \<Rightarrow> u64 \<Rightarrow> u64 \<Rightarrow> u64 option" where
  "block_count cpu_bytes n msize max_bytes =
     (let fixed = fixed_bytes cpu_bytes n msize
      in if max_bytes \<le> fixed then None
         else
           let per_cpu = (max_bytes - fixed) div of_nat n;
               unit = 512 + BLOCK_BYTES + 2 * LINK_BYTES + 16 * 8;
               max_blocks = per_cpu div unit;
               max_blocks = (if push_bit 18 1 < max_blocks then push_bit 18 1 else max_blocks)
           in if max_blocks < 4096 then None else Some max_blocks)"

section \<open>Allocation\<close>

definition jit_os_alloc :: "u64 \<Rightarrow> pmm \<Rightarrow> u64 \<times> pmm" where
  "jit_os_alloc bytes st =
     (let (p, st) = kmalloc ((bytes + PAGE_SIZE - 1) div PAGE_SIZE) st
      in (if p \<noteq> 0 then p + hhdm_offset st else 0, st))"

text \<open>
  What \<open>jit_init\<close> sets: the globals, the fields \<open>jit_run\<close> and \<open>translate\<close> use on each CPU, and the
  pages taken.
\<close>

record jit_setup =
  ju_enabled :: bool
  ju_use_movbe :: bool
  ju_jit :: jit
  ju_conf :: "nat \<Rightarrow> tconf"
  ju_disp :: "nat \<Rightarrow> disp"
  ju_pmm :: pmm

text \<open>A CPU's tables as the zeroed memory holds them, and what is set in them.\<close>

definition zero_block :: jit_block where
  "zero_block = \<lparr>jb_start = 0, jb_n = 0, jb_entry = 0, jb_inv_stub = 0, jb_incoming = [], jb_hoist = [],
     jb_smask = (\<lambda>_. 0), jb_shash = 0, jb_valid = False\<rparr>"

definition new_cpu :: "u64 \<Rightarrow> u64 \<Rightarrow> jit_cpu" where
  "new_cpu code max_blocks = \<lparr>jc_code = (\<lambda>_. 0), jc_code_base = code, jc_code_ptr = code,
     jc_blocks = (\<lambda>_. zero_block), jc_nblocks = 0, jc_links = (\<lambda>_. 0), jc_free_links = [], jc_nlinks = 0,
     jc_max_links = unat (2 * max_blocks), jc_nmeta = 0, jc_max_meta = unat (16 * max_blocks), jc_htab = (\<lambda>_. []),
     jc_queue = (\<lambda>_. 0), jc_qhead = 0, jc_qtail = 0, jc_qoverflow = False, jc_pending = (\<lambda>_. (0, 0)),
     jc_phead = 0, jc_ptail = 0, jc_stats = no_stats\<rparr>"

definition new_conf :: "u64 \<Rightarrow> u64 \<Rightarrow> u64 \<Rightarrow> u64 \<Rightarrow> u64 \<Rightarrow> tconf" where
  "new_conf page_off copy_at meta code_end max_blocks = \<lparr>tc_page_off = page_off, tc_watch_addr = 0, tc_watch_value = 0,
     tc_jit_copy = copy_at, tc_meta_base = meta, tc_code_end = code_end, tc_max_blocks = unat max_blocks\<rparr>"

definition new_disp :: disp where
  "new_disp = \<lparr>dp_exact = False, dp_strong = True, dp_weak = 0, dp_last_eip = 0, dp_eip = 0, dp_budget = 0,
     dp_entries = 0, dp_smc_exits = 0, dp_hoist_exits = 0, dp_executed = 0\<rparr>"

text \<open>A CPU; \<open>False\<close> is an allocation that failed, what was allocated before staying so.\<close>

definition init_cpu :: "u64 \<Rightarrow> u64 \<Rightarrow> u64 \<Rightarrow> u64 \<Rightarrow> nat \<Rightarrow> jit_setup \<Rightarrow> bool \<times> jit_setup" where
  "init_cpu cpu_bytes copy_at page_off max_blocks c U =
     (let (J, st) = jit_os_alloc cpu_bytes (ju_pmm U)
      in if J = 0 then (False, U\<lparr>ju_pmm := st\<rparr>)
         else
           let max_links = 2 * max_blocks; max_meta = 16 * max_blocks; code_bytes = 512 * max_blocks;
               (code, st) = jit_os_alloc code_bytes st;
               (blocks, st) = jit_os_alloc (max_blocks * BLOCK_BYTES) st;
               (links, st) = jit_os_alloc (max_links * LINK_BYTES) st;
               (meta, st) = jit_os_alloc (max_meta * 8) st;
               (htab, st) = jit_os_alloc (push_bit HASH_BITS 8) st;
               U = U\<lparr>ju_pmm := st\<rparr>; W = ju_jit U
           in if code = 0 \<or> blocks = 0 \<or> links = 0 \<or> meta = 0 \<or> htab = 0 then (False, U)
              else (True, U\<lparr>ju_jit := W\<lparr>j_cpus := (j_cpus W)(c := new_cpu code max_blocks), j_quiet := (j_quiet W)(c := - 1)\<rparr>,
                            ju_conf := (ju_conf U)(c := new_conf page_off copy_at meta (code + code_bytes) max_blocks),
                            ju_disp := (ju_disp U)(c := new_disp)\<rparr>))"

definition cpu_total :: "u64 \<Rightarrow> u64 \<Rightarrow> u64" where
  "cpu_total cpu_bytes max_blocks =
     cpu_bytes + 512 * max_blocks + max_blocks * BLOCK_BYTES + (2 * max_blocks) * LINK_BYTES + (16 * max_blocks) * 8 + push_bit HASH_BITS 8"

fun init_cpus :: "u64 \<Rightarrow> u64 \<Rightarrow> u64 \<Rightarrow> u64 \<Rightarrow> nat list \<Rightarrow> u64 \<Rightarrow> jit_setup \<Rightarrow> u64 \<times> jit_setup" where
  "init_cpus cpu_bytes copy_at page_off max_blocks [] taken U = (taken, U\<lparr>ju_enabled := True\<rparr>)"
| "init_cpus cpu_bytes copy_at page_off max_blocks (c # cs) taken U =
     (let (ok, U) = init_cpu cpu_bytes copy_at page_off max_blocks c U
      in if \<not> ok then (0, U)
         else init_cpus cpu_bytes copy_at page_off max_blocks cs (taken + cpu_total cpu_bytes max_blocks) U)"

definition jit_init :: "u64 \<Rightarrow> u64 \<Rightarrow> u64 \<Rightarrow> nat \<Rightarrow> u64 \<Rightarrow> bool \<Rightarrow> jit_setup \<Rightarrow> u64 \<times> jit_setup" where
  "jit_init cpu_bytes copy_at msize n max_bytes movbe U =
     (let n = (if JIT_MAX_CPUS < n then JIT_MAX_CPUS else n);
          U = U\<lparr>ju_jit := (ju_jit U)\<lparr>j_mem_size := msize, j_ncpus := n\<rparr>, ju_use_movbe := movbe\<rparr>
      in case block_count cpu_bytes n msize max_bytes of
           None \<Rightarrow> (0, U)
         | Some max_blocks \<Rightarrow>
             let (smap, st) = jit_os_alloc (map_bytes msize + page_bytes msize) (ju_pmm U);
                 (dmap, st) = jit_os_alloc (map_bytes msize) st;
                 U = U\<lparr>ju_pmm := st\<rparr>
             in if smap = 0 \<or> dmap = 0 then (0, U)
                else
                  let U = U\<lparr>ju_jit := (ju_jit U)\<lparr>j_maps := \<lparr>static_map = (\<lambda>_. 0), page_map = (\<lambda>_. 0)\<rparr>, j_dyn_map := (\<lambda>_. 0)\<rparr>\<rparr>
                  in init_cpus cpu_bytes copy_at (map_bytes msize) max_blocks [0..<n] (2 * map_bytes msize + page_bytes msize) U)"

section \<open>A new CPU's tables\<close>

lemma new_cpu_ok:
  "live (new_cpu code mb) = {}" "tables_ok (new_cpu code mb)" "words_queued (new_cpu code mb) = []" "pending_list (new_cpu code mb) = []"
  by (simp_all add: live_def tables_ok_def words_queued_def pending_list_def ring_list_def ring_len_def new_cpu_def QUEUE_LEN_def
      PENDING_LEN_def)

lemma new_cpu_coherent: "cpu_coherent s W (new_cpu code mb)"
  by (simp add: cpu_coherent_def new_cpu_ok)

lemma new_cpu_runs: "pending_ok msize (new_cpu code mb)" "blocks_below (new_cpu code mb)"
  by (simp_all add: pending_ok_def blocks_below_def new_cpu_ok) (simp_all add: new_cpu_def PENDING_LEN_def)

section \<open>The memory it takes\<close>

lemma unat_drop: "unat (drop_bit k (x :: u64)) < 2 ^ n" if "64 \<le> k + n"
proof -
  have x: "unat x < 2 ^ 64" using unsigned_less [of x] by simp
  then have "unat x < 2 ^ n * 2 ^ k" using power_increasing [OF that, of "2 :: nat"] by (simp add: power_add mult.commute)
  moreover have "unat (drop_bit k x) = unat x div 2 ^ k"
    using x by (simp only: unsigned_drop_bit_eq drop_bit_nat_def) (simp add: take_bit_nat_def)
  ultimately show ?thesis by (metis less_mult_imp_div_less)
qed

lemma map_bytes_le: "unat (map_bytes msize) \<le> 2 ^ 58 + 15"
proof -
  have "unat (drop_bit 6 msize) < 2 ^ 58" by (rule unat_drop) simp
  then have "unat (drop_bit 6 msize + 15) \<le> 2 ^ 58 + 15" by (simp add: unat_word_ariths)
  moreover have "unat (map_bytes msize) \<le> unat (drop_bit 6 msize + 15)"
    using word_and_le2 [of "drop_bit 6 msize + 15" "NOT 7"] by (simp add: map_bytes_def word_le_nat_alt)
  ultimately show ?thesis by linarith
qed

lemma page_bytes_le: "unat (page_bytes msize) \<le> 2 ^ 52"
proof -
  have "unat (drop_bit 12 msize) < 2 ^ 52" by (rule unat_drop) simp
  then show ?thesis by (simp add: page_bytes_def unat_word_ariths)
qed

lemma unat_fixed_bytes:
  assumes "unat cpu_bytes \<le> 2 ^ 32" "n \<le> 128"
  shows "unat (fixed_bytes cpu_bytes n msize) =
    2 * unat (map_bytes msize) + unat (page_bytes msize) + n * (unat cpu_bytes + 2 ^ 19)"
proof -
  let ?k = "2 * unat (map_bytes msize) + unat (page_bytes msize) + n * (unat cpu_bytes + 2 ^ 19)"
  have "n * (unat cpu_bytes + 2 ^ 19) \<le> 128 * (2 ^ 32 + 2 ^ 19)" using assms by (intro mult_le_mono) simp_all
  then have "?k \<le> 18446744073709551615" using map_bytes_le [of msize] page_bytes_le [of msize] by simp
  moreover have "fixed_bytes cpu_bytes n msize = of_nat ?k"
    by (simp add: fixed_bytes_def HASH_BITS_def push_bit_eq_mult)
  ultimately show ?thesis by (simp only: unat_of_nat_u64)
qed

lemma block_count_fits:
  assumes "block_count cpu_bytes n msize max_bytes = Some mb" "0 < n" "n \<le> 128" "unat cpu_bytes \<le> 2 ^ 32"
  shows "4096 \<le> unat mb" "unat mb \<le> 2 ^ 18"
    "unat (fixed_bytes cpu_bytes n msize) + n * (768 * unat mb) \<le> unat max_bytes"
proof -
  let ?f = "fixed_bytes cpu_bytes n msize"
  define p where "p = (max_bytes - ?f) div of_nat n"
  have f: "?f < max_bytes" and m: "4096 \<le> mb" "mb = (if push_bit 18 1 < p div 768 then push_bit 18 1 else p div 768)"
    using assms(1) by (auto simp: block_count_def Let_def p_def BLOCK_BYTES_def LINK_BYTES_def not_le not_less split: if_splits)
  show "4096 \<le> unat mb" using m(1) by (simp add: word_le_nat_alt)
  have "mb \<le> push_bit 18 1" "mb \<le> p div 768" using m(2) by (auto split: if_splits)
  then have mb: "unat mb \<le> 2 ^ 18" "unat mb \<le> unat p div 768" by (simp_all add: word_le_nat_alt unat_div push_bit_eq_mult)
  then show "unat mb \<le> 2 ^ 18" by simp
  have "unat (of_nat n :: u64) = n" using assms(3) by (simp add: unsigned_of_nat take_bit_nat_eq_self)
  then have "unat p = (unat max_bytes - unat ?f) div n" using f
    by (simp add: p_def unat_div unat_sub order_less_imp_le)
  then have "n * unat p \<le> unat max_bytes - unat ?f" by simp
  moreover have "n * (768 * unat mb) \<le> n * unat p" using mb(2) by (intro mult_le_mono2) linarith
  ultimately have "n * (768 * unat mb) \<le> unat max_bytes - unat ?f" by (rule le_trans [rotated])
  moreover have "unat ?f < unat max_bytes" using f by (simp add: word_less_nat_alt)
  ultimately show "unat ?f + n * (768 * unat mb) \<le> unat max_bytes" by linarith
qed

section \<open>The tables it makes\<close>

definition cpu_ready :: "u64 \<Rightarrow> u64 \<Rightarrow> nat \<Rightarrow> jit_setup \<Rightarrow> bool" where
  "cpu_ready page_off mb c U \<longleftrightarrow>
     (let J = j_cpus (ju_jit U) c; T = ju_conf U c
      in jc_code_base J \<noteq> 0 \<and> J = new_cpu (jc_code_base J) mb \<and> ju_disp U c = new_disp \<and> j_quiet (ju_jit U) c = - 1 \<and>
         T = new_conf page_off (tc_jit_copy T) (tc_meta_base T) (jc_code_base J + 512 * mb) mb)"

lemma new_parts [simp]:
  "jc_code_base (new_cpu code mb) = code" "tc_jit_copy (new_conf p c m e mb) = c" "tc_meta_base (new_conf p c m e mb) = m"
  by (simp_all add: new_cpu_def new_conf_def)

definition same_rest :: "jit \<Rightarrow> jit \<Rightarrow> bool" where
  "same_rest W W' \<longleftrightarrow> j_mem W' = j_mem W \<and> j_mem_size W' = j_mem_size W \<and> j_maps W' = j_maps W \<and>
     j_dyn_map W' = j_dyn_map W \<and> j_ncpus W' = j_ncpus W"

lemma init_cpu_ready:
  assumes "init_cpu cpu_bytes copy_at page_off mb c U = (True, U')"
  shows "cpu_ready page_off mb c U'" "c' \<noteq> c \<Longrightarrow> cpu_ready page_off mb c' U' = cpu_ready page_off mb c' U"
    "same_rest (ju_jit U) (ju_jit U')" "ju_enabled U' = ju_enabled U"
  using assms by (auto simp: init_cpu_def cpu_ready_def same_rest_def Let_def split: prod.splits if_splits)

lemma init_cpu_fails: "init_cpu cpu_bytes copy_at page_off mb c U = (False, U') \<Longrightarrow> ju_enabled U' = ju_enabled U"
  by (auto simp: init_cpu_def Let_def split: prod.splits if_splits)

lemma init_cpus_ready:
  assumes "init_cpus cpu_bytes copy_at page_off mb cs taken U = (t, U')" "\<not> ju_enabled U" "distinct cs"
  shows "if ju_enabled U'
    then t = taken + of_nat (length cs) * cpu_total cpu_bytes mb \<and> (\<forall>c\<in>set cs. cpu_ready page_off mb c U') \<and>
      (\<forall>c. c \<notin> set cs \<longrightarrow> cpu_ready page_off mb c U \<longrightarrow> cpu_ready page_off mb c U') \<and>
      same_rest (ju_jit U) (ju_jit U')
    else t = 0"
  using assms
proof (induction cs arbitrary: taken U)
  case Nil
  then show ?case by (auto simp: cpu_ready_def same_rest_def)
next
  case (Cons c cs)
  obtain ok U1 where i: "init_cpu cpu_bytes copy_at page_off mb c U = (ok, U1)" by fastforce
  show ?case
  proof (cases ok)
    case False
    then show ?thesis using Cons.prems i init_cpu_fails by auto
  next
    case True
    note r = init_cpu_ready [OF i [unfolded eqTrueI [OF True]]]
    have "init_cpus cpu_bytes copy_at page_off mb cs (taken + cpu_total cpu_bytes mb) U1 = (t, U')" "\<not> ju_enabled U1" "distinct cs"
      using Cons.prems i True r(4) by auto
    note IH = Cons.IH [OF this]
    show ?thesis
    proof (cases "ju_enabled U'")
      case True
      have "cpu_ready page_off mb c U'" using IH True r(1) Cons.prems(3) by auto
      moreover have "same_rest (ju_jit U) (ju_jit U')" using IH True r(3) by (simp add: same_rest_def)
      moreover have "\<forall>d. d \<notin> set (c # cs) \<longrightarrow> cpu_ready page_off mb d U \<longrightarrow> cpu_ready page_off mb d U'"
        using IH True r(2) by auto
      ultimately show ?thesis using IH True by (simp add: algebra_simps)
    qed (use IH in simp)
  qed
qed

lemma cpu_total_eq: "cpu_total cpu_bytes mb = cpu_bytes + push_bit HASH_BITS 8 + 768 * mb"
  by (simp add: cpu_total_def BLOCK_BYTES_def LINK_BYTES_def)

lemma jit_init_enabled:
  assumes "jit_init cpu_bytes copy_at msize n max_bytes movbe U = (taken, U')" "\<not> ju_enabled U"
  defines "k \<equiv> min n JIT_MAX_CPUS"
  shows "if ju_enabled U'
    then \<exists>mb. block_count cpu_bytes k msize max_bytes = Some mb \<and> taken = fixed_bytes cpu_bytes k msize + of_nat k * (768 * mb) \<and>
      (\<forall>c<k. cpu_ready (map_bytes msize) mb c U') \<and> j_mem (ju_jit U') = j_mem (ju_jit U) \<and> j_mem_size (ju_jit U') = msize \<and>
      j_ncpus (ju_jit U') = k \<and> j_maps (ju_jit U') = \<lparr>static_map = (\<lambda>_. 0), page_map = (\<lambda>_. 0)\<rparr> \<and> j_dyn_map (ju_jit U') = (\<lambda>_. 0)
    else taken = 0"
proof -
  define U0 where "U0 = U\<lparr>ju_jit := (ju_jit U)\<lparr>j_mem_size := msize, j_ncpus := k\<rparr>, ju_use_movbe := movbe\<rparr>"
  have k: "(if JIT_MAX_CPUS < n then JIT_MAX_CPUS else n) = k" by (simp add: k_def)
  have u: "ju_pmm U0 = ju_pmm U" by (simp add: U0_def)
  note i = assms(1) [unfolded jit_init_def Let_def k U0_def [symmetric]]
  show ?thesis
  proof (cases "block_count cpu_bytes k msize max_bytes")
    case None
    then show ?thesis using i assms(2) by (auto simp: U0_def)
  next
    case (Some mb)
    obtain smap st where s: "jit_os_alloc (map_bytes msize + page_bytes msize) (ju_pmm U0) = (smap, st)" by fastforce
    obtain dmap st2 where d: "jit_os_alloc (map_bytes msize) st = (dmap, st2)" by fastforce
    show ?thesis
    proof (cases "smap = 0 \<or> dmap = 0")
      case True
      then have "taken = 0" "U' = U0\<lparr>ju_pmm := st2\<rparr>" using i by (auto simp: Some s d)
      then show ?thesis using assms(2) by (simp add: U0_def)
    next
      case False
      define U1 where "U1 = U0\<lparr>ju_pmm := st2, ju_jit := (ju_jit U0)\<lparr>j_maps := \<lparr>static_map = (\<lambda>_. 0), page_map = (\<lambda>_. 0)\<rparr>, j_dyn_map := (\<lambda>_. 0)\<rparr>\<rparr>"
      have "init_cpus cpu_bytes copy_at (map_bytes msize) mb [0..<k] (2 * map_bytes msize + page_bytes msize) U1 = (taken, U')"
        using i False by (simp add: Some s d U1_def)
      moreover have "\<not> ju_enabled U1" using assms(2) by (simp add: U1_def U0_def)
      ultimately have r: "if ju_enabled U'
        then taken = 2 * map_bytes msize + page_bytes msize + of_nat (length [0..<k]) * cpu_total cpu_bytes mb \<and>
          (\<forall>c\<in>set [0..<k]. cpu_ready (map_bytes msize) mb c U') \<and>
          (\<forall>c. c \<notin> set [0..<k] \<longrightarrow> cpu_ready (map_bytes msize) mb c U1 \<longrightarrow> cpu_ready (map_bytes msize) mb c U') \<and>
          same_rest (ju_jit U1) (ju_jit U')
        else taken = 0"
        by (rule init_cpus_ready) simp
      have "2 * map_bytes msize + page_bytes msize + of_nat k * cpu_total cpu_bytes mb = fixed_bytes cpu_bytes k msize + of_nat k * (768 * mb)"
        by (simp add: fixed_bytes_def cpu_total_eq algebra_simps)
      then show ?thesis using r by (cases "ju_enabled U'") (simp_all add: Some same_rest_def U1_def U0_def)
    qed
  qed
qed

lemma ready_coherent:
  assumes "\<forall>c<j_ncpus (ju_jit U). cpu_ready po mb c U" "unat (j_mem_size (ju_jit U)) \<le> 2 ^ 63" "c < j_ncpus (ju_jit U)"
  shows "cpu_ok sn c (ju_jit U)"
proof -
  have "\<exists>code. j_cpus (ju_jit U) d = new_cpu code mb" if "d < j_ncpus (ju_jit U)" for d
    using assms(1) that unfolding cpu_ready_def Let_def by blast
  then have "cpu_coherent s W (j_cpus (ju_jit U) d) \<and> pending_ok m (j_cpus (ju_jit U) d) \<and> blocks_below (j_cpus (ju_jit U) d)"
    if "d < j_ncpus (ju_jit U)" for d s W m
    using that new_cpu_coherent new_cpu_runs by metis
  then show ?thesis using assms(2,3) by (simp add: cpu_ok_def coherent_def)
qed

lemma jit_init_spec:
  assumes "jit_init cpu_bytes copy_at msize n max_bytes movbe U = (taken, U')" "\<not> ju_enabled U" "0 < n"
    and "unat msize \<le> 2 ^ 63" "unat cpu_bytes \<le> 2 ^ 32"
  shows "taken \<le> max_bytes \<and> (ju_enabled U' \<longleftrightarrow> taken \<noteq> 0) \<and>
    (taken \<noteq> 0 \<longrightarrow> (\<exists>mb. 4096 \<le> mb \<and> mb \<le> 2 ^ 18 \<and>
      unat taken = 2 * unat (map_bytes msize) + unat (page_bytes msize) + min n 128 * (unat cpu_bytes + 2 ^ 19 + 768 * mb) \<and>
      (\<forall>c<min n 128. cpu_ok sn c (ju_jit U') \<and> (\<forall>a. lookup (j_cpus (ju_jit U') c) a = None) \<and>
        tc_code_end (ju_conf U' c) = jc_code_ptr (j_cpus (ju_jit U') c) + of_nat (512 * mb) \<and> tc_max_blocks (ju_conf U' c) = mb) \<and>
      (\<forall>w. \<not> bit_get (static_map (j_maps (ju_jit U'))) w \<and> \<not> bit_get (j_dyn_map (ju_jit U')) w)))"
proof (cases "ju_enabled U'")
  case False
  then show ?thesis using jit_init_enabled [OF assms(1,2)] by simp
next
  case True
  let ?k = "min n JIT_MAX_CPUS" let ?f = "fixed_bytes cpu_bytes ?k msize"
  have k: "0 < ?k" "?k \<le> 128" using assms(3) by (simp_all add: JIT_MAX_CPUS_def)
  obtain mb where mb: "block_count cpu_bytes ?k msize max_bytes = Some mb" and t: "taken = ?f + of_nat ?k * (768 * mb)"
    and r: "\<forall>c<?k. cpu_ready (map_bytes msize) mb c U'" "j_mem_size (ju_jit U') = msize" "j_ncpus (ju_jit U') = ?k"
      "j_maps (ju_jit U') = \<lparr>static_map = (\<lambda>_. 0), page_map = (\<lambda>_. 0)\<rparr>" "j_dyn_map (ju_jit U') = (\<lambda>_. 0)"
    using jit_init_enabled [OF assms(1,2)] True by auto
  note b = block_count_fits [OF mb k assms(5)] and f = unat_fixed_bytes [OF assms(5) k(2), of msize]
  let ?t = "unat ?f + ?k * (768 * unat mb)"
  have "unat max_bytes < 2 ^ 64" using unsigned_less [of max_bytes] by simp
  then have "?t \<le> 18446744073709551615" using b(3) by simp
  moreover have "taken = of_nat ?t" by (simp add: t)
  ultimately have ut: "unat taken = ?t" by (simp only: unat_of_nat_u64)
  have "taken \<le> max_bytes" using b(3) ut by (simp add: word_le_nat_alt)
  moreover have "taken \<noteq> 0"
  proof -
    have "768 * 4096 \<le> ?k * (768 * unat mb)" using b(1) k(1) mult_le_mono [of 1 ?k "768 * 4096" "768 * unat mb"] by simp
    then have "unat taken \<noteq> 0" using ut by linarith
    then show ?thesis by auto
  qed
  moreover have "cpu_ok sn c (ju_jit U')" if "c < ?k" for c
    using ready_coherent [of U' "map_bytes msize" mb c sn] r assms(4) that by simp
  moreover have "(\<forall>a. lookup (j_cpus (ju_jit U') c) a = None) \<and>
      tc_code_end (ju_conf U' c) = jc_code_ptr (j_cpus (ju_jit U') c) + of_nat (512 * unat mb) \<and> tc_max_blocks (ju_conf U' c) = unat mb" if c: "c < ?k" for c
  proof -
    obtain code cp meta where "j_cpus (ju_jit U') c = new_cpu code mb" "ju_conf U' c = new_conf (map_bytes msize) cp meta (code + 512 * mb) mb"
      using r(1) c unfolding cpu_ready_def Let_def by metis
    then show ?thesis by (simp add: lookup_def new_cpu_def new_conf_def)
  qed
  ultimately show ?thesis using True b(1,2) ut f r
    by (intro conjI impI exI [of _ "unat mb"]) (auto simp: JIT_MAX_CPUS_def bit_get_iff algebra_simps)
qed

section \<open>Enough memory is enough\<close>

text \<open>\<open>r\<close> free pages from \<open>kmalloc\<close>'s hint on.\<close>

definition room :: "nat \<Rightarrow> pmm \<Rightarrow> bool" where
  "room r st \<longleftrightarrow> pmm_ok st \<and> hhdm_ok st \<and> unat (last_alloc_page st) + r \<le> unat (max_page st) \<and>
     (\<forall>k<r. \<not> page_used st (of_nat (unat (last_alloc_page st) + k)))"

lemma scan_free:
  assumes "\<forall>k<m. \<not> used (of_nat (i + k))" "0 < m" "m \<le> n" "c + m < 2 ^ 64"
  shows "scan_pages used (of_nat (c + m)) n (of_nat i) (of_nat c) = Some (of_nat (i + m - 1))"
  using assms
proof (induction m arbitrary: i c n)
  case (Suc m)
  obtain n' where n: "n = Suc n'" using Suc.prems by (cases n) auto
  have u: "\<not> used (of_nat i)" using Suc.prems(1) by force
  show ?case
  proof (cases "m = 0")
    case True
    then show ?thesis using u by (simp add: n)
  next
    case False
    have "of_nat (Suc c) \<noteq> (of_nat (c + Suc m) :: u64)"
    proof
      assume "of_nat (Suc c) = (of_nat (c + Suc m) :: u64)"
      then have "unat (of_nat (Suc c) :: u64) = unat (of_nat (c + Suc m) :: u64)" by (rule arg_cong)
      then show False using Suc.prems(4) False unat_of_nat_u64 [of "Suc c"] unat_of_nat_u64 [of "c + Suc m"] by simp
    qed
    then have "scan_pages used (of_nat (c + Suc m)) n (of_nat i) (of_nat c) =
        scan_pages used (of_nat (Suc c + m)) n' (of_nat (Suc i)) (of_nat (Suc c))"
      using u by (simp add: n add.commute)
    also have "\<dots> = Some (of_nat (Suc i + m - 1))"
    proof (rule Suc.IH)
      show "\<forall>k<m. \<not> used (of_nat (Suc i + k))" using Suc.prems(1) by (metis Suc_less_eq add_Suc add_Suc_right)
    qed (use Suc.prems False n in auto)
    finally show ?thesis by simp
  qed
qed simp

lemma kmalloc_room:
  assumes "room r st" "0 < n" "n \<le> r"
  shows "\<exists>p st'. kmalloc (of_nat n) st = (p, st') \<and> p \<noteq> 0 \<and> unat (hhdm_offset st) + unat p < 2 ^ 64 \<and> room (r - n) st' \<and>
    hhdm_offset st' = hhdm_offset st"
proof -
  let ?l = "unat (last_alloc_page st)"
  have ok: "pmm_ok st" "hhdm_ok st" and m: "?l + r \<le> unat (max_page st)" "unat (max_page st) \<le> 2 ^ 40" "4096 \<le> ?l"
    and f: "\<forall>k<r. \<not> page_used st (of_nat (?l + k))"
    using assms(1) by (auto simp: room_def pmm_ok_def base_unat)
  have un: "unat (of_nat n :: u64) = n" using assms(3) m by (intro unat_of_nat_u64) simp
  have "scan_pages (page_used st) (of_nat (0 + n)) (unat (max_page st) - ?l) (of_nat ?l) (of_nat 0) = Some (of_nat (?l + n - 1))"
    using f assms(2,3) m by (intro scan_free) auto
  then have k: "kmalloc (of_nat n) st = kmalloc_take (of_nat n) (of_nat (?l + n - 1)) st"
    by (simp add: kmalloc_def)
  obtain p st' where e: "kmalloc (of_nat n) st = (p, st')" by fastforce
  have s: "of_nat (?l + n - 1) - (of_nat n - 1) = last_alloc_page st"
    using assms(2) by (simp add: of_nat_diff)
  have p: "p = last_alloc_page st * PAGE_SIZE" and l: "last_alloc_page st' = of_nat (?l + n)"
    using e assms(2) unfolding k kmalloc_take_def Let_def s by (auto simp: of_nat_diff)
  have up: "unat p = 4096 * ?l" using m by (simp add: p PAGE_SIZE_def unat_word_ariths)
  then have p0: "p \<noteq> 0" using m(3) by auto
  have n0: "(of_nat n :: u64) \<noteq> 0" using un assms(2) by auto
  have fr: "hhdm_offset st' = hhdm_offset st" "max_page st' = max_page st" using kmalloc_frame [OF e] by simp_all
  have o: "pmm_ok st'" and u: "\<forall>j. page_used st' j \<longleftrightarrow> ?l \<le> unat j \<and> unat j < ?l + n \<or> page_used st j"
    using kmalloc_spec [OF ok(1) n0 ok(2) e] p0 up by (auto simp: un)
  have ul: "unat (last_alloc_page st') = ?l + n" using l assms(3) m by (simp only: l) (intro unat_of_nat_u64, simp)
  have "\<not> page_used st' (of_nat (?l + n + k))" if "k < r - n" for k
  proof -
    have "unat (of_nat (?l + (n + k)) :: u64) = ?l + (n + k)" using that m by (intro unat_of_nat_u64) simp
    then show ?thesis using u f [rule_format, of "n + k"] that by (simp add: add.assoc)
  qed
  then have "room (r - n) st'"
    using o fr m assms(3) ok by (simp add: room_def hhdm_ok_def ul)
  moreover have "unat (hhdm_offset st) + unat p < 2 ^ 64" using ok(2) m up assms(2,3) by (simp add: hhdm_ok_def)
  ultimately show ?thesis using e p0 fr by auto
qed

definition pages_of :: "u64 \<Rightarrow> nat" where
  "pages_of bytes = (unat bytes + 4095) div 4096"

lemma jit_os_alloc_room:
  assumes "room (pages_of bytes + r) st" "bytes \<noteq> 0" "unat bytes < 2 ^ 60"
  shows "\<exists>p st'. jit_os_alloc bytes st = (p, st') \<and> p \<noteq> 0 \<and> room r st'"
proof -
  have "unat (bytes + PAGE_SIZE - 1) = unat bytes + 4095" using assms(3) by (simp add: PAGE_SIZE_def unat_word_ariths)
  then have "unat ((bytes + PAGE_SIZE - 1) div PAGE_SIZE) = pages_of bytes" by (simp add: pages_of_def unat_div PAGE_SIZE_def)
  then have "of_nat (unat ((bytes + PAGE_SIZE - 1) div PAGE_SIZE)) = (of_nat (pages_of bytes) :: u64)" by (simp only:)
  then have e: "(bytes + PAGE_SIZE - 1) div PAGE_SIZE = of_nat (pages_of bytes)" by simp
  have "0 < unat bytes" using assms(2) by (simp add: unat_gt_0)
  then have "0 < pages_of bytes" by (simp add: pages_of_def)
  from kmalloc_room [OF assms(1) this le_add1]
  obtain p st' where k: "kmalloc (of_nat (pages_of bytes)) st = (p, st')" "p \<noteq> 0" "unat (hhdm_offset st) + unat p < 2 ^ 64"
    "room r st'" "hhdm_offset st' = hhdm_offset st" by auto
  have "unat (p + hhdm_offset st) = unat p + unat (hhdm_offset st)" using k(3) by (simp add: unat_word_ariths)
  then have "p + hhdm_offset st \<noteq> 0" using k(2) by (metis add_is_0 unat_eq_zero unat_0)
  then show ?thesis using k by (simp add: jit_os_alloc_def e)
qed

definition cpu_pages :: "u64 \<Rightarrow> u64 \<Rightarrow> nat" where
  "cpu_pages cpu_bytes mb = pages_of cpu_bytes + pages_of (512 * mb) + pages_of (mb * BLOCK_BYTES) + pages_of (2 * mb * LINK_BYTES) +
     pages_of (16 * mb * 8) + pages_of (push_bit HASH_BITS 8)"

lemma table_bytes:
  fixes mb k :: u64
  assumes "4096 \<le> unat mb" "unat mb \<le> 2 ^ 18" "0 < unat k" "unat k \<le> 512"
  shows "mb * k \<noteq> 0" "unat (mb * k) < 2 ^ 60"
proof -
  have l: "unat mb * unat k \<le> 2 ^ 18 * 512" using assms by (intro mult_le_mono) simp_all
  then have "unat (mb * k) = unat mb * unat k" by (simp add: unat_word_ariths)
  then show "mb * k \<noteq> 0" "unat (mb * k) < 2 ^ 60" using assms l by (auto simp: unat_eq_zero [symmetric])
qed

lemma init_cpu_room:
  assumes "room (cpu_pages cpu_bytes mb + r) (ju_pmm U)" "4096 \<le> unat mb" "unat mb \<le> 2 ^ 18" "cpu_bytes \<noteq> 0" "unat cpu_bytes \<le> 2 ^ 32"
  shows "\<exists>U'. init_cpu cpu_bytes copy_at po mb c U = (True, U') \<and> room r (ju_pmm U')"
proof -
  note tb = table_bytes [OF assms(2,3)]
  have l: "512 * mb = mb * 512" "2 * mb * LINK_BYTES = mb * 32" "16 * mb * 8 = mb * 128" by (simp_all add: LINK_BYTES_def)
  note r = assms(1) [unfolded cpu_pages_def add.assoc]
  obtain J st where 0: "jit_os_alloc cpu_bytes (ju_pmm U) = (J, st)" "J \<noteq> 0" and r0: "room (pages_of (512 * mb) +
      (pages_of (mb * BLOCK_BYTES) + (pages_of (2 * mb * LINK_BYTES) + (pages_of (16 * mb * 8) + (pages_of (push_bit HASH_BITS 8) + r))))) st"
    using jit_os_alloc_room [OF r assms(4)] assms(5) by auto
  obtain c1 s1 where 1: "jit_os_alloc (512 * mb) st = (c1, s1)" "c1 \<noteq> 0" and r1: "room (pages_of (mb * BLOCK_BYTES) +
      (pages_of (2 * mb * LINK_BYTES) + (pages_of (16 * mb * 8) + (pages_of (push_bit HASH_BITS 8) + r)))) s1"
    using jit_os_alloc_room [OF r0] tb [of 512] unfolding l by auto
  obtain c2 s2 where 2: "jit_os_alloc (mb * BLOCK_BYTES) s1 = (c2, s2)" "c2 \<noteq> 0"
    and r2: "room (pages_of (2 * mb * LINK_BYTES) + (pages_of (16 * mb * 8) + (pages_of (push_bit HASH_BITS 8) + r))) s2"
    using jit_os_alloc_room [OF r1] tb [of BLOCK_BYTES] by (auto simp: BLOCK_BYTES_def)
  obtain c3 s3 where 3: "jit_os_alloc (2 * mb * LINK_BYTES) s2 = (c3, s3)" "c3 \<noteq> 0"
    and r3: "room (pages_of (16 * mb * 8) + (pages_of (push_bit HASH_BITS 8) + r)) s3"
    using jit_os_alloc_room [OF r2] tb [of 32] unfolding l by auto
  obtain c4 s4 where 4: "jit_os_alloc (16 * mb * 8) s3 = (c4, s4)" "c4 \<noteq> 0" and r4: "room (pages_of (push_bit HASH_BITS 8) + r) s4"
    using jit_os_alloc_room [OF r3] tb [of 128] unfolding l by auto
  obtain c5 s5 where 5: "jit_os_alloc (push_bit HASH_BITS 8) s4 = (c5, s5)" "c5 \<noteq> 0" "room r s5"
    using jit_os_alloc_room [OF r4] by (auto simp: HASH_BITS_def push_bit_eq_mult)
  show ?thesis using 0 1 2 3 4 5 unfolding init_cpu_def by (simp add: Let_def)
qed

lemma init_cpus_room:
  assumes "room (length cs * cpu_pages cpu_bytes mb + r) (ju_pmm U)" "4096 \<le> unat mb" "unat mb \<le> 2 ^ 18" "cpu_bytes \<noteq> 0"
    "unat cpu_bytes \<le> 2 ^ 32"
  shows "ju_enabled (snd (init_cpus cpu_bytes copy_at po mb cs taken U))"
  using assms(1)
proof (induction cs arbitrary: taken U)
  case (Cons c cs)
  have "room (cpu_pages cpu_bytes mb + (length cs * cpu_pages cpu_bytes mb + r)) (ju_pmm U)" using Cons.prems by (simp add: add.assoc)
  from init_cpu_room [OF this assms(2-5)] obtain U' where
    u: "init_cpu cpu_bytes copy_at po mb c U = (True, U')" "room (length cs * cpu_pages cpu_bytes mb + r) (ju_pmm U')" by blast
  show ?case using Cons.IH [OF u(2)] by (simp add: u(1))
qed simp

text \<open>The free pages \<open>jit_init\<close> needs from the allocator's hint on.\<close>

definition jit_pages :: "u64 \<Rightarrow> nat \<Rightarrow> u64 \<Rightarrow> u64 \<Rightarrow> nat" where
  "jit_pages cpu_bytes k msize mb =
     pages_of (map_bytes msize + page_bytes msize) + pages_of (map_bytes msize) + k * cpu_pages cpu_bytes mb"

lemma map_sizes:
  "map_bytes msize \<noteq> 0" "map_bytes msize + page_bytes msize \<noteq> 0" "unat (map_bytes msize + page_bytes msize) < 2 ^ 60" "unat (map_bytes msize) < 2 ^ 60"
proof -
  have m: "unat (map_bytes msize) \<le> 2 ^ 58 + 15" and p: "unat (page_bytes msize) \<le> 2 ^ 52" using map_bytes_le page_bytes_le by auto
  have s: "unat (drop_bit 6 msize) < 2 ^ 58" by (rule unat_drop) simp
  have "drop_bit 6 msize + 15 \<noteq> take_bit 3 (drop_bit 6 msize + 15)"
  proof
    assume e: "drop_bit 6 msize + 15 = take_bit 3 (drop_bit 6 msize + 15)"
    have "unat (take_bit 3 (drop_bit 6 msize + 15)) < 8" using take_bit_nat_less_exp [of 3] by (simp only: unsigned_take_bit_eq) simp
    moreover have "unat (drop_bit 6 msize + 15) = unat (drop_bit 6 msize) + 15" using s by (simp add: unat_word_ariths)
    ultimately show False using e by simp
  qed
  moreover have "drop_bit 6 msize + 15 = map_bytes msize OR take_bit 3 (drop_bit 6 msize + 15)"
  proof -
    have "(7 :: u64) = mask 3" by (simp add: mask_eq_exp_minus_1)
    then show ?thesis unfolding map_bytes_def
      by (intro bit_word_eqI) (auto simp only: bit_or_iff bit_and_iff bit_not_iff bit_take_bit_iff bit_mask_iff possible_bit_word)
  qed
  ultimately show z: "map_bytes msize \<noteq> 0" by auto
  have a: "unat (map_bytes msize + page_bytes msize) = unat (map_bytes msize) + unat (page_bytes msize)"
    using m p by (simp add: unat_word_ariths)
  then show "unat (map_bytes msize + page_bytes msize) < 2 ^ 60" using m p by simp
  show "map_bytes msize + page_bytes msize \<noteq> 0" using a z by (metis add_is_0 unat_eq_zero unsigned_0)
  show "unat (map_bytes msize) < 2 ^ 60" using m by simp
qed

lemma jit_init_room:
  assumes "block_count cpu_bytes (min n JIT_MAX_CPUS) msize max_bytes = Some mb" "0 < n" "cpu_bytes \<noteq> 0" "unat cpu_bytes \<le> 2 ^ 32"
    and "room (jit_pages cpu_bytes (min n JIT_MAX_CPUS) msize mb + r) (ju_pmm U)"
  shows "ju_enabled (snd (jit_init cpu_bytes copy_at msize n max_bytes movbe U))"
proof -
  let ?k = "min n JIT_MAX_CPUS"
  have k: "0 < ?k" "?k \<le> 128" "(if JIT_MAX_CPUS < n then JIT_MAX_CPUS else n) = ?k" using assms(2) by (simp_all add: JIT_MAX_CPUS_def)
  note b = block_count_fits [OF assms(1) k(1,2) assms(4)] and ms = map_sizes [of msize]
  note r = assms(5) [unfolded jit_pages_def add.assoc]
  obtain s st where s: "jit_os_alloc (map_bytes msize + page_bytes msize) (ju_pmm U) = (s, st)" "s \<noteq> 0"
    "room (pages_of (map_bytes msize) + (?k * cpu_pages cpu_bytes mb + r)) st"
    using jit_os_alloc_room [OF r ms(2,3)] by auto
  obtain d st2 where d: "jit_os_alloc (map_bytes msize) st = (d, st2)" "d \<noteq> 0" "room (?k * cpu_pages cpu_bytes mb + r) st2"
    using jit_os_alloc_room [OF s(3) ms(1,4)] by auto
  show ?thesis
    unfolding jit_init_def Let_def k(3)
    using init_cpus_room [OF _ b(1,2) assms(3,4), where cs = "[0..<?k]"] d(3)
    by (simp add: assms(1) s(1,2) d(1,2))
qed

section \<open>The properties\<close>



text \<open>4 GiB of free memory and 64 MiB of it for one CPU's translator.\<close>

definition big_pmm :: pmm where
  "big_pmm = \<lparr>mem_bitmap = (\<lambda>_. 0), bitmap_pages = 8, max_page = 1048576, last_alloc_page = 4096, hhdm_offset = 0xffff800000000000,
     kernel_phys_base = 0, kernel_virt_base = 0, phys_mem = (\<lambda>_. 7)\<rparr>"

definition setup0 :: jit_setup where
  "setup0 = \<lparr>ju_enabled = False, ju_use_movbe = False, ju_jit = idle_jit, ju_conf = (\<lambda>_. idle_conf), ju_disp = (\<lambda>_. idle_disp),
     ju_pmm = big_pmm\<rparr>"

lemma setup0_room: "room 1000000 (ju_pmm setup0)"
  by (simp add: room_def setup0_def big_pmm_def pmm_ok_def hhdm_ok_def base_unat rd_bitmap_iff)

lemma setup0_sizes:
  "block_count 131072 (min 1 JIT_MAX_CPUS) 0x20000000 67108864 = Some 64511" "jit_pages 131072 (min 1 JIT_MAX_CPUS) 0x20000000 64511 = 16386"
  by (simp_all add: block_count_def fixed_bytes_def map_bytes_def page_bytes_def BLOCK_BYTES_def LINK_BYTES_def HASH_BITS_def
      JIT_MAX_CPUS_def jit_pages_def cpu_pages_def pages_of_def push_bit_eq_mult drop_bit_eq_div)



end
