(* ===== verification/Events.thy ===== *)
theory Events
  imports Kprint Memory
begin

text \<open>
  What the kernel does to devices, as a list of events in order: writes to the local APIC, to an I/O
  APIC and to ports (the inline functions of cpu.h, \<open>lapic_write\<close> and \<open>ioapic_write\<close> of apic.c), and
  calls of \<open>kprint\<close>. What a device answers is an argument of the operation that reads it. Writes to control and
  model-specific registers are events, too.
\<close>

section \<open>Events\<close>

datatype event =
    Out_b u16 u8
  | Out_w u16 u16
  | Lapic u32 u32
  | Ioapic nat u32 u32
  | Print nat string "karg list"
  | Sti
  | Cli
  | Wrmsr u32 u64
  | Lidt u16 u64
  | Cr0 u64
  | Cr3 u64
  | Cr4 u64
  | Xcr0 u64
  | In_b u16
  | Soft_int u8

section \<open>Registers of the local APIC\<close>

definition LAPIC_ID :: u32 where "LAPIC_ID = 0x020"
definition LAPIC_EOI :: u32 where "LAPIC_EOI = 0x0B0"
definition LAPIC_SVR :: u32 where "LAPIC_SVR = 0x0F0"
definition LAPIC_ICR0 :: u32 where "LAPIC_ICR0 = 0x300"
definition LAPIC_ICR1 :: u32 where "LAPIC_ICR1 = 0x310"
definition LAPIC_LINT0 :: u32 where "LAPIC_LINT0 = 0x350"
definition LAPIC_LINT1 :: u32 where "LAPIC_LINT1 = 0x360"

lemmas lapic_regs = LAPIC_ID_def LAPIC_EOI_def LAPIC_SVR_def LAPIC_ICR0_def LAPIC_ICR1_def LAPIC_LINT0_def LAPIC_LINT1_def

text \<open>The end of an interrupt.\<close>

definition eoi :: "event list" where "eoi = [Lapic LAPIC_EOI 0]"

section \<open>Interrupts between CPUs\<close>

text \<open>Raising a vector on the CPU with a local APIC ID, and the ones a list of events raises.\<close>

definition send_ipi :: "u32 \<Rightarrow> u32 \<Rightarrow> event list" where
  "send_ipi apic vec = [Lapic LAPIC_ICR1 (push_bit 24 apic), Lapic LAPIC_ICR0 vec]"

text \<open>
  The local APIC sends when the low half of the command register is written, to the ID in the top
  byte of the high half.
\<close>

fun ipis :: "u32 \<Rightarrow> event list \<Rightarrow> (u32 \<times> u32) list" where
  "ipis icr1 [] = []"
| "ipis icr1 (Lapic r v # es) =
     (if r = LAPIC_ICR1 then ipis v es
      else if r = LAPIC_ICR0 then (drop_bit 24 icr1, v) # ipis icr1 es
      else ipis icr1 es)"
| "ipis icr1 (_ # es) = ipis icr1 es"

lemma ipis_send_ipi: "apic < 256 \<Longrightarrow> ipis x (send_ipi apic v @ es) = (apic, v) # ipis (push_bit 24 apic) es"
proof -
  assume "apic < 256"
  then have "take_bit 8 apic = apic" by (simp add: take_bit_eq_mod word_unat_eq_iff unat_mod word_less_nat_alt)
  then have small: "bit apic n \<Longrightarrow> n < 8" for n by (metis bit_take_bit_iff)
  have "drop_bit 24 (push_bit 24 apic) = apic"
    by (intro bit_word_eqI) (use small in \<open>auto simp: bit_drop_bit_eq bit_push_bit_iff\<close>)
  then show ?thesis by (simp add: send_ipi_def lapic_regs)
qed

lemma ipis_print [simp]: "ipis x (Print t f as # es) = ipis x es"
  by simp

section \<open>The kernel's panic\<close>

definition panic :: "nat \<Rightarrow> (nat \<Rightarrow> u32) \<Rightarrow> nat \<Rightarrow> string \<Rightarrow> i32 \<Rightarrow> event list" where
  "panic cpu_count lapic_id me msg code =
     [Cli, Print KPRN_ERR ''!!! KERNEL PANIC !!!'' [], Print KPRN_ERR ''Panic info: %s'' [KStr (Some msg)],
      Print KPRN_ERR ''Error code: %X'' [KNum (scast code)]] @
     concat (map (\<lambda>i. if i = me then [] else send_ipi (lapic_id i) 0x81) [0..<cpu_count]) @
     [Print KPRN_ERR ''SYSTEM HALTED'' []]"

lemma ipis_sends:
  assumes "\<forall>i\<in>set cpus. lapic_id i < 256" "\<And>y. ipis y es = []"
  shows "ipis x (concat (map (\<lambda>i. if i = me then [] else send_ipi (lapic_id i) v) cpus) @ es) =
    map (\<lambda>i. (lapic_id i, v)) (filter (\<lambda>i. i \<noteq> me) cpus)"
  using assms
proof (induction cpus arbitrary: x)
  case (Cons i cpus)
  show ?case
  proof (cases "i = me")
    case False
    then show ?thesis using Cons.prems Cons.IH [of "push_bit 24 (lapic_id i)"] by (simp add: ipis_send_ipi)
  qed (use Cons in simp)
qed simp

text \<open>
  A panic stops the others: it raises the abort vector on every CPU but its own, once each, in order,
  and no other vector, before it says that the system has halted.
\<close>

lemma panic_stops_others:
  assumes "\<forall>i<cpu_count. lapic_id i < 256"
  shows "ipis 0 (panic cpu_count lapic_id me msg code) = map (\<lambda>i. (lapic_id i, 0x81)) (filter (\<lambda>i. i \<noteq> me) [0..<cpu_count])"
  using ipis_sends [of "[0..<cpu_count]" lapic_id "[Print KPRN_ERR ''SYSTEM HALTED'' []]" 0 me "0x81"] assms
  by (simp add: panic_def)

end
