(* ===== verification/Idt.thy ===== *)
theory Idt
  imports Events
begin

text \<open>
  The interrupt descriptor table (idt.c). The stubs of isr.asm that its gates lead to are named by the
  constructors of \<open>isr\<close>; their addresses are an argument.
\<close>

section \<open>The table\<close>

record idt_entry =
  offset_low :: u16
  selector :: u16
  ist :: u8
  type_attr :: u8
  offset_mid :: u16
  offset_high :: u32
  reserved :: u32

type_synonym idt = "u8 \<Rightarrow> idt_entry"

definition zero_entry :: idt_entry where
  "zero_entry = \<lparr>offset_low = 0, selector = 0, ist = 0, type_attr = 0, offset_mid = 0, offset_high = 0, reserved = 0\<rparr>"

datatype isr =
    Div0 | Debug | Nmi | Breakpoint | Overflow | Bound_range_exceeded | Invalid_opcode | Device_not_available
  | Double_fault | Coprocessor_segment_overrun | Invalid_tss | Segment_not_present | Stack_segment_fault
  | Gpf | Pf | X87_exception | Alignment_check | Machine_check | Simd_exception
  | Virtualisation_exception | Security_exception
  | Irq_apic | Wakeup | Irq0 | Keyboard_isr | Mouse_isr | Abort

definition set_idt_entry :: "u8 \<Rightarrow> u64 \<Rightarrow> u16 \<Rightarrow> u8 \<Rightarrow> u8 \<Rightarrow> idt \<Rightarrow> idt" where
  "set_idt_entry vector addr sel st attr t =
     t(vector := \<lparr>offset_low = ucast (addr AND 0xFFFF), selector = sel, ist = st AND 7, type_attr = attr,
                  offset_mid = ucast (drop_bit 16 addr AND 0xFFFF), offset_high = ucast (drop_bit 32 addr AND 0xFFFFFFFF),
                  reserved = 0\<rparr>)"

definition IDT_ATTR_PRESENT :: u8 where "IDT_ATTR_PRESENT = 0x80"
definition IDT_ATTR_RING0 :: u8 where "IDT_ATTR_RING0 = 0"
definition IDT_ATTR_INT_GATE :: u8 where "IDT_ATTR_INT_GATE = 0x0E"
definition LIMINE_CS :: u16 where "LIMINE_CS = 0x28"

definition set_gates :: "(isr \<Rightarrow> u64) \<Rightarrow> (int \<times> isr) list \<Rightarrow> idt \<Rightarrow> idt" where
  "set_gates addr = fold (\<lambda>(v, h). set_idt_entry (of_int v) (addr h) LIMINE_CS 0
     (IDT_ATTR_PRESENT OR IDT_ATTR_RING0 OR IDT_ATTR_INT_GATE))"

definition exception_gates :: "(int \<times> isr) list" where
  "exception_gates =
     [(0x00, Div0), (0x01, Debug), (0x02, Nmi), (0x03, Breakpoint), (0x04, Overflow), (0x05, Bound_range_exceeded),
      (0x06, Invalid_opcode), (0x07, Device_not_available), (0x08, Double_fault), (0x09, Coprocessor_segment_overrun),
      (0x0A, Invalid_tss), (0x0B, Segment_not_present), (0x0C, Stack_segment_fault), (0x0D, Gpf), (0x0E, Pf),
      (0x10, X87_exception), (0x11, Alignment_check), (0x12, Machine_check), (0x13, Simd_exception),
      (0x1D, Virtualisation_exception), (0x1E, Security_exception)]"

definition irq_gates :: "(int \<times> isr) list" where
  "irq_gates = [(0x20, Irq0), (0x21, Keyboard_isr)] @ map (\<lambda>i. (i, Irq_apic)) [0x22..0x2B] @ [(0x2C, Mouse_isr)] @
     map (\<lambda>i. (i, Irq_apic)) [0x2D..0x2F]"

definition ipi_gates :: "(int \<times> isr) list" where
  "ipi_gates = [(0x80, Wakeup), (0x81, Abort)] @ map (\<lambda>i. (i, Irq_apic)) [0x90..0x97] @ [(0xFF, Irq_apic)]"

definition idt_init :: "(isr \<Rightarrow> u64) \<Rightarrow> idt \<Rightarrow> idt" where
  "idt_init addr t = set_gates addr ipi_gates (set_gates addr irq_gates (set_gates addr exception_gates t))"

text \<open>The operand of \<open>lidt\<close>: the table's last byte and address.\<close>

definition idt_load :: "u64 \<Rightarrow> u16 \<times> u64" where
  "idt_load base = (16 * 256 - 1, base)"

section \<open>What the processor reads\<close>

text \<open>
  The 16 bytes of a packed entry, and the gate the processor finds in them: whether it is present, its
  privilege level, type, code segment and stack, and the address it calls.
\<close>

definition entry_bytes :: "idt_entry \<Rightarrow> u8 list" where
  "entry_bytes e =
     [ucast (offset_low e), ucast (drop_bit 8 (offset_low e)), ucast (selector e), ucast (drop_bit 8 (selector e)),
      ist e, type_attr e, ucast (offset_mid e), ucast (drop_bit 8 (offset_mid e)),
      ucast (offset_high e), ucast (drop_bit 8 (offset_high e)), ucast (drop_bit 16 (offset_high e)), ucast (drop_bit 24 (offset_high e)),
      ucast (reserved e), ucast (drop_bit 8 (reserved e)), ucast (drop_bit 16 (reserved e)), ucast (drop_bit 24 (reserved e))]"

record gate =
  g_present :: bool
  g_dpl :: u8
  g_type :: u8
  g_selector :: u16
  g_ist :: u8
  g_target :: u64

definition read_gate :: "u8 list \<Rightarrow> gate" where
  "read_gate bs =
     \<lparr>g_present = bit (bs ! 5) 7, g_dpl = take_bit 2 (drop_bit 5 (bs ! 5)), g_type = take_bit 4 (bs ! 5),
      g_selector = ucast (bs ! 2) OR push_bit 8 (ucast (bs ! 3)), g_ist = take_bit 3 (bs ! 4),
      g_target = join_bytes (\<lambda>k. bs ! ([0, 1, 6, 7, 8, 9, 10, 11] ! k)) 0 8\<rparr>"

lemma nth_entry_bytes:
  "entry_bytes e ! 5 = type_attr e" "entry_bytes e ! 4 = ist e"
  "entry_bytes e ! 2 = ucast (selector e)" "entry_bytes e ! 3 = ucast (drop_bit 8 (selector e))"
  "entry_bytes e ! 0 = ucast (offset_low e)" "entry_bytes e ! 1 = ucast (drop_bit 8 (offset_low e))"
  "entry_bytes e ! Suc 0 = ucast (drop_bit 8 (offset_low e))"
  "entry_bytes e ! 6 = ucast (offset_mid e)" "entry_bytes e ! 7 = ucast (drop_bit 8 (offset_mid e))"
  "entry_bytes e ! 8 = ucast (offset_high e)" "entry_bytes e ! 9 = ucast (drop_bit 8 (offset_high e))"
  "entry_bytes e ! 10 = ucast (drop_bit 16 (offset_high e))" "entry_bytes e ! 11 = ucast (drop_bit 24 (offset_high e))"
  by (simp_all add: entry_bytes_def)

lemma read_set_entry:
  "read_gate (entry_bytes (set_idt_entry v addr sel 0 0x8E t v)) =
   \<lparr>g_present = True, g_dpl = 0, g_type = 0xE, g_selector = sel, g_ist = 0, g_target = addr\<rparr>"
proof -
  have m: "(0xFFFF :: u64) = mask 16" "(0xFFFFFFFF :: u64) = mask 32" by (simp_all add: mask_eq_exp_minus_1)
  have s: "ucast (ucast sel :: u8) OR push_bit 8 (ucast (ucast (drop_bit 8 sel) :: u8)) = sel"
    by (rule bit_word_eqI) (auto simp: bit_or_iff bit_push_bit_iff bit_ucast_iff bit_drop_bit_eq)
  have "g_target (read_gate (entry_bytes (set_idt_entry v addr sel 0 0x8E t v))) = addr"
  proof (rule bit_word_eqI)
    fix n assume "n < LENGTH(64)"
    then have n: "n < 64" by simp
    have byte: "bit (entry_bytes (set_idt_entry v addr sel 0 0x8E t v) ! ([0, 1, 6, 7, 8, 9, 10, 11] ! k)) j = bit addr (8 * k + j)"
      if kj: "k < 8" "j < 8" for k j
    proof -
      consider "k = 0" | "k = 1" | "k = 2" | "k = 3" | "k = 4" | "k = 5" | "k = 6" | "k = 7" using kj(1) by linarith
      then show ?thesis using kj(2)
        by cases (simp_all add: nth_entry_bytes set_idt_entry_def m bit_ucast_iff bit_drop_bit_eq bit_and_iff bit_mask_iff)
    qed
    have "n div 8 < 8" "n mod 8 < 8" using n by simp_all
    from byte [OF this] have "bit (entry_bytes (set_idt_entry v addr sel 0 0x8E t v) ! ([0, 1, 6, 7, 8, 9, 10, 11] ! (n div 8))) (n mod 8) = bit addr n"
      by simp
    then show "bit (g_target (read_gate (entry_bytes (set_idt_entry v addr sel 0 0x8E t v)))) n = bit addr n"
      using n by (simp add: read_gate_def bit_join_bytes)
  qed
  then show ?thesis
    using s by (simp add: read_gate_def nth_entry_bytes set_idt_entry_def)
qed

section \<open>The vectors\<close>

lemma set_gates_at:
  assumes "\<forall>(v, h)\<in>set gs. 0 \<le> v \<and> v < 256"
  shows "set_gates addr gs t x =
    (case map_of (rev gs) (uint x) of None \<Rightarrow> t x
     | Some h \<Rightarrow> set_idt_entry x (addr h) LIMINE_CS 0 0x8E (\<lambda>_. zero_entry) x)"
  using assms
proof (induction gs rule: rev_induct)
  case (snoc g gs)
  obtain v h where g: "g = (v, h)" by (cases g)
  have "(of_int v = x) = (uint x = v)"
    using snoc.prems g by (auto simp: unsigned_of_int take_bit_int_eq_self)
  then show ?case using snoc g
    by (auto simp: set_gates_def set_idt_entry_def IDT_ATTR_PRESENT_def IDT_ATTR_RING0_def IDT_ATTR_INT_GATE_def)
qed (simp add: set_gates_def)

text \<open>
  What each vector is for: the exceptions of the processor, the interrupts of the I/O APIC from 0x20
  on, those between CPUs, and those of the local APIC.
\<close>

definition vector_isr :: "int \<Rightarrow> isr option" where
  "vector_isr v =
     (if v < 0x0F then Some ([Div0, Debug, Nmi, Breakpoint, Overflow, Bound_range_exceeded, Invalid_opcode, Device_not_available,
        Double_fault, Coprocessor_segment_overrun, Invalid_tss, Segment_not_present, Stack_segment_fault, Gpf, Pf] ! nat v)
      else if 0x10 \<le> v \<and> v < 0x14 then Some ([X87_exception, Alignment_check, Machine_check, Simd_exception] ! nat (v - 0x10))
      else if v = 0x1D then Some Virtualisation_exception
      else if v = 0x1E then Some Security_exception
      else if v = 0x20 then Some Irq0
      else if v = 0x21 then Some Keyboard_isr
      else if v = 0x2C then Some Mouse_isr
      else if v = 0x80 then Some Wakeup
      else if v = 0x81 then Some Abort
      else if 0x20 \<le> v \<and> v < 0x30 \<or> 0x90 \<le> v \<and> v < 0x98 \<or> v = 0xFF then Some Irq_apic
      else None)"

lemma gates_vector_isr:
  "0 \<le> v \<Longrightarrow> v < 256 \<Longrightarrow> map_of (rev (exception_gates @ irq_gates @ ipi_gates)) v = vector_isr v"
proof -
  have "list_all (\<lambda>v. map_of (rev (exception_gates @ irq_gates @ ipi_gates)) v = vector_isr v) [0..255]"
    by code_simp
  then show "0 \<le> v \<Longrightarrow> v < 256 \<Longrightarrow> map_of (rev (exception_gates @ irq_gates @ ipi_gates)) v = vector_isr v"
    by (simp add: list_all_iff)
qed

lemma idt_init_at:
  "idt_init addr (\<lambda>_. zero_entry) x =
    (case vector_isr (uint x) of None \<Rightarrow> zero_entry | Some h \<Rightarrow> set_idt_entry x (addr h) LIMINE_CS 0 0x8E (\<lambda>_. zero_entry) x)"
proof -
  have "idt_init addr (\<lambda>_. zero_entry) = set_gates addr (exception_gates @ irq_gates @ ipi_gates) (\<lambda>_. zero_entry)"
    by (simp add: idt_init_def set_gates_def)
  moreover have "\<forall>(v, h)\<in>set (exception_gates @ irq_gates @ ipi_gates). 0 \<le> v \<and> v < 256"
    by (auto simp: exception_gates_def irq_gates_def ipi_gates_def)
  moreover have "0 \<le> uint x" "uint x < 256" using unsigned_less [of x, where 'a = int] by simp_all
  ultimately show ?thesis using set_gates_at [of "exception_gates @ irq_gates @ ipi_gates" addr "\<lambda>_. zero_entry" x]
    by (simp only: gates_vector_isr)
qed

text \<open>
  C16: Every vector has a well-formed descriptor. The processor, reading the table \<open>idt_init\<close> fills,
  finds for each vector that is for something a present interrupt gate of ring 0 to the kernel's code
  segment, on the current stack, to exactly the function for it, and for every other a gate not present.
\<close>

theorem idt_init_gates:
  "(case vector_isr (uint v) of
      None \<Rightarrow> \<not> g_present (read_gate (entry_bytes (idt_init addr (\<lambda>_. zero_entry) v)))
    | Some h \<Rightarrow> read_gate (entry_bytes (idt_init addr (\<lambda>_. zero_entry) v)) =
        \<lparr>g_present = True, g_dpl = 0, g_type = 0xE, g_selector = 0x28, g_ist = 0, g_target = addr h\<rparr>)"
proof (cases "vector_isr (uint v)")
  case None
  moreover have "\<not> g_present (read_gate (entry_bytes zero_entry))"
    by (simp add: read_gate_def nth_entry_bytes zero_entry_def)
  ultimately show ?thesis by (simp add: idt_init_at)
qed (simp add: idt_init_at read_set_entry LIMINE_CS_def)

end
