(* ===== verification/Exceptions.thy ===== *)
theory Exceptions
  imports Idt
begin

text \<open>
  From an exception to the panic that reports it: the stubs of isr.asm, which take their arguments off
  the stack the processor pushed, and the handlers of exceptions.c they call.
\<close>

section \<open>The handlers\<close>

text \<open>The CPU's number, how many there are, and their local APIC IDs: what \<open>panic\<close> needs.\<close>

record cpus =
  cp_me :: nat
  cp_count :: nat
  cp_lapic_id :: "nat \<Rightarrow> u32"

definition generic_exception :: "cpus \<Rightarrow> u64 \<Rightarrow> u64 \<Rightarrow> u64 \<Rightarrow> string \<Rightarrow> string option \<Rightarrow> event list" where
  "generic_exception C error_code fault_rip fault_cs fault_name extra =
     [Print KPRN_ERR ''CPU %U: %s occurred at: %X:%X''
        [KNum (of_nat (cp_me C)), KStr (Some fault_name), KNum fault_cs, KNum fault_rip]] @
     (case extra of None \<Rightarrow> [] | Some e \<Rightarrow> [Print KPRN_ERR ''%s'' [KStr (Some e)]]) @
     panic (cp_count C) (cp_lapic_id C) (cp_me C) ''Emulation cannot continue.'' (ucast error_code)"

text \<open>The function a stub calls, with what it finds in \<open>rdi\<close>, \<open>rsi\<close> and \<open>rdx\<close>.\<close>

fun except :: "isr \<Rightarrow> cpus \<Rightarrow> u64 \<Rightarrow> u64 \<times> u64 \<times> u64 \<Rightarrow> event list option" where
  "except Div0 C cr2 (rdi, rsi, rdx) = Some (generic_exception C 0 rdi rsi ''Division by zero'' None)"
| "except Debug C cr2 (rdi, rsi, rdx) = Some (generic_exception C 0 rdi rsi ''Debug'' None)"
| "except Nmi C cr2 (rdi, rsi, rdx) = Some (generic_exception C 0 rdi rsi ''NMI'' None)"
| "except Breakpoint C cr2 (rdi, rsi, rdx) = Some (generic_exception C 0 rdi rsi ''Breakpoint'' None)"
| "except Overflow C cr2 (rdi, rsi, rdx) = Some (generic_exception C 0 rdi rsi ''Overflow'' None)"
| "except Bound_range_exceeded C cr2 (rdi, rsi, rdx) = Some (generic_exception C 0 rdi rsi ''Bound range exceeded'' None)"
| "except Invalid_opcode C cr2 (rdi, rsi, rdx) = Some (generic_exception C 0 rdi rsi ''Invalid opcode'' None)"
| "except Device_not_available C cr2 (rdi, rsi, rdx) = Some (generic_exception C 0 rdi rsi ''Device not available'' None)"
| "except Double_fault C cr2 (rdi, rsi, rdx) = Some (generic_exception C rdi rsi rdx ''Double fault'' None)"
| "except Coprocessor_segment_overrun C cr2 (rdi, rsi, rdx) = Some (generic_exception C 0 rdi rsi ''Coprocessor segment overrun'' None)"
| "except Invalid_tss C cr2 (rdi, rsi, rdx) = Some (generic_exception C rdi rsi rdx ''Invalid TSS'' None)"
| "except Segment_not_present C cr2 (rdi, rsi, rdx) = Some (generic_exception C rdi rsi rdx ''Segment not present'' None)"
| "except Stack_segment_fault C cr2 (rdi, rsi, rdx) = Some (generic_exception C rdi rsi rdx ''Stack-segment fault'' None)"
| "except Gpf C cr2 (rdi, rsi, rdx) = Some (generic_exception C rdi rsi rdx ''General protection fault'' None)"
| "except Pf C cr2 (rdi, rsi, rdx) =
     Some (Print KPRN_ERR ''cr2: %X'' [KNum cr2] # generic_exception C rdi rsi rdx ''Page fault'' None)"
| "except X87_exception C cr2 (rdi, rsi, rdx) = Some (generic_exception C 0 rdi rsi ''x87 exception'' None)"
| "except Alignment_check C cr2 (rdi, rsi, rdx) = Some (generic_exception C rdi rsi rdx ''Alignment check'' None)"
| "except Machine_check C cr2 (rdi, rsi, rdx) = Some (generic_exception C 0 rdi rsi ''Machine check'' None)"
| "except Simd_exception C cr2 (rdi, rsi, rdx) = Some (generic_exception C 0 rdi rsi ''SIMD exception'' None)"
| "except Virtualisation_exception C cr2 (rdi, rsi, rdx) = Some (generic_exception C 0 rdi rsi ''Virtualisation exception'' None)"
| "except Security_exception C cr2 (rdi, rsi, rdx) = Some (generic_exception C rdi rsi rdx ''Security exception'' None)"
| "except _ C cr2 args = None"

section \<open>The stubs\<close>

definition pops_three :: "isr set" where
  "pops_three = {Double_fault, Invalid_tss, Segment_not_present, Stack_segment_fault, Gpf, Pf, Alignment_check}"

text \<open>\<open>pop rdi\<close>, \<open>pop rsi\<close> and in some \<open>pop rdx\<close>, which else holds what the interrupted code left in it.\<close>

definition stub_args :: "isr \<Rightarrow> u64 list \<Rightarrow> u64 \<Rightarrow> u64 \<times> u64 \<times> u64" where
  "stub_args h stack rdx = (stack ! 0, stack ! 1, if h \<in> pops_three then stack ! 2 else rdx)"

definition take_exception :: "isr \<Rightarrow> cpus \<Rightarrow> u64 \<Rightarrow> u64 list \<Rightarrow> u64 \<Rightarrow> event list option" where
  "take_exception h C cr2 stack rdx = except h C cr2 (stub_args h stack rdx)"

section \<open>What the processor pushes\<close>

text \<open>The vectors that come with an error code, and the top of the stack when a handler starts.\<close>

definition pushes_error :: "int \<Rightarrow> bool" where
  "pushes_error v \<longleftrightarrow> v \<in> {8, 10, 11, 12, 13, 14, 17, 21, 29, 30}"

definition frame :: "int \<Rightarrow> u64 \<Rightarrow> u64 \<Rightarrow> u64 \<Rightarrow> u64 list \<Rightarrow> u64 list" where
  "frame v err rip cs rest = (if pushes_error v then [err] else []) @ rip # cs # rest"



text \<open>
  The last two are not: vector 0x1D comes with an error code, which its stub takes for the address, and
  the address for the code segment; the security exception's handler takes three arguments but its stub
  pops two, so that the code segment reported is what the interrupted code had in \<open>rdx\<close>.
\<close>

lemma last_exceptions_misreported:
  "take_exception Virtualisation_exception C cr2 (frame 0x1D err rip cs rest) rdx =
     Some (generic_exception C 0 err rip ''Virtualisation exception'' None)"
  "take_exception Security_exception C cr2 (frame 0x1E err rip cs rest) rdx =
     Some (generic_exception C err rip rdx ''Security exception'' None)"
  by (simp_all add: take_exception_def stub_args_def pops_three_def frame_def pushes_error_def)

end
