(* ===== verification/Cpu_Setup.thy ===== *)
theory Cpu_Setup
  imports Exceptions
begin

text \<open>
  Bringing a CPU up: SIMD (\<open>enable_simd\<close> of cpu.c), what it finds the CPU can do
  (\<open>detect_cpu_features\<close> and \<open>get_cpu_name\<close> of dawn.c). The registers
  a CPU answers \<open>cpuid\<close> and \<open>xgetbv\<close> with are arguments.
\<close>

section \<open>SIMD\<close>

text \<open>\<open>feat1\<close> is ecx of \<open>cpuid\<close> 1, \<open>feat7\<close> is ebx of \<open>cpuid\<close> 7.\<close>

record simd_state =
  s_cr0 :: u64
  s_cr4 :: u64
  s_xcr0 :: u64

definition enable_simd :: "u32 \<Rightarrow> u32 \<Rightarrow> simd_state \<Rightarrow> simd_state" where
  "enable_simd feat1 feat7 S =
     (let S = S\<lparr>s_cr0 := set_bit 1 (unset_bit 2 (s_cr0 S))\<rparr>;
          S = S\<lparr>s_cr4 := set_bit 10 (set_bit 9 (s_cr4 S))\<rparr>
      in if \<not> (bit feat1 26 \<and> bit feat1 28) then S
         else
           let S = S\<lparr>s_cr4 := set_bit 18 (s_cr4 S)\<rparr>
           in if bit feat7 16 then S\<lparr>s_xcr0 := s_xcr0 S OR 0xE7\<rparr> else S\<lparr>s_xcr0 := s_xcr0 S OR 0x7\<rparr>)"

record features =
  has_movbe :: bool
  has_monitor :: bool
  has_avx :: bool
  has_avx2 :: bool
  has_avx512 :: bool
  use_xsave :: bool

text \<open>\<open>xsave_size\<close> is ebx of \<open>cpuid\<close> 0xd, \<open>xcr0\<close> the low half of the register.\<close>

definition SIMD_AREA :: u32 where "SIMD_AREA = 4096"

definition detect_cpu_features :: "u32 \<Rightarrow> u32 \<Rightarrow> u32 \<Rightarrow> u32 \<Rightarrow> features \<Rightarrow> features" where
  "detect_cpu_features feat1 feat7 xcr0 xsave_size F =
     (let F = F\<lparr>has_movbe := bit feat1 22, has_monitor := bit feat1 3\<rparr>
      in if \<not> bit feat1 27 \<or> \<not> bit feat1 28 then F\<lparr>has_avx2 := False\<rparr>
         else if \<not> bit xcr0 2 then F\<lparr>has_avx2 := False\<rparr>
         else
           let F = F\<lparr>has_avx := True\<rparr>; F = F\<lparr>use_xsave := (xsave_size \<le> SIMD_AREA)\<rparr>; F = F\<lparr>has_avx2 := bit feat7 5\<rparr>
           in if \<not> bit feat7 16 \<or> \<not> bit feat7 30 \<or> \<not> bit feat7 31 then F\<lparr>has_avx512 := False\<rparr>
              else if \<not> (bit xcr0 5 \<and> bit xcr0 6 \<and> bit xcr0 7) then F\<lparr>has_avx512 := False\<rparr>
              else F\<lparr>has_avx512 := True\<rparr>)"

definition no_features :: features where
  "no_features = \<lparr>has_movbe = False, has_monitor = False, has_avx = False, has_avx2 = False, has_avx512 = False, use_xsave = False\<rparr>"

text \<open>
  What a CPU can run: AVX needs the CPU and the enabled state, AVX-512 its three features and state;
  \<open>cpuid\<close> reports OSXSAVE, bit 27, as set in CR4.
\<close>

definition osxsave :: "u32 \<Rightarrow> simd_state \<Rightarrow> u32" where
  "osxsave feat1 S = (if bit (s_cr4 S) 18 then set_bit 27 feat1 else unset_bit 27 feat1)"

definition can_avx :: "u32 \<Rightarrow> simd_state \<Rightarrow> bool" where
  "can_avx feat1 S \<longleftrightarrow> bit feat1 28 \<and> bit (s_cr4 S) 18 \<and> bit (s_xcr0 S) 1 \<and> bit (s_xcr0 S) 2"

definition can_avx512 :: "u32 \<Rightarrow> u32 \<Rightarrow> simd_state \<Rightarrow> bool" where
  "can_avx512 feat1 feat7 S \<longleftrightarrow> can_avx feat1 S \<and> bit feat7 16 \<and> bit (s_xcr0 S) 5 \<and> bit (s_xcr0 S) 6 \<and> bit (s_xcr0 S) 7"

section \<open>The CPU's name\<close>

text \<open>\<open>stosl\<close> of the registers of three \<open>cpuid\<close> leaves, one after another.\<close>

definition store32 :: "mem \<Rightarrow> u64 \<Rightarrow> u32 \<Rightarrow> mem" where
  "store32 m a v = (\<lambda>x. if x - a < 4 then ucast (drop_bit (8 * unat (x - a)) v) else m x)"

definition name_words :: "(u32 \<Rightarrow> u32 \<times> u32 \<times> u32 \<times> u32) \<Rightarrow> u32 list" where
  "name_words cpuid =
     (let (a, b, c, d) = cpuid 0x80000002; (e, f, g, h) = cpuid 0x80000003; (i, j, _, _) = cpuid 0x80000004
      in [a, b, c, d, e, f, g, h, i, j])"

definition get_cpu_name :: "(u32 \<Rightarrow> u32 \<times> u32 \<times> u32 \<times> u32) \<Rightarrow> u64 \<Rightarrow> mem \<Rightarrow> mem" where
  "get_cpu_name cpuid str m = snd (fold (\<lambda>w (p, m). (p + 4, store32 m p w)) (name_words cpuid) (str, m))"

text \<open>
  The name has 48 bytes, the registers of all three leaves, but the last two words are not stored: the
  bytes from 40 on stay what they were.
\<close>

lemma get_cpu_name_short: "40 \<le> x - str \<Longrightarrow> get_cpu_name cpuid str m x = m x"
proof -
  assume x: "40 \<le> x - str"
  have "\<not> x - (k + str) < 4" if "k \<le> 36" for k
  proof -
    have "unat (x - (k + str)) = unat (x - str) - unat k"
      using x that unat_sub [of k "x - str"] by (simp add: word_le_nat_alt diff_diff_eq add.commute [of k])
    then show ?thesis using x that by (simp add: word_le_nat_alt word_less_nat_alt)
  qed
  from this [of 0] this [of 4] this [of 8] this [of 12] this [of 16] this [of 20] this [of 24] this [of 28] this [of 32] this [of 36]
  show ?thesis by (simp add: get_cpu_name_def name_words_def store32_def case_prod_unfold Let_def add.commute [of str 4])
qed

section \<open>What is enabled is what is reported\<close>

text \<open>
  C20: On a CPU \<open>enable_simd\<close> has set up, what \<open>detect_cpu_features\<close> then reports is what it can run:
  AVX exactly when it has it and XSAVE, AVX-512 only with its registers enabled and all three features,
  AVX2 only with AVX, and XSAVE only when the area the redraw saves to is large enough. FPU emulation
  is off.
\<close>

theorem features_enabled:
  assumes "\<not> bit (s_cr4 S) 18"
  shows "let S' = enable_simd feat1 feat7 S;
      F = detect_cpu_features (osxsave feat1 S') feat7 (ucast (s_xcr0 S')) area no_features
    in (has_avx F \<longleftrightarrow> bit feat1 26 \<and> bit feat1 28) \<and> (has_avx F \<longrightarrow> can_avx feat1 S') \<and>
      (has_avx512 F \<longleftrightarrow> has_avx F \<and> bit feat7 16 \<and> bit feat7 30 \<and> bit feat7 31) \<and> (has_avx512 F \<longrightarrow> can_avx512 feat1 feat7 S') \<and>
      (has_avx2 F \<longrightarrow> has_avx F \<and> bit feat7 5) \<and> (use_xsave F \<longrightarrow> has_avx F \<and> area \<le> SIMD_AREA) \<and>
      \<not> bit (s_cr0 S') 2 \<and> bit (s_cr4 S') 9"
  using assms
  by (simp add: enable_simd_def detect_cpu_features_def osxsave_def no_features_def can_avx_def can_avx512_def Let_def
    bit_set_bit_iff bit_unset_bit_iff bit_or_iff bit_ucast_iff)

text \<open>A CPU with AVX-512 whose register area is too large for the redraw's.\<close>

theorem features_enabled_witness:
  "let S' = enable_simd 0x14000000 0xC0010020 \<lparr>s_cr0 = 4, s_cr4 = 0, s_xcr0 = 1\<rparr>;
      F = detect_cpu_features (osxsave 0x14000000 S') 0xC0010020 (ucast (s_xcr0 S')) 5000 no_features
    in has_avx F \<and> has_avx512 F \<and> \<not> use_xsave F \<and> \<not> bit (s_cr0 S') 2"
  using features_enabled [of "\<lparr>s_cr0 = 4, s_cr4 = 0, s_xcr0 = 1\<rparr>" "0x14000000" "0xC0010020" 5000]
  by (simp add: Let_def SIMD_AREA_def)

end
