(* ===== verification/Smp.thy ===== *)
theory Smp
  imports Cpu_Setup
begin

text \<open>
  Starting the CPUs (smp.c): who is CPU 0, and the numbers the others get. Limine's list of CPUs is an
  argument; storing a CPU's \<open>goto_address\<close> starts it, with its \<open>extra_argument\<close>.
\<close>

section \<open>State\<close>

definition MAX_CPUS :: nat where "MAX_CPUS = 128"

record mp_info =
  mi_lapic_id :: u32
  mi_argument :: u64
  mi_started :: bool

record mp_response =
  mr_bsp :: u32
  mr_cpus :: "mp_info list"

record cpu_local =
  cl_number :: u64
  cl_lapic_id :: u64

record smp =
  sp_count :: nat
  sp_locals :: "nat \<Rightarrow> cpu_local"

section \<open>Operations\<close>

text \<open>What a CPU does when it enters the kernel, up to where it runs Dawn (\<open>True\<close>).\<close>

definition cpu_local_init :: "u64 \<Rightarrow> event list" where
  "cpu_local_init addr = [Wrmsr 0xC0000100 addr]"

definition ap_entry :: "u64 \<Rightarrow> u64 \<Rightarrow> u16 \<times> u64 \<Rightarrow> u32 \<Rightarrow> simd_state \<Rightarrow> u32 \<Rightarrow> u32 \<Rightarrow> u32 \<Rightarrow> smp \<Rightarrow> u64 \<Rightarrow> event list \<times> simd_state \<times> bool" where
  "ap_entry pagemap locals_base idt svr S feat1 feat7 bsp P cpu_num =
     (let es = [Cr3 pagemap] @ cpu_local_init (locals_base + 16 * cpu_num) @ [Lidt (fst idt) (snd idt)];
          S = enable_simd feat1 feat7 S;
          es = es @ [Lapic LAPIC_SVR (svr OR 0x1FF)]
      in if cl_lapic_id (sp_locals P (unat cpu_num)) \<noteq> ucast bsp then (es @ [Sti], S, True) else (es, S, False))"

definition smp_cpu_total :: "mp_response option \<Rightarrow> nat" where
  "smp_cpu_total mp =
     (case mp of
        None \<Rightarrow> 1
      | Some mp \<Rightarrow> if length (mr_cpus mp) = 0 then 1 else if length (mr_cpus mp) < MAX_CPUS then length (mr_cpus mp) else MAX_CPUS)"

text \<open>The loop over Limine's list; the CPUs before the current one are done.\<close>

fun start_aps :: "u32 \<Rightarrow> mp_info list \<Rightarrow> smp \<Rightarrow> mp_info list \<times> smp" where
  "start_aps bsp [] P = ([], P)"
| "start_aps bsp (c # cs) P =
     (if mi_lapic_id c = bsp then (let (cs, P) = start_aps bsp cs P in (c # cs, P))
      else if MAX_CPUS \<le> sp_count P then (c # cs, P)
      else
        let P = P\<lparr>sp_locals := (sp_locals P)(sp_count P := \<lparr>cl_number = of_nat (sp_count P), cl_lapic_id = ucast (mi_lapic_id c)\<rparr>)\<rparr>;
            c = c\<lparr>mi_argument := of_nat (sp_count P), mi_started := True\<rparr>;
            (cs, P) = start_aps bsp cs (P\<lparr>sp_count := sp_count P + 1\<rparr>)
        in (c # cs, P))"

definition smp_init :: "mp_response option \<Rightarrow> smp \<Rightarrow> mp_response option \<times> smp" where
  "smp_init mp P =
     (case mp of
        None \<Rightarrow> (None, P)
      | Some mp \<Rightarrow>
          let P = P\<lparr>sp_locals := (sp_locals P)(0 := \<lparr>cl_number = 0, cl_lapic_id = ucast (mr_bsp mp)\<rparr>)\<rparr>;
              P = P\<lparr>sp_count := 1\<rparr>;
              (cs, P) = start_aps (mr_bsp mp) (mr_cpus mp) P
          in (Some (mp\<lparr>mr_cpus := cs\<rparr>), P))"

section \<open>The numbers\<close>

text \<open>The CPUs to start, and those of a list that have been.\<close>

definition others :: "u32 \<Rightarrow> mp_info list \<Rightarrow> mp_info list" where
  "others bsp cs = filter (\<lambda>c. mi_lapic_id c \<noteq> bsp) cs"

lemma start_aps_props:
  assumes "start_aps bsp cs P = (cs', P')" "sp_count P \<le> MAX_CPUS" "\<forall>c\<in>set cs. \<not> mi_started c"
  defines "k \<equiv> min (length (others bsp cs)) (MAX_CPUS - sp_count P)"
  shows "sp_count P' = sp_count P + k \<and>
    (\<forall>i. sp_locals P' i = (if sp_count P \<le> i \<and> i < sp_count P + k
       then \<lparr>cl_number = of_nat i, cl_lapic_id = ucast (mi_lapic_id (others bsp cs ! (i - sp_count P)))\<rparr> else sp_locals P i)) \<and>
    map (\<lambda>c. (mi_lapic_id c, mi_argument c)) (filter mi_started cs') =
      map (\<lambda>i. (mi_lapic_id (others bsp cs ! i), of_nat (sp_count P + i))) [0..<k] \<and>
    map mi_lapic_id cs' = map mi_lapic_id cs"
  using assms(1-3) unfolding k_def
proof (induction cs arbitrary: P cs' P')
  case Nil
  then show ?case by (auto simp: others_def)
next
  case (Cons c cs)
  show ?case
  proof (cases "mi_lapic_id c = bsp")
    case True
    obtain ds where d: "start_aps bsp cs P = (ds, P')" "cs' = c # ds" using Cons.prems(1) True by (auto split: prod.splits)
    have "others bsp (c # cs) = others bsp cs" using True by (simp add: others_def)
    then show ?thesis using Cons.IH [OF d(1)] Cons.prems(2,3) d(2) by simp
  next
    case False
    have o: "others bsp (c # cs) = c # others bsp cs" using False by (simp add: others_def)
    show ?thesis
    proof (cases "MAX_CPUS \<le> sp_count P")
      case True
      then show ?thesis using Cons.prems False by (auto simp: filter_empty_conv)
    next
      case lt: False
      define c1 where "c1 = c\<lparr>mi_argument := of_nat (sp_count P), mi_started := True\<rparr>"
      define P1 where "P1 = P\<lparr>sp_locals := (sp_locals P)(sp_count P := \<lparr>cl_number = of_nat (sp_count P), cl_lapic_id = ucast (mi_lapic_id c)\<rparr>),
        sp_count := sp_count P + 1\<rparr>"
      obtain ds where d: "start_aps bsp cs P1 = (ds, P')" "cs' = c1 # ds"
        using Cons.prems(1) False lt by (auto simp: P1_def c1_def Let_def split: prod.splits)
      have n1: "sp_count P1 = Suc (sp_count P)" by (simp add: P1_def)
      let ?k = "min (length (others bsp cs)) (MAX_CPUS - Suc (sp_count P))"
      have k: "min (length (others bsp (c # cs))) (MAX_CPUS - sp_count P) = Suc ?k" using lt by (simp add: o)
      have ih: "sp_count P' = Suc (sp_count P) + ?k"
        "\<forall>i. sp_locals P' i = (if Suc (sp_count P) \<le> i \<and> i < Suc (sp_count P) + ?k
           then \<lparr>cl_number = of_nat i, cl_lapic_id = ucast (mi_lapic_id (others bsp cs ! (i - Suc (sp_count P))))\<rparr> else sp_locals P1 i)"
        "map (\<lambda>c. (mi_lapic_id c, mi_argument c)) (filter mi_started ds) =
          map (\<lambda>i. (mi_lapic_id (others bsp cs ! i), of_nat (Suc (sp_count P) + i))) [0..<?k]"
        "map mi_lapic_id ds = map mi_lapic_id cs"
        using Cons.IH [OF d(1)] Cons.prems(3) lt n1 by simp_all
      have "sp_locals P' i = (if sp_count P \<le> i \<and> i < sp_count P + Suc ?k
          then \<lparr>cl_number = of_nat i, cl_lapic_id = ucast (mi_lapic_id (others bsp (c # cs) ! (i - sp_count P)))\<rparr> else sp_locals P i)" for i
        using ih(2) by (cases "i = sp_count P") (auto simp: o P1_def nth_Cons' Suc_diff_Suc less_Suc_eq)
      moreover have "map (\<lambda>c. (mi_lapic_id c, mi_argument c)) (filter mi_started cs') =
          map (\<lambda>i. (mi_lapic_id (others bsp (c # cs) ! i), of_nat (sp_count P + i))) [0..<Suc ?k]"
        using ih(3) by (simp add: d(2) c1_def o upt_conv_Cons map_Suc_upt [symmetric] del: upt_Suc map_Suc_upt)
      ultimately show ?thesis using ih(1,4) d(2) by (simp only: k) (simp add: c1_def)
    qed
  qed
qed

text \<open>
  C21: The CPUs get the numbers 0 up to the count: 0 is the one that boots, wherever the list has it, the
  others follow in the order of the list, at most 128 in all, each started with its own number and no
  CPU beyond them; the count is what \<open>smp_cpu_total\<close> had said when the list has the boot CPU once.
\<close>

theorem smp_init_numbers:
  assumes "\<forall>c\<in>set (mr_cpus mp). \<not> mi_started c"
  shows "case smp_init (Some mp) P of (mp', P') \<Rightarrow>
    let others = filter (\<lambda>c. mi_lapic_id c \<noteq> mr_bsp mp) (mr_cpus mp); ids = mr_bsp mp # map mi_lapic_id (take (MAX_CPUS - 1) others)
    in sp_count P' = length ids \<and> sp_count P' \<le> MAX_CPUS \<and>
      (\<forall>i< sp_count P'. sp_locals P' i = \<lparr>cl_number = of_nat i, cl_lapic_id = ucast (ids ! i)\<rparr>) \<and>
      map (\<lambda>c. (mi_lapic_id c, mi_argument c)) (filter mi_started (mr_cpus (the mp'))) =
        map (\<lambda>i. (ids ! i, of_nat i)) [1..< sp_count P'] \<and>
      (length others + 1 = length (mr_cpus mp) \<longrightarrow> sp_count P' = smp_cpu_total (Some mp))"
proof -
  define P1 where "P1 = P\<lparr>sp_locals := (sp_locals P)(0 := \<lparr>cl_number = 0, cl_lapic_id = ucast (mr_bsp mp)\<rparr>), sp_count := 1\<rparr>"
  obtain cs P' where s: "start_aps (mr_bsp mp) (mr_cpus mp) P1 = (cs, P')" by fastforce
  have i: "smp_init (Some mp) P = (Some (mp\<lparr>mr_cpus := cs\<rparr>), P')" using s by (simp add: smp_init_def P1_def)
  define os where "os = others (mr_bsp mp) (mr_cpus mp)"
  define k where "k = min (length os) (MAX_CPUS - 1)"
  have n1: "sp_count P1 = 1" by (simp add: P1_def)
  note p = start_aps_props [OF s _ assms, folded os_def, unfolded n1]
  have p1: "sp_count P' = 1 + k" and
    p2: "\<And>i. sp_locals P' i = (if 1 \<le> i \<and> i < 1 + k then \<lparr>cl_number = of_nat i, cl_lapic_id = ucast (mi_lapic_id (os ! (i - 1)))\<rparr> else sp_locals P1 i)" and
    p3: "map (\<lambda>c. (mi_lapic_id c, mi_argument c)) (filter mi_started cs) = map (\<lambda>i. (mi_lapic_id (os ! i), of_nat (1 + i))) [0..<k]"
    using p by (simp_all add: k_def MAX_CPUS_def)
  define ids where "ids = mr_bsp mp # map mi_lapic_id (take (MAX_CPUS - 1) os)"
  have l: "length ids = 1 + k" by (simp add: ids_def k_def min.commute)
  have nth: "ids ! i = (if i = 0 then mr_bsp mp else mi_lapic_id (os ! (i - 1)))" if "i < 1 + k" for i
    using that by (cases i) (simp_all add: ids_def k_def)
  have "sp_locals P' i = \<lparr>cl_number = of_nat i, cl_lapic_id = ucast (ids ! i)\<rparr>" if "i < 1 + k" for i
    using that p2 [of i] nth [OF that] by (cases "i = 0") (simp_all add: P1_def)
  moreover have "map (\<lambda>c. (mi_lapic_id c, mi_argument c)) (filter mi_started cs) = map (\<lambda>i. (ids ! i, of_nat i)) [1..<1 + k]"
  proof -
    have "[1..<1 + k] = map Suc [0..<k]" by (simp add: map_Suc_upt)
    then show ?thesis using nth by (simp add: p3 o_def del: upt_Suc)
  qed
  moreover have "length os + 1 = length (mr_cpus mp) \<longrightarrow> 1 + k = smp_cpu_total (Some mp)"
    by (auto simp: smp_cpu_total_def k_def MAX_CPUS_def)
  moreover have "1 + k \<le> MAX_CPUS" by (simp add: k_def MAX_CPUS_def)
  moreover have "filter (\<lambda>c. mi_lapic_id c \<noteq> mr_bsp mp) (mr_cpus mp) = os" by (simp add: os_def others_def)
  ultimately show ?thesis using l p1
    unfolding i by (simp only: split Let_def ids_def [symmetric] option.sel mp_response.simps) simp
qed

definition two_mp :: mp_response where
  "two_mp = \<lparr>mr_bsp = 4, mr_cpus = [\<lparr>mi_lapic_id = 2, mi_argument = 0, mi_started = False\<rparr>, \<lparr>mi_lapic_id = 4, mi_argument = 0, mi_started = False\<rparr>]\<rparr>"

theorem smp_init_numbers_witness:
  "case smp_init (Some two_mp) \<lparr>sp_count = 1, sp_locals = (\<lambda>_. \<lparr>cl_number = 0, cl_lapic_id = 0\<rparr>)\<rparr> of (mp', P') \<Rightarrow>
    sp_count P' = 2 \<and> sp_locals P' 1 = \<lparr>cl_number = 1, cl_lapic_id = 2\<rparr> \<and> smp_cpu_total (Some two_mp) = 2"
  using smp_init_numbers [of two_mp "\<lparr>sp_count = 1, sp_locals = (\<lambda>_. \<lparr>cl_number = 0, cl_lapic_id = 0\<rparr>)\<rparr>"]
  by (simp add: two_mp_def MAX_CPUS_def smp_cpu_total_def case_prod_unfold Let_def)

end
