(* ===== verification/Screen.thy ===== *)
theory Screen
  imports Mouse Cpu_Setup
begin

text \<open>
  The screen redraw: the three routines of subleq.asm that convert Dawn's framebuffer, and
  \<open>dawn_redraw_screen\<close> of dawn.c, which picks one, shows the frame and draws the mouse cursor again.
\<close>

section \<open>Pixels\<close>

definition px_bytes :: "u32 \<Rightarrow> u8 list" where
  "px_bytes p = [ucast p, ucast (drop_bit 8 p), ucast (drop_bit 16 p), ucast (drop_bit 24 p)]"

definition bytes_px :: "u8 list \<Rightarrow> u32" where
  "bytes_px bs = join_bytes (\<lambda>k. bs ! k) 0 4"

text \<open>\<open>rol eax, 8\<close> and \<open>bswap eax\<close>.\<close>

definition scalar_px :: "u32 \<Rightarrow> u32" where
  "scalar_px p = (let eax = push_bit 8 p OR drop_bit 24 p in bytes_px (rev (px_bytes eax)))"

definition pixel_keep_mask :: u32 where "pixel_keep_mask = 0xff00ff00"
definition pixel_low_mask :: u32 where "pixel_low_mask = 0x000000ff"

text \<open>One of the four lanes of the SSE2 loop.\<close>

definition sse2_px :: "u32 \<Rightarrow> u32" where
  "sse2_px p = ((p AND pixel_keep_mask) OR (drop_bit 16 p AND pixel_low_mask)) OR drop_bit 8 (push_bit 24 p)"

definition pixel_shuffle_mask :: "nat list" where
  "pixel_shuffle_mask = [2, 1, 0, 3, 6, 5, 4, 7, 10, 9, 8, 11, 14, 13, 12, 15]"

text \<open>\<open>vpshufb\<close> on a 16-byte lane, which holds four pixels; every lane has the same mask.\<close>

definition pshufb :: "u32 list \<Rightarrow> u32 list" where
  "pshufb ps =
     (let bs = concat (map px_bytes ps); cs = map (\<lambda>j. bs ! (pixel_shuffle_mask ! j)) [0..<16]
      in map (\<lambda>k. bytes_px (take 4 (drop (4 * k) cs))) [0..<4])"

fun shuffle :: "nat \<Rightarrow> u32 list \<Rightarrow> u32 list" where
  "shuffle 0 ps = []"
| "shuffle (Suc lanes) ps = pshufb (take 4 ps) @ shuffle lanes (drop 4 ps)"

section \<open>The routines\<close>

type_synonym pixels = "u64 \<Rightarrow> u32"

definition get_px :: "nat \<Rightarrow> u64 \<Rightarrow> nat \<Rightarrow> pixels \<Rightarrow> u32 list" where
  "get_px n row x src = map (\<lambda>k. src (row + of_nat (x + k))) [0..<n]"

definition put_px :: "u64 \<Rightarrow> nat \<Rightarrow> u32 list \<Rightarrow> pixels \<Rightarrow> pixels" where
  "put_px row x ps dst = fold (\<lambda>k d. d(row + of_nat (x + k) := ps ! k)) [0..<length ps] dst"

function scalar_tail :: "nat \<Rightarrow> nat \<Rightarrow> u64 \<Rightarrow> u64 \<Rightarrow> pixels \<Rightarrow> pixels \<Rightarrow> pixels" where
  "scalar_tail x w srow drow src dst =
     (if w \<le> x then dst
      else scalar_tail (x + 1) w srow drow src (put_px drow x (map scalar_px (get_px 1 srow x src)) dst))"
  by pat_completeness auto

termination
  by (relation "measure (\<lambda>(x, w, _). w - x)") auto

function sse2_cols :: "nat \<Rightarrow> nat \<Rightarrow> u64 \<Rightarrow> u64 \<Rightarrow> pixels \<Rightarrow> pixels \<Rightarrow> pixels" where
  "sse2_cols x w srow drow src dst =
     (if w < x + 4 then scalar_tail x w srow drow src dst
      else sse2_cols (x + 4) w srow drow src (put_px drow x (map sse2_px (get_px 4 srow x src)) dst))"
  by pat_completeness auto

termination
  by (relation "measure (\<lambda>(x, w, _). w - x)") auto

function avx2_cols :: "nat \<Rightarrow> nat \<Rightarrow> u64 \<Rightarrow> u64 \<Rightarrow> pixels \<Rightarrow> pixels \<Rightarrow> pixels" where
  "avx2_cols x w srow drow src dst =
     (if w < x + 8 then scalar_tail x w srow drow src dst
      else avx2_cols (x + 8) w srow drow src (put_px drow x (shuffle 2 (get_px 8 srow x src)) dst))"
  by pat_completeness auto

termination
  by (relation "measure (\<lambda>(x, w, _). w - x)") auto

function avx512_cols :: "nat \<Rightarrow> nat \<Rightarrow> u64 \<Rightarrow> u64 \<Rightarrow> pixels \<Rightarrow> pixels \<Rightarrow> pixels" where
  "avx512_cols x w srow drow src dst =
     (if w < x + 16 then
        (if w < x + 8 then scalar_tail x w srow drow src dst
         else avx512_cols (x + 8) w srow drow src (put_px drow x (shuffle 2 (get_px 8 srow x src)) dst))
      else avx512_cols (x + 16) w srow drow src (put_px drow x (shuffle 4 (get_px 16 srow x src)) dst))"
  by pat_completeness auto

termination
  by (relation "measure (\<lambda>(x, w, _). w - x)") auto

declare scalar_tail.simps [simp del] sse2_cols.simps [simp del] avx2_cols.simps [simp del] avx512_cols.simps [simp del]

text \<open>\<open>imul\<close> keeps the low 32 bits.\<close>

definition row_base :: "nat \<Rightarrow> u32 \<Rightarrow> u64" where
  "row_base y pitch = ucast (of_nat y * pitch)"

definition redraw_rows ::
  "(nat \<Rightarrow> nat \<Rightarrow> u64 \<Rightarrow> u64 \<Rightarrow> pixels \<Rightarrow> pixels \<Rightarrow> pixels) \<Rightarrow> pixels \<Rightarrow> nat \<Rightarrow> nat \<Rightarrow> u32 \<Rightarrow> u32 \<Rightarrow> pixels \<Rightarrow> pixels" where
  "redraw_rows cols src w h dst_pitch src_pitch dst =
     fold (\<lambda>y. cols 0 w (row_base y src_pitch) (row_base y dst_pitch) src) [0..<h] dst"

definition screen_redraw_sse2 :: "pixels \<Rightarrow> nat \<Rightarrow> nat \<Rightarrow> u32 \<Rightarrow> u32 \<Rightarrow> pixels \<Rightarrow> pixels" where
  "screen_redraw_sse2 = redraw_rows sse2_cols"

definition screen_redraw_avx2 :: "pixels \<Rightarrow> nat \<Rightarrow> nat \<Rightarrow> u32 \<Rightarrow> u32 \<Rightarrow> pixels \<Rightarrow> pixels" where
  "screen_redraw_avx2 = redraw_rows avx2_cols"

definition screen_redraw_avx512 :: "pixels \<Rightarrow> nat \<Rightarrow> nat \<Rightarrow> u32 \<Rightarrow> u32 \<Rightarrow> pixels \<Rightarrow> pixels" where
  "screen_redraw_avx512 = redraw_rows avx512_cols"

section \<open>They convert alike\<close>

text \<open>The first and the third byte trade places.\<close>

definition swap_rb :: "u32 \<Rightarrow> u32" where
  "swap_rb p = bytes_px (map (\<lambda>k. px_bytes p ! k) [2, 1, 0, 3])"

lemma bit_px_bytes: "k < 4 \<Longrightarrow> bit (px_bytes p ! k) n \<longleftrightarrow> n < 8 \<and> bit p (8 * k + n)"
proof -
  assume "k < 4"
  then consider "k = 0" | "k = 1" | "k = 2" | "k = 3" by linarith
  then show ?thesis by cases (auto simp: px_bytes_def bit_ucast_iff bit_drop_bit_eq)
qed

lemma bit_bytes_px: "bit (bytes_px bs) n \<longleftrightarrow> n < 32 \<and> bit (bs ! (n div 8)) (n mod 8)"
  by (auto simp: bytes_px_def bit_join_bytes)

lemma px_eqI:
  assumes "\<And>k j. k < 4 \<Longrightarrow> j < 8 \<Longrightarrow> bit p (8 * k + j) = bit (q :: u32) (8 * k + j)"
  shows "p = q"
proof (rule bit_word_eqI)
  fix n assume "n < LENGTH(32)"
  then show "bit p n = bit q n" using assms [of "n div 8" "n mod 8"] by simp
qed

lemma bytes_px_byte: "k < 4 \<Longrightarrow> j < 8 \<Longrightarrow> bit (bytes_px bs) (8 * k + j) = bit (bs ! k) j"
  by (simp add: bit_bytes_px)

lemma swap_rb_bit:
  "k < 4 \<Longrightarrow> j < 8 \<Longrightarrow> bit (swap_rb p) (8 * k + j) = bit p (8 * ([2, 1, 0, 3] ! k) + j)"
proof -
  assume k: "k < 4" "j < 8"
  consider "k = 0" | "k = 1" | "k = 2" | "k = 3" using k(1) by linarith
  then show ?thesis unfolding swap_rb_def bytes_px_byte [OF k] using k(2) by cases (simp_all add: bit_px_bytes)
qed

lemma sse2_px_swap: "sse2_px p = swap_rb p"
proof (rule px_eqI)
  fix k j :: nat assume k: "k < 4" "j < 8"
  have m: "bit (0xff00ff00 :: u32) (8 * k + j) = (k = 1 \<or> k = 3)" "bit (0xff :: u32) (8 * k + j) = (k = 0)"
  proof -
    have "list_all (\<lambda>k. list_all (\<lambda>j. bit (0xff00ff00 :: u32) (8 * k + j) = (k = 1 \<or> k = 3) \<and> bit (0xff :: u32) (8 * k + j) = (k = 0)) [0..<8]) [0..<4]"
      by code_simp
    then show "bit (0xff00ff00 :: u32) (8 * k + j) = (k = 1 \<or> k = 3)" "bit (0xff :: u32) (8 * k + j) = (k = 0)"
      using k by (simp_all add: list_all_iff)
  qed
  consider "k = 0" | "k = 1" | "k = 2" | "k = 3" using k(1) by linarith
  then show "bit (sse2_px p) (8 * k + j) = bit (swap_rb p) (8 * k + j)"
    unfolding swap_rb_bit [OF k] sse2_px_def pixel_keep_mask_def pixel_low_mask_def bit_or_iff bit_and_iff m using k(2)
    by cases (auto simp: bit_drop_bit_eq bit_push_bit_iff dest: bit_imp_le_length)
qed

lemma scalar_px_swap: "scalar_px p = swap_rb p"
proof (rule px_eqI)
  fix k j :: nat assume k: "k < 4" "j < 8"
  have l: "length (px_bytes q) = 4" for q by (simp add: px_bytes_def)
  consider "k = 0" | "k = 1" | "k = 2" | "k = 3" using k(1) by linarith
  then show "bit (scalar_px p) (8 * k + j) = bit (swap_rb p) (8 * k + j)"
    unfolding swap_rb_bit [OF k] scalar_px_def Let_def bytes_px_byte [OF k] using k(2)
    by cases (auto simp: rev_nth l bit_px_bytes bit_or_iff bit_drop_bit_eq bit_push_bit_iff dest: bit_imp_le_length)
qed

lemma pshufb_swap: "pshufb [a, b, c, d] = map swap_rb [a, b, c, d]"
  by (simp add: pshufb_def pixel_shuffle_mask_def px_bytes_def swap_rb_def upt_rec)

lemma shuffle_swap: "length ps = 4 * lanes \<Longrightarrow> shuffle lanes ps = map swap_rb ps"
proof (induction lanes arbitrary: ps)
  case (Suc n)
  obtain a b c d qs where p: "ps = [a, b, c, d] @ qs" "length qs = 4 * n"
    using Suc.prems by (auto simp: length_Suc_conv numeral_eq_Suc)
  show ?case using Suc.IH [OF p(2)] pshufb_swap [of a b c d] by (simp add: p(1))
qed simp

text \<open>One pixel after another, which is what every routine comes to.\<close>

definition convert_row :: "nat \<Rightarrow> nat \<Rightarrow> u64 \<Rightarrow> u64 \<Rightarrow> pixels \<Rightarrow> pixels \<Rightarrow> pixels" where
  "convert_row x w srow drow src dst = fold (\<lambda>i d. d(drow + of_nat i := swap_rb (src (srow + of_nat i)))) [x..<w] dst"

lemma put_get_px:
  "put_px drow x (map swap_rb (get_px n srow x src)) dst = convert_row x (x + n) srow drow src dst"
proof -
  have "[x..<x + n] = map (\<lambda>k. x + k) [0..<n]" by (rule nth_equalityI) simp_all
  moreover have "put_px drow x (map swap_rb (get_px n srow x src)) dst =
      fold (\<lambda>k d. d(drow + of_nat (x + k) := swap_rb (src (srow + of_nat (x + k))))) [0..<n] dst"
    unfolding put_px_def by (rule fold_cong) (simp_all add: get_px_def)
  ultimately show ?thesis by (simp add: convert_row_def fold_map comp_def)
qed

lemma convert_row_split:
  "x \<le> y \<Longrightarrow> y \<le> w \<Longrightarrow> convert_row y w srow drow src (convert_row x y srow drow src dst) = convert_row x w srow drow src dst"
proof -
  assume "x \<le> y" "y \<le> w"
  then have "[x..<w] = [x..<y] @ [y..<w]" by (metis le_Suc_ex upt_add_eq_append)
  then show ?thesis by (simp add: convert_row_def)
qed

lemma convert_row_done: "w \<le> x \<Longrightarrow> convert_row x w srow drow src dst = dst"
  by (simp add: convert_row_def)

lemma cols_step:
  "x + n \<le> w \<Longrightarrow>
    convert_row (x + n) w srow drow src (put_px drow x (map swap_rb (get_px n srow x src)) dst) = convert_row x w srow drow src dst"
  using convert_row_split [of x "x + n" w] by (simp add: put_get_px)

lemma length_get_px [simp]: "length (get_px n row x src) = n"
  by (simp add: get_px_def)

lemma scalar_tail_row: "scalar_tail x w srow drow src dst = convert_row x w srow drow src dst"
proof (induction x w srow drow src dst rule: scalar_tail.induct)
  case (1 x w srow drow src dst)
  have m: "map scalar_px ps = map swap_rb ps" for ps by (simp add: scalar_px_swap)
  show ?case
  proof (cases "w \<le> x")
    case False
    then show ?thesis using 1 [OF False] cols_step [of x 1 w] by (subst scalar_tail.simps) (simp add: m)
  qed (subst scalar_tail.simps, simp add: convert_row_done)
qed

lemma sse2_cols_row: "sse2_cols x w srow drow src dst = convert_row x w srow drow src dst"
proof (induction x w srow drow src dst rule: sse2_cols.induct)
  case (1 x w srow drow src dst)
  have m: "map sse2_px ps = map swap_rb ps" for ps by (simp add: sse2_px_swap)
  show ?case
  proof (cases "w < x + 4")
    case False
    then show ?thesis using 1 [OF False] cols_step [of x 4 w] by (subst sse2_cols.simps) (simp add: m)
  qed (subst sse2_cols.simps, simp add: scalar_tail_row)
qed

lemma avx2_cols_row: "avx2_cols x w srow drow src dst = convert_row x w srow drow src dst"
proof (induction x w srow drow src dst rule: avx2_cols.induct)
  case (1 x w srow drow src dst)
  show ?case
  proof (cases "w < x + 8")
    case False
    then show ?thesis using 1 [OF False] cols_step [of x 8 w] by (subst avx2_cols.simps) (simp add: shuffle_swap)
  qed (subst avx2_cols.simps, simp add: scalar_tail_row)
qed

lemma avx512_cols_row: "avx512_cols x w srow drow src dst = convert_row x w srow drow src dst"
proof (induction x w srow drow src dst rule: avx512_cols.induct)
  case (1 x w srow drow src dst)
  consider "\<not> w < x + 16" | "w < x + 16" "\<not> w < x + 8" | "w < x + 16" "w < x + 8" by blast
  then show ?case
  proof cases
    case 1
    then show ?thesis using "1.IH"(2) cols_step [of x 16 w] by (subst avx512_cols.simps) (simp add: shuffle_swap)
  next
    case 2
    then show ?thesis using "1.IH"(1) cols_step [of x 8 w] by (subst avx512_cols.simps) (simp add: shuffle_swap)
  next
    case 3
    then show ?thesis by (subst avx512_cols.simps) (simp add: scalar_tail_row)
  qed
qed

lemma cols_convert: "sse2_cols = convert_row" "avx2_cols = convert_row" "avx512_cols = convert_row"
  by (intro ext, simp add: sse2_cols_row avx2_cols_row avx512_cols_row)+

lemma redraws_convert:
  "screen_redraw_sse2 = redraw_rows convert_row" "screen_redraw_avx2 = redraw_rows convert_row"
  "screen_redraw_avx512 = redraw_rows convert_row"
  by (simp_all add: screen_redraw_sse2_def screen_redraw_avx2_def screen_redraw_avx512_def cols_convert)

text \<open>
  C14: The three redraw routines draw the same: SSE2 with masks and shifts, AVX2 and AVX-512 with byte
  shuffles, each with its tails, set pixel after pixel of the target to the source's with the first and
  third byte exchanged, and nothing else, for every size and pitch, also where the 32-bit row offsets
  wrap around.
\<close>

theorem screen_redraws_agree:
  "screen_redraw_sse2 = redraw_rows convert_row \<and> screen_redraw_avx2 = redraw_rows convert_row \<and>
   screen_redraw_avx512 = redraw_rows convert_row"
  by (simp add: redraws_convert)

section \<open>The redraw\<close>

text \<open>Dawn's framebuffer: little-endian pixels from the end of its image on.\<close>

definition dawn_framebuffer :: "mem \<Rightarrow> pixels" where
  "dawn_framebuffer m = (\<lambda>i. bytes_px (map (\<lambda>k. m (DAWN_IMAGE_SIZE + 4 * i + of_nat k)) [0..<4]))"

text \<open>
  \<open>last\<close> is \<open>last_frame_counter\<close>. The registers saved around the routines are those of the code it
  interrupts, which has no part here.
\<close>

definition dawn_redraw_screen :: "features \<Rightarrow> mem \<Rightarrow> u64 \<times> mouse \<times> graphics \<Rightarrow> u64 \<times> mouse \<times> graphics" where
  "dawn_redraw_screen F m = (\<lambda>(last, s, g).
     if last \<noteq> dawn_readram m DAWN_FRAME_COUNTER then
       let last = dawn_readram m DAWN_FRAME_COUNTER;
           g = g\<lparr>antibuffer0 := antibuffer1 g, antibuffer1 := antibuffer0 g\<rparr>;
           pitch_pixels = ucast ((of_int (vbe_pitch g) :: u64) div 4);
           redraw = (if use_xsave F \<and> has_avx512 F then screen_redraw_avx512
                     else if use_xsave F \<and> has_avx2 F then screen_redraw_avx2 else screen_redraw_sse2);
           g = g\<lparr>antibuffer0 := redraw (dawn_framebuffer m) (nat (vbe_width g)) (nat (vbe_height g)) pitch_pixels
                   (of_int (vbe_width g)) (antibuffer0 g)\<rparr>;
           g = swap_vbufs g;
           (s, g) = put_mouse_cursor True (s, g)
       in (last, s, g)
     else (last, s, g))"

section \<open>A frame\<close>

lemma convert_row_at:
  assumes "w < 2 ^ 32" "unat drow + w \<le> 2 ^ 33"
  shows "convert_row 0 w srow drow src dst k =
    (if unat drow \<le> unat k \<and> unat k < unat drow + w then swap_rb (src (srow + (k - drow))) else dst k)"
  using assms
proof (induction w)
  case (Suc w)
  have u: "unat (drow + of_nat w) = unat drow + w" by (rule unat_add_of_nat) (use Suc.prems in simp)
  have "convert_row 0 (Suc w) srow drow src dst = (convert_row 0 w srow drow src dst)(drow + of_nat w := swap_rb (src (srow + of_nat w)))"
    by (simp add: convert_row_def)
  moreover have "k = drow + of_nat w \<longleftrightarrow> unat k = unat drow + w" using u by (metis word_unat_eq_iff)
  ultimately show ?case using Suc by (auto simp: less_Suc_eq)
qed (auto simp: convert_row_def)

lemma unat_row_base: "y * unat pitch < 2 ^ 32 \<Longrightarrow> y < 2 ^ 32 \<Longrightarrow> unat (row_base y pitch) = y * unat pitch"
  by (simp add: row_base_def unsigned_ucast_eq unat_word_ariths unsigned_of_nat take_bit_nat_eq_self mod_less)

text \<open>Rows that do not overlap are converted one by one.\<close>

lemma redraw_rows_at:
  assumes "w \<le> unat dp" "0 < unat dp" "h * unat dp < 2 ^ 32" "h * unat sp < 2 ^ 32" "h < 2 ^ 31" "w < 2 ^ 32"
  shows "redraw_rows convert_row src w h dp sp dst k =
    (if unat k < h * unat dp \<and> unat k mod unat dp < w
     then swap_rb (src (of_nat (unat k div unat dp * unat sp + unat k mod unat dp))) else dst k)"
  using assms(3-5)
proof (induction h)
  case (Suc h)
  let ?q = "unat dp"
  have le: "h * ?q \<le> Suc h * ?q" "h * unat sp \<le> Suc h * unat sp" by simp_all
  have b: "unat (row_base h dp) = h * ?q" "unat (row_base h sp) = h * unat sp"
    using Suc.prems le by (simp_all add: unat_row_base)
  have ih: "redraw_rows convert_row src w h dp sp dst k =
    (if unat k < h * ?q \<and> unat k mod ?q < w then swap_rb (src (of_nat (unat k div ?q * unat sp + unat k mod ?q))) else dst k)"
    using Suc.IH Suc.prems le by simp
  have row: "redraw_rows convert_row src w (Suc h) dp sp dst k =
    (if h * ?q \<le> unat k \<and> unat k < h * ?q + w then swap_rb (src (row_base h sp + (k - row_base h dp)))
     else redraw_rows convert_row src w h dp sp dst k)"
    using convert_row_at [of w "row_base h dp" "row_base h sp" src "redraw_rows convert_row src w h dp sp dst" k] assms(1,6) Suc.prems(1) b(1)
    by (simp add: redraw_rows_def)
  show ?case
  proof (cases "h * ?q \<le> unat k \<and> unat k < h * ?q + ?q")
    case True
    then obtain i where i: "unat k = h * ?q + i" "i < ?q" by (metis le_Suc_ex add_less_cancel_left)
    then have dm: "unat k div ?q = h" "unat k mod ?q = i" by simp_all
    have same: "of_nat (unat x) = x" for x :: u64 by simp
    have "row_base h dp = of_nat (h * ?q)" "row_base h sp = of_nat (h * unat sp)" using b same by metis+
    moreover have "k = of_nat (h * ?q + i)" using i(1) same [of k] by simp
    ultimately have "row_base h sp + (k - row_base h dp) = of_nat (h * unat sp + i)" by simp
    then show ?thesis using True i dm row ih by simp
  next
    case False
    moreover have "unat k < Suc h * ?q \<longleftrightarrow> unat k < h * ?q" using False by auto
    moreover have n: "\<not> (h * ?q \<le> unat k \<and> unat k < h * ?q + w)" using False assms(1) by auto
    ultimately show ?thesis using row [unfolded if_not_P [OF n]] ih by simp
  qed
qed (simp add: redraw_rows_def)

lemma put_mouse_cursor_keeps:
  "antibuffer0 (snd (put_mouse_cursor r (s, g))) = antibuffer0 g" "antibuffer1 (snd (put_mouse_cursor r (s, g))) = antibuffer1 g"
proof -
  have k: "antibuffer0 (fold f cs h) = antibuffer0 h \<and> antibuffer1 (fold f cs h) = antibuffer1 h"
    if "\<And>c h. antibuffer0 (f c h) = antibuffer0 h \<and> antibuffer1 (f c h) = antibuffer1 h" for f :: "nat \<times> nat \<Rightarrow> graphics \<Rightarrow> graphics" and cs h
    using that by (induction cs arbitrary: h) simp_all
  have "antibuffer0 (fold (erase_px s) cs h) = antibuffer0 h \<and> antibuffer1 (fold (erase_px s) cs h) = antibuffer1 h" for cs h
    by (rule k) (simp add: erase_px_def plot_px_def case_prod_unfold Let_def)
  moreover have "antibuffer0 (fold (draw_px s) cs h) = antibuffer0 h \<and> antibuffer1 (fold (draw_px s) cs h) = antibuffer1 h" for cs h
    by (rule k) (simp add: draw_px_def plot_px_def case_prod_unfold)
  ultimately show "antibuffer0 (snd (put_mouse_cursor r (s, g))) = antibuffer0 g" "antibuffer1 (snd (put_mouse_cursor r (s, g))) = antibuffer1 g"
    by (simp_all add: put_mouse_cursor_def Let_def)
qed

lemma swap_vbufs_keeps:
  "antibuffer0 (swap_vbufs g) = antibuffer0 g" "antibuffer1 (swap_vbufs g) = antibuffer1 g"
  by (simp_all add: swap_vbufs_def)



end
