(* ===== verification/Apic.thy ===== *)
theory Apic
  imports Cpu_Setup
begin

text \<open>
  Routing interrupts (apic.c): the I/O APIC inputs of the timer, the keyboard and the mouse, and the
  non-maskable interrupts, from what the MADT lists. What the APICs' registers hold is an argument.
\<close>

section \<open>What the MADT lists\<close>

record local_apic =
  la_processor_id :: u8
  la_apic_id :: u8

record io_apic =
  ia_addr :: u32
  ia_gsib :: u32

record iso =
  is_irq_source :: u8
  is_gsi :: u32
  is_flags :: u16

record nmi =
  nm_processor :: u8
  nm_flags :: u16
  nm_lint :: u8

record madt_lists =
  local_apics :: "local_apic list"
  io_apics :: "io_apic list"
  isos :: "iso list"
  nmis :: "nmi list"

section \<open>I/O APICs\<close>

text \<open>\<open>ver\<close> is register 1 of an I/O APIC. The first that covers an input, or none (\<open>-1\<close>).\<close>

definition get_max_redir :: "(nat \<Rightarrow> u32) \<Rightarrow> nat \<Rightarrow> u32" where
  "get_max_redir ver i = drop_bit 16 (ver i AND 0xff0000)"

definition get_ioapic_from_gsi :: "madt_lists \<Rightarrow> (nat \<Rightarrow> u32) \<Rightarrow> u32 \<Rightarrow> nat option" where
  "get_ioapic_from_gsi A ver gsi =
     find (\<lambda>i. ia_gsib (io_apics A ! i) \<le> gsi \<and> gsi \<le> ia_gsib (io_apics A ! i) + get_max_redir ver i) [0..<length (io_apics A)]"

definition ioapic_redirect :: "madt_lists \<Rightarrow> (nat \<Rightarrow> u32) \<Rightarrow> u8 \<Rightarrow> u32 \<Rightarrow> u16 \<Rightarrow> u8 \<Rightarrow> event list" where
  "ioapic_redirect A ver irq gsi flags apic =
     (case get_ioapic_from_gsi A ver gsi of
        None \<Rightarrow> [Print KPRN_WARN ''APIC: No I/O APIC handles GSI %u, IRQ %u left unrouted'' [KNum (ucast gsi), KNum (ucast irq)]]
      | Some i \<Rightarrow>
          let redirection = (ucast irq + 32 :: u64);
              redirection = (if bit flags 1 then redirection OR push_bit 13 1 else redirection);
              redirection = (if bit flags 3 then redirection OR push_bit 15 1 else redirection);
              redirection = redirection OR push_bit 56 (ucast apic);
              ioredtbl = (gsi - ia_gsib (io_apics A ! i)) * 2 + 16
          in [Ioapic i (ioredtbl + 0) (ucast redirection), Ioapic i (ioredtbl + 1) (ucast (drop_bit 32 redirection))])"

text \<open>An IRQ goes to the input its override names, else to the one of its number.\<close>

definition redirect_irq :: "madt_lists \<Rightarrow> (nat \<Rightarrow> u32) \<Rightarrow> u8 \<Rightarrow> u8 \<Rightarrow> event list" where
  "redirect_irq A ver bsp irq =
     (case find (\<lambda>s. is_irq_source s = irq) (isos A) of
        Some s \<Rightarrow> ioapic_redirect A ver (is_irq_source s) (is_gsi s) (is_flags s) bsp
      | None \<Rightarrow> ioapic_redirect A ver irq (ucast irq) 0 bsp)"

definition install_redirs :: "madt_lists \<Rightarrow> (nat \<Rightarrow> u32) \<Rightarrow> u32 \<Rightarrow> event list" where
  "install_redirs A ver lapic_id =
     (let bsp = ucast (drop_bit 24 lapic_id) in redirect_irq A ver bsp 0 @ redirect_irq A ver bsp 1 @ redirect_irq A ver bsp 12)"

section \<open>The local APIC\<close>

definition lapic_set_nmi :: "u8 \<Rightarrow> u8 \<Rightarrow> event list" where
  "lapic_set_nmi vec lint =
     (let nmi = (0x400 OR ucast vec :: u32)
      in if lint = 1 then [Lapic LAPIC_LINT1 nmi] else if lint = 0 then [Lapic LAPIC_LINT0 nmi] else [])"

definition nmi_is_for :: "madt_lists \<Rightarrow> nmi \<Rightarrow> u32 \<Rightarrow> bool" where
  "nmi_is_for A n apic_id \<longleftrightarrow>
     (if nm_processor n = 0xff then True
      else case find (\<lambda>l. la_processor_id l = nm_processor n) (local_apics A) of
             Some l \<Rightarrow> ucast (la_apic_id l) = apic_id
           | None \<Rightarrow> False)"

definition install_nmis :: "madt_lists \<Rightarrow> u32 \<Rightarrow> event list" where
  "install_nmis A lapic_id =
     (let apic_id = drop_bit 24 lapic_id
      in concat (map (\<lambda>i. if nmi_is_for A (nmis A ! i) apic_id then lapic_set_nmi (0x90 + of_nat i) (nm_lint (nmis A ! i)) else [])
           [0..<length (nmis A)]))"

definition lapic_enable :: "u32 \<Rightarrow> event list" where
  "lapic_enable svr = [Lapic LAPIC_SVR (svr OR 0x1FF)]"

definition apic_init :: "madt_lists \<Rightarrow> (nat \<Rightarrow> u32) \<Rightarrow> u32 \<Rightarrow> u32 \<Rightarrow> event list" where
  "apic_init A ver lapic_id svr =
     Print KPRN_INFO ''APIC: Installing interrupt source overrides...'' [] # install_redirs A ver lapic_id @
     Print KPRN_INFO ''APIC: Enabling local APIC...'' [] # lapic_enable svr @
     Print KPRN_INFO ''APIC: Installing NMIs...'' [] # install_nmis A lapic_id @
     [Print KPRN_INFO ''APIC: Done.'' []]"

section \<open>What the I/O APIC does with an entry\<close>

text \<open>The 64 bits of an entry as the I/O APIC reads them.\<close>

record route =
  rt_vector :: u8
  rt_delivery :: u8
  rt_logical :: bool
  rt_active_low :: bool
  rt_level :: bool
  rt_masked :: bool
  rt_dest :: u8

definition read_route :: "u32 \<Rightarrow> u32 \<Rightarrow> route" where
  "read_route lo hi =
     \<lparr>rt_vector = ucast lo, rt_delivery = ucast (take_bit 3 (drop_bit 8 lo)), rt_logical = bit lo 11, rt_active_low = bit lo 13,
      rt_level = bit lo 15, rt_masked = bit lo 16, rt_dest = ucast (drop_bit 24 hi)\<rparr>"

definition redirection :: "u8 \<Rightarrow> u16 \<Rightarrow> u8 \<Rightarrow> u64" where
  "redirection irq flags apic =
     (((ucast irq + 32) OR (if bit flags 1 then push_bit 13 1 else 0)) OR (if bit flags 3 then push_bit 15 1 else 0)) OR
     push_bit 56 (ucast apic)"

lemma bit_irq_vector:
  fixes irq :: u8
  assumes "irq < 224"
  shows "bit (ucast irq + 32 :: u64) n \<longleftrightarrow> bit (irq + 32) n"
proof -
  have "unat (irq + 32) = unat irq + 32"
    using assms unat_add_no_wrap [of irq 32] by (simp add: word_less_nat_alt)
  then have "ucast irq + 32 = (ucast (irq + 32) :: u64)"
    using unsigned_less [of irq] by (simp add: word_unat_eq_iff unat_word_ariths unsigned_ucast_eq take_bit_nat_eq_self)
  then show ?thesis by (auto simp: bit_ucast_iff dest: bit_imp_le_length)
qed

lemma bit_redirection:
  assumes "irq < 224"
  shows "bit (redirection irq flags apic) n \<longleftrightarrow>
    bit (irq + 32) n \<or> n = 13 \<and> bit flags 1 \<or> n = 15 \<and> bit flags 3 \<or> 56 \<le> n \<and> bit apic (n - 56)"
proof -
  have "bit (push_bit 13 1 :: u64) n \<longleftrightarrow> n = 13" "bit (push_bit 15 1 :: u64) n \<longleftrightarrow> n = 15"
    by (simp_all only: bit_push_bit_iff bit_1_iff possible_bit_word) auto
  moreover have "bit (push_bit 56 (ucast apic) :: u64) n \<longleftrightarrow> 56 \<le> n \<and> bit apic (n - 56)"
    by (auto simp: bit_push_bit_iff bit_ucast_iff dest: bit_u8)
  ultimately show ?thesis unfolding redirection_def bit_or_iff bit_irq_vector [OF assms] by auto
qed

lemma read_redirection:
  assumes "irq < 224"
  shows "read_route (ucast (redirection irq flags apic)) (ucast (drop_bit 32 (redirection irq flags apic))) =
    \<lparr>rt_vector = irq + 32, rt_delivery = 0, rt_logical = False, rt_active_low = bit flags 1, rt_level = bit flags 3,
     rt_masked = False, rt_dest = apic\<rparr>"
proof -
  note b = bit_redirection [OF assms]
  have v: "ucast (ucast (redirection irq flags apic) :: u32) = irq + 32"
    by (rule bit_word_eqI) (auto simp: bit_ucast_iff b dest: bit_u8)
  have d: "ucast (drop_bit 24 (ucast (drop_bit 32 (redirection irq flags apic)) :: u32)) = apic"
    by (rule bit_word_eqI) (auto simp: bit_ucast_iff bit_drop_bit_eq b dest: bit_u8)
  have m: "ucast (take_bit 3 (drop_bit 8 (ucast (redirection irq flags apic) :: u32))) = (0 :: u8)"
    by (rule bit_word_eqI) (auto simp: bit_ucast_iff bit_drop_bit_eq bit_take_bit_iff b dest: bit_u8)
  have "\<not> bit (irq + 32) 11" "\<not> bit (irq + 32) 13" "\<not> bit (irq + 32) 15" "\<not> bit (irq + 32) 16"
    using bit_u8 [of "irq + 32"] by fastforce+
  then show ?thesis using v d m by (simp add: read_route_def bit_ucast_iff b)
qed

section \<open>The three interrupts\<close>

lemma redirect_events:
  "ioapic_redirect A ver irq gsi flags apic =
    (case get_ioapic_from_gsi A ver gsi of
       None \<Rightarrow> [Print KPRN_WARN ''APIC: No I/O APIC handles GSI %u, IRQ %u left unrouted'' [KNum (ucast gsi), KNum (ucast irq)]]
     | Some i \<Rightarrow> [Ioapic i (16 + 2 * (gsi - ia_gsib (io_apics A ! i))) (ucast (redirection irq flags apic)),
         Ioapic i (17 + 2 * (gsi - ia_gsib (io_apics A ! i))) (ucast (drop_bit 32 (redirection irq flags apic)))])"
proof -
  have "x * 2 + 16 + 0 = 16 + 2 * x" "x * 2 + 16 + 1 = 17 + 2 * x" for x :: u32 by simp_all
  then show ?thesis unfolding ioapic_redirect_def redirection_def Let_def
    by (cases "bit flags 1"; cases "bit flags 3") (simp_all only: if_True if_False or.right_neutral)
qed

text \<open>The input an IRQ goes to, with its flags, and what an event list writes to the I/O APICs.\<close>

definition irq_input :: "madt_lists \<Rightarrow> u8 \<Rightarrow> u32 \<times> u16" where
  "irq_input A irq = (case find (\<lambda>s. is_irq_source s = irq) (isos A) of Some s \<Rightarrow> (is_gsi s, is_flags s) | None \<Rightarrow> (ucast irq, 0))"

lemma redirect_irq_input:
  "redirect_irq A ver bsp irq = ioapic_redirect A ver irq (fst (irq_input A irq)) (snd (irq_input A irq)) bsp"
proof (cases "find (\<lambda>s. is_irq_source s = irq) (isos A)")
  case (Some s)
  then have "is_irq_source s = irq" by (auto simp: find_Some_iff)
  then show ?thesis using Some by (simp add: redirect_irq_def irq_input_def)
qed (simp add: redirect_irq_def irq_input_def)

lemma get_ioapic_covers:
  assumes "get_ioapic_from_gsi A ver gsi = Some i"
  shows "i < length (io_apics A)" "ia_gsib (io_apics A ! i) \<le> gsi" "gsi \<le> ia_gsib (io_apics A ! i) + get_max_redir ver i"
  using assms by (auto simp: get_ioapic_from_gsi_def find_Some_iff)

text \<open>
  The events \<open>es\<close> route an IRQ: where no I/O APIC covers its input, only a warning; else the two halves
  of the entry of that input, which make it an unmasked fixed interrupt to the CPU \<open>bsp\<close>, with the
  polarity and trigger mode of its override, under the vector whose gate is \<open>h\<close>.
\<close>

definition routed :: "madt_lists \<Rightarrow> (nat \<Rightarrow> u32) \<Rightarrow> u8 \<Rightarrow> u8 \<Rightarrow> isr \<Rightarrow> event list \<Rightarrow> bool" where
  "routed A ver bsp irq h es \<longleftrightarrow>
     (case irq_input A irq of (gsi, flags) \<Rightarrow>
        case get_ioapic_from_gsi A ver gsi of
          None \<Rightarrow> \<exists>as. es = [Print KPRN_WARN ''APIC: No I/O APIC handles GSI %u, IRQ %u left unrouted'' as]
        | Some i \<Rightarrow> i < length (io_apics A) \<and> ia_gsib (io_apics A ! i) \<le> gsi \<and>
            (\<exists>lo hi. es = [Ioapic i (16 + 2 * (gsi - ia_gsib (io_apics A ! i))) lo, Ioapic i (17 + 2 * (gsi - ia_gsib (io_apics A ! i))) hi] \<and>
               read_route lo hi = \<lparr>rt_vector = irq + 32, rt_delivery = 0, rt_logical = False, rt_active_low = bit flags 1,
                 rt_level = bit flags 3, rt_masked = False, rt_dest = bsp\<rparr> \<and>
               vector_isr (uint (rt_vector (read_route lo hi))) = Some h))"

lemma redirect_irq_routed:
  assumes "irq < 224" "vector_isr (uint (irq + 32)) = Some h"
  shows "routed A ver bsp irq h (redirect_irq A ver bsp irq)"
  using get_ioapic_covers(1,2) [of A ver "fst (irq_input A irq)"] read_redirection [OF assms(1)] assms(2)
  by (auto simp: routed_def redirect_irq_input redirect_events case_prod_unfold split: option.split)


text \<open>An NMI reaches the boot CPU only through the pin its own entry or an entry for all names.\<close>

lemma nmi_only_own:
  assumes "e \<in> set (install_nmis A lapic_id)"
  shows "\<exists>n\<in>set (nmis A). nmi_is_for A n (drop_bit 24 lapic_id) \<and>
    (\<exists>v. e = Lapic LAPIC_LINT1 v \<and> nm_lint n = 1 \<or> e = Lapic LAPIC_LINT0 v \<and> nm_lint n = 0)"
  using assms by (fastforce simp: install_nmis_def lapic_set_nmi_def Let_def split: if_splits)

end
