(* ===== verification/Timer.thy ===== *)
theory Timer
  imports Screen Apic Smp "HOL-Library.Monad_Syntax"
begin

text \<open>
  Time and power: the timer interrupt and its part on the last CPU (time.c), the timer chip and
  \<open>sleep\<close> (pit.c), and turning the machine off or on again (pm.c).
\<close>

section \<open>The timer interrupt\<close>

definition MOUSE_UPDATE_FREQ :: u64 where "MOUSE_UPDATE_FREQ = 50"
definition SCREEN_REFRESH_FREQ :: u64 where "SCREEN_REFRESH_FREQ = 30"

record kernel =
  k_mem :: mem
  k_io :: io_stack
  k_mouse :: mouse
  k_graphics :: graphics
  k_last_frame :: u64
  k_uptime :: u64

text \<open>The flush, and the mouse and the screen when they are due; \<open>None\<close> is a flush out of fuel.\<close>

definition periodic :: "nat \<Rightarrow> features \<Rightarrow> kernel \<Rightarrow> kernel option" where
  "periodic fuel F K = do {
     (m, io) \<leftarrow> dawn_io_flush fuel (k_mem K, k_io K);
     let K = K\<lparr>k_mem := m, k_io := io\<rparr>;
     let K = (if k_uptime K mod (KRNL_PIT_FREQ div MOUSE_UPDATE_FREQ) = 0
              then (let (m, s) = mouse_update (k_mem K, k_mouse K) in K\<lparr>k_mem := m, k_mouse := s\<rparr>) else K);
     let K = (if k_uptime K mod (KRNL_PIT_FREQ div SCREEN_REFRESH_FREQ) = 0
              then (let (l, s, g) = dawn_redraw_screen F (k_mem K) (k_last_frame K, k_mouse K, k_graphics K)
                    in K\<lparr>k_last_frame := l, k_mouse := s, k_graphics := g\<rparr>) else K);
     Some K
   }"

definition timer_interrupt :: "nat \<Rightarrow> features \<Rightarrow> bool \<Rightarrow> smp \<Rightarrow> kernel \<Rightarrow> (event list \<times> kernel) option" where
  "timer_interrupt fuel F dawn_ready P K =
     (let K = K\<lparr>k_uptime := k_uptime K + 1\<rparr>
      in if \<not> dawn_ready then Some ([], K)
         else do {
           let es = (if 1 < sp_count P then send_ipi (ucast (cl_lapic_id (sp_locals P (sp_count P - 1)))) 0x80 else []);
           let K = K\<lparr>k_mem := dawn_writeram (k_mem K) DAWN_RTC (dawn_readram (k_mem K) DAWN_RTC + DAWN_FIXED_ONE div KRNL_PIT_FREQ)\<rparr>;
           if sp_count P = 1 then do { K \<leftarrow> periodic fuel F K; Some (es, K) }
           else Some (es, K)
         })"

definition timer_interrupt_ap :: "nat \<Rightarrow> features \<Rightarrow> smp \<Rightarrow> nat \<Rightarrow> kernel \<Rightarrow> kernel option" where
  "timer_interrupt_ap fuel F P me K = (if me = sp_count P - 1 then periodic fuel F K else Some K)"

text \<open>Interrupts of the timer one after another.\<close>

fun ticks :: "nat \<Rightarrow> nat \<Rightarrow> features \<Rightarrow> smp \<Rightarrow> kernel \<Rightarrow> (event list \<times> kernel) option" where
  "ticks 0 fuel F P K = Some ([], K)"
| "ticks (Suc n) fuel F P K = do {
     (es, K) \<leftarrow> timer_interrupt fuel F True P K;
     (fs, K) \<leftarrow> ticks n fuel F P K;
     Some (es @ fs, K)
   }"

section \<open>The timer chip\<close>

text \<open>The count is an \<open>uint16_t\<close>, the frequency an \<open>uint32_t\<close>.\<close>

definition pit_count :: "u32 \<Rightarrow> u16" where
  "pit_count frequency =
     (let x = (ucast (1193182 div frequency) :: u16)
      in if frequency div 2 \<le> 1193182 mod frequency then x + 1 else x)"

definition set_pit_freq :: "u32 \<Rightarrow> event list" where
  "set_pit_freq frequency =
     (let x = pit_count frequency
      in [Print KPRN_INFO ''PIT: Setting frequency to %uHz'' [KNum (ucast frequency)],
          Out_b 0x43 0x34, Out_b 0x40 (ucast (x AND 0x00ff)), Out_b 0x40 (ucast (drop_bit 8 (x AND 0xff00))),
          Print KPRN_INFO ''PIT: Frequency updated'' []])"

text \<open>How often \<open>sleep\<close> reads the time, \<open>reads\<close> being what it sees; \<open>None\<close> is one still waiting.\<close>

fun poll_until :: "nat \<Rightarrow> nat \<Rightarrow> u64 \<Rightarrow> (nat \<Rightarrow> u64) \<Rightarrow> nat option" where
  "poll_until 0 k final reads = None"
| "poll_until (Suc fuel) k final reads = (if reads k < final then poll_until fuel (k + 1) final reads else Some (k + 1))"

definition sleep :: "nat \<Rightarrow> u64 \<Rightarrow> u64 \<Rightarrow> (nat \<Rightarrow> u64) \<Rightarrow> nat option" where
  "sleep fuel uptime time reads = (let final_time = uptime + time * (KRNL_PIT_FREQ div 1000) in poll_until fuel 0 final_time reads)"

section \<open>Power\<close>

definition pm_sleep :: "event list" where
  "pm_sleep = [Print KPRN_WARN ''PM: sleep is not implemented.'' []]"

text \<open>What it does where the machine does not turn off.\<close>

definition shutdown :: "u32 \<Rightarrow> u32 \<Rightarrow> u16 \<Rightarrow> u16 \<Rightarrow> event list" where
  "shutdown pm1a pm1b typa typb =
     [Cli, Print KPRN_INFO ''PM: shutdown request'' [], Out_w (ucast pm1a) (typa OR push_bit 13 1)] @
     (if pm1b \<noteq> 0 then [Out_w (ucast pm1b) (typb OR push_bit 13 1)] else []) @
     replicate 100 (In_b 0x80) @ [Print KPRN_WARN ''PM: Unable to shutdown.'' [], Sti]"

text \<open>\<open>status\<close> is what port 0x64 answers, read after read.\<close>

fun wait_input :: "nat \<Rightarrow> nat \<Rightarrow> (nat \<Rightarrow> u8) \<Rightarrow> event list option" where
  "wait_input 0 k status = None"
| "wait_input (Suc fuel) k status =
     (if bit (status k) 1 then map_option (\<lambda>es. In_b 0x64 # es) (wait_input fuel (k + 1) status) else Some [In_b 0x64])"

definition reboot :: "nat \<Rightarrow> (nat \<Rightarrow> u8) \<Rightarrow> event list option" where
  "reboot fuel status =
     map_option (\<lambda>es. [Cli, Print KPRN_INFO ''PM: reboot request'' [], Print KPRN_INFO ''PM: attempting PS/2 reset'' []] @ es @
         [Out_b 0x64 0xfe] @ replicate 100 (In_b 0x80) @ [Print KPRN_INFO ''PM: PS/2 reset failed, triple faulting'' [], Lidt 0 0, Soft_int 0x80])
       (wait_input fuel 0 status)"

section \<open>The clock\<close>

lemma tick_rtc:
  assumes "1 < sp_count P"
  shows "timer_interrupt fuel F True P K = Some (send_ipi (ucast (cl_lapic_id (sp_locals P (sp_count P - 1)))) 0x80,
    K\<lparr>k_uptime := k_uptime K + 1, k_mem := dawn_writeram (k_mem K) DAWN_RTC (dawn_readram (k_mem K) DAWN_RTC + 4294967)\<rparr>)"
  using assms by (simp add: timer_interrupt_def DAWN_FIXED_ONE_def KRNL_PIT_FREQ_def Let_def)


definition two_lapics :: smp where
  "two_lapics = \<lparr>sp_count = 2, sp_locals = (\<lambda>i. \<lparr>cl_number = of_nat i, cl_lapic_id = of_nat (4 * i)\<rparr>)\<rparr>"


text \<open>
  The chip gets the count nearest to the frequency asked for: the remainder that is dropped or made up
  for is at most half the frequency. Below 19 Hz the count does not fit the chip's 16 bits.
\<close>

lemma pit_count_nearest:
  assumes "19 \<le> f"
  shows "2 * \<bar>int (unat (pit_count f)) * int (unat f) - 1193182\<bar> \<le> int (unat f) + 1"
proof -
  let ?f = "unat f" let ?q = "1193182 div ?f" let ?r = "1193182 mod ?f"
  have f: "19 \<le> ?f" using assms by (simp add: word_le_nat_alt)
  then have q: "?q \<le> 62799" using div_le_mono2 [of 19 ?f 1193182] by simp
  have qr: "?q * ?f + ?r = 1193182" and r: "?r < ?f" using f by auto
  have x: "unat (ucast (1193182 div f) :: u16) = ?q"
    using q by (simp add: unsigned_ucast_eq unat_div take_bit_nat_eq_self)
  have c: "frequency div 2 \<le> 1193182 mod frequency \<longleftrightarrow> unat frequency div 2 \<le> 1193182 mod unat frequency" for frequency :: u32
    by (simp add: word_le_nat_alt unat_div unat_mod)
  show ?thesis
  proof (cases "?f div 2 \<le> ?r")
    case True
    have "unat (pit_count f) = ?q + 1"
      using True c [of f] x q by (simp add: pit_count_def Let_def unat_word_ariths)
    moreover have "int (?q + 1) * int ?f - 1193182 = int ?f - int ?r"
      using arg_cong [OF qr, of int] by (simp only: of_nat_add of_nat_mult) (simp add: algebra_simps)
    moreover have "2 * \<bar>int a - int b\<bar> \<le> int a + 1" if "a div 2 \<le> b" "b < a" for a b :: nat using that by arith
    ultimately show ?thesis using True r by presburger
  next
    case False
    have "unat (pit_count f) = ?q" using False c [of f] x by (simp add: pit_count_def Let_def)
    moreover have "int ?q * int ?f - 1193182 = - int ?r"
      using arg_cong [OF qr, of int] by (simp only: of_nat_add of_nat_mult)
    moreover have "2 * \<bar>- int b\<bar> \<le> int a + 1" if "\<not> a div 2 \<le> b" for a b :: nat using that by arith
    ultimately show ?thesis using False by presburger
  qed
qed

end
