(* ===== verification/Acpi.thy ===== *)
theory Acpi
  imports Apic Kstring
begin

text \<open>
  What the kernel learns from the ACPI tables (acpi.c): the table of a signature, the APICs the MADT
  lists, and the sleep types in the DSDT's \<open>_S5_\<close> package. The tables are bytes in memory, at physical
  addresses that are read through the direct map. What is printed on the way is left out.
\<close>

section \<open>Finding a table\<close>

definition load16 :: "mem \<Rightarrow> u64 \<Rightarrow> u16" where
  "load16 m a = join_bytes (\<lambda>i. m (a + of_nat i)) 0 2"

definition load32 :: "mem \<Rightarrow> u64 \<Rightarrow> u32" where
  "load32 m a = join_bytes (\<lambda>i. m (a + of_nat i)) 0 4"

text \<open>A table starts with its signature and, at 4, its length; its header has 36 bytes.\<close>

definition SDT_HEADER :: u64 where "SDT_HEADER = 36"

definition sdt_length :: "mem \<Rightarrow> u64 \<Rightarrow> u32" where
  "sdt_length m sdt = load32 m (sdt + 4)"

text \<open>The XSDT or the RSDT, \<open>root\<close>: a header and the addresses of the other tables.\<close>

definition sdt_entries :: "mem \<Rightarrow> bool \<Rightarrow> u64 \<Rightarrow> u64" where
  "sdt_entries m use_xsdt root = (ucast (sdt_length m root) - SDT_HEADER) div (if use_xsdt then 8 else 4)"

definition sdt_ptr :: "mem \<Rightarrow> u64 \<Rightarrow> bool \<Rightarrow> u64 \<Rightarrow> nat \<Rightarrow> u64" where
  "sdt_ptr m hhdm use_xsdt root i =
     (if use_xsdt then load64 m (root + SDT_HEADER + 8 * of_nat i)
      else ucast (load32 m (root + SDT_HEADER + 4 * of_nat i))) + hhdm"

definition acpi_find_sdt :: "mem \<Rightarrow> u64 \<Rightarrow> bool \<Rightarrow> u64 \<Rightarrow> u64 \<Rightarrow> u64" where
  "acpi_find_sdt m hhdm use_xsdt root signature =
     (case find_from (\<lambda>i. strncmp m (sdt_ptr m hhdm use_xsdt root i) signature 4 = 0) 0 (unat (sdt_entries m use_xsdt root)) of
        None \<Rightarrow> 0
      | Some i \<Rightarrow> sdt_ptr m hhdm use_xsdt root i)"

section \<open>The MADT\<close>

text \<open>
  An entry, by the type in its first byte; its second is its length. The code keeps pointers to the
  entries, here they are read at once. \<open>Madt_full\<close> is writing past the end of one of the arrays.
\<close>

datatype acpi_error = Acpi_panic string | Madt_full

definition MAX_MADT :: nat where "MAX_MADT = 128"

definition madt_entry :: "mem \<Rightarrow> u64 \<Rightarrow> madt_lists \<Rightarrow> acpi_error + madt_lists" where
  "madt_entry m p A =
     (if m p = 0 then
        if length (local_apics A) < MAX_MADT
        then Inr (A\<lparr>local_apics := local_apics A @ [\<lparr>la_processor_id = m (p + 2), la_apic_id = m (p + 3)\<rparr>]\<rparr>) else Inl Madt_full
      else if m p = 1 then
        if length (io_apics A) < MAX_MADT
        then Inr (A\<lparr>io_apics := io_apics A @ [\<lparr>ia_addr = load32 m (p + 4), ia_gsib = load32 m (p + 8)\<rparr>]\<rparr>) else Inl Madt_full
      else if m p = 2 then
        if length (isos A) < MAX_MADT
        then Inr (A\<lparr>isos := isos A @ [\<lparr>is_irq_source = m (p + 3), is_gsi = load32 m (p + 4), is_flags = load16 m (p + 8)\<rparr>]\<rparr>)
        else Inl Madt_full
      else if m p = 4 then
        if length (nmis A) < MAX_MADT
        then Inr (A\<lparr>nmis := nmis A @ [\<lparr>nm_processor = m (p + 2), nm_flags = load16 m (p + 3), nm_lint = m (p + 5)\<rparr>]\<rparr>)
        else Inl Madt_full
      else Inr A)"

text \<open>An entry of length 0 is met again and again; \<open>None\<close> is a walk still on its way when the fuel is out.\<close>

fun madt_walk :: "nat \<Rightarrow> mem \<Rightarrow> u64 \<Rightarrow> u64 \<Rightarrow> madt_lists \<Rightarrow> (acpi_error + madt_lists) option" where
  "madt_walk 0 m e p A = None"
| "madt_walk (Suc fuel) m e p A =
     (if \<not> p < e then Some (Inr A)
      else case madt_entry m p A of
          Inl err \<Rightarrow> Some (Inl err)
        | Inr A \<Rightarrow> madt_walk fuel m e (p + ucast (m (p + 1))) A)"

definition no_entries :: madt_lists where
  "no_entries = \<lparr>local_apics = [], io_apics = [], isos = [], nmis = []\<rparr>"

section \<open>The sleep types\<close>

text \<open>\<open>X_DSDT\<close> counts where the FADT is long enough to have it.\<close>

definition dsdt_of :: "mem \<Rightarrow> u64 \<Rightarrow> u64" where
  "dsdt_of m facp =
     (if 140 + 8 \<le> sdt_length m facp \<and> load64 m (facp + 140) \<noteq> 0 then load64 m (facp + 140)
      else ucast (load32 m (facp + 40)))"

text \<open>From where the name \<open>_S5_\<close> is: the package's operator and length, its number of elements, and two bytes.\<close>

definition skip_prefix :: "mem \<Rightarrow> u64 \<Rightarrow> u64" where
  "skip_prefix m a = (if m a = 0x0a then a + 1 else a)"

definition s5_types :: "mem \<Rightarrow> u64 \<Rightarrow> u16 \<times> u16" where
  "s5_types m s5_addr =
     (let a = s5_addr + 5;
          a = a + (ucast (drop_bit 6 (m a AND 0xc0)) + 2);
          a = skip_prefix m a;
          b = skip_prefix m (a + 1)
      in (push_bit 10 (ucast (m a)), push_bit 10 (ucast (m b))))"

section \<open>All of it\<close>

text \<open>Where the kernel has the names it looks for.\<close>

record acpi_names =
  name_apic :: u64
  name_facp :: u64
  name_s5 :: u64

record acpi =
  ac_lists :: madt_lists
  ac_facp :: u64
  ac_SLP_TYPa :: u16
  ac_SLP_TYPb :: u16

definition acpi_sleep :: "mem \<Rightarrow> u64 \<Rightarrow> acpi_names \<Rightarrow> u64 \<Rightarrow> madt_lists \<Rightarrow> acpi_error + acpi" where
  "acpi_sleep m hhdm N facp A =
     (let dsdt = dsdt_of m facp;
          dsdt_ptr = dsdt + 36 + hhdm;
          dsdt_len = ucast (load32 m (dsdt + 4 + hhdm)) - 36 :: u64
      in case find_from (\<lambda>i. strncmp m (dsdt_ptr + of_nat i) (name_s5 N) 4 = 0) 0 (unat dsdt_len) of
           None \<Rightarrow> Inl (Acpi_panic ''s5 not found'')
         | Some i \<Rightarrow>
             let (a, b) = s5_types m (dsdt_ptr + of_nat i)
             in Inr \<lparr>ac_lists = A, ac_facp = facp, ac_SLP_TYPa = a, ac_SLP_TYPb = b\<rparr>)"

text \<open>The XSDT where there is one.\<close>

definition uses_xsdt :: "mem \<Rightarrow> u64 \<Rightarrow> bool" where
  "uses_xsdt m rsdp \<longleftrightarrow> 2 \<le> m (rsdp + 15) \<and> load64 m (rsdp + 24) \<noteq> 0"

definition root_sdt :: "mem \<Rightarrow> u64 \<Rightarrow> u64 \<Rightarrow> u64" where
  "root_sdt m hhdm rsdp = (if uses_xsdt m rsdp then load64 m (rsdp + 24) else ucast (load32 m (rsdp + 16))) + hhdm"

text \<open>\<open>response\<close> is the RSDP's address, as Limine gives it.\<close>

definition acpi_init :: "nat \<Rightarrow> mem \<Rightarrow> u64 \<Rightarrow> acpi_names \<Rightarrow> u64 option \<Rightarrow> (acpi_error + acpi) option" where
  "acpi_init fuel m hhdm N response =
     (case response of
        None \<Rightarrow> Some (Inl (Acpi_panic ''ACPI: RSDP not provided by bootloader''))
      | Some rsdp \<Rightarrow>
          if rsdp = 0 then Some (Inl (Acpi_panic ''ACPI: RSDP not provided by bootloader''))
          else
            let use_xsdt = uses_xsdt m rsdp;
                root = root_sdt m hhdm rsdp;
                madt = acpi_find_sdt m hhdm use_xsdt root (name_apic N)
            in if madt = 0 then Some (Inl (Acpi_panic ''ACPI: MADT table not found''))
               else case madt_walk fuel m (madt + ucast (sdt_length m madt)) (madt + 44) no_entries of
                   None \<Rightarrow> None
                 | Some (Inl err) \<Rightarrow> Some (Inl err)
                 | Some (Inr A) \<Rightarrow>
                     let facp = acpi_find_sdt m hhdm use_xsdt root (name_facp N)
                     in Some (if facp = 0 then Inl (Acpi_panic ''ACPI: FADT not found'') else acpi_sleep m hhdm N facp A))"

section \<open>Bytes in memory\<close>

definition holds :: "mem \<Rightarrow> u64 \<Rightarrow> u8 list \<Rightarrow> bool" where
  "holds m a bs \<longleftrightarrow> (\<forall>i<length bs. m (a + of_nat i) = bs ! i)"

lemma holds_Nil [simp]: "holds m a []"
  by (simp add: holds_def)

lemma holds_Cons [simp]: "holds m a (b # bs) \<longleftrightarrow> m a = b \<and> holds m (a + 1) bs"
  by (auto simp: holds_def less_Suc_eq_0_disj add.assoc)

lemma holds_append [simp]: "holds m a (bs @ cs) \<longleftrightarrow> holds m a bs \<and> holds m (a + of_nat (length bs)) cs"
  by (induction bs arbitrary: a) (auto simp: add.assoc)

lemma length_le_bytes [simp]: "length (le_bytes n v) = n"
  by (simp add: le_bytes_def)

lemma join_le_bytes:
  fixes v :: "'a::len word"
  assumes "holds m a (le_bytes n v)" "LENGTH('a) = 8 * n"
  shows "join_bytes (\<lambda>i. m (a + of_nat i)) 0 n = v"
proof (rule bit_word_eqI)
  fix k assume k: "k < LENGTH('a)"
  then have "k div 8 < n" using assms(2) by auto
  then have "m (a + of_nat (k div 8)) = ucast (drop_bit (8 * (k div 8)) v)"
    using assms(1) by (simp add: holds_def le_bytes_def)
  then show "bit (join_bytes (\<lambda>i. m (a + of_nat i)) 0 n :: 'a word) k = bit v k"
    using k assms(2) by (simp add: bit_join_bytes bit_ucast_iff bit_drop_bit_eq)
qed

lemma load_le_bytes:
  "holds m a (le_bytes 2 v) \<Longrightarrow> load16 m a = v" "holds m a (le_bytes 4 w) \<Longrightarrow> load32 m a = w"
  by (simp_all add: load16_def load32_def join_le_bytes)

text \<open>Comparing with a name finds the places that hold it.\<close>

lemma strncmp_loop_holds:
  assumes "holds m (s2 + i) ns" "0 \<notin> set ns"
  shows "strncmp_loop m s1 s2 (length ns) i = 0 \<longleftrightarrow> holds m (s1 + i) ns"
  using assms by (induction ns arbitrary: i) (auto simp: add.assoc dest: iffD2 [OF word_uint_eq_iff])

lemma strncmp_holds:
  assumes "holds m s2 ns" "0 \<notin> set ns" "unat n = length ns"
  shows "strncmp m s1 s2 n = 0 \<longleftrightarrow> holds m s1 ns"
  using strncmp_loop_holds [of m s2 0 ns s1] assms by (simp add: strncmp_def)

section \<open>Finding a table, as a search\<close>

text \<open>The addresses of the tables in the RSDT or the XSDT.\<close>

definition root_lists :: "mem \<Rightarrow> u64 \<Rightarrow> bool \<Rightarrow> u64 \<Rightarrow> u64 list \<Rightarrow> bool" where
  "root_lists m hhdm use_xsdt root tabs \<longleftrightarrow>
     unat (sdt_entries m use_xsdt root) = length tabs \<and> (\<forall>i<length tabs. sdt_ptr m hhdm use_xsdt root i = tabs ! i)"

lemma find_from_find:
  assumes "\<forall>i<length xs. P (k + i) \<longleftrightarrow> Q (xs ! i)"
  shows "find Q xs = map_option (\<lambda>i. xs ! (i - k)) (find_from P k (length xs))"
  using assms
proof (induction xs arbitrary: k)
  case (Cons x xs)
  have "\<forall>i<length xs. P (Suc k + i) \<longleftrightarrow> Q (xs ! i)" using Cons.prems by (metis Suc_less_eq add_Suc_shift length_Cons nth_Cons_Suc)
  from Cons.IH [OF this] have IH: "find Q xs = map_option (\<lambda>i. xs ! (i - Suc k)) (find_from P (Suc k) (length xs))" .
  have x: "P k \<longleftrightarrow> Q x" using Cons.prems by force
  show ?case
  proof (cases "Q x")
    case False
    have e: "(x # xs) ! (i - k) = xs ! (i - Suc k)" if "Suc k \<le> i" for i
      using that by (subst Suc_diff_Suc [symmetric]) simp_all
    have "map_option (\<lambda>i. xs ! (i - Suc k)) (find_from P (Suc k) (length xs)) =
        map_option (\<lambda>i. (x # xs) ! (i - k)) (find_from P (Suc k) (length xs))"
      by (rule option.map_cong0) (auto dest!: find_from_Some simp: e)
    then show ?thesis using False x IH by simp
  qed (use x in simp)
qed simp

lemma acpi_find_sdt_find:
  assumes "root_lists m hhdm use_xsdt root tabs" "holds m sg ns" "0 \<notin> set ns" "length ns = 4"
  shows "acpi_find_sdt m hhdm use_xsdt root sg = (case find (\<lambda>p. holds m p ns) tabs of None \<Rightarrow> 0 | Some p \<Rightarrow> p)"
proof -
  let ?P = "\<lambda>i. strncmp m (sdt_ptr m hhdm use_xsdt root i) sg 4 = 0"
  have "\<forall>i<length tabs. ?P (0 + i) \<longleftrightarrow> holds m (tabs ! i) ns"
    using assms(1) by (auto simp: root_lists_def strncmp_holds [OF assms(2,3)] assms(4))
  from find_from_find [OF this] show ?thesis
    using assms(1) by (auto simp: acpi_find_sdt_def root_lists_def split: option.split dest: find_from_Some)
qed

section \<open>The entries of the MADT\<close>

datatype madt_item =
    Lapic_entry local_apic u32
  | Ioapic_entry u8 io_apic
  | Iso_entry u8 iso
  | Nmi_entry nmi
  | Other_entry u8 "u8 list"

text \<open>How the specification lays them out.\<close>

fun madt_bytes :: "madt_item \<Rightarrow> u8 list" where
  "madt_bytes (Lapic_entry a flags) = [0, 8, la_processor_id a, la_apic_id a] @ le_bytes 4 flags"
| "madt_bytes (Ioapic_entry n a) = [1, 12, n, 0] @ le_bytes 4 (ia_addr a) @ le_bytes 4 (ia_gsib a)"
| "madt_bytes (Iso_entry bus s) = [2, 10, bus, is_irq_source s] @ le_bytes 4 (is_gsi s) @ le_bytes 2 (is_flags s)"
| "madt_bytes (Nmi_entry n) = [4, 6, nm_processor n] @ le_bytes 2 (nm_flags n) @ [nm_lint n]"
| "madt_bytes (Other_entry t bs) = [t, of_nat (2 + length bs)] @ bs"

fun madt_ok :: "madt_item \<Rightarrow> bool" where
  "madt_ok (Other_entry t bs) \<longleftrightarrow> t \<notin> {0, 1, 2, 4} \<and> length bs < 254"
| "madt_ok _ \<longleftrightarrow> True"

fun add_entry :: "madt_item \<Rightarrow> madt_lists \<Rightarrow> madt_lists" where
  "add_entry (Lapic_entry a flags) A = A\<lparr>local_apics := local_apics A @ [a]\<rparr>"
| "add_entry (Ioapic_entry n a) A = A\<lparr>io_apics := io_apics A @ [a]\<rparr>"
| "add_entry (Iso_entry bus s) A = A\<lparr>isos := isos A @ [s]\<rparr>"
| "add_entry (Nmi_entry n) A = A\<lparr>nmis := nmis A @ [n]\<rparr>"
| "add_entry (Other_entry t bs) A = A"

definition fits :: "madt_lists \<Rightarrow> bool" where
  "fits A \<longleftrightarrow> length (local_apics A) \<le> MAX_MADT \<and> length (io_apics A) \<le> MAX_MADT \<and>
     length (isos A) \<le> MAX_MADT \<and> length (nmis A) \<le> MAX_MADT"

lemma madt_entry_adds:
  assumes "holds m p (madt_bytes x)" "madt_ok x" "fits (add_entry x A)"
  shows "madt_entry m p A = Inr (add_entry x A)"
  using assms by (cases x) (auto simp: madt_entry_def fits_def load_le_bytes add.assoc)

lemma entry_length:
  assumes "holds m p (madt_bytes x)" "madt_ok x"
  shows "unat (m (p + 1)) = length (madt_bytes x)" and "2 \<le> length (madt_bytes x)"
proof -
  show "2 \<le> length (madt_bytes x)" by (cases x) simp_all
  show "unat (m (p + 1)) = length (madt_bytes x)"
  proof (cases x)
    case (Other_entry t bs)
    then have "m (p + 1) = of_nat (2 + length bs)" using assms(1) by simp
    moreover have "2 + length bs < 2 ^ LENGTH(8)" using Other_entry assms(2) by simp
    ultimately show ?thesis using Other_entry by (simp only: unat_of_nat_small) simp
  qed (use assms(1) in simp_all)
qed

lemma fits_add: "fits (add_entry x A) \<Longrightarrow> fits A"
  by (cases x) (auto simp: fits_def)

lemma fits_fold: "fits (fold add_entry es A) \<Longrightarrow> fits A"
  by (induction es arbitrary: A) (auto dest: fits_add)

lemma madt_walk_reads:
  assumes "holds m p (concat (map madt_bytes es))" "\<forall>x\<in>set es. madt_ok x" "fits (fold add_entry es A)"
    and "unat p + length (concat (map madt_bytes es)) < 2 ^ 64" "length es < fuel"
  shows "madt_walk fuel m (p + of_nat (length (concat (map madt_bytes es)))) p A = Some (Inr (fold add_entry es A))"
  using assms
proof (induction es arbitrary: p A fuel)
  case Nil
  then show ?case by (cases fuel) auto
next
  case (Cons x es)
  obtain f where f: "fuel = Suc f" using Cons.prems(5) by (cases fuel) auto
  let ?n = "length (madt_bytes x)" and ?k = "length (concat (map madt_bytes es))"
  have x: "holds m p (madt_bytes x)" "madt_ok x" using Cons.prems(1,2) by auto
  have n: "2 \<le> ?n" using entry_length [OF x] by simp
  have nxt: "p + ucast (m (p + 1)) = p + of_nat ?n"
    using entry_length(1) [OF x] by (metis of_nat_unat)
  have low: "unat p + (?n + ?k) < 2 ^ LENGTH(64)" using Cons.prems(4) by simp
  then have "unat (p + of_nat (?n + ?k)) = unat p + (?n + ?k)" by (rule unat_add_of_nat)
  then have lt: "p < p + of_nat (?n + ?k)" using n by (simp only: word_less_nat_alt)
  have "unat (p + of_nat ?n) = unat p + ?n" using low by (intro unat_add_of_nat) simp
  then have "unat (p + of_nat ?n) + ?k < 2 ^ 64" using low by simp
  moreover have "holds m (p + of_nat ?n) (concat (map madt_bytes es))" using Cons.prems(1) by simp
  ultimately have "madt_walk f m (p + of_nat ?n + of_nat ?k) (p + of_nat ?n) (add_entry x A) = Some (Inr (fold add_entry es (add_entry x A)))"
    using Cons.prems(2,3,5) f by (intro Cons.IH) auto
  moreover have "madt_entry m p A = Inr (add_entry x A)"
    using madt_entry_adds [OF x] fits_fold Cons.prems(3) by simp
  ultimately show ?case using lt by (simp add: f nxt add.assoc)
qed

text \<open>A MADT with such entries, at most 128 of a kind.\<close>

definition madt_at :: "mem \<Rightarrow> u64 \<Rightarrow> madt_item list \<Rightarrow> bool" where
  "madt_at m madt es \<longleftrightarrow>
     (let n = length (concat (map madt_bytes es))
      in unat (sdt_length m madt) = 44 + n \<and> unat madt + 44 + n < 2 ^ 64 \<and>
         holds m (madt + 44) (concat (map madt_bytes es)) \<and> (\<forall>x\<in>set es. madt_ok x) \<and> fits (fold add_entry es no_entries))"

lemma madt_at_walk:
  assumes "madt_at m madt es" "length es < fuel"
  shows "madt_walk fuel m (madt + ucast (sdt_length m madt)) (madt + 44) no_entries = Some (Inr (fold add_entry es no_entries))"
proof -
  let ?n = "length (concat (map madt_bytes es))"
  note m = assms(1) [unfolded madt_at_def Let_def]
  have "unat (madt + of_nat 44) = unat madt + 44" using m by (intro unat_add_of_nat) simp
  then have "unat (madt + 44) + ?n < 2 ^ 64" using m by simp
  then have "madt_walk fuel m (madt + 44 + of_nat ?n) (madt + 44) no_entries = Some (Inr (fold add_entry es no_entries))"
    using m assms(2) by (intro madt_walk_reads) simp_all
  moreover have "(ucast (sdt_length m madt) :: u64) = of_nat (44 + ?n)" using m by (metis of_nat_unat)
  ultimately show ?thesis by (simp add: add.assoc)
qed

section \<open>The \<open>_S5_\<close> package\<close>

definition APIC_SIG :: "u8 list" where "APIC_SIG = [0x41, 0x50, 0x49, 0x43]"
definition FACP_SIG :: "u8 list" where "FACP_SIG = [0x46, 0x41, 0x43, 0x50]"
definition S5_SIG :: "u8 list" where "S5_SIG = [0x5f, 0x53, 0x35, 0x5f]"

text \<open>
  AML: the length of a package says in the two top bits of its first byte how many more bytes it has, and
  a byte is one after the prefix 0x0a, or \<open>ZeroOp\<close>, \<open>OneOp\<close> or \<open>OnesOp\<close>, which stand for themselves.
\<close>

definition pkg_length :: "u8 list \<Rightarrow> bool" where
  "pkg_length bs \<longleftrightarrow> bs \<noteq> [] \<and> length bs = 1 + unat (drop_bit 6 (hd bs))"

definition aml_byte :: "u8 list \<Rightarrow> u8 \<Rightarrow> bool" where
  "aml_byte bs x \<longleftrightarrow> bs = [0x0a, x] \<or> bs = [x] \<and> x \<in> {0, 1, 0xff}"

definition s5_package :: "u8 list \<Rightarrow> u8 \<Rightarrow> u8 \<Rightarrow> bool" where
  "s5_package bs x y \<longleftrightarrow>
     (\<exists>pkg n as cs. bs = S5_SIG @ [0x12] @ pkg @ [n] @ as @ cs \<and> pkg_length pkg \<and> aml_byte as x \<and> aml_byte cs y)"

lemma top_bits: "drop_bit 6 (v AND 0xc0) = drop_bit 6 (v :: u8)"
proof (rule bit_word_eqI)
  fix n assume "n < LENGTH(8)"
  then have "n < 8" by simp
  moreover have "bit (0xc0 :: u8) 6" "bit (0xc0 :: u8) 7" by simp_all
  ultimately show "bit (drop_bit 6 (v AND 0xc0)) n = bit (drop_bit 6 v) n"
    by (cases rule: less8_cases [of n]) (auto simp: bit_drop_bit_eq bit_and_iff dest: bit_u8)
qed

lemma skip_prefix_byte:
  assumes "holds m a bs" "aml_byte bs x"
  shows "m (skip_prefix m a) = x" "skip_prefix m a + 1 = a + of_nat (length bs)"
  using assms by (auto simp: skip_prefix_def aml_byte_def add.assoc)

lemma s5_types_reads:
  assumes "holds m s bs" "s5_package bs x y"
  shows "s5_types m s = (push_bit 10 (ucast x), push_bit 10 (ucast y))"
proof -
  obtain pkg n as cs where bs: "bs = S5_SIG @ [0x12] @ pkg @ [n] @ as @ cs" "pkg_length pkg" "aml_byte as x" "aml_byte cs y"
    using assms(2) by (auto simp: s5_package_def)
  let ?a = "s + 5 + (of_nat (length pkg) + 1)"
  obtain v vs where pkg: "pkg = v # vs" using bs(2) by (cases pkg) (auto simp: pkg_length_def)
  have h: "m (s + 5) = v" "holds m ?a as" "holds m (?a + of_nat (length as)) cs"
    using assms(1) unfolding bs(1) S5_SIG_def by (simp_all add: pkg add.assoc)
  have "of_nat (length vs) = (ucast (drop_bit 6 v) :: u64)" using bs(2) by (simp add: pkg_length_def pkg of_nat_unat)
  then have a: "s + 5 + (ucast (drop_bit 6 (m (s + 5) AND 0xc0)) + 2) = ?a"
    unfolding h(1) top_bits by (simp add: pkg)
  show ?thesis
    unfolding s5_types_def Let_def a
    by (simp only: skip_prefix_byte [OF h(2) bs(3)] skip_prefix_byte [OF h(3) bs(4)])
qed

text \<open>A DSDT whose first \<open>_S5_\<close> is such a package.\<close>

definition dsdt_at :: "mem \<Rightarrow> u64 \<Rightarrow> u8 \<Rightarrow> u8 \<Rightarrow> bool" where
  "dsdt_at m dsdt x y \<longleftrightarrow>
     (\<exists>pre bs post. s5_package bs x y \<and> unat (sdt_length m dsdt) = 36 + length (pre @ bs @ post) \<and>
        holds m (dsdt + 36) (pre @ bs @ post) \<and> (\<forall>i<length pre. take 4 (drop i (pre @ bs @ post)) \<noteq> S5_SIG))"

lemma holds_drop_take:
  assumes "holds m a bs" "i + n \<le> length bs"
  shows "holds m (a + of_nat i) cs \<and> length cs = n \<longleftrightarrow> take n (drop i bs) = cs"
proof -
  have nth: "m (a + of_nat i + of_nat j) = take n (drop i bs) ! j" if "j < n" for j
    using assms that by (simp add: holds_def add.assoc flip: of_nat_add)
  show ?thesis using assms(2) nth by (auto simp: holds_def list_eq_iff_nth_eq)
qed

lemma find_from_first:
  "P (k + i) \<Longrightarrow> (\<And>j. j < i \<Longrightarrow> \<not> P (k + j)) \<Longrightarrow> i < n \<Longrightarrow> find_from P k n = Some (k + i)"
proof (induction i arbitrary: k n)
  case 0
  then show ?case by (cases n) auto
next
  case (Suc i)
  obtain l where n: "n = Suc l" using Suc.prems(3) by (cases n) auto
  have "\<not> P k" using Suc.prems(2) [of 0] by simp
  moreover have "find_from P (Suc k) l = Some (Suc k + i)"
  proof (rule Suc.IH)
    show "\<not> P (Suc k + j)" if "j < i" for j using Suc.prems(2) [of "Suc j"] that by simp
  qed (use Suc.prems n in simp_all)
  ultimately show ?case by (simp add: n)
qed

lemma s5_package_sig: "s5_package bs x y \<Longrightarrow> take 4 bs = S5_SIG \<and> 4 < length bs"
  by (auto simp: s5_package_def S5_SIG_def)

lemma unat_ucast_u32: "unat (ucast (v :: u32) :: u64) = unat v"
proof -
  have "unat v < 2 ^ LENGTH(32)" by (rule unsigned_less)
  then show ?thesis by (simp add: unsigned_ucast_eq take_bit_nat_eq_self)
qed

lemma acpi_sleep_reads:
  assumes "dsdt_at m (dsdt_of m facp + hhdm) x y" "holds m (name_s5 N) S5_SIG"
  shows "acpi_sleep m hhdm N facp A =
    Inr \<lparr>ac_lists = A, ac_facp = facp, ac_SLP_TYPa = push_bit 10 (ucast x), ac_SLP_TYPb = push_bit 10 (ucast y)\<rparr>"
proof -
  let ?d = "dsdt_of m facp + hhdm"
  obtain pre bs post where s5: "s5_package bs x y" "unat (sdt_length m ?d) = 36 + length (pre @ bs @ post)"
    "holds m (?d + 36) (pre @ bs @ post)" "\<forall>i<length pre. take 4 (drop i (pre @ bs @ post)) \<noteq> S5_SIG"
    using assms(1) by (auto simp: dsdt_at_def)
  let ?P = "\<lambda>i. strncmp m (?d + 36 + of_nat i) (name_s5 N) 4 = 0" and ?n = "length (pre @ bs @ post)"
  have sig: "length S5_SIG = 4" "0 \<notin> set S5_SIG" by (simp_all add: S5_SIG_def)
  have P: "?P i \<longleftrightarrow> take 4 (drop i (pre @ bs @ post)) = S5_SIG" if "i + 4 \<le> ?n" for i
    using holds_drop_take [OF s5(3) that, of S5_SIG] strncmp_holds [OF assms(2) sig(2), of 4] sig(1) by simp
  have n: "length pre + 4 < ?n" using s5_package_sig [OF s5(1)] by simp
  have "?P (0 + length pre)" using P [of "length pre"] n s5_package_sig [OF s5(1)] by simp
  moreover have "\<not> ?P (0 + j)" if "j < length pre" for j using P [of j] n s5(4) that by simp
  ultimately have f: "find_from ?P 0 ?n = Some (0 + length pre)" using n by (intro find_from_first) auto
  have l: "unat (ucast (load32 m (?d + 4)) - 36 :: u64) = ?n"
    using s5(2) by (simp add: sdt_length_def unat_sub word_le_nat_alt unat_ucast_u32)
  have e: "dsdt_of m facp + 36 + hhdm = ?d + 36" "dsdt_of m facp + 4 + hhdm = ?d + 4" by simp_all
  have "s5_types m (?d + 36 + of_nat (length pre)) = (push_bit 10 (ucast x), push_bit 10 (ucast y))"
    using s5(1,3) by (intro s5_types_reads) auto
  then show ?thesis unfolding acpi_sleep_def Let_def e l f by simp
qed

section \<open>The tables, read\<close>

definition names_at :: "mem \<Rightarrow> acpi_names \<Rightarrow> bool" where
  "names_at m N \<longleftrightarrow> holds m (name_apic N) APIC_SIG \<and> holds m (name_facp N) FACP_SIG \<and> holds m (name_s5 N) S5_SIG"


text \<open>An entry of length 0 keeps the walk from ending.\<close>

lemma madt_walk_stuck:
  assumes "p < e" "m (p + 1) = 0" "m p \<notin> {0, 1, 2, 4}"
  shows "madt_walk fuel m e p A = None"
  using assms by (induction fuel) (simp_all add: madt_entry_def)

section \<open>At concrete tables\<close>

definition sample_entries :: "madt_item list" where
  "sample_entries = [Lapic_entry \<lparr>la_processor_id = 1, la_apic_id = 2\<rparr> 1,
     Ioapic_entry 3 \<lparr>ia_addr = 0xfec00000, ia_gsib = 0\<rparr>,
     Iso_entry 0 \<lparr>is_irq_source = 0, is_gsi = 2, is_flags = 5\<rparr>,
     Other_entry 3 [7, 7], Nmi_entry \<lparr>nm_processor = 0xff, nm_flags = 0, nm_lint = 1\<rparr>]"

text \<open>
  From address 16: the RSDP (revision 0), an RSDT with two tables, a MADT, a FADT and a DSDT, and the names.
\<close>

definition sample_tables :: "u8 list" where
  "sample_tables =
     replicate 16 0 @ le_bytes 4 (52 :: u32) @ replicate 16 0 @
     replicate 4 0 @ le_bytes 4 (44 :: u32) @ replicate 28 0 @ le_bytes 4 (96 :: u32) @ le_bytes 4 (180 :: u32) @
     APIC_SIG @ le_bytes 4 (84 :: u32) @ replicate 36 0 @ concat (map madt_bytes sample_entries) @
     FACP_SIG @ le_bytes 4 (44 :: u32) @ replicate 32 0 @ le_bytes 4 (224 :: u32) @
     replicate 4 0 @ le_bytes 4 (48 :: u32) @ replicate 28 0 @ [0x08] @ S5_SIG @ [0x12, 0x06, 0x02, 0x0a, 0x05, 0x01, 0] @
     APIC_SIG @ FACP_SIG @ S5_SIG"

definition sample_mem :: mem where
  "sample_mem x = (if unat x - 16 < length sample_tables then sample_tables ! (unat x - 16) else 0)"

definition sample_names :: acpi_names where
  "sample_names = \<lparr>name_apic = 272, name_facp = 276, name_s5 = 280\<rparr>"

lemma sample_holds:
  assumes "take (length bs) (drop k sample_tables) = bs" "a = of_nat (16 + k)" "k + length bs \<le> 268"
  shows "holds sample_mem a bs"
proof -
  have len: "length sample_tables = 268" by code_simp
  have "sample_mem (a + of_nat i) = bs ! i" if "i < length bs" for i
  proof -
    have "unat (of_nat (16 + k + i) :: u64) = 16 + k + i" using that assms(3) by (intro unat_of_nat_u64) simp
    then have "unat (a + of_nat i) = 16 + k + i" using assms(2) by (simp add: add.assoc)
    moreover have "take (length bs) (drop k sample_tables) ! i = bs ! i" using assms(1) by simp
    ultimately show ?thesis using that assms(3) by (simp add: sample_mem_def len)
  qed
  then show ?thesis by (simp add: holds_def)
qed

lemma sample_madt: "madt_at sample_mem 96 sample_entries"
proof -
  have "holds sample_mem (96 + 44) (concat (map madt_bytes sample_entries))"
  proof (rule sample_holds [where k = 124])
    show "take (length (concat (map madt_bytes sample_entries))) (drop 124 sample_tables) = concat (map madt_bytes sample_entries)"
      by code_simp
    show "124 + length (concat (map madt_bytes sample_entries)) \<le> 268" by code_simp
  qed simp
  moreover have "unat (sdt_length sample_mem 96) = 44 + length (concat (map madt_bytes sample_entries))" by code_simp
  moreover have "length (concat (map madt_bytes sample_entries)) = 40" by code_simp
  moreover have "\<forall>x\<in>set sample_entries. madt_ok x" by (simp add: sample_entries_def)
  moreover have "fits (fold add_entry sample_entries no_entries)"
    by (simp add: sample_entries_def fits_def no_entries_def MAX_MADT_def)
  ultimately show ?thesis by (simp add: madt_at_def)
qed

lemma sample_dsdt: "dsdt_at sample_mem (dsdt_of sample_mem 180 + 0) 5 1"
proof -
  let ?bs = "S5_SIG @ [0x12] @ [6] @ [2] @ [0x0a, 5] @ [1]"
  have "pkg_length [6]" by code_simp
  moreover have "aml_byte [0x0a, 5] 5" "aml_byte [1] 1" by code_simp+
  ultimately have "s5_package ?bs 5 1" unfolding s5_package_def by blast
  moreover have "unat (sdt_length sample_mem (dsdt_of sample_mem 180 + 0)) = 36 + length ([8] @ ?bs @ [0])" by code_simp
  moreover have "holds sample_mem (dsdt_of sample_mem 180 + 0 + 36) ([8] @ ?bs @ [0])" by code_simp
  moreover have "\<forall>i<length [8 :: u8]. take 4 (drop i ([8] @ ?bs @ [0])) \<noteq> S5_SIG" by code_simp
  ultimately show ?thesis unfolding dsdt_at_def by blast
qed


end
